(* ===== verification/Prelude.thy ===== *)
theory Prelude
  imports Complex_Main "HOL-Library.Word" "HOL-Library.Char_ord" "HOL-Library.List_Lexorder"
begin

text \<open>
  What every component shares: bytes and byte strings, results of operations that can
  fail, big-endian numbers of a fixed width (\<^verbatim>\<open>encoding/binary\<close>), hexadecimal text
  (\<^verbatim>\<open>encoding/hex\<close>), the three-way comparison of \<^verbatim>\<open>bytes.Compare\<close>, and loops that run
  an operation a given number of times. A Go \<^verbatim>\<open>string\<close> is a sequence of bytes; it is a
  \<^typ>\<open>string\<close> here, whose characters are bytes too, and the order of \<^verbatim>\<open><=\<close> on Go
  strings is the lexicographic order of the library theory List_Lexorder.
\<close>

named_theorems result_simps \<open>equations that take a failing computation apart\<close>
named_theorems byte_simps \<open>laws of the byte-level encodings\<close>

type_synonym byte = "8 word"
type_synonym bytes = "byte list"
type_synonym hash = string

subsection \<open>Results: an error or a value\<close>

definition rbind :: "'e + 'a \<Rightarrow> ('a \<Rightarrow> 'e + 'b) \<Rightarrow> 'e + 'b" where
  "rbind m f = (case m of Inl e \<Rightarrow> Inl e | Inr a \<Rightarrow> f a)"

lemma rbind_Inl [simp]: "rbind (Inl e) f = Inl e"
  by (simp add: rbind_def)

lemma rbind_Inr [simp]: "rbind (Inr a) f = f a"
  by (simp add: rbind_def)

lemma rbind_eq_Inr [result_simps]: "rbind m f = Inr b \<longleftrightarrow> (\<exists>a. m = Inr a \<and> f a = Inr b)"
  by (cases m) auto

lemma rbind_eq_Inl [result_simps]:
  "rbind m f = Inl e \<longleftrightarrow> m = Inl e \<or> (\<exists>a. m = Inr a \<and> f a = Inl e)"
  by (cases m) auto

lemma rbind_cong [fundef_cong]:
  "m = m' \<Longrightarrow> (\<And>a. m' = Inr a \<Longrightarrow> f a = g a) \<Longrightarrow> rbind m f = rbind m' g"
  by (cases m') auto

lemma if_Inl_eq_Inr [result_simps]:
  "((if c then Inl e else m) = Inr b) \<longleftrightarrow> \<not> c \<and> m = Inr b"
  by auto

definition guard_r :: "bool \<Rightarrow> 'e \<Rightarrow> 'e + unit" where
  "guard_r c e = (if c then Inr () else Inl e)"

lemma guard_r_eq_Inr [result_simps]: "guard_r c e = Inr u \<longleftrightarrow> c"
  by (simp add: guard_r_def)

lemma guard_r_True [simp]: "guard_r True e = Inr ()"
  by (simp add: guard_r_def)

lemma guard_r_False [simp]: "guard_r False e = Inl e"
  by (simp add: guard_r_def)

subsection \<open>Big-endian numbers\<close>

text \<open>
  \<^verbatim>\<open>binary.BigEndian.AppendUint32\<close> and \<^verbatim>\<open>AppendUint64\<close> write a number modulo
  \<^verbatim>\<open>2^32\<close> or \<^verbatim>\<open>2^64\<close>, most significant byte first; \<^verbatim>\<open>big.Int.SetBytes\<close> reads one.
\<close>

fun be_bytes :: "nat \<Rightarrow> nat \<Rightarrow> bytes" where
  "be_bytes 0 n = []"
| "be_bytes (Suc k) n = be_bytes k (n div 256) @ [word_of_nat (n mod 256)]"

definition be_nat :: "bytes \<Rightarrow> nat" where
  "be_nat bs = foldl (\<lambda>a b. a * 256 + unat b) 0 bs"

lemma length_be_bytes [simp, byte_simps]: "length (be_bytes k n) = k"
  by (induction k arbitrary: n) simp_all

lemma unat_byte_mod [simp]: "unat (word_of_nat (n mod 256) :: byte) = n mod 256"
  by (simp add: unat_of_nat)

lemma be_nat_Nil [simp]: "be_nat [] = 0"
  by (simp add: be_nat_def)

lemma be_nat_snoc [simp]: "be_nat (bs @ [b]) = be_nat bs * 256 + unat b"
  by (simp add: be_nat_def)

lemma unat_byte_lt [simp]: "unat (b :: byte) < 256"
  using unsigned_less [of b] by simp

lemma be_nat_be_bytes_mod: "be_nat (be_bytes k n) = n mod 256 ^ k"
proof (induction k arbitrary: n)
  case 0
  then show ?case by simp
next
  case (Suc k)
  then show ?case
    by (simp add: mod_mult2_eq mult.commute)
qed

lemma be_nat_be_bytes [byte_simps]: "n < 256 ^ k \<Longrightarrow> be_nat (be_bytes k n) = n"
  by (simp add: be_nat_be_bytes_mod)

lemma be_nat_lt: "be_nat bs < 256 ^ length bs"
proof (induction bs rule: rev_induct)
  case Nil
  then show ?case by simp
next
  case (snoc b bs)
  have "be_nat bs * 256 + unat b < (be_nat bs + 1) * 256" by simp
  also have "\<dots> \<le> 256 ^ length bs * 256"
    using snoc by (simp only: mult_le_mono1 Suc_leI Suc_eq_plus1 [symmetric])
  finally show ?case by simp
qed

lemma be_bytes_be_nat [byte_simps]: "k = length bs \<Longrightarrow> be_bytes k (be_nat bs) = bs"
proof (induction bs arbitrary: k rule: rev_induct)
  case Nil
  then show ?case by simp
next
  case (snoc b bs)
  have "(be_nat bs * 256 + unat b) div 256 = be_nat bs" by simp
  moreover have "(be_nat bs * 256 + unat b) mod 256 = unat b" by simp
  ultimately show ?case
    using snoc by (simp del: be_nat_snoc add: be_nat_snoc)
qed

text \<open>
  The minimal magnitude of \<^verbatim>\<open>big.Int.Bytes\<close>: no leading zero byte, empty for zero. Its
  length is \<^verbatim>\<open>(v.BitLen() + 7) / 8\<close>.
\<close>

function mag_len :: "nat \<Rightarrow> nat" where
  "mag_len n = (if n = 0 then 0 else Suc (mag_len (n div 256)))"
  by pat_completeness auto
termination by (relation "measure id") auto

declare mag_len.simps [simp del]

definition mag_bytes :: "nat \<Rightarrow> bytes" where
  "mag_bytes n = be_bytes (mag_len n) n"

lemma mag_len_0 [simp]: "mag_len 0 = 0"
  by (simp add: mag_len.simps)

lemma mag_len_pos: "0 < n \<Longrightarrow> mag_len n = Suc (mag_len (n div 256))"
  by (subst mag_len.simps) simp

lemma mag_len_eq_0 [simp]: "mag_len n = 0 \<longleftrightarrow> n = 0"
  by (subst mag_len.simps) simp

lemma mag_len_gt_0 [simp]: "0 < mag_len n \<longleftrightarrow> 0 < n"
  by (subst mag_len.simps) simp

lemma lt_256_pow_mag_len: "n < 256 ^ mag_len n"
proof (induction n rule: mag_len.induct)
  case (1 n)
  show ?case
  proof (cases "n = 0")
    case True
    then show ?thesis by simp
  next
    case False
    with 1 have "n div 256 < 256 ^ mag_len (n div 256)" by simp
    then have "n < 256 * 256 ^ mag_len (n div 256)"
      by (simp add: div_less_iff_less_mult mult.commute)
    with False show ?thesis by (simp add: mag_len_pos)
  qed
qed

lemma length_mag_bytes [simp, byte_simps]: "length (mag_bytes n) = mag_len n"
  by (simp add: mag_bytes_def)

lemma mag_bytes_0 [simp]: "mag_bytes 0 = []"
  by (simp add: mag_bytes_def)

lemma be_nat_mag_bytes [simp, byte_simps]: "be_nat (mag_bytes n) = n"
  by (simp add: mag_bytes_def be_nat_be_bytes lt_256_pow_mag_len)

lemma be_nat_Cons: "be_nat (b # bs) = unat b * 256 ^ length bs + be_nat bs"
proof (induction bs rule: rev_induct)
  case Nil
  then show ?case by (simp add: be_nat_def)
next
  case (snoc c bs)
  have "be_nat (b # bs @ [c]) = be_nat (b # bs) * 256 + unat c"
    using be_nat_snoc [of "b # bs" c] by simp
  with snoc show ?case by (simp add: algebra_simps)
qed

lemma mag_len_be_nat: "bs = [] \<or> hd bs \<noteq> 0 \<Longrightarrow> mag_len (be_nat bs) = length bs"
proof (induction bs rule: rev_induct)
  case Nil
  then show ?case by simp
next
  case (snoc b bs)
  have pos: "0 < be_nat (bs @ [b])"
  proof (cases "bs @ [b]")
    case Nil
    then show ?thesis by simp
  next
    case (Cons c cs)
    with snoc.prems have "0 < unat c" by (simp add: unat_gt_0)
    with Cons show ?thesis by (simp add: be_nat_Cons)
  qed
  have "be_nat (bs @ [b]) div 256 = be_nat bs" by simp
  moreover have "bs = [] \<or> hd bs \<noteq> 0"
    using snoc.prems by (cases bs) auto
  ultimately show ?case
    using snoc.IH pos by (subst mag_len_pos) simp_all
qed

lemma mag_bytes_be_nat: "bs = [] \<or> hd bs \<noteq> 0 \<Longrightarrow> mag_bytes (be_nat bs) = bs"
  by (simp add: mag_bytes_def mag_len_be_nat be_bytes_be_nat)

lemma hd_mag_bytes: "0 < n \<Longrightarrow> hd (mag_bytes n) \<noteq> 0"
proof (induction n rule: mag_len.induct)
  case (1 n)
  show ?case
  proof (cases "n div 256 = 0")
    case True
    with 1 have "n < 256" by simp
    with 1 have "mag_bytes n = [word_of_nat n]"
      by (simp add: mag_bytes_def mag_len_pos True)
    moreover have "(word_of_nat n :: byte) \<noteq> 0"
      using \<open>n < 256\<close> "1.prems" by (metis gr_implies_not_zero mod_less unat_0 unat_byte_mod)
    ultimately show ?thesis by simp
  next
    case False
    with 1 have "hd (mag_bytes (n div 256)) \<noteq> 0" by simp
    moreover have "mag_bytes n = mag_bytes (n div 256) @ [word_of_nat (n mod 256)]"
      using 1 by (simp add: mag_bytes_def mag_len_pos)
    moreover have "mag_bytes (n div 256) \<noteq> []"
      using False by (metis be_nat_Nil be_nat_mag_bytes)
    ultimately show ?thesis by simp
  qed
qed

subsection \<open>Strings as bytes, and hexadecimal text\<close>

definition byte_of_char :: "char \<Rightarrow> byte" where
  "byte_of_char c = word_of_nat (of_char c)"

definition char_of_byte :: "byte \<Rightarrow> char" where
  "char_of_byte b = char_of (unat b)"

definition str_bytes :: "string \<Rightarrow> bytes" where
  "str_bytes s = map byte_of_char s"

definition bytes_str :: "bytes \<Rightarrow> string" where
  "bytes_str bs = map char_of_byte bs"

lemma char_of_byte_of_char [simp]: "char_of_byte (byte_of_char c) = c"
proof -
  have "(of_char c :: nat) < 256" by simp
  then have "unat (word_of_nat (of_char c) :: byte) = of_char c"
    by (simp add: unat_of_nat)
  then show ?thesis by (simp add: char_of_byte_def byte_of_char_def)
qed

lemma byte_of_char_of_byte [simp]: "byte_of_char (char_of_byte b) = b"
  by (simp add: char_of_byte_def byte_of_char_def)

lemma bytes_str_str_bytes [simp, byte_simps]: "bytes_str (str_bytes s) = s"
  by (simp add: bytes_str_def str_bytes_def map_idI)

lemma str_bytes_bytes_str [simp, byte_simps]: "str_bytes (bytes_str bs) = bs"
  by (simp add: bytes_str_def str_bytes_def map_idI)

lemma length_str_bytes [simp, byte_simps]: "length (str_bytes s) = length s"
  by (simp add: str_bytes_def)

lemma length_bytes_str [simp, byte_simps]: "length (bytes_str s) = length s"
  by (simp add: bytes_str_def)

text \<open>
  \<^verbatim>\<open>hex.EncodeToString\<close> writes lower-case digits; \<^verbatim>\<open>hex.DecodeString\<close> reads either case
  and fails on an odd length or on any other character.
\<close>

definition hex_digits :: string where
  "hex_digits = ''0123456789abcdef''"

definition hex_val :: "char \<Rightarrow> nat option" where
  "hex_val c =
     (let n = of_char c :: nat
      in if 48 \<le> n \<and> n \<le> 57 then Some (n - 48)
         else if 97 \<le> n \<and> n \<le> 102 then Some (n - 87)
         else if 65 \<le> n \<and> n \<le> 70 then Some (n - 55)
         else None)"

fun hex_encode :: "bytes \<Rightarrow> string" where
  "hex_encode [] = ''''"
| "hex_encode (b # bs) =
     hex_digits ! (unat b div 16) # hex_digits ! (unat b mod 16) # hex_encode bs"

fun hex_decode :: "string \<Rightarrow> bytes option" where
  "hex_decode [] = Some []"
| "hex_decode [c] = None"
| "hex_decode (c # d # s) =
     (case hex_val c of None \<Rightarrow> None
      | Some x \<Rightarrow> (case hex_val d of None \<Rightarrow> None
      | Some y \<Rightarrow> (case hex_decode s of None \<Rightarrow> None
      | Some bs \<Rightarrow> Some (word_of_nat (16 * x + y) # bs))))"

lemma hex_val_digit [simp]: "n < 16 \<Longrightarrow> hex_val (hex_digits ! n) = Some n"
proof -
  assume "n < 16"
  then have "n \<in> set [0, 1, 2, 3, 4, 5, 6, 7, 8, 9, 10, 11, 12, 13, 14, 15]"
    by (simp add: eval_nat_numeral less_Suc_eq)
  then show ?thesis
    by (auto simp: hex_digits_def hex_val_def)
qed

lemma hex_decode_encode [simp, byte_simps]: "hex_decode (hex_encode bs) = Some bs"
proof (induction bs)
  case Nil
  then show ?case by simp
next
  case (Cons b bs)
  have "unat b div 16 < 16" by (simp add: div_less_iff_less_mult)
  moreover have "word_of_nat (16 * (unat b div 16) + unat b mod 16) = b" by simp
  ultimately show ?case using Cons by simp
qed

lemma length_hex_encode [simp, byte_simps]: "length (hex_encode bs) = 2 * length bs"
  by (induction bs) simp_all

text \<open>
  A canonical hash reference: the lower-case hexadecimal text of 32 bytes. \<open>hash_raw\<close> is
  the 32 bytes it stands for.
\<close>

definition hash_ok :: "hash \<Rightarrow> bool" where
  "hash_ok h =
     (case hex_decode h of None \<Rightarrow> False
      | Some raw \<Rightarrow> length raw = 32 \<and> hex_encode raw = h)"

definition hash_raw :: "hash \<Rightarrow> bytes" where
  "hash_raw h = (case hex_decode h of None \<Rightarrow> [] | Some raw \<Rightarrow> raw)"

lemma hash_ok_decode: "hash_ok h \<Longrightarrow> hex_decode h = Some (hash_raw h)"
  by (simp add: hash_ok_def hash_raw_def split: option.splits)

lemma hash_ok_length [byte_simps]: "hash_ok h \<Longrightarrow> length (hash_raw h) = 32"
  by (simp add: hash_ok_def hash_raw_def split: option.splits)

lemma hex_encode_hash_raw [byte_simps]: "hash_ok h \<Longrightarrow> hex_encode (hash_raw h) = h"
  by (simp add: hash_ok_def hash_raw_def split: option.splits)

lemma hash_ok_hex_encode [simp, byte_simps]: "length raw = 32 \<Longrightarrow> hash_ok (hex_encode raw)"
  by (simp add: hash_ok_def)

lemma hash_raw_hex_encode [simp, byte_simps]: "hash_raw (hex_encode raw) = raw"
  by (simp add: hash_raw_def)

subsection \<open>Comparison of byte strings\<close>

text \<open>\<^verbatim>\<open>bytes.Compare\<close>: -1, 0 or 1, lexicographically.\<close>

fun bytes_compare :: "bytes \<Rightarrow> bytes \<Rightarrow> int" where
  "bytes_compare [] [] = 0"
| "bytes_compare [] (b # bs) = -1"
| "bytes_compare (a # as) [] = 1"
| "bytes_compare (a # as) (b # bs) =
     (if a < b then -1 else if b < a then 1 else bytes_compare as bs)"

lemma bytes_compare_refl [simp]: "bytes_compare xs xs = 0"
  by (induction xs) simp_all

lemma bytes_compare_eq_0 [simp]: "bytes_compare xs ys = 0 \<longleftrightarrow> xs = ys"
  by (induction xs ys rule: bytes_compare.induct) auto

lemma bytes_compare_anti: "bytes_compare ys xs = - bytes_compare xs ys"
  by (induction xs ys rule: bytes_compare.induct) auto

text \<open>A difference within a common prefix decides the comparison of the whole.\<close>

lemma bytes_compare_take:
  "bytes_compare (take n xs) (take n ys) \<noteq> 0 \<Longrightarrow> n \<le> length xs \<Longrightarrow> n \<le> length ys \<Longrightarrow>
   bytes_compare xs ys = bytes_compare (take n xs) (take n ys)"
proof (induction n arbitrary: xs ys)
  case 0
  then show ?case by simp
next
  case (Suc n)
  obtain x xs' where xs: "xs = x # xs'"
    using Suc.prems(2) by (cases xs) auto
  obtain y ys' where ys: "ys = y # ys'"
    using Suc.prems(3) by (cases ys) auto
  show ?case
  proof (cases "x = y")
    case True
    then have "bytes_compare xs' ys' = bytes_compare (take n xs') (take n ys')"
      using Suc.prems xs ys by (intro Suc.IH) simp_all
    with True show ?thesis by (simp add: xs ys)
  next
    case False
    then show ?thesis by (auto simp: xs ys)
  qed
qed

end
