(* ===== verification/Syntax.thy ===== *)
theory Syntax
  imports Prelude
begin

text \<open>
  The AST of \<^verbatim>\<open>oath/ast.go\<close>: types (\<^verbatim>\<open>Ty\<close>), terms (\<^verbatim>\<open>Term\<close>), properties (\<^verbatim>\<open>Prop\<close>) and
  definitions (\<^verbatim>\<open>Def\<close>). The Go structs are tagged unions (the tag is the field \<^verbatim>\<open>K\<close>, and
  only the fields of the tag's form are used), so they are datatypes here, one constructor
  per value of \<^verbatim>\<open>K\<close>, with the children in the order of the struct's fields. A pointer to a
  required child is the child: an AST with a missing child, which no decoder and no
  elaborator builds, is not represented. Variables are de Bruijn indices, never negative.
  An integer literal is an \<^typ>\<open>int\<close> (\<^verbatim>\<open>big.Int\<close>), a rational literal a \<^typ>\<open>rat\<close>
  (\<^verbatim>\<open>big.Rat\<close>), a float literal its IEEE-754 bit pattern.
\<close>

datatype ty =
    TInt
  | TRat
  | TFloat
  | TBool
  | TVar nat
  | TFun ty ty
  | TData hash "ty list"
  | TRec "ty list"
  | TRecord "string list" "ty list"

datatype trm =
    Var nat
  | IntL int
  | RatL rat
  | FloatL "64 word"
  | BoolL bool
  | Lam ty trm
  | App trm trm
  | Let ty trm trm
  | If trm trm trm
  | Prim string "trm list"
  | Ref hash "ty list"
  | Self "ty list"
  | Ctor hash nat "ty list" "trm list"
  | Match hash trm "trm list"
  | Record "string list" "trm list"
  | Field trm string

record property =
  binders :: "ty list"
  pbody :: trm

datatype def =
    DData nat "ty list list"
  | DFunc nat ty trm "property list"

fun def_tyvars :: "def \<Rightarrow> nat" where
  "def_tyvars (DData n cs) = n"
| "def_tyvars (DFunc n t b ps) = n"

subsection \<open>Sizes\<close>

text \<open>
  The number of canonical nodes of a type and of a term: every \<^verbatim>\<open>Ty\<close> and every \<^verbatim>\<open>Term\<close>
  struct reachable from it counts one. \<open>Profile\<close> shows that the iterative counter of
  \<^verbatim>\<open>profile.go\<close> computes it.
\<close>

fun ty_nodes :: "ty \<Rightarrow> nat" where
  "ty_nodes (TFun a b) = 1 + ty_nodes a + ty_nodes b"
| "ty_nodes (TData h as) = 1 + sum_list (map ty_nodes as)"
| "ty_nodes (TRec as) = 1 + sum_list (map ty_nodes as)"
| "ty_nodes (TRecord ns as) = 1 + sum_list (map ty_nodes as)"
| "ty_nodes _ = 1"

fun trm_nodes :: "trm \<Rightarrow> nat" where
  "trm_nodes (Lam t b) = 1 + ty_nodes t + trm_nodes b"
| "trm_nodes (App f a) = 1 + trm_nodes f + trm_nodes a"
| "trm_nodes (Let t a b) = 1 + ty_nodes t + trm_nodes a + trm_nodes b"
| "trm_nodes (If a b c) = 1 + trm_nodes a + trm_nodes b + trm_nodes c"
| "trm_nodes (Prim op as) = 1 + sum_list (map trm_nodes as)"
| "trm_nodes (Ref h ts) = 1 + sum_list (map ty_nodes ts)"
| "trm_nodes (Self ts) = 1 + sum_list (map ty_nodes ts)"
| "trm_nodes (Ctor h i ts as) = 1 + sum_list (map ty_nodes ts) + sum_list (map trm_nodes as)"
| "trm_nodes (Match h a arms) = 1 + trm_nodes a + sum_list (map trm_nodes arms)"
| "trm_nodes (Record ns as) = 1 + sum_list (map trm_nodes as)"
| "trm_nodes (Field a f) = 1 + trm_nodes a"
| "trm_nodes _ = 1"

definition prop_nodes :: "property \<Rightarrow> nat" where
  "prop_nodes p = sum_list (map ty_nodes (binders p)) + trm_nodes (pbody p)"

fun def_nodes :: "def \<Rightarrow> nat" where
  "def_nodes (DData n cs) = sum_list (map (\<lambda>fs. sum_list (map ty_nodes fs)) cs)"
| "def_nodes (DFunc n t b ps) = ty_nodes t + trm_nodes b + sum_list (map prop_nodes ps)"

lemma ty_nodes_pos [simp]: "0 < ty_nodes t"
  by (cases t) simp_all

lemma trm_nodes_pos [simp]: "0 < trm_nodes t"
  by (cases t) simp_all

lemma ty_nodes_ge1 [simp]: "Suc 0 \<le> ty_nodes t"
  by (cases t) simp_all

lemma trm_nodes_ge1 [simp]: "Suc 0 \<le> trm_nodes t"
  by (cases t) simp_all

lemma length_le_sum_nodes [simp]: "length ts \<le> sum_list (map ty_nodes ts)"
proof (induction ts)
  case Nil
  then show ?case by simp
next
  case (Cons t ts)
  have "1 \<le> ty_nodes t" by simp
  with Cons show ?case by (simp only: list.map sum_list.Cons list.size)
qed

lemma length_le_sum_trm_nodes [simp]: "length ts \<le> sum_list (map trm_nodes ts)"
proof (induction ts)
  case Nil
  then show ?case by simp
next
  case (Cons t ts)
  have "1 \<le> trm_nodes t" by simp
  with Cons show ?case by (simp only: list.map sum_list.Cons list.size)
qed

subsection \<open>Dependencies\<close>

text \<open>
  \<^verbatim>\<open>collectDeps\<close>: the hashes a definition refers to, through data types, references,
  constructors and matches. The Go function fills a set by walking the definition; an empty
  hash (a match whose arms do not name their data type) is not a dependency.
\<close>

fun ty_deps :: "ty \<Rightarrow> hash list" where
  "ty_deps (TData h as) = h # concat (map ty_deps as)"
| "ty_deps (TFun a b) = ty_deps a @ ty_deps b"
| "ty_deps (TRec as) = concat (map ty_deps as)"
| "ty_deps (TRecord ns as) = concat (map ty_deps as)"
| "ty_deps _ = []"

definition hash_dep :: "hash \<Rightarrow> hash list" where
  "hash_dep h = (if h = '''' then [] else [h])"

fun trm_deps :: "trm \<Rightarrow> hash list" where
  "trm_deps (Lam t b) = ty_deps t @ trm_deps b"
| "trm_deps (App f a) = trm_deps f @ trm_deps a"
| "trm_deps (Let t a b) = ty_deps t @ trm_deps a @ trm_deps b"
| "trm_deps (If a b c) = trm_deps a @ trm_deps b @ trm_deps c"
| "trm_deps (Prim op as) = concat (map trm_deps as)"
| "trm_deps (Ref h ts) = hash_dep h @ concat (map ty_deps ts)"
| "trm_deps (Self ts) = concat (map ty_deps ts)"
| "trm_deps (Ctor h i ts as) = hash_dep h @ concat (map ty_deps ts) @ concat (map trm_deps as)"
| "trm_deps (Match h a arms) = hash_dep h @ trm_deps a @ concat (map trm_deps arms)"
| "trm_deps (Record ns as) = concat (map trm_deps as)"
| "trm_deps (Field a f) = trm_deps a"
| "trm_deps _ = []"

fun collectDeps :: "def \<Rightarrow> hash set" where
  "collectDeps (DData n cs) = set (concat (map (\<lambda>fs. concat (map ty_deps fs)) cs))"
| "collectDeps (DFunc n t b ps) =
     set (ty_deps t) \<union> set (trm_deps b) \<union>
     set (concat (map (\<lambda>p. concat (map ty_deps (binders p)) @ trm_deps (pbody p)) ps))"

end
