(* ===== verification/Encode.thy ===== *)
theory Encode
  imports Syntax
begin

unbundle bit_operations_syntax

text \<open>
  The canonical encoder of \<^verbatim>\<open>oath/canon.go\<close> (format O1): the byte buffer \<^verbatim>\<open>enc\<close> with its
  optional limit, the iterative emitters \<^verbatim>\<open>enc.ty\<close> and \<^verbatim>\<open>enc.term\<close> with their explicit work
  stacks, \<^verbatim>\<open>encodeDef\<close>, and the comparison \<^verbatim>\<open>compareTermsCanonical\<close> that runs the encoder
  under a doubling limit. Where Go panics (a malformed hash, a record with fewer values than
  names) the result is \<^const>\<open>None\<close>.

  The reference functions \<open>ty_bytes\<close>, \<open>trm_bytes\<close> and \<open>def_bytes\<close> are the recursive
  specification of the encoding; the lemmas show that the work-stack routines append exactly
  these bytes, and that with a limit they append a prefix of them.
\<close>

subsection \<open>Tags and floats\<close>

definition encMagic0 :: byte where "encMagic0 = 0x4F"
definition encMagic1 :: byte where "encMagic1 = 0x31"

definition tagTyInt :: byte where "tagTyInt = 0x01"
definition tagTyBool :: byte where "tagTyBool = 0x02"
definition tagTyVar :: byte where "tagTyVar = 0x04"
definition tagTyFun :: byte where "tagTyFun = 0x05"
definition tagTyData :: byte where "tagTyData = 0x06"
definition tagTyRec :: byte where "tagTyRec = 0x07"
definition tagTyRecord :: byte where "tagTyRecord = 0x08"
definition tagTyRat :: byte where "tagTyRat = 0x09"
definition tagTyFloat :: byte where "tagTyFloat = 0x0A"

definition tagTmVar :: byte where "tagTmVar = 0x10"
definition tagTmInt :: byte where "tagTmInt = 0x11"
definition tagTmBool :: byte where "tagTmBool = 0x12"
definition tagTmLam :: byte where "tagTmLam = 0x14"
definition tagTmApp :: byte where "tagTmApp = 0x15"
definition tagTmLet :: byte where "tagTmLet = 0x16"
definition tagTmIf :: byte where "tagTmIf = 0x17"
definition tagTmPrim :: byte where "tagTmPrim = 0x18"
definition tagTmRef :: byte where "tagTmRef = 0x19"
definition tagTmSelf :: byte where "tagTmSelf = 0x1A"
definition tagTmCtor :: byte where "tagTmCtor = 0x1B"
definition tagTmMatch :: byte where "tagTmMatch = 0x1C"
definition tagTmRecord :: byte where "tagTmRecord = 0x1D"
definition tagTmField :: byte where "tagTmField = 0x1E"
definition tagTmRat :: byte where "tagTmRat = 0x1F"
definition tagTmFloat :: byte where "tagTmFloat = 0x20"

definition tagDefData :: byte where "tagDefData = 0x01"
definition tagDefFunc :: byte where "tagDefFunc = 0x02"

lemmas ty_tag_defs = tagTyInt_def tagTyBool_def tagTyVar_def tagTyFun_def tagTyData_def
  tagTyRec_def tagTyRecord_def tagTyRat_def tagTyFloat_def

lemmas tm_tag_defs = tagTmVar_def tagTmInt_def tagTmBool_def tagTmLam_def tagTmApp_def
  tagTmLet_def tagTmIf_def tagTmPrim_def tagTmRef_def tagTmSelf_def tagTmCtor_def
  tagTmMatch_def tagTmRecord_def tagTmField_def tagTmRat_def tagTmFloat_def

definition canonNaN :: "64 word" where
  "canonNaN = 0x7FF8000000000000"

text \<open>\<^verbatim>\<open>math.IsNaN\<close> on a bit pattern: exponent all ones and a nonzero mantissa.\<close>

definition is_nan :: "64 word \<Rightarrow> bool" where
  "is_nan w \<longleftrightarrow> w AND 0x7FF0000000000000 = 0x7FF0000000000000 \<and> w AND 0x000FFFFFFFFFFFFF \<noteq> 0"

definition canonFloat :: "64 word \<Rightarrow> 64 word" where
  "canonFloat f = (if is_nan f then canonNaN else f)"

lemma is_nan_canonNaN [simp]: "is_nan canonNaN"
  by (simp add: is_nan_def canonNaN_def)

lemma canonFloat_idem [simp]: "canonFloat (canonFloat f) = canonFloat f"
  by (simp add: canonFloat_def)

subsection \<open>The byte buffer\<close>

record enc =
  eb :: bytes
  elimit :: nat
  etrunc :: bool

definition enc0 :: enc where
  "enc0 = \<lparr>eb = [], elimit = 0, etrunc = False\<rparr>"

definition enc_lim :: "nat \<Rightarrow> enc" where
  "enc_lim n = \<lparr>eb = [], elimit = n, etrunc = False\<rparr>"

text \<open>\<^verbatim>\<open>room\<close>: how many of the next \<open>n\<close> bytes may be written, recording truncation.\<close>

definition room :: "nat \<Rightarrow> enc \<Rightarrow> nat \<times> enc" where
  "room n e =
     (if elimit e = 0 then (n, e)
      else let r = elimit e - length (eb e)
           in if r < n then (r, e\<lparr>etrunc := True\<rparr>) else (n, e))"

definition e_raw :: "bytes \<Rightarrow> enc \<Rightarrow> enc" where
  "e_raw p e = (let (r, e') = room (length p) e in e'\<lparr>eb := eb e' @ take r p\<rparr>)"

definition e_rawStr :: "string \<Rightarrow> enc \<Rightarrow> enc" where
  "e_rawStr s e = (let (r, e') = room (length s) e in e'\<lparr>eb := eb e' @ str_bytes (take r s)\<rparr>)"

definition e_u8 :: "byte \<Rightarrow> enc \<Rightarrow> enc" where
  "e_u8 v e = (let (r, e') = room 1 e in if r = 1 then e'\<lparr>eb := eb e' @ [v]\<rparr> else e')"

definition e_u32 :: "nat \<Rightarrow> enc \<Rightarrow> enc" where
  "e_u32 v e =
     (if elimit e = 0 then e\<lparr>eb := eb e @ be_bytes 4 v\<rparr> else e_raw (be_bytes 4 v) e)"

definition e_str :: "string \<Rightarrow> enc \<Rightarrow> enc" where
  "e_str s e = e_rawStr s (e_u32 (length s) e)"

definition e_bigint :: "int \<Rightarrow> enc \<Rightarrow> enc" where
  "e_bigint v e =
     (let e1 = (if v < 0 then e_u8 1 e else e_u8 0 e);
          magLen = mag_len (nat \<bar>v\<bar>);
          e2 = e_u32 magLen e1
      in if magLen = 0 then e2
         else let (r, e3) = room magLen e2
              in if r = 0 then e3 else e_raw (mag_bytes (nat \<bar>v\<bar>)) e3)"

definition e_hash :: "hash \<Rightarrow> enc \<Rightarrow> enc option" where
  "e_hash h e =
     (case hex_decode h of None \<Rightarrow> None
      | Some raw \<Rightarrow> if length raw \<noteq> 32 then None else Some (e_raw raw e))"

definition e_float :: "64 word \<Rightarrow> enc \<Rightarrow> enc" where
  "e_float f e = e_raw (be_bytes 8 (unat (canonFloat f))) e"

text \<open>\<^verbatim>\<open>stop\<close>: consulted only while work is pending, so a closed window is a truncation.\<close>

definition e_stop :: "enc \<Rightarrow> bool \<times> enc" where
  "e_stop e =
     (if 0 < elimit e \<and> elimit e \<le> length (eb e) then (True, e\<lparr>etrunc := True\<rparr>) else (False, e))"

text \<open>
  Everything the encoder writes goes through \<^const>\<open>e_raw\<close>: emission is an action of byte
  strings on the buffer.
\<close>

lemma e_raw_Nil [simp]: "e_raw [] e = e"
  by (simp add: e_raw_def room_def Let_def)

lemma e_raw_append [simp]: "e_raw q (e_raw p e) = e_raw (p @ q) e"
  by (auto simp: e_raw_def room_def Let_def)

lemma e_rawStr_eq [simp]: "e_rawStr s e = e_raw (str_bytes s) e"
  by (simp add: e_rawStr_def e_raw_def str_bytes_def take_map)

lemma e_u8_eq [simp]: "e_u8 v e = e_raw [v] e"
  by (auto simp: e_u8_def e_raw_def room_def Let_def)

lemma e_u32_eq [simp]: "e_u32 v e = e_raw (be_bytes 4 v) e"
  by (auto simp: e_u32_def e_raw_def room_def)

definition str_enc :: "string \<Rightarrow> bytes" where
  "str_enc s = be_bytes 4 (length s) @ str_bytes s"

definition bigint_bytes :: "int \<Rightarrow> bytes" where
  "bigint_bytes v =
     (if v < 0 then 1 else 0) # be_bytes 4 (mag_len (nat \<bar>v\<bar>)) @ mag_bytes (nat \<bar>v\<bar>)"

lemma e_str_eq [simp]: "e_str s e = e_raw (str_enc s) e"
  by (simp add: e_str_def str_enc_def)

lemma room_0: "room n e = (0, e') \<Longrightarrow> length p = n \<Longrightarrow> 0 < n \<Longrightarrow> e_raw p e = e'"
  by (auto simp: e_raw_def)

lemma room_pos: "room n e = (r, e') \<Longrightarrow> r \<noteq> 0 \<Longrightarrow> length p = n \<Longrightarrow> e_raw p e' = e_raw p e"
  by (auto simp: e_raw_def room_def Let_def split: if_splits)

lemma e_bigint_eq [simp]: "e_bigint v e = e_raw (bigint_bytes v) e"
proof -
  define n where "n = nat \<bar>v\<bar>"
  define e2 where "e2 = e_raw ((if v < 0 then 1 else 0) # be_bytes 4 (mag_len n)) e"
  have all: "e_raw (bigint_bytes v) e = e_raw (mag_bytes n) e2"
    by (simp add: e2_def bigint_bytes_def n_def)
  have e2': "e_u32 (mag_len n) (if v < 0 then e_u8 1 e else e_u8 0 e) = e2"
    by (simp add: e2_def)
  show ?thesis
  proof (cases "mag_len n = 0")
    case True
    then show ?thesis
      unfolding all by (auto simp: e_bigint_def Let_def e2_def n_def [symmetric])
  next
    case False
    obtain r e3 where r: "room (mag_len n) e2 = (r, e3)" by fastforce
    have "e_bigint v e = (if r = 0 then e3 else e_raw (mag_bytes n) e3)"
      using False r
      by (simp add: e_bigint_def Let_def e2' n_def [symmetric] del: e_u32_eq e_u8_eq)
    also have "\<dots> = e_raw (mag_bytes n) e2"
      using False r room_0 [of "mag_len n" e2 e3 "mag_bytes n"]
        room_pos [of "mag_len n" e2 r e3 "mag_bytes n"] by auto
    finally show ?thesis by (simp add: all)
  qed
qed

subsection \<open>Types\<close>

text \<open>
  A pending emission of \<^verbatim>\<open>enc.ty\<close>: a type, or a field name that comes before its type. The
  work stack is a list whose head is the top: Go pushes in reverse so that children pop in
  source order.
\<close>

datatype enc_ty_item = ETy ty | EName string

fun enc_ty_children :: "ty \<Rightarrow> enc_ty_item list" where
  "enc_ty_children (TFun a b) = [ETy a, ETy b]"
| "enc_ty_children (TData h as) = map ETy as"
| "enc_ty_children (TRec as) = map ETy as"
| "enc_ty_children (TRecord ns as) = concat (map (\<lambda>(n, t). [EName n, ETy t]) (zip ns as))"
| "enc_ty_children _ = []"

text \<open>What one type writes at once, before its children.\<close>

fun e_ty_head :: "ty \<Rightarrow> enc \<Rightarrow> enc option" where
  "e_ty_head TInt e = Some (e_u8 tagTyInt e)"
| "e_ty_head TBool e = Some (e_u8 tagTyBool e)"
| "e_ty_head TRat e = Some (e_u8 tagTyRat e)"
| "e_ty_head TFloat e = Some (e_u8 tagTyFloat e)"
| "e_ty_head (TVar v) e = Some (e_u32 v (e_u8 tagTyVar e))"
| "e_ty_head (TFun a b) e = Some (e_u8 tagTyFun e)"
| "e_ty_head (TData h as) e = map_option (e_u32 (length as)) (e_hash h (e_u8 tagTyData e))"
| "e_ty_head (TRec as) e = Some (e_u32 (length as) (e_u8 tagTyRec e))"
| "e_ty_head (TRecord ns as) e =
     (if length as < length ns then None
      else Some (e_u32 (length ns) (e_u8 tagTyRecord e)))"

fun enc_ty_weight :: "enc_ty_item \<Rightarrow> nat" where
  "enc_ty_weight (ETy t) = 2 * size t + 1"
| "enc_ty_weight (EName n) = 1"

lemma enc_ty_children_weight:
  "sum_list (map enc_ty_weight (enc_ty_children t)) < enc_ty_weight (ETy t)"
proof -
  have tys: "sum_list (map (\<lambda>t. Suc (2 * size t)) as) \<le> 2 * size_list size as" for as :: "ty list"
    by (induction as) auto
  have rec: "sum_list (map enc_ty_weight (concat (map (\<lambda>(n, t). [EName n, ETy t]) (zip ns as))))
    \<le> 2 * size_list size as" for ns :: "string list" and as :: "ty list"
    by (induction ns as rule: list_induct2') auto
  show ?thesis
    by (cases t) (auto simp: comp_def le_imp_less_Suc intro: le_less_trans [OF tys] le_less_trans [OF rec])
qed

function enc_ty_loop :: "enc_ty_item list \<Rightarrow> enc \<Rightarrow> enc option" where
  "enc_ty_loop [] e = Some e"
| "enc_ty_loop (it # stack) e =
     (case e_stop e of
        (True, e') \<Rightarrow> Some e'
      | (False, _) \<Rightarrow>
          (case it of
             EName n \<Rightarrow> enc_ty_loop stack (e_str n e)
           | ETy t \<Rightarrow>
               (case e_ty_head t e of
                  None \<Rightarrow> None
                | Some e' \<Rightarrow> enc_ty_loop (enc_ty_children t @ stack) e')))"
  by pat_completeness auto
termination
  by (relation "measure (\<lambda>(s, e). sum_list (map enc_ty_weight s))")
    (use enc_ty_children_weight in \<open>auto simp del: enc_ty_weight.simps(1)\<close>)

definition e_ty :: "ty \<Rightarrow> enc \<Rightarrow> enc option" where
  "e_ty t e = enc_ty_loop [ETy t] e"

text \<open>\<^verbatim>\<open>tys\<close>: the count, then each type, unless the window closes.\<close>

fun e_ty_seq :: "ty list \<Rightarrow> enc \<Rightarrow> enc option" where
  "e_ty_seq [] e = Some e"
| "e_ty_seq (t # ts) e =
     (case e_stop e of
        (True, e') \<Rightarrow> Some e'
      | (False, _) \<Rightarrow> (case e_ty t e of None \<Rightarrow> None | Some e' \<Rightarrow> e_ty_seq ts e'))"

definition e_tys :: "ty list \<Rightarrow> enc \<Rightarrow> enc option" where
  "e_tys ts e = e_ty_seq ts (e_u32 (length ts) e)"

text \<open>The recursive specification of the encoding of types.\<close>

fun ty_bytes :: "ty \<Rightarrow> bytes" where
  "ty_bytes TInt = [tagTyInt]"
| "ty_bytes TBool = [tagTyBool]"
| "ty_bytes TRat = [tagTyRat]"
| "ty_bytes TFloat = [tagTyFloat]"
| "ty_bytes (TVar v) = tagTyVar # be_bytes 4 v"
| "ty_bytes (TFun a b) = tagTyFun # ty_bytes a @ ty_bytes b"
| "ty_bytes (TData h as) =
     tagTyData # hash_raw h @ be_bytes 4 (length as) @ concat (map ty_bytes as)"
| "ty_bytes (TRec as) = tagTyRec # be_bytes 4 (length as) @ concat (map ty_bytes as)"
| "ty_bytes (TRecord ns as) =
     tagTyRecord # be_bytes 4 (length ns) @
     concat (map (\<lambda>(n, b). str_enc n @ b) (zip ns (map ty_bytes as)))"

definition tys_bytes :: "ty list \<Rightarrow> bytes" where
  "tys_bytes ts = be_bytes 4 (length ts) @ concat (map ty_bytes ts)"

text \<open>
  A type the encoder does not panic on: every hash decodes to 32 bytes and no record has
  more names than types.
\<close>

definition hash_encodable :: "hash \<Rightarrow> bool" where
  "hash_encodable h =
     (case hex_decode h of None \<Rightarrow> False | Some raw \<Rightarrow> length raw = 32)"

fun ty_encodable :: "ty \<Rightarrow> bool" where
  "ty_encodable (TFun a b) = (ty_encodable a \<and> ty_encodable b)"
| "ty_encodable (TData h as) = (hash_encodable h \<and> list_all ty_encodable as)"
| "ty_encodable (TRec as) = list_all ty_encodable as"
| "ty_encodable (TRecord ns as) = (length ns \<le> length as \<and> list_all ty_encodable as)"
| "ty_encodable _ = True"

lemma e_hash_eq: "hash_encodable h \<Longrightarrow> e_hash h e = Some (e_raw (hash_raw h) e)"
  by (auto simp: hash_encodable_def e_hash_def hash_raw_def split: option.splits)

text \<open>
  With a closed window further emission only records the truncation, which is what
  \<^const>\<open>e_stop\<close> does when work is pending.
\<close>

lemma e_stop_True: "e_stop e = (True, e') \<Longrightarrow> p \<noteq> [] \<Longrightarrow> e_raw p e = e'"
  by (auto simp: e_stop_def e_raw_def room_def Let_def split: if_splits)

lemma e_stop_False [simp]: "e_stop e = (False, e') \<Longrightarrow> e' = e"
  by (auto simp: e_stop_def split: if_splits)

fun enc_ty_item_bytes :: "enc_ty_item \<Rightarrow> bytes" where
  "enc_ty_item_bytes (ETy t) = ty_bytes t"
| "enc_ty_item_bytes (EName n) = str_enc n"

fun enc_ty_item_ok :: "enc_ty_item \<Rightarrow> bool" where
  "enc_ty_item_ok (ETy t) = ty_encodable t"
| "enc_ty_item_ok (EName n) = True"

lemma ty_bytes_not_Nil [simp]: "ty_bytes t \<noteq> []"
  by (cases t) simp_all

lemma be_bytes_4_not_Nil [simp]: "be_bytes 4 n \<noteq> []"
  using length_be_bytes [of 4 n] by (metis list.size(3) zero_neq_numeral)

lemma str_enc_not_Nil [simp]: "str_enc n \<noteq> []"
  by (simp add: str_enc_def)

lemma enc_ty_item_bytes_not_Nil [simp]: "enc_ty_item_bytes it \<noteq> []"
  by (cases it) simp_all

lemma enc_ty_item_split:
  assumes "ty_encodable t"
  obtains p where "\<And>e. e_ty_head t e = Some (e_raw p e)"
    and "ty_bytes t = p @ concat (map enc_ty_item_bytes (enc_ty_children t))"
    and "list_all enc_ty_item_ok (enc_ty_children t)"
proof -
  have names: "concat (map enc_ty_item_bytes (concat (map (\<lambda>(n, t). [EName n, ETy t]) (zip ns as))))
      = concat (map (\<lambda>(n, b). str_enc n @ b) (zip ns (map ty_bytes as)))" for ns as
    by (induction ns as rule: list_induct2') auto
  have oks: "list_all ty_encodable as \<Longrightarrow>
      list_all enc_ty_item_ok (concat (map (\<lambda>(n, t). [EName n, ETy t]) (zip ns as)))" for ns as
    by (induction ns as rule: list_induct2') auto
  have maps: "concat (map (enc_ty_item_bytes \<circ> ETy) as) = concat (map ty_bytes as)"
    "list_all (enc_ty_item_ok \<circ> ETy) as = list_all ty_encodable as" for as
    by (simp_all add: comp_def)
  show ?thesis
    using assms
    by (cases t; intro that)
      (auto simp: e_hash_eq names oks maps list.pred_map comp_def)
qed

theorem enc_ty_loop_spec:
  "list_all enc_ty_item_ok its \<Longrightarrow>
   enc_ty_loop its e = Some (e_raw (concat (map enc_ty_item_bytes its)) e)"
proof (induction its e rule: enc_ty_loop.induct)
  case (1 e)
  then show ?case by simp
next
  case (2 it stack e)
  obtain b e1 where s: "e_stop e = (b, e1)" by fastforce
  show ?case
  proof (cases b)
    case True
    then have "e_raw (enc_ty_item_bytes it @ concat (map enc_ty_item_bytes stack)) e = e1"
      using s by (intro e_stop_True) simp_all
    with True s show ?thesis by simp
  next
    case False
    show ?thesis
    proof (cases it)
      case (EName n)
      with 2 s False show ?thesis by simp
    next
      case (ETy t)
      with "2.prems" have "ty_encodable t" by simp
      then obtain p where p: "\<And>e. e_ty_head t e = Some (e_raw p e)"
        "ty_bytes t = p @ concat (map enc_ty_item_bytes (enc_ty_children t))"
        "list_all enc_ty_item_ok (enc_ty_children t)"
        using enc_ty_item_split by blast
      then have "enc_ty_loop (enc_ty_children t @ stack) (e_raw p e) =
        Some (e_raw (concat (map enc_ty_item_bytes (enc_ty_children t @ stack))) (e_raw p e))"
        using "2.prems" False s ETy by (intro "2.IH"(1)) auto
      with p s False ETy show ?thesis by simp
    qed
  qed
qed

lemma e_ty_eq: "ty_encodable t \<Longrightarrow> e_ty t e = Some (e_raw (ty_bytes t) e)"
  using enc_ty_loop_spec [of "[ETy t]" e]
  by (simp add: e_ty_def del: enc_ty_loop.simps)

lemma e_ty_seq_eq:
  "list_all ty_encodable ts \<Longrightarrow> e_ty_seq ts e = Some (e_raw (concat (map ty_bytes ts)) e)"
proof (induction ts arbitrary: e)
  case Nil
  then show ?case by simp
next
  case (Cons t ts)
  obtain b e1 where s: "e_stop e = (b, e1)" by fastforce
  show ?case
  proof (cases b)
    case True
    then have "e_raw (ty_bytes t @ concat (map ty_bytes ts)) e = e1"
      using s by (intro e_stop_True) simp_all
    with True s show ?thesis by simp
  next
    case False
    with Cons s show ?thesis by (simp add: e_ty_eq)
  qed
qed

lemma e_tys_eq: "list_all ty_encodable ts \<Longrightarrow> e_tys ts e = Some (e_raw (tys_bytes ts) e)"
  by (simp add: e_tys_def tys_bytes_def e_ty_seq_eq)

end
