(* ===== verification/EncodeTerm.thy ===== *)
theory EncodeTerm
  imports Encode
begin

text \<open>
  The term and definition encoders of \<^verbatim>\<open>oath/canon.go\<close> (\<^verbatim>\<open>enc.term\<close>, \<^verbatim>\<open>encodeDef\<close>), the
  recursive specification of the bytes they write, and \<^verbatim>\<open>compareTermsCanonical\<close>.
\<close>

subsection \<open>Terms\<close>

text \<open>
  A pending emission of \<^verbatim>\<open>enc.term\<close>: a term, a string, or a count that is written after an
  earlier child's bytes.
\<close>

datatype enc_item = ITerm trm | IStr string | INum nat

fun enc_children :: "trm \<Rightarrow> enc_item list" where
  "enc_children (Lam t b) = [ITerm b]"
| "enc_children (App f a) = [ITerm f, ITerm a]"
| "enc_children (Let t a b) = [ITerm a, ITerm b]"
| "enc_children (If a b c) = [ITerm a, ITerm b, ITerm c]"
| "enc_children (Prim op as) = map ITerm as"
| "enc_children (Ctor h i ts as) = map ITerm as"
| "enc_children (Match h a arms) = ITerm a # INum (length arms) # map ITerm arms"
| "enc_children (Record ns as) = concat (map (\<lambda>(n, a). [IStr n, ITerm a]) (zip ns as))"
| "enc_children (Field a f) = [ITerm a, IStr f]"
| "enc_children _ = []"

fun e_term_head :: "trm \<Rightarrow> enc \<Rightarrow> enc option" where
  "e_term_head (Var i) e = Some (e_u32 i (e_u8 tagTmVar e))"
| "e_term_head (IntL v) e = Some (e_bigint v (e_u8 tagTmInt e))"
| "e_term_head (RatL r) e =
     Some (e_bigint (snd (quotient_of r)) (e_bigint (fst (quotient_of r)) (e_u8 tagTmRat e)))"
| "e_term_head (FloatL f) e = Some (e_float f (e_u8 tagTmFloat e))"
| "e_term_head (BoolL b) e = Some (e_u8 (if b then 1 else 0) (e_u8 tagTmBool e))"
| "e_term_head (Lam t b) e = e_ty t (e_u8 tagTmLam e)"
| "e_term_head (App f a) e = Some (e_u8 tagTmApp e)"
| "e_term_head (Let t a b) e = e_ty t (e_u8 tagTmLet e)"
| "e_term_head (If a b c) e = Some (e_u8 tagTmIf e)"
| "e_term_head (Prim op as) e = Some (e_u32 (length as) (e_str op (e_u8 tagTmPrim e)))"
| "e_term_head (Ref h ts) e = Option.bind (e_hash h (e_u8 tagTmRef e)) (e_tys ts)"
| "e_term_head (Self ts) e = e_tys ts (e_u8 tagTmSelf e)"
| "e_term_head (Ctor h i ts as) e =
     Option.bind (e_hash h (e_u8 tagTmCtor e)) (\<lambda>e1.
     Option.bind (e_tys ts (e_u32 i e1)) (\<lambda>e2. Some (e_u32 (length as) e2)))"
| "e_term_head (Match h a arms) e = e_hash h (e_u8 tagTmMatch e)"
| "e_term_head (Record ns as) e =
     (if length as < length ns then None
      else Some (e_u32 (length ns) (e_u8 tagTmRecord e)))"
| "e_term_head (Field a f) e = Some (e_u8 tagTmField e)"

fun enc_weight :: "enc_item \<Rightarrow> nat" where
  "enc_weight (ITerm t) = 3 * size t + 1"
| "enc_weight (IStr n) = 1"
| "enc_weight (INum n) = 1"

lemma enc_children_weight:
  "sum_list (map enc_weight (enc_children t)) < enc_weight (ITerm t)"
proof -
  have trms: "sum_list (map (\<lambda>t. Suc (3 * size t)) as) \<le> 3 * size_list size as"
    for as :: "trm list"
    by (induction as) auto
  have rec: "sum_list (map enc_weight (concat (map (\<lambda>(n, a). [IStr n, ITerm a]) (zip ns as))))
    \<le> 3 * size_list size as" for ns :: "string list" and as :: "trm list"
    by (induction ns as rule: list_induct2') auto
  show ?thesis
    by (cases t)
      (auto simp: comp_def le_imp_less_Suc trms add_mono intro: le_less_trans [OF trms] le_less_trans [OF rec])
qed

function enc_term_loop :: "enc_item list \<Rightarrow> enc \<Rightarrow> enc option" where
  "enc_term_loop [] e = Some e"
| "enc_term_loop (it # stack) e =
     (case e_stop e of
        (True, e') \<Rightarrow> Some e'
      | (False, _) \<Rightarrow>
          (case it of
             IStr s \<Rightarrow> enc_term_loop stack (e_str s e)
           | INum n \<Rightarrow> enc_term_loop stack (e_u32 n e)
           | ITerm t \<Rightarrow>
               (case e_term_head t e of
                  None \<Rightarrow> None
                | Some e' \<Rightarrow> enc_term_loop (enc_children t @ stack) e')))"
  by pat_completeness auto
termination
  by (relation "measure (\<lambda>(s, e). sum_list (map enc_weight s))")
    (use enc_children_weight in \<open>auto simp del: enc_weight.simps(1)\<close>)

definition e_term :: "trm \<Rightarrow> enc \<Rightarrow> enc option" where
  "e_term t e = enc_term_loop [ITerm t] e"

text \<open>The recursive specification of the encoding of terms.\<close>

fun trm_bytes :: "trm \<Rightarrow> bytes" where
  "trm_bytes (Var i) = tagTmVar # be_bytes 4 i"
| "trm_bytes (IntL v) = tagTmInt # bigint_bytes v"
| "trm_bytes (RatL r) =
     tagTmRat # bigint_bytes (fst (quotient_of r)) @ bigint_bytes (snd (quotient_of r))"
| "trm_bytes (FloatL f) = tagTmFloat # be_bytes 8 (unat (canonFloat f))"
| "trm_bytes (BoolL b) = [tagTmBool, if b then 1 else 0]"
| "trm_bytes (Lam t b) = tagTmLam # ty_bytes t @ trm_bytes b"
| "trm_bytes (App f a) = tagTmApp # trm_bytes f @ trm_bytes a"
| "trm_bytes (Let t a b) = tagTmLet # ty_bytes t @ trm_bytes a @ trm_bytes b"
| "trm_bytes (If a b c) = tagTmIf # trm_bytes a @ trm_bytes b @ trm_bytes c"
| "trm_bytes (Prim op as) =
     tagTmPrim # str_enc op @ be_bytes 4 (length as) @ concat (map trm_bytes as)"
| "trm_bytes (Ref h ts) = tagTmRef # hash_raw h @ tys_bytes ts"
| "trm_bytes (Self ts) = tagTmSelf # tys_bytes ts"
| "trm_bytes (Ctor h i ts as) =
     tagTmCtor # hash_raw h @ be_bytes 4 i @ tys_bytes ts @ be_bytes 4 (length as) @
     concat (map trm_bytes as)"
| "trm_bytes (Match h a arms) =
     tagTmMatch # hash_raw h @ trm_bytes a @ be_bytes 4 (length arms) @
     concat (map trm_bytes arms)"
| "trm_bytes (Record ns as) =
     tagTmRecord # be_bytes 4 (length ns) @
     concat (map (\<lambda>(n, b). str_enc n @ b) (zip ns (map trm_bytes as)))"
| "trm_bytes (Field a f) = tagTmField # trm_bytes a @ str_enc f"

fun trm_encodable :: "trm \<Rightarrow> bool" where
  "trm_encodable (Lam t b) = (ty_encodable t \<and> trm_encodable b)"
| "trm_encodable (App f a) = (trm_encodable f \<and> trm_encodable a)"
| "trm_encodable (Let t a b) = (ty_encodable t \<and> trm_encodable a \<and> trm_encodable b)"
| "trm_encodable (If a b c) = (trm_encodable a \<and> trm_encodable b \<and> trm_encodable c)"
| "trm_encodable (Prim op as) = list_all trm_encodable as"
| "trm_encodable (Ref h ts) = (hash_encodable h \<and> list_all ty_encodable ts)"
| "trm_encodable (Self ts) = list_all ty_encodable ts"
| "trm_encodable (Ctor h i ts as) =
     (hash_encodable h \<and> list_all ty_encodable ts \<and> list_all trm_encodable as)"
| "trm_encodable (Match h a arms) =
     (hash_encodable h \<and> trm_encodable a \<and> list_all trm_encodable arms)"
| "trm_encodable (Record ns as) = (length ns \<le> length as \<and> list_all trm_encodable as)"
| "trm_encodable (Field a f) = trm_encodable a"
| "trm_encodable _ = True"

fun enc_item_bytes :: "enc_item \<Rightarrow> bytes" where
  "enc_item_bytes (ITerm t) = trm_bytes t"
| "enc_item_bytes (IStr s) = str_enc s"
| "enc_item_bytes (INum n) = be_bytes 4 n"

fun enc_item_ok :: "enc_item \<Rightarrow> bool" where
  "enc_item_ok (ITerm t) = trm_encodable t"
| "enc_item_ok _ = True"

lemma trm_bytes_not_Nil [simp]: "trm_bytes t \<noteq> []"
  by (cases t) simp_all

lemma enc_item_bytes_not_Nil [simp]: "enc_item_bytes it \<noteq> []"
  by (cases it) simp_all

lemma enc_item_split:
  assumes "trm_encodable t"
  obtains p where "\<And>e. e_term_head t e = Some (e_raw p e)"
    and "trm_bytes t = p @ concat (map enc_item_bytes (enc_children t))"
    and "list_all enc_item_ok (enc_children t)"
proof -
  have names: "concat (map enc_item_bytes (concat (map (\<lambda>(n, a). [IStr n, ITerm a]) (zip ns as))))
      = concat (map (\<lambda>(n, b). str_enc n @ b) (zip ns (map trm_bytes as)))" for ns as
    by (induction ns as rule: list_induct2') auto
  have oks: "list_all trm_encodable as \<Longrightarrow>
      list_all enc_item_ok (concat (map (\<lambda>(n, a). [IStr n, ITerm a]) (zip ns as)))" for ns as
    by (induction ns as rule: list_induct2') auto
  show ?thesis
    using assms
    by (cases t; intro that)
      (auto simp: e_hash_eq e_ty_eq e_tys_eq e_float_def names oks list.pred_map comp_def)
qed

theorem enc_term_loop_spec:
  "list_all enc_item_ok its \<Longrightarrow>
   enc_term_loop its e = Some (e_raw (concat (map enc_item_bytes its)) e)"
proof (induction its e rule: enc_term_loop.induct)
  case (1 e)
  then show ?case by simp
next
  case (2 it stack e)
  obtain b e1 where s: "e_stop e = (b, e1)" by fastforce
  show ?case
  proof (cases b)
    case True
    then have "e_raw (enc_item_bytes it @ concat (map enc_item_bytes stack)) e = e1"
      using s by (intro e_stop_True) simp_all
    with True s show ?thesis by simp
  next
    case False
    show ?thesis
    proof (cases it)
      case (ITerm t)
      with "2.prems" have "trm_encodable t" by simp
      then obtain p where p: "\<And>e. e_term_head t e = Some (e_raw p e)"
        "trm_bytes t = p @ concat (map enc_item_bytes (enc_children t))"
        "list_all enc_item_ok (enc_children t)"
        using enc_item_split by blast
      then have "enc_term_loop (enc_children t @ stack) (e_raw p e) =
        Some (e_raw (concat (map enc_item_bytes (enc_children t @ stack))) (e_raw p e))"
        using "2.prems" False s ITerm by (intro "2.IH"(1)) auto
      with p s False ITerm show ?thesis by simp
    qed (use 2 s False in simp_all)
  qed
qed

lemma e_term_eq: "trm_encodable t \<Longrightarrow> e_term t e = Some (e_raw (trm_bytes t) e)"
  using enc_term_loop_spec [of "[ITerm t]" e]
  by (simp add: e_term_def del: enc_term_loop.simps)

subsection \<open>Definitions\<close>

text \<open>\<^verbatim>\<open>encodeDef\<close>: the bytes whose SHA-256 is the definition's identity.\<close>

fun e_ctors :: "ty list list \<Rightarrow> enc \<Rightarrow> enc option" where
  "e_ctors [] e = Some e"
| "e_ctors (fs # cs) e = Option.bind (e_tys fs e) (e_ctors cs)"

fun e_props :: "property list \<Rightarrow> enc \<Rightarrow> enc option" where
  "e_props [] e = Some e"
| "e_props (p # ps) e =
     Option.bind (e_tys (binders p) e) (\<lambda>e1. Option.bind (e_term (pbody p) e1) (e_props ps))"

definition encodeDef :: "def \<Rightarrow> bytes option" where
  "encodeDef d =
     map_option eb
       (let e = e_u8 encMagic1 (e_u8 encMagic0 enc0)
        in case d of
             DData n cs \<Rightarrow> e_ctors cs (e_u32 (length cs) (e_u32 n (e_u8 tagDefData e)))
           | DFunc n t b ps \<Rightarrow>
               Option.bind (e_ty t (e_u32 n (e_u8 tagDefFunc e))) (\<lambda>e1.
               Option.bind (e_term b e1) (\<lambda>e2. e_props ps (e_u32 (length ps) e2))))"

definition tyBytes :: "ty \<Rightarrow> bytes option" where
  "tyBytes t = map_option eb (e_ty t enc0)"

definition termBytes :: "trm \<Rightarrow> bytes option" where
  "termBytes t = map_option eb (e_term t enc0)"

text \<open>The bytes that \<^verbatim>\<open>propHash\<close> hashes: the binders and the body of a property.\<close>

definition propBytes :: "property \<Rightarrow> bytes option" where
  "propBytes p =
     map_option eb (Option.bind (e_tys (binders p) enc0) (e_term (pbody p)))"

definition property_bytes :: "property \<Rightarrow> bytes" where
  "property_bytes p = tys_bytes (binders p) @ trm_bytes (pbody p)"

definition property_encodable :: "property \<Rightarrow> bool" where
  "property_encodable p \<longleftrightarrow> list_all ty_encodable (binders p) \<and> trm_encodable (pbody p)"

fun def_bytes :: "def \<Rightarrow> bytes" where
  "def_bytes (DData n cs) =
     encMagic0 # encMagic1 # tagDefData # be_bytes 4 n @ be_bytes 4 (length cs) @
     concat (map tys_bytes cs)"
| "def_bytes (DFunc n t b ps) =
     encMagic0 # encMagic1 # tagDefFunc # be_bytes 4 n @ ty_bytes t @ trm_bytes b @
     be_bytes 4 (length ps) @ concat (map property_bytes ps)"

fun def_encodable :: "def \<Rightarrow> bool" where
  "def_encodable (DData n cs) = list_all (list_all ty_encodable) cs"
| "def_encodable (DFunc n t b ps) =
     (ty_encodable t \<and> trm_encodable b \<and> list_all property_encodable ps)"

lemma eb_enc0 [simp]: "eb (e_raw p enc0) = p"
  by (simp add: e_raw_def room_def enc0_def)

lemma e_ctors_eq:
  "list_all (list_all ty_encodable) cs \<Longrightarrow>
   e_ctors cs e = Some (e_raw (concat (map tys_bytes cs)) e)"
  by (induction cs arbitrary: e) (simp_all add: e_tys_eq)

lemma e_props_eq:
  "list_all property_encodable ps \<Longrightarrow>
   e_props ps e = Some (e_raw (concat (map property_bytes ps)) e)"
  by (induction ps arbitrary: e)
    (simp_all add: e_tys_eq e_term_eq property_encodable_def property_bytes_def)

lemma termBytes_eq: "trm_encodable t \<Longrightarrow> termBytes t = Some (trm_bytes t)"
  by (simp add: termBytes_def e_term_eq)

lemma tyBytes_eq: "ty_encodable t \<Longrightarrow> tyBytes t = Some (ty_bytes t)"
  by (simp add: tyBytes_def e_ty_eq)

lemma propBytes_eq: "property_encodable p \<Longrightarrow> propBytes p = Some (property_bytes p)"
  by (simp add: propBytes_def property_encodable_def property_bytes_def e_tys_eq e_term_eq)

subsection \<open>Truncated encodings and the canonical comparison\<close>

text \<open>
  \<^verbatim>\<open>compareTermsCanonical\<close> re-runs the encoder with a limit of 64, 128, 256, ... bytes until
  the written prefixes differ or neither side is truncated. The loop has no bound of its own:
  \<^const>\<open>None\<close> is a panic of the encoder or a loop that never ends.
\<close>

partial_function (option) cmp_loop :: "nat \<Rightarrow> trm \<Rightarrow> trm \<Rightarrow> int option" where
  "cmp_loop bnd a b =
     (case e_term a (enc_lim bnd) of None \<Rightarrow> None | Some ea \<Rightarrow>
     (case e_term b (enc_lim bnd) of None \<Rightarrow> None | Some eb' \<Rightarrow>
        (let n = (if length (eb eb') < length (eb ea) then length (eb eb') else length (eb ea));
             c = bytes_compare (take n (eb ea)) (take n (eb eb'))
         in if c \<noteq> 0 then Some c
            else if \<not> etrunc ea \<and> \<not> etrunc eb' then Some (bytes_compare (eb ea) (eb eb'))
            else cmp_loop (bnd * 2) a b)))"

definition compareTermsCanonical :: "trm \<Rightarrow> trm \<Rightarrow> int option" where
  "compareTermsCanonical a b = cmp_loop 64 a b"

lemma e_raw_lim:
  "0 < n \<Longrightarrow> e_raw p (enc_lim n) = \<lparr>eb = take n p, elimit = n, etrunc = n < length p\<rparr>"
  by (auto simp: e_raw_def room_def enc_lim_def)

lemma cmp_loop_eq:
  assumes "trm_encodable a" "trm_encodable b" "0 < bnd"
  shows "cmp_loop bnd a b = Some (bytes_compare (trm_bytes a) (trm_bytes b))"
  using assms(3)
proof (induction "length (trm_bytes a) + length (trm_bytes b) - bnd" arbitrary: bnd
    rule: less_induct)
  case less
  let ?A = "trm_bytes a" and ?B = "trm_bytes b"
  define PA where "PA = take bnd ?A"
  define PB where "PB = take bnd ?B"
  define n where "n = (if length PB < length PA then length PB else length PA)"
  have n: "n \<le> bnd" "n \<le> length ?A" "n \<le> length ?B"
    by (auto simp: n_def PA_def PB_def)
  then have cut: "take n PA = take n ?A" "take n PB = take n ?B"
    by (simp_all add: min_def PA_def PB_def)
  have step: "cmp_loop bnd a b =
    (if bytes_compare (take n ?A) (take n ?B) \<noteq> 0 then Some (bytes_compare (take n ?A) (take n ?B))
     else if \<not> bnd < length ?A \<and> \<not> bnd < length ?B
       then Some (bytes_compare PA PB)
     else cmp_loop (bnd * 2) a b)"
  proof (cases "length PB < length PA")
    case True
    then have "length PB = n" by (simp add: n_def)
    with True show ?thesis
      using assms(1,2) less.prems
      by (subst cmp_loop.simps)
        (simp add: e_term_eq e_raw_lim PA_def [symmetric] PB_def [symmetric] cut Let_def)
  next
    case False
    then have "length PA = n" by (simp add: n_def)
    with False show ?thesis
      using assms(1,2) less.prems
      by (subst cmp_loop.simps)
        (simp add: e_term_eq e_raw_lim PA_def [symmetric] PB_def [symmetric] cut Let_def)
  qed
  show ?case
  proof (cases "bytes_compare (take n ?A) (take n ?B) \<noteq> 0")
    case True
    with n show ?thesis
      using step bytes_compare_take [OF True n(2,3)] by simp
  next
    case False
    show ?thesis
    proof (cases "bnd < length ?A \<or> bnd < length ?B")
      case True
      then have "cmp_loop (bnd * 2) a b = Some (bytes_compare ?A ?B)"
        using less.prems by (intro less.hyps) auto
      with True False show ?thesis using step by auto
    next
      case False': False
      then have "PA = ?A" "PB = ?B" by (simp_all add: PA_def PB_def)
      with False' show ?thesis using step False by simp
    qed
  qed
qed

text \<open>
  The type generalisation behind \<^verbatim>\<open>propHashGeneral\<close>: primitive leaves become type variables,
  numbered by first appearance. \<open>seen\<close> holds the primitive leaves met so far, in order, so
  the index of a leaf is its position and the next free index is the length.
\<close>

fun leaf_index :: "ty \<Rightarrow> ty list \<Rightarrow> nat option" where
  "leaf_index t [] = None"
| "leaf_index t (s # ss) = (if s = t then Some 0 else map_option Suc (leaf_index t ss))"

definition gen_leaf :: "ty \<Rightarrow> ty list \<Rightarrow> ty \<times> ty list" where
  "gen_leaf t seen =
     (case leaf_index t seen of
        Some i \<Rightarrow> (TVar i, seen)
      | None \<Rightarrow> (TVar (length seen), seen @ [t]))"

fun gen_ty :: "ty \<Rightarrow> ty list \<Rightarrow> ty \<times> ty list"
and gen_args :: "ty list \<Rightarrow> ty list \<Rightarrow> ty list \<times> ty list" where
  "gen_ty TInt seen = gen_leaf TInt seen"
| "gen_ty TRat seen = gen_leaf TRat seen"
| "gen_ty TFloat seen = gen_leaf TFloat seen"
| "gen_ty TBool seen = gen_leaf TBool seen"
| "gen_ty (TFun a b) seen =
     (let (a', s1) = gen_ty a seen; (b', s2) = gen_ty b s1 in (TFun a' b', s2))"
| "gen_ty (TData h as) seen = (let (as', s1) = gen_args as seen in (TData h as', s1))"
| "gen_ty (TRec as) seen = (let (as', s1) = gen_args as seen in (TRec as', s1))"
| "gen_ty (TRecord ns as) seen = (let (as', s1) = gen_args as seen in (TRecord ns as', s1))"
| "gen_ty (TVar i) seen = (TVar i, seen)"
| "gen_args [] seen = ([], seen)"
| "gen_args (t # ts) seen =
     (let (t', s1) = gen_ty t seen; (ts', s2) = gen_args ts s1 in (t' # ts', s2))"

definition generalizeTypes :: "ty list \<Rightarrow> ty list" where
  "generalizeTypes ts = fst (gen_args ts [])"

definition propBytesGeneral :: "property \<Rightarrow> bytes option" where
  "propBytesGeneral p =
     map_option eb (Option.bind (e_tys (generalizeTypes (binders p)) enc0) (e_term (pbody p)))"

text \<open>
  The generalised signature does not depend on which primitive types a law is about: a
  one-to-one exchange of the primitive leaves leaves it unchanged.
\<close>

definition prim_leaves :: "ty set" where
  "prim_leaves = {TInt, TRat, TFloat, TBool}"

fun rename_leaves :: "(ty \<Rightarrow> ty) \<Rightarrow> ty \<Rightarrow> ty" where
  "rename_leaves f (TFun a b) = TFun (rename_leaves f a) (rename_leaves f b)"
| "rename_leaves f (TData h as) = TData h (map (rename_leaves f) as)"
| "rename_leaves f (TRec as) = TRec (map (rename_leaves f) as)"
| "rename_leaves f (TRecord ns as) = TRecord ns (map (rename_leaves f) as)"
| "rename_leaves f (TVar v) = TVar v"
| "rename_leaves f t = f t"

lemma leaf_index_map:
  "inj_on f prim_leaves \<Longrightarrow> t \<in> prim_leaves \<Longrightarrow> set seen \<subseteq> prim_leaves \<Longrightarrow>
   leaf_index (f t) (map f seen) = leaf_index t seen"
  by (induction seen) (auto dest: inj_onD)

lemma gen_leaf_map:
  "inj_on f prim_leaves \<Longrightarrow> t \<in> prim_leaves \<Longrightarrow> set seen \<subseteq> prim_leaves \<Longrightarrow>
   gen_leaf (f t) (map f seen) = (fst (gen_leaf t seen), map f (snd (gen_leaf t seen)))"
  by (simp add: gen_leaf_def leaf_index_map split: option.split)

lemma gen_leaf_seen:
  "t \<in> prim_leaves \<Longrightarrow> set seen \<subseteq> prim_leaves \<Longrightarrow> set (snd (gen_leaf t seen)) \<subseteq> prim_leaves"
  by (auto simp: gen_leaf_def split: option.split)

lemma gen_ty_leaf: "t \<in> prim_leaves \<Longrightarrow> gen_ty t seen = gen_leaf t seen"
  by (auto simp: prim_leaves_def)

lemma gen_rename:
  assumes f: "inj_on f prim_leaves" "f ` prim_leaves \<subseteq> prim_leaves"
  shows "set seen \<subseteq> prim_leaves \<Longrightarrow>
      gen_ty (rename_leaves f t) (map f seen) =
        (fst (gen_ty t seen), map f (snd (gen_ty t seen))) \<and>
      set (snd (gen_ty t seen)) \<subseteq> prim_leaves"
    and "set seen \<subseteq> prim_leaves \<Longrightarrow>
      gen_args (map (rename_leaves f) ts) (map f seen) =
        (fst (gen_args ts seen), map f (snd (gen_args ts seen))) \<and>
      set (snd (gen_args ts seen)) \<subseteq> prim_leaves"
proof (induction t seen and ts seen rule: gen_ty_gen_args.induct)
  case (1 seen)
  have "TInt \<in> prim_leaves" by (simp add: prim_leaves_def)
  with 1 show ?case using f gen_leaf_map gen_leaf_seen by (simp add: gen_ty_leaf image_subset_iff)
next
  case (2 seen)
  have "TRat \<in> prim_leaves" by (simp add: prim_leaves_def)
  with 2 show ?case using f gen_leaf_map gen_leaf_seen by (simp add: gen_ty_leaf image_subset_iff)
next
  case (3 seen)
  have "TFloat \<in> prim_leaves" by (simp add: prim_leaves_def)
  with 3 show ?case using f gen_leaf_map gen_leaf_seen by (simp add: gen_ty_leaf image_subset_iff)
next
  case (4 seen)
  have "TBool \<in> prim_leaves" by (simp add: prim_leaves_def)
  with 4 show ?case using f gen_leaf_map gen_leaf_seen by (simp add: gen_ty_leaf image_subset_iff)
next
  case (5 a b seen)
  obtain a' s1 where a: "gen_ty a seen = (a', s1)" by fastforce
  obtain b' s2 where b: "gen_ty b s1 = (b', s2)" by fastforce
  from 5 a have "gen_ty (rename_leaves f a) (map f seen) = (a', map f s1)" "set s1 \<subseteq> prim_leaves"
    by simp_all
  moreover from this "5.IH"(2) [OF a [symmetric] refl] b
  have "gen_ty (rename_leaves f b) (map f s1) = (b', map f s2)" "set s2 \<subseteq> prim_leaves"
    by simp_all
  ultimately show ?case by (simp add: a b)
next
  case (11 t ts seen)
  obtain a' s1 where a: "gen_ty t seen = (a', s1)" by fastforce
  obtain b' s2 where b: "gen_args ts s1 = (b', s2)" by fastforce
  from 11 a have "gen_ty (rename_leaves f t) (map f seen) = (a', map f s1)" "set s1 \<subseteq> prim_leaves"
    by simp_all
  moreover from this "11.IH"(2) [OF a [symmetric] refl] b
  have "gen_args (map (rename_leaves f) ts) (map f s1) = (b', map f s2)" "set s2 \<subseteq> prim_leaves"
    by simp_all
  ultimately show ?case by (simp add: a b)
qed (simp_all add: Let_def split_def)

lemma generalizeTypes_rename:
  "inj_on f prim_leaves \<Longrightarrow> f ` prim_leaves \<subseteq> prim_leaves \<Longrightarrow>
   generalizeTypes (map (rename_leaves f) ts) = generalizeTypes ts"
  using gen_rename(2) [of f "[]" ts] by (simp add: generalizeTypes_def)

end
