(* ===== verification/Profile.thy ===== *)
theory Profile
  imports Syntax
begin

text \<open>
  The portable resource profile of \<^verbatim>\<open>oath/profile.go\<close>: the bound on the number of canonical
  nodes, the iterative counter \<^verbatim>\<open>countCanonicalNodes\<close> with its early exit, and the admission
  boundary \<^verbatim>\<open>admitDef\<close>. The counter is shown to decide exactly whether the structural size
  of \<open>Syntax\<close> is within the limit.
\<close>

definition maxCanonicalNodes :: nat where
  "maxCanonicalNodes = 65536"

definition maxSyntaxNesting :: nat where
  "maxSyntaxNesting = 512"

datatype admit_error = TooManyNodes | TooManyTyVars nat

datatype struct_item = STy ty | STrm trm

text \<open>The children of a pending node, in the order Go pushes them (the last is the top).\<close>

fun struct_push :: "struct_item \<Rightarrow> struct_item list" where
  "struct_push (STy (TFun a b)) = [STy a, STy b]"
| "struct_push (STy (TData h as)) = map STy as"
| "struct_push (STy (TRec as)) = map STy as"
| "struct_push (STy (TRecord ns as)) = map STy as"
| "struct_push (STy _) = []"
| "struct_push (STrm (Lam t b)) = [STrm b, STy t]"
| "struct_push (STrm (App f a)) = [STrm f, STrm a]"
| "struct_push (STrm (Let t a b)) = [STrm a, STrm b, STy t]"
| "struct_push (STrm (If a b c)) = [STrm a, STrm b, STrm c]"
| "struct_push (STrm (Prim op as)) = map STrm as"
| "struct_push (STrm (Ref h ts)) = map STy ts"
| "struct_push (STrm (Self ts)) = map STy ts"
| "struct_push (STrm (Ctor h i ts as)) = map STrm as @ map STy ts"
| "struct_push (STrm (Match h a arms)) = STrm a # map STrm arms"
| "struct_push (STrm (Record ns as)) = map STrm as"
| "struct_push (STrm (Field a f)) = [STrm a]"
| "struct_push (STrm _) = []"

fun item_nodes :: "struct_item \<Rightarrow> nat" where
  "item_nodes (STy t) = ty_nodes t"
| "item_nodes (STrm t) = trm_nodes t"

lemma item_nodes_push: "item_nodes it = Suc (sum_list (map item_nodes (struct_push it)))"
  by (induction it rule: struct_push.induct) (simp_all add: comp_def)

function count_loop :: "struct_item list \<Rightarrow> nat \<Rightarrow> nat \<Rightarrow> nat option" where
  "count_loop [] n limit = Some n"
| "count_loop (it # stack) n limit =
     (if limit < n + 1 then None
      else count_loop (rev (struct_push it) @ stack) (n + 1) limit)"
  by pat_completeness auto
termination
  by (relation "measure (\<lambda>(s, n, limit). sum_list (map item_nodes s))")
    (auto simp: item_nodes_push rev_map sum_list_rev simp flip: rev_map)

fun def_items :: "def \<Rightarrow> struct_item list" where
  "def_items (DFunc n t b ps) =
     STy t # STrm b #
     concat (map (\<lambda>p. STrm (pbody p) # map STy (binders p)) ps)"
| "def_items (DData n cs) = concat (map (map STy) cs)"

definition countCanonicalNodes :: "def \<Rightarrow> nat \<Rightarrow> nat option" where
  "countCanonicalNodes d limit = count_loop (rev (def_items d)) 0 limit"

definition admitDef :: "def \<Rightarrow> admit_error + unit" where
  "admitDef d =
     (case countCanonicalNodes d maxCanonicalNodes of
        None \<Rightarrow> Inl TooManyNodes
      | Some _ \<Rightarrow>
          if maxCanonicalNodes < def_tyvars d then Inl (TooManyTyVars (def_tyvars d)) else Inr ())"

lemma count_loop_eq:
  "n \<le> limit \<Longrightarrow> count_loop s n limit =
     (if n + sum_list (map item_nodes s) \<le> limit
      then Some (n + sum_list (map item_nodes s)) else None)"
proof (induction s n limit rule: count_loop.induct)
  case (1 n limit)
  then show ?case by simp
next
  case (2 it stack n limit)
  have "0 < item_nodes it" by (simp add: item_nodes_push)
  with 2 show ?case
    by (auto simp: item_nodes_push [of it] rev_map sum_list_rev simp flip: rev_map)
qed

lemma def_items_nodes: "sum_list (map item_nodes (def_items d)) = def_nodes d"
proof (cases d)
  case (DData n cs)
  have "sum_list (map item_nodes (concat (map (map STy) cs)))
    = sum_list (map (\<lambda>fs. sum_list (map ty_nodes fs)) cs)"
    by (induction cs) (simp_all add: comp_def)
  with DData show ?thesis by simp
next
  case (DFunc n t b ps)
  have "sum_list (map item_nodes (concat (map (\<lambda>p. STrm (pbody p) # map STy (binders p)) ps)))
    = sum_list (map prop_nodes ps)"
    by (induction ps) (simp_all add: prop_nodes_def comp_def)
  with DFunc show ?thesis by simp
qed

lemma countCanonicalNodes_eq:
  "countCanonicalNodes d limit = (if def_nodes d \<le> limit then Some (def_nodes d) else None)"
  by (simp add: countCanonicalNodes_def count_loop_eq def_items_nodes rev_map sum_list_rev
      flip: rev_map)

lemma admitDef_eq_Inr:
  "admitDef d = Inr u \<longleftrightarrow> def_nodes d \<le> maxCanonicalNodes \<and> def_tyvars d \<le> maxCanonicalNodes"
  by (auto simp: admitDef_def countCanonicalNodes_eq)

end
