(* ===== verification/Codec.thy ===== *)
theory Codec
  imports EncodeTerm Profile
begin

text \<open>
  The reader of the strict decoder in \<^verbatim>\<open>oath/canon.go\<close> (\<^verbatim>\<open>dec\<close>: the bytes, the position, the
  node budget) with its primitive reads, and the contract they and every later decoder keep.

  The contract is the locale \<open>codec\<close>: a writer \<open>put\<close>, a reader \<open>get\<close>, the values \<open>ok\<close> the
  format admits and their \<open>cost\<close> in canonical nodes. A reader must give back exactly the
  value written, advance past exactly its bytes and charge exactly its cost, and whatever it
  accepts must be the writer's own bytes of an admitted value. Inside the locale a count of
  values is read by repetition; sequencing two readers keeps the contract.
\<close>

record dec =
  db :: bytes
  dpos :: nat
  dnodes :: nat

datatype dkind =
    UnexpectedEnd | EndInU32 | Implausible nat | EndInString | BadSign byte | EndInInteger
  | LeadingZero | NegativeZero | EndInHash | FieldsNotAscending string string
  | UnknownTyTag byte | DenNotPositive | NotCoprime | EndInFloat | NonCanonicalNaN "64 word"
  | BadBool byte | UnknownTermTag byte | UnknownDefTag byte | TrailingBytes nat

datatype derr = DFail nat dkind | NotO1 byte byte | NodeLimit | DAdmit admit_error | OutOfFuel

type_synonym 'a reader = "dec \<Rightarrow> derr + ('a \<times> dec)"

definition rest :: "dec \<Rightarrow> bytes" where
  "rest d = drop (dpos d) (db d)"

definition adv :: "nat \<Rightarrow> dec \<Rightarrow> dec" where
  "adv n d = d\<lparr>dpos := dpos d + n\<rparr>"

definition charge :: "nat \<Rightarrow> dec \<Rightarrow> dec" where
  "charge n d = d\<lparr>dnodes := dnodes d + n\<rparr>"

definition countNodes :: "nat \<Rightarrow> dec \<Rightarrow> derr + dec" where
  "countNodes n d =
     (let d' = charge n d in if maxCanonicalNodes < dnodes d' then Inl NodeLimit else Inr d')"

definition reserveNodes :: "nat \<Rightarrow> dec \<Rightarrow> derr + dec" where
  "reserveNodes n d = countNodes n d"

subsection \<open>Primitive reads\<close>

definition get_u8 :: "byte reader" where
  "get_u8 d =
     (if length (db d) \<le> dpos d then Inl (DFail (dpos d) UnexpectedEnd)
      else Inr (db d ! dpos d, adv 1 d))"

definition get_u32 :: "nat reader" where
  "get_u32 d =
     (if length (db d) < dpos d + 4 then Inl (DFail (dpos d) EndInU32)
      else let v = be_nat (take 4 (drop (dpos d) (db d))); d' = adv 4 d
           in if 2 ^ 24 < v then Inl (DFail (dpos d') (Implausible v)) else Inr (v, d'))"

definition get_str :: "string reader" where
  "get_str d = rbind (get_u32 d) (\<lambda>(n, d1).
     if length (db d1) < dpos d1 + n then Inl (DFail (dpos d1) EndInString)
     else Inr (bytes_str (take n (drop (dpos d1) (db d1))), adv n d1))"

definition get_bigint :: "int reader" where
  "get_bigint d = rbind (get_u8 d) (\<lambda>(sign, d1).
     if 1 < sign then Inl (DFail (dpos d1) (BadSign sign))
     else rbind (get_u32 d1) (\<lambda>(n, d2).
       if length (db d2) < dpos d2 + n then Inl (DFail (dpos d2) EndInInteger)
       else let mag = take n (drop (dpos d2) (db d2)) in
         if 0 < n \<and> hd mag = 0 then Inl (DFail (dpos d2) LeadingZero)
         else if sign = 1 \<and> n = 0 then Inl (DFail (dpos d2) NegativeZero)
         else let v = int (be_nat mag)
              in Inr (if sign = 1 then - v else v, adv n d2)))"

definition get_hash :: "hash reader" where
  "get_hash d =
     (if length (db d) < dpos d + 32 then Inl (DFail (dpos d) EndInHash)
      else Inr (hex_encode (take 32 (drop (dpos d) (db d))), adv 32 d))"

definition get_float :: "64 word reader" where
  "get_float d =
     (if length (db d) < dpos d + 8 then Inl (DFail (dpos d) EndInFloat)
      else let bits = word_of_nat (be_nat (take 8 (drop (dpos d) (db d)))); d' = adv 8 d
           in if is_nan bits \<and> bits \<noteq> canonNaN then Inl (DFail (dpos d') (NonCanonicalNaN bits))
              else Inr (bits, d'))"

subsection \<open>Positions and budgets\<close>

definition dec_ok :: "dec \<Rightarrow> bool" where
  "dec_ok d \<longleftrightarrow> dpos d \<le> length (db d) \<and> dnodes d \<le> maxCanonicalNodes"

text \<open>\<open>step d bs c d'\<close>: the reader consumed exactly \<open>bs\<close> and charged \<open>c\<close> nodes.\<close>

definition step :: "dec \<Rightarrow> bytes \<Rightarrow> nat \<Rightarrow> dec \<Rightarrow> bool" where
  "step d bs c d' \<longleftrightarrow>
     rest d = bs @ rest d' \<and> d' = charge c (adv (length bs) d) \<and> dec_ok d \<and> dec_ok d'"

lemma step_intro:
  "dec_ok d \<Longrightarrow> take (length bs) (rest d) = bs \<Longrightarrow> dnodes d + c \<le> maxCanonicalNodes \<Longrightarrow>
   step d bs c (charge c (adv (length bs) d))"
proof -
  assume d: "dec_ok d" "take (length bs) (rest d) = bs" "dnodes d + c \<le> maxCanonicalNodes"
  have "length bs \<le> length (db d) - dpos d"
    using d(2) by (metis length_drop length_take min.cobounded1 rest_def)
  moreover have "rest d = bs @ drop (length bs) (rest d)"
    using d(2) by (metis append_take_drop_id)
  ultimately show ?thesis
    using d by (simp add: step_def dec_ok_def rest_def charge_def adv_def add.commute)
qed

lemma step_trans [trans]:
  "step d bs c d1 \<Longrightarrow> step d1 bs' c' d2 \<Longrightarrow> step d (bs @ bs') (c + c') d2"
  by (auto simp: step_def charge_def adv_def add_ac)

lemma step_refl: "dec_ok d \<Longrightarrow> step d [] 0 d"
  by (simp add: step_def charge_def adv_def)

lemma step_ok: "step d bs c d' \<Longrightarrow> dec_ok d' \<and> dec_ok d"
  unfolding step_def by blast

lemma step_rest: "step d bs c d' \<Longrightarrow> rest d = bs @ rest d'"
  by (simp add: step_def)

lemma step_det: "step d bs c d1 \<Longrightarrow> step d bs c d2 \<Longrightarrow> d1 = d2"
  by (simp add: step_def)

lemma step_dnodes: "step d bs c d' \<Longrightarrow> dnodes d' = dnodes d + c"
  by (simp add: step_def charge_def adv_def)

lemma countNodes_Inr:
  "dec_ok d \<Longrightarrow> countNodes n d = Inr d' \<longleftrightarrow> step d [] n d'"
  by (auto simp: countNodes_def step_def dec_ok_def charge_def adv_def rest_def Let_def)

lemma countNodes_eq:
  "dnodes d + n \<le> maxCanonicalNodes \<Longrightarrow> countNodes n d = Inr (charge n d)"
  by (simp add: countNodes_def charge_def Let_def)

lemma step_charge:
  "dec_ok d \<Longrightarrow> dnodes d + n \<le> maxCanonicalNodes \<Longrightarrow> step d [] n (charge n d)"
  by (simp add: step_def dec_ok_def charge_def adv_def rest_def)

subsection \<open>The contract\<close>

locale codec =
  fixes put :: "'a \<Rightarrow> bytes"
    and get :: "dec \<Rightarrow> derr + ('a \<times> dec)"
    and ok :: "'a \<Rightarrow> bool"
    and cost :: "'a \<Rightarrow> nat"
  assumes get_put:
    "ok x \<Longrightarrow> dec_ok d \<Longrightarrow> rest d = put x @ r \<Longrightarrow> dnodes d + cost x \<le> maxCanonicalNodes \<Longrightarrow>
     \<exists>d'. get d = Inr (x, d') \<and> step d (put x) (cost x) d'"
  and put_get:
    "get d = Inr (x, d') \<Longrightarrow> dec_ok d \<Longrightarrow> ok x \<and> step d (put x) (cost x) d'"
begin

text \<open>No admitted encoding is a proper prefix of another: the format is self-delimiting.\<close>

lemma self_delimiting:
  assumes ok: "ok x" "ok y" and eq: "put x @ r = put y @ s"
    and cost: "cost x \<le> maxCanonicalNodes" "cost y \<le> maxCanonicalNodes"
  shows "x = y \<and> r = s"
proof -
  define d where "d = \<lparr>db = put x @ r, dpos = 0, dnodes = 0\<rparr>"
  have d: "dec_ok d" "rest d = put x @ r" "rest d = put y @ s" "dnodes d = 0"
    by (simp_all add: d_def dec_ok_def rest_def eq)
  obtain d1 where d1: "get d = Inr (x, d1)"
    using get_put [OF ok(1) d(1,2)] cost d(4) by auto
  obtain d2 where d2: "get d = Inr (y, d2)"
    using get_put [OF ok(2) d(1,3)] cost d(4) by auto
  from d1 d2 have "x = y" by simp
  with eq show ?thesis by simp
qed

lemma put_inj:
  "ok x \<Longrightarrow> ok y \<Longrightarrow> put x = put y \<Longrightarrow> cost x \<le> maxCanonicalNodes \<Longrightarrow>
   cost y \<le> maxCanonicalNodes \<Longrightarrow> x = y"
  using self_delimiting [of x y "[]" "[]"] by simp

end

text \<open>Reading \<open>n\<close> values one after the other.\<close>

fun rep :: "nat \<Rightarrow> 'a reader \<Rightarrow> 'a list reader" where
  "rep 0 get d = Inr ([], d)"
| "rep (Suc n) get d =
     rbind (get d) (\<lambda>(x, d1). rbind (rep n get d1) (\<lambda>(xs, d2). Inr (x # xs, d2)))"

context codec
begin

lemma rep_get_put:
  "list_all ok xs \<Longrightarrow> dec_ok d \<Longrightarrow> rest d = concat (map put xs) @ r \<Longrightarrow>
   dnodes d + sum_list (map cost xs) \<le> maxCanonicalNodes \<Longrightarrow>
   \<exists>d'. rep (length xs) get d = Inr (xs, d') \<and>
     step d (concat (map put xs)) (sum_list (map cost xs)) d'"
proof (induction xs arbitrary: d)
  case Nil
  then show ?case by (simp add: step_refl)
next
  case (Cons x xs)
  then obtain d1 where d1: "get d = Inr (x, d1)" "step d (put x) (cost x) d1"
    using get_put [of x d "concat (map put xs) @ r"] by auto
  have "\<exists>d'. rep (length xs) get d1 = Inr (xs, d') \<and>
      step d1 (concat (map put xs)) (sum_list (map cost xs)) d'"
    using Cons.prems step_ok [OF d1(2)] step_rest [OF d1(2)] step_dnodes [OF d1(2)]
    by (intro Cons.IH) simp_all
  then obtain d' where "rep (length xs) get d1 = Inr (xs, d')"
    "step d1 (concat (map put xs)) (sum_list (map cost xs)) d'" by blast
  with d1 show ?case by (auto intro: step_trans)
qed

lemma rep_put_get:
  "rep n get d = Inr (xs, d') \<Longrightarrow> dec_ok d \<Longrightarrow>
   length xs = n \<and> list_all ok xs \<and>
   step d (concat (map put xs)) (sum_list (map cost xs)) d'"
proof (induction n arbitrary: d xs)
  case 0
  then show ?case by (simp add: step_refl)
next
  case (Suc n)
  then obtain x d1 ys where x: "get d = Inr (x, d1)" "rep n get d1 = Inr (ys, d')" "xs = x # ys"
    by (auto simp: rbind_eq_Inr)
  then have 1: "ok x" "step d (put x) (cost x) d1"
    using put_get Suc.prems by blast+
  have "length ys = n \<and> list_all ok ys \<and>
      step d1 (concat (map put ys)) (sum_list (map cost ys)) d'"
    using x(2) step_ok [OF 1(2)] by (intro Suc.IH) simp_all
  with 1 x(3) show ?case by (auto intro: step_trans)
qed

lemma rep_codec:
  "codec (\<lambda>xs. concat (map put xs)) (rep n get) (\<lambda>xs. length xs = n \<and> list_all ok xs)
     (\<lambda>xs. sum_list (map cost xs))"
proof
  fix xs d r
  assume "length xs = n \<and> list_all ok xs" "dec_ok d" "rest d = concat (map put xs) @ r"
    "dnodes d + sum_list (map cost xs) \<le> maxCanonicalNodes"
  then show "\<exists>d'. rep n get d = Inr (xs, d') \<and>
      step d (concat (map put xs)) (sum_list (map cost xs)) d'"
    using rep_get_put by blast
next
  fix d xs d'
  assume "rep n get d = Inr (xs, d')" "dec_ok d"
  then show "(length xs = n \<and> list_all ok xs) \<and>
      step d (concat (map put xs)) (sum_list (map cost xs)) d'"
    using rep_put_get by blast
qed

end

subsection \<open>The primitive reads keep the contract\<close>

lemma short_iff: "dec_ok d \<Longrightarrow> length (db d) < dpos d + n \<longleftrightarrow> length (rest d) < n"
  by (auto simp: dec_ok_def rest_def)

lemma rest_fold: "drop (dpos d) (db d) = rest d"
  by (simp add: rest_def)

lemma rest_adv: "rest (adv n d) = drop n (rest d)"
  by (simp add: rest_def adv_def add.commute)

lemma step_take:
  "dec_ok d \<Longrightarrow> n \<le> length (rest d) \<Longrightarrow> step d (take n (rest d)) 0 (adv n d)"
  by (auto simp: step_def rest_adv) (auto simp: dec_ok_def rest_def charge_def adv_def)

lemma step_put: "dec_ok d \<Longrightarrow> rest d = p @ r \<Longrightarrow> step d p 0 (adv (length p) d)"
  using step_take [of d "length p"] by simp

lemma get_u8_eq:
  "dec_ok d \<Longrightarrow> get_u8 d =
     (case rest d of [] \<Rightarrow> Inl (DFail (dpos d) UnexpectedEnd) | b # _ \<Rightarrow> Inr (b, adv 1 d))"
  by (cases "dpos d = length (db d)")
    (auto simp: get_u8_def dec_ok_def rest_def simp flip: Cons_nth_drop_Suc)

interpretation u8: codec "\<lambda>b. [b]" get_u8 "\<lambda>_. True" "\<lambda>_. 0"
proof
  fix x d r
  assume d: "dec_ok d" "rest d = [x] @ r"
  then show "\<exists>d'. get_u8 d = Inr (x, d') \<and> step d [x] 0 d'"
    using step_put [OF d] by (simp add: get_u8_eq)
next
  fix d x d'
  assume g: "get_u8 d = Inr (x, d')" and d: "dec_ok d"
  then obtain r where "rest d = [x] @ r" "d' = adv 1 d"
    by (auto simp: get_u8_eq split: list.splits)
  then show "True \<and> step d [x] 0 d'"
    using step_put [OF d, of "[x]" r] by simp
qed

interpretation u32: codec "be_bytes 4" get_u32 "\<lambda>n. n \<le> 2 ^ 24" "\<lambda>_. 0"
proof
  fix n d r
  assume n: "n \<le> (2::nat) ^ 24" and d: "dec_ok d" "rest d = be_bytes 4 n @ r"
  have "be_nat (be_bytes 4 n) = n"
    using n by (intro be_nat_be_bytes) simp
  then show "\<exists>d'. get_u32 d = Inr (n, d') \<and> step d (be_bytes 4 n) 0 d'"
    using n step_put [OF d] d by (simp add: get_u32_def short_iff rest_fold Let_def)
next
  fix d n d'
  assume g: "get_u32 d = Inr (n, d')" and d: "dec_ok d"
  then have n: "4 \<le> length (rest d)" "n = be_nat (take 4 (rest d))" "n \<le> 2 ^ 24" "d' = adv 4 d"
    by (auto simp: get_u32_def short_iff rest_fold Let_def split: if_splits)
  then have "be_bytes 4 n = take 4 (rest d)"
    by (simp add: be_bytes_be_nat)
  with n d show "n \<le> 2 ^ 24 \<and> step d (be_bytes 4 n) 0 d'"
    using step_take [of d 4] by simp
qed

interpretation str: codec str_enc get_str "\<lambda>s. length s \<le> 2 ^ 24" "\<lambda>_. 0"
proof
  fix s d r
  assume s: "length s \<le> (2::nat) ^ 24" and d: "dec_ok d" "rest d = str_enc s @ r"
    and c: "dnodes d + 0 \<le> maxCanonicalNodes"
  obtain d1 where d1: "get_u32 d = Inr (length s, d1)" "step d (be_bytes 4 (length s)) 0 d1"
    using u32.get_put [OF s d(1), of "str_bytes s @ r"] d c by (auto simp: str_enc_def)
  then have r1: "rest d1 = str_bytes s @ r" "dec_ok d1"
    using d step_rest [OF d1(2)] step_ok [OF d1(2)] by (simp_all add: str_enc_def)
  then have "step d (str_enc s) (0 + 0) (adv (length s) d1)"
    unfolding str_enc_def using step_trans [OF d1(2) step_put [OF r1(2,1)]] by simp
  with d1 r1 show "\<exists>d'. get_str d = Inr (s, d') \<and> step d (str_enc s) 0 d'"
    by (simp add: get_str_def short_iff rest_fold)
next
  fix d s d'
  assume g: "get_str d = Inr (s, d')" and d: "dec_ok d"
  then obtain n d1 where n: "get_u32 d = Inr (n, d1)"
    and b: "(if length (db d1) < dpos d1 + n then Inl (DFail (dpos d1) EndInString)
      else Inr (bytes_str (take n (drop (dpos d1) (db d1))), adv n d1)) = Inr (s, d')"
    by (auto simp: get_str_def rbind_eq_Inr)
  have n1: "n \<le> 2 ^ 24" "step d (be_bytes 4 n) 0 d1"
    using u32.put_get [OF n d] by simp_all
  then have d1: "dec_ok d1" using step_ok by blast
  with b have s: "n \<le> length (rest d1)" "s = bytes_str (take n (rest d1))" "d' = adv n d1"
    by (auto simp: short_iff rest_fold split: if_splits)
  then have "length s = n" "str_bytes s = take n (rest d1)" by simp_all
  moreover have "step d1 (take n (rest d1)) 0 d'"
    using step_take [OF d1 s(1)] s(3) by simp
  ultimately show "length s \<le> 2 ^ 24 \<and> step d (str_enc s) 0 d'"
    using n1 step_trans [OF n1(2)] by (fastforce simp: str_enc_def)
qed

interpretation hash: codec hash_raw get_hash hash_ok "\<lambda>_. 0"
proof
  fix h d r
  assume h: "hash_ok h" and d: "dec_ok d" "rest d = hash_raw h @ r"
  then show "\<exists>d'. get_hash d = Inr (h, d') \<and> step d (hash_raw h) 0 d'"
    using step_put [OF d]
    by (simp add: get_hash_def short_iff rest_fold hash_ok_length hex_encode_hash_raw)
next
  fix d h d'
  assume g: "get_hash d = Inr (h, d')" and d: "dec_ok d"
  then have h: "32 \<le> length (rest d)" "h = hex_encode (take 32 (rest d))" "d' = adv 32 d"
    by (auto simp: get_hash_def short_iff rest_fold split: if_splits)
  then show "hash_ok h \<and> step d (hash_raw h) 0 d'"
    using step_take [OF d h(1)] by simp
qed

definition float_put :: "64 word \<Rightarrow> bytes" where
  "float_put f = be_bytes 8 (unat (canonFloat f))"

interpretation float: codec float_put get_float "\<lambda>f. canonFloat f = f" "\<lambda>_. 0"
proof
  fix f d r
  assume f: "canonFloat f = f" and d: "dec_ok d" "rest d = float_put f @ r"
  have "unat f < 256 ^ 8" using unsigned_less [of f] by simp
  then have "be_nat (float_put f) = unat f"
    using f by (simp add: float_put_def be_nat_be_bytes)
  moreover have "\<not> (is_nan f \<and> f \<noteq> canonNaN)"
    using f by (metis canonFloat_def)
  moreover have "length (float_put f) = 8" by (simp add: float_put_def)
  ultimately show "\<exists>d'. get_float d = Inr (f, d') \<and> step d (float_put f) 0 d'"
    using step_put [OF d] d by (simp add: get_float_def short_iff rest_fold Let_def)
next
  fix d f d'
  assume g: "get_float d = Inr (f, d')" and d: "dec_ok d"
  then have f: "8 \<le> length (rest d)" "f = word_of_nat (be_nat (take 8 (rest d)))"
    "\<not> (is_nan f \<and> f \<noteq> canonNaN)" "d' = adv 8 d"
    by (auto simp: get_float_def short_iff rest_fold Let_def split: if_splits)
  have c: "canonFloat f = f" using f(3) by (auto simp: canonFloat_def)
  have "be_nat (take 8 (rest d)) < 256 ^ 8"
    using be_nat_lt [of "take 8 (rest d)"] f(1) by simp
  then have "unat f = be_nat (take 8 (rest d))"
    using f(2) by (simp add: unat_of_nat)
  then have "float_put f = take 8 (rest d)"
    using c f(1) by (simp add: float_put_def be_bytes_be_nat)
  with c f d show "canonFloat f = f \<and> step d (float_put f) 0 d'"
    using step_take [OF d f(1)] by simp
qed

lemma bigint_bytes_parts:
  "bigint_bytes v =
     [if v < 0 then 1 else 0] @ be_bytes 4 (mag_len (nat \<bar>v\<bar>)) @ mag_bytes (nat \<bar>v\<bar>)"
  by (simp add: bigint_bytes_def)

interpretation bigint: codec bigint_bytes get_bigint "\<lambda>v. mag_len (nat \<bar>v\<bar>) \<le> 2 ^ 24" "\<lambda>_. 0"
proof
  fix v d r
  define n where "n = nat \<bar>v\<bar>"
  assume v: "mag_len (nat \<bar>v\<bar>) \<le> (2::nat) ^ 24" and d: "dec_ok d" "rest d = bigint_bytes v @ r"
    and c: "dnodes d + 0 \<le> maxCanonicalNodes"
  define sg where "sg = (if v < 0 then 1 else 0 :: byte)"
  obtain d1 where d1: "get_u8 d = Inr (sg, d1)" "step d [sg] 0 d1"
    using u8.get_put [where x = sg and d = d] d c by (auto simp: bigint_bytes_def sg_def)
  have r1: "dec_ok d1" "rest d1 = be_bytes 4 (mag_len n) @ mag_bytes n @ r"
    using d step_rest [OF d1(2)] step_ok [OF d1(2)] by (simp_all add: bigint_bytes_def sg_def n_def)
  obtain d2 where d2: "get_u32 d1 = Inr (mag_len n, d2)" "step d1 (be_bytes 4 (mag_len n)) 0 d2"
    using u32.get_put [OF _ r1] v c step_dnodes [OF d1(2)] by (auto simp: n_def)
  have r2: "dec_ok d2" "rest d2 = mag_bytes n @ r"
    using r1 step_rest [OF d2(2)] step_ok [OF d2(2)] by simp_all
  have s3: "step d2 (mag_bytes n) 0 (adv (mag_len n) d2)"
    using step_put [OF r2] by simp
  have "step d (bigint_bytes v) (0 + (0 + 0)) (adv (mag_len n) d2)"
    using step_trans [OF d1(2) step_trans [OF d2(2) s3]]
    by (simp add: bigint_bytes_parts sg_def n_def)
  moreover have "0 < n \<Longrightarrow> hd (mag_bytes n) \<noteq> 0" by (rule hd_mag_bytes)
  moreover have "v = (if sg = 1 then - int n else int n)" "sg \<le> 1" "sg = 1 \<Longrightarrow> 0 < n"
    by (auto simp: sg_def n_def)
  ultimately show "\<exists>d'. get_bigint d = Inr (v, d') \<and> step d (bigint_bytes v) 0 d'"
    using d1(1) d2(1) r2
    by (auto simp: get_bigint_def short_iff rest_fold Let_def)
next
  fix d v d'
  assume g: "get_bigint d = Inr (v, d')" and d: "dec_ok d"
  obtain sg d1 where d1: "get_u8 d = Inr (sg, d1)" and sg: "\<not> 1 < sg"
    and g1: "rbind (get_u32 d1) (\<lambda>(n, d2).
       if length (db d2) < dpos d2 + n then Inl (DFail (dpos d2) EndInInteger)
       else let mag = take n (drop (dpos d2) (db d2)) in
         if 0 < n \<and> hd mag = 0 then Inl (DFail (dpos d2) LeadingZero)
         else if sg = 1 \<and> n = 0 then Inl (DFail (dpos d2) NegativeZero)
         else let v = int (be_nat mag)
              in Inr (if sg = 1 then - v else v, adv n d2)) = Inr (v, d')"
    using g by (auto simp: get_bigint_def rbind_eq_Inr split: if_splits)
  have s1: "step d [sg] 0 d1" using u8.put_get [OF d1 d] by simp
  then have ok1: "dec_ok d1" using step_ok by blast
  obtain n d2 where d2: "get_u32 d1 = Inr (n, d2)"
    using g1 by (auto simp: rbind_eq_Inr)
  have n: "n \<le> 2 ^ 24" "step d1 (be_bytes 4 n) 0 d2"
    using u32.put_get [OF d2 ok1] by simp_all
  then have ok2: "dec_ok d2" using step_ok by blast
  define mag where "mag = take n (rest d2)"
  have m: "n \<le> length (rest d2)" "0 < n \<Longrightarrow> hd mag \<noteq> 0" "sg = 1 \<Longrightarrow> 0 < n"
    "v = (if sg = 1 then - int (be_nat mag) else int (be_nat mag))" "d' = adv n d2"
    using g1 d2 ok2 by (auto simp: short_iff rest_fold mag_def Let_def split: if_splits)
  have s3: "step d2 mag 0 d'"
    using step_take [OF ok2 m(1)] m(5) by (simp add: mag_def)
  have lm: "length mag = n" using m(1) by (simp add: mag_def)
  then have hd: "mag = [] \<or> hd mag \<noteq> 0" using m(2) by auto
  have pos: "sg = 1 \<Longrightarrow> 0 < be_nat mag"
  proof -
    assume "sg = 1"
    with m(3) have "0 < mag_len (be_nat mag)" by (simp add: mag_len_be_nat [OF hd] lm)
    then show ?thesis by simp
  qed
  have sg01: "sg = 0 \<or> sg = 1"
    using sg by unat_arith
  have abs: "nat \<bar>v\<bar> = be_nat mag" using m(4) by auto
  have "bigint_bytes v = [sg] @ be_bytes 4 n @ mag"
    using pos sg01 m(4) by (auto simp: bigint_bytes_parts abs mag_len_be_nat [OF hd] lm
        mag_bytes_be_nat [OF hd])
  moreover have "step d ([sg] @ be_bytes 4 n @ mag) (0 + (0 + 0)) d'"
    by (rule step_trans [OF s1 step_trans [OF n(2) s3]])
  ultimately show "mag_len (nat \<bar>v\<bar>) \<le> 2 ^ 24 \<and> step d (bigint_bytes v) 0 d'"
    using n(1) by (simp add: abs mag_len_be_nat [OF hd] lm)
qed

subsection \<open>Composing readers\<close>

definition cbind :: "'a reader \<Rightarrow> ('a \<Rightarrow> 'b reader) \<Rightarrow> ('a \<times> 'b) reader" where
  "cbind g h d = rbind (g d) (\<lambda>(x, d1). rbind (h x d1) (\<lambda>(y, d2). Inr ((x, y), d2)))"

definition creserve :: "nat \<Rightarrow> unit reader" where
  "creserve n d = rbind (reserveNodes n d) (\<lambda>d'. Inr ((), d'))"

lemma rbind_assoc: "rbind (rbind m f) g = rbind m (\<lambda>x. rbind (f x) g)"
  by (cases m) simp_all

lemma rbind_case_prod: "rbind (case p of (x, y) \<Rightarrow> f x y) g = (case p of (x, y) \<Rightarrow> rbind (f x y) g)"
  by (cases p) simp

lemmas reader_simps = cbind_def creserve_def rbind_assoc rbind_case_prod split_def

lemma codec_bind:
  assumes g: "codec put1 g ok1 c1"
    and h: "\<And>x. ok1 x \<Longrightarrow> codec (put2 x) (h x) (ok2 x) (c2 x)"
  shows "codec (\<lambda>(x, y). put1 x @ put2 x y) (cbind g h) (\<lambda>(x, y). ok1 x \<and> ok2 x y)
    (\<lambda>(x, y). c1 x + c2 x y)"
proof
  fix p d r
  assume ok: "case p of (x, y) \<Rightarrow> ok1 x \<and> ok2 x y" and d: "dec_ok d"
    and r: "rest d = (case p of (x, y) \<Rightarrow> put1 x @ put2 x y) @ r"
    and c: "dnodes d + (case p of (x, y) \<Rightarrow> c1 x + c2 x y) \<le> maxCanonicalNodes"
  obtain x y where p: "p = (x, y)" by fastforce
  obtain d1 where d1: "g d = Inr (x, d1)" "step d (put1 x) (c1 x) d1"
    using codec.get_put [OF g, of x d "put2 x y @ r"] ok d r c p by auto
  obtain d2 where d2: "h x d1 = Inr (y, d2)" "step d1 (put2 x y) (c2 x y) d2"
    using codec.get_put [OF h, of x y d1 r] ok r c p step_ok [OF d1(2)] step_rest [OF d1(2)]
      step_dnodes [OF d1(2)] by auto
  show "\<exists>d'. cbind g h d = Inr (p, d') \<and>
      step d (case p of (x, y) \<Rightarrow> put1 x @ put2 x y) (case p of (x, y) \<Rightarrow> c1 x + c2 x y) d'"
    using d1 d2 p step_trans [OF d1(2) d2(2)] by (simp add: cbind_def)
next
  fix d p d'
  assume q: "cbind g h d = Inr (p, d')" and d: "dec_ok d"
  then obtain x d1 y where x: "g d = Inr (x, d1)" "h x d1 = Inr (y, d')" "p = (x, y)"
    by (auto simp: cbind_def rbind_eq_Inr)
  have 1: "ok1 x" "step d (put1 x) (c1 x) d1"
    using codec.put_get [OF g x(1) d] by simp_all
  have 2: "ok2 x y" "step d1 (put2 x y) (c2 x y) d'"
    using codec.put_get [OF h [OF 1(1)] x(2)] step_ok [OF 1(2)] by simp_all
  show "(case p of (x, y) \<Rightarrow> ok1 x \<and> ok2 x y) \<and>
      step d (case p of (x, y) \<Rightarrow> put1 x @ put2 x y) (case p of (x, y) \<Rightarrow> c1 x + c2 x y) d'"
    using 1 2 x(3) step_trans [OF 1(2) 2(2)] by simp
qed

lemma codec_map:
  assumes c: "codec put g ok c"
    and g': "\<And>d. g' d = rbind (g d) (\<lambda>(x, d'). Inr (f x, d'))"
    and bk: "\<And>y. ok' y \<Longrightarrow> ok (b y) \<and> f (b y) = y \<and> put' y = put (b y) \<and> c' y = c (b y)"
    and forth: "\<And>x. ok x \<Longrightarrow> ok' (f x) \<and> put' (f x) = put x \<and> c' (f x) = c x"
  shows "codec put' g' ok' c'"
proof
  fix y d r
  assume y: "ok' y" and d: "dec_ok d" "rest d = put' y @ r"
    and n: "dnodes d + c' y \<le> maxCanonicalNodes"
  then obtain d' where "g d = Inr (b y, d')" "step d (put (b y)) (c (b y)) d'"
    using codec.get_put [OF c, of "b y" d r] bk [OF y] by auto
  then show "\<exists>d'. g' d = Inr (y, d') \<and> step d (put' y) (c' y) d'"
    using bk [OF y] by (simp add: g')
next
  fix d y d'
  assume "g' d = Inr (y, d')" "dec_ok d"
  then show "ok' y \<and> step d (put' y) (c' y) d'"
    using codec.put_get [OF c] forth by (fastforce simp: g' rbind_eq_Inr)
qed

lemma codec_unit: "codec (\<lambda>_. []) (\<lambda>d. Inr ((), d)) (\<lambda>_. True) (\<lambda>_. 0)"
  by unfold_locales (simp_all add: step_refl)

lemma codec_reserve: "codec (\<lambda>_. []) (creserve n) (\<lambda>_. True) (\<lambda>_. n)"
proof
  fix x d r
  assume "dec_ok d" "dnodes d + n \<le> maxCanonicalNodes"
  then show "\<exists>d'. creserve n d = Inr (x, d') \<and> step d [] n d'"
    by (auto simp: creserve_def reserveNodes_def countNodes_eq step_charge)
next
  fix d x d'
  assume "creserve n d = Inr (x, d')" "dec_ok d"
  then show "True \<and> step d [] n d'"
    by (auto simp: creserve_def reserveNodes_def rbind_eq_Inr countNodes_Inr)
qed

lemma codec_fail: "(\<And>x. \<not> ok x) \<Longrightarrow> (\<And>d. \<exists>e. g d = Inl e) \<Longrightarrow> codec put g ok c"
  by unfold_locales (auto, metis Inl_Inr_False)

text \<open>A tag byte, then the form it selects.\<close>

lemma codec_tagged:
  assumes body: "\<And>tag. codec bodyb (body tag) (\<lambda>x. tag_of x = tag \<and> ok x) c"
  shows "codec (\<lambda>x. tag_of x # bodyb x) (\<lambda>d. rbind (get_u8 d) (\<lambda>(tag, d1). body tag d1)) ok c"
proof (rule codec_map [where f = snd and b = "\<lambda>x. (tag_of x, x)"])
  show "codec (\<lambda>(t, x). [t] @ bodyb x) (cbind get_u8 body) (\<lambda>(t, x). True \<and> tag_of x = t \<and> ok x)
    (\<lambda>(t, x). 0 + c x)"
    by (rule codec_bind [OF u8.codec_axioms body])
next
  fix d
  show "rbind (get_u8 d) (\<lambda>(tag, d1). body tag d1) =
      rbind (cbind get_u8 body d) (\<lambda>(x, d'). Inr (snd x, d'))"
    by (simp add: reader_simps) (simp add: rbind_def split: sum.splits)
qed auto

subsection \<open>Named entries in strictly ascending order\<close>

text \<open>
  The entries of a record: a name, refused unless it is strictly after the one before it,
  then the entry's value.
\<close>

fun rec_rep :: "nat \<Rightarrow> string option \<Rightarrow> 'a reader \<Rightarrow> (string \<times> 'a) list reader" where
  "rec_rep 0 prev get d = Inr ([], d)"
| "rec_rep (Suc n) prev get d =
     rbind (get_str d) (\<lambda>(name, d1).
       case (case prev of None \<Rightarrow> Inr () | Some p \<Rightarrow>
               if name \<le> p then Inl (DFail (dpos d1) (FieldsNotAscending name p)) else Inr ()) of
         Inl e \<Rightarrow> Inl e
       | Inr _ \<Rightarrow> rbind (get d1) (\<lambda>(x, d2).
           rbind (rec_rep n (Some name) get d2) (\<lambda>(xs, d3). Inr ((name, x) # xs, d3))))"

fun asc :: "string option \<Rightarrow> string list \<Rightarrow> bool" where
  "asc prev [] = True"
| "asc prev (n # ns) = ((case prev of None \<Rightarrow> True | Some p \<Rightarrow> p < n) \<and> asc (Some n) ns)"

definition entry_put :: "('a \<Rightarrow> bytes) \<Rightarrow> string \<times> 'a \<Rightarrow> bytes" where
  "entry_put put = (\<lambda>(n, x). str_enc n @ put x)"

definition entry_ok :: "('a \<Rightarrow> bool) \<Rightarrow> string \<times> 'a \<Rightarrow> bool" where
  "entry_ok ok = (\<lambda>(n, x). length n \<le> 2 ^ 24 \<and> ok x)"

lemma rec_rep_Suc:
  "rec_rep (Suc n) prev get d =
     rbind (cbind (\<lambda>d. rbind (get_str d) (\<lambda>(name, d1).
         case prev of None \<Rightarrow> Inr (name, d1) | Some p \<Rightarrow>
           if name \<le> p then Inl (DFail (dpos d1) (FieldsNotAscending name p)) else Inr (name, d1)))
       (\<lambda>name. cbind get (\<lambda>_. rec_rep n (Some name) get)) d)
       (\<lambda>(y, d'). Inr ((\<lambda>(name, x, xs). (name, x) # xs) y, d'))"
  by (cases "get_str d") (auto simp: reader_simps split: option.splits)

context codec
begin

lemma rec_rep_codec:
  "codec (\<lambda>es. concat (map (entry_put put) es)) (rec_rep n prev get)
     (\<lambda>es. length es = n \<and> list_all (entry_ok ok) es \<and> asc prev (map fst es))
     (\<lambda>es. sum_list (map (cost \<circ> snd) es))"
proof (induction n arbitrary: prev)
  case 0
  show ?case
    by unfold_locales (auto simp: step_refl)
next
  case (Suc n)
  have name: "codec str_enc (\<lambda>d. rbind (get_str d) (\<lambda>(name, d1).
         case prev of None \<Rightarrow> Inr (name, d1) | Some p \<Rightarrow>
           if name \<le> p then Inl (DFail (dpos d1) (FieldsNotAscending name p)) else Inr (name, d1)))
     (\<lambda>s. length s \<le> 2 ^ 24 \<and> (case prev of None \<Rightarrow> True | Some p \<Rightarrow> p < s)) (\<lambda>_. 0)"
  proof
    fix s d r
    assume s: "length s \<le> (2::nat) ^ 24 \<and> (case prev of None \<Rightarrow> True | Some p \<Rightarrow> p < s)"
      and d: "dec_ok d" "rest d = str_enc s @ r" "dnodes d + 0 \<le> maxCanonicalNodes"
    then obtain d' where "get_str d = Inr (s, d')" "step d (str_enc s) 0 d'"
      using str.get_put by blast
    with s show "\<exists>d'. rbind (get_str d) (\<lambda>(name, d1).
         case prev of None \<Rightarrow> Inr (name, d1) | Some p \<Rightarrow>
           if name \<le> p then Inl (DFail (dpos d1) (FieldsNotAscending name p)) else Inr (name, d1))
        = Inr (s, d') \<and> step d (str_enc s) 0 d'"
      by (auto split: option.splits)
  next
    fix d s d'
    assume g: "rbind (get_str d) (\<lambda>(name, d1).
         case prev of None \<Rightarrow> Inr (name, d1) | Some p \<Rightarrow>
           if name \<le> p then Inl (DFail (dpos d1) (FieldsNotAscending name p)) else Inr (name, d1))
        = Inr (s, d')" and d: "dec_ok d"
    then have "get_str d = Inr (s, d')" "case prev of None \<Rightarrow> True | Some p \<Rightarrow> p < s"
      by (auto simp: rbind_eq_Inr split: option.splits if_splits)
    with str.put_get [OF _ d] show "(length s \<le> 2 ^ 24 \<and>
        (case prev of None \<Rightarrow> True | Some p \<Rightarrow> p < s)) \<and> step d (str_enc s) 0 d'"
      by blast
  qed
  have entry: "codec (\<lambda>(x, es). put x @ concat (map (entry_put put) es))
      (cbind get (\<lambda>_. rec_rep n (Some s) get))
      (\<lambda>(x, es). ok x \<and> length es = n \<and> list_all (entry_ok ok) es \<and> asc (Some s) (map fst es))
      (\<lambda>(x, es). cost x + sum_list (map (cost \<circ> snd) es))" for s
    by (rule codec_bind [OF codec_axioms Suc.IH])
  show ?case
  proof (rule codec_map [where f = "\<lambda>(name, x, xs). (name, x) # xs"
        and b = "\<lambda>es. (fst (hd es), snd (hd es), tl es)"])
    show "codec (\<lambda>(s, x, es). str_enc s @ put x @ concat (map (entry_put put) es))
      (cbind (\<lambda>d. rbind (get_str d) (\<lambda>(name, d1).
         case prev of None \<Rightarrow> Inr (name, d1) | Some p \<Rightarrow>
           if name \<le> p then Inl (DFail (dpos d1) (FieldsNotAscending name p)) else Inr (name, d1)))
       (\<lambda>name. cbind get (\<lambda>_. rec_rep n (Some name) get)))
      (\<lambda>(s, x, es). (length s \<le> 2 ^ 24 \<and> (case prev of None \<Rightarrow> True | Some p \<Rightarrow> p < s)) \<and>
         ok x \<and> length es = n \<and> list_all (entry_ok ok) es \<and> asc (Some s) (map fst es))
      (\<lambda>(s, x, es). 0 + (cost x + sum_list (map (cost \<circ> snd) es)))"
      using codec_bind [OF name entry] by (simp add: split_def)
  next
    fix es :: "(string \<times> 'a) list"
    assume "length es = Suc n \<and> list_all (entry_ok ok) es \<and> asc prev (map fst es)"
    then show "(case (fst (hd es), snd (hd es), tl es) of (s, x, es) \<Rightarrow>
        (length s \<le> 2 ^ 24 \<and> (case prev of None \<Rightarrow> True | Some p \<Rightarrow> p < s)) \<and>
         ok x \<and> length es = n \<and> list_all (entry_ok ok) es \<and> asc (Some s) (map fst es)) \<and>
      (case (fst (hd es), snd (hd es), tl es) of (name, x, xs) \<Rightarrow> (name, x) # xs) = es \<and>
      concat (map (entry_put put) es) = (case (fst (hd es), snd (hd es), tl es) of
        (s, x, es) \<Rightarrow> str_enc s @ put x @ concat (map (entry_put put) es)) \<and>
      sum_list (map (cost \<circ> snd) es) = (case (fst (hd es), snd (hd es), tl es) of
        (s, x, es) \<Rightarrow> 0 + (cost x + sum_list (map (cost \<circ> snd) es)))"
      by (cases es) (auto simp: entry_put_def entry_ok_def)
  qed (rule rec_rep_Suc, auto simp: entry_put_def entry_ok_def split_def comp_def)
qed

end

end
