(* ===== verification/Decode.thy ===== *)
theory Decode
  imports Codec
begin

text \<open>
  The strict decoder of \<^verbatim>\<open>oath/canon.go\<close>: \<^verbatim>\<open>dec.ty\<close>, \<^verbatim>\<open>dec.term\<close>, \<^verbatim>\<open>dec.def\<close>, and
  \<^verbatim>\<open>decodeDef\<close> with its admission check. The Go routines keep their pending work on an
  explicit stack of tasks whose destinations are slots of the tree being built; children are
  pushed in reverse, so bytes are read, nodes are charged and errors are reported in the
  order of a depth-first descent, which is the recursion here. The depth of that recursion
  is a fuel argument, and \<open>Decode\<close> shows that as much fuel as there are bytes is always
  enough. \<open>prepaid\<close> marks a child whose node its parent's declared length has paid for.
\<close>

subsection \<open>Types\<close>

text \<open>
  What follows the tag, with the decoder of the children as an argument: \<open>sub prepaid\<close>.
\<close>

definition ty_body :: "(bool \<Rightarrow> ty reader) \<Rightarrow> byte \<Rightarrow> ty reader" where
  "ty_body sub tag d1 =
      (if tag = tagTyInt then Inr (TInt, d1)
       else if tag = tagTyRat then Inr (TRat, d1)
       else if tag = tagTyFloat then Inr (TFloat, d1)
       else if tag = tagTyBool then Inr (TBool, d1)
       else if tag = tagTyVar then rbind (get_u32 d1) (\<lambda>(v, d2). Inr (TVar v, d2))
       else if tag = tagTyFun then
         rbind (sub False d1) (\<lambda>(a, d2).
         rbind (sub False d2) (\<lambda>(b, d3). Inr (TFun a b, d3)))
       else if tag = tagTyData then
         rbind (get_hash d1) (\<lambda>(h, d2).
         rbind (get_u32 d2) (\<lambda>(n, d3).
         rbind (reserveNodes n d3) (\<lambda>d4.
         rbind (rep n (sub True) d4) (\<lambda>(as, d5). Inr (TData h as, d5)))))
       else if tag = tagTyRec then
         rbind (get_u32 d1) (\<lambda>(n, d2).
         rbind (reserveNodes n d2) (\<lambda>d3.
         rbind (rep n (sub True) d3) (\<lambda>(as, d4). Inr (TRec as, d4))))
       else if tag = tagTyRecord then
         rbind (get_u32 d1) (\<lambda>(n, d2).
         rbind (reserveNodes n d2) (\<lambda>d3.
         rbind (rec_rep n None (sub True) d3) (\<lambda>(es, d4).
           Inr (TRecord (map fst es) (map snd es), d4))))
       else Inl (DFail (dpos d1) (UnknownTyTag tag)))"

primrec dec_ty :: "nat \<Rightarrow> bool \<Rightarrow> ty reader" where
  "dec_ty 0 prepaid d = Inl OutOfFuel"
| "dec_ty (Suc k) prepaid d =
     rbind (if prepaid then Inr d else countNodes 1 d) (\<lambda>d0.
     rbind (get_u8 d0) (\<lambda>(tag, d1). ty_body (dec_ty k) tag d1))"

definition dec_fuel :: "dec \<Rightarrow> nat" where
  "dec_fuel d = Suc (length (db d))"

definition get_ty :: "ty reader" where
  "get_ty d = dec_ty (dec_fuel d) False d"

definition get_tys :: "ty list reader" where
  "get_tys d = rbind (get_u32 d) (\<lambda>(n, d1). rep n get_ty d1)"

text \<open>
  The types the format admits: hashes in lower case, record fields strictly ascending, and
  every index and count within the decoder's plausibility bound of \<^verbatim>\<open>1<<24\<close>.
\<close>

fun ty_canon :: "ty \<Rightarrow> bool" where
  "ty_canon (TVar v) = (v \<le> 2 ^ 24)"
| "ty_canon (TFun a b) = (ty_canon a \<and> ty_canon b)"
| "ty_canon (TData h as) = (hash_ok h \<and> length as \<le> 2 ^ 24 \<and> list_all ty_canon as)"
| "ty_canon (TRec as) = (length as \<le> 2 ^ 24 \<and> list_all ty_canon as)"
| "ty_canon (TRecord ns as) =
     (length ns = length as \<and> length ns \<le> 2 ^ 24 \<and> list_all (\<lambda>n. length n \<le> 2 ^ 24) ns \<and>
      asc None ns \<and> list_all ty_canon as)"
| "ty_canon _ = True"

text \<open>Depth of at most \<open>k\<close>, and the tag and the remaining bytes of a type.\<close>

fun ty_depth_le :: "nat \<Rightarrow> ty \<Rightarrow> bool" where
  "ty_depth_le 0 t = False"
| "ty_depth_le (Suc k) (TFun a b) = (ty_depth_le k a \<and> ty_depth_le k b)"
| "ty_depth_le (Suc k) (TData h as) = list_all (ty_depth_le k) as"
| "ty_depth_le (Suc k) (TRec as) = list_all (ty_depth_le k) as"
| "ty_depth_le (Suc k) (TRecord ns as) = list_all (ty_depth_le k) as"
| "ty_depth_le (Suc k) _ = True"

definition ty_tag :: "ty \<Rightarrow> byte" where
  "ty_tag t = hd (ty_bytes t)"

definition ty_body_bytes :: "ty \<Rightarrow> bytes" where
  "ty_body_bytes t = tl (ty_bytes t)"

lemma ty_bytes_split: "ty_bytes t = ty_tag t # ty_body_bytes t"
  by (simp add: ty_tag_def ty_body_bytes_def)

lemma ty_tag_simps [simp]:
  "ty_tag TInt = tagTyInt" "ty_tag TRat = tagTyRat" "ty_tag TFloat = tagTyFloat"
  "ty_tag TBool = tagTyBool" "ty_tag (TVar v) = tagTyVar" "ty_tag (TFun a b) = tagTyFun"
  "ty_tag (TData h as) = tagTyData" "ty_tag (TRec as) = tagTyRec"
  "ty_tag (TRecord ns as) = tagTyRecord"
  by (simp_all add: ty_tag_def)

lemma ty_tag_iff:
  "ty_tag t = tagTyInt \<longleftrightarrow> t = TInt" "ty_tag t = tagTyRat \<longleftrightarrow> t = TRat"
  "ty_tag t = tagTyFloat \<longleftrightarrow> t = TFloat" "ty_tag t = tagTyBool \<longleftrightarrow> t = TBool"
  "ty_tag t = tagTyVar \<longleftrightarrow> (\<exists>v. t = TVar v)" "ty_tag t = tagTyFun \<longleftrightarrow> (\<exists>a b. t = TFun a b)"
  "ty_tag t = tagTyData \<longleftrightarrow> (\<exists>h as. t = TData h as)" "ty_tag t = tagTyRec \<longleftrightarrow> (\<exists>as. t = TRec as)"
  "ty_tag t = tagTyRecord \<longleftrightarrow> (\<exists>ns as. t = TRecord ns as)"
  by (cases t; simp add: ty_tag_defs)+

lemma ty_tag_known:
  "ty_tag t \<in> {tagTyInt, tagTyRat, tagTyFloat, tagTyBool, tagTyVar, tagTyFun, tagTyData,
     tagTyRec, tagTyRecord}"
  by (cases t) simp_all

definition ty_ok :: "nat \<Rightarrow> ty \<Rightarrow> bool" where
  "ty_ok k t \<longleftrightarrow> ty_canon t \<and> ty_depth_le k t"

definition ty_cost :: "bool \<Rightarrow> ty \<Rightarrow> nat" where
  "ty_cost prepaid t = ty_nodes t - (if prepaid then 1 else 0)"

lemma ty_cost_False [simp]: "ty_cost False t = ty_nodes t"
  by (simp add: ty_cost_def)

lemma Suc_ty_cost_True: "Suc (ty_cost True t) = ty_nodes t"
  by (simp add: ty_cost_def)

lemma prepaid_sum: "length ts + sum_list (map (ty_cost True) ts) = sum_list (map ty_nodes ts)"
  by (induction ts) (simp_all add: Suc_ty_cost_True [symmetric])

lemma prepaid_sum_entries:
  "length es + sum_list (map (ty_cost True \<circ> snd) es) = sum_list (map ty_nodes (map snd es))"
  using prepaid_sum [of "map snd es"] by simp

lemma zip_entries:
  "length ns = length ts \<Longrightarrow>
   concat (map (\<lambda>(n, b). str_enc n @ b) (zip ns (map f ts))) =
   concat (map (entry_put f) (zip ns ts))"
  by (induction ns ts rule: list_induct2) (simp_all add: entry_put_def)

lemma list_all_zip_entry:
  "length ns = length ts \<Longrightarrow>
   list_all (entry_ok P) (zip ns ts) \<longleftrightarrow> list_all (\<lambda>n. length n \<le> 2 ^ 24) ns \<and> list_all P ts"
  by (induction ns ts rule: list_induct2) (auto simp: entry_ok_def)

lemma entry_ok_unzip:
  "list_all (entry_ok P) es \<longleftrightarrow>
   list_all (\<lambda>n. length n \<le> 2 ^ 24) (map fst es) \<and> list_all P (map snd es)"
  by (induction es) (auto simp: entry_ok_def)

lemma entry_put_unzip:
  "concat (map (\<lambda>(n, b). str_enc n @ b) (zip (map fst es) (map (f \<circ> snd) es))) =
   concat (map (entry_put f) es)"
  by (induction es) (simp_all add: entry_put_def split_def)

lemma list_all_ty_ok: "list_all (ty_ok k) ts \<longleftrightarrow> list_all ty_canon ts \<and> list_all (ty_depth_le k) ts"
  by (induction ts) (auto simp: ty_ok_def)

lemma sum_entries_zip:
  "length ns = length ts \<Longrightarrow>
   length ts + sum_list (map (ty_cost True \<circ> snd) (zip ns ts)) = sum_list (map ty_nodes ts)"
  by (induction ns ts rule: list_induct2) (simp_all add: Suc_ty_cost_True [symmetric])

text \<open>What each tag reads.\<close>

lemma ty_body_simps:
  "ty_body sub tagTyInt d = Inr (TInt, d)"
  "ty_body sub tagTyRat d = Inr (TRat, d)"
  "ty_body sub tagTyFloat d = Inr (TFloat, d)"
  "ty_body sub tagTyBool d = Inr (TBool, d)"
  "ty_body sub tagTyVar d = rbind (get_u32 d) (\<lambda>(v, d2). Inr (TVar v, d2))"
  "ty_body sub tagTyFun d =
     rbind (sub False d) (\<lambda>(a, d2). rbind (sub False d2) (\<lambda>(b, d3). Inr (TFun a b, d3)))"
  "ty_body sub tagTyData d =
     rbind (get_hash d) (\<lambda>(h, d2). rbind (get_u32 d2) (\<lambda>(n, d3). rbind (reserveNodes n d3)
       (\<lambda>d4. rbind (rep n (sub True) d4) (\<lambda>(as, d5). Inr (TData h as, d5)))))"
  "ty_body sub tagTyRec d =
     rbind (get_u32 d) (\<lambda>(n, d2). rbind (reserveNodes n d2)
       (\<lambda>d3. rbind (rep n (sub True) d3) (\<lambda>(as, d4). Inr (TRec as, d4))))"
  "ty_body sub tagTyRecord d =
     rbind (get_u32 d) (\<lambda>(n, d2). rbind (reserveNodes n d2)
       (\<lambda>d3. rbind (rec_rep n None (sub True) d3)
         (\<lambda>(es, d4). Inr (TRecord (map fst es) (map snd es), d4))))"
  by (simp_all add: ty_body_def ty_tag_defs)

text \<open>A declared count is charged at once, then that many values are read.\<close>

lemma counted_codec:
  assumes "codec put g ok c"
  shows "codec (\<lambda>(n, u, ts). be_bytes 4 n @ [] @ concat (map put ts))
      (cbind get_u32 (\<lambda>n. cbind (creserve n) (\<lambda>_. rep n g)))
      (\<lambda>(n, u, ts). n \<le> 2 ^ 24 \<and> True \<and> length ts = n \<and> list_all ok ts)
      (\<lambda>(n, u, ts). 0 + (n + sum_list (map c ts)))"
  using codec_bind [OF u32.codec_axioms codec_bind [OF codec_reserve codec.rep_codec [OF assms]]]
  by (simp add: split_def)

lemma entries_codec:
  assumes "codec put g ok c"
  shows "codec (\<lambda>(n, u, es). be_bytes 4 n @ [] @ concat (map (entry_put put) es))
      (cbind get_u32 (\<lambda>n. cbind (creserve n) (\<lambda>_. rec_rep n None g)))
      (\<lambda>(n, u, es). n \<le> 2 ^ 24 \<and> True \<and> length es = n \<and> list_all (entry_ok ok) es \<and>
        asc None (map fst es))
      (\<lambda>(n, u, es). 0 + (n + sum_list (map (c \<circ> snd) es)))"
  using codec_bind [OF u32.codec_axioms codec_bind [OF codec_reserve codec.rec_rep_codec [OF assms]]]
  by (simp add: split_def)

lemma ty_body_codec:
  assumes sub: "\<And>p. codec ty_bytes (sub p) (ty_ok k) (ty_cost p)"
  shows "codec ty_body_bytes (ty_body sub tag) (\<lambda>t. ty_tag t = tag \<and> ty_ok (Suc k) t)
    (\<lambda>t. ty_nodes t - 1)"
proof -
  note reps = counted_codec [OF sub [of True]]
  note recs = entries_codec [OF sub [of True]]
  note body_simps = ty_body_simps reader_simps ty_body_bytes_def ty_ok_def list_all_iff
    ty_tag_iff prepaid_sum prepaid_sum_entries
  have leaf_codec: ?thesis if "t \<in> {TInt, TRat, TFloat, TBool}" "tag = ty_tag t" for t
    by (rule codec_map [OF codec_unit, where f = "\<lambda>_. t" and b = "\<lambda>_. ()"])
      (use that in \<open>auto simp: body_simps\<close>)
  consider (leaf) t where "tag = ty_tag t" "t \<in> {TInt, TRat, TFloat, TBool}"
    | (var) "tag = tagTyVar" | (fn) "tag = tagTyFun" | (data) "tag = tagTyData"
    | (rc) "tag = tagTyRec" | (rcd) "tag = tagTyRecord"
    | (unknown) "tag \<notin> {tagTyInt, tagTyRat, tagTyFloat, tagTyBool, tagTyVar, tagTyFun,
        tagTyData, tagTyRec, tagTyRecord}"
    by (metis insertCI insertE singletonD ty_tag_simps(1-4))
  then show ?thesis
  proof cases
    case leaf
    then show ?thesis by (intro leaf_codec) simp_all
  next
    case var
    show ?thesis
      by (rule codec_map [OF u32.codec_axioms, where f = TVar and b = "\<lambda>t. case t of TVar v \<Rightarrow> v"])
        (use var in \<open>auto simp: body_simps\<close>)
  next
    case fn
    show ?thesis
      by (rule codec_map [OF codec_bind [OF sub sub], where f = "\<lambda>(a, b). TFun a b"
            and b = "\<lambda>t. case t of TFun a b \<Rightarrow> (a, b)"])
        (use fn in \<open>auto simp: body_simps\<close>)
  next
    case data
    show ?thesis
      by (rule codec_map [OF codec_bind [OF hash.codec_axioms reps],
            where f = "\<lambda>(h, n, u, ts). TData h ts"
            and b = "\<lambda>t. case t of TData h ts \<Rightarrow> (h, length ts, (), ts)"])
        (use data in \<open>auto simp: body_simps\<close>)
  next
    case rc
    show ?thesis
      by (rule codec_map [OF reps, where f = "\<lambda>(n, u, ts). TRec ts"
            and b = "\<lambda>t. case t of TRec ts \<Rightarrow> (length ts, (), ts)"])
        (use rc in \<open>auto simp: body_simps\<close>)
  next
    case rcd
    show ?thesis
      by (rule codec_map [OF recs, where f = "\<lambda>(n, u, es). TRecord (map fst es) (map snd es)"
            and b = "\<lambda>t. case t of TRecord ns ts \<Rightarrow> (length ns, (), zip ns ts)"])
        (use rcd in \<open>auto simp: ty_body_simps cbind_def creserve_def rbind_assoc rbind_case_prod
          ty_body_bytes_def ty_ok_def ty_tag_iff list_all_ty_ok list_all_zip_entry entry_ok_unzip
          zip_entries entry_put_unzip prepaid_sum_entries sum_entries_zip\<close>)
  next
    case unknown
    show ?thesis
      by (rule codec_fail) (use unknown ty_tag_known in \<open>auto simp: ty_body_def\<close>)
  qed
qed

lemma codec_charged:
  assumes "codec put g ok c"
  shows "codec put (\<lambda>d. rbind (countNodes n d) g) ok (\<lambda>x. n + c x)"
proof (rule codec_map [OF codec_bind [OF codec_reserve [of n] assms], where f = snd
      and b = "Pair ()"])
  fix d
  show "rbind (countNodes n d) g =
      rbind (cbind (creserve n) (\<lambda>_. g) d) (\<lambda>(x, d'). Inr (snd x, d'))"
    by (simp add: reader_simps reserveNodes_def) (simp add: rbind_def split: sum.splits)
qed auto

lemma dec_ty_Suc:
  "dec_ty (Suc k) False = (\<lambda>d. rbind (countNodes 1 d)
     (\<lambda>d0. rbind (get_u8 d0) (\<lambda>(tag, d1). ty_body (dec_ty k) tag d1)))"
  "dec_ty (Suc k) True = (\<lambda>d. rbind (get_u8 d) (\<lambda>(tag, d1). ty_body (dec_ty k) tag d1))"
  by (auto intro!: ext)

lemma ty_ok_0: "\<not> ty_ok 0 t"
  by (simp add: ty_ok_def)

lemma dec_ty_codec: "codec ty_bytes (dec_ty k p) (ty_ok k) (ty_cost p)"
proof (induction k arbitrary: p)
  case 0
  show ?case by (rule codec_fail) (simp_all add: ty_ok_0)
next
  case (Suc k)
  have c: "codec ty_bytes (\<lambda>d. rbind (get_u8 d) (\<lambda>(tag, d1). ty_body (dec_ty k) tag d1))
      (ty_ok (Suc k)) (ty_cost True)"
    using codec_tagged [where tag_of = ty_tag, OF ty_body_codec [OF Suc.IH]]
    by (simp add: ty_cost_def [abs_def] ty_bytes_split [symmetric])
  have "codec ty_bytes (dec_ty (Suc k) False) (ty_ok (Suc k)) (ty_cost False)"
    using codec_charged [OF c, of 1] unfolding dec_ty_Suc
    by (simp add: Suc_ty_cost_True ty_cost_False [abs_def])
  moreover have "codec ty_bytes (dec_ty (Suc k) True) (ty_ok (Suc k)) (ty_cost True)"
    using c unfolding dec_ty_Suc .
  ultimately show ?case by (cases p) (simp_all only:)
qed

text \<open>The depth of a type is less than its length in bytes, so the fuel is never short.\<close>

lemma length_concat_ge: "x \<in> set xs \<Longrightarrow> length (f x) \<le> length (concat (map f xs))"
  by (induction xs) auto

lemma length_entries_ge:
  "length ns = length ts \<Longrightarrow> t \<in> set ts \<Longrightarrow>
   length (f t) \<le> length (concat (map (\<lambda>(n, b). str_enc n @ b) (zip ns (map f ts))))"
  by (induction ns ts rule: list_induct2) auto

lemma ty_depth_bytes: "ty_canon t \<Longrightarrow> length (ty_bytes t) < k \<Longrightarrow> ty_depth_le k t"
proof (induction t arbitrary: k)
  case (TData h ts)
  then show ?case
    using length_concat_ge [of _ ts ty_bytes] by (cases k) (fastforce simp: list_all_iff)+
next
  case (TRec ts)
  then show ?case
    using length_concat_ge [of _ ts ty_bytes] by (cases k) (fastforce simp: list_all_iff)+
next
  case (TRecord ns ts)
  then show ?case
    using length_entries_ge [of ns ts _ ty_bytes] by (cases k) (fastforce simp: list_all_iff)+
next
  case (TFun a b)
  then show ?case by (cases k) auto
qed (case_tac k; simp)+

lemma length_rest: "dec_ok d \<Longrightarrow> length (rest d) < dec_fuel d"
  by (simp add: rest_def dec_fuel_def)

interpretation tyc: codec ty_bytes get_ty ty_canon ty_nodes
proof
  fix t d r
  assume t: "ty_canon t" and d: "dec_ok d" "rest d = ty_bytes t @ r"
    and n: "dnodes d + ty_nodes t \<le> maxCanonicalNodes"
  have "ty_ok (dec_fuel d) t"
    using t d length_rest [of d] by (simp add: ty_ok_def ty_depth_bytes)
  then show "\<exists>d'. get_ty d = Inr (t, d') \<and> step d (ty_bytes t) (ty_nodes t) d'"
    using codec.get_put [OF dec_ty_codec _ d, of _ False] n by (simp add: get_ty_def)
next
  fix d t d'
  assume "get_ty d = Inr (t, d')" "dec_ok d"
  then show "ty_canon t \<and> step d (ty_bytes t) (ty_nodes t) d'"
    using codec.put_get [OF dec_ty_codec, of _ False d] by (fastforce simp: get_ty_def ty_ok_def)
qed

definition tys_canon :: "ty list \<Rightarrow> bool" where
  "tys_canon ts \<longleftrightarrow> length ts \<le> 2 ^ 24 \<and> list_all ty_canon ts"

interpretation tysc: codec tys_bytes get_tys tys_canon "\<lambda>ts. sum_list (map ty_nodes ts)"
proof (rule codec_map [OF codec_bind [OF u32.codec_axioms tyc.rep_codec], where f = snd
      and b = "\<lambda>ts. (length ts, ts)"])
  fix d
  show "get_tys d = rbind (cbind get_u32 (\<lambda>n. rep n get_ty) d) (\<lambda>(x, d'). Inr (snd x, d'))"
    by (simp add: get_tys_def reader_simps) (simp add: rbind_def split: sum.splits)
qed (auto simp: tys_canon_def tys_bytes_def)

end
