(* ===== verification/DecodeTerm.thy ===== *)
theory DecodeTerm
  imports Decode
begin

text \<open>
  The strict decoder of terms and definitions of \<^verbatim>\<open>oath/canon.go\<close>: \<^verbatim>\<open>dec.term\<close>, \<^verbatim>\<open>dec.def\<close>,
  \<^verbatim>\<open>decodeDefRaw\<close> and \<^verbatim>\<open>decodeDef\<close>, on the plan of \<open>Decode\<close>: the body of each tag with the
  decoder of the children as an argument, a fuel for their depth, and the contract
  \<open>codec\<close> for every reader.
\<close>

subsection \<open>Terms\<close>

definition trm_body :: "(bool \<Rightarrow> trm reader) \<Rightarrow> byte \<Rightarrow> trm reader" where
  "trm_body sub tag d1 =
      (if tag = tagTmVar then rbind (get_u32 d1) (\<lambda>(v, d2). Inr (Var v, d2))
       else if tag = tagTmInt then rbind (get_bigint d1) (\<lambda>(v, d2). Inr (IntL v, d2))
       else if tag = tagTmRat then
         rbind (get_bigint d1) (\<lambda>(num, d2).
         rbind (get_bigint d2) (\<lambda>(den, d3).
           if den \<le> 0 then Inl (DFail (dpos d3) DenNotPositive)
           else if gcd \<bar>num\<bar> den \<noteq> 1 then Inl (DFail (dpos d3) NotCoprime)
           else Inr (RatL (Fract num den), d3)))
       else if tag = tagTmFloat then rbind (get_float d1) (\<lambda>(f, d2). Inr (FloatL f, d2))
       else if tag = tagTmBool then
         rbind (get_u8 d1) (\<lambda>(v, d2).
           if 1 < v then Inl (DFail (dpos d2) (BadBool v)) else Inr (BoolL (v = 1), d2))
       else if tag = tagTmLam then
         rbind (get_ty d1) (\<lambda>(t, d2).
         rbind (sub False d2) (\<lambda>(b, d3). Inr (Lam t b, d3)))
       else if tag = tagTmApp then
         rbind (sub False d1) (\<lambda>(a, d2).
         rbind (sub False d2) (\<lambda>(b, d3). Inr (App a b, d3)))
       else if tag = tagTmLet then
         rbind (get_ty d1) (\<lambda>(t, d2).
         rbind (sub False d2) (\<lambda>(a, d3).
         rbind (sub False d3) (\<lambda>(b, d4). Inr (Let t a b, d4))))
       else if tag = tagTmIf then
         rbind (sub False d1) (\<lambda>(a, d2).
         rbind (sub False d2) (\<lambda>(b, d3).
         rbind (sub False d3) (\<lambda>(c, d4). Inr (If a b c, d4))))
       else if tag = tagTmPrim then
         rbind (get_str d1) (\<lambda>(op, d2).
         rbind (get_u32 d2) (\<lambda>(n, d3).
         rbind (reserveNodes n d3) (\<lambda>d4.
         rbind (rep n (sub True) d4) (\<lambda>(as, d5). Inr (Prim op as, d5)))))
       else if tag = tagTmRef then
         rbind (get_hash d1) (\<lambda>(h, d2).
         rbind (get_tys d2) (\<lambda>(ts, d3). Inr (Ref h ts, d3)))
       else if tag = tagTmSelf then rbind (get_tys d1) (\<lambda>(ts, d2). Inr (Self ts, d2))
       else if tag = tagTmCtor then
         rbind (get_hash d1) (\<lambda>(h, d2).
         rbind (get_u32 d2) (\<lambda>(i, d3).
         rbind (get_tys d3) (\<lambda>(ts, d4).
         rbind (get_u32 d4) (\<lambda>(n, d5).
         rbind (reserveNodes n d5) (\<lambda>d6.
         rbind (rep n (sub True) d6) (\<lambda>(as, d7). Inr (Ctor h i ts as, d7)))))))
       else if tag = tagTmMatch then
         rbind (get_hash d1) (\<lambda>(h, d2).
         rbind (sub False d2) (\<lambda>(a, d3).
         rbind (get_u32 d3) (\<lambda>(n, d4).
         rbind (reserveNodes n d4) (\<lambda>d5.
         rbind (rep n (sub True) d5) (\<lambda>(arms, d6). Inr (Match h a arms, d6))))))
       else if tag = tagTmRecord then
         rbind (get_u32 d1) (\<lambda>(n, d2).
         rbind (reserveNodes n d2) (\<lambda>d3.
         rbind (rec_rep n None (sub True) d3) (\<lambda>(es, d4).
           Inr (Record (map fst es) (map snd es), d4))))
       else if tag = tagTmField then
         rbind (sub False d1) (\<lambda>(a, d2).
         rbind (get_str d2) (\<lambda>(f, d3). Inr (Field a f, d3)))
       else Inl (DFail (dpos d1) (UnknownTermTag tag)))"

primrec dec_term :: "nat \<Rightarrow> bool \<Rightarrow> trm reader" where
  "dec_term 0 prepaid d = Inl OutOfFuel"
| "dec_term (Suc k) prepaid d =
     rbind (if prepaid then Inr d else countNodes 1 d) (\<lambda>d0.
     rbind (get_u8 d0) (\<lambda>(tag, d1). trm_body (dec_term k) tag d1))"

definition get_term :: "trm reader" where
  "get_term d = dec_term (dec_fuel d) False d"

definition int_canon :: "int \<Rightarrow> bool" where
  "int_canon v \<longleftrightarrow> mag_len (nat \<bar>v\<bar>) \<le> 2 ^ 24"

text \<open>The terms the format admits, in the same way as \<^const>\<open>ty_canon\<close>.\<close>

fun trm_canon :: "trm \<Rightarrow> bool" where
  "trm_canon (Var i) = (i \<le> 2 ^ 24)"
| "trm_canon (IntL v) = int_canon v"
| "trm_canon (RatL r) = (int_canon (fst (quotient_of r)) \<and> int_canon (snd (quotient_of r)))"
| "trm_canon (FloatL f) = (canonFloat f = f)"
| "trm_canon (BoolL b) = True"
| "trm_canon (Lam t b) = (ty_canon t \<and> trm_canon b)"
| "trm_canon (App f a) = (trm_canon f \<and> trm_canon a)"
| "trm_canon (Let t a b) = (ty_canon t \<and> trm_canon a \<and> trm_canon b)"
| "trm_canon (If a b c) = (trm_canon a \<and> trm_canon b \<and> trm_canon c)"
| "trm_canon (Prim op as) =
     (length op \<le> 2 ^ 24 \<and> length as \<le> 2 ^ 24 \<and> list_all trm_canon as)"
| "trm_canon (Ref h ts) = (hash_ok h \<and> tys_canon ts)"
| "trm_canon (Self ts) = tys_canon ts"
| "trm_canon (Ctor h i ts as) =
     (hash_ok h \<and> i \<le> 2 ^ 24 \<and> tys_canon ts \<and> length as \<le> 2 ^ 24 \<and> list_all trm_canon as)"
| "trm_canon (Match h a arms) =
     (hash_ok h \<and> trm_canon a \<and> length arms \<le> 2 ^ 24 \<and> list_all trm_canon arms)"
| "trm_canon (Record ns as) =
     (length ns = length as \<and> length ns \<le> 2 ^ 24 \<and> list_all (\<lambda>n. length n \<le> 2 ^ 24) ns \<and>
      asc None ns \<and> list_all trm_canon as)"
| "trm_canon (Field a f) = (trm_canon a \<and> length f \<le> 2 ^ 24)"

fun trm_depth_le :: "nat \<Rightarrow> trm \<Rightarrow> bool" where
  "trm_depth_le 0 t = False"
| "trm_depth_le (Suc k) (Lam t b) = trm_depth_le k b"
| "trm_depth_le (Suc k) (App f a) = (trm_depth_le k f \<and> trm_depth_le k a)"
| "trm_depth_le (Suc k) (Let t a b) = (trm_depth_le k a \<and> trm_depth_le k b)"
| "trm_depth_le (Suc k) (If a b c) = (trm_depth_le k a \<and> trm_depth_le k b \<and> trm_depth_le k c)"
| "trm_depth_le (Suc k) (Prim op as) = list_all (trm_depth_le k) as"
| "trm_depth_le (Suc k) (Ctor h i ts as) = list_all (trm_depth_le k) as"
| "trm_depth_le (Suc k) (Match h a arms) =
     (trm_depth_le k a \<and> list_all (trm_depth_le k) arms)"
| "trm_depth_le (Suc k) (Record ns as) = list_all (trm_depth_le k) as"
| "trm_depth_le (Suc k) (Field a f) = trm_depth_le k a"
| "trm_depth_le (Suc k) _ = True"

definition trm_tag :: "trm \<Rightarrow> byte" where
  "trm_tag t = hd (trm_bytes t)"

definition trm_body_bytes :: "trm \<Rightarrow> bytes" where
  "trm_body_bytes t = tl (trm_bytes t)"

lemma trm_bytes_split: "trm_bytes t = trm_tag t # trm_body_bytes t"
  by (simp add: trm_tag_def trm_body_bytes_def)

lemma trm_tag_simps [simp]:
  "trm_tag (Var i) = tagTmVar" "trm_tag (IntL v) = tagTmInt" "trm_tag (RatL r) = tagTmRat"
  "trm_tag (FloatL f) = tagTmFloat" "trm_tag (BoolL b) = tagTmBool"
  "trm_tag (Lam ty t) = tagTmLam" "trm_tag (App t u) = tagTmApp"
  "trm_tag (Let ty t u) = tagTmLet" "trm_tag (If t u w) = tagTmIf"
  "trm_tag (Prim op as) = tagTmPrim" "trm_tag (Ref h ts) = tagTmRef"
  "trm_tag (Self ts) = tagTmSelf" "trm_tag (Ctor h i ts as) = tagTmCtor"
  "trm_tag (Match h t as) = tagTmMatch" "trm_tag (Record ns as) = tagTmRecord"
  "trm_tag (Field t n) = tagTmField"
  by (simp_all add: trm_tag_def)

lemma trm_tag_iff:
  "trm_tag x = tagTmVar \<longleftrightarrow> (\<exists>i. x = Var i)" "trm_tag x = tagTmInt \<longleftrightarrow> (\<exists>v. x = IntL v)"
  "trm_tag x = tagTmRat \<longleftrightarrow> (\<exists>r. x = RatL r)" "trm_tag x = tagTmFloat \<longleftrightarrow> (\<exists>f. x = FloatL f)"
  "trm_tag x = tagTmBool \<longleftrightarrow> (\<exists>b. x = BoolL b)" "trm_tag x = tagTmLam \<longleftrightarrow> (\<exists>ty t. x = Lam ty t)"
  "trm_tag x = tagTmApp \<longleftrightarrow> (\<exists>t u. x = App t u)"
  "trm_tag x = tagTmLet \<longleftrightarrow> (\<exists>ty t u. x = Let ty t u)"
  "trm_tag x = tagTmIf \<longleftrightarrow> (\<exists>t u w. x = If t u w)"
  "trm_tag x = tagTmPrim \<longleftrightarrow> (\<exists>op as. x = Prim op as)"
  "trm_tag x = tagTmRef \<longleftrightarrow> (\<exists>h ts. x = Ref h ts)" "trm_tag x = tagTmSelf \<longleftrightarrow> (\<exists>ts. x = Self ts)"
  "trm_tag x = tagTmCtor \<longleftrightarrow> (\<exists>h i ts as. x = Ctor h i ts as)"
  "trm_tag x = tagTmMatch \<longleftrightarrow> (\<exists>h t as. x = Match h t as)"
  "trm_tag x = tagTmRecord \<longleftrightarrow> (\<exists>ns as. x = Record ns as)"
  "trm_tag x = tagTmField \<longleftrightarrow> (\<exists>t n. x = Field t n)"
  by (cases x; simp add: tm_tag_defs)+

lemma trm_tag_known:
  "trm_tag t \<in> {tagTmVar, tagTmInt, tagTmRat, tagTmFloat, tagTmBool, tagTmLam, tagTmApp,
     tagTmLet, tagTmIf, tagTmPrim, tagTmRef, tagTmSelf, tagTmCtor, tagTmMatch, tagTmRecord,
     tagTmField}"
  by (cases t) simp_all

definition trm_ok :: "nat \<Rightarrow> trm \<Rightarrow> bool" where
  "trm_ok k t \<longleftrightarrow> trm_canon t \<and> trm_depth_le k t"

definition trm_cost :: "bool \<Rightarrow> trm \<Rightarrow> nat" where
  "trm_cost prepaid t = trm_nodes t - (if prepaid then 1 else 0)"

lemma trm_cost_False [simp]: "trm_cost False t = trm_nodes t"
  by (simp add: trm_cost_def)

lemma Suc_trm_cost_True: "Suc (trm_cost True t) = trm_nodes t"
  by (simp add: trm_cost_def)

lemma prepaid_trms: "length ts + sum_list (map (trm_cost True) ts) = sum_list (map trm_nodes ts)"
  by (induction ts) (simp_all add: Suc_trm_cost_True [symmetric])

lemma prepaid_trm_entries:
  "length es + sum_list (map (trm_cost True \<circ> snd) es) = sum_list (map trm_nodes (map snd es))"
  using prepaid_trms [of "map snd es"] by simp

lemma prepaid_trm_zip:
  "length ns = length ts \<Longrightarrow>
   length ts + sum_list (map (trm_cost True \<circ> snd) (zip ns ts)) = sum_list (map trm_nodes ts)"
  by (induction ns ts rule: list_induct2) (simp_all add: Suc_trm_cost_True [symmetric])

lemma list_all_trm_ok:
  "list_all (trm_ok k) ts \<longleftrightarrow> list_all trm_canon ts \<and> list_all (trm_depth_le k) ts"
  by (induction ts) (auto simp: trm_ok_def)

lemma trm_body_simps:
  "trm_body sub tagTmVar d = rbind (get_u32 d) (\<lambda>(v, d2). Inr (Var v, d2))"
  "trm_body sub tagTmInt d = rbind (get_bigint d) (\<lambda>(v, d2). Inr (IntL v, d2))"
  "trm_body sub tagTmRat d =
     rbind (get_bigint d) (\<lambda>(num, d2). rbind (get_bigint d2) (\<lambda>(den, d3).
       if den \<le> 0 then Inl (DFail (dpos d3) DenNotPositive)
       else if gcd \<bar>num\<bar> den \<noteq> 1 then Inl (DFail (dpos d3) NotCoprime)
       else Inr (RatL (Fract num den), d3)))"
  "trm_body sub tagTmFloat d = rbind (get_float d) (\<lambda>(f, d2). Inr (FloatL f, d2))"
  "trm_body sub tagTmBool d = rbind (get_u8 d) (\<lambda>(v, d2).
     if 1 < v then Inl (DFail (dpos d2) (BadBool v)) else Inr (BoolL (v = 1), d2))"
  "trm_body sub tagTmLam d =
     rbind (get_ty d) (\<lambda>(t, d2). rbind (sub False d2) (\<lambda>(b, d3). Inr (Lam t b, d3)))"
  "trm_body sub tagTmApp d =
     rbind (sub False d) (\<lambda>(a, d2). rbind (sub False d2) (\<lambda>(b, d3). Inr (App a b, d3)))"
  "trm_body sub tagTmLet d =
     rbind (get_ty d) (\<lambda>(t, d2). rbind (sub False d2) (\<lambda>(a, d3).
       rbind (sub False d3) (\<lambda>(b, d4). Inr (Let t a b, d4))))"
  "trm_body sub tagTmIf d =
     rbind (sub False d) (\<lambda>(a, d2). rbind (sub False d2) (\<lambda>(b, d3).
       rbind (sub False d3) (\<lambda>(c, d4). Inr (If a b c, d4))))"
  "trm_body sub tagTmPrim d =
     rbind (get_str d) (\<lambda>(op, d2). rbind (get_u32 d2) (\<lambda>(n, d3).
       rbind (reserveNodes n d3) (\<lambda>d4.
       rbind (rep n (sub True) d4) (\<lambda>(as, d5). Inr (Prim op as, d5)))))"
  by (simp_all only: trm_body_def tm_tag_defs, simp_all)

lemma trm_body_simps2:
  "trm_body sub tagTmRef d =
     rbind (get_hash d) (\<lambda>(h, d2). rbind (get_tys d2) (\<lambda>(ts, d3). Inr (Ref h ts, d3)))"
  "trm_body sub tagTmSelf d = rbind (get_tys d) (\<lambda>(ts, d2). Inr (Self ts, d2))"
  "trm_body sub tagTmCtor d =
     rbind (get_hash d) (\<lambda>(h, d2). rbind (get_u32 d2) (\<lambda>(i, d3).
       rbind (get_tys d3) (\<lambda>(ts, d4). rbind (get_u32 d4) (\<lambda>(n, d5).
       rbind (reserveNodes n d5) (\<lambda>d6.
       rbind (rep n (sub True) d6) (\<lambda>(as, d7). Inr (Ctor h i ts as, d7)))))))"
  "trm_body sub tagTmMatch d =
     rbind (get_hash d) (\<lambda>(h, d2). rbind (sub False d2) (\<lambda>(a, d3).
       rbind (get_u32 d3) (\<lambda>(n, d4). rbind (reserveNodes n d4) (\<lambda>d5.
       rbind (rep n (sub True) d5) (\<lambda>(arms, d6). Inr (Match h a arms, d6))))))"
  "trm_body sub tagTmRecord d =
     rbind (get_u32 d) (\<lambda>(n, d2). rbind (reserveNodes n d2) (\<lambda>d3.
       rbind (rec_rep n None (sub True) d3)
         (\<lambda>(es, d4). Inr (Record (map fst es) (map snd es), d4))))"
  "trm_body sub tagTmField d =
     rbind (sub False d) (\<lambda>(a, d2). rbind (get_str d2) (\<lambda>(f, d3). Inr (Field a f, d3)))"
  by (simp_all only: trm_body_def tm_tag_defs, simp_all)

text \<open>A reader followed by a check of the value.\<close>

lemma codec_filter:
  assumes c: "codec put g ok c"
  shows "codec put (\<lambda>d. rbind (g d) (\<lambda>(x, d'). if P x then Inr (x, d') else Inl (err x d')))
    (\<lambda>x. ok x \<and> P x) c"
proof
  fix x d r
  assume "ok x \<and> P x" "dec_ok d" "rest d = put x @ r" "dnodes d + c x \<le> maxCanonicalNodes"
  then show "\<exists>d'. rbind (g d) (\<lambda>(x, d'). if P x then Inr (x, d') else Inl (err x d')) = Inr (x, d') \<and>
      step d (put x) (c x) d'"
    using codec.get_put [OF c] by fastforce
next
  fix x d d'
  assume "rbind (g d) (\<lambda>(x, d'). if P x then Inr (x, d') else Inl (err x d')) = Inr (x, d')"
    and "dec_ok d"
  then show "(ok x \<and> P x) \<and> step d (put x) (c x) d'"
    using codec.put_get [OF c] by (auto simp: rbind_eq_Inr split: if_splits)
qed

lemma quotient_of_Fract_coprime:
  "0 < den \<Longrightarrow> gcd \<bar>num\<bar> den = 1 \<Longrightarrow> quotient_of (Fract num den) = (num, den)"
  by (simp add: quotient_of_Fract normalize_stable coprime_iff_gcd_eq_1)

lemma quotient_of_parts:
  "quotient_of r = (num, den) \<Longrightarrow> 0 < den \<and> gcd num den = 1 \<and> Fract num den = r"
  using quotient_of_denom_pos [of r] quotient_of_coprime [of r] quotient_of_inject [of "Fract num den" r]
  by (auto simp: coprime_iff_gcd_eq_1 quotient_of_Fract_coprime)

definition get_ratio :: "(int \<times> int) reader" where
  "get_ratio = cbind get_bigint (\<lambda>num d. rbind (get_bigint d) (\<lambda>(den, d3).
       if 0 < den \<and> gcd \<bar>num\<bar> den = 1 then Inr (den, d3)
       else Inl (DFail (dpos d3) (if den \<le> 0 then DenNotPositive else NotCoprime))))"

lemma get_ratio_codec:
  "codec (\<lambda>(num, den). bigint_bytes num @ bigint_bytes den) get_ratio
     (\<lambda>(num, den). int_canon num \<and> int_canon den \<and> 0 < den \<and> gcd \<bar>num\<bar> den = 1)
     (\<lambda>(num, den). 0 + 0)"
  unfolding get_ratio_def int_canon_def
  by (rule codec_bind [OF bigint.codec_axioms codec_filter [OF bigint.codec_axioms,
          where P = "\<lambda>den. 0 < den \<and> gcd \<bar>num\<bar> den = 1" for num]])

lemma get_ratio_body:
  "trm_body sub tagTmRat d =
     rbind (get_ratio d) (\<lambda>(x, d'). Inr ((\<lambda>(num, den). RatL (Fract num den)) x, d'))"
  unfolding trm_body_simps get_ratio_def reader_simps
  by (intro rbind_cong refl) auto

abbreviation tagged_codec :: "(bool \<Rightarrow> trm reader) \<Rightarrow> nat \<Rightarrow> byte \<Rightarrow> bool" where
  "tagged_codec sub k tag \<equiv>
     codec trm_body_bytes (trm_body sub tag) (\<lambda>t. trm_tag t = tag \<and> trm_ok (Suc k) t)
       (\<lambda>t. trm_nodes t - 1)"

lemmas body_reader_simps = cbind_def creserve_def rbind_assoc rbind_case_prod
lemmas body_ok_simps = trm_body_bytes_def trm_ok_def trm_tag_iff

lemma trm_leaf_codecs:
  "tagged_codec sub k tagTmVar" "tagged_codec sub k tagTmInt" "tagged_codec sub k tagTmRat"
  "tagged_codec sub k tagTmFloat" "tagged_codec sub k tagTmBool" "tagged_codec sub k tagTmRef"
  "tagged_codec sub k tagTmSelf"
proof -
  show "tagged_codec sub k tagTmVar"
    by (rule codec_map [OF u32.codec_axioms, where f = Var and b = "\<lambda>t. case t of Var i \<Rightarrow> i"])
      (auto simp: trm_body_simps body_ok_simps)
  show "tagged_codec sub k tagTmInt"
    by (rule codec_map [OF bigint.codec_axioms, where f = IntL
          and b = "\<lambda>t. case t of IntL v \<Rightarrow> v"])
      (auto simp: trm_body_simps body_ok_simps int_canon_def)
  show "tagged_codec sub k tagTmRat"
    by (rule codec_map [OF get_ratio_codec, where f = "\<lambda>(num, den). RatL (Fract num den)"
          and b = "\<lambda>t. case t of RatL r \<Rightarrow> quotient_of r"])
      (auto simp: get_ratio_body body_ok_simps quotient_of_Fract_coprime
        dest!: quotient_of_parts split: prod.splits)
  show "tagged_codec sub k tagTmFloat"
    by (rule codec_map [OF float.codec_axioms, where f = FloatL
          and b = "\<lambda>t. case t of FloatL f \<Rightarrow> f"])
      (auto simp: trm_body_simps body_ok_simps float_put_def)
  show "tagged_codec sub k tagTmBool"
  proof (rule codec_map [OF codec_filter [OF u8.codec_axioms, where P = "\<lambda>v. v \<le> 1"
            and err = "\<lambda>v d. DFail (dpos d) (BadBool v)"],
          where f = "\<lambda>v. BoolL (v = 1)" and b = "\<lambda>t. case t of BoolL b \<Rightarrow> if b then 1 else 0"])
    fix d
    show "trm_body sub tagTmBool d =
        rbind (rbind (get_u8 d) (\<lambda>(x, d'). if x \<le> 1 then Inr (x, d')
          else Inl (DFail (dpos d') (BadBool x)))) (\<lambda>(x, d'). Inr (BoolL (x = 1), d'))"
      unfolding trm_body_simps rbind_assoc by (intro rbind_cong refl) auto
  next
    fix v :: byte
    assume "True \<and> v \<le> 1"
    then have "v = 0 \<or> v = 1" by unat_arith
    then show "(trm_tag (BoolL (v = 1)) = tagTmBool \<and> trm_ok (Suc k) (BoolL (v = 1))) \<and>
        trm_body_bytes (BoolL (v = 1)) = [v] \<and> trm_nodes (BoolL (v = 1)) - 1 = 0"
      by (auto simp: body_ok_simps)
  qed (auto simp: body_ok_simps split: if_splits)
  show "tagged_codec sub k tagTmRef"
    by (rule codec_map [OF codec_bind [OF hash.codec_axioms tysc.codec_axioms],
          where f = "\<lambda>(h, ts). Ref h ts" and b = "\<lambda>t. case t of Ref h ts \<Rightarrow> (h, ts)"])
      (auto simp: trm_body_simps2 body_reader_simps body_ok_simps)
  show "tagged_codec sub k tagTmSelf"
    by (rule codec_map [OF tysc.codec_axioms, where f = Self
          and b = "\<lambda>t. case t of Self ts \<Rightarrow> ts"])
      (auto simp: trm_body_simps2 body_reader_simps body_ok_simps)
qed

lemma trm_inner_codecs:
  assumes sub: "\<And>p. codec trm_bytes (sub p) (trm_ok k) (trm_cost p)"
  shows "tagged_codec sub k tagTmLam" "tagged_codec sub k tagTmApp" "tagged_codec sub k tagTmLet"
    "tagged_codec sub k tagTmIf" "tagged_codec sub k tagTmField"
proof -
  show "tagged_codec sub k tagTmLam"
    by (rule codec_map [OF codec_bind [OF tyc.codec_axioms sub], where f = "\<lambda>(t, b). Lam t b"
          and b = "\<lambda>x. case x of Lam t b \<Rightarrow> (t, b)"])
      (auto simp: trm_body_simps body_reader_simps body_ok_simps)
  show "tagged_codec sub k tagTmApp"
    by (rule codec_map [OF codec_bind [OF sub sub], where f = "\<lambda>(a, b). App a b"
          and b = "\<lambda>x. case x of App a b \<Rightarrow> (a, b)"])
      (auto simp: trm_body_simps body_reader_simps body_ok_simps)
  show "tagged_codec sub k tagTmLet"
    by (rule codec_map [OF codec_bind [OF tyc.codec_axioms codec_bind [OF sub sub]],
          where f = "\<lambda>(t, a, b). Let t a b" and b = "\<lambda>x. case x of Let t a b \<Rightarrow> (t, a, b)"])
      (auto simp: trm_body_simps body_reader_simps body_ok_simps)
  show "tagged_codec sub k tagTmIf"
    by (rule codec_map [OF codec_bind [OF sub codec_bind [OF sub sub]],
          where f = "\<lambda>(a, b, c). If a b c" and b = "\<lambda>x. case x of If a b c \<Rightarrow> (a, b, c)"])
      (auto simp: trm_body_simps body_reader_simps body_ok_simps)
  show "tagged_codec sub k tagTmField"
    by (rule codec_map [OF codec_bind [OF sub str.codec_axioms], where f = "\<lambda>(a, n). Field a n"
          and b = "\<lambda>x. case x of Field a n \<Rightarrow> (a, n)"])
      (auto simp: trm_body_simps2 body_reader_simps body_ok_simps)
qed

lemma trm_list_codecs:
  assumes sub: "\<And>p. codec trm_bytes (sub p) (trm_ok k) (trm_cost p)"
  shows "tagged_codec sub k tagTmPrim" "tagged_codec sub k tagTmCtor"
    "tagged_codec sub k tagTmMatch" "tagged_codec sub k tagTmRecord"
proof -
  note args = counted_codec [OF sub [of True]]
  note list_simps = body_reader_simps body_ok_simps list_all_trm_ok prepaid_trms
  show "tagged_codec sub k tagTmPrim"
    by (rule codec_map [OF codec_bind [OF str.codec_axioms args],
          where f = "\<lambda>(op, n, u, as). Prim op as"
            and b = "\<lambda>x. case x of Prim op as \<Rightarrow> (op, length as, (), as)"])
      (auto simp: trm_body_simps list_simps)
  show "tagged_codec sub k tagTmCtor"
    by (rule codec_map [OF codec_bind [OF hash.codec_axioms codec_bind [OF u32.codec_axioms
            codec_bind [OF tysc.codec_axioms args]]],
          where f = "\<lambda>(h, i, ts, n, u, as). Ctor h i ts as"
            and b = "\<lambda>x. case x of Ctor h i ts as \<Rightarrow> (h, i, ts, length as, (), as)"])
      (auto simp: trm_body_simps2 list_simps)
  show "tagged_codec sub k tagTmMatch"
    by (rule codec_map [OF codec_bind [OF hash.codec_axioms codec_bind [OF sub args]],
          where f = "\<lambda>(h, a, n, u, as). Match h a as"
            and b = "\<lambda>x. case x of Match h a as \<Rightarrow> (h, a, length as, (), as)"])
      (auto simp: trm_body_simps2 list_simps)
  show "tagged_codec sub k tagTmRecord"
    by (rule codec_map [OF entries_codec [OF sub [of True]],
          where f = "\<lambda>(n, u, es). Record (map fst es) (map snd es)"
            and b = "\<lambda>x. case x of Record ns ts \<Rightarrow> (length ns, (), zip ns ts)"])
      (auto simp: trm_body_simps2 list_simps list_all_zip_entry entry_ok_unzip zip_entries
        entry_put_unzip prepaid_trm_entries prepaid_trm_zip)
qed

lemma trm_body_codec:
  assumes sub: "\<And>p. codec trm_bytes (sub p) (trm_ok k) (trm_cost p)"
  shows "tagged_codec sub k tag"
proof (cases "tag \<in> {tagTmVar, tagTmInt, tagTmRat, tagTmFloat, tagTmBool, tagTmLam, tagTmApp,
     tagTmLet, tagTmIf, tagTmPrim, tagTmRef, tagTmSelf, tagTmCtor, tagTmMatch, tagTmRecord,
     tagTmField}")
  case True
  then show ?thesis
    using trm_leaf_codecs trm_inner_codecs [of sub k] trm_list_codecs [of sub k] sub by blast
next
  case False
  then show ?thesis
    by (intro codec_fail) (use trm_tag_known in \<open>auto simp: trm_body_def\<close>)
qed

lemma dec_term_Suc:
  "dec_term (Suc k) False = (\<lambda>d. rbind (countNodes 1 d)
     (\<lambda>d0. rbind (get_u8 d0) (\<lambda>(tag, d1). trm_body (dec_term k) tag d1)))"
  "dec_term (Suc k) True = (\<lambda>d. rbind (get_u8 d) (\<lambda>(tag, d1). trm_body (dec_term k) tag d1))"
  by (auto intro!: ext)

lemma dec_term_codec: "codec trm_bytes (dec_term k p) (trm_ok k) (trm_cost p)"
proof (induction k arbitrary: p)
  case 0
  show ?case by (rule codec_fail) (simp_all add: trm_ok_def)
next
  case (Suc k)
  have c: "codec trm_bytes (\<lambda>d. rbind (get_u8 d) (\<lambda>(tag, d1). trm_body (dec_term k) tag d1))
      (trm_ok (Suc k)) (trm_cost True)"
    using codec_tagged [where tag_of = trm_tag, OF trm_body_codec [OF Suc.IH]]
    by (simp add: trm_cost_def [abs_def] trm_bytes_split [symmetric])
  have "codec trm_bytes (dec_term (Suc k) False) (trm_ok (Suc k)) (trm_cost False)"
    using codec_charged [OF c, of 1] unfolding dec_term_Suc
    by (simp add: Suc_trm_cost_True trm_cost_False [abs_def])
  moreover have "codec trm_bytes (dec_term (Suc k) True) (trm_ok (Suc k)) (trm_cost True)"
    using c unfolding dec_term_Suc .
  ultimately show ?case by (cases p) (simp_all only:)
qed

lemma trm_depth_bytes: "trm_canon t \<Longrightarrow> length (trm_bytes t) < k \<Longrightarrow> trm_depth_le k t"
proof (induction t arbitrary: k)
  case (Prim op as)
  then show ?case
    using length_concat_ge [of _ as trm_bytes] by (cases k) (fastforce simp: list_all_iff)+
next
  case (Ctor h i ts as)
  then show ?case
    using length_concat_ge [of _ as trm_bytes] by (cases k) (fastforce simp: list_all_iff)+
next
  case (Match h a as)
  then show ?case
    using length_concat_ge [of _ as trm_bytes] by (cases k) (fastforce simp: list_all_iff)+
next
  case (Record ns as)
  then show ?case
    using length_entries_ge [of ns as _ trm_bytes] by (cases k) (fastforce simp: list_all_iff)+
qed (case_tac k; simp)+

interpretation trmc: codec trm_bytes get_term trm_canon trm_nodes
proof
  fix t d r
  assume t: "trm_canon t" and d: "dec_ok d" "rest d = trm_bytes t @ r"
    and n: "dnodes d + trm_nodes t \<le> maxCanonicalNodes"
  have "trm_ok (dec_fuel d) t"
    using t d length_rest [of d] by (simp add: trm_ok_def trm_depth_bytes)
  then show "\<exists>d'. get_term d = Inr (t, d') \<and> step d (trm_bytes t) (trm_nodes t) d'"
    using codec.get_put [OF dec_term_codec _ d, of _ False] n by (simp add: get_term_def)
next
  fix d t d'
  assume "get_term d = Inr (t, d')" "dec_ok d"
  then show "trm_canon t \<and> step d (trm_bytes t) (trm_nodes t) d'"
    using codec.put_get [OF dec_term_codec, of _ False d]
    by (fastforce simp: get_term_def trm_ok_def)
qed

subsection \<open>Definitions\<close>

definition get_ctors :: "ty list list reader" where
  "get_ctors d = rbind (get_u32 d) (\<lambda>(n, d1). rep n get_tys d1)"

definition get_prop :: "property reader" where
  "get_prop d =
     rbind (get_tys d) (\<lambda>(bs, d1).
     rbind (get_term d1) (\<lambda>(b, d2). Inr (\<lparr>binders = bs, pbody = b\<rparr>, d2)))"

definition def_body :: "byte \<Rightarrow> def reader" where
  "def_body tag d =
     (if tag = tagDefData then
        rbind (get_u32 d) (\<lambda>(tv, d1).
        rbind (get_ctors d1) (\<lambda>(cs, d2). Inr (DData tv cs, d2)))
      else if tag = tagDefFunc then
        rbind (get_u32 d) (\<lambda>(tv, d1).
        rbind (get_ty d1) (\<lambda>(t, d2).
        rbind (get_term d2) (\<lambda>(b, d3).
        rbind (get_u32 d3) (\<lambda>(n, d4).
        rbind (rep n get_prop d4) (\<lambda>(ps, d5). Inr (DFunc tv t b ps, d5))))))
      else Inl (DFail (dpos d) (UnknownDefTag tag)))"

definition dec_def :: "def reader" where
  "dec_def d =
     rbind (get_u8 d) (\<lambda>(m0, d1).
     rbind (get_u8 d1) (\<lambda>(m1, d2).
       if m0 \<noteq> encMagic0 \<or> m1 \<noteq> encMagic1 then Inl (NotO1 m0 m1)
       else rbind (get_u8 d2) (\<lambda>(tag, d3).
         rbind (def_body tag d3) (\<lambda>(x, d4).
           if dpos d4 \<noteq> length (db d4)
           then Inl (DFail (dpos d4) (TrailingBytes (length (db d4) - dpos d4)))
           else Inr (x, d4)))))"

definition dec0 :: "bytes \<Rightarrow> dec" where
  "dec0 b = \<lparr>db = b, dpos = 0, dnodes = 0\<rparr>"

definition decodeDefRaw :: "bytes \<Rightarrow> derr + def" where
  "decodeDefRaw b = rbind (dec_def (dec0 b)) (\<lambda>(x, d). Inr x)"

definition decodeDef :: "bytes \<Rightarrow> derr + def" where
  "decodeDef b =
     rbind (decodeDefRaw b) (\<lambda>x.
       case admitDef x of Inl e \<Rightarrow> Inl (DAdmit e) | Inr _ \<Rightarrow> Inr x)"

text \<open>The definitions the format admits.\<close>

definition property_canon :: "property \<Rightarrow> bool" where
  "property_canon p \<longleftrightarrow> tys_canon (binders p) \<and> trm_canon (pbody p)"

fun def_canon :: "def \<Rightarrow> bool" where
  "def_canon (DData tv cs) =
     (tv \<le> 2 ^ 24 \<and> length cs \<le> 2 ^ 24 \<and> list_all tys_canon cs)"
| "def_canon (DFunc tv t b ps) =
     (tv \<le> 2 ^ 24 \<and> ty_canon t \<and> trm_canon b \<and> length ps \<le> 2 ^ 24 \<and>
      list_all property_canon ps)"

interpretation propc: codec property_bytes get_prop property_canon prop_nodes
proof (rule codec_map [OF codec_bind [OF tysc.codec_axioms trmc.codec_axioms],
      where f = "\<lambda>(bs, b). \<lparr>binders = bs, pbody = b\<rparr>" and b = "\<lambda>p. (binders p, pbody p)"])
qed (auto simp: get_prop_def body_reader_simps property_bytes_def property_canon_def
    prop_nodes_def)

interpretation ctorsc: codec "\<lambda>cs. be_bytes 4 (length cs) @ concat (map tys_bytes cs)" get_ctors
  "\<lambda>cs. length cs \<le> 2 ^ 24 \<and> list_all tys_canon cs"
  "\<lambda>cs. sum_list (map (\<lambda>fs. sum_list (map ty_nodes fs)) cs)"
proof (rule codec_map [OF codec_bind [OF u32.codec_axioms tysc.rep_codec], where f = snd
      and b = "\<lambda>ts. (length ts, ts)"])
  fix d
  show "get_ctors d = rbind (cbind get_u32 (\<lambda>n. rep n get_tys) d) (\<lambda>(x, d'). Inr (snd x, d'))"
    by (simp add: get_ctors_def reader_simps) (simp add: rbind_def split: sum.splits)
qed auto

definition get_props :: "property list reader" where
  "get_props d = rbind (get_u32 d) (\<lambda>(n, d1). rep n get_prop d1)"

interpretation propsc: codec "\<lambda>ps. be_bytes 4 (length ps) @ concat (map property_bytes ps)"
  get_props "\<lambda>ps. length ps \<le> 2 ^ 24 \<and> list_all property_canon ps"
  "\<lambda>ps. sum_list (map prop_nodes ps)"
proof (rule codec_map [OF codec_bind [OF u32.codec_axioms propc.rep_codec], where f = snd
      and b = "\<lambda>ts. (length ts, ts)"])
  fix d
  show "get_props d = rbind (cbind get_u32 (\<lambda>n. rep n get_prop) d) (\<lambda>(x, d'). Inr (snd x, d'))"
    by (simp add: get_props_def reader_simps) (simp add: rbind_def split: sum.splits)
qed auto

fun def_tag :: "def \<Rightarrow> byte" where
  "def_tag (DData tv cs) = tagDefData"
| "def_tag (DFunc tv t b ps) = tagDefFunc"

definition def_body_bytes :: "def \<Rightarrow> bytes" where
  "def_body_bytes d = drop 3 (def_bytes d)"

lemma def_bytes_split: "def_bytes d = [encMagic0, encMagic1, def_tag d] @ def_body_bytes d"
  by (cases d) (simp_all add: def_body_bytes_def)

lemma def_tag_neq: "tagDefData \<noteq> tagDefFunc"
  by (simp add: tagDefData_def tagDefFunc_def)

lemma def_tag_iff:
  "def_tag x = tagDefData \<longleftrightarrow> (\<exists>tv cs. x = DData tv cs)"
  "def_tag x = tagDefFunc \<longleftrightarrow> (\<exists>tv t b ps. x = DFunc tv t b ps)"
  using def_tag_neq by (cases x; auto)+

lemma def_tag_known: "def_tag x \<in> {tagDefData, tagDefFunc}"
  by (cases x) simp_all

lemma def_body_simps:
  "def_body tagDefData d = rbind (get_u32 d) (\<lambda>(tv, d1).
     rbind (get_ctors d1) (\<lambda>(cs, d2). Inr (DData tv cs, d2)))"
  "def_body tagDefFunc d = rbind (get_u32 d) (\<lambda>(tv, d1). rbind (get_ty d1) (\<lambda>(t, d2).
     rbind (get_term d2) (\<lambda>(b, d3).
     rbind (get_props d3) (\<lambda>(ps, d5). Inr (DFunc tv t b ps, d5)))))"
  using def_tag_neq by (simp_all add: def_body_def get_props_def body_reader_simps)

lemma def_body_codec:
  "codec def_body_bytes (def_body tag) (\<lambda>x. def_tag x = tag \<and> def_canon x) def_nodes"
proof -
  consider "tag = tagDefData" | "tag = tagDefFunc" | "tag \<notin> {tagDefData, tagDefFunc}" by blast
  then show ?thesis
  proof cases
    case 1
    show ?thesis
      by (rule codec_map [OF codec_bind [OF u32.codec_axioms ctorsc.codec_axioms],
            where f = "\<lambda>(tv, cs). DData tv cs" and b = "\<lambda>x. case x of DData tv cs \<Rightarrow> (tv, cs)"])
        (use 1 in \<open>auto simp: def_body_simps body_reader_simps def_tag_iff def_body_bytes_def\<close>)
  next
    case 2
    show ?thesis
      by (rule codec_map [OF codec_bind [OF u32.codec_axioms codec_bind [OF tyc.codec_axioms
              codec_bind [OF trmc.codec_axioms propsc.codec_axioms]]],
            where f = "\<lambda>(tv, t, b, ps). DFunc tv t b ps"
              and b = "\<lambda>x. case x of DFunc tv t b ps \<Rightarrow> (tv, t, b, ps)"])
        (use 2 in \<open>auto simp: def_body_simps body_reader_simps def_tag_iff def_body_bytes_def\<close>)
  next
    case 3
    then show ?thesis
      by (intro codec_fail) (use def_tag_known in \<open>auto simp: def_body_def\<close>)
  qed
qed

text \<open>Everything \<^const>\<open>dec_def\<close> reads before the check for trailing bytes.\<close>

definition def_open :: "def reader" where
  "def_open d =
     rbind (get_u8 d) (\<lambda>(m0, d1).
     rbind (get_u8 d1) (\<lambda>(m1, d2).
       if m0 \<noteq> encMagic0 \<or> m1 \<noteq> encMagic1 then Inl (NotO1 m0 m1)
       else rbind (get_u8 d2) (\<lambda>(tag, d3). def_body tag d3)))"

lemma rbind_if: "rbind (if c then x else y) g = (if c then rbind x g else rbind y g)"
  by simp

lemma dec_def_open:
  "dec_def d = rbind (def_open d) (\<lambda>(x, d4).
     if dpos d4 \<noteq> length (db d4)
     then Inl (DFail (dpos d4) (TrailingBytes (length (db d4) - dpos d4))) else Inr (x, d4))"
  unfolding dec_def_def def_open_def rbind_assoc rbind_case_prod
  by (intro rbind_cong refl)
    (auto simp: rbind_assoc rbind_case_prod rbind_if intro!: rbind_cong)

interpretation defc: codec def_bytes def_open def_canon def_nodes
proof (rule codec_map [OF codec_bind [OF u8.codec_axioms codec_bind [OF codec_filter
          [OF u8.codec_axioms, where P = "\<lambda>m1. m0 = encMagic0 \<and> m1 = encMagic1"
            and err = "\<lambda>m1 d. NotO1 m0 m1" for m0]
          codec_tagged [where tag_of = def_tag, OF def_body_codec]]],
      where f = "\<lambda>(m0, m1, x). x" and b = "\<lambda>x. (encMagic0, encMagic1, x)"])
  fix d
  show "def_open d = rbind (cbind get_u8 (\<lambda>m0. cbind (\<lambda>d. rbind (get_u8 d) (\<lambda>(m1, d').
      if m0 = encMagic0 \<and> m1 = encMagic1 then Inr (m1, d') else Inl (NotO1 m0 m1)))
      (\<lambda>_ d. rbind (get_u8 d) (\<lambda>(tag, d1). def_body tag d1))) d)
      (\<lambda>(x, d'). Inr (case x of (m0, m1, x) \<Rightarrow> x, d'))"
    unfolding def_open_def body_reader_simps
    by (intro rbind_cong refl) (auto simp: rbind_assoc rbind_case_prod split: prod.splits
        simp: rbind_def split: sum.splits)
qed (auto simp: def_bytes_split)

lemma dec0_ok: "dec_ok (dec0 b)" "rest (dec0 b) = b" "dnodes (dec0 b) = 0" "db (dec0 b) = b"
  by (simp_all add: dec_ok_def dec0_def rest_def)

lemma decodeDefRaw_iff:
  "decodeDefRaw b = Inr x \<longleftrightarrow> def_canon x \<and> b = def_bytes x \<and> def_nodes x \<le> maxCanonicalNodes"
proof
  assume "decodeDefRaw b = Inr x"
  then obtain d' where o: "def_open (dec0 b) = Inr (x, d')" and e: "dpos d' = length (db d')"
    by (auto simp: decodeDefRaw_def dec_def_open rbind_eq_Inr split: if_splits)
  have "def_canon x" and s: "step (dec0 b) (def_bytes x) (def_nodes x) d'"
    using defc.put_get [OF o] dec0_ok by blast+
  moreover have "rest d' = []" using e by (simp add: rest_def)
  then have "b = def_bytes x" using step_rest [OF s] dec0_ok(2) [of b] by simp
  moreover have "def_nodes x \<le> maxCanonicalNodes"
    using step_dnodes [OF s] step_ok [OF s] by (simp add: dec_ok_def dec0_ok)
  ultimately show "def_canon x \<and> b = def_bytes x \<and> def_nodes x \<le> maxCanonicalNodes" by blast
next
  assume r: "def_canon x \<and> b = def_bytes x \<and> def_nodes x \<le> maxCanonicalNodes"
  then obtain d' where o: "def_open (dec0 b) = Inr (x, d')"
    and s: "step (dec0 b) (def_bytes x) (def_nodes x) d'"
    using defc.get_put [of x "dec0 b" "[]"] dec0_ok [of b] by auto
  have "d' = charge (def_nodes x) (adv (length b) (dec0 b))"
    using s r by (simp add: step_def)
  then have "dpos d' = length (db d')"
    by (simp add: dec0_def charge_def adv_def)
  with o show "decodeDefRaw b = Inr x"
    by (simp add: decodeDefRaw_def dec_def_open)
qed

lemma decodeDef_iff:
  "decodeDef b = Inr x \<longleftrightarrow> def_canon x \<and> b = def_bytes x \<and> def_nodes x \<le> maxCanonicalNodes \<and>
     def_tyvars x \<le> maxCanonicalNodes"
proof -
  have "decodeDef b = Inr x \<longleftrightarrow> decodeDefRaw b = Inr x \<and> admitDef x = Inr ()"
  proof (cases "decodeDefRaw b")
    case (Inr y)
    then show ?thesis by (cases "admitDef y") (auto simp: decodeDef_def)
  qed (simp add: decodeDef_def)
  then show ?thesis
    by (simp add: decodeDefRaw_iff admitDef_eq_Inr)
qed

subsection \<open>The fuel is never short\<close>

text \<open>
  \<open>enough n g\<close>: with fewer than \<open>n\<close> bytes left, \<open>g\<close> does not run out of fuel and leaves no
  more bytes than it found.
\<close>

definition enough :: "nat \<Rightarrow> 'a reader \<Rightarrow> bool" where
  "enough n g \<longleftrightarrow> (\<forall>d. dec_ok d \<longrightarrow> length (rest d) < n \<longrightarrow> g d \<noteq> Inl OutOfFuel \<and>
     (\<forall>x d'. g d = Inr (x, d') \<longrightarrow> dec_ok d' \<and> length (rest d') \<le> length (rest d)))"

lemma codec_enough:
  assumes "codec put g ok c" and "\<And>d. dec_ok d \<Longrightarrow> length (rest d) < n \<Longrightarrow> g d \<noteq> Inl OutOfFuel"
  shows "enough n g"
  unfolding enough_def
proof (intro allI impI conjI)
  fix d x d'
  assume d: "dec_ok d" "length (rest d) < n"
  show "g d \<noteq> Inl OutOfFuel" by (rule assms(2) [OF d])
  assume "g d = Inr (x, d')"
  then have s: "step d (put x) (c x) d'"
    using codec.put_get [OF assms(1)] d(1) by blast
  show "dec_ok d'" using step_ok [OF s] by blast
  show "length (rest d') \<le> length (rest d)" using step_rest [OF s] by simp
qed

lemma enough_return: "enough n (\<lambda>d. Inr (x, d))"
  by (simp add: enough_def)

lemma enough_fail: "(\<And>d. e d \<noteq> OutOfFuel) \<Longrightarrow> enough n (\<lambda>d. Inl (e d))"
  by (simp add: enough_def)

lemma enough_bind:
  assumes g: "enough n g" and h: "\<And>x. enough n (h x)"
  shows "enough n (\<lambda>d. rbind (g d) (\<lambda>(x, d'). h x d'))"
  unfolding enough_def
proof (intro allI impI)
  fix d
  assume d: "dec_ok d" "length (rest d) < n"
  show "rbind (g d) (\<lambda>(x, d'). h x d') \<noteq> Inl OutOfFuel \<and>
      (\<forall>x d'. rbind (g d) (\<lambda>(x, d'). h x d') = Inr (x, d') \<longrightarrow>
        dec_ok d' \<and> length (rest d') \<le> length (rest d))"
  proof (cases "g d")
    case (Inl e)
    with g d show ?thesis by (auto simp: enough_def)
  next
    case (Inr p)
    then obtain x d1 where p: "g d = Inr (x, d1)" by (cases p) simp
    with g d have d1: "dec_ok d1" "length (rest d1) \<le> length (rest d)"
      by (auto simp: enough_def)
    with h [of x] d(2) have "h x d1 \<noteq> Inl OutOfFuel \<and>
        (\<forall>y d'. h x d1 = Inr (y, d') \<longrightarrow> dec_ok d' \<and> length (rest d') \<le> length (rest d1))"
      by (auto simp: enough_def)
    with p d1 show ?thesis by fastforce
  qed
qed

lemma enough_if: "enough n g \<Longrightarrow> enough n h \<Longrightarrow> enough n (\<lambda>d. if P then g d else h d)"
  by (cases P) simp_all

lemma enough_charge: "enough n g \<Longrightarrow> enough n (\<lambda>d. rbind (reserveNodes m d) g)"
proof -
  assume g: "enough n g"
  have "enough n (\<lambda>d. rbind (creserve m d) (\<lambda>(u, d'). g d'))"
    by (rule enough_bind [OF codec_enough [OF codec_reserve] g])
      (auto simp: creserve_def reserveNodes_def countNodes_def rbind_def Let_def)
  then show ?thesis
    by (simp add: creserve_def rbind_assoc)
qed

lemma enough_prims:
  "enough n get_u8" "enough n get_u32" "enough n get_str" "enough n get_bigint"
  "enough n get_hash" "enough n get_float"
proof -
  have u8: "get_u8 d \<noteq> Inl OutOfFuel" for d by (simp add: get_u8_def)
  have u32: "get_u32 d \<noteq> Inl OutOfFuel" for d by (simp add: get_u32_def Let_def)
  show "enough n get_u8" by (rule codec_enough [OF u8.codec_axioms u8])
  show "enough n get_u32" by (rule codec_enough [OF u32.codec_axioms u32])
  show "enough n get_str"
    by (rule codec_enough [OF str.codec_axioms]) (auto simp: get_str_def rbind_eq_Inl u32)
  show "enough n get_bigint"
    by (rule codec_enough [OF bigint.codec_axioms])
      (auto simp: get_bigint_def rbind_eq_Inl u32 u8 Let_def)
  show "enough n get_hash" by (rule codec_enough [OF hash.codec_axioms]) (simp add: get_hash_def)
  show "enough n get_float"
    by (rule codec_enough [OF float.codec_axioms]) (simp add: get_float_def Let_def)
qed

lemma enough_rep:
  assumes g: "enough n g"
  shows "enough n (rep m g)"
proof (induction m)
  case 0
  have "rep 0 g = (\<lambda>d. Inr ([], d))" by (rule ext) simp
  then show ?case by (simp only: enough_return)
next
  case (Suc m)
  have "rep (Suc m) g = (\<lambda>d. rbind (g d) (\<lambda>(x, d1). rbind (rep m g d1) (\<lambda>(xs, d2). Inr (x # xs, d2))))"
    by (rule ext) simp
  then show ?case
    by (simp only:) (intro enough_bind enough_return g Suc)
qed

lemma enough_rec_rep:
  assumes g: "enough n g"
  shows "enough n (rec_rep m prev g)"
proof (induction m arbitrary: prev)
  case 0
  have "rec_rep 0 prev g = (\<lambda>d. Inr ([], d))" by (rule ext) simp
  then show ?case by (simp only: enough_return)
next
  case (Suc m)
  have e: "rec_rep (Suc m) prev g = (\<lambda>d. rbind (get_str d) (\<lambda>(name, d1).
      if (\<exists>p. prev = Some p \<and> name \<le> p)
      then Inl (DFail (dpos d1) (FieldsNotAscending name (the prev)))
      else rbind (g d1) (\<lambda>(x, d2). rbind (rec_rep m (Some name) g d2)
        (\<lambda>(xs, d3). Inr ((name, x) # xs, d3)))))"
    by (rule ext) (auto intro!: rbind_cong split: option.splits)
  show ?case
    unfolding e by (intro enough_bind enough_if enough_return enough_fail enough_prims g Suc) simp
qed

lemmas enough_intros = enough_if enough_bind enough_return enough_fail enough_prims enough_charge

text \<open>One level of the decoder: charge, read the tag, read the body.\<close>

lemma enough_level:
  assumes body: "\<And>tag. enough k (body tag)"
    and d: "dec_ok d" "length (rest d) < Suc k"
  shows "rbind (if p then Inr d else countNodes 1 d)
    (\<lambda>d0. rbind (get_u8 d0) (\<lambda>(tag, d1). body tag d1)) \<noteq> Inl OutOfFuel"
proof -
  have "rbind (get_u8 d0) (\<lambda>(tag, d1). body tag d1) \<noteq> Inl OutOfFuel"
    if d0: "dec_ok d0" "length (rest d0) < Suc k" for d0
  proof (cases "get_u8 d0")
    case (Inl e)
    then show ?thesis using enough_prims(1) [of "Suc k"] d0 by (auto simp: enough_def)
  next
    case (Inr q)
    then obtain tag d1 where q: "get_u8 d0 = Inr (tag, d1)" by (cases q) simp
    then have "step d0 [tag] 0 d1" using u8.put_get d0 by blast
    then have "dec_ok d1" "length (rest d1) < k"
      using step_ok step_rest d0(2) by fastforce+
    then show ?thesis
      using body [of tag] q by (auto simp: enough_def)
  qed
  moreover have "dec_ok d0 \<and> rest d0 = rest d" if "countNodes 1 d = Inr d0" for d0
    using that d(1) step_ok [of d "[]" 1 d0] step_rest [of d "[]" 1 d0] by (simp add: countNodes_Inr)
  moreover have "countNodes 1 d \<noteq> Inl OutOfFuel" by (simp add: countNodes_def Let_def)
  ultimately show ?thesis
    using d by (auto simp: rbind_eq_Inl)
qed

lemma ty_body_enough:
  assumes sub: "\<And>p. enough n (sub p)"
  shows "enough n (ty_body sub tag)"
  unfolding ty_body_def [abs_def]
  by (intro enough_intros enough_rep enough_rec_rep sub) simp

lemma dec_ty_enough: "enough n (dec_ty n p)"
proof (induction n arbitrary: p)
  case 0
  show ?case by (simp add: enough_def)
next
  case (Suc k)
  show ?case
    by (rule codec_enough [OF dec_ty_codec], unfold dec_ty.simps,
        rule enough_level [OF ty_body_enough [OF Suc.IH]])
qed

lemma enough_full:
  assumes "codec put (\<lambda>d. g (dec_fuel d) d) ok c" and "\<And>n. enough n (g n)"
  shows "enough m (\<lambda>d. g (dec_fuel d) d)"
  using assms length_rest by (intro codec_enough) (fastforce simp: enough_def)+

lemma get_ty_enough: "enough n get_ty"
  using enough_full [where g = "\<lambda>k. dec_ty k False", folded get_ty_def, OF _ dec_ty_enough]
    tyc.codec_axioms by (simp add: get_ty_def [abs_def])

lemma get_tys_enough: "enough n get_tys"
  unfolding get_tys_def [abs_def] by (intro enough_intros enough_rep get_ty_enough)

lemma trm_body_enough:
  assumes sub: "\<And>p. enough n (sub p)"
  shows "enough n (trm_body sub tag)"
  unfolding trm_body_def [abs_def]
  by (intro enough_intros enough_rep enough_rec_rep get_ty_enough get_tys_enough sub) simp_all

lemma dec_term_enough: "enough n (dec_term n p)"
proof (induction n arbitrary: p)
  case 0
  show ?case by (simp add: enough_def)
next
  case (Suc k)
  show ?case
    by (rule codec_enough [OF dec_term_codec], unfold dec_term.simps,
        rule enough_level [OF trm_body_enough [OF Suc.IH]])
qed

lemma get_term_enough: "enough n get_term"
  using enough_full [where g = "\<lambda>k. dec_term k False", OF _ dec_term_enough]
    trmc.codec_axioms by (simp add: get_term_def [abs_def])

lemma def_body_enough: "enough n (def_body tag)"
  unfolding def_body_def [abs_def] get_ctors_def get_prop_def [abs_def]
  by (intro enough_intros enough_rep get_ty_enough get_tys_enough get_term_enough) simp_all

lemma def_open_enough: "enough n def_open"
  unfolding def_open_def [abs_def]
  by (intro enough_intros def_body_enough) simp_all

lemma decodeDefRaw_fuel: "decodeDefRaw b \<noteq> Inl OutOfFuel"
  using def_open_enough [of "Suc (length b)"] dec0_ok [of b]
  by (auto simp: decodeDefRaw_def dec_def_open rbind_eq_Inl enough_def split: if_splits)

lemma decodeDef_fuel: "decodeDef b \<noteq> Inl OutOfFuel"
  using decodeDefRaw_fuel by (auto simp: decodeDef_def rbind_eq_Inl split: sum.splits)

subsection \<open>Admitted values are encodable\<close>

lemma hash_ok_encodable: "hash_ok h \<Longrightarrow> hash_encodable h"
  by (simp add: hash_ok_def hash_encodable_def split: option.splits)

lemma ty_canon_encodable: "ty_canon t \<Longrightarrow> ty_encodable t"
  by (induction t) (auto simp: list_all_iff hash_ok_encodable)

lemma trm_canon_encodable: "trm_canon t \<Longrightarrow> trm_encodable t"
  by (induction t)
    (auto simp: list_all_iff hash_ok_encodable tys_canon_def ty_canon_encodable)

lemma def_canon_encodable: "def_canon d \<Longrightarrow> def_encodable d"
  by (cases d) (auto simp: list_all_iff tys_canon_def property_canon_def property_encodable_def
      ty_canon_encodable trm_canon_encodable)

lemma encodeDef_eq: "def_encodable d \<Longrightarrow> encodeDef d = Some (def_bytes d)"
  by (cases d) (simp_all add: encodeDef_def Let_def e_ctors_eq e_props_eq e_ty_eq e_term_eq)

end
