(* ===== verification/TypeOps.thy ===== *)
theory TypeOps
  imports Syntax
begin

text \<open>
  The operations on types of the trusted checker, \<^verbatim>\<open>oath/check.go\<close>: substitution, the
  resolution of \<^verbatim>\<open>rec\<close>, equality, one-sided matching, well-formedness, strict positivity,
  constructor instantiation and the typing rules of the primitives. They are pure apart from
  lookups in the store, which is here the finite table of definitions that \<^verbatim>\<open>GetDef\<close> answers
  from (a hash it cannot produce is not in the table) and the hash bound to the name
  \<^verbatim>\<open>List\<close>. A diagnostic is a constructor carrying what its message prints.
\<close>

record store =
  sdefs :: "(hash \<times> def) list"
  slist :: "hash option"

datatype terr =
    WfRecordSync | WfRecordOrder string string | WfVarRange nat nat | WfRecOutside
  | WfRecArity nat nat | GetDefErr hash | NotData hash | WfDataArity hash nat nat
  | NotPositive

definition GetDef :: "store \<Rightarrow> hash \<Rightarrow> terr + def" where
  "GetDef st h = (case map_of (sdefs st) h of None \<Rightarrow> Inl (GetDefErr h) | Some d \<Rightarrow> Inr d)"

subsection \<open>Substitution and equality\<close>

fun substTy :: "ty \<Rightarrow> ty list \<Rightarrow> ty" where
  "substTy (TVar v) args = (if v < length args then args ! v else TVar v)"
| "substTy (TFun a b) args = TFun (substTy a args) (substTy b args)"
| "substTy (TData h as) args = TData h (map (\<lambda>t. substTy t args) as)"
| "substTy (TRec as) args = TRec (map (\<lambda>t. substTy t args) as)"
| "substTy (TRecord ns as) args = TRecord ns (map (\<lambda>t. substTy t args) as)"
| "substTy t args = t"

fun resolveRec :: "ty \<Rightarrow> hash \<Rightarrow> ty" where
  "resolveRec (TFun a b) h = TFun (resolveRec a h) (resolveRec b h)"
| "resolveRec (TRec as) h = TData h (map (\<lambda>t. resolveRec t h) as)"
| "resolveRec (TData g as) h = TData g (map (\<lambda>t. resolveRec t h) as)"
| "resolveRec (TRecord ns as) h = TRecord ns (map (\<lambda>t. resolveRec t h) as)"
| "resolveRec t h = t"

text \<open>
  \<^verbatim>\<open>tyEq\<close> compares tags, scalar fields, lengths and names before it descends.
\<close>

fun tyEq :: "ty \<Rightarrow> ty \<Rightarrow> bool" and tyEqs :: "ty list \<Rightarrow> ty list \<Rightarrow> bool" where
  "tyEq TInt t = (t = TInt)"
| "tyEq TRat t = (t = TRat)"
| "tyEq TFloat t = (t = TFloat)"
| "tyEq TBool t = (t = TBool)"
| "tyEq (TVar v) t = (case t of TVar w \<Rightarrow> v = w | _ \<Rightarrow> False)"
| "tyEq (TFun a b) t = (case t of TFun c d \<Rightarrow> tyEq a c \<and> tyEq b d | _ \<Rightarrow> False)"
| "tyEq (TData h as) t =
     (case t of TData g bs \<Rightarrow> h = g \<and> length as = length bs \<and> tyEqs as bs | _ \<Rightarrow> False)"
| "tyEq (TRec as) t = (case t of TRec bs \<Rightarrow> length as = length bs \<and> tyEqs as bs | _ \<Rightarrow> False)"
| "tyEq (TRecord ns as) t =
     (case t of
        TRecord ms bs \<Rightarrow>
          length as = length bs \<and> length ns = length ms \<and> list_all2 (=) ns ms \<and> tyEqs as bs
      | _ \<Rightarrow> False)"
| "tyEqs [] bs = True"
| "tyEqs (a # as) bs = (case bs of [] \<Rightarrow> True | b # bs' \<Rightarrow> tyEq a b \<and> tyEqs as bs')"

lemma tyEqs_length:
  "length as = length bs \<Longrightarrow> (\<And>a. a \<in> set as \<Longrightarrow> \<forall>b. tyEq a b \<longleftrightarrow> a = b) \<Longrightarrow>
   tyEqs as bs \<longleftrightarrow> as = bs"
  by (induction as bs rule: list_induct2) auto

lemma tyEq_eq [simp]: "tyEq a b \<longleftrightarrow> a = b"
proof (induction a arbitrary: b)
  case (TData h as)
  have "length as = length bs \<Longrightarrow> tyEqs as bs \<longleftrightarrow> as = bs" for bs
    using TData by (intro tyEqs_length) auto
  then show ?case by (auto split: ty.splits)
next
  case (TRec as)
  have "length as = length bs \<Longrightarrow> tyEqs as bs \<longleftrightarrow> as = bs" for bs
    using TRec by (intro tyEqs_length) auto
  then show ?case by (auto split: ty.splits)
next
  case (TRecord ns as)
  have "length as = length bs \<Longrightarrow> tyEqs as bs \<longleftrightarrow> as = bs" for bs
    using TRecord by (intro tyEqs_length) auto
  then show ?case by (auto split: ty.splits simp: list.rel_eq)
qed (auto split: ty.splits)

subsection \<open>One-sided matching\<close>

text \<open>
  \<^verbatim>\<open>matchTy\<close> records solutions in a slice that its callers keep using after a failure, so the
  substitution reached is returned with the error, when there is one.
\<close>

datatype merr =
    MConflict nat ty ty | MExpected ty ty | MFieldName string string

type_synonym subst = "ty option list"

fun first_diff :: "string list \<Rightarrow> string list \<Rightarrow> (string \<times> string) option" where
  "first_diff (n # ns) (m # ms) = (if n = m then first_diff ns ms else Some (n, m))"
| "first_diff _ _ = None"

fun matchTy :: "ty \<Rightarrow> ty \<Rightarrow> subst \<Rightarrow> subst \<times> merr option"
  and matchTys :: "ty list \<Rightarrow> ty list \<Rightarrow> subst \<Rightarrow> subst \<times> merr option" where
  "matchTy (TVar v) got s =
     (if v < length s then
        (case s ! v of
           None \<Rightarrow> (s[v := Some got], None)
         | Some t \<Rightarrow> if tyEq t got then (s, None) else (s, Some (MConflict v t got)))
      else (s, if got = TVar v then None else Some (MExpected (TVar v) got)))"
| "matchTy TInt got s = (s, if got = TInt then None else Some (MExpected TInt got))"
| "matchTy TRat got s = (s, if got = TRat then None else Some (MExpected TRat got))"
| "matchTy TFloat got s = (s, if got = TFloat then None else Some (MExpected TFloat got))"
| "matchTy TBool got s = (s, if got = TBool then None else Some (MExpected TBool got))"
| "matchTy (TFun a b) got s =
     (case got of
        TFun c d \<Rightarrow>
          (case matchTy a c s of (s1, Some e) \<Rightarrow> (s1, Some e) | (s1, None) \<Rightarrow> matchTy b d s1)
      | _ \<Rightarrow> (s, Some (MExpected (TFun a b) got)))"
| "matchTy (TData h as) got s =
     (case got of
        TData g bs \<Rightarrow>
          if h \<noteq> g \<or> length as \<noteq> length bs then (s, Some (MExpected (TData h as) got))
          else matchTys as bs s
      | _ \<Rightarrow> (s, Some (MExpected (TData h as) got)))"
| "matchTy (TRec as) got s =
     (case got of
        TRec bs \<Rightarrow>
          if length as \<noteq> length bs then (s, Some (MExpected (TRec as) got)) else matchTys as bs s
      | _ \<Rightarrow> (s, Some (MExpected (TRec as) got)))"
| "matchTy (TRecord ns as) got s =
     (case got of
        TRecord ms bs \<Rightarrow>
          if length as \<noteq> length bs \<or> length ns \<noteq> length ms
          then (s, Some (MExpected (TRecord ns as) got))
          else (case first_diff ns ms of
                  Some (n, m) \<Rightarrow> (s, Some (MFieldName n m))
                | None \<Rightarrow> matchTys as bs s)
      | _ \<Rightarrow> (s, Some (MExpected (TRecord ns as) got)))"
| "matchTys (a # as) (b # bs) s =
     (case matchTy a b s of (s1, Some e) \<Rightarrow> (s1, Some e) | (s1, None) \<Rightarrow> matchTys as bs s1)"
| "matchTys _ _ s = (s, None)"

definition inferReady :: "nat \<Rightarrow> ty list \<Rightarrow> bool" where
  "inferReady tyvars tyargs \<longleftrightarrow> 0 < tyvars \<and> length tyargs = 0"

fun tyHasFun :: "ty \<Rightarrow> bool" where
  "tyHasFun (TFun a b) = True"
| "tyHasFun (TData h as) = list_ex tyHasFun as"
| "tyHasFun (TRec as) = list_ex tyHasFun as"
| "tyHasFun (TRecord ns as) = list_ex tyHasFun as"
| "tyHasFun _ = False"

fun tyIsConcrete :: "ty \<Rightarrow> bool" where
  "tyIsConcrete (TVar v) = False"
| "tyIsConcrete (TRec as) = False"
| "tyIsConcrete (TFun a b) = (tyIsConcrete a \<and> tyIsConcrete b)"
| "tyIsConcrete (TData h as) = list_all tyIsConcrete as"
| "tyIsConcrete (TRecord ns as) = list_all tyIsConcrete as"
| "tyIsConcrete _ = True"

subsection \<open>Well-formedness\<close>

text \<open>
  \<^verbatim>\<open>checkTyWF\<close>. The loop over a record's fields checks the order of field \<open>i\<close> before the
  type of field \<open>i\<close>; \<open>prev\<close> is the name before it.
\<close>

fun checkTyWF :: "store \<Rightarrow> nat \<Rightarrow> bool \<Rightarrow> ty \<Rightarrow> terr + unit"
  and wf_list :: "store \<Rightarrow> nat \<Rightarrow> bool \<Rightarrow> ty list \<Rightarrow> terr + unit"
  and wf_fields :: "store \<Rightarrow> nat \<Rightarrow> bool \<Rightarrow> string option \<Rightarrow> string list \<Rightarrow> ty list \<Rightarrow> terr + unit" where
  "checkTyWF st n ar (TRecord ns as) =
     (if length ns \<noteq> length as then Inl WfRecordSync else wf_fields st n ar None ns as)"
| "checkTyWF st n ar (TVar v) = (if n \<le> v then Inl (WfVarRange v n) else Inr ())"
| "checkTyWF st n ar (TFun a b) =
     rbind (checkTyWF st n ar a) (\<lambda>_. checkTyWF st n ar b)"
| "checkTyWF st n ar (TRec as) =
     (if \<not> ar then Inl WfRecOutside
      else if length as \<noteq> n then Inl (WfRecArity (length as) n)
      else wf_list st n ar as)"
| "checkTyWF st n ar (TData h as) =
     rbind (GetDef st h) (\<lambda>d. case d of
         DFunc _ _ _ _ \<Rightarrow> Inl (NotData h)
       | DData m cs \<Rightarrow>
           if length as \<noteq> m then Inl (WfDataArity h (length as) m) else wf_list st n ar as)"
| "checkTyWF st n ar TInt = Inr ()"
| "checkTyWF st n ar TRat = Inr ()"
| "checkTyWF st n ar TFloat = Inr ()"
| "checkTyWF st n ar TBool = Inr ()"
| "wf_list st n ar [] = Inr ()"
| "wf_list st n ar (a # as) = rbind (checkTyWF st n ar a) (\<lambda>_. wf_list st n ar as)"
| "wf_fields st n ar prev (f # fs) (a # as) =
     (case prev of
        Some p \<Rightarrow>
          if f \<le> p then Inl (WfRecordOrder f p)
          else rbind (checkTyWF st n ar a) (\<lambda>_. wf_fields st n ar (Some f) fs as)
      | None \<Rightarrow> rbind (checkTyWF st n ar a) (\<lambda>_. wf_fields st n ar (Some f) fs as))"
| "wf_fields st n ar prev _ _ = Inr ()"

text \<open>What well-formedness means, without the order of the checks.\<close>

fun ty_wf :: "store \<Rightarrow> nat \<Rightarrow> bool \<Rightarrow> ty \<Rightarrow> bool" where
  "ty_wf st n ar (TVar v) \<longleftrightarrow> v < n"
| "ty_wf st n ar (TFun a b) \<longleftrightarrow> ty_wf st n ar a \<and> ty_wf st n ar b"
| "ty_wf st n ar (TRec as) \<longleftrightarrow> ar \<and> length as = n \<and> list_all (ty_wf st n ar) as"
| "ty_wf st n ar (TData h as) \<longleftrightarrow>
     (case map_of (sdefs st) h of Some (DData m cs) \<Rightarrow> length as = m | _ \<Rightarrow> False) \<and>
     list_all (ty_wf st n ar) as"
| "ty_wf st n ar (TRecord ns as) \<longleftrightarrow>
     length ns = length as \<and> sorted_wrt (<) ns \<and> list_all (ty_wf st n ar) as"
| "ty_wf st n ar _ \<longleftrightarrow> True"

lemma wf_list_eq:
  "(\<And>a. a \<in> set as \<Longrightarrow> checkTyWF st n ar a = Inr () \<longleftrightarrow> ty_wf st n ar a) \<Longrightarrow>
   wf_list st n ar as = Inr () \<longleftrightarrow> list_all (ty_wf st n ar) as"
  by (induction as) (auto simp: rbind_eq_Inr)

definition above :: "string option \<Rightarrow> string list \<Rightarrow> bool" where
  "above prev ns \<longleftrightarrow>
     sorted_wrt (<) ns \<and> (case prev of None \<Rightarrow> True | Some p \<Rightarrow> \<forall>n \<in> set ns. p < n)"

lemma above_Cons:
  "above prev (n # ns) \<longleftrightarrow> (case prev of None \<Rightarrow> True | Some p \<Rightarrow> p < n) \<and> above (Some n) ns"
  by (auto simp: above_def split: option.splits intro: less_trans)

lemma above_None: "above None ns \<longleftrightarrow> sorted_wrt (<) ns"
  by (simp add: above_def)

lemma wf_fields_eq:
  "length ns = length as \<Longrightarrow>
   (\<And>a. a \<in> set as \<Longrightarrow> checkTyWF st n ar a = Inr () \<longleftrightarrow> ty_wf st n ar a) \<Longrightarrow>
   wf_fields st n ar prev ns as = Inr () \<longleftrightarrow> above prev ns \<and> list_all (ty_wf st n ar) as"
proof (induction ns as arbitrary: prev rule: list_induct2)
  case Nil
  then show ?case by (auto simp: above_def split: option.splits)
next
  case (Cons f fs a as)
  have "wf_fields st n ar (Some f) fs as = Inr () \<longleftrightarrow>
      above (Some f) fs \<and> list_all (ty_wf st n ar) as"
    using Cons.prems by (intro Cons.IH) simp
  then show ?case
    using Cons.prems [of a] by (auto simp: above_Cons rbind_eq_Inr not_less split: option.splits)
qed

lemma checkTyWF_eq: "checkTyWF st n ar t = Inr () \<longleftrightarrow> ty_wf st n ar t"
proof (induction t)
  case (TData h as)
  then show ?case
    by (auto simp: rbind_eq_Inr GetDef_def wf_list_eq split: option.splits def.splits)
next
  case (TRec as)
  then show ?case by (auto simp: wf_list_eq)
next
  case (TRecord ns as)
  then show ?case by (auto simp: wf_fields_eq above_None)
qed (auto simp: rbind_eq_Inr)

subsection \<open>Strict positivity\<close>

text \<open>
  \<^verbatim>\<open>dataArrowFree\<close>: no function type in any constructor of a data type, nor in the data
  types these refer to. \<open>seen\<close> is the map that the Go function shares among its recursive
  calls; the closure \<^verbatim>\<open>walk\<close> also shares the flag \<^verbatim>\<open>arrow\<close>, after which nothing more is
  visited. The recursion through the store is bounded by the number of its definitions, which
  is the fuel: each level marks a hash that was not marked before.
\<close>

fun arrow_walk :: "(hash \<Rightarrow> hash list \<Rightarrow> bool \<times> hash list) \<Rightarrow> ty \<Rightarrow> bool \<times> hash list \<Rightarrow>
    bool \<times> hash list"
  and arrow_walks :: "(hash \<Rightarrow> hash list \<Rightarrow> bool \<times> hash list) \<Rightarrow> ty list \<Rightarrow> bool \<times> hash list \<Rightarrow>
    bool \<times> hash list" where
  "arrow_walk daf (TFun a b) (arrow, seen) = (True, seen)"
| "arrow_walk daf (TData h as) (arrow, seen) =
     (if arrow then (arrow, seen)
      else case daf h seen of (free, seen') \<Rightarrow> arrow_walks daf as (\<not> free, seen'))"
| "arrow_walk daf (TRec as) (arrow, seen) =
     (if arrow then (arrow, seen) else arrow_walks daf as (arrow, seen))"
| "arrow_walk daf (TRecord ns as) (arrow, seen) =
     (if arrow then (arrow, seen) else arrow_walks daf as (arrow, seen))"
| "arrow_walk daf _ p = p"
| "arrow_walks daf [] p = p"
| "arrow_walks daf (a # as) p = arrow_walks daf as (arrow_walk daf a p)"

primrec dataArrowFree :: "nat \<Rightarrow> store \<Rightarrow> hash \<Rightarrow> hash list \<Rightarrow> bool \<times> hash list" where
  "dataArrowFree 0 st h seen = (h = '''' \<or> h \<in> set seen, seen)"
| "dataArrowFree (Suc k) st h seen =
     (if h = '''' \<or> h \<in> set seen then (True, seen)
      else case GetDef st h of
          Inr (DData n cs) \<Rightarrow>
            (case arrow_walks (dataArrowFree k st) (concat cs) (False, h # seen) of
               (arrow, seen') \<Rightarrow> (\<not> arrow, seen'))
        | _ \<Rightarrow> (False, h # seen))"

definition data_arrow_free :: "store \<Rightarrow> hash \<Rightarrow> bool" where
  "data_arrow_free st h = fst (dataArrowFree (Suc (length (sdefs st))) st h [])"

fun strictlyPositiveTy :: "store \<Rightarrow> ty \<Rightarrow> bool \<Rightarrow> terr + unit"
  and positives :: "store \<Rightarrow> ty list \<Rightarrow> bool \<Rightarrow> terr + unit" where
  "strictlyPositiveTy st (TRec as) neg = (if neg then Inl NotPositive else positives st as neg)"
| "strictlyPositiveTy st (TFun a b) neg =
     rbind (strictlyPositiveTy st a (\<not> neg)) (\<lambda>_. strictlyPositiveTy st b neg)"
| "strictlyPositiveTy st (TRecord ns as) neg = positives st as neg"
| "strictlyPositiveTy st (TData h as) neg =
     positives st as (if data_arrow_free st h then neg else True)"
| "strictlyPositiveTy st _ neg = Inr ()"
| "positives st [] neg = Inr ()"
| "positives st (a # as) neg = rbind (strictlyPositiveTy st a neg) (\<lambda>_. positives st as neg)"

text \<open>
  What \<^verbatim>\<open>dataArrowFree\<close> decides: whether a function type can be reached through the fields
  of constructors, counting a hash that is not a data definition as one.
\<close>

fun ty_datas :: "ty \<Rightarrow> hash list" where
  "ty_datas (TFun a b) = ty_datas a @ ty_datas b"
| "ty_datas (TData h as) = h # concat (map ty_datas as)"
| "ty_datas (TRec as) = concat (map ty_datas as)"
| "ty_datas (TRecord ns as) = concat (map ty_datas as)"
| "ty_datas _ = []"

inductive arrowy :: "store \<Rightarrow> hash \<Rightarrow> bool" for st where
  unknown: "h \<noteq> '''' \<Longrightarrow> (\<And>n cs. GetDef st h \<noteq> Inr (DData n cs)) \<Longrightarrow> arrowy st h"
| here: "h \<noteq> '''' \<Longrightarrow> GetDef st h = Inr (DData n cs) \<Longrightarrow> t \<in> set (concat cs) \<Longrightarrow> tyHasFun t \<Longrightarrow>
    arrowy st h"
| below: "h \<noteq> '''' \<Longrightarrow> GetDef st h = Inr (DData n cs) \<Longrightarrow> t \<in> set (concat cs) \<Longrightarrow>
    g \<in> set (ty_datas t) \<Longrightarrow> arrowy st g \<Longrightarrow> arrowy st h"

definition settled :: "store \<Rightarrow> hash list \<Rightarrow> hash \<Rightarrow> bool" where
  "settled st seen h \<longleftrightarrow> h \<noteq> '''' \<and> (\<exists>n cs. GetDef st h = Inr (DData n cs) \<and>
     (\<forall>t \<in> set (concat cs). \<not> tyHasFun t \<and> set (ty_datas t) \<subseteq> insert '''' (set seen)))"

definition settles :: "store \<Rightarrow> hash list \<Rightarrow> hash list \<Rightarrow> bool" where
  "settles st seen seen' \<longleftrightarrow>
     set seen \<subseteq> set seen' \<and> (\<forall>g \<in> set seen' - set seen. settled st seen' g)"

lemma settled_mono: "settled st s h \<Longrightarrow> set s \<subseteq> set s' \<Longrightarrow> settled st s' h"
  unfolding settled_def by blast

lemma settles_refl: "settles st s s"
  by (simp add: settles_def)

lemma settles_trans: "settles st s1 s2 \<Longrightarrow> settles st s2 s3 \<Longrightarrow> settles st s1 s3"
  unfolding settles_def by (blast intro: settled_mono)

lemma arrow_walk_stop: "arrow_walk daf t (True, s) = (True, s)"
  by (cases t) simp_all

lemma arrow_walks_stop: "arrow_walks daf ts (True, s) = (True, s)"
  by (induction ts) (simp_all add: arrow_walk_stop)

lemma arrow_walks_settles:
  assumes "\<And>t s s'. t \<in> set ts \<Longrightarrow> arrow_walk daf t (False, s) = (False, s') \<Longrightarrow>
     settles st s s' \<and> \<not> tyHasFun t \<and> set (ty_datas t) \<subseteq> insert '''' (set s')"
    and "arrow_walks daf ts (False, s) = (False, s')"
  shows "settles st s s' \<and> (\<forall>t \<in> set ts. \<not> tyHasFun t \<and> set (ty_datas t) \<subseteq> insert '''' (set s'))"
  using assms
proof (induction ts arbitrary: s)
  case Nil
  then show ?case by (simp add: settles_refl)
next
  case (Cons t ts)
  obtain a s1 where w: "arrow_walk daf t (False, s) = (a, s1)" by fastforce
  with Cons.prems(2) have "\<not> a" by (cases a) (auto simp: arrow_walks_stop)
  with w have t: "settles st s s1" "\<not> tyHasFun t" "set (ty_datas t) \<subseteq> insert '''' (set s1)"
    using Cons.prems(1) [of t s s1] by simp_all
  have "settles st s1 s' \<and> (\<forall>t \<in> set ts. \<not> tyHasFun t \<and> set (ty_datas t) \<subseteq> insert '''' (set s'))"
    using Cons.prems w \<open>\<not> a\<close> by (intro Cons.IH) auto
  then have r: "settles st s1 s'"
    "\<forall>t \<in> set ts. \<not> tyHasFun t \<and> set (ty_datas t) \<subseteq> insert '''' (set s')" by simp_all
  have "set s1 \<subseteq> set s'" using r(1) by (simp add: settles_def)
  then have "set (ty_datas t) \<subseteq> insert '''' (set s')" using t(3) by blast
  then show ?case using t(2) r(2) settles_trans [OF t(1) r(1)] by simp
qed

lemma children_settle:
  "\<forall>t \<in> set as. \<not> tyHasFun t \<and> set (ty_datas t) \<subseteq> B \<Longrightarrow>
   \<not> list_ex tyHasFun as \<and> set (concat (map ty_datas as)) \<subseteq> B"
  by (simp add: list_ex_iff UN_subset_iff)

lemma arrow_walk_settles:
  assumes daf: "\<And>h s s'. daf h s = (True, s') \<Longrightarrow> settles st s s' \<and> h \<in> insert '''' (set s')"
  shows "arrow_walk daf t (False, s) = (False, s') \<Longrightarrow>
     settles st s s' \<and> \<not> tyHasFun t \<and> set (ty_datas t) \<subseteq> insert '''' (set s')"
proof (induction t arbitrary: s s')
  case (TData h as)
  obtain f s1 where f: "daf h s = (f, s1)" by fastforce
  with TData.prems have "f" by (cases f) (auto simp: arrow_walks_stop)
  with f TData.prems have h: "settles st s s1" "h \<in> insert '''' (set s1)"
    and w: "arrow_walks daf as (False, s1) = (False, s')"
    using daf by auto
  have r: "settles st s1 s' \<and> (\<forall>t \<in> set as. \<not> tyHasFun t \<and> set (ty_datas t) \<subseteq> insert '''' (set s'))"
    by (rule arrow_walks_settles [OF TData.IH w])
  then have "set s1 \<subseteq> set s'" by (simp add: settles_def)
  then have "h \<in> insert '''' (set s')" using h(2) by blast
  moreover have "settles st s s'" using settles_trans [OF h(1)] r by blast
  ultimately show ?case
    using children_settle [OF conjunct2 [OF r]] by simp
next
  case (TRec as)
  then have w: "arrow_walks daf as (False, s) = (False, s')" by simp
  have r: "settles st s s' \<and> (\<forall>t \<in> set as. \<not> tyHasFun t \<and> set (ty_datas t) \<subseteq> insert '''' (set s'))"
    by (rule arrow_walks_settles [OF TRec.IH w])
  show ?case
    using children_settle [OF conjunct2 [OF r]] conjunct1 [OF r] by simp
next
  case (TRecord ns as)
  then have w: "arrow_walks daf as (False, s) = (False, s')" by simp
  have r: "settles st s s' \<and> (\<forall>t \<in> set as. \<not> tyHasFun t \<and> set (ty_datas t) \<subseteq> insert '''' (set s'))"
    by (rule arrow_walks_settles [OF TRecord.IH w])
  show ?case
    using children_settle [OF conjunct2 [OF r]] conjunct1 [OF r] by simp
qed (simp_all add: settles_refl)

lemma dataArrowFree_settles:
  "dataArrowFree k st h s = (True, s') \<Longrightarrow> settles st s s' \<and> h \<in> insert '''' (set s')"
proof (induction k arbitrary: h s s')
  case 0
  then show ?case by (auto simp: settles_refl)
next
  case (Suc k)
  show ?case
  proof (cases "h = '''' \<or> h \<in> set s")
    case True
    with Suc.prems show ?thesis by (auto simp: settles_refl)
  next
    case False
    with Suc.prems obtain n cs where d: "GetDef st h = Inr (DData n cs)"
      and w: "arrow_walks (dataArrowFree k st) (concat cs) (False, h # s) = (False, s')"
      by (auto split: sum.splits def.splits prod.splits)
    have r: "settles st (h # s) s' \<and>
        (\<forall>t \<in> set (concat cs). \<not> tyHasFun t \<and> set (ty_datas t) \<subseteq> insert '''' (set s'))"
      by (rule arrow_walks_settles [OF arrow_walk_settles [OF Suc.IH] w])
    then have "settled st s' h"
      using False d by (auto simp: settled_def)
    with r show ?thesis by (auto simp: settles_def)
  qed
qed

lemma settled_not_arrowy:
  assumes all: "\<forall>g \<in> set s. settled st s g"
  shows "arrowy st h \<Longrightarrow> h \<notin> set s"
proof (induction rule: arrowy.induct)
  case (unknown h)
  then show ?case using all unfolding settled_def by blast
next
  case (here h n cs t)
  then show ?case using all by (fastforce simp: settled_def)
next
  case (below h n cs t g)
  have "g \<noteq> ''''" using below.hyps(5) by (cases rule: arrowy.cases) auto
  with below show ?case using all by (fastforce simp: settled_def)
qed

lemma data_arrow_free_sound: "data_arrow_free st h \<Longrightarrow> \<not> arrowy st h"
proof
  assume free: "data_arrow_free st h" and a: "arrowy st h"
  obtain s' where "dataArrowFree (Suc (length (sdefs st))) st h [] = (True, s')"
    using free by (metis data_arrow_free_def prod.collapse)
  then have s': "settles st [] s'" "h \<in> insert '''' (set s')"
    using dataArrowFree_settles by blast+
  have "h \<noteq> ''''" using a by (cases rule: arrowy.cases) auto
  with s' settled_not_arrowy [OF _ a, of s'] show False by (auto simp: settles_def)
qed

text \<open>The other direction needs the fuel: every level marks a definition of the store.\<close>

definition unseen :: "store \<Rightarrow> hash list \<Rightarrow> nat" where
  "unseen st s = card (fst ` set (sdefs st) - set s)"

lemma unseen_mono: "set s \<subseteq> set s' \<Longrightarrow> unseen st s' \<le> unseen st s"
  unfolding unseen_def by (intro card_mono) auto

lemma unseen_Cons: "h \<notin> set s \<Longrightarrow> GetDef st h = Inr d \<Longrightarrow> unseen st (h # s) < unseen st s"
  unfolding unseen_def
proof (intro psubset_card_mono)
  assume "h \<notin> set s" "GetDef st h = Inr d"
  then have "h \<in> fst ` set (sdefs st) - set s"
    by (force simp: GetDef_def dest: map_of_SomeD split: option.splits)
  then show "fst ` set (sdefs st) - set (h # s) \<subset> fst ` set (sdefs st) - set s" by auto
qed simp

definition blames :: "store \<Rightarrow> ty \<Rightarrow> bool" where
  "blames st t \<longleftrightarrow> tyHasFun t \<or> (\<exists>g \<in> set (ty_datas t). arrowy st g)"

lemma arrow_walks_arrow:
  assumes "\<And>t s1 a s2. t \<in> set ts \<Longrightarrow> set s \<subseteq> set s1 \<Longrightarrow> arrow_walk daf t (False, s1) = (a, s2) \<Longrightarrow>
     set s1 \<subseteq> set s2 \<and> (a \<longrightarrow> blames st t)"
    and "set s \<subseteq> set s1" and "arrow_walks daf ts (False, s1) = (a, s2)"
  shows "set s1 \<subseteq> set s2 \<and> (a \<longrightarrow> (\<exists>t \<in> set ts. blames st t))"
  using assms
proof (induction ts arbitrary: s1)
  case Nil
  then show ?case by simp
next
  case (Cons t ts)
  obtain b s3 where w: "arrow_walk daf t (False, s1) = (b, s3)" by fastforce
  then have t: "set s1 \<subseteq> set s3" "b \<longrightarrow> blames st t"
    using Cons.prems(1) [of t s1 b s3] Cons.prems(2) by simp_all
  show ?case
  proof (cases b)
    case True
    with w t Cons.prems(3) show ?thesis by (simp add: arrow_walks_stop)
  next
    case False
    have "set s3 \<subseteq> set s2 \<and> (a \<longrightarrow> (\<exists>t \<in> set ts. blames st t))"
      by (rule Cons.IH [OF Cons.prems(1)]) (use Cons.prems(2,3) w False t(1) in auto)
    with t(1) show ?thesis by auto
  qed
qed

lemma arrow_walk_arrow:
  assumes daf: "\<And>h s1 f s2. set s \<subseteq> set s1 \<Longrightarrow> daf h s1 = (f, s2) \<Longrightarrow>
      set s1 \<subseteq> set s2 \<and> (\<not> f \<longrightarrow> arrowy st h)"
  shows "set s \<subseteq> set s1 \<Longrightarrow> arrow_walk daf t (False, s1) = (a, s2) \<Longrightarrow>
     set s1 \<subseteq> set s2 \<and> (a \<longrightarrow> blames st t)"
proof (induction t arbitrary: s1 a s2)
  case (TData h as)
  obtain f s3 where f: "daf h s1 = (f, s3)" by fastforce
  have h: "set s1 \<subseteq> set s3" "\<not> f \<longrightarrow> arrowy st h"
    using daf [OF TData.prems(1) f] by simp_all
  show ?case
  proof (cases f)
    case False
    then show ?thesis
      using f h TData.prems by (auto simp: arrow_walks_stop blames_def)
  next
    case True
    have "set s3 \<subseteq> set s2 \<and> (a \<longrightarrow> (\<exists>t \<in> set as. blames st t))"
      by (rule arrow_walks_arrow [OF TData.IH]) (use TData.prems f h True in auto)
    with h show ?thesis by (auto simp: blames_def list_ex_iff)
  qed
next
  case (TRec as)
  have "set s1 \<subseteq> set s2 \<and> (a \<longrightarrow> (\<exists>t \<in> set as. blames st t))"
    by (rule arrow_walks_arrow [OF TRec.IH]) (use TRec.prems in auto)
  then show ?case by (auto simp: blames_def list_ex_iff)
next
  case (TRecord ns as)
  have "set s1 \<subseteq> set s2 \<and> (a \<longrightarrow> (\<exists>t \<in> set as. blames st t))"
    by (rule arrow_walks_arrow [OF TRecord.IH]) (use TRecord.prems in auto)
  then show ?case by (auto simp: blames_def list_ex_iff)
qed (auto simp: blames_def)

lemma arrowy_blames:
  "h \<noteq> '''' \<Longrightarrow> GetDef st h = Inr (DData n cs) \<Longrightarrow> t \<in> set (concat cs) \<Longrightarrow> blames st t \<Longrightarrow> arrowy st h"
  unfolding blames_def by (blast intro: arrowy.here arrowy.below)

lemma dataArrowFree_arrowy:
  "unseen st s < k \<Longrightarrow> dataArrowFree k st h s = (f, s') \<Longrightarrow>
   set s \<subseteq> set s' \<and> (\<not> f \<longrightarrow> arrowy st h)"
proof (induction k arbitrary: h s f s')
  case 0
  then show ?case by simp
next
  case (Suc k)
  show ?case
  proof (cases "h = '''' \<or> h \<in> set s")
    case True
    with Suc.prems show ?thesis by auto
  next
    case False
    show ?thesis
    proof (cases "\<exists>n cs. GetDef st h = Inr (DData n cs)")
      case True
      then obtain n cs where d: "GetDef st h = Inr (DData n cs)" by blast
      obtain a s2 where w: "arrow_walks (dataArrowFree k st) (concat cs) (False, h # s) = (a, s2)"
        by fastforce
      have "unseen st (h # s) < k"
        using False d Suc.prems(1) unseen_Cons [of h s st] by fastforce
      then have daf: "set s1 \<subseteq> set s3 \<and> (\<not> g \<longrightarrow> arrowy st h')"
        if "set (h # s) \<subseteq> set s1" "dataArrowFree k st h' s1 = (g, s3)" for h' s1 g s3
        using that(2) unseen_mono [OF that(1), of st] by (intro Suc.IH) (simp_all add: le_less_trans)
      have "set (h # s) \<subseteq> set s2 \<and> (a \<longrightarrow> (\<exists>t \<in> set (concat cs). blames st t))"
        by (rule arrow_walks_arrow [OF arrow_walk_arrow [OF daf] subset_refl w])
      then show ?thesis
        using Suc.prems(2) False d w arrowy_blames [OF _ d] by auto
    next
      case unknown: False
      then have "arrowy st h" using False by (intro arrowy.unknown) auto
      with unknown show ?thesis
        using Suc.prems(2) False by (auto split: sum.splits def.splits)
    qed
  qed
qed

lemma data_arrow_free_eq: "data_arrow_free st h \<longleftrightarrow> \<not> arrowy st h"
proof -
  have "unseen st [] < Suc (length (sdefs st))"
    using card_image_le [of "set (sdefs st)" fst] card_length [of "sdefs st"]
    by (simp add: unseen_def)
  moreover obtain f s' where "dataArrowFree (Suc (length (sdefs st))) st h [] = (f, s')"
    by fastforce
  ultimately have "\<not> data_arrow_free st h \<Longrightarrow> arrowy st h"
    using dataArrowFree_arrowy [of st "[]" _ h f s'] by (simp add: data_arrow_free_def del: dataArrowFree.simps)
  then show ?thesis using data_arrow_free_sound by blast
qed

text \<open>
  Where the self-reference of a data type occurs, with the polarity of the occurrence
  (\<^const>\<open>True\<close> is negative): a domain flips it, and the argument of a data type from which a
  function type can be reached counts as negative.
\<close>

inductive rec_occurs :: "store \<Rightarrow> ty \<Rightarrow> bool \<Rightarrow> bool \<Rightarrow> bool" for st where
  rec_here: "rec_occurs st (TRec as) neg neg"
| rec_arg: "a \<in> set as \<Longrightarrow> rec_occurs st a neg p \<Longrightarrow> rec_occurs st (TRec as) neg p"
| rec_dom: "rec_occurs st a (\<not> neg) p \<Longrightarrow> rec_occurs st (TFun a b) neg p"
| rec_cod: "rec_occurs st b neg p \<Longrightarrow> rec_occurs st (TFun a b) neg p"
| rec_field: "a \<in> set as \<Longrightarrow> rec_occurs st a neg p \<Longrightarrow> rec_occurs st (TRecord ns as) neg p"
| rec_data: "a \<in> set as \<Longrightarrow> rec_occurs st a (neg \<or> arrowy st h) p \<Longrightarrow>
    rec_occurs st (TData h as) neg p"

inductive_simps rec_occurs_simps:
  "rec_occurs st TInt neg p" "rec_occurs st TRat neg p" "rec_occurs st TFloat neg p"
  "rec_occurs st TBool neg p" "rec_occurs st (TVar v) neg p" "rec_occurs st (TFun a b) neg p"
  "rec_occurs st (TData h as) neg p" "rec_occurs st (TRec as) neg p"
  "rec_occurs st (TRecord ns as) neg p"

lemma positives_eq:
  "positives st as neg = Inr () \<longleftrightarrow> (\<forall>a \<in> set as. strictlyPositiveTy st a neg = Inr ())"
  by (induction as) (auto simp: rbind_eq_Inr)

lemma strictlyPositiveTy_eq:
  "strictlyPositiveTy st t neg = Inr () \<longleftrightarrow> \<not> rec_occurs st t neg True"
proof (induction t arbitrary: neg)
  case (TData h as)
  then show ?case
    by (cases neg) (auto simp: positives_eq rec_occurs_simps data_arrow_free_eq)
qed (auto simp: positives_eq rec_occurs_simps rbind_eq_Inr)

subsection \<open>Constructors, applications, primitives\<close>

definition ctors_of :: "def \<Rightarrow> ty list list" where
  "ctors_of d = (case d of DData n cs \<Rightarrow> cs | DFunc n t b ps \<Rightarrow> [])"

definition instCtorFields :: "def \<Rightarrow> hash \<Rightarrow> ty list \<Rightarrow> nat \<Rightarrow> ty list" where
  "instCtorFields d h tyargs idx =
     map (\<lambda>f. resolveRec (substTy f tyargs) h) (ctors_of d ! idx)"

text \<open>
  A context lists the types of the variables in scope, variable 0 first (the Go slice holds
  them in the opposite order and indexes it from its end).
\<close>

type_synonym ctx = "ty list"

definition pushCtx :: "ctx \<Rightarrow> ty \<Rightarrow> ctx" where
  "pushCtx c t = t # c"

definition pushAll :: "ctx \<Rightarrow> ty list \<Rightarrow> ctx" where
  "pushAll c ts = foldl pushCtx c ts"

definition identityTyArgs :: "nat \<Rightarrow> ty list" where
  "identityTyArgs n = map TVar [0..<n]"

text \<open>\<^verbatim>\<open>spine\<close>: the head of a chain of applications and its arguments, in order.\<close>

fun spine_acc :: "trm \<Rightarrow> trm list \<Rightarrow> trm \<times> trm list" where
  "spine_acc (App f a) args = spine_acc f (a # args)"
| "spine_acc t args = (t, args)"

definition spine :: "trm \<Rightarrow> trm \<times> trm list" where
  "spine t = spine_acc t []"

definition respine :: "trm \<Rightarrow> trm list \<Rightarrow> trm" where
  "respine h args = foldl App h args"

lemma spine_acc_respine: "spine_acc t as = (h, bs) \<Longrightarrow> respine t as = respine h bs"
  by (induction t as rule: spine_acc.induct) (auto simp: respine_def)

lemma spine_respine: "spine t = (h, args) \<Longrightarrow> respine h args = t"
  using spine_acc_respine [of t "[]"] by (simp add: spine_def respine_def)

datatype perr =
    PArity string nat nat | PInt string ty | PBool string ty | PNumeric string
  | PSame string ty ty | PFloat string ty | PNoList string | PListArg string nat ty
  | PToRat ty | PToFloat ty | PFloor ty | PUnknown string

definition listOfIntTy :: "store \<Rightarrow> ty option" where
  "listOfIntTy st = map_option (\<lambda>h. TData h [TInt]) (slist st)"

definition all_are :: "ty \<Rightarrow> (ty \<Rightarrow> perr) \<Rightarrow> ty list \<Rightarrow> perr + unit" where
  "all_are k e ts = (case find (\<lambda>a. a \<noteq> k) ts of None \<Rightarrow> Inr () | Some a \<Rightarrow> Inl (e a))"

definition numericTy :: "string \<Rightarrow> ty list \<Rightarrow> perr + ty" where
  "numericTy op ts =
     (case ts of
        [] \<Rightarrow> Inl (PNumeric op)
      | k # _ \<Rightarrow>
          if k \<noteq> TInt \<and> k \<noteq> TRat \<and> k \<noteq> TFloat then Inl (PNumeric op)
          else rbind (all_are k (PSame op k) ts) (\<lambda>_. Inr k))"

fun list_args :: "string \<Rightarrow> ty \<Rightarrow> nat \<Rightarrow> ty list \<Rightarrow> perr + unit" where
  "list_args op l i [] = Inr ()"
| "list_args op l i (a # as) =
     (if tyEq a l then list_args op l (i + 1) as else Inl (PListArg op i a))"

definition primResultTy :: "store \<Rightarrow> string \<Rightarrow> ty list \<Rightarrow> perr + ty" where
  "primResultTy st op ts =
     (let need = (\<lambda>n k. if length ts \<noteq> n then Inl (PArity op n (length ts)) else k) in
      if op \<in> {''+'', ''-'', ''*'', ''/''} then need 2 (numericTy op ts)
      else if op = ''%'' then need 2 (rbind (all_are TInt (PInt op) ts) (\<lambda>_. Inr TInt))
      else if op = ''neg'' then need 1 (numericTy op ts)
      else if op \<in> {''<'', ''<=''} then need 2 (rbind (numericTy op ts) (\<lambda>_. Inr TBool))
      else if op \<in> {''and'', ''or''} then
        need 2 (rbind (all_are TBool (PBool op) ts) (\<lambda>_. Inr TBool))
      else if op = ''not'' then need 1 (rbind (all_are TBool (PBool op) ts) (\<lambda>_. Inr TBool))
      else if op = ''fp-eq'' then need 2 (rbind (all_are TFloat (PFloat op) ts) (\<lambda>_. Inr TBool))
      else if op \<in> {''hmac-sha256'', ''bytes-eq-ct''} then
        need 2 (case listOfIntTy st of
            None \<Rightarrow> Inl (PNoList op)
          | Some l \<Rightarrow> rbind (list_args op l 0 ts) (\<lambda>_.
              Inr (if op = ''bytes-eq-ct'' then TBool else l)))
      else if op = ''to-rat'' then
        need 1 (if hd ts \<noteq> TInt \<and> hd ts \<noteq> TFloat then Inl (PToRat (hd ts)) else Inr TRat)
      else if op = ''to-float'' then
        need 1 (if hd ts \<noteq> TInt \<and> hd ts \<noteq> TRat then Inl (PToFloat (hd ts)) else Inr TFloat)
      else if op = ''floor'' then
        need 1 (if hd ts \<noteq> TRat \<and> hd ts \<noteq> TFloat then Inl (PFloor (hd ts)) else Inr TInt)
      else Inl (PUnknown op))"

end
