(* ===== verification/Float64.thy ===== *)
theory Float64
  imports Encode
begin

text \<open>
  The binary64 arithmetic that \<^verbatim>\<open>oath/eval.go\<close> takes from Go's \<^verbatim>\<open>float64\<close> and from
  \<^verbatim>\<open>math/big\<close>, on bit patterns: the exact value of a finite pattern, rounding to the nearest
  pattern with ties to even, and the operations as exact rational arithmetic followed by one
  rounding. NaN results are the canonical NaN, since every result of the evaluator passes
  \<^const>\<open>canonFloat\<close>.
\<close>

subsection \<open>Fields of a pattern\<close>

definition f_neg :: "64 word \<Rightarrow> bool" where
  "f_neg w \<longleftrightarrow> 2 ^ 63 \<le> unat w"

definition f_abs :: "64 word \<Rightarrow> nat" where
  "f_abs w = unat w mod 2 ^ 63"

definition f_exp :: "64 word \<Rightarrow> nat" where
  "f_exp w = f_abs w div 2 ^ 52"

definition f_frac :: "64 word \<Rightarrow> nat" where
  "f_frac w = f_abs w mod 2 ^ 52"

definition inf_abs :: nat where
  "inf_abs = 2047 * 2 ^ 52"

definition f_nan :: "64 word \<Rightarrow> bool" where
  "f_nan w \<longleftrightarrow> inf_abs < f_abs w"

definition f_inf :: "64 word \<Rightarrow> bool" where
  "f_inf w \<longleftrightarrow> f_abs w = inf_abs"

definition f_finite :: "64 word \<Rightarrow> bool" where
  "f_finite w \<longleftrightarrow> f_abs w < inf_abs"

definition f_make :: "bool \<Rightarrow> nat \<Rightarrow> 64 word" where
  "f_make s m = word_of_nat (m + (if s then 2 ^ 63 else 0))"

text \<open>
  The magnitude of a finite pattern is \<open>m \<sqdot> 2^(e - 1074)\<close>, with an implicit leading bit in
  \<open>m\<close> unless the exponent field is zero.
\<close>

definition scale :: "nat \<Rightarrow> nat \<Rightarrow> rat" where
  "scale m e = Fract (int (m * 2 ^ e)) (2 ^ 1074)"

definition f_mag :: "64 word \<Rightarrow> rat" where
  "f_mag w =
     (if f_exp w = 0 then scale (f_frac w) 0
      else scale (2 ^ 52 + f_frac w) (f_exp w - 1))"

definition f_rat :: "64 word \<Rightarrow> rat" where
  "f_rat w = (if f_neg w then - f_mag w else f_mag w)"

subsection \<open>Rounding to nearest, ties to even\<close>

text \<open>The number of binary digits.\<close>

fun bitlen :: "nat \<Rightarrow> nat" where
  "bitlen n = (if n = 0 then 0 else Suc (bitlen (n div 2)))"

declare bitlen.simps [simp del]

definition half_even :: "nat \<Rightarrow> nat \<Rightarrow> nat" where
  "half_even n d =
     (let q = n div d; r = n mod d in
      if 2 * r < d \<or> 2 * r = d \<and> even q then q else q + 1)"

text \<open>
  \<open>n/d\<close> in units of the last place: the unit is \<open>2^(e - 1074)\<close> for the least \<open>e\<close> that leaves
  at most 53 digits. A carry out of the mantissa moves into the exponent field by itself.
\<close>

definition round_exp :: "nat \<Rightarrow> nat \<Rightarrow> nat" where
  "round_exp n d =
     (let k = bitlen ((n * 2 ^ 1074) div d) in k - 53)"

definition f_round :: "bool \<Rightarrow> rat \<Rightarrow> 64 word" where
  "f_round s q =
     (case quotient_of q of (n, d) \<Rightarrow>
        let e = round_exp (nat n) (nat d);
            m = half_even (nat n * 2 ^ 1074) (nat d * 2 ^ e)
        in f_make s (min (e * 2 ^ 52 + m) inf_abs))"

subsection \<open>Arithmetic and comparison\<close>

definition f_add :: "64 word \<Rightarrow> 64 word \<Rightarrow> 64 word" where
  "f_add a b =
     (if f_nan a \<or> f_nan b then canonNaN
      else if f_inf a then (if f_inf b \<and> f_neg a \<noteq> f_neg b then canonNaN else a)
      else if f_inf b then b
      else let q = f_rat a + f_rat b in
           f_round (if q = 0 then f_neg a \<and> f_neg b else q < 0) \<bar>q\<bar>)"

definition f_uminus :: "64 word \<Rightarrow> 64 word" where
  "f_uminus a = (if f_nan a then canonNaN else f_make (\<not> f_neg a) (f_abs a))"

definition f_sub :: "64 word \<Rightarrow> 64 word \<Rightarrow> 64 word" where
  "f_sub a b = f_add a (f_uminus b)"

definition f_mul :: "64 word \<Rightarrow> 64 word \<Rightarrow> 64 word" where
  "f_mul a b =
     (let s = (f_neg a \<noteq> f_neg b) in
      if f_nan a \<or> f_nan b then canonNaN
      else if f_inf a \<or> f_inf b then
        (if f_abs a = 0 \<or> f_abs b = 0 then canonNaN else f_make s inf_abs)
      else f_round s (f_mag a * f_mag b))"

definition f_div :: "64 word \<Rightarrow> 64 word \<Rightarrow> 64 word" where
  "f_div a b =
     (let s = (f_neg a \<noteq> f_neg b) in
      if f_nan a \<or> f_nan b then canonNaN
      else if f_inf a then (if f_inf b then canonNaN else f_make s inf_abs)
      else if f_inf b then f_make s 0
      else if f_abs b = 0 then (if f_abs a = 0 then canonNaN else f_make s inf_abs)
      else f_round s (f_mag a / f_mag b))"

text \<open>
  The order of the extended line on patterns that are not NaN: by signed magnitude, which
  identifies the two zeros.
\<close>

definition f_key :: "64 word \<Rightarrow> int" where
  "f_key w = (if f_neg w then - int (f_abs w) else int (f_abs w))"

definition f_lt :: "64 word \<Rightarrow> 64 word \<Rightarrow> bool" where
  "f_lt a b \<longleftrightarrow> \<not> f_nan a \<and> \<not> f_nan b \<and> f_key a < f_key b"

definition f_le :: "64 word \<Rightarrow> 64 word \<Rightarrow> bool" where
  "f_le a b \<longleftrightarrow> \<not> f_nan a \<and> \<not> f_nan b \<and> f_key a \<le> f_key b"

definition f_eq :: "64 word \<Rightarrow> 64 word \<Rightarrow> bool" where
  "f_eq a b \<longleftrightarrow> \<not> f_nan a \<and> \<not> f_nan b \<and> f_key a = f_key b"

definition f_of_rat :: "rat \<Rightarrow> 64 word" where
  "f_of_rat q = f_round (q < 0) \<bar>q\<bar>"

definition f_of_int :: "int \<Rightarrow> 64 word" where
  "f_of_int v = f_of_rat (of_int v)"

subsection \<open>Rounding is exact on representable values\<close>

lemma bitlen_0 [simp]: "bitlen 0 = 0"
  by (simp add: bitlen.simps)

lemma bitlen_le: "bitlen n \<le> k \<longleftrightarrow> n < 2 ^ k"
proof (induction k arbitrary: n)
  case 0
  then show ?case by (cases "n = 0") (simp_all add: bitlen.simps [of n])
next
  case (Suc k)
  show ?case
  proof (cases "n = 0")
    case False
    then have "bitlen n \<le> Suc k \<longleftrightarrow> n div 2 < 2 ^ k"
      using Suc.IH [of "n div 2"] by (simp add: bitlen.simps [of n])
    then show ?thesis by (simp add: less_mult_imp_div_less div_less_iff_less_mult mult.commute)
  qed simp
qed

lemma bitlen_eq: "2 ^ k \<le> n \<Longrightarrow> n < 2 ^ Suc k \<Longrightarrow> bitlen n = Suc k"
  using bitlen_le [of n k] bitlen_le [of n "Suc k"] by linarith

lemma half_even_exact: "0 < d \<Longrightarrow> half_even (m * d) d = m"
  by (simp add: half_even_def)

lemma scale_quotient:
  assumes "quotient_of (scale m e) = (n, d)"
  shows "0 \<le> n" "0 < d" "nat n * 2 ^ 1074 = m * 2 ^ e * nat d"
proof -
  have d: "0 < d" by (rule quotient_of_denom_pos [OF assms])
  have q: "Fract n d = Fract (int (m * 2 ^ e)) (2 ^ 1074)"
    using quotient_of_div [OF assms] by (simp add: scale_def Fract_of_int_quotient)
  then have eq: "n * 2 ^ 1074 = int (m * 2 ^ e) * d"
    using d by (simp add: eq_rat(1))
  then have "0 \<le> n * 2 ^ 1074" using d by simp
  then have n: "0 \<le> n" by (simp add: zero_le_mult_iff)
  have "int (nat n * 2 ^ 1074) = int (m * 2 ^ e * nat d)"
    using eq n d by simp
  then show "nat n * 2 ^ 1074 = m * 2 ^ e * nat d" by (simp only: of_nat_eq_iff)
  show "0 \<le> n" "0 < d" by (fact n d)+
qed

lemma f_round_scale:
  assumes "m < 2 ^ 53" "e = 0 \<or> 2 ^ 52 \<le> m"
  shows "f_round s (scale m e) = f_make s (min (e * 2 ^ 52 + m) inf_abs)"
proof -
  obtain n d where q: "quotient_of (scale m e) = (n, d)" by (metis prod.exhaust)
  note eq = scale_quotient [OF q]
  have "nat n * 2 ^ 1074 div nat d = m * 2 ^ e"
    using eq by (metis nat_int nonzero_mult_div_cancel_right zero_less_nat_eq less_numeral_extra(3))
  moreover have "bitlen (m * 2 ^ e) - 53 = e"
  proof (cases "e = 0")
    case True
    then show ?thesis using assms bitlen_le [of m 53] by simp
  next
    case False
    have "m * 2 ^ e < 2 ^ 53 * 2 ^ e" using assms(1) by simp
    moreover have "2 ^ 52 * 2 ^ e \<le> m * 2 ^ e" using assms(2) False by simp
    ultimately have "bitlen (m * 2 ^ e) = Suc (52 + e)"
      by (intro bitlen_eq) (simp_all add: power_add)
    then show ?thesis by simp
  qed
  ultimately have e: "round_exp (nat n) (nat d) = e" by (simp add: round_exp_def)
  have "nat n * 2 ^ 1074 = m * (nat d * 2 ^ e)" using eq(3) by simp
  then have "half_even (nat n * 2 ^ 1074) (nat d * 2 ^ e) = m"
    using eq(2) by (simp only: half_even_exact nat_0_less_mult_iff zero_less_nat_eq zero_less_power)
  with e q show ?thesis by (simp add: f_round_def)
qed

lemma f_abs_less: "f_abs w < 2 ^ 63"
  by (simp add: f_abs_def)

lemma f_abs_fields: "f_abs w = f_exp w * 2 ^ 52 + f_frac w" "f_frac w < 2 ^ 52"
  unfolding f_exp_def f_frac_def by (rule div_mult_mod_eq [symmetric]) simp

lemma f_make_fields [simp]: "f_make (f_neg w) (f_abs w) = w"
proof -
  have "unat w < 2 ^ 63 + 2 ^ 63" using unsigned_less [of w] by simp
  then have "f_abs w + (if f_neg w then 2 ^ 63 else 0) = unat w"
    by (simp add: f_abs_def f_neg_def le_mod_geq)
  then show ?thesis by (simp add: f_make_def)
qed

text \<open>Every finite pattern is the rounding of its own value.\<close>

lemma f_round_mag:
  assumes "f_finite w"
  shows "f_round (f_neg w) (f_mag w) = w"
proof -
  have a: "f_abs w \<le> inf_abs" using assms by (simp add: f_finite_def)
  show ?thesis
  proof (cases "f_exp w = 0")
    case True
    then have "f_abs w = f_frac w" using f_abs_fields(1) [of w] by simp
    then have "f_round (f_neg w) (f_mag w) = f_make (f_neg w) (f_abs w)"
      using True a f_abs_fields(2) [of w] by (simp add: f_mag_def f_round_scale)
    then show ?thesis by simp
  next
    case False
    then have b: "(f_exp w - 1) * 2 ^ 52 + (2 ^ 52 + f_frac w) = f_abs w"
      using f_abs_fields(1) [of w] by (cases "f_exp w") simp_all
    have "f_round (f_neg w) (f_mag w) = f_make (f_neg w) (min ((f_exp w - 1) * 2 ^ 52 + (2 ^ 52 + f_frac w)) inf_abs)"
      using False f_abs_fields(2) [of w] by (simp add: f_mag_def f_round_scale)
    then show ?thesis using a by (simp only: b min.absorb1 f_make_fields)
  qed
qed

lemma f_mag_nonneg: "0 \<le> f_mag w"
  by (simp add: f_mag_def scale_def zero_le_Fract_iff)

lemma f_mag_0: "f_mag w = 0 \<longleftrightarrow> f_abs w = 0"
  using f_abs_fields [of w] by (simp add: f_mag_def scale_def Fract_of_int_quotient)

text \<open>Conversion to a rational and back: the identity on finite patterns other than \<open>-0\<close>.\<close>

lemma f_of_rat_f_rat:
  assumes "f_finite w" "f_abs w \<noteq> 0 \<or> \<not> f_neg w"
  shows "f_of_rat (f_rat w) = w"
proof -
  have "(f_rat w < 0) = f_neg w"
  proof (cases "f_neg w")
    case True
    then have "0 < f_mag w"
      using assms(2) f_mag_nonneg [of w] f_mag_0 [of w] by linarith
    then show ?thesis using True by (simp add: f_rat_def)
  next
    case False
    then show ?thesis using f_mag_nonneg [of w] by (simp add: f_rat_def)
  qed
  moreover have "\<bar>f_rat w\<bar> = f_mag w"
    using f_mag_nonneg [of w] by (simp add: f_rat_def)
  ultimately show ?thesis using f_round_mag [OF assms(1)] by (simp add: f_of_rat_def)
qed

end
