(* ===== verification/Eval.thy ===== *)
theory Eval
  imports TypeOps Float64 Sha256 "HOL-Library.Signed_Division"
begin

text \<open>
  The evaluator of \<^verbatim>\<open>oath/eval.go\<close>. A run threads the fuel that is left; the recursion depth,
  which the Go code counts up to \<^verbatim>\<open>maxEvalDepth\<close>, is the first argument counting down, so a
  run ends by construction as it does there. Every failure is a constructor of \<open>eerr\<close>;
  \<open>EPanic\<close> stands for what would be a Go panic: the use of a nil number or of a missing
  argument. Environments hold variable 0 first. The statistics of \<^verbatim>\<open>note\<close>, off outside of
  property runs, are not part of a run's state here.
\<close>

datatype val =
    VInt int | VRat rat | VFloat "64 word" | VBool bool
  | VClos "val list" ty trm hash
  | VData hash nat "val list"
  | VRecord "string list" "val list"
  | VId | VAffine int int | VConst val | VTable "val list" "val list" val

datatype eerr =
    ETooDeep | EFuel | EVarScope nat | ENoField string | ENoSelf | ENotData | ENoArm nat
  | EGetDef hash | ENotFun | EAffine | EDivZero | EModZero | ENotFinite string | EByteRange
  | EEqFun | EUnknownPrim string | EPanic

subsection \<open>Runs\<close>

type_synonym 'a ev = "int \<Rightarrow> (eerr + 'a) \<times> int"

definition efrom :: "eerr + 'a \<Rightarrow> 'a ev" where
  "efrom r f = (r, f)"

definition ebind :: "'a ev \<Rightarrow> ('a \<Rightarrow> 'b ev) \<Rightarrow> 'b ev" where
  "ebind m k f = (case m f of (Inl e, f') \<Rightarrow> (Inl e, f') | (Inr a, f') \<Rightarrow> k a f')"

definition tick :: "unit ev" where
  "tick f = (if f - 1 < 0 then Inl EFuel else Inr (), f - 1)"

subsection \<open>Equality and byte lists\<close>

text \<open>The tag \<^verbatim>\<open>K\<close> of a value: all native functions share one.\<close>

fun val_kind :: "val \<Rightarrow> nat" where
  "val_kind (VInt _) = 0"
| "val_kind (VRat _) = 1"
| "val_kind (VFloat _) = 2"
| "val_kind (VBool _) = 3"
| "val_kind (VClos _ _ _ _) = 4"
| "val_kind (VData _ _ _) = 5"
| "val_kind (VRecord _ _) = 6"
| "val_kind _ = 7"

fun structEq :: "val \<Rightarrow> val \<Rightarrow> eerr + bool"
  and structEqs :: "val list \<Rightarrow> val list \<Rightarrow> eerr + bool" where
  "structEq (VInt x) b = Inr (case b of VInt y \<Rightarrow> x = y | _ \<Rightarrow> False)"
| "structEq (VRat x) b = Inr (case b of VRat y \<Rightarrow> x = y | _ \<Rightarrow> False)"
| "structEq (VFloat x) b = Inr (case b of VFloat y \<Rightarrow> canonFloat x = canonFloat y | _ \<Rightarrow> False)"
| "structEq (VBool x) b = Inr (case b of VBool y \<Rightarrow> x = y | _ \<Rightarrow> False)"
| "structEq (VRecord ns xs) b =
     (case b of
        VRecord ms ys \<Rightarrow> if length xs \<noteq> length ys then Inr False else structEqs xs ys
      | _ \<Rightarrow> Inr False)"
| "structEq (VData h i xs) b =
     (case b of
        VData g j ys \<Rightarrow>
          if h \<noteq> g \<or> i \<noteq> j \<or> length xs \<noteq> length ys then Inr False else structEqs xs ys
      | _ \<Rightarrow> Inr False)"
| "structEq a b = (if val_kind a \<noteq> val_kind b then Inr False else Inl EEqFun)"
| "structEqs (x # xs) (y # ys) =
     (case structEq x y of
        Inl e \<Rightarrow> Inl e
      | Inr eq \<Rightarrow> if \<not> eq then Inr False else structEqs xs ys)"
| "structEqs _ _ = Inr True"

text \<open>
  \<^verbatim>\<open>bytesOfList\<close>: constructor 1 is taken for \<^verbatim>\<open>Cons\<close>, anything else ends the list. An
  element that is no \<^verbatim>\<open>Int\<close> has a nil number, which the range check refuses.
\<close>

fun bytesOfList :: "val \<Rightarrow> eerr + bytes" where
  "bytesOfList (VData h i fs) =
     (if i \<noteq> 1 then Inr []
      else case fs of
          [] \<Rightarrow> Inl EPanic
        | n # rs \<Rightarrow>
            (case n of
               VInt v \<Rightarrow>
                 if v < 0 \<or> 255 < v then Inl EByteRange
                 else (case rs of
                         [] \<Rightarrow> Inl EPanic
                       | r # _ \<Rightarrow> rbind (bytesOfList r) (\<lambda>bs. Inr (word_of_int v # bs)))
             | _ \<Rightarrow> Inl EByteRange))"
| "bytesOfList _ = Inr []"

fun listOfBytes :: "hash \<Rightarrow> bytes \<Rightarrow> val" where
  "listOfBytes h [] = VData h 0 []"
| "listOfBytes h (b # bs) = VData h 1 [VInt (uint b), listOfBytes h bs]"

definition val_hash :: "val \<Rightarrow> hash" where
  "val_hash v = (case v of VData h _ _ \<Rightarrow> h | _ \<Rightarrow> '''')"

subsection \<open>Primitives\<close>

text \<open>
  The fields \<^verbatim>\<open>Int\<close>, \<^verbatim>\<open>Rat\<close>, \<^verbatim>\<open>Float\<close> and \<^verbatim>\<open>Bool\<close> of an argument: the first two are nil
  for a value of another form, the last two the zero of their type.
\<close>

definition arg :: "val list \<Rightarrow> nat \<Rightarrow> eerr + val" where
  "arg vs i = (if i < length vs then Inr (vs ! i) else Inl EPanic)"

definition arg_int :: "val list \<Rightarrow> nat \<Rightarrow> eerr + int" where
  "arg_int vs i = rbind (arg vs i) (\<lambda>v. case v of VInt x \<Rightarrow> Inr x | _ \<Rightarrow> Inl EPanic)"

definition arg_rat :: "val list \<Rightarrow> nat \<Rightarrow> eerr + rat" where
  "arg_rat vs i = rbind (arg vs i) (\<lambda>v. case v of VRat x \<Rightarrow> Inr x | _ \<Rightarrow> Inl EPanic)"

definition float_of :: "val \<Rightarrow> 64 word" where
  "float_of v = (case v of VFloat f \<Rightarrow> f | _ \<Rightarrow> 0)"

definition arg_float :: "val list \<Rightarrow> nat \<Rightarrow> eerr + 64 word" where
  "arg_float vs i = rbind (arg vs i) (\<lambda>v. Inr (float_of v))"

definition bool_of :: "val \<Rightarrow> bool" where
  "bool_of v = (case v of VBool b \<Rightarrow> b | _ \<Rightarrow> False)"

definition arg_bool :: "val list \<Rightarrow> nat \<Rightarrow> eerr + bool" where
  "arg_bool vs i = rbind (arg vs i) (\<lambda>v. Inr (bool_of v))"

definition int2 :: "(int \<Rightarrow> int \<Rightarrow> val) \<Rightarrow> val list \<Rightarrow> eerr + val" where
  "int2 g vs = rbind (arg_int vs 0) (\<lambda>a. rbind (arg_int vs 1) (\<lambda>b. Inr (g a b)))"

definition rat2 :: "(rat \<Rightarrow> rat \<Rightarrow> val) \<Rightarrow> val list \<Rightarrow> eerr + val" where
  "rat2 g vs = rbind (arg_rat vs 0) (\<lambda>a. rbind (arg_rat vs 1) (\<lambda>b. Inr (g a b)))"

definition float2 :: "(64 word \<Rightarrow> 64 word \<Rightarrow> val) \<Rightarrow> val list \<Rightarrow> eerr + val" where
  "float2 g vs = rbind (arg_float vs 0) (\<lambda>a. rbind (arg_float vs 1) (\<lambda>b. Inr (g a b)))"

definition vFloat :: "64 word \<Rightarrow> val" where
  "vFloat x = VFloat (canonFloat x)"

text \<open>The rational and the float block; \<^const>\<open>None\<close> falls through to what follows.\<close>

definition ratPrim :: "string \<Rightarrow> val list \<Rightarrow> (eerr + val) option" where
  "ratPrim op vs =
     (if op = ''+'' then Some (rat2 (\<lambda>a b. VRat (a + b)) vs)
      else if op = ''-'' then Some (rat2 (\<lambda>a b. VRat (a - b)) vs)
      else if op = ''*'' then Some (rat2 (\<lambda>a b. VRat (a * b)) vs)
      else if op = ''/'' then Some (rbind (arg_rat vs 1) (\<lambda>b.
        if b = 0 then Inl EDivZero else rbind (arg_rat vs 0) (\<lambda>a. Inr (VRat (a / b)))))
      else if op = ''neg'' then Some (rbind (arg_rat vs 0) (\<lambda>a. Inr (VRat (- a))))
      else if op = ''<'' then Some (rat2 (\<lambda>a b. VBool (a < b)) vs)
      else if op = ''<='' then Some (rat2 (\<lambda>a b. VBool (a \<le> b)) vs)
      else if op = ''=='' then Some (rat2 (\<lambda>a b. VBool (a = b)) vs)
      else None)"

definition floatPrim :: "string \<Rightarrow> val list \<Rightarrow> (eerr + val) option" where
  "floatPrim op vs =
     (if op = ''+'' then Some (float2 (\<lambda>a b. vFloat (f_add a b)) vs)
      else if op = ''-'' then Some (float2 (\<lambda>a b. vFloat (f_sub a b)) vs)
      else if op = ''*'' then Some (float2 (\<lambda>a b. vFloat (f_mul a b)) vs)
      else if op = ''/'' then Some (float2 (\<lambda>a b. vFloat (f_div a b)) vs)
      else if op = ''neg'' then Some (rbind (arg_float vs 0) (\<lambda>a. Inr (vFloat (f_uminus a))))
      else if op = ''<'' then Some (float2 (\<lambda>a b. VBool (f_lt a b)) vs)
      else if op = ''<='' then Some (float2 (\<lambda>a b. VBool (f_le a b)) vs)
      else if op = ''fp-eq'' then Some (float2 (\<lambda>a b. VBool (f_eq a b)) vs)
      else None)"

definition cryptoPrim :: "string \<Rightarrow> val list \<Rightarrow> eerr + val" where
  "cryptoPrim op vs =
     rbind (arg vs 0) (\<lambda>u. rbind (bytesOfList u) (\<lambda>a.
     rbind (arg vs 1) (\<lambda>v. rbind (bytesOfList v) (\<lambda>b.
       Inr (if op = ''bytes-eq-ct'' then VBool (a = b)
            else listOfBytes (val_hash u) (hmac_sha256 a b))))))"

definition toRat :: "val list \<Rightarrow> eerr + val" where
  "toRat vs = rbind (arg vs 0) (\<lambda>v. case v of
      VInt x \<Rightarrow> Inr (VRat (of_int x))
    | _ \<Rightarrow> if f_finite (float_of v) then Inr (VRat (f_rat (float_of v)))
          else Inl (ENotFinite ''to-rat''))"

definition toFloat :: "val list \<Rightarrow> eerr + val" where
  "toFloat vs = rbind (arg vs 0) (\<lambda>v. case v of
      VInt x \<Rightarrow> Inr (vFloat (f_of_int x))
    | VRat q \<Rightarrow> Inr (vFloat (f_of_rat q))
    | _ \<Rightarrow> Inl EPanic)"

definition floorPrim :: "val list \<Rightarrow> eerr + val" where
  "floorPrim vs = rbind (arg vs 0) (\<lambda>v. case v of
      VRat q \<Rightarrow> Inr (VInt \<lfloor>q\<rfloor>)
    | _ \<Rightarrow> if f_finite (float_of v) then Inr (VInt \<lfloor>f_rat (float_of v)\<rfloor>)
          else Inl (ENotFinite ''floor''))"

text \<open>The integer, boolean and equality block; division and remainder truncate.\<close>

definition intPrim :: "string \<Rightarrow> val list \<Rightarrow> eerr + val" where
  "intPrim op vs =
     (if op = ''+'' then int2 (\<lambda>a b. VInt (a + b)) vs
      else if op = ''-'' then int2 (\<lambda>a b. VInt (a - b)) vs
      else if op = ''*'' then int2 (\<lambda>a b. VInt (a * b)) vs
      else if op = ''/'' then rbind (arg_int vs 1) (\<lambda>b.
        if b = 0 then Inl EDivZero else rbind (arg_int vs 0) (\<lambda>a. Inr (VInt (a sdiv b))))
      else if op = ''%'' then rbind (arg_int vs 1) (\<lambda>b.
        if b = 0 then Inl EModZero else rbind (arg_int vs 0) (\<lambda>a. Inr (VInt (a smod b))))
      else if op = ''neg'' then rbind (arg_int vs 0) (\<lambda>a. Inr (VInt (- a)))
      else if op = ''<'' then int2 (\<lambda>a b. VBool (a < b)) vs
      else if op = ''<='' then int2 (\<lambda>a b. VBool (a \<le> b)) vs
      else if op = ''and'' then rbind (arg_bool vs 0) (\<lambda>a.
        if \<not> a then Inr (VBool False) else rbind (arg_bool vs 1) (\<lambda>b. Inr (VBool b)))
      else if op = ''or'' then rbind (arg_bool vs 0) (\<lambda>a.
        if a then Inr (VBool True) else rbind (arg_bool vs 1) (\<lambda>b. Inr (VBool b)))
      else if op = ''not'' then rbind (arg_bool vs 0) (\<lambda>a. Inr (VBool (\<not> a)))
      else if op = ''=='' then rbind (arg vs 0) (\<lambda>a. rbind (arg vs 1) (\<lambda>b.
        rbind (structEq a b) (\<lambda>eq. Inr (VBool eq))))
      else Inl (EUnknownPrim op))"

definition numPrim :: "string \<Rightarrow> val list \<Rightarrow> (eerr + val) option" where
  "numPrim op vs =
     (case vs of VRat _ # _ \<Rightarrow> ratPrim op vs | VFloat _ # _ \<Rightarrow> floatPrim op vs | _ \<Rightarrow> None)"

definition prim :: "string \<Rightarrow> val list \<Rightarrow> eerr + val" where
  "prim op vs =
     (case numPrim op vs of
        Some r \<Rightarrow> r
      | None \<Rightarrow>
          if op = ''hmac-sha256'' \<or> op = ''bytes-eq-ct'' then cryptoPrim op vs
          else if op = ''to-rat'' then toRat vs
          else if op = ''to-float'' then toFloat vs
          else if op = ''floor'' then floorPrim vs
          else intPrim op vs)"

subsection \<open>Terms\<close>

definition pushEnv :: "val list \<Rightarrow> val \<Rightarrow> val list" where
  "pushEnv env v = v # env"

fun field_val :: "string list \<Rightarrow> val list \<Rightarrow> string \<Rightarrow> eerr + val" where
  "field_val [] vs f = Inl (ENoField f)"
| "field_val (n # ns) vs f =
     (if n = f then (case vs of [] \<Rightarrow> Inl EPanic | v # _ \<Rightarrow> Inr v) else field_val ns (tl vs) f)"

text \<open>A table of outputs parallel to inputs; a comparison that fails does not match.\<close>

fun table_get :: "val list \<Rightarrow> val list \<Rightarrow> val \<Rightarrow> val \<Rightarrow> eerr + val" where
  "table_get [] ys dflt a = Inr dflt"
| "table_get (x # xs) ys dflt a =
     (if structEq x a = Inr True then (case ys of [] \<Rightarrow> Inl EPanic | y # _ \<Rightarrow> Inr y)
      else table_get xs (tl ys) dflt a)"

type_synonym evaluator = "val list \<Rightarrow> hash \<Rightarrow> trm \<Rightarrow> val ev"

definition apply_body :: "evaluator \<Rightarrow> val \<Rightarrow> val \<Rightarrow> val ev" where
  "apply_body ev g a =
     (case g of
        VClos env p b slf \<Rightarrow> ev (pushEnv env a) slf b
      | VId \<Rightarrow> efrom (Inr a)
      | VConst v \<Rightarrow> efrom (Inr v)
      | VAffine m n \<Rightarrow> efrom (case a of VInt x \<Rightarrow> Inr (VInt (m * x + n)) | _ \<Rightarrow> Inl EAffine)
      | VTable xs ys dflt \<Rightarrow> efrom (table_get xs ys dflt a)
      | _ \<Rightarrow> efrom (Inl ENotFun))"

definition apply_val :: "evaluator \<Rightarrow> val \<Rightarrow> val \<Rightarrow> val ev" where
  "apply_val ev g a = ebind tick (\<lambda>_. apply_body ev g a)"

fun eval_list :: "(trm \<Rightarrow> val ev) \<Rightarrow> trm list \<Rightarrow> val list ev" where
  "eval_list ev [] = efrom (Inr [])"
| "eval_list ev (t # ts) = ebind (ev t) (\<lambda>v. ebind (eval_list ev ts) (\<lambda>vs. efrom (Inr (v # vs))))"

text \<open>The body of a definition, evaluated in its own scope.\<close>

definition eval_def :: "store \<Rightarrow> evaluator \<Rightarrow> hash \<Rightarrow> val ev" where
  "eval_def st ev h =
     (case GetDef st h of
        Inl _ \<Rightarrow> efrom (Inl (EGetDef h))
      | Inr (DData _ _) \<Rightarrow> efrom (Inl EPanic)
      | Inr (DFunc n t b ps) \<Rightarrow> ev [] h b)"

fun evalInner :: "store \<Rightarrow> evaluator \<Rightarrow> val list \<Rightarrow> hash \<Rightarrow> trm \<Rightarrow> val ev" where
  "evalInner st ev env slf (Var i) =
     efrom (if length env \<le> i then Inl (EVarScope i) else Inr (env ! i))"
| "evalInner st ev env slf (IntL v) = efrom (Inr (VInt v))"
| "evalInner st ev env slf (RatL r) = efrom (Inr (VRat r))"
| "evalInner st ev env slf (FloatL x) = efrom (Inr (VFloat (canonFloat x)))"
| "evalInner st ev env slf (BoolL b) = efrom (Inr (VBool b))"
| "evalInner st ev env slf (Record ns as) =
     ebind (eval_list (ev env slf) as) (\<lambda>vs. efrom (Inr (VRecord ns vs)))"
| "evalInner st ev env slf (Field a f) =
     ebind (ev env slf a) (\<lambda>v. efrom (case v of
         VRecord ns vs \<Rightarrow> field_val ns vs f
       | _ \<Rightarrow> Inl (ENoField f)))"
| "evalInner st ev env slf (Lam p b) = efrom (Inr (VClos env p b slf))"
| "evalInner st ev env slf (App a b) =
     ebind (ev env slf a) (\<lambda>g. ebind (ev env slf b) (\<lambda>v. apply_val ev g v))"
| "evalInner st ev env slf (Let p a b) =
     ebind (ev env slf a) (\<lambda>v. ev (pushEnv env v) slf b)"
| "evalInner st ev env slf (If a b d) =
     ebind (ev env slf a) (\<lambda>v. if bool_of v then ev env slf b else ev env slf d)"
| "evalInner st ev env slf (Prim op as) =
     ebind (eval_list (ev env slf) as) (\<lambda>vs. efrom (prim op vs))"
| "evalInner st ev env slf (Ref h ts) = eval_def st ev h"
| "evalInner st ev env slf (Self ts) =
     (if slf = '''' then efrom (Inl ENoSelf) else eval_def st ev slf)"
| "evalInner st ev env slf (Ctor h i ts as) =
     ebind (eval_list (ev env slf) as) (\<lambda>vs. efrom (Inr (VData h i vs)))"
| "evalInner st ev env slf (Match h a arms) =
     ebind (ev env slf a) (\<lambda>v. case v of
         VData g i vs \<Rightarrow>
           if length arms \<le> i then efrom (Inl (ENoArm i))
           else ev (foldl pushEnv env vs) slf (arms ! i)
       | _ \<Rightarrow> efrom (Inl ENotData))"

primrec eval :: "nat \<Rightarrow> store \<Rightarrow> evaluator" where
  "eval 0 st env slf t = efrom (Inl ETooDeep)"
| "eval (Suc d) st env slf t = ebind tick (\<lambda>_. evalInner st (eval d st) env slf t)"

text \<open>The two depth limits: a memory budget on native targets, a constant under \<^verbatim>\<open>js\<close>.\<close>

definition evalStackBudget :: nat where "evalStackBudget = 96 * 2 ^ 20"
definition evalFrameBytes :: nat where "evalFrameBytes = 8700"
definition maxEvalDepth :: nat where "maxEvalDepth = evalStackBudget div evalFrameBytes"
definition maxEvalDepth_js :: nat where "maxEvalDepth_js = 400"

definition run_eval :: "store \<Rightarrow> evaluator" where
  "run_eval st = eval maxEvalDepth st"

definition run_apply :: "store \<Rightarrow> val \<Rightarrow> val \<Rightarrow> val ev" where
  "run_apply st = apply_val (eval maxEvalDepth st)"

end
