(* ===== verification/Checker.thy ===== *)
theory Checker
  imports TypeOps
begin

text \<open>
  The recursive bidirectional checker of \<^verbatim>\<open>oath/check.go\<close>: \<^verbatim>\<open>synth\<close>, \<^verbatim>\<open>synthPrim\<close>,
  \<^verbatim>\<open>synthCtor\<close>, \<^verbatim>\<open>tryInferApp\<close> and \<^verbatim>\<open>check\<close>.

  A judgement publishes inferred type arguments in the term it is given, also when it fails
  afterwards, and counts its entries into constructor inference. So a judgement here returns
  the term as it leaves it, the number of entries, and the diagnostic or the type.
  \<^verbatim>\<open>check\<close> on a form without a rule of its own re-enters \<^verbatim>\<open>synth\<close> on the same term, and
  arguments are visited again after their types have been filled in, so the depth of the
  recursion is bounded by a fuel; \<open>Checker\<close> shows that twice the height of the term is
  always enough.
\<close>

datatype cerr =
    CVarScope nat | CRecordSync | CRecordOrder | CNonRecord ty | CNoField ty string
  | CType terr | CNonFunction ty | CArgMismatch ty ty | CLetMismatch ty ty | CCondNotBool ty
  | CBranches ty ty | CNotTerm hash | CRefArity hash nat nat | CNoSelf | CSelfArity nat nat
  | CNotData ty | CWrongData | CArmCount nat nat | CArms ty ty | CNoArms
  | CCtorIndex nat | CCtorArity nat nat | CCannotInfer nat trm | CCtorTyArity nat nat
  | CTooMany trm | CArgument nat ty ty | CExpected ty ty | CLamParam ty ty
  | CEqArity nat | CEqUnknown | CEqFunction | CPrim perr | CFuel

record env =
  est :: store
  etv :: nat
  eself :: "ty option"

type_synonym 'a judged = "trm \<times> nat \<times> (cerr + 'a)"
type_synonym synther = "ctx \<Rightarrow> trm \<Rightarrow> ty judged"
type_synonym checker = "ctx \<Rightarrow> trm \<Rightarrow> ty \<Rightarrow> unit judged"

definition lift_t :: "terr + 'a \<Rightarrow> cerr + 'a" where
  "lift_t r = (case r of Inl e \<Rightarrow> Inl (CType e) | Inr x \<Rightarrow> Inr x)"

definition lift_p :: "perr + 'a \<Rightarrow> cerr + 'a" where
  "lift_p r = (case r of Inl e \<Rightarrow> Inl (CPrim e) | Inr x \<Rightarrow> Inr x)"

definition wfE :: "env \<Rightarrow> ty \<Rightarrow> cerr + unit" where
  "wfE E t = lift_t (checkTyWF (est E) (etv E) False t)"

definition wfsE :: "env \<Rightarrow> ty list \<Rightarrow> cerr + unit" where
  "wfsE E ts = lift_t (wf_list (est E) (etv E) False ts)"

definition getE :: "env \<Rightarrow> hash \<Rightarrow> cerr + def" where
  "getE E h = lift_t (GetDef (est E) h)"

fun is_head :: "trm \<Rightarrow> bool" where
  "is_head (Ref h ts) = True"
| "is_head (Self ts) = True"
| "is_head _ = False"

subsection \<open>Passes over arguments\<close>

text \<open>Synthesize every argument; the first failure ends the pass.\<close>

fun synth_list :: "synther \<Rightarrow> ctx \<Rightarrow> trm list \<Rightarrow> trm list \<times> nat \<times> (cerr + ty list)" where
  "synth_list sy c [] = ([], 0, Inr [])"
| "synth_list sy c (a # as) =
     (case sy c a of
        (a', n, Inl e) \<Rightarrow> (a' # as, n, Inl e)
      | (a', n, Inr t) \<Rightarrow>
          (case synth_list sy c as of
             (as', m, r) \<Rightarrow> (a' # as', n + m, rbind r (\<lambda>ts. Inr (t # ts)))))"

text \<open>The fields of a record: the order of a name is checked before its value.\<close>

fun synth_fields :: "synther \<Rightarrow> ctx \<Rightarrow> string option \<Rightarrow> string list \<Rightarrow> trm list \<Rightarrow>
    trm list \<times> nat \<times> (cerr + ty list)" where
  "synth_fields sy c prev (f # fs) (a # as) =
     (if (case prev of None \<Rightarrow> False | Some p \<Rightarrow> f \<le> p) then (a # as, 0, Inl CRecordOrder)
      else case sy c a of
          (a', n, Inl e) \<Rightarrow> (a' # as, n, Inl e)
        | (a', n, Inr t) \<Rightarrow>
            (case synth_fields sy c (Some f) fs as of
               (as', m, r) \<Rightarrow> (a' # as', n + m, rbind r (\<lambda>ts. Inr (t # ts)))))"
| "synth_fields sy c prev _ as = (as, 0, Inr [])"

text \<open>
  The inference pass: every argument is synthesized, a failure is suppressed (\<^const>\<open>None\<close>) and
  leaves the argument for the validation pass, a success is matched against the pattern.
\<close>

fun infer_pass :: "synther \<Rightarrow> ctx \<Rightarrow> trm list \<Rightarrow> ty list \<Rightarrow> subst \<Rightarrow>
    trm list \<times> nat \<times> subst \<times> ty option list" where
  "infer_pass sy c (a # as) (p # ps) s =
     (case sy c a of
        (a', n, Inl e) \<Rightarrow>
          (case infer_pass sy c as ps s of (as', m, s', ts) \<Rightarrow> (a' # as', n + m, s', None # ts))
      | (a', n, Inr t) \<Rightarrow>
          (case infer_pass sy c as ps (fst (matchTy p t s)) of
             (as', m, s', ts) \<Rightarrow> (a' # as', n + m, s', Some t # ts)))"
| "infer_pass sy c as _ s = (as, 0, s, [])"

text \<open>The validation pass of a constructor: check every argument.\<close>

fun check_list :: "checker \<Rightarrow> ctx \<Rightarrow> trm list \<Rightarrow> ty list \<Rightarrow> trm list \<times> nat \<times> (cerr + unit)" where
  "check_list ch c (a # as) (t # ts) =
     (case ch c a t of
        (a', n, Inl e) \<Rightarrow> (a' # as, n, Inl e)
      | (a', n, Inr _) \<Rightarrow>
          (case check_list ch c as ts of (as', m, r) \<Rightarrow> (a' # as', n + m, r)))"
| "check_list ch c as _ = (as, 0, Inr ())"

text \<open>
  The validation pass of an application: an argument that was synthesized is compared, a
  suppressed one is checked.
\<close>

fun validate_args :: "checker \<Rightarrow> ctx \<Rightarrow> nat \<Rightarrow> trm list \<Rightarrow> ty list \<Rightarrow> ty option list \<Rightarrow>
    trm list \<times> nat \<times> (cerr + unit)" where
  "validate_args ch c i (a # as) (p # ps) (got # gots) =
     (case got of
        Some t \<Rightarrow>
          if tyEq t p
          then (case validate_args ch c (i + 1) as ps gots of (as', m, r) \<Rightarrow> (a # as', m, r))
          else (a # as, 0, Inl (CArgument i p t))
      | None \<Rightarrow>
          (case ch c a p of
             (a', n, Inl e) \<Rightarrow> (a' # as, n, Inl e)
           | (a', n, Inr _) \<Rightarrow>
               (case validate_args ch c (i + 1) as ps gots of
                  (as', m, r) \<Rightarrow> (a' # as', n + m, r))))"
| "validate_args ch c i as _ _ = (as, 0, Inr ())"

text \<open>The first type variable without a solution.\<close>

fun unsolved :: "nat \<Rightarrow> subst \<Rightarrow> nat option" where
  "unsolved i [] = None"
| "unsolved i (None # s) = Some i"
| "unsolved i (Some t # s) = unsolved (i + 1) s"

subsection \<open>Constructors and applications\<close>

definition synth_ctor :: "synther \<Rightarrow> checker \<Rightarrow> env \<Rightarrow> ctx \<Rightarrow> hash \<Rightarrow> nat \<Rightarrow> ty list \<Rightarrow> trm list \<Rightarrow>
    ty option \<Rightarrow> ty judged" where
  "synth_ctor sy ch E c h i tys args want =
     (case getE E h of
        Inl e \<Rightarrow> (Ctor h i tys args, 0, Inl e)
      | Inr (DFunc _ _ _ _) \<Rightarrow> (Ctor h i tys args, 0, Inl (CType (NotData h)))
      | Inr (DData n cs) \<Rightarrow>
          if length cs \<le> i then (Ctor h i tys args, 0, Inl (CCtorIndex i))
          else
            (let d = DData n cs; raw = instCtorFields d h (identityTyArgs n) i in
             if length args \<noteq> length raw
             then (Ctor h i tys args, 0, Inl (CCtorArity (length raw) (length args)))
             else if inferReady n tys then
               (let s0 = replicate n None;
                    s1 = (case want of None \<Rightarrow> s0
                          | Some t \<Rightarrow> fst (matchTy (TData h (identityTyArgs n)) t s0))
                in case infer_pass sy c args raw s1 of
                    (args1, m1, s2, _) \<Rightarrow>
                      (case unsolved 0 s2 of
                         Some v \<Rightarrow> (Ctor h i tys args1, 1 + m1, Inl (CCannotInfer v (Ctor h i tys args1)))
                       | None \<Rightarrow>
                           (let tys' = map the s2 in
                            case check_list ch c args1 (instCtorFields d h tys' i) of
                              (args2, m2, r) \<Rightarrow>
                                (Ctor h i tys' args2, 1 + m1 + m2,
                                 rbind r (\<lambda>_. Inr (TData h tys'))))))
             else if length tys \<noteq> n
             then (Ctor h i tys args, 0, Inl (CCtorTyArity (length tys) n))
             else (case wfsE E tys of
                     Inl e \<Rightarrow> (Ctor h i tys args, 0, Inl e)
                   | Inr _ \<Rightarrow>
                       (case check_list ch c args (instCtorFields d h tys i) of
                          (args2, m2, r) \<Rightarrow>
                            (Ctor h i tys args2, m2, rbind r (\<lambda>_. Inr (TData h tys)))))))"

fun set_tyargs :: "trm \<Rightarrow> ty list \<Rightarrow> trm" where
  "set_tyargs (Ref h ts) us = Ref h us"
| "set_tyargs (Self ts) us = Self us"
| "set_tyargs t us = t"

text \<open>
  The type whose variables \<^verbatim>\<open>tryInferApp\<close> solves, or \<^const>\<open>None\<close> when the head is not one whose
  type arguments were left out.
\<close>

definition infer_head :: "env \<Rightarrow> trm \<Rightarrow> (ty \<times> nat) option" where
  "infer_head E head =
     (case head of
        Ref h ts \<Rightarrow>
          (case getE E h of
             Inr (DFunc n t b ps) \<Rightarrow> if inferReady n ts then Some (t, n) else None
           | _ \<Rightarrow> None)
      | Self ts \<Rightarrow>
          (case eself E of
             None \<Rightarrow> None
           | Some t \<Rightarrow> if inferReady (etv E) ts then Some (t, etv E) else None)
      | _ \<Rightarrow> None)"

text \<open>Peel one parameter per argument.\<close>

fun peel :: "ty \<Rightarrow> nat \<Rightarrow> (ty list \<times> ty) option" where
  "peel t 0 = Some ([], t)"
| "peel (TFun a b) (Suc n) = map_option (\<lambda>(ps, r). (a # ps, r)) (peel b n)"
| "peel _ (Suc n) = None"

definition try_infer_app :: "synther \<Rightarrow> checker \<Rightarrow> env \<Rightarrow> ctx \<Rightarrow> trm \<Rightarrow> trm list \<Rightarrow>
    ty option \<Rightarrow> ty judged option" where
  "try_infer_app sy ch E c head args want =
     (case infer_head E head of
        None \<Rightarrow> None
      | Some (raw, n) \<Rightarrow> Some
          (case peel raw (length args) of
             None \<Rightarrow> (respine head args, 0, Inl (CTooMany head))
           | Some (params, res) \<Rightarrow>
               (let s0 = replicate n None;
                    s1 = (case want of None \<Rightarrow> s0 | Some t \<Rightarrow> fst (matchTy res t s0))
                in case infer_pass sy c args params s1 of
                    (args1, m1, s2, gots) \<Rightarrow>
                      (case unsolved 0 s2 of
                         Some v \<Rightarrow> (respine head args1, m1, Inl (CCannotInfer v head))
                       | None \<Rightarrow>
                           (let tys = map the s2; head' = set_tyargs head tys in
                            case validate_args ch c 0 args1 (map (\<lambda>p. substTy p tys) params) gots of
                              (args2, m2, r) \<Rightarrow>
                                (respine head' args2, m1 + m2,
                                 rbind r (\<lambda>_. Inr (substTy res tys))))))))"

text \<open>The rule for applications with a \<^verbatim>\<open>ref\<close> or \<^verbatim>\<open>self\<close> at their head, when it applies.\<close>

definition spine_try :: "synther \<Rightarrow> checker \<Rightarrow> env \<Rightarrow> ctx \<Rightarrow> trm \<Rightarrow> ty option \<Rightarrow> ty judged option" where
  "spine_try sy ch E c t want =
     (case spine t of (head, args) \<Rightarrow>
        if is_head head then try_infer_app sy ch E c head args want else None)"

subsection \<open>The judgements\<close>

definition refSelfTy :: "env \<Rightarrow> trm \<Rightarrow> cerr + ty" where
  "refSelfTy E t =
     (case t of
        Ref h ts \<Rightarrow>
          rbind (getE E h) (\<lambda>d. case d of
              DData _ _ \<Rightarrow> Inl (CNotTerm h)
            | DFunc n ty b ps \<Rightarrow>
                if length ts \<noteq> n then Inl (CRefArity h (length ts) n)
                else rbind (wfsE E ts) (\<lambda>_. Inr (substTy ty ts)))
      | Self ts \<Rightarrow>
          (case eself E of
             None \<Rightarrow> Inl CNoSelf
           | Some ty \<Rightarrow>
               if length ts \<noteq> etv E then Inl (CSelfArity (length ts) (etv E))
               else rbind (wfsE E ts) (\<lambda>_. Inr (substTy ty ts)))
      | _ \<Rightarrow> Inl CNoSelf)"

text \<open>\<^verbatim>\<open>==\<close>: synthesize one operand, recovering from a failure of the first, check the other.\<close>

definition synth_eq :: "synther \<Rightarrow> checker \<Rightarrow> ctx \<Rightarrow> trm \<Rightarrow> trm \<Rightarrow> ty judged" where
  "synth_eq sy ch c a b =
     (case sy c a of
        (a', n, Inr known) \<Rightarrow>
          if tyHasFun known then (Prim ''=='' [a', b], n, Inl CEqFunction)
          else (case ch c b known of
                  (b', m, r) \<Rightarrow> (Prim ''=='' [a', b'], n + m, rbind r (\<lambda>_. Inr TBool)))
      | (a', n, Inl _) \<Rightarrow>
          (case sy c b of
             (b', m, Inl _) \<Rightarrow> (Prim ''=='' [a', b'], n + m, Inl CEqUnknown)
           | (b', m, Inr known) \<Rightarrow>
               if tyHasFun known then (Prim ''=='' [a', b'], n + m, Inl CEqFunction)
               else (case ch c a' known of
                       (a2, l, r) \<Rightarrow>
                         (Prim ''=='' [a2, b'], n + m + l, rbind r (\<lambda>_. Inr TBool)))))"

definition synth_prim :: "synther \<Rightarrow> checker \<Rightarrow> env \<Rightarrow> ctx \<Rightarrow> string \<Rightarrow> trm list \<Rightarrow> ty judged" where
  "synth_prim sy ch E c op args =
     (if op = ''=='' then
        (case args of
           [a, b] \<Rightarrow> synth_eq sy ch c a b
         | _ \<Rightarrow> (Prim op args, 0, Inl (CEqArity (length args))))
      else case synth_list sy c args of
          (args', n, r) \<Rightarrow>
            (Prim op args', n, rbind r (\<lambda>ts. lift_p (primResultTy (est E) op ts))))"

fun field_ty :: "string list \<Rightarrow> ty list \<Rightarrow> string \<Rightarrow> ty option" where
  "field_ty (n # ns) (t # ts) f = (if n = f then Some t else field_ty ns ts f)"
| "field_ty _ _ f = None"

text \<open>The scrutinee's data type, and the field types of each arm.\<close>

definition match_data :: "env \<Rightarrow> hash \<Rightarrow> nat \<Rightarrow> ty \<Rightarrow> cerr + (ty list list)" where
  "match_data E h arms st =
     (case st of
        TData g ts \<Rightarrow>
          if h \<noteq> '''' \<and> h \<noteq> g then Inl CWrongData
          else rbind (getE E g) (\<lambda>d.
            if arms \<noteq> length (ctors_of d) then Inl (CArmCount arms (length (ctors_of d)))
            else Inr (map (instCtorFields d g ts) [0..<arms]))
      | _ \<Rightarrow> Inl (CNotData st))"

text \<open>The arms in turn; the first one's type is the candidate the others must agree with.\<close>

fun synth_arms :: "synther \<Rightarrow> ctx \<Rightarrow> ty option \<Rightarrow> trm list \<Rightarrow> ty list list \<Rightarrow>
    trm list \<times> nat \<times> (cerr + ty)" where
  "synth_arms sy c res (a # as) (fs # fss) =
     (case sy (pushAll c fs) a of
        (a', n, Inl e) \<Rightarrow> (a' # as, n, Inl e)
      | (a', n, Inr t) \<Rightarrow>
          (case res of
             None \<Rightarrow> (case synth_arms sy c (Some t) as fss of (as', m, r) \<Rightarrow> (a' # as', n + m, r))
           | Some u \<Rightarrow>
               if tyEq u t
               then (case synth_arms sy c (Some u) as fss of (as', m, r) \<Rightarrow> (a' # as', n + m, r))
               else (a' # as, n, Inl (CArms u t))))"
| "synth_arms sy c res as _ =
     (as, 0, case res of None \<Rightarrow> Inl CNoArms | Some t \<Rightarrow> Inr t)"

fun check_arms :: "checker \<Rightarrow> ctx \<Rightarrow> ty \<Rightarrow> trm list \<Rightarrow> ty list list \<Rightarrow>
    trm list \<times> nat \<times> (cerr + unit)" where
  "check_arms ch c want (a # as) (fs # fss) =
     (case ch (pushAll c fs) a want of
        (a', n, Inl e) \<Rightarrow> (a' # as, n, Inl e)
      | (a', n, Inr _) \<Rightarrow>
          (case check_arms ch c want as fss of (as', m, r) \<Rightarrow> (a' # as', n + m, r)))"
| "check_arms ch c want as _ = (as, 0, Inr ())"

fun synth_body :: "synther \<Rightarrow> checker \<Rightarrow> env \<Rightarrow> ctx \<Rightarrow> trm \<Rightarrow> ty judged" where
  "synth_body sy ch E c (Var i) =
     (Var i, 0, if length c \<le> i then Inl (CVarScope i) else Inr (c ! i))"
| "synth_body sy ch E c (IntL v) = (IntL v, 0, Inr TInt)"
| "synth_body sy ch E c (RatL r) = (RatL r, 0, Inr TRat)"
| "synth_body sy ch E c (FloatL f) = (FloatL f, 0, Inr TFloat)"
| "synth_body sy ch E c (BoolL b) = (BoolL b, 0, Inr TBool)"
| "synth_body sy ch E c (Record ns as) =
     (if length ns \<noteq> length as then (Record ns as, 0, Inl CRecordSync)
      else case synth_fields sy c None ns as of
          (as', n, r) \<Rightarrow> (Record ns as', n, rbind r (\<lambda>ts. Inr (TRecord ns ts))))"
| "synth_body sy ch E c (Field a f) =
     (case sy c a of
        (a', n, r) \<Rightarrow>
          (Field a' f, n, rbind r (\<lambda>t. case t of
               TRecord ns ts \<Rightarrow>
                 (case field_ty ns ts f of Some u \<Rightarrow> Inr u | None \<Rightarrow> Inl (CNoField t f))
             | _ \<Rightarrow> Inl (CNonRecord t))))"
| "synth_body sy ch E c (Lam t b) =
     (case wfE E t of
        Inl e \<Rightarrow> (Lam t b, 0, Inl e)
      | Inr _ \<Rightarrow>
          (case sy (pushCtx c t) b of
             (b', n, r) \<Rightarrow> (Lam t b', n, rbind r (\<lambda>u. Inr (TFun t u)))))"
| "synth_body sy ch E c (App f a) =
     (case spine_try sy ch E c (App f a) None of
        Some j \<Rightarrow> j
      | None \<Rightarrow>
          (case sy c f of
             (f', n, Inl e) \<Rightarrow> (App f' a, n, Inl e)
           | (f', n, Inr (TFun p q)) \<Rightarrow>
               (case sy c a of
                  (a', m, r) \<Rightarrow>
                    (App f' a', n + m,
                     rbind r (\<lambda>t. if tyEq t p then Inr q else Inl (CArgMismatch p t))))
           | (f', n, Inr t) \<Rightarrow> (App f' a, n, Inl (CNonFunction t))))"
| "synth_body sy ch E c (Let t a b) =
     (case wfE E t of
        Inl e \<Rightarrow> (Let t a b, 0, Inl e)
      | Inr _ \<Rightarrow>
          (case sy c a of
             (a', n, Inl e) \<Rightarrow> (Let t a' b, n, Inl e)
           | (a', n, Inr u) \<Rightarrow>
               if tyEq u t
               then (case sy (pushCtx c t) b of (b', m, r) \<Rightarrow> (Let t a' b', n + m, r))
               else (Let t a' b, n, Inl (CLetMismatch t u))))"
| "synth_body sy ch E c (If a b d) =
     (case sy c a of
        (a', n, Inl e) \<Rightarrow> (If a' b d, n, Inl e)
      | (a', n, Inr t) \<Rightarrow>
          if t \<noteq> TBool then (If a' b d, n, Inl (CCondNotBool t))
          else (case sy c b of
                  (b', m, Inl e) \<Rightarrow> (If a' b' d, n + m, Inl e)
                | (b', m, Inr tb) \<Rightarrow>
                    (case sy c d of
                       (d', l, r) \<Rightarrow>
                         (If a' b' d', n + m + l,
                          rbind r (\<lambda>td. if tyEq tb td then Inr tb else Inl (CBranches tb td))))))"
| "synth_body sy ch E c (Prim op as) = synth_prim sy ch E c op as"
| "synth_body sy ch E c (Ref h ts) = (Ref h ts, 0, refSelfTy E (Ref h ts))"
| "synth_body sy ch E c (Self ts) = (Self ts, 0, refSelfTy E (Self ts))"
| "synth_body sy ch E c (Ctor h i ts as) = synth_ctor sy ch E c h i ts as None"
| "synth_body sy ch E c (Match h a arms) =
     (case sy c a of
        (a', n, Inl e) \<Rightarrow> (Match h a' arms, n, Inl e)
      | (a', n, Inr t) \<Rightarrow>
          (case match_data E h (length arms) t of
             Inl e \<Rightarrow> (Match h a' arms, n, Inl e)
           | Inr fss \<Rightarrow>
               (case synth_arms sy c None arms fss of
                  (arms', m, r) \<Rightarrow> (Match h a' arms', n + m, r))))"

text \<open>\<^verbatim>\<open>check\<close>'s default: synthesize, then compare.\<close>

definition compare_to :: "ty \<Rightarrow> ty judged \<Rightarrow> unit judged" where
  "compare_to want j =
     (case j of (t', n, r) \<Rightarrow>
        (t', n, rbind r (\<lambda>t. if tyEq t want then Inr () else Inl (CExpected want t))))"

fun check_body :: "synther \<Rightarrow> checker \<Rightarrow> env \<Rightarrow> ctx \<Rightarrow> trm \<Rightarrow> ty \<Rightarrow> unit judged" where
  "check_body sy ch E c (Ctor h i ts as) want =
     compare_to want (synth_ctor sy ch E c h i ts as (Some want))"
| "check_body sy ch E c (Lam t b) want =
     (case want of
        TFun p q \<Rightarrow>
          (case wfE E t of
             Inl e \<Rightarrow> (Lam t b, 0, Inl e)
           | Inr _ \<Rightarrow>
               if tyEq t p
               then (case ch (pushCtx c t) b q of (b', n, r) \<Rightarrow> (Lam t b', n, r))
               else (Lam t b, 0, Inl (CLamParam t p)))
      | _ \<Rightarrow> compare_to want (sy c (Lam t b)))"
| "check_body sy ch E c (If a b d) want =
     (case sy c a of
        (a', n, Inl e) \<Rightarrow> (If a' b d, n, Inl e)
      | (a', n, Inr t) \<Rightarrow>
          if t \<noteq> TBool then (If a' b d, n, Inl (CCondNotBool t))
          else (case ch c b want of
                  (b', m, Inl e) \<Rightarrow> (If a' b' d, n + m, Inl e)
                | (b', m, Inr _) \<Rightarrow>
                    (case ch c d want of (d', l, r) \<Rightarrow> (If a' b' d', n + m + l, r))))"
| "check_body sy ch E c (Let t a b) want =
     (case wfE E t of
        Inl e \<Rightarrow> (Let t a b, 0, Inl e)
      | Inr _ \<Rightarrow>
          (case ch c a t of
             (a', n, Inl e) \<Rightarrow> (Let t a' b, n, Inl e)
           | (a', n, Inr _) \<Rightarrow>
               (case ch (pushCtx c t) b want of (b', m, r) \<Rightarrow> (Let t a' b', n + m, r))))"
| "check_body sy ch E c (Match h a arms) want =
     (case sy c a of
        (a', n, Inl e) \<Rightarrow> (Match h a' arms, n, Inl e)
      | (a', n, Inr t) \<Rightarrow>
          (case match_data E h (length arms) t of
             Inl e \<Rightarrow> (Match h a' arms, n, Inl e)
           | Inr fss \<Rightarrow>
               (case check_arms ch c want arms fss of
                  (arms', m, r) \<Rightarrow> (Match h a' arms', n + m, r))))"
| "check_body sy ch E c (App f a) want =
     (case spine_try sy ch E c (App f a) (Some want) of
        Some j \<Rightarrow> compare_to want j
      | None \<Rightarrow> compare_to want (sy c (App f a)))"
| "check_body sy ch E c t want = compare_to want (sy c t)"

fun synth :: "nat \<Rightarrow> env \<Rightarrow> ctx \<Rightarrow> trm \<Rightarrow> ty judged"
  and check :: "nat \<Rightarrow> env \<Rightarrow> ctx \<Rightarrow> trm \<Rightarrow> ty \<Rightarrow> unit judged" where
  "synth 0 E c t = (t, 0, Inl CFuel)"
| "synth (Suc k) E c t = synth_body (synth k E) (check k E) E c t"
| "check 0 E c t want = (t, 0, Inl CFuel)"
| "check (Suc k) E c t want = check_body (synth k E) (check k E) E c t want"

end
