(* ===== verification/CheckerProps.thy ===== *)
theory CheckerProps
  imports Checker
begin

text \<open>
  What holds of every judgement of \<open>Checker\<close>: it changes the term only by filling in type
  arguments that were left out, its fuel can be chosen from the height of the term, and with
  that fuel the judgements satisfy the equations of the source without any fuel.
\<close>

subsection \<open>Only omitted type arguments are filled in\<close>

definition filled :: "ty list \<Rightarrow> ty list \<Rightarrow> bool" where
  "filled ts us \<longleftrightarrow> ts = [] \<or> us = ts"

lemma filled_refl [simp]: "filled ts ts"
  by (simp add: filled_def)

fun fills :: "trm \<Rightarrow> trm \<Rightarrow> bool" where
  "fills (Lam t b) u = (\<exists>b'. u = Lam t b' \<and> fills b b')"
| "fills (App f a) u = (\<exists>f' a'. u = App f' a' \<and> fills f f' \<and> fills a a')"
| "fills (Let t a b) u = (\<exists>a' b'. u = Let t a' b' \<and> fills a a' \<and> fills b b')"
| "fills (If a b c) u = (\<exists>a' b' c'. u = If a' b' c' \<and> fills a a' \<and> fills b b' \<and> fills c c')"
| "fills (Prim op as) u = (\<exists>bs. u = Prim op bs \<and> list_all2 fills as bs)"
| "fills (Ref h ts) u = (\<exists>us. u = Ref h us \<and> filled ts us)"
| "fills (Self ts) u = (\<exists>us. u = Self us \<and> filled ts us)"
| "fills (Ctor h i ts as) u =
     (\<exists>us bs. u = Ctor h i us bs \<and> filled ts us \<and> list_all2 fills as bs)"
| "fills (Match h a arms) u =
     (\<exists>a' brms. u = Match h a' brms \<and> fills a a' \<and> list_all2 fills arms brms)"
| "fills (Record ns as) u = (\<exists>bs. u = Record ns bs \<and> list_all2 fills as bs)"
| "fills (Field a f) u = (\<exists>a'. u = Field a' f \<and> fills a a')"
| "fills t u = (u = t)"

lemma fills_refl [simp, intro]: "fills t t"
  by (induction t) (auto simp: list_all2_same)

lemma list_all2_fills_refl [simp, intro]: "list_all2 fills ts ts"
  by (simp add: list_all2_same)

lemma filled_trans: "filled ts us \<Longrightarrow> filled us vs \<Longrightarrow> filled ts vs"
  by (auto simp: filled_def)

lemma list_all2_trans_set:
  "(\<And>x y z. x \<in> set xs \<Longrightarrow> P x y \<Longrightarrow> P y z \<Longrightarrow> P x z) \<Longrightarrow>
   list_all2 P xs ys \<Longrightarrow> list_all2 P ys zs \<Longrightarrow> list_all2 P xs zs"
proof (induction xs arbitrary: ys zs)
  case (Cons x xs)
  then show ?case by (auto simp: list_all2_Cons1 list_all2_Cons2)
qed simp

lemma fills_trans: "fills t u \<Longrightarrow> fills u v \<Longrightarrow> fills t v"
proof (induction t arbitrary: u v)
  case (Prim op as)
  have "list_all2 fills as bs \<Longrightarrow> list_all2 fills bs cs \<Longrightarrow> list_all2 fills as cs" for bs cs
    by (rule list_all2_trans_set [OF Prim.IH])
  with Prim.prems show ?case by auto
next
  case (Ctor h i ts as)
  have "list_all2 fills as bs \<Longrightarrow> list_all2 fills bs cs \<Longrightarrow> list_all2 fills as cs" for bs cs
    by (rule list_all2_trans_set [OF Ctor.IH])
  with Ctor.prems show ?case by (auto simp: filled_def)
next
  case (Match h a arms)
  have "list_all2 fills arms bs \<Longrightarrow> list_all2 fills bs cs \<Longrightarrow> list_all2 fills arms cs" for bs cs
    by (rule list_all2_trans_set [OF Match.IH(2)])
  with Match.prems Match.IH(1) show ?case by auto
next
  case (Record ns as)
  have "list_all2 fills as bs \<Longrightarrow> list_all2 fills bs cs \<Longrightarrow> list_all2 fills as cs" for bs cs
    by (rule list_all2_trans_set [OF Record.IH])
  with Record.prems show ?case by auto
qed (fastforce intro: filled_trans)+

lemma list_all2_fills_trans:
  "list_all2 fills ts us \<Longrightarrow> list_all2 fills us vs \<Longrightarrow> list_all2 fills ts vs"
  by (rule list_all2_trans [OF fills_trans])

subsection \<open>Height\<close>

fun height :: "trm \<Rightarrow> nat" where
  "height (Lam t b) = Suc (height b)"
| "height (App f a) = Suc (max (height f) (height a))"
| "height (Let t a b) = Suc (max (height a) (height b))"
| "height (If a b c) = Suc (max (height a) (max (height b) (height c)))"
| "height (Prim op as) = Suc (fold max (map height as) 0)"
| "height (Ctor h i ts as) = Suc (fold max (map height as) 0)"
| "height (Match h a arms) = Suc (fold max (map height arms) (height a))"
| "height (Record ns as) = Suc (fold max (map height as) 0)"
| "height (Field a f) = Suc (height a)"
| "height _ = 1"

lemma height_pos [simp]: "0 < height t"
  by (cases t) simp_all

lemma height_not_0 [simp]: "height t \<noteq> 0"
  by (cases t) simp_all

lemma fold_max_le_iff: "fold max xs (n::nat) \<le> m \<longleftrightarrow> n \<le> m \<and> (\<forall>x \<in> set xs. x \<le> m)"
  by (induction xs arbitrary: n) auto

lemma fold_max_arg: "a \<in> set as \<Longrightarrow> height a \<le> fold max (map height as) n"
  using fold_max_le_iff [of "map height as" n "fold max (map height as) n"] by auto

lemma fold_max_init: "n \<le> fold max (map height as) n"
  using fold_max_le_iff [of "map height as" n "fold max (map height as) n"] by auto

lemma map_height_fills:
  assumes "\<And>a u. a \<in> set as \<Longrightarrow> fills a u \<Longrightarrow> height a = height u" and "list_all2 fills as bs"
  shows "map height as = map height bs"
  using assms(2,1)
proof (induction as bs rule: list_all2_induct)
  case Nil
  then show ?case by simp
next
  case (Cons a as b bs)
  have "map height as = map height bs" by (rule Cons.IH) (rule Cons.prems, simp_all)
  moreover have "height a = height b" using Cons.hyps(1) by (intro Cons.prems) simp_all
  ultimately show ?case by simp
qed

lemma fills_height: "fills t u \<Longrightarrow> height t = height u"
proof (induction t arbitrary: u)
  case (Prim op as)
  from Prim.prems obtain bs where "u = Prim op bs" "list_all2 fills as bs" by auto
  then have "map height as = map height bs"
    by (intro map_height_fills Prim.IH)
  with \<open>u = _\<close> show ?case by simp
next
  case (Ctor h i ts as)
  from Ctor.prems obtain us bs where "u = Ctor h i us bs" "list_all2 fills as bs" by auto
  then have "map height as = map height bs"
    by (intro map_height_fills Ctor.IH)
  with \<open>u = _\<close> show ?case by simp
next
  case (Match h a arms)
  from Match.prems obtain a' bs where "u = Match h a' bs" "list_all2 fills arms bs" "fills a a'"
    by auto
  then have "map height arms = map height bs" "height a = height a'"
    by (auto intro: map_height_fills Match.IH)
  with \<open>u = _\<close> show ?case by simp
next
  case (Record ns as)
  from Record.prems obtain bs where "u = Record ns bs" "list_all2 fills as bs" by auto
  then have "map height as = map height bs"
    by (intro map_height_fills Record.IH)
  with \<open>u = _\<close> show ?case by simp
qed auto

lemma fills_list_height: "list_all2 fills as bs \<Longrightarrow> map height as = map height bs"
  by (rule map_height_fills) (rule fills_height)

subsection \<open>Every judgement only fills\<close>

definition fills_sy :: "synther \<Rightarrow> bool" where
  "fills_sy sy \<longleftrightarrow> (\<forall>c t. fills t (fst (sy c t)))"

definition fills_ch :: "checker \<Rightarrow> bool" where
  "fills_ch ch \<longleftrightarrow> (\<forall>c t want. fills t (fst (ch c t want)))"

lemma fills_syD: "fills_sy sy \<Longrightarrow> sy c t = (t', n, r) \<Longrightarrow> fills t t'"
  by (metis fills_sy_def fst_conv)

lemma fills_chD: "fills_ch ch \<Longrightarrow> ch c t want = (t', n, r) \<Longrightarrow> fills t t'"
  by (metis fills_ch_def fst_conv)

lemma synth_list_fills: "fills_sy sy \<Longrightarrow> list_all2 fills as (fst (synth_list sy c as))"
  by (induction as) (auto split: prod.splits sum.splits dest: fills_syD)

lemma synth_fields_fills:
  "fills_sy sy \<Longrightarrow> list_all2 fills as (fst (synth_fields sy c prev ns as))"
  by (induction sy c prev ns as rule: synth_fields.induct)
    (auto split: prod.splits sum.splits dest: fills_syD)

lemma infer_pass_fills: "fills_sy sy \<Longrightarrow> list_all2 fills as (fst (infer_pass sy c as ps s))"
  by (induction sy c as ps s rule: infer_pass.induct)
    (auto split: prod.splits sum.splits dest: fills_syD)

lemma check_list_fills: "fills_ch ch \<Longrightarrow> list_all2 fills as (fst (check_list ch c as ts))"
  by (induction ch c as ts rule: check_list.induct)
    (auto split: prod.splits sum.splits dest: fills_chD)

lemma validate_args_fills:
  "fills_ch ch \<Longrightarrow> list_all2 fills as (fst (validate_args ch c i as ps gots))"
  by (induction ch c i as ps gots rule: validate_args.induct)
    (auto split: prod.splits sum.splits option.splits dest: fills_chD)

lemma synth_arms_fills: "fills_sy sy \<Longrightarrow> list_all2 fills as (fst (synth_arms sy c res as fss))"
  by (induction sy c res as fss rule: synth_arms.induct)
    (auto split: prod.splits sum.splits option.splits dest: fills_syD)

lemma check_arms_fills: "fills_ch ch \<Longrightarrow> list_all2 fills as (fst (check_arms ch c want as fss))"
  by (induction ch c want as fss rule: check_arms.induct)
    (auto split: prod.splits sum.splits dest: fills_chD)

lemma filled_Nil: "inferReady n ts \<Longrightarrow> filled ts us"
  by (simp add: inferReady_def filled_def)

lemma synth_ctor_fills:
  assumes sy: "fills_sy sy" and ch: "fills_ch ch"
  shows "fills (Ctor h i ts as) (fst (synth_ctor sy ch E c h i ts as want))"
proof -
  have inf: "list_all2 fills as bs" if "infer_pass sy c as ps s = (bs, q)" for ps s bs q
    using infer_pass_fills [OF sy, of as c ps s] that by simp
  have chk: "list_all2 fills bs ds" if "check_list ch c bs us = (ds, q)" for us bs ds q
    using check_list_fills [OF ch, of bs c us] that by simp
  show ?thesis
    unfolding synth_ctor_def Let_def
    by (auto simp: filled_Nil split: prod.split sum.split def.split option.split
        intro: inf chk list_all2_fills_trans [OF inf chk])
qed

lemma respine_fills:
  "fills h h' \<Longrightarrow> list_all2 fills as bs \<Longrightarrow> fills (respine h as) (respine h' bs)"
proof (induction as arbitrary: h h' bs)
  case (Cons a as)
  then obtain b bs' where "bs = b # bs'" "fills a b" "list_all2 fills as bs'"
    by (auto simp: list_all2_Cons1)
  with Cons.IH [of "App h a" "App h' b" bs'] Cons.prems(1) show ?case
    by (simp add: respine_def)
qed (simp add: respine_def)

lemma set_tyargs_fills: "infer_head E h = Some (raw, n) \<Longrightarrow> fills h (set_tyargs h us)"
  by (cases h) (auto simp: infer_head_def filled_Nil split: sum.splits def.splits option.splits if_splits)

lemma try_infer_app_fills:
  assumes sy: "fills_sy sy" and ch: "fills_ch ch"
    and j: "try_infer_app sy ch E c h as want = Some j"
  shows "fills (respine h as) (fst j)"
proof -
  have inf: "list_all2 fills as bs" if "infer_pass sy c as ps s = (bs, q)" for ps s bs q
    using infer_pass_fills [OF sy, of as c ps s] that by simp
  have val: "list_all2 fills bs ds" if "validate_args ch c i bs ps us = (ds, q)" for i ps us bs ds q
    using validate_args_fills [OF ch, of bs c i ps us] that by simp
  show ?thesis
    using j unfolding try_infer_app_def Let_def
    by (auto split: prod.splits sum.splits option.splits
        intro!: respine_fills intro: inf list_all2_fills_trans [OF inf val] set_tyargs_fills)
qed

lemma spine_try_fills:
  assumes "fills_sy sy" "fills_ch ch" "spine_try sy ch E c t want = Some j"
  shows "fills t (fst j)"
proof -
  obtain h as where h: "spine t = (h, as)" by fastforce
  then have "try_infer_app sy ch E c h as want = Some j"
    using assms(3) by (auto simp: spine_try_def split: if_splits)
  then show ?thesis
    using try_infer_app_fills [OF assms(1,2)] spine_respine [OF h] by metis
qed

lemma fills_intros:
  "fills a a' \<Longrightarrow> fills b b' \<Longrightarrow> fills (Let t a b) (Let t a' b')"
  "fills a a' \<Longrightarrow> fills b b' \<Longrightarrow> fills d d' \<Longrightarrow> fills (If a b d) (If a' b' d')"
  "fills a a' \<Longrightarrow> fills (Lam t a) (Lam t a')"
  by auto

lemma synth_eq_fills:
  assumes sy: "fills_sy sy" and ch: "fills_ch ch"
  shows "fills (Prim ''=='' [a, b]) (fst (synth_eq sy ch c a b))"
  using fills_syD [OF sy] fills_chD [OF ch] fills_trans [OF fills_syD [OF sy] fills_chD [OF ch]]
  unfolding synth_eq_def by (auto split: prod.split sum.split)

lemma synth_prim_fills:
  assumes sy: "fills_sy sy" and ch: "fills_ch ch"
  shows "fills (Prim op as) (fst (synth_prim sy ch E c op as))"
proof (cases "op = ''==''")
  case True
  then show ?thesis
    using synth_eq_fills [OF sy ch]
    by (cases as rule: remdups_adj.cases)
      (auto simp: synth_prim_def split: list.split)
next
  case False
  then show ?thesis
    using synth_list_fills [OF sy, of as c] by (auto simp: synth_prim_def split: prod.split)
qed

lemma compare_to_fst: "fst (compare_to want j) = fst j"
  by (simp add: compare_to_def split: prod.split)

lemma synth_body_fills:
  assumes sy: "fills_sy sy" and ch: "fills_ch ch"
  shows "fills t (fst (synth_body sy ch E c t))"
proof (cases t)
  case (Record ns as)
  then show ?thesis
    using synth_fields_fills [OF sy, of as c None ns] by (auto split: prod.split)
next
  case (App f a)
  show ?thesis
  proof (cases "spine_try sy ch E c t None")
    case None
    then show ?thesis
      using fills_syD [OF sy] App by (auto split: prod.split sum.split ty.split)
  next
    case (Some j)
    then show ?thesis
      using spine_try_fills [OF sy ch Some] App by simp
  qed
next
  case (Match h a arms)
  then show ?thesis
    using synth_arms_fills [OF sy, of arms c None] fills_syD [OF sy]
    by (auto split: prod.split sum.split) (metis fst_conv)
next
  case (Prim op as)
  then show ?thesis using synth_prim_fills [OF sy ch] by simp
next
  case (Ctor h i ts as)
  then show ?thesis using synth_ctor_fills [OF sy ch, of h i ts as E c None] by (simp del: fills.simps)
qed (use fills_syD [OF sy] in \<open>auto split: prod.split sum.split\<close>)

lemma check_body_fills:
  assumes sy: "fills_sy sy" and ch: "fills_ch ch"
  shows "fills t (fst (check_body sy ch E c t want))"
proof (cases t)
  case (App f a)
  show ?thesis
  proof (cases "spine_try sy ch E c t (Some want)")
    case None
    then show ?thesis
      using sy App by (simp add: compare_to_fst fills_sy_def)
  next
    case (Some j)
    then show ?thesis
      using spine_try_fills [OF sy ch Some] App by (simp add: compare_to_fst)
  qed
next
  case (Match h a arms)
  then show ?thesis
    using check_arms_fills [OF ch, of arms c want] fills_syD [OF sy]
    by (auto split: prod.split sum.split) (metis fst_conv)
next
  case (Ctor h i ts as)
  then show ?thesis
    using synth_ctor_fills [OF sy ch, of h i ts as E c "Some want"]
    by (simp del: fills.simps add: compare_to_fst)
next
  case (Lam p b)
  then show ?thesis
    using sy fills_chD [OF ch]
    by (auto simp: compare_to_fst fills_sy_def split: ty.split prod.split sum.split simp del: fills.simps)
      (auto)
qed (use sy fills_syD [OF sy] fills_chD [OF ch] in
    \<open>auto simp: compare_to_fst fills_sy_def split: prod.split sum.split intro: fills_intros
      simp del: fills.simps\<close>)

lemma judgement_fills: "fills_sy (synth k E) \<and> fills_ch (check k E)"
proof (induction k)
  case 0
  then show ?case by (simp add: fills_sy_def fills_ch_def)
next
  case (Suc k)
  then show ?case
    using synth_body_fills [of "synth k E" "check k E"] check_body_fills [of "synth k E" "check k E"]
    by (simp add: fills_sy_def fills_ch_def)
qed

lemma synth_fills: "synth k E c t = (t', n, r) \<Longrightarrow> fills t t'"
  using judgement_fills fills_syD by blast

lemma check_fills: "check k E c t want = (t', n, r) \<Longrightarrow> fills t t'"
  using judgement_fills fills_chD by blast

subsection \<open>The judgements on smaller terms determine the judgement\<close>

definition agree_sy :: "nat \<Rightarrow> synther \<Rightarrow> synther \<Rightarrow> bool" where
  "agree_sy n sy sy' \<longleftrightarrow> (\<forall>c u. height u < n \<longrightarrow> sy c u = sy' c u)"

definition agree_ch :: "nat \<Rightarrow> checker \<Rightarrow> checker \<Rightarrow> bool" where
  "agree_ch n ch ch' \<longleftrightarrow> (\<forall>c u want. height u < n \<longrightarrow> ch c u want = ch' c u want)"

definition lower :: "nat \<Rightarrow> trm list \<Rightarrow> bool" where
  "lower n as \<longleftrightarrow> (\<forall>a \<in> set as. height a < n)"

lemma lower_Cons [simp]: "lower n (a # as) \<longleftrightarrow> height a < n \<and> lower n as"
  by (simp add: lower_def)

lemma lower_Nil [simp]: "lower n []"
  by (simp add: lower_def)

lemma lower_fills: "list_all2 fills as bs \<Longrightarrow> lower n bs \<longleftrightarrow> lower n as"
proof -
  assume "list_all2 fills as bs"
  then have "set (map height as) = set (map height bs)" by (simp only: fills_list_height)
  moreover have "lower n xs \<longleftrightarrow> set (map height xs) \<subseteq> {..<n}" for xs
    by (auto simp: lower_def)
  ultimately show ?thesis by (simp only:)
qed

lemma agree_syD: "agree_sy n sy sy' \<Longrightarrow> height u < n \<Longrightarrow> sy c u = sy' c u"
  by (simp add: agree_sy_def)

lemma agree_chD: "agree_ch n ch ch' \<Longrightarrow> height u < n \<Longrightarrow> ch c u want = ch' c u want"
  by (simp add: agree_ch_def)

lemma synth_list_agree:
  "agree_sy n sy sy' \<Longrightarrow> lower n as \<Longrightarrow> synth_list sy c as = synth_list sy' c as"
  by (induction as) (simp_all add: agree_syD)

lemma synth_fields_agree:
  "agree_sy n sy sy' \<Longrightarrow> lower n as \<Longrightarrow>
   synth_fields sy c prev ns as = synth_fields sy' c prev ns as"
  by (induction sy c prev ns as rule: synth_fields.induct)
    (auto simp: agree_syD split: prod.split sum.split)

lemma infer_pass_agree:
  "agree_sy n sy sy' \<Longrightarrow> lower n as \<Longrightarrow> infer_pass sy c as ps s = infer_pass sy' c as ps s"
  by (induction sy c as ps s rule: infer_pass.induct)
    (auto simp: agree_syD split: prod.split sum.split)

lemma check_list_agree:
  "agree_ch n ch ch' \<Longrightarrow> lower n as \<Longrightarrow> check_list ch c as ts = check_list ch' c as ts"
  by (induction ch c as ts rule: check_list.induct)
    (auto simp: agree_chD split: prod.split sum.split)

lemma validate_args_agree:
  "agree_ch n ch ch' \<Longrightarrow> lower n as \<Longrightarrow>
   validate_args ch c i as ps gots = validate_args ch' c i as ps gots"
  by (induction ch c i as ps gots rule: validate_args.induct)
    (auto simp: agree_chD split: prod.split sum.split option.split)

lemma synth_arms_agree:
  "agree_sy n sy sy' \<Longrightarrow> lower n as \<Longrightarrow> synth_arms sy c res as fss = synth_arms sy' c res as fss"
  by (induction sy c res as fss rule: synth_arms.induct)
    (auto simp: agree_syD split: prod.split sum.split option.split)

lemma check_arms_agree:
  "agree_ch n ch ch' \<Longrightarrow> lower n as \<Longrightarrow> check_arms ch c want as fss = check_arms ch' c want as fss"
  by (induction ch c want as fss rule: check_arms.induct)
    (auto simp: agree_chD split: prod.split sum.split)

lemma infer_pass_lower:
  "fills_sy sy \<Longrightarrow> lower n as \<Longrightarrow> infer_pass sy c as ps s = (bs, q) \<Longrightarrow> lower n bs"
  using infer_pass_fills [of sy as c ps s] lower_fills by fastforce

lemma synth_ctor_agree:
  assumes sy: "agree_sy n sy sy'" and ch: "agree_ch n ch ch'" and low: "lower n as"
    and f: "fills_sy sy'"
  shows "synth_ctor sy ch E c h i ts as want = synth_ctor sy' ch' E c h i ts as want"
proof -
  have 1: "infer_pass sy c as ps s = infer_pass sy' c as ps s" for ps s
    by (rule infer_pass_agree [OF sy low])
  have 2: "check_list ch c as us = check_list ch' c as us" for us
    by (rule check_list_agree [OF ch low])
  have 3: "check_list ch c bs us = check_list ch' c bs us"
    if "infer_pass sy' c as ps s = (bs, q)" for ps s bs us q
    by (rule check_list_agree [OF ch infer_pass_lower [OF f low that]])
  show ?thesis
    unfolding synth_ctor_def Let_def 1 2
    by (auto simp: 3 split: prod.split sum.split def.split option.split)
qed

lemma try_infer_app_agree:
  assumes sy: "agree_sy n sy sy'" and ch: "agree_ch n ch ch'" and low: "lower n as"
    and f: "fills_sy sy'"
  shows "try_infer_app sy ch E c h as want = try_infer_app sy' ch' E c h as want"
proof -
  have 1: "infer_pass sy c as ps s = infer_pass sy' c as ps s" for ps s
    by (rule infer_pass_agree [OF sy low])
  have 3: "validate_args ch c j bs us gs = validate_args ch' c j bs us gs"
    if "infer_pass sy' c as ps s = (bs, q)" for ps s bs us q gs j
    by (rule validate_args_agree [OF ch infer_pass_lower [OF f low that]])
  show ?thesis
    unfolding try_infer_app_def Let_def 1
    by (auto simp: 3 split: prod.split sum.split option.split)
qed

lemma spine_acc_height:
  "spine_acc t as = (h, bs) \<Longrightarrow> lower n as \<Longrightarrow> height t \<le> n \<Longrightarrow> lower n bs"
  by (induction t as rule: spine_acc.induct) auto

lemma spine_lower: "spine (App f a) = (h, bs) \<Longrightarrow> lower (height (App f a)) bs"
  using spine_acc_height [of "App f a" "[]" h bs "height (App f a)"] by (simp add: spine_def)

lemma spine_try_agree:
  assumes "agree_sy (height (App f a)) sy sy'" "agree_ch (height (App f a)) ch ch'" "fills_sy sy'"
  shows "spine_try sy ch E c (App f a) want = spine_try sy' ch' E c (App f a) want"
  using try_infer_app_agree [OF assms(1,2) spine_lower assms(3)]
  by (auto simp: spine_try_def split: prod.split)

lemma lower_args:
  "lower (height (Prim op as)) as" "lower (height (Ctor h i ts as)) as"
  "lower (height (Match h t as)) as" "lower (height (Record ns as)) as"
  using fold_max_arg by (auto simp: lower_def le_imp_less_Suc)

lemma height_scrut: "height t < height (Match h t as)"
  using fold_max_init [of "height t" as] by simp

lemma synth_eq_agree:
  assumes sy: "agree_sy n sy sy'" and ch: "agree_ch n ch ch'" and f: "fills_sy sy'"
    and low: "height a < n" "height b < n"
  shows "synth_eq sy ch c a b = synth_eq sy' ch' c a b"
proof -
  have "ch c a' t = ch' c a' t" if "sy' c a = (a', q)" for a' q t
    using fills_syD [OF f, of c a] that agree_chD [OF ch] low
    by (cases q) (auto dest!: fills_height)
  then show ?thesis
    using agree_syD [OF sy low(1)] agree_syD [OF sy low(2)] agree_chD [OF ch low(2)]
    unfolding synth_eq_def by (auto split: prod.split sum.split)
qed

lemma synth_prim_agree:
  assumes sy: "agree_sy n sy sy'" and ch: "agree_ch n ch ch'" and f: "fills_sy sy'"
    and low: "lower n as"
  shows "synth_prim sy ch E c op as = synth_prim sy' ch' E c op as"
proof -
  have "synth_eq sy ch c a b = synth_eq sy' ch' c a b" if "as = [a, b]" for a b
    using low that by (intro synth_eq_agree [OF sy ch f]) simp_all
  then show ?thesis
    unfolding synth_prim_def synth_list_agree [OF sy low] by (auto split: list.split)
qed

lemma synth_body_agree:
  assumes sy: "agree_sy (height t) sy sy'" and ch: "agree_ch (height t) ch ch'"
    and f: "fills_sy sy'"
  shows "synth_body sy ch E c t = synth_body sy' ch' E c t"
proof (cases t)
  case (App g a)
  then show ?thesis
    using spine_try_agree [of g a sy sy' ch ch' E c None] assms agree_syD [OF sy]
    by (auto split: option.split prod.split sum.split ty.split)
next
  case (Match h a arms)
  then show ?thesis
    using synth_arms_agree [OF sy] lower_args(3) height_scrut agree_syD [OF sy]
    by (auto split: prod.split sum.split simp del: height.simps)
next
  case (Prim op as)
  then show ?thesis using synth_prim_agree [OF sy ch f] lower_args(1) by simp
next
  case (Ctor h i ts as)
  then show ?thesis using synth_ctor_agree [OF sy ch _ f] lower_args(2) by simp
next
  case (Record ns as)
  then show ?thesis using synth_fields_agree [OF sy] lower_args(4) by simp
qed (use agree_syD [OF sy] in \<open>auto split: prod.split sum.split\<close>)

lemma check_body_agree:
  assumes sy: "agree_sy (Suc (height t)) sy sy'" and ch: "agree_ch (height t) ch ch'"
    and f: "fills_sy sy'"
  shows "check_body sy ch E c t want = check_body sy' ch' E c t want"
proof -
  have sy1: "agree_sy (height t) sy sy'" using sy by (simp add: agree_sy_def)
  have self: "sy c t = sy' c t" by (rule agree_syD [OF sy]) simp
  show ?thesis
  proof (cases t)
    case (App g a)
    then show ?thesis
      using spine_try_agree [of g a sy sy' ch ch' E c "Some want"] sy1 ch f self
      by (auto split: option.split)
  next
    case (Match h a arms)
    then show ?thesis
      using check_arms_agree [OF ch] lower_args(3) height_scrut agree_syD [OF sy1]
      by (auto split: prod.split sum.split simp del: height.simps)
  next
    case (Ctor h i ts as)
    then show ?thesis using synth_ctor_agree [OF sy1 ch _ f] lower_args(2) by simp
  next
    case (Lam p b)
    then show ?thesis
      using self agree_chD [OF ch] by (auto split: ty.split sum.split)
  qed (use self agree_syD [OF sy1] agree_chD [OF ch] in \<open>auto split: prod.split sum.split\<close>)
qed

subsection \<open>Enough fuel\<close>

text \<open>Two units of fuel per level of the term are enough: more changes nothing.\<close>

lemma agree_sy_join: "agree_sy n f h \<Longrightarrow> agree_sy n g h \<Longrightarrow> agree_sy n f g"
  by (simp add: agree_sy_def)

lemma agree_ch_join: "agree_ch n f h \<Longrightarrow> agree_ch n g h \<Longrightarrow> agree_ch n f g"
  by (simp add: agree_ch_def)

lemma fills_synth: "fills_sy (synth k E)"
  using judgement_fills by blast

lemma synth_stable_step:
  assumes "agree_sy (Suc n) (synth k E) (synth l E)" "agree_ch (Suc n) (check k E) (check l E)"
  shows "agree_sy (Suc (Suc n)) (synth (Suc k) E) (synth (Suc l) E)"
  unfolding agree_sy_def
proof (intro allI impI)
  fix c u
  assume "height u < Suc (Suc n)"
  then have "agree_sy (height u) (synth k E) (synth l E)" "agree_ch (height u) (check k E) (check l E)"
    using assms by (auto simp: agree_sy_def agree_ch_def)
  then show "synth (Suc k) E c u = synth (Suc l) E c u"
    by (simp add: synth_body_agree [OF _ _ fills_synth])
qed

lemma fuel_stable:
  "agree_sy (Suc n) (synth (2 * n + j) E) (synth (2 * n) E) \<and>
   agree_ch (Suc n) (check (2 * n + j) E) (check (2 * n) E)"
proof (induction n arbitrary: j)
  case 0
  show ?case by (simp add: agree_sy_def agree_ch_def)
next
  case (Suc n)
  have sy: "agree_sy (Suc n) (synth (2 * n + i) E) (synth (2 * n + i') E)" for i i'
    using Suc.IH agree_sy_join by blast
  have ch: "agree_ch (Suc n) (check (2 * n + i) E) (check (2 * n + i') E)" for i i'
    using Suc.IH agree_ch_join by blast
  have sy1: "agree_sy (Suc (Suc n)) (synth (2 * n + Suc i) E) (synth (2 * n + Suc i') E)" for i i'
    using synth_stable_step [OF sy ch, of i i'] by simp
  have "check (2 * n + Suc (Suc j)) E c u want = check (2 * n + Suc (Suc 0)) E c u want"
    if u: "height u < Suc (Suc n)" for c u want
  proof -
    have "agree_sy (Suc (height u)) (synth (2 * n + Suc j) E) (synth (2 * n + Suc 0) E)"
      using sy1 [of j 0] u by (auto simp: agree_sy_def)
    moreover have "agree_ch (height u) (check (2 * n + Suc j) E) (check (2 * n + Suc 0) E)"
      using ch [of "Suc j" "Suc 0"] u by (auto simp: agree_ch_def)
    ultimately show ?thesis by (simp add: check_body_agree [OF _ _ fills_synth])
  qed
  then have "agree_ch (Suc (Suc n)) (check (2 * Suc n + j) E) (check (2 * Suc n) E)"
    by (simp add: agree_ch_def)
  moreover have "agree_sy (Suc (Suc n)) (synth (2 * Suc n + j) E) (synth (2 * Suc n) E)"
    using sy1 [of "Suc j" "Suc 0"] by simp
  ultimately show ?case by blast
qed

text \<open>The judgements with the fuel their term needs.\<close>

definition synthT :: "env \<Rightarrow> ctx \<Rightarrow> trm \<Rightarrow> ty judged" where
  "synthT E c t = synth (2 * height t) E c t"

definition checkT :: "env \<Rightarrow> ctx \<Rightarrow> trm \<Rightarrow> ty \<Rightarrow> unit judged" where
  "checkT E c t want = check (2 * height t) E c t want"

lemma synth_fuel: "2 * height t \<le> k \<Longrightarrow> synth k E c t = synthT E c t"
  using conjunct1 [OF fuel_stable [of "height t" "k - 2 * height t" E]]
  by (simp add: agree_sy_def synthT_def)

lemma check_fuel: "2 * height t \<le> k \<Longrightarrow> check k E c t want = checkT E c t want"
  using conjunct2 [OF fuel_stable [of "height t" "k - 2 * height t" E]]
  by (simp add: agree_ch_def checkT_def)

lemma synthT_fills: "fills_sy (synthT E)"
  unfolding fills_sy_def synthT_def using fills_synth by (auto simp: fills_sy_def)

lemma checkT_fills: "fills_ch (checkT E)"
  unfolding fills_ch_def checkT_def using judgement_fills by (auto simp: fills_ch_def)

text \<open>With that fuel the judgements satisfy the equations of the source.\<close>

lemma synthT_eq: "synthT E c t = synth_body (synthT E) (checkT E) E c t"
proof -
  have "synthT E c t = synth (Suc (2 * height t)) E c t" by (simp only: synth_fuel)
  also have "\<dots> = synth_body (synthT E) (checkT E) E c t"
    unfolding synth.simps
    by (rule synth_body_agree) (auto simp: agree_sy_def agree_ch_def synth_fuel check_fuel synthT_fills)
  finally show ?thesis .
qed

lemma checkT_eq: "checkT E c t want = check_body (synthT E) (checkT E) E c t want"
proof -
  have "checkT E c t want = check (Suc (2 * height t)) E c t want" by (simp only: check_fuel)
  also have "\<dots> = check_body (synthT E) (checkT E) E c t want"
    unfolding check.simps
    by (rule check_body_agree)
      (auto simp: agree_sy_def agree_ch_def synth_fuel check_fuel synthT_fills)
  finally show ?thesis .
qed

subsection \<open>The fuel is never exhausted\<close>

definition fuelled :: "'b \<times> nat \<times> (cerr + 'a) \<Rightarrow> bool" where
  "fuelled j \<longleftrightarrow> snd (snd j) \<noteq> Inl CFuel"

definition fuel_sy :: "nat \<Rightarrow> synther \<Rightarrow> bool" where
  "fuel_sy n sy \<longleftrightarrow> (\<forall>c u. height u < n \<longrightarrow> fuelled (sy c u))"

definition fuel_ch :: "nat \<Rightarrow> checker \<Rightarrow> bool" where
  "fuel_ch n ch \<longleftrightarrow> (\<forall>c u want. height u < n \<longrightarrow> fuelled (ch c u want))"

lemma fuel_syD: "fuel_sy n sy \<Longrightarrow> height u < n \<Longrightarrow> sy c u = (u', m, r) \<Longrightarrow> r \<noteq> Inl CFuel"
  by (metis fuel_sy_def fuelled_def snd_conv)

lemma fuel_chD: "fuel_ch n ch \<Longrightarrow> height u < n \<Longrightarrow> ch c u want = (u', m, r) \<Longrightarrow> r \<noteq> Inl CFuel"
  by (metis fuel_ch_def fuelled_def snd_conv)

lemma lift_fuel [simp]: "lift_t r \<noteq> Inl CFuel" "lift_p q \<noteq> Inl CFuel"
  by (auto simp: lift_t_def lift_p_def split: sum.splits)

lemma wf_fuel [simp]: "wfE E t \<noteq> Inl CFuel" "wfsE E ts \<noteq> Inl CFuel" "getE E h \<noteq> Inl CFuel"
  by (simp_all add: wfE_def wfsE_def getE_def)

lemma rbind_fuel:
  "rbind r f \<noteq> Inl CFuel \<longleftrightarrow> r \<noteq> Inl CFuel \<and> (\<forall>x. r = Inr x \<longrightarrow> f x \<noteq> Inl CFuel)"
  by (auto simp: rbind_eq_Inl)

lemma synth_list_fuel:
  "fuel_sy n sy \<Longrightarrow> lower n as \<Longrightarrow> fuelled (synth_list sy c as)"
  by (induction as)
    (auto simp: fuelled_def rbind_eq_Inl split: prod.splits sum.splits dest: fuel_syD)

lemma synth_fields_fuel:
  assumes f: "fuel_sy n sy" and low: "lower n as"
  shows "fuelled (synth_fields sy c prev ns as)"
  using low
proof (induction as arbitrary: prev ns)
  case Nil
  then show ?case by (simp add: fuelled_def split: option.split)
next
  case (Cons a as)
  have IH: "r \<noteq> Inl CFuel" if "synth_fields sy c prev ns as = (b, m, r)" for prev ns b m r
    using Cons.IH [of prev ns] Cons.prems that by (simp add: fuelled_def)
  have head: "height a < n" using Cons.prems by simp
  show ?case
    by (cases ns)
      (auto simp: fuelled_def rbind_eq_Inl split: prod.split sum.split dest: IH fuel_syD [OF f head])
qed

lemma check_list_fuel:
  assumes f: "fuel_ch n ch" and low: "lower n as"
  shows "fuelled (check_list ch c as ts)"
  using low
proof (induction as arbitrary: ts)
  case Nil
  then show ?case by (simp add: fuelled_def split: option.split)
next
  case (Cons a as)
  have IH: "r \<noteq> Inl CFuel" if "check_list ch c as ts = (b, m, r)" for ts b m r
    using Cons.IH [of ts] Cons.prems that by (simp add: fuelled_def)
  have head: "height a < n" using Cons.prems by simp
  show ?case
    by (cases ts)
      (auto simp: fuelled_def rbind_eq_Inl split: prod.split sum.split dest: IH fuel_chD [OF f head])
qed

lemma validate_args_fuel:
  assumes f: "fuel_ch n ch" and low: "lower n as"
  shows "fuelled (validate_args ch c i as ps gots)"
  using low
proof (induction as arbitrary: i ps gots)
  case Nil
  then show ?case by (simp add: fuelled_def split: option.split)
next
  case (Cons a as)
  have IH: "r \<noteq> Inl CFuel" if "validate_args ch c i as ps gots = (b, m, r)" for i ps gots b m r
    using Cons.IH [of i ps gots] Cons.prems that by (simp add: fuelled_def)
  have head: "height a < n" using Cons.prems by simp
  show ?case
    by (cases ps; cases gots)
      (auto simp: fuelled_def rbind_eq_Inl split: prod.split sum.split option.split dest: IH fuel_chD [OF f head])
qed

lemma synth_arms_fuel:
  assumes f: "fuel_sy n sy" and low: "lower n as"
  shows "fuelled (synth_arms sy c res as fss)"
  using low
proof (induction as arbitrary: res fss)
  case Nil
  then show ?case by (simp add: fuelled_def split: option.split)
next
  case (Cons a as)
  have IH: "r \<noteq> Inl CFuel" if "synth_arms sy c res as fss = (b, m, r)" for res fss b m r
    using Cons.IH [of res fss] Cons.prems that by (simp add: fuelled_def)
  have head: "height a < n" using Cons.prems by simp
  show ?case
    by (cases fss)
      (auto simp: fuelled_def rbind_eq_Inl split: prod.split sum.split option.split dest: IH fuel_syD [OF f head])
qed

lemma check_arms_fuel:
  assumes f: "fuel_ch n ch" and low: "lower n as"
  shows "fuelled (check_arms ch c want as fss)"
  using low
proof (induction as arbitrary: fss)
  case Nil
  then show ?case by (simp add: fuelled_def split: option.split)
next
  case (Cons a as)
  have IH: "r \<noteq> Inl CFuel" if "check_arms ch c want as fss = (b, m, r)" for fss b m r
    using Cons.IH [of fss] Cons.prems that by (simp add: fuelled_def)
  have head: "height a < n" using Cons.prems by simp
  show ?case
    by (cases fss)
      (auto simp: fuelled_def rbind_eq_Inl split: prod.split sum.split dest: IH fuel_chD [OF f head])
qed

lemma synth_ctor_fuel:
  assumes ch: "fuel_ch n ch" and f: "fills_sy sy" and low: "lower n as"
  shows "fuelled (synth_ctor sy ch E c h i ts as want)"
proof -
  have chk: "r \<noteq> Inl CFuel" if "check_list ch c as us = (ds, m, r)" for us ds m r
    using check_list_fuel [OF ch low, of c us] that by (simp add: fuelled_def)
  have chk2: "r \<noteq> Inl CFuel"
    if "infer_pass sy c as ps s = (bs, q)" "check_list ch c bs us = (ds, m, r)"
    for ps s bs q us ds m r
    using check_list_fuel [OF ch infer_pass_lower [OF f low that(1)], of c us] that(2)
    by (simp add: fuelled_def)
  show ?thesis
    unfolding synth_ctor_def Let_def fuelled_def
    by (auto split: prod.split sum.split def.split option.split
        simp: rbind_eq_Inl dest: chk chk2)
qed

lemma try_infer_app_fuel:
  assumes ch: "fuel_ch n ch" and f: "fills_sy sy" and low: "lower n as"
    and j: "try_infer_app sy ch E c h as want = Some j"
  shows "fuelled j"
proof -
  have chk: "r \<noteq> Inl CFuel"
    if "infer_pass sy c as ps s = (bs, q)" "validate_args ch c i bs us gs = (ds, m, r)"
    for ps s bs q us gs ds m r i
    using validate_args_fuel [OF ch infer_pass_lower [OF f low that(1)], of c i us gs] that(2)
    by (simp add: fuelled_def)
  show ?thesis
    using j unfolding try_infer_app_def Let_def fuelled_def
    by (auto split: prod.splits sum.splits option.splits simp: rbind_eq_Inl dest: chk)
qed

lemma refSelfTy_fuel [simp]: "refSelfTy E t \<noteq> Inl CFuel"
  by (auto simp: refSelfTy_def rbind_eq_Inl split: trm.split def.splits option.split)

lemma match_data_fuel [simp]: "match_data E h n t \<noteq> Inl CFuel"
  by (auto simp: match_data_def rbind_eq_Inl split: ty.split)

lemma compare_to_fuel: "fuelled j \<Longrightarrow> fuelled (compare_to want j)"
  by (auto simp: compare_to_def fuelled_def rbind_eq_Inl split: prod.splits)

lemma spine_try_fuel:
  assumes ch: "fuel_ch (height (App f a)) ch" and f: "fills_sy sy"
    and j: "spine_try sy ch E c (App f a) want = Some j"
  shows "fuelled j"
proof -
  obtain h as where h: "spine (App f a) = (h, as)" by fastforce
  then have "try_infer_app sy ch E c h as want = Some j"
    using j by (auto simp: spine_try_def split: if_splits)
  then show ?thesis by (rule try_infer_app_fuel [OF ch f spine_lower [OF h]])
qed

lemma synth_prim_fuel:
  assumes sy: "fuel_sy n sy" and ch: "fuel_ch n ch" and f: "fills_sy sy" and low: "lower n as"
  shows "fuelled (synth_prim sy ch E c op as)"
proof (cases "op = ''==''")
  case False
  then show ?thesis
    using synth_list_fuel [OF sy low, of c]
    by (auto simp: synth_prim_def fuelled_def rbind_eq_Inl split: prod.split)
next
  case True
  have "fuelled (synth_eq sy ch c a b)" if "as = [a, b]" for a b
  proof -
    have b: "height b < n" using low that by simp
    have 1: "r \<noteq> Inl CFuel" if "ch c b t = (b', m, r)" for t b' m r
      using that by (rule fuel_chD [OF ch b])
    have 2: "r \<noteq> Inl CFuel" if "sy c a = (a', q)" "ch c a' t = (b', m, r)" for t a' q b' m r
    proof -
      have "height a' < n"
        using fills_syD [OF f, of c a a'] fills_height that(1) low \<open>as = [a, b]\<close> by (cases q) fastforce
      then show ?thesis using fuel_chD [OF ch _ that(2)] by simp
    qed
    show ?thesis
      by (auto simp: synth_eq_def fuelled_def rbind_eq_Inl split: prod.split sum.split dest: 1 2)
  qed
  then show ?thesis
    using True by (auto simp: synth_prim_def fuelled_def split: list.split)
qed

lemma synth_body_fuel:
  assumes sy: "fuel_sy (height t) sy" and ch: "fuel_ch (height t) ch" and f: "fills_sy sy"
  shows "fuelled (synth_body sy ch E c t)"
proof (cases t)
  case (App g a)
  show ?thesis
  proof (cases "spine_try sy ch E c t None")
    case None
    have "r \<noteq> Inl CFuel" if "sy c g = (u, m, r)" for u m r
      using fuel_syD [OF sy _ that] App by simp
    moreover have "r \<noteq> Inl CFuel" if "sy c a = (u, m, r)" for u m r
      using fuel_syD [OF sy _ that] App by simp
    ultimately show ?thesis
      using None App
      by (auto simp: fuelled_def rbind_eq_Inl split: prod.split sum.split ty.split)
  next
    case (Some j)
    then show ?thesis
      using spine_try_fuel [OF _ f, of g a ch E c None j] ch App by simp
  qed
next
  case (Match h a arms)
  have "r \<noteq> Inl CFuel" if "sy c a = (u, m, r)" for u m r
    using fuel_syD [OF sy _ that] Match height_scrut by simp
  moreover have "r \<noteq> Inl CFuel" if "synth_arms sy c None arms fss = (u, m, r)" for fss u m r
    using synth_arms_fuel [OF sy, of arms c None fss] that lower_args(3) Match
    by (simp add: fuelled_def)
  ultimately show ?thesis
    using Match match_data_fuel
    by (auto simp: fuelled_def split: prod.split sum.split simp del: match_data_fuel)
next
  case (Prim op as)
  then show ?thesis using synth_prim_fuel [OF sy ch f] lower_args(1) by simp
next
  case (Ctor h i ts as)
  then show ?thesis using synth_ctor_fuel [OF ch f] lower_args(2) by simp
next
  case (Record ns as)
  then show ?thesis
    using synth_fields_fuel [OF sy, of as c None ns] lower_args(4)
    by (auto simp: fuelled_def rbind_eq_Inl split: prod.split)
next
  case (Field a n)
  have "r \<noteq> Inl CFuel" if "sy c a = (u, m, r)" for u m r
    using fuel_syD [OF sy _ that] Field by simp
  then show ?thesis
    using Field by (auto simp: fuelled_def rbind_eq_Inl split: prod.split ty.split option.split)
next
  case (Lam p b)
  have "r \<noteq> Inl CFuel" if "sy c' b = (u, m, r)" for c' u m r
    using fuel_syD [OF sy _ that] Lam by simp
  then show ?thesis
    using Lam wf_fuel(1) [of E p] by (auto simp: fuelled_def rbind_eq_Inl split: prod.split sum.split)
next
  case (Let p a b)
  have "r \<noteq> Inl CFuel" if "sy c a = (u, m, r)" for u m r
    using fuel_syD [OF sy _ that] Let by simp
  moreover have "r \<noteq> Inl CFuel" if "sy c' b = (u, m, r)" for c' u m r
    using fuel_syD [OF sy _ that] Let by simp
  ultimately show ?thesis
    using Let wf_fuel(1) [of E p] by (auto simp: fuelled_def split: prod.split sum.split)
next
  case (If a b d)
  have "r \<noteq> Inl CFuel" if "sy c x = (u, m, r)" "x \<in> {a, b, d}" for x u m r
  proof -
    have "height x < height t" using that(2) If by (auto simp: less_Suc_eq_le le_max_iff_disj)
    then show ?thesis by (rule fuel_syD [OF sy _ that(1)])
  qed
  then show ?thesis
    using If by (auto simp: fuelled_def rbind_eq_Inl split: prod.split sum.split)
qed (auto simp: fuelled_def)

lemma check_body_fuel:
  assumes sy: "fuel_sy (Suc (height t)) sy" and ch: "fuel_ch (height t) ch" and f: "fills_sy sy"
  shows "fuelled (check_body sy ch E c t want)"
proof -
  have self: "fuelled (sy c t)" using sy by (simp add: fuel_sy_def)
  note cmp = compare_to_fuel [OF self]
  have sub: "r \<noteq> Inl CFuel" if "sy c x = (u, m, r)" "height x < height t" for x u m r
    using fuel_syD [OF sy _ that(1)] that(2) by simp
  have subc: "r \<noteq> Inl CFuel" if "ch c' x w = (u, m, r)" "height x < height t" for c' x w u m r
    using fuel_chD [OF ch that(2,1)] .
  show ?thesis
  proof (cases t)
    case (App g a)
    show ?thesis
    proof (cases "spine_try sy ch E c t (Some want)")
      case None
      then show ?thesis using App cmp by simp
    next
      case (Some j)
      then show ?thesis
        using spine_try_fuel [OF _ f, of g a ch E c "Some want" j] ch App compare_to_fuel by simp
    qed
  next
    case (Match h a arms)
    have "r \<noteq> Inl CFuel" if "check_arms ch c want arms fss = (u, m, r)" for fss u m r
      using check_arms_fuel [OF ch, of arms c want fss] that lower_args(3) Match
      by (simp add: fuelled_def)
    then show ?thesis
      using Match match_data_fuel sub [of a] height_scrut [of a h arms]
      by (auto simp: fuelled_def split: prod.split sum.split simp del: match_data_fuel height.simps)
  next
    case (Ctor h i ts as)
    then show ?thesis using synth_ctor_fuel [OF ch f] lower_args(2) compare_to_fuel by simp
  next
    case (Lam p b)
    then show ?thesis
      using cmp subc wf_fuel(1) [of E p]
      by (auto simp: fuelled_def split: ty.split prod.split sum.split)
  next
    case (Let p a b)
    then show ?thesis
      using subc [of c a p] subc [of "pushCtx c p" b want] wf_fuel(1) [of E p]
      by (auto simp: fuelled_def less_Suc_eq_le split: prod.split sum.split)
  next
    case (If a b d)
    then show ?thesis
      using sub [of a] subc [of c b want] subc [of c d want]
      by (auto simp: fuelled_def less_Suc_eq_le le_max_iff_disj split: prod.split sum.split)
  qed (use cmp in simp_all)
qed

lemma judgement_fuelled: "fuel_sy (Suc n) (synthT E) \<and> fuel_ch (Suc n) (checkT E)"
proof (induction n)
  case 0
  then show ?case by (simp add: fuel_sy_def fuel_ch_def)
next
  case (Suc n)
  have sy: "fuelled (synthT E c u)" if u: "height u < Suc (Suc n)" for c u
  proof -
    have "fuel_sy (height u) (synthT E)" "fuel_ch (height u) (checkT E)"
      using Suc u by (auto simp: fuel_sy_def fuel_ch_def)
    then show ?thesis
      using synth_body_fuel [OF _ _ synthT_fills] by (metis synthT_eq)
  qed
  have "fuelled (checkT E c u want)" if u: "height u < Suc (Suc n)" for c u want
  proof -
    have "fuel_sy (Suc (height u)) (synthT E)" "fuel_ch (height u) (checkT E)"
      using Suc u sy by (auto simp: fuel_sy_def fuel_ch_def)
    then show ?thesis
      using check_body_fuel [OF _ _ synthT_fills] by (metis checkT_eq)
  qed
  with sy show ?case by (simp add: fuel_sy_def fuel_ch_def)
qed

lemma synthT_fuel: "synthT E c t \<noteq> (t', n, Inl CFuel)"
  using judgement_fuelled [of "height t" E]
  by (metis fuel_sy_def fuelled_def lessI snd_conv)

lemma checkT_fuel: "checkT E c t want \<noteq> (t', n, Inl CFuel)"
  using judgement_fuelled [of "height t" E]
  by (metis fuel_ch_def fuelled_def lessI snd_conv)

end
