(* ===== verification/Machine.thy ===== *)
theory Machine
  imports CheckerProps "HOL-Library.While_Combinator"
begin

text \<open>
  The explicit checker machine of \<^verbatim>\<open>oath/check_machine.go\<close>, which is the checker production
  code runs: a judgement in focus, a stack of frames, the count of entries into inference.
  \<^verbatim>\<open>dispatch\<close> opens a judgement, a frame's \<^verbatim>\<open>resume\<close> receives the result of the child it
  waited for, \<^verbatim>\<open>run\<close> alternates the two until the stack is empty.

  A frame of the source holds a pointer to its term, the index of the child it waits for and a
  phase; here it is one constructor per phase holding the children on both sides of that
  child, since a result carries the child as the judgement left it. A result is a diagnostic
  or the type, \<^const>\<open>None\<close> for the nil type that a completed check hands back. The counter of
  pushed frames, which only tests read, is left out.
\<close>

datatype mode = Synth | Check ty

datatype frame =
    FCompare ty
  | FLam ty bool
  | FIfCond ctx trm trm "ty option"
  | FIfThen ctx trm trm "ty option"
  | FIfElse trm trm "ty option" "ty option"
  | FLetBound ctx ty trm "ty option"
  | FLetBody ty trm
  | FScrut ctx hash "trm list" "ty option"
  | FArm ctx hash trm "trm list" "trm list" "ty list list" "ty option" "ty option"
  | FPrim ctx string "trm list" "trm list" "ty list"
  | FEqLeft ctx trm
  | FEqRight ctx trm
  | FEqCompare bool trm
  | FAppFn ctx trm
  | FAppArg trm ty ty
  | FRecord ctx "string list" string "string list" "trm list" "trm list" "ty list"
  | FField string
  | FCtorInfer ctx hash nat "def" "ty list" "trm list" "trm list" ty "ty list" subst
  | FCtorValidate ctx hash nat "ty list" "trm list" "trm list" "ty list"
  | FAppInfer ctx trm "trm list" "trm list" "ty list" ty "ty list" ty subst "ty option list"
  | FAppValidate ctx trm "trm list" "trm list" "ty list" "ty option list" nat ty

type_synonym outcome = "cerr + ty option"

datatype focus = Eval mode ctx trm | Ret trm outcome

type_synonym mstate = "focus \<times> frame list \<times> nat"

text \<open>A type where a check left none is the nil type, reported like a match without arms.\<close>

definition got :: "outcome \<Rightarrow> cerr + ty" where
  "got r = (case r of Inl e \<Rightarrow> Inl e | Inr None \<Rightarrow> Inl CNoArms | Inr (Some t) \<Rightarrow> Inr t)"

definition ok_ty :: "cerr + ty \<Rightarrow> outcome" where
  "ok_ty r = (case r of Inl e \<Rightarrow> Inl e | Inr t \<Rightarrow> Inr (Some t))"

definition ok_unit :: "cerr + unit \<Rightarrow> outcome" where
  "ok_unit r = (case r of Inl e \<Rightarrow> Inl e | Inr _ \<Rightarrow> Inr None)"

definition mode_of :: "ty option \<Rightarrow> mode" where
  "mode_of w = (case w of None \<Rightarrow> Synth | Some t \<Rightarrow> Check t)"

subsection \<open>Constructors\<close>

definition beginValidation :: "ctx \<Rightarrow> hash \<Rightarrow> nat \<Rightarrow> def \<Rightarrow> ty list \<Rightarrow> trm list \<Rightarrow> frame list \<Rightarrow>
    nat \<Rightarrow> mstate" where
  "beginValidation c h i d tys args K n =
     (case (args, instCtorFields d h tys i) of
        (a # as, f # fs) \<Rightarrow> (Eval (Check f) c a, FCtorValidate c h i tys [] as fs # K, n)
      | _ \<Rightarrow> (Ret (Ctor h i tys args) (Inr (Some (TData h tys))), K, n))"

definition finishInference :: "ctx \<Rightarrow> hash \<Rightarrow> nat \<Rightarrow> def \<Rightarrow> ty list \<Rightarrow> trm list \<Rightarrow> subst \<Rightarrow>
    frame list \<Rightarrow> nat \<Rightarrow> mstate" where
  "finishInference c h i d tys args s K n =
     (case unsolved 0 s of
        Some v \<Rightarrow> (Ret (Ctor h i tys args) (Inl (CCannotInfer v (Ctor h i tys args))), K, n)
      | None \<Rightarrow> beginValidation c h i d (map the s) args K n)"

definition beginCtor :: "env \<Rightarrow> ctx \<Rightarrow> hash \<Rightarrow> nat \<Rightarrow> ty list \<Rightarrow> trm list \<Rightarrow> ty option \<Rightarrow>
    frame list \<Rightarrow> nat \<Rightarrow> mstate" where
  "beginCtor E c h i tys args want K n =
     (let fail = (\<lambda>e. (Ret (Ctor h i tys args) (Inl e), K, n)) in
      case getE E h of
        Inl e \<Rightarrow> fail e
      | Inr (DFunc _ _ _ _) \<Rightarrow> fail (CType (NotData h))
      | Inr (DData m cs) \<Rightarrow>
          if length cs \<le> i then fail (CCtorIndex i)
          else
            (let d = DData m cs; raw = instCtorFields d h (identityTyArgs m) i in
             if length args \<noteq> length raw then fail (CCtorArity (length raw) (length args))
             else if inferReady m tys then
               (let s0 = replicate m None;
                    s1 = (case want of None \<Rightarrow> s0
                          | Some t \<Rightarrow> fst (matchTy (TData h (identityTyArgs m)) t s0))
                in case (args, raw) of
                     (a # as, p # ps) \<Rightarrow>
                       (Eval Synth c a, FCtorInfer c h i d tys [] as p ps s1 # K, n + 1)
                   | _ \<Rightarrow> finishInference c h i d tys args s1 K (n + 1))
             else if length tys \<noteq> m then fail (CCtorTyArity (length tys) m)
             else (case wfsE E tys of
                     Inl e \<Rightarrow> fail e
                   | Inr _ \<Rightarrow> beginValidation c h i d tys args K n)))"

subsection \<open>Application spines\<close>

fun advanceInferApp :: "ctx \<Rightarrow> trm \<Rightarrow> trm list \<Rightarrow> trm list \<Rightarrow> ty list \<Rightarrow> ty option list \<Rightarrow> nat \<Rightarrow>
    ty \<Rightarrow> frame list \<Rightarrow> nat \<Rightarrow> mstate" where
  "advanceInferApp c head dn (a # as) (p # ps) (g # gs) i res K n =
     (case g of
        Some t \<Rightarrow>
          if tyEq t p then advanceInferApp c head (dn @ [a]) as ps gs (i + 1) res K n
          else (Ret (respine head (dn @ a # as)) (Inl (CArgument i p t)), K, n)
      | None \<Rightarrow> (Eval (Check p) c a, FAppValidate c head dn as ps gs i res # K, n))"
| "advanceInferApp c head dn as _ _ i res K n =
     (Ret (respine head (dn @ as)) (Inr (Some res)), K, n)"

definition finishInferApp :: "ctx \<Rightarrow> trm \<Rightarrow> trm list \<Rightarrow> ty list \<Rightarrow> ty \<Rightarrow> subst \<Rightarrow> ty option list \<Rightarrow>
    frame list \<Rightarrow> nat \<Rightarrow> mstate" where
  "finishInferApp c head args params res s gots K n =
     (case unsolved 0 s of
        Some v \<Rightarrow> (Ret (respine head args) (Inl (CCannotInfer v head)), K, n)
      | None \<Rightarrow>
          (let tys = map the s in
           advanceInferApp c (set_tyargs head tys) [] args (map (\<lambda>p. substTy p tys) params) gots 0
             (substTy res tys) K n))"

text \<open>\<^const>\<open>None\<close>: not a head whose type arguments are inferred, the caller falls back.\<close>

definition beginInferApp :: "env \<Rightarrow> ctx \<Rightarrow> trm \<Rightarrow> ty option \<Rightarrow> frame list \<Rightarrow> nat \<Rightarrow> mstate option" where
  "beginInferApp E c t want K n =
     (case spine t of (head, args) \<Rightarrow>
        if \<not> is_head head then None
        else case infer_head E head of
          None \<Rightarrow> None
        | Some (raw, m) \<Rightarrow> Some
            (case peel raw (length args) of
               None \<Rightarrow> (Ret (respine head args) (Inl (CTooMany head)), K, n)
             | Some (params, res) \<Rightarrow>
                 (let s0 = replicate m None;
                      s1 = (case want of None \<Rightarrow> s0 | Some w \<Rightarrow> fst (matchTy res w s0))
                  in case (args, params) of
                      (a # as, p # ps) \<Rightarrow>
                        (Eval Synth c a, FAppInfer c head [] as params p ps res s1 [] # K, n)
                    | _ \<Rightarrow> finishInferApp c head args params res s1 [] K n)))"

subsection \<open>dispatch\<close>

fun dispatch_synth :: "env \<Rightarrow> ctx \<Rightarrow> trm \<Rightarrow> frame list \<Rightarrow> nat \<Rightarrow> mstate" where
  "dispatch_synth E c (Var i) K n =
     (Ret (Var i) (if length c \<le> i then Inl (CVarScope i) else Inr (Some (c ! i))), K, n)"
| "dispatch_synth E c (IntL v) K n = (Ret (IntL v) (Inr (Some TInt)), K, n)"
| "dispatch_synth E c (RatL r) K n = (Ret (RatL r) (Inr (Some TRat)), K, n)"
| "dispatch_synth E c (FloatL f) K n = (Ret (FloatL f) (Inr (Some TFloat)), K, n)"
| "dispatch_synth E c (BoolL b) K n = (Ret (BoolL b) (Inr (Some TBool)), K, n)"
| "dispatch_synth E c (Let t a b) K n =
     (case wfE E t of
        Inl e \<Rightarrow> (Ret (Let t a b) (Inl e), K, n)
      | Inr _ \<Rightarrow> (Eval Synth c a, FLetBound c t b None # K, n))"
| "dispatch_synth E c (Ctor h i ts as) K n = beginCtor E c h i ts as None K n"
| "dispatch_synth E c (Ref h ts) K n = (Ret (Ref h ts) (ok_ty (refSelfTy E (Ref h ts))), K, n)"
| "dispatch_synth E c (Self ts) K n = (Ret (Self ts) (ok_ty (refSelfTy E (Self ts))), K, n)"
| "dispatch_synth E c (Match h a arms) K n = (Eval Synth c a, FScrut c h arms None # K, n)"
| "dispatch_synth E c (Record ns as) K n =
     (if length ns \<noteq> length as then (Ret (Record ns as) (Inl CRecordSync), K, n)
      else case (ns, as) of
          (f # fs, a # as') \<Rightarrow> (Eval Synth c a, FRecord c ns f fs [] as' [] # K, n)
        | _ \<Rightarrow> (Ret (Record ns as) (Inr (Some (TRecord ns []))), K, n))"
| "dispatch_synth E c (Field a f) K n = (Eval Synth c a, FField f # K, n)"
| "dispatch_synth E c (App f a) K n =
     (case beginInferApp E c (App f a) None K n of
        Some s \<Rightarrow> s
      | None \<Rightarrow> (Eval Synth c f, FAppFn c a # K, n))"
| "dispatch_synth E c (Lam t b) K n =
     (case wfE E t of
        Inl e \<Rightarrow> (Ret (Lam t b) (Inl e), K, n)
      | Inr _ \<Rightarrow> (Eval Synth (pushCtx c t) b, FLam t True # K, n))"
| "dispatch_synth E c (Prim op as) K n =
     (if op = ''=='' then
        (case as of
           [a, b] \<Rightarrow> (Eval Synth c a, FEqLeft c b # K, n)
         | _ \<Rightarrow> (Ret (Prim op as) (Inl (CEqArity (length as))), K, n))
      else case as of
          [] \<Rightarrow> (Ret (Prim op []) (ok_ty (lift_p (primResultTy (est E) op []))), K, n)
        | a # as' \<Rightarrow> (Eval Synth c a, FPrim c op [] as' [] # K, n))"
| "dispatch_synth E c (If a b d) K n = (Eval Synth c a, FIfCond c b d None # K, n)"

fun dispatch_check :: "env \<Rightarrow> ctx \<Rightarrow> trm \<Rightarrow> ty \<Rightarrow> frame list \<Rightarrow> nat \<Rightarrow> mstate" where
  "dispatch_check E c (Ctor h i ts as) want K n =
     beginCtor E c h i ts as (Some want) (FCompare want # K) n"
| "dispatch_check E c (Match h a arms) want K n =
     (Eval Synth c a, FScrut c h arms (Some want) # K, n)"
| "dispatch_check E c (App f a) want K n =
     (case beginInferApp E c (App f a) (Some want) (FCompare want # K) n of
        Some s \<Rightarrow> s
      | None \<Rightarrow> (Eval Synth c (App f a), FCompare want # K, n))"
| "dispatch_check E c (Lam t b) want K n =
     (case want of
        TFun p q \<Rightarrow>
          (case wfE E t of
             Inl e \<Rightarrow> (Ret (Lam t b) (Inl e), K, n)
           | Inr _ \<Rightarrow>
               if tyEq t p then (Eval (Check q) (pushCtx c t) b, FLam t False # K, n)
               else (Ret (Lam t b) (Inl (CLamParam t p)), K, n))
      | _ \<Rightarrow> (Eval Synth c (Lam t b), FCompare want # K, n))"
| "dispatch_check E c (Let t a b) want K n =
     (case wfE E t of
        Inl e \<Rightarrow> (Ret (Let t a b) (Inl e), K, n)
      | Inr _ \<Rightarrow> (Eval (Check t) c a, FLetBound c t b (Some want) # K, n))"
| "dispatch_check E c (If a b d) want K n = (Eval Synth c a, FIfCond c b d (Some want) # K, n)"
| "dispatch_check E c t want K n = (Eval Synth c t, FCompare want # K, n)"

subsection \<open>resume\<close>

fun resume :: "env \<Rightarrow> frame \<Rightarrow> trm \<Rightarrow> outcome \<Rightarrow> frame list \<Rightarrow> nat \<Rightarrow> mstate" where
  "resume E (FCompare want) t r K n =
     (Ret t (case got r of
        Inl e \<Rightarrow> Inl e
      | Inr u \<Rightarrow> if tyEq u want then Inr None else Inl (CExpected want u)), K, n)"
| "resume E (FLam p syn) b r K n =
     (Ret (Lam p b) (case r of
        Inl e \<Rightarrow> Inl e
      | Inr _ \<Rightarrow> if syn then ok_ty (rbind (got r) (\<lambda>u. Inr (TFun p u))) else Inr None), K, n)"
| "resume E (FIfCond c b d want) a r K n =
     (case got r of
        Inl e \<Rightarrow> (Ret (If a b d) (Inl e), K, n)
      | Inr t \<Rightarrow>
          if t \<noteq> TBool then (Ret (If a b d) (Inl (CCondNotBool t)), K, n)
          else (Eval (mode_of want) c b, FIfThen c a d want # K, n))"
| "resume E (FIfThen c a d want) b r K n =
     (case r of
        Inl e \<Rightarrow> (Ret (If a b d) (Inl e), K, n)
      | Inr t \<Rightarrow> (Eval (mode_of want) c d, FIfElse a b want t # K, n))"
| "resume E (FIfElse a b want thenTy) d r K n =
     (Ret (If a b d) (case r of
        Inl e \<Rightarrow> Inl e
      | Inr t \<Rightarrow>
          (case want of
             Some _ \<Rightarrow> Inr None
           | None \<Rightarrow> if thenTy = t then Inr t else Inl (CBranches (the thenTy) (the t)))), K, n)"
| "resume E (FLetBound c p b want) a r K n =
     (case r of
        Inl e \<Rightarrow> (Ret (Let p a b) (Inl e), K, n)
      | Inr t \<Rightarrow>
          if want = None \<and> t \<noteq> Some p then (Ret (Let p a b) (Inl (CLetMismatch p (the t))), K, n)
          else (Eval (mode_of want) (pushCtx c p) b, FLetBody p a # K, n))"
| "resume E (FLetBody p a) b r K n = (Ret (Let p a b) r, K, n)"
| "resume E (FScrut c h arms want) a r K n =
     (case rbind (got r) (match_data E h (length arms)) of
        Inl e \<Rightarrow> (Ret (Match h a arms) (Inl e), K, n)
      | Inr fss \<Rightarrow>
          (case (arms, fss) of
             (x # xs, fs # fss') \<Rightarrow>
               (Eval (mode_of want) (pushAll c fs) x, FArm c h a [] xs fss' want None # K, n)
           | _ \<Rightarrow>
               (Ret (Match h a arms) (case want of None \<Rightarrow> Inl CNoArms | Some _ \<Rightarrow> Inr None), K, n)))"
| "resume E (FArm c h a dn xs fss want res) x r K n =
     (case r of
        Inl e \<Rightarrow> (Ret (Match h a (dn @ x # xs)) (Inl e), K, n)
      | Inr t \<Rightarrow>
          if want = None \<and> res \<noteq> None \<and> res \<noteq> t
          then (Ret (Match h a (dn @ x # xs)) (Inl (CArms (the res) (the t))), K, n)
          else
            (let res' = (if want = None \<and> res = None then t else res) in
             case (xs, fss) of
               (y # ys, fs # fss') \<Rightarrow>
                 (Eval (mode_of want) (pushAll c fs) y,
                  FArm c h a (dn @ [x]) ys fss' want res' # K, n)
             | _ \<Rightarrow> (Ret (Match h a (dn @ x # xs)) (Inr res'), K, n)))"
| "resume E (FPrim c op dn xs ts) x r K n =
     (case got r of
        Inl e \<Rightarrow> (Ret (Prim op (dn @ x # xs)) (Inl e), K, n)
      | Inr t \<Rightarrow>
          (case xs of
             y # ys \<Rightarrow> (Eval Synth c y, FPrim c op (dn @ [x]) ys (ts @ [t]) # K, n)
           | [] \<Rightarrow>
               (Ret (Prim op (dn @ [x])) (ok_ty (lift_p (primResultTy (est E) op (ts @ [t])))), K, n)))"
| "resume E (FEqLeft c b) a r K n =
     (case got r of
        Inl _ \<Rightarrow> (Eval Synth c b, FEqRight c a # K, n)
      | Inr t \<Rightarrow>
          if tyHasFun t then (Ret (Prim ''=='' [a, b]) (Inl CEqFunction), K, n)
          else (Eval (Check t) c b, FEqCompare True a # K, n))"
| "resume E (FEqRight c a) b r K n =
     (case got r of
        Inl _ \<Rightarrow> (Ret (Prim ''=='' [a, b]) (Inl CEqUnknown), K, n)
      | Inr t \<Rightarrow>
          if tyHasFun t then (Ret (Prim ''=='' [a, b]) (Inl CEqFunction), K, n)
          else (Eval (Check t) c a, FEqCompare False b # K, n))"
| "resume E (FEqCompare left x) y r K n =
     (Ret (Prim ''=='' (if left then [x, y] else [y, x]))
        (case r of Inl e \<Rightarrow> Inl e | Inr _ \<Rightarrow> Inr (Some TBool)), K, n)"
| "resume E (FAppFn c a) f r K n =
     (case got r of
        Inl e \<Rightarrow> (Ret (App f a) (Inl e), K, n)
      | Inr (TFun p q) \<Rightarrow> (Eval Synth c a, FAppArg f p q # K, n)
      | Inr t \<Rightarrow> (Ret (App f a) (Inl (CNonFunction t)), K, n))"
| "resume E (FAppArg f p q) a r K n =
     (Ret (App f a) (case got r of
        Inl e \<Rightarrow> Inl e
      | Inr t \<Rightarrow> if tyEq t p then Inr (Some q) else Inl (CArgMismatch p t)), K, n)"
| "resume E (FRecord c ns f fs dn xs ts) x r K n =
     (case got r of
        Inl e \<Rightarrow> (Ret (Record ns (dn @ x # xs)) (Inl e), K, n)
      | Inr t \<Rightarrow>
          (case (fs, xs) of
             (g # gs, y # ys) \<Rightarrow>
               if g \<le> f then (Ret (Record ns (dn @ x # xs)) (Inl CRecordOrder), K, n)
               else (Eval Synth c y, FRecord c ns g gs (dn @ [x]) ys (ts @ [t]) # K, n)
           | _ \<Rightarrow> (Ret (Record ns (dn @ x # xs)) (Inr (Some (TRecord ns (ts @ [t])))), K, n)))"
| "resume E (FField f) a r K n =
     (Ret (Field a f) (ok_ty (rbind (got r) (\<lambda>t. case t of
         TRecord ns ts \<Rightarrow> (case field_ty ns ts f of Some u \<Rightarrow> Inr u | None \<Rightarrow> Inl (CNoField t f))
       | _ \<Rightarrow> Inl (CNonRecord t)))), K, n)"
| "resume E (FCtorInfer c h i d tys dn xs p ps s) x r K n =
     (let s' = (case got r of Inl _ \<Rightarrow> s | Inr t \<Rightarrow> fst (matchTy p t s)) in
      case (xs, ps) of
        (y # ys, q # qs) \<Rightarrow> (Eval Synth c y, FCtorInfer c h i d tys (dn @ [x]) ys q qs s' # K, n)
      | _ \<Rightarrow> finishInference c h i d tys (dn @ x # xs) s' K n)"
| "resume E (FCtorValidate c h i tys dn xs fs) x r K n =
     (case r of
        Inl e \<Rightarrow> (Ret (Ctor h i tys (dn @ x # xs)) (Inl e), K, n)
      | Inr _ \<Rightarrow>
          (case (xs, fs) of
             (y # ys, f # fs') \<Rightarrow>
               (Eval (Check f) c y, FCtorValidate c h i tys (dn @ [x]) ys fs' # K, n)
           | _ \<Rightarrow> (Ret (Ctor h i tys (dn @ x # xs)) (Inr (Some (TData h tys))), K, n)))"
| "resume E (FAppInfer c head dn xs params p ps res s gots) x r K n =
     (let (s', g) = (case got r of Inl _ \<Rightarrow> (s, None) | Inr t \<Rightarrow> (fst (matchTy p t s), Some t)) in
      case (xs, ps) of
        (y # ys, q # qs) \<Rightarrow>
          (Eval Synth c y, FAppInfer c head (dn @ [x]) ys params q qs res s' (gots @ [g]) # K, n)
      | _ \<Rightarrow> finishInferApp c head (dn @ x # xs) params res s' (gots @ [g]) K n)"
| "resume E (FAppValidate c head dn xs ps gots i res) x r K n =
     (case r of
        Inl e \<Rightarrow> (Ret (respine head (dn @ x # xs)) (Inl e), K, n)
      | Inr _ \<Rightarrow> advanceInferApp c head (dn @ [x]) xs ps gots (i + 1) res K n)"

subsection \<open>run\<close>

fun final :: "mstate \<Rightarrow> bool" where
  "final (Ret t r, [], n) = True"
| "final _ = False"

fun mstep :: "env \<Rightarrow> mstate \<Rightarrow> mstate" where
  "mstep E (Eval Synth c t, K, n) = dispatch_synth E c t K n"
| "mstep E (Eval (Check w) c t, K, n) = dispatch_check E c t w K n"
| "mstep E (Ret t r, f # K, n) = resume E f t r K n"
| "mstep E (Ret t r, [], n) = (Ret t r, [], n)"

definition run :: "env \<Rightarrow> mode \<Rightarrow> ctx \<Rightarrow> trm \<Rightarrow> mstate option" where
  "run E m c t = while_option (\<lambda>s. \<not> final s) (mstep E) (Eval m c t, [], 0)"

end
