(* ===== verification/MachineProps.thy ===== *)
theory MachineProps
  imports Machine
begin

text \<open>
  The machine of \<open>Machine\<close> refines the recursive checker of \<open>Checker\<close>: from any stack, a
  judgement in focus reaches, in finitely many steps, its own result over the same stack,
  with the same term filled in and the same number of entries into inference. So \<^verbatim>\<open>run\<close>
  terminates on every input and computes what the recursive checker computes.
\<close>

definition mtrans :: "env \<Rightarrow> mstate \<Rightarrow> mstate \<Rightarrow> bool" where
  "mtrans E s s' \<longleftrightarrow> \<not> final s \<and> s' = mstep E s"

definition reaches :: "env \<Rightarrow> mstate \<Rightarrow> mstate \<Rightarrow> bool" where
  "reaches E = (mtrans E)\<^sup>*\<^sup>*"

lemma reaches_refl: "reaches E s s"
  by (simp add: reaches_def)

lemma reaches_trans: "reaches E s s1 \<Longrightarrow> reaches E s1 s2 \<Longrightarrow> reaches E s s2"
  by (simp add: reaches_def)

lemma reaches_synth: "reaches E (dispatch_synth E c t K n) s \<Longrightarrow> reaches E (Eval Synth c t, K, n) s"
  unfolding reaches_def by (rule converse_rtranclp_into_rtranclp) (simp_all add: mtrans_def)

lemma reaches_check:
  "reaches E (dispatch_check E c t w K n) s \<Longrightarrow> reaches E (Eval (Check w) c t, K, n) s"
  unfolding reaches_def by (rule converse_rtranclp_into_rtranclp) (simp_all add: mtrans_def)

lemma reaches_ret: "reaches E (resume E f t r K n) s \<Longrightarrow> reaches E (Ret t r, f # K, n) s"
  unfolding reaches_def by (rule converse_rtranclp_into_rtranclp) (simp_all add: mtrans_def)

lemma got_ok_ty [simp]: "got (ok_ty r) = r"
  by (cases r) (simp_all add: got_def ok_ty_def)

lemma ok_simps [simp]:
  "ok_ty (Inl e) = Inl e" "ok_ty (Inr t) = Inr (Some t)" "ok_unit (Inl e) = Inl e"
  "ok_unit (Inr u) = Inr None" "got (Inl e) = Inl e" "got (Inr (Some t)) = Inr t"
  "got (Inr None) = Inl CNoArms" "mode_of None = Synth" "mode_of (Some t) = Check t"
  by (simp_all add: ok_ty_def ok_unit_def got_def mode_of_def)

definition simS :: "env \<Rightarrow> trm \<Rightarrow> bool" where
  "simS E t \<longleftrightarrow> (\<forall>c K n t' m r. synthT E c t = (t', m, r) \<longrightarrow>
     reaches E (Eval Synth c t, K, n) (Ret t' (ok_ty r), K, n + m))"

definition simC :: "env \<Rightarrow> trm \<Rightarrow> bool" where
  "simC E t \<longleftrightarrow> (\<forall>c w K n t' m r. checkT E c t w = (t', m, r) \<longrightarrow>
     reaches E (Eval (Check w) c t, K, n) (Ret t' (ok_unit r), K, n + m))"

text \<open>A child runs, its frame resumes.\<close>

lemma simS_frame:
  "simS E a \<Longrightarrow> synthT E c a = (a', m, r) \<Longrightarrow> reaches E (resume E f a' (ok_ty r) K (n + m)) s \<Longrightarrow>
   reaches E (Eval Synth c a, f # K, n) s"
  unfolding simS_def by (blast intro: reaches_trans reaches_ret)

lemma simC_frame:
  "simC E a \<Longrightarrow> checkT E c a w = (a', m, r) \<Longrightarrow> reaches E (resume E f a' (ok_unit r) K (n + m)) s \<Longrightarrow>
   reaches E (Eval (Check w) c a, f # K, n) s"
  unfolding simC_def by (blast intro: reaches_trans reaches_ret)

subsection \<open>The loops over arguments\<close>

lemma prim_loop:
  assumes "\<forall>x \<in> set (a # as). simS E x" and "synth_list (synthT E) c (a # as) = (as', m, r)"
  shows "reaches E (Eval Synth c a, FPrim c op dn as ts # K, n)
     (Ret (Prim op (dn @ as'))
        (ok_ty (rbind r (\<lambda>us. lift_p (primResultTy (est E) op (ts @ us))))), K, n + m)"
  using assms
proof (induction as arbitrary: a dn ts n as' m r)
  case Nil
  obtain a' m1 r1 where a: "synthT E c a = (a', m1, r1)" by (metis prod.exhaust)
  show ?case
    by (rule simS_frame [OF _ a]) (use Nil a in \<open>auto simp: reaches_refl split: sum.splits\<close>)
next
  case (Cons b bs)
  obtain a' m1 r1 where a: "synthT E c a = (a', m1, r1)" by (metis prod.exhaust)
  show ?case
  proof (rule simS_frame [OF _ a])
    show "reaches E (resume E (FPrim c op dn (b # bs) ts) a' (ok_ty r1) K (n + m1))
      (Ret (Prim op (dn @ as'))
        (ok_ty (rbind r (\<lambda>us. lift_p (primResultTy (est E) op (ts @ us))))), K, n + m)"
    proof (cases r1)
      case (Inl e)
      with Cons.prems a show ?thesis by (auto simp: reaches_refl)
    next
      case (Inr t)
      obtain bs' m2 r2 where b: "synth_list (synthT E) c (b # bs) = (bs', m2, r2)"
        by (metis prod.exhaust)
      have "reaches E (Eval Synth c b, FPrim c op (dn @ [a']) bs (ts @ [t]) # K, n + m1)
        (Ret (Prim op ((dn @ [a']) @ bs'))
          (ok_ty (rbind r2 (\<lambda>us. lift_p (primResultTy (est E) op ((ts @ [t]) @ us))))), K,
          n + m1 + m2)"
        using Cons.prems(1) b by (intro Cons.IH) auto
      moreover have "as' = a' # bs'" "m = m1 + m2" "r = rbind r2 (\<lambda>us. Inr (t # us))"
        using Cons.prems(2) a Inr b by (simp_all del: synth_list.simps(2) add: synth_list.simps(2) [of _ _ a])
      ultimately show ?thesis using Inr by (simp add: rbind_def add.assoc split: sum.splits)
    qed
  qed (use Cons.prems in simp)
qed

lemma record_loop:
  assumes "\<forall>x \<in> set (a # as). simS E x"
    and "synth_fields (synthT E) c None (f # fs) (a # as) = (as', m, r)" and "length fs = length as"
  shows "reaches E (Eval Synth c a, FRecord c ns f fs dn as ts # K, n)
     (Ret (Record ns (dn @ as')) (ok_ty (rbind r (\<lambda>us. Inr (TRecord ns (ts @ us))))), K, n + m)"
  using assms
proof (induction as arbitrary: a f fs dn ts n as' m r)
  case Nil
  obtain a' m1 r1 where a: "synthT E c a = (a', m1, r1)" by (metis prod.exhaust)
  show ?case
    by (rule simS_frame [OF _ a])
      (use Nil a in \<open>auto simp: reaches_refl split: sum.splits list.splits\<close>)
next
  case (Cons b bs)
  obtain g gs where fs: "fs = g # gs" "length gs = length bs"
    using Cons.prems(3) by (cases fs) auto
  obtain a' m1 r1 where a: "synthT E c a = (a', m1, r1)" by (metis prod.exhaust)
  show ?case
  proof (rule simS_frame [OF _ a])
    show "reaches E (resume E (FRecord c ns f fs dn (b # bs) ts) a' (ok_ty r1) K (n + m1))
      (Ret (Record ns (dn @ as')) (ok_ty (rbind r (\<lambda>us. Inr (TRecord ns (ts @ us))))), K, n + m)"
    proof (cases r1)
      case (Inl e)
      with Cons.prems a show ?thesis by (auto simp: reaches_refl)
    next
      case (Inr t)
      show ?thesis
      proof (cases "g \<le> f")
        case True
        with Cons.prems a Inr fs show ?thesis by (auto simp: reaches_refl)
      next
        case False
        obtain bs' m2 r2 where b: "synth_fields (synthT E) c None (g # gs) (b # bs) = (bs', m2, r2)"
          by (metis prod.exhaust)
        have "reaches E (Eval Synth c b, FRecord c ns g gs (dn @ [a']) bs (ts @ [t]) # K, n + m1)
          (Ret (Record ns ((dn @ [a']) @ bs'))
            (ok_ty (rbind r2 (\<lambda>us. Inr (TRecord ns ((ts @ [t]) @ us))))), K, n + m1 + m2)"
          using Cons.prems(1) b fs by (intro Cons.IH) auto
        moreover have "synth_fields (synthT E) c (Some f) (g # gs) (b # bs) = (bs', m2, r2)"
          using b False by simp
        ultimately show ?thesis
          using Cons.prems(2) a Inr fs False
          by (auto simp: rbind_def add.assoc simp del: synth_fields.simps
              simp: synth_fields.simps(1) [of _ _ _ f] split: sum.splits)
      qed
    qed
  qed (use Cons.prems in simp)
qed

text \<open>The two passes of a constructor.\<close>

lemma ctor_validate_loop:
  assumes "\<forall>x \<in> set (a # as). simC E x"
    and "check_list (checkT E) c (a # as) (f # fs) = (as', m, r)"
  shows "reaches E (Eval (Check f) c a, FCtorValidate c h i tys dn as fs # K, n)
     (Ret (Ctor h i tys (dn @ as')) (ok_ty (rbind r (\<lambda>_. Inr (TData h tys)))), K, n + m)"
  using assms
proof (induction as arbitrary: a f fs dn n as' m r)
  case Nil
  obtain a' m1 r1 where a: "checkT E c a f = (a', m1, r1)" by (metis prod.exhaust)
  show ?case
    by (rule simC_frame [OF _ a]) (use Nil a in \<open>auto simp: reaches_refl split: sum.splits\<close>)
next
  case (Cons b bs)
  obtain a' m1 r1 where a: "checkT E c a f = (a', m1, r1)" by (metis prod.exhaust)
  show ?case
  proof (rule simC_frame [OF _ a])
    show "reaches E (resume E (FCtorValidate c h i tys dn (b # bs) fs) a' (ok_unit r1) K (n + m1))
      (Ret (Ctor h i tys (dn @ as')) (ok_ty (rbind r (\<lambda>_. Inr (TData h tys)))), K, n + m)"
    proof (cases r1)
      case (Inl e)
      with Cons.prems a show ?thesis by (auto simp: reaches_refl)
    next
      case (Inr u)
      show ?thesis
      proof (cases fs)
        case Nil
        with Cons.prems a Inr show ?thesis by (auto simp: reaches_refl)
      next
        case (Cons g gs)
        obtain bs' m2 r2 where b: "check_list (checkT E) c (b # bs) (g # gs) = (bs', m2, r2)"
          by (metis prod.exhaust)
        have "reaches E (Eval (Check g) c b, FCtorValidate c h i tys (dn @ [a']) bs gs # K, n + m1)
          (Ret (Ctor h i tys ((dn @ [a']) @ bs')) (ok_ty (rbind r2 (\<lambda>_. Inr (TData h tys)))), K,
            n + m1 + m2)"
          using Cons.prems(1) b by (intro Cons.IH) auto
        then show ?thesis
          using Cons.prems(2) a Inr b Cons
          by (auto simp: add.assoc simp del: check_list.simps simp: check_list.simps(1) [of _ _ a])
      qed
    qed
  qed (use Cons.prems in simp)
qed

lemma ctor_infer_loop:
  assumes "\<forall>x \<in> set (a # as). simS E x"
    and "infer_pass (synthT E) c (a # as) (p # ps) s = (as', m, s', gs)"
    and "reaches E (finishInference c h i d tys (dn @ as') s' K (n + m)) S"
  shows "reaches E (Eval Synth c a, FCtorInfer c h i d tys dn as p ps s # K, n) S"
  using assms
proof (induction as arbitrary: a p ps dn n as' m s s' gs)
  case Nil
  obtain a' m1 r1 where a: "synthT E c a = (a', m1, r1)" by (metis prod.exhaust)
  show ?case
    by (rule simS_frame [OF _ a]) (use Nil a in \<open>auto simp: Let_def split: sum.splits\<close>)
next
  case (Cons b bs)
  obtain a' m1 r1 where a: "synthT E c a = (a', m1, r1)" by (metis prod.exhaust)
  define s1 where "s1 = (case r1 of Inl _ \<Rightarrow> s | Inr t \<Rightarrow> fst (matchTy p t s))"
  show ?case
  proof (rule simS_frame [OF _ a])
    show "reaches E (resume E (FCtorInfer c h i d tys dn (b # bs) p ps s) a' (ok_ty r1) K (n + m1)) S"
    proof (cases ps)
      case Nil
      with Cons.prems a show ?thesis by (auto simp: Let_def split: sum.splits)
    next
      case (Cons q qs)
      obtain bs' m2 s2 g2 where b: "infer_pass (synthT E) c (b # bs) (q # qs) s1 = (bs', m2, s2, g2)"
        by (metis prod.exhaust)
      have q: "as' = a' # bs'" "m = m1 + m2" "s' = s2"
        using Cons.prems(2) a b Cons
        by (auto simp: s1_def simp del: infer_pass.simps simp: infer_pass.simps(1) [of _ _ a]
            split: sum.splits)
      have "reaches E (Eval Synth c b, FCtorInfer c h i d tys (dn @ [a']) bs q qs s1 # K, n + m1) S"
        using Cons.prems(1,3) b q by (intro Cons.IH) (auto simp: add.assoc)
      with Cons show ?thesis by (simp add: s1_def Let_def)
    qed
  qed (use Cons.prems in simp)
qed

text \<open>The two passes of an application.\<close>

lemma app_infer_loop:
  assumes "\<forall>x \<in> set (a # as). simS E x"
    and "infer_pass (synthT E) c (a # as) (p # ps) s = (as', m, s', gs)"
    and "reaches E (finishInferApp c head (dn @ as') params res s' (gots @ gs) K (n + m)) S"
  shows "reaches E (Eval Synth c a, FAppInfer c head dn as params p ps res s gots # K, n) S"
  using assms
proof (induction as arbitrary: a p ps dn n as' m s s' gs gots)
  case Nil
  obtain a' m1 r1 where a: "synthT E c a = (a', m1, r1)" by (metis prod.exhaust)
  show ?case
    by (rule simS_frame [OF _ a]) (use Nil a in \<open>auto simp: Let_def split: sum.splits\<close>)
next
  case (Cons b bs)
  obtain a' m1 r1 where a: "synthT E c a = (a', m1, r1)" by (metis prod.exhaust)
  define s1 where "s1 = (case r1 of Inl _ \<Rightarrow> s | Inr t \<Rightarrow> fst (matchTy p t s))"
  define g where "g = (case r1 of Inl _ \<Rightarrow> None | Inr t \<Rightarrow> Some t)"
  show ?case
  proof (rule simS_frame [OF _ a])
    show "reaches E (resume E (FAppInfer c head dn (b # bs) params p ps res s gots) a' (ok_ty r1) K
      (n + m1)) S"
    proof (cases ps)
      case Nil
      with Cons.prems a show ?thesis by (auto simp: Let_def split: sum.splits)
    next
      case (Cons q qs)
      obtain bs' m2 s2 g2 where b: "infer_pass (synthT E) c (b # bs) (q # qs) s1 = (bs', m2, s2, g2)"
        by (metis prod.exhaust)
      have q: "as' = a' # bs'" "m = m1 + m2" "s' = s2" "gs = g # g2"
        using Cons.prems(2) a b Cons
        by (auto simp: s1_def g_def simp del: infer_pass.simps simp: infer_pass.simps(1) [of _ _ a]
            split: sum.splits)
      have "reaches E (Eval Synth c b,
          FAppInfer c head (dn @ [a']) bs params q qs res s1 (gots @ [g]) # K, n + m1) S"
        using Cons.prems(1,3) b q by (intro Cons.IH) (auto simp: add.assoc)
      with Cons show ?thesis
        by (auto simp: s1_def g_def Let_def split: sum.splits)
    qed
  qed (use Cons.prems in simp)
qed

lemma app_validate_loop:
  assumes "\<forall>x \<in> set as. simC E x"
    and "validate_args (checkT E) c i as ps gs = (as', m, r)"
  shows "reaches E (advanceInferApp c head dn as ps gs i res K n)
     (Ret (respine head (dn @ as')) (ok_ty (rbind r (\<lambda>_. Inr res))), K, n + m)"
  using assms
proof (induction as arbitrary: dn i ps gs n as' m r)
  case Nil
  then show ?case by (auto simp: reaches_refl)
next
  case (Cons a as)
  show ?case
  proof (cases "ps = [] \<or> gs = []")
    case True
    with Cons.prems show ?thesis by (cases ps; cases gs) (auto simp: reaches_refl)
  next
    case False
    then obtain p qs g hs where pg: "ps = p # qs" "gs = g # hs" by (auto simp: neq_Nil_conv)
    obtain bs m2 r2 where b: "validate_args (checkT E) c (i + 1) as qs hs = (bs, m2, r2)"
      by (metis prod.exhaust)
    have rec: "reaches E (advanceInferApp c head (dn @ [a']) as qs hs (i + 1) res K n')
        (Ret (respine head ((dn @ [a']) @ bs)) (ok_ty (rbind r2 (\<lambda>_. Inr res))), K, n' + m2)"
      for a' n'
      using Cons.prems(1) b by (intro Cons.IH) auto
    show ?thesis
    proof (cases g)
      case (Some t)
      with rec [of a n] Cons.prems(2) pg b show ?thesis
        by (auto simp: reaches_refl split: if_splits)
    next
      case None
      obtain a' m1 r1 where a: "checkT E c a p = (a', m1, r1)" by (metis prod.exhaust)
      have "reaches E (Eval (Check p) c a, FAppValidate c head dn as qs hs i res # K, n)
        (Ret (respine head (dn @ as')) (ok_ty (rbind r (\<lambda>_. Inr res))), K, n + m)"
      proof (rule simC_frame [OF _ a])
        show "reaches E (resume E (FAppValidate c head dn as qs hs i res) a' (ok_unit r1) K (n + m1))
          (Ret (respine head (dn @ as')) (ok_ty (rbind r (\<lambda>_. Inr res))), K, n + m)"
          using rec [of a' "n + m1"] Cons.prems(2) pg b None a
          by (cases r1) (auto simp: reaches_refl add.assoc)
      qed (use Cons.prems in simp)
      with pg None show ?thesis by simp
    qed
  qed
qed

text \<open>The arms of a match.\<close>

lemma synth_arms_loop:
  assumes "\<forall>x \<in> set (a # as). simS E x"
    and "synth_arms (synthT E) c res (a # as) (fs # fss) = (as', m, r)"
  shows "reaches E (Eval Synth (pushAll c fs) a, FArm c h x dn as fss None res # K, n)
     (Ret (Match h x (dn @ as')) (ok_ty r), K, n + m)"
  using assms
proof (induction as arbitrary: a fs fss dn n as' m r res)
  case Nil
  obtain a' m1 r1 where a: "synthT E (pushAll c fs) a = (a', m1, r1)" by (metis prod.exhaust)
  show ?case
    by (rule simS_frame [OF _ a])
      (use Nil a in \<open>auto simp: reaches_refl Let_def split: sum.splits option.splits if_splits\<close>)
next
  case (Cons b bs)
  obtain a' m1 r1 where a: "synthT E (pushAll c fs) a = (a', m1, r1)" by (metis prod.exhaust)
  show ?case
  proof (rule simS_frame [OF _ a])
    show "reaches E (resume E (FArm c h x dn (b # bs) fss None res) a' (ok_ty r1) K (n + m1))
      (Ret (Match h x (dn @ as')) (ok_ty r), K, n + m)"
    proof (cases "\<exists>t. r1 = Inr t \<and> (res = None \<or> res = Some t)")
      case False
      with Cons.prems a show ?thesis
        by (auto simp: reaches_refl Let_def split: sum.splits option.splits if_splits)
    next
      case True
      then obtain t where t: "r1 = Inr t" "res = None \<or> res = Some t" by blast
      show ?thesis
      proof (cases fss)
        case Nil
        with Cons.prems a t show ?thesis by (auto simp: reaches_refl Let_def)
      next
        case (Cons gs gss)
        obtain bs' m2 r2 where b: "synth_arms (synthT E) c (Some t) (b # bs) (gs # gss) = (bs', m2, r2)"
          by (metis prod.exhaust)
        have "reaches E (Eval Synth (pushAll c gs) b, FArm c h x (dn @ [a']) bs gss None (Some t) # K,
            n + m1)
          (Ret (Match h x ((dn @ [a']) @ bs')) (ok_ty r2), K, n + m1 + m2)"
          using Cons.prems(1) b by (intro Cons.IH) auto
        then show ?thesis
          using Cons.prems(2) a t b Cons
          by (auto simp: add.assoc Let_def simp del: synth_arms.simps
              simp: synth_arms.simps(1) [of _ _ _ a])
      qed
    qed
  qed (use Cons.prems in simp)
qed

lemma check_arms_loop:
  assumes "\<forall>x \<in> set (a # as). simC E x"
    and "check_arms (checkT E) c w (a # as) (fs # fss) = (as', m, r)"
  shows "reaches E (Eval (Check w) (pushAll c fs) a, FArm c h x dn as fss (Some w) None # K, n)
     (Ret (Match h x (dn @ as')) (ok_unit r), K, n + m)"
  using assms
proof (induction as arbitrary: a fs fss dn n as' m r)
  case Nil
  obtain a' m1 r1 where a: "checkT E (pushAll c fs) a w = (a', m1, r1)" by (metis prod.exhaust)
  show ?case
    by (rule simC_frame [OF _ a])
      (use Nil a in \<open>auto simp: reaches_refl Let_def split: sum.splits\<close>)
next
  case (Cons b bs)
  obtain a' m1 r1 where a: "checkT E (pushAll c fs) a w = (a', m1, r1)" by (metis prod.exhaust)
  show ?case
  proof (rule simC_frame [OF _ a])
    show "reaches E (resume E (FArm c h x dn (b # bs) fss (Some w) None) a' (ok_unit r1) K (n + m1))
      (Ret (Match h x (dn @ as')) (ok_unit r), K, n + m)"
    proof (cases r1)
      case (Inl e)
      with Cons.prems a show ?thesis by (auto simp: reaches_refl)
    next
      case (Inr u)
      show ?thesis
      proof (cases fss)
        case Nil
        with Cons.prems a Inr show ?thesis by (auto simp: reaches_refl Let_def)
      next
        case (Cons gs gss)
        obtain bs' m2 r2 where b: "check_arms (checkT E) c w (b # bs) (gs # gss) = (bs', m2, r2)"
          by (metis prod.exhaust)
        have "reaches E (Eval (Check w) (pushAll c gs) b,
            FArm c h x (dn @ [a']) bs gss (Some w) None # K, n + m1)
          (Ret (Match h x ((dn @ [a']) @ bs')) (ok_unit r2), K, n + m1 + m2)"
          using Cons.prems(1) b by (intro Cons.IH) auto
        then show ?thesis
          using Cons.prems(2) a Inr b Cons
          by (auto simp: add.assoc Let_def simp del: check_arms.simps
              simp: check_arms.simps(1) [of _ _ _ a])
      qed
    qed
  qed (use Cons.prems in simp)
qed

subsection \<open>Constructors and spines\<close>

lemma beginValidation_sim:
  assumes "\<forall>x \<in> set args. simC E x"
    and "check_list (checkT E) c args (instCtorFields d h tys i) = (as', m, r)"
  shows "reaches E (beginValidation c h i d tys args K n)
     (Ret (Ctor h i tys as') (ok_ty (rbind r (\<lambda>_. Inr (TData h tys)))), K, n + m)"
proof (cases "args = [] \<or> instCtorFields d h tys i = []")
  case True
  with assms show ?thesis
    by (cases args; cases "instCtorFields d h tys i") (auto simp: beginValidation_def reaches_refl)
next
  case False
  then obtain a as f fs where af: "args = a # as" "instCtorFields d h tys i = f # fs"
    by (auto simp: neq_Nil_conv)
  with assms show ?thesis
    using ctor_validate_loop [of a as E c f fs as' m r h i tys "[]" K n]
    by (simp add: beginValidation_def del: check_list.simps)
qed

lemma simC_fills: "list_all2 fills as bs \<Longrightarrow> (\<And>x. height x < k \<Longrightarrow> simC E x) \<Longrightarrow> lower k as \<Longrightarrow>
    \<forall>x \<in> set bs. simC E x"
  using lower_fills by (fastforce simp: lower_def)

lemma beginCtor_sim:
  assumes sim: "\<And>x. height x < k \<Longrightarrow> simS E x" "\<And>x. height x < k \<Longrightarrow> simC E x"
    and low: "lower k args"
    and j: "synth_ctor (synthT E) (checkT E) E c h i tys args want = (t', m, r)"
  shows "reaches E (beginCtor E c h i tys args want K n) (Ret t' (ok_ty r), K, n + m)"
proof -
  have simS: "\<forall>x \<in> set args. simS E x" and simC: "\<forall>x \<in> set args. simC E x"
    using sim low by (auto simp: lower_def)
  have fin: "reaches E (finishInference c h i d tys args1 s K n')
      (Ret t2 (ok_ty r2), K, n' + m2)"
    if "infer_pass (synthT E) c args raw s1 = (args1, m1, s, gs)"
      and "(case unsolved 0 s of
             Some v \<Rightarrow> (Ctor h i tys args1, 0, Inl (CCannotInfer v (Ctor h i tys args1)))
           | None \<Rightarrow> (case check_list (checkT E) c args1 (instCtorFields d h (map the s) i) of
               (args2, m2, r) \<Rightarrow> (Ctor h i (map the s) args2, m2,
                 rbind r (\<lambda>_. Inr (TData h (map the s)))))) = (t2, m2, r2)"
    for d raw s1 args1 m1 s gs n' t2 m2 r2
  proof -
    have "list_all2 fills args args1"
      using infer_pass_fills [OF synthT_fills, of args E c raw s1] that(1) by simp
    then have "\<forall>x \<in> set args1. simC E x" using sim(2) low by (rule simC_fills)
    then show ?thesis
      using that(2) beginValidation_sim
      by (auto simp: finishInference_def reaches_refl split: option.splits prod.splits)
  qed
  show ?thesis
  proof (cases "\<exists>mm cs. getE E h = Inr (DData mm cs) \<and> i < length cs \<and>
      length args = length (instCtorFields (DData mm cs) h (identityTyArgs mm) i)")
    case False
    with j show ?thesis
      by (auto simp: synth_ctor_def beginCtor_def Let_def reaches_refl
          split: sum.splits def.splits if_splits)
  next
    case True
    then obtain mm cs where d: "getE E h = Inr (DData mm cs)" "\<not> length cs \<le> i"
      and len: "length args = length (instCtorFields (DData mm cs) h (identityTyArgs mm) i)"
      by (auto simp: not_le)
    show ?thesis
    proof (cases "inferReady mm tys")
      case False
      with j d len show ?thesis
        using beginValidation_sim [OF simC]
        by (auto simp: synth_ctor_def beginCtor_def Let_def reaches_refl
            split: sum.splits if_splits prod.splits)
    next
      case True
      define raw where "raw = instCtorFields (DData mm cs) h (identityTyArgs mm) i"
      define s1 where "s1 = (case want of None \<Rightarrow> replicate mm None
        | Some t \<Rightarrow> fst (matchTy (TData h (identityTyArgs mm)) t (replicate mm None)))"
      obtain args1 m1 s gs where p: "infer_pass (synthT E) c args raw s1 = (args1, m1, s, gs)"
        by (metis prod.exhaust)
      obtain t2 m2 r2 where f: "(case unsolved 0 s of
             Some v \<Rightarrow> (Ctor h i tys args1, 0, Inl (CCannotInfer v (Ctor h i tys args1)))
           | None \<Rightarrow> (case check_list (checkT E) c args1
                 (instCtorFields (DData mm cs) h (map the s) i) of
               (args2, m2, r) \<Rightarrow> (Ctor h i (map the s) args2, m2,
                 rbind r (\<lambda>_. Inr (TData h (map the s)))))) = (t2, m2, r2)"
        by (metis prod.exhaust)
      have q: "t' = t2" "m = 1 + m1 + m2" "r = r2"
        using j d len True p f
        by (auto simp: synth_ctor_def Let_def raw_def s1_def split: option.splits prod.splits)
      note F = fin [OF p f, of "n + 1 + m1"]
      show ?thesis
      proof (cases "args = []")
        case True
        with p have "args1 = []" "m1 = 0" "s = s1" by auto
        with F True d len \<open>inferReady mm tys\<close> q show ?thesis
          by (simp add: beginCtor_def Let_def s1_def)
      next
        case False
        then obtain a as pt ps where ap: "args = a # as" "raw = pt # ps"
          using len by (cases args; cases raw) (auto simp: raw_def)
        have "reaches E (Eval Synth c a, FCtorInfer c h i (DData mm cs) tys [] as pt ps s1 # K, n + 1)
            (Ret t2 (ok_ty r2), K, n + 1 + m1 + m2)"
          using simS p F unfolding ap by (intro ctor_infer_loop [where dn = "[]"]) auto
        with d len \<open>inferReady mm tys\<close> q ap show ?thesis
          by (simp add: beginCtor_def Let_def s1_def raw_def add.assoc)
      qed
    qed
  qed
qed

lemma peel_length: "peel t n = Some (ps, r) \<Longrightarrow> length ps = n"
  by (induction t n arbitrary: ps r rule: peel.induct) auto

lemma spine_try_None: "spine_try sy ch E c t want = None \<longleftrightarrow> beginInferApp E c t want K n = None"
  by (auto simp: spine_try_def try_infer_app_def beginInferApp_def split: prod.splits option.splits)

lemma finishInferApp_sim:
  assumes "\<forall>x \<in> set args. simC E x"
    and "(case unsolved 0 s of
           Some v \<Rightarrow> (respine head args, 0, Inl (CCannotInfer v head))
         | None \<Rightarrow> (case validate_args (checkT E) c 0 args (map (\<lambda>p. substTy p (map the s)) params) gots of
             (args2, m2, r) \<Rightarrow> (respine (set_tyargs head (map the s)) args2, m2,
               rbind r (\<lambda>_. Inr (substTy res (map the s)))))) = (t2, m2, r2)"
  shows "reaches E (finishInferApp c head args params res s gots K n) (Ret t2 (ok_ty r2), K, n + m2)"
proof (cases "unsolved 0 s")
  case (Some v)
  with assms(2) show ?thesis by (auto simp: finishInferApp_def reaches_refl)
next
  case None
  obtain args2 m r where v: "validate_args (checkT E) c 0 args (map (\<lambda>p. substTy p (map the s)) params)
      gots = (args2, m, r)" by (metis prod.exhaust)
  show ?thesis
    using app_validate_loop [OF assms(1) v, of "set_tyargs head (map the s)" "[]"
        "substTy res (map the s)" K n] assms(2) None v
    by (simp add: finishInferApp_def Let_def)
qed

lemma beginInferApp_sim:
  assumes sim: "\<And>x. height x < k \<Longrightarrow> simS E x" "\<And>x. height x < k \<Longrightarrow> simC E x"
    and low: "\<And>h as. spine t = (h, as) \<Longrightarrow> lower k as"
    and j: "spine_try (synthT E) (checkT E) E c t want = Some (t', m, r)"
    and b: "beginInferApp E c t want K n = Some S"
  shows "reaches E S (Ret t' (ok_ty r), K, n + m)"
proof -
  obtain head args where sp: "spine t = (head, args)" by fastforce
  have lowa: "lower k args" by (rule low [OF sp])
  have simS: "\<forall>x \<in> set args. simS E x" using sim lowa by (auto simp: lower_def)
  obtain raw mm where h: "is_head head" "infer_head E head = Some (raw, mm)"
    using j sp by (auto simp: spine_try_def try_infer_app_def split: if_splits option.splits)
  show ?thesis
  proof (cases "peel raw (length args)")
    case None
    with j b sp h show ?thesis
      by (auto simp: spine_try_def try_infer_app_def beginInferApp_def reaches_refl)
  next
    case (Some pr)
    then obtain params res where pl: "peel raw (length args) = Some (params, res)"
      by (cases pr) simp
    define s1 where "s1 = (case want of None \<Rightarrow> replicate mm None
      | Some w \<Rightarrow> fst (matchTy res w (replicate mm None)))"
    obtain args1 m1 s gs where p: "infer_pass (synthT E) c args params s1 = (args1, m1, s, gs)"
      by (metis prod.exhaust)
    obtain t2 m2 r2 where f: "(case unsolved 0 s of
           Some v \<Rightarrow> (respine head args1, 0, Inl (CCannotInfer v head))
         | None \<Rightarrow> (case validate_args (checkT E) c 0 args1 (map (\<lambda>p. substTy p (map the s)) params) gs of
             (args2, m2, r) \<Rightarrow> (respine (set_tyargs head (map the s)) args2, m2,
               rbind r (\<lambda>_. Inr (substTy res (map the s)))))) = (t2, m2, r2)"
      by (metis prod.exhaust)
    have q: "t' = t2" "m = m1 + m2" "r = r2"
      using j sp h pl p f
      by (auto simp: spine_try_def try_infer_app_def Let_def s1_def
          split: option.splits prod.splits)
    have "list_all2 fills args args1"
      using infer_pass_fills [OF synthT_fills, of args E c params s1] p by simp
    then have "\<forall>x \<in> set args1. simC E x" using sim(2) lowa by (rule simC_fills)
    note F = finishInferApp_sim [OF this f]
    show ?thesis
    proof (cases "args = []")
      case True
      with p have "args1 = []" "m1 = 0" "s = s1" "gs = []" by auto
      with F [of K n] True b sp h pl q show ?thesis
        by (auto simp: beginInferApp_def Let_def s1_def)
    next
      case False
      then obtain a as pt ps where ap: "args = a # as" "params = pt # ps"
        using peel_length [OF pl] by (cases args; cases params) auto
      have "reaches E (Eval Synth c a, FAppInfer c head [] as params pt ps res s1 [] # K, n)
          (Ret t2 (ok_ty r2), K, n + m1 + m2)"
        using simS p F [of K "n + m1"] unfolding ap
        by (intro app_infer_loop [where dn = "[]" and gots = "[]"]) auto
      with b sp h pl q ap show ?thesis
        by (simp add: beginInferApp_def Let_def s1_def add.assoc)
    qed
  qed
qed

subsection \<open>The simulation\<close>

lemma compare_sim:
  "reaches E S (Ret t' (ok_ty r), FCompare w # K, n + m) \<Longrightarrow>
   compare_to w (t', m, r) = (u, l, q) \<Longrightarrow> reaches E S (Ret u (ok_unit q), K, n + l)"
  by (rule reaches_trans, assumption, rule reaches_ret)
    (cases r; auto simp: compare_to_def reaches_refl)

lemma eq_sim:
  assumes j: "synth_eq (synthT E) (checkT E) c a b = (t', m, r)"
    and S: "simS E a" "simS E b" "simC E b" and C: "\<And>x. fills a x \<Longrightarrow> simC E x"
  shows "reaches E (Eval Synth c a, FEqLeft c b # K, n) (Ret t' (ok_ty r), K, n + m)"
proof -
  obtain a' m1 r1 where a: "synthT E c a = (a', m1, r1)" by (metis prod.exhaust)
  have Ca: "simC E a'" using C fills_syD [OF synthT_fills a] by blast
  show ?thesis
  proof (rule simS_frame [OF S(1) a])
    show "reaches E (resume E (FEqLeft c b) a' (ok_ty r1) K (n + m1)) (Ret t' (ok_ty r), K, n + m)"
    proof (cases r1)
      case (Inr known)
      obtain b' m2 r2 where b: "checkT E c b known = (b', m2, r2)" by (metis prod.exhaust)
      show ?thesis
        using j a b Inr simC_frame [OF S(3) b, of "FEqCompare True a'" K "n + m1"]
        by (cases r2) (auto simp: synth_eq_def reaches_refl add.assoc split: if_splits)
    next
      case (Inl e)
      obtain b' m2 r2 where b: "synthT E c b = (b', m2, r2)" by (metis prod.exhaust)
      have "reaches E (Eval Synth c b, FEqRight c a' # K, n + m1) (Ret t' (ok_ty r), K, n + m)"
      proof (rule simS_frame [OF S(2) b])
        show "reaches E (resume E (FEqRight c a') b' (ok_ty r2) K (n + m1 + m2))
          (Ret t' (ok_ty r), K, n + m)"
        proof (cases r2)
          case (Inl e2)
          with j a b \<open>r1 = Inl e\<close> show ?thesis
            by (auto simp: synth_eq_def reaches_refl add.assoc)
        next
          case (Inr known)
          obtain a2 m3 r3 where a2: "checkT E c a' known = (a2, m3, r3)" by (metis prod.exhaust)
          show ?thesis
            using j a b a2 \<open>r1 = Inl e\<close> Inr
              simC_frame [OF Ca a2, of "FEqCompare False b'" K "n + m1 + m2"]
            by (cases r3) (auto simp: synth_eq_def reaches_refl add.assoc split: if_splits)
        qed
      qed
      with Inl show ?thesis by simp
    qed
  qed
qed

lemma synth_sim_step:
  assumes sim: "\<And>x. height x < height t \<Longrightarrow> simS E x" "\<And>x. height x < height t \<Longrightarrow> simC E x"
    and j: "synthT E c t = (t', m, r)"
  shows "reaches E (dispatch_synth E c t K n) (Ret t' (ok_ty r), K, n + m)"
proof -
  have b: "synth_body (synthT E) (checkT E) E c t = (t', m, r)"
    using j synthT_eq [of E c t] by simp
  show ?thesis
  proof (cases t)
    case (App f a)
    show ?thesis
    proof (cases "spine_try (synthT E) (checkT E) E c t None")
      case None
      then have "beginInferApp E c t None K n = None" using spine_try_None by blast
      obtain f' m1 r1 where f: "synthT E c f = (f', m1, r1)" by (metis prod.exhaust)
      obtain a' m2 r2 where a: "synthT E c a = (a', m2, r2)" by (metis prod.exhaust)
      have "simS E f" "simS E a" using sim(1) App by simp_all
      moreover have "reaches E (Eval Synth c f, FAppFn c a # K, n) (Ret t' (ok_ty r), K, n + m)"
      proof (rule simS_frame [OF \<open>simS E f\<close> f])
        show "reaches E (resume E (FAppFn c a) f' (ok_ty r1) K (n + m1)) (Ret t' (ok_ty r), K, n + m)"
        proof (cases "\<exists>p q. r1 = Inr (TFun p q)")
          case True
          then obtain p q where pq: "r1 = Inr (TFun p q)" by blast
          have "reaches E (Eval Synth c a, FAppArg f' p q # K, n + m1) (Ret t' (ok_ty r), K, n + m)"
            by (rule simS_frame [OF \<open>simS E a\<close> a])
              (use b App None f a pq in \<open>cases r2; auto simp: reaches_refl add.assoc\<close>)
          with pq show ?thesis by simp
        next
          case False
          with b App None f show ?thesis
            by (auto simp: reaches_refl split: sum.splits ty.splits)
        qed
      qed
      ultimately show ?thesis using \<open>beginInferApp E c t None K n = None\<close> App by simp
    next
      case (Some x)
      then obtain S where S: "beginInferApp E c t None K n = Some S"
        using spine_try_None [of "synthT E" "checkT E" E c t None K n] by force
      have x: "x = (t', m, r)" using b Some App by simp
      have "reaches E S (Ret t' (ok_ty r), K, n + m)"
        by (rule beginInferApp_sim [OF sim _ Some [unfolded x] S])
          (use App spine_lower in \<open>simp_all del: height.simps\<close>)
      with S App show ?thesis by simp
    qed
  next
    case (Ctor h i ts as)
    have "lower (height t) as" using lower_args(2) Ctor by simp
    then show ?thesis
      using beginCtor_sim [OF sim] b Ctor by simp
  next
    case (Match h a arms)
    obtain a' m1 r1 where a: "synthT E c a = (a', m1, r1)" by (metis prod.exhaust)
    have "simS E a" using sim(1) Match height_scrut by simp
    moreover have arms: "\<forall>x \<in> set arms. simS E x"
      using sim(1) Match lower_args(3) by (simp add: lower_def)
    have "reaches E (Eval Synth c a, FScrut c h arms None # K, n) (Ret t' (ok_ty r), K, n + m)"
    proof (rule simS_frame [OF \<open>simS E a\<close> a])
      show "reaches E (resume E (FScrut c h arms None) a' (ok_ty r1) K (n + m1))
        (Ret t' (ok_ty r), K, n + m)"
      proof (cases "rbind r1 (match_data E h (length arms))")
        case (Inl e)
        with b Match a show ?thesis by (cases r1) (auto simp: reaches_refl)
      next
        case (Inr fss)
        then obtain st where st: "r1 = Inr st" "match_data E h (length arms) st = Inr fss"
          by (auto simp: rbind_eq_Inr)
        show ?thesis
        proof (cases "arms = [] \<or> fss = []")
          case True
          with b Match a st show ?thesis
            by (cases arms; cases fss) (auto simp: reaches_refl)
        next
          case False
          then obtain y ys fs gss where yf: "arms = y # ys" "fss = fs # gss"
            by (auto simp: neq_Nil_conv)
          obtain as' m2 r2 where s: "synth_arms (synthT E) c None (y # ys) (fs # gss) = (as', m2, r2)"
            by (metis prod.exhaust)
          show ?thesis
            using synth_arms_loop [of y ys E c None fs gss as' m2 r2 h a' "[]" K "n + m1"] arms s
              b Match a st yf
            by (simp add: add.assoc del: synth_arms.simps)
        qed
      qed
    qed
    with Match show ?thesis by simp
  next
    case (Record ns as)
    show ?thesis
    proof (cases "length ns = length as \<and> as \<noteq> []")
      case False
      with b Record show ?thesis
        by (cases ns; cases as) (auto simp: reaches_refl)
    next
      case True
      then obtain f fs y ys where fy: "ns = f # fs" "as = y # ys" "length fs = length ys"
        by (cases ns; cases as) auto
      have "\<forall>x \<in> set as. simS E x" using sim(1) Record lower_args(4) by (simp add: lower_def)
      moreover obtain as' m2 r2 where
        s: "synth_fields (synthT E) c None (f # fs) (y # ys) = (as', m2, r2)"
        by (metis prod.exhaust)
      ultimately show ?thesis
        using record_loop [of y ys E c f fs as' m2 r2 ns "[]" "[]" K n] b Record fy
        by (simp del: synth_fields.simps)
    qed
  next
    case (Prim op as)
    have sS: "\<forall>x \<in> set as. simS E x" and sC: "\<forall>x \<in> set as. simC E x"
      and low: "\<forall>x \<in> set as. height x < height t"
      using sim Prim lower_args(1) [of op as] by (simp_all add: lower_def)
    show ?thesis
    proof (cases "op = ''==''")
      case False
      show ?thesis
      proof (cases as)
        case Nil
        with b Prim False show ?thesis by (auto simp: synth_prim_def reaches_refl)
      next
        case (Cons y ys)
        obtain as' m2 r2 where s: "synth_list (synthT E) c (y # ys) = (as', m2, r2)"
          by (metis prod.exhaust)
        then show ?thesis
          using prim_loop [of y ys E c as' m2 r2 op "[]" "[]" K n] sS b Prim False Cons
          by (simp add: synth_prim_def del: synth_list.simps)
      qed
    next
      case True
      show ?thesis
      proof (cases "\<exists>x y. as = [x, y]")
        case False
        with b Prim True show ?thesis
          by (auto simp: synth_prim_def reaches_refl split: list.splits)
      next
        case two: True
        then obtain x y where xy: "as = [x, y]" by blast
        have "reaches E (Eval Synth c x, FEqLeft c y # K, n) (Ret t' (ok_ty r), K, n + m)"
        proof (rule eq_sim)
          show "synth_eq (synthT E) (checkT E) c x y = (t', m, r)"
            using b Prim True xy by (simp add: synth_prim_def)
          show "simS E x" "simS E y" "simC E y" using sS sC xy by simp_all
          show "simC E x'" if "fills x x'" for x'
            using sim(2) low xy fills_height [OF that] by simp
        qed
        with Prim True xy show ?thesis by simp
      qed
    qed
  next
    case (Field a f)
    obtain a' m1 r1 where a: "synthT E c a = (a', m1, r1)" by (metis prod.exhaust)
    have "simS E a" using sim(1) Field by simp
    from simS_frame [OF this a, of "FField f"] b Field a show ?thesis
      by (auto simp: reaches_refl)
  next
    case (Lam p a)
    obtain a' m1 r1 where a: "synthT E (pushCtx c p) a = (a', m1, r1)" by (metis prod.exhaust)
    have "simS E a" using sim(1) Lam by simp
    from simS_frame [OF this a, of "FLam p True"] b Lam a show ?thesis
      by (cases r1) (auto simp: reaches_refl split: sum.splits)
  next
    case (Let p a d)
    obtain a' m1 r1 where a: "synthT E c a = (a', m1, r1)" by (metis prod.exhaust)
    obtain d' m2 r2 where d: "synthT E (pushCtx c p) d = (d', m2, r2)" by (metis prod.exhaust)
    have "simS E a" "simS E d" using sim(1) Let by simp_all
    then have "reaches E (Eval Synth c a, FLetBound c p d None # K, n) (Ret t' (ok_ty r), K, n + m)"
      if "wfE E p = Inr ()"
    proof (intro simS_frame [OF _ a])
      show "reaches E (resume E (FLetBound c p d None) a' (ok_ty r1) K (n + m1))
        (Ret t' (ok_ty r), K, n + m)"
        using b Let a d that simS_frame [OF \<open>simS E d\<close> d, of "FLetBody p a'" K "n + m1"]
        by (cases r1) (auto simp: reaches_refl add.assoc)
    qed
    with b Let show ?thesis by (auto simp: reaches_refl split: sum.splits)
  next
    case (If x y z)
    obtain x' m1 r1 where x: "synthT E c x = (x', m1, r1)" by (metis prod.exhaust)
    obtain y' m2 r2 where y: "synthT E c y = (y', m2, r2)" by (metis prod.exhaust)
    obtain z' m3 r3 where z: "synthT E c z = (z', m3, r3)" by (metis prod.exhaust)
    have S: "simS E x" "simS E y" "simS E z"
      using sim(1) If by (simp_all add: less_Suc_eq_le le_max_iff_disj)
    have third: "reaches E (Eval Synth c z, FIfElse x' y' None (Some ty) # K, k)
        (Ret (If x' y' z') (ok_ty (rbind r3 (\<lambda>u. if tyEq ty u then Inr ty else Inl (CBranches ty u)))),
          K, k + m3)" for k ty
      by (rule simS_frame [OF S(3) z]) (cases r3; auto simp: reaches_refl)
    have second: "r2 = Inr ty \<Longrightarrow> reaches E (Eval Synth c y, FIfThen c x' z None # K, k)
        (Ret (If x' y' z') (ok_ty (rbind r3 (\<lambda>u. if tyEq ty u then Inr ty else Inl (CBranches ty u)))),
          K, k + m2 + m3)" for k ty
      by (rule simS_frame [OF S(2) y]) (use third in simp)
    have second_err: "r2 = Inl e \<Longrightarrow> reaches E (Eval Synth c y, FIfThen c x' z None # K, k)
        (Ret (If x' y' z) (Inl e), K, k + m2)" for k e
      by (rule simS_frame [OF S(2) y]) (simp add: reaches_refl)
    have "reaches E (Eval Synth c x, FIfCond c y z None # K, n) (Ret t' (ok_ty r), K, n + m)"
    proof (rule simS_frame [OF S(1) x])
      show "reaches E (resume E (FIfCond c y z None) x' (ok_ty r1) K (n + m1))
        (Ret t' (ok_ty r), K, n + m)"
        using b If x y z second [of _ "n + m1"] second_err [of _ "n + m1"]
        by (cases r1; cases r2) (auto simp: reaches_refl add.assoc)
    qed
    with If show ?thesis by simp
  next
    case (Var i)
    with b show ?thesis by (auto simp: reaches_refl)
  next
    case (IntL i)
    with b show ?thesis by (auto simp: reaches_refl)
  next
    case (RatL i)
    with b show ?thesis by (auto simp: reaches_refl)
  next
    case (FloatL i)
    with b show ?thesis by (auto simp: reaches_refl)
  next
    case (BoolL i)
    with b show ?thesis by (auto simp: reaches_refl)
  next
    case (Ref h ts)
    with b show ?thesis by (auto simp: reaches_refl)
  next
    case (Self ts)
    with b show ?thesis by (auto simp: reaches_refl)
  qed
qed

lemma check_sim_step:
  assumes sim: "\<And>x. height x < height t \<Longrightarrow> simS E x" "\<And>x. height x < height t \<Longrightarrow> simC E x"
    and self: "simS E t" and j: "checkT E c t w = (t', m, r)"
  shows "reaches E (dispatch_check E c t w K n) (Ret t' (ok_unit r), K, n + m)"
proof -
  have b: "check_body (synthT E) (checkT E) E c t w = (t', m, r)"
    using j checkT_eq [of E c t w] by simp
  have default: "reaches E (Eval Synth c t, FCompare w # K, n) (Ret t' (ok_unit r), K, n + m)"
    if "compare_to w (synthT E c t) = (t', m, r)"
  proof -
    obtain u l q where s: "synthT E c t = (u, l, q)" by (metis prod.exhaust)
    then have "reaches E (Eval Synth c t, FCompare w # K, n) (Ret u (ok_ty q), FCompare w # K, n + l)"
      using self by (simp add: simS_def)
    then show ?thesis by (rule compare_sim) (use that s in simp)
  qed
  show ?thesis
  proof (cases t)
    case (App f a)
    show ?thesis
    proof (cases "spine_try (synthT E) (checkT E) E c t (Some w)")
      case None
      then have "beginInferApp E c t (Some w) (FCompare w # K) n = None"
        using spine_try_None by blast
      with default b None App show ?thesis by simp
    next
      case (Some x)
      then obtain S where S: "beginInferApp E c t (Some w) (FCompare w # K) n = Some S"
        using spine_try_None [of "synthT E" "checkT E" E c t "Some w" "FCompare w # K" n] by force
      obtain u l q where x: "x = (u, l, q)" by (metis prod.exhaust)
      have "reaches E S (Ret u (ok_ty q), FCompare w # K, n + l)"
        by (rule beginInferApp_sim [OF sim _ Some [unfolded x] S])
          (use App spine_lower in \<open>simp_all del: height.simps\<close>)
      then have "reaches E S (Ret t' (ok_unit r), K, n + m)"
        by (rule compare_sim) (use b App Some x in simp)
      with S App show ?thesis by simp
    qed
  next
    case (Ctor h i ts as)
    obtain u l q where s: "synth_ctor (synthT E) (checkT E) E c h i ts as (Some w) = (u, l, q)"
      by (metis prod.exhaust)
    have "lower (height t) as" using lower_args(2) Ctor by simp
    then have "reaches E (beginCtor E c h i ts as (Some w) (FCompare w # K) n)
        (Ret u (ok_ty q), FCompare w # K, n + l)"
      using beginCtor_sim [OF sim _ s] by blast
    then have "reaches E (beginCtor E c h i ts as (Some w) (FCompare w # K) n)
        (Ret t' (ok_unit r), K, n + m)"
      by (rule compare_sim) (use b Ctor s in simp)
    with Ctor show ?thesis by simp
  next
    case (Match h a arms)
    obtain a' m1 r1 where a: "synthT E c a = (a', m1, r1)" by (metis prod.exhaust)
    have "simS E a" using sim(1) Match height_scrut by simp
    moreover have arms: "\<forall>x \<in> set arms. simC E x"
      using sim(2) Match lower_args(3) by (simp add: lower_def)
    have "reaches E (Eval Synth c a, FScrut c h arms (Some w) # K, n) (Ret t' (ok_unit r), K, n + m)"
    proof (rule simS_frame [OF \<open>simS E a\<close> a])
      show "reaches E (resume E (FScrut c h arms (Some w)) a' (ok_ty r1) K (n + m1))
        (Ret t' (ok_unit r), K, n + m)"
      proof (cases "rbind r1 (match_data E h (length arms))")
        case (Inl e)
        with b Match a show ?thesis by (cases r1) (auto simp: reaches_refl)
      next
        case (Inr fss)
        then obtain st where st: "r1 = Inr st" "match_data E h (length arms) st = Inr fss"
          by (auto simp: rbind_eq_Inr)
        show ?thesis
        proof (cases "arms = [] \<or> fss = []")
          case True
          with b Match a st show ?thesis
            by (cases arms; cases fss) (auto simp: reaches_refl)
        next
          case False
          then obtain y ys fs gss where yf: "arms = y # ys" "fss = fs # gss"
            by (auto simp: neq_Nil_conv)
          obtain as' m2 r2 where s: "check_arms (checkT E) c w (y # ys) (fs # gss) = (as', m2, r2)"
            by (metis prod.exhaust)
          show ?thesis
            using check_arms_loop [of y ys E c w fs gss as' m2 r2 h a' "[]" K "n + m1"] arms s
              b Match a st yf
            by (simp add: add.assoc del: check_arms.simps)
        qed
      qed
    qed
    with Match show ?thesis by simp
  next
    case (Lam p a)
    show ?thesis
    proof (cases "\<exists>x y. w = TFun x y")
      case False
      with default b Lam show ?thesis by (cases w) simp_all
    next
      case True
      then obtain x y where xy: "w = TFun x y" by blast
      obtain a' m1 r1 where a: "checkT E (pushCtx c p) a y = (a', m1, r1)" by (metis prod.exhaust)
      have "simC E a" using sim(2) Lam by simp
      have body: "reaches E (Eval (Check y) (pushCtx c p) a, FLam p False # K, n)
          (Ret (Lam p a') (ok_unit r1), K, n + m1)"
        by (rule simC_frame [OF \<open>simC E a\<close> a]) (cases r1; simp add: reaches_refl)
      obtain v where v: "wfE E p = v" by blast
      from b Lam a xy body show ?thesis
        unfolding Lam xy dispatch_check.simps check_body.simps ty.case v
        by (cases v) (auto simp: reaches_refl split: if_splits)
    qed
  next
    case (Let p a d)
    obtain a' m1 r1 where a: "checkT E c a p = (a', m1, r1)" by (metis prod.exhaust)
    obtain d' m2 r2 where d: "checkT E (pushCtx c p) d w = (d', m2, r2)" by (metis prod.exhaust)
    have "simC E a" "simC E d" using sim(2) Let by simp_all
    then have "reaches E (Eval (Check p) c a, FLetBound c p d (Some w) # K, n)
        (Ret t' (ok_unit r), K, n + m)"
      if "wfE E p = Inr ()"
    proof (intro simC_frame [OF _ a])
      show "reaches E (resume E (FLetBound c p d (Some w)) a' (ok_unit r1) K (n + m1))
        (Ret t' (ok_unit r), K, n + m)"
        using b Let a d that simC_frame [OF \<open>simC E d\<close> d, of "FLetBody p a'" K "n + m1"]
        by (cases r1) (auto simp: reaches_refl add.assoc)
    qed
    with b Let show ?thesis by (auto simp: reaches_refl split: sum.splits)
  next
    case (If x y z)
    obtain x' m1 r1 where x: "synthT E c x = (x', m1, r1)" by (metis prod.exhaust)
    obtain y' m2 r2 where y: "checkT E c y w = (y', m2, r2)" by (metis prod.exhaust)
    obtain z' m3 r3 where z: "checkT E c z w = (z', m3, r3)" by (metis prod.exhaust)
    have S: "simS E x" "simC E y" "simC E z"
      using sim If by (simp_all add: less_Suc_eq_le le_max_iff_disj)
    have third: "reaches E (Eval (Check w) c z, FIfElse x' y' (Some w) None # K, k)
        (Ret (If x' y' z') (ok_unit r3), K, k + m3)" for k
      by (rule simC_frame [OF S(3) z]) (cases r3; auto simp: reaches_refl)
    have second: "r2 = Inr u \<Longrightarrow> reaches E (Eval (Check w) c y, FIfThen c x' z (Some w) # K, k)
        (Ret (If x' y' z') (ok_unit r3), K, k + m2 + m3)" for k u
      by (rule simC_frame [OF S(2) y]) (use third in simp)
    have second_err: "r2 = Inl e \<Longrightarrow> reaches E (Eval (Check w) c y, FIfThen c x' z (Some w) # K, k)
        (Ret (If x' y' z) (Inl e), K, k + m2)" for k e
      by (rule simC_frame [OF S(2) y]) (simp add: reaches_refl)
    have "reaches E (Eval Synth c x, FIfCond c y z (Some w) # K, n) (Ret t' (ok_unit r), K, n + m)"
    proof (rule simS_frame [OF S(1) x])
      show "reaches E (resume E (FIfCond c y z (Some w)) x' (ok_ty r1) K (n + m1))
        (Ret t' (ok_unit r), K, n + m)"
        using b If x y z second [of _ "n + m1"] second_err [of _ "n + m1"]
        by (cases r1; cases r2) (auto simp: reaches_refl add.assoc)
    qed
    with If show ?thesis by simp
  qed (use default b in simp_all)
qed

lemma simulation: "simS E t \<and> simC E t"
proof (induction "height t" arbitrary: t rule: less_induct)
  case less
  have "simS E t"
    unfolding simS_def
  proof (intro allI impI reaches_synth)
    fix c K n t' m r
    assume "synthT E c t = (t', m, r)"
    then show "reaches E (dispatch_synth E c t K n) (Ret t' (ok_ty r), K, n + m)"
      using less by (intro synth_sim_step) blast+
  qed
  moreover from this have "simC E t"
    unfolding simC_def
  proof (intro allI impI reaches_check)
    fix c w K n t' m r
    assume "checkT E c t w = (t', m, r)"
    then show "reaches E (dispatch_check E c t w K n) (Ret t' (ok_unit r), K, n + m)"
      using less \<open>simS E t\<close> by (intro check_sim_step) blast+
  qed
  ultimately show ?case ..
qed

subsection \<open>run\<close>

lemma reaches_while:
  "reaches E s f \<Longrightarrow> final f \<Longrightarrow> while_option (\<lambda>s. \<not> final s) (mstep E) s = Some f"
  unfolding reaches_def
proof (induction rule: converse_rtranclp_induct)
  case base
  then show ?case by (simp add: while_option_unfold)
next
  case (step s s')
  then show ?case by (subst while_option_unfold) (simp add: mtrans_def)
qed

lemma run_synth:
  assumes "synthT E c t = (t', m, r)"
  shows "run E Synth c t = Some (Ret t' (ok_ty r), [], m)"
proof -
  have "simS E t" using simulation by blast
  then have "reaches E (Eval Synth c t, [], 0) (Ret t' (ok_ty r), [], 0 + m)"
    using assms unfolding simS_def by blast
  then show ?thesis unfolding run_def by (simp add: reaches_while)
qed

lemma run_check:
  assumes "checkT E c t w = (t', m, r)"
  shows "run E (Check w) c t = Some (Ret t' (ok_unit r), [], m)"
proof -
  have "simC E t" using simulation by blast
  then have "reaches E (Eval (Check w) c t, [], 0) (Ret t' (ok_unit r), [], 0 + m)"
    using assms unfolding simC_def by blast
  then show ?thesis unfolding run_def by (simp add: reaches_while)
qed

end
