(* ===== verification/CheckDef.thy ===== *)
theory CheckDef
  imports MachineProps
begin

text \<open>
  \<^verbatim>\<open>checkDef\<close> of \<^verbatim>\<open>oath/check.go\<close>: the kernel's judgement on a whole definition, with the
  explicit machine doing the work on bodies and properties. It returns the definition with
  the type arguments it filled in, or the first diagnostic with the place it belongs to.
  \<open>KNoResult\<close> would be a machine that never ends.
\<close>

datatype ckerr =
    KNoCtors | KField nat nat terr | KType terr | KBody cerr | KConcrete nat
  | KBinder nat nat terr | KProp nat cerr | KNoResult

text \<open>One run of a fresh machine in check mode.\<close>

definition runCheck :: "env \<Rightarrow> ctx \<Rightarrow> trm \<Rightarrow> ty \<Rightarrow> (trm \<times> (cerr + unit)) option" where
  "runCheck E c t w =
     (case run E (Check w) c t of
        Some (Ret t' r, _, _) \<Rightarrow> Some (t', case r of Inl e \<Rightarrow> Inl e | Inr _ \<Rightarrow> Inr ())
      | _ \<Rightarrow> None)"

fun check_fields :: "store \<Rightarrow> nat \<Rightarrow> nat \<Rightarrow> nat \<Rightarrow> ty list \<Rightarrow> ckerr + unit" where
  "check_fields st n ci fi [] = Inr ()"
| "check_fields st n ci fi (t # ts) =
     (case checkTyWF st n True t of
        Inl e \<Rightarrow> Inl (KField ci fi e)
      | Inr _ \<Rightarrow>
          (case strictlyPositiveTy st t False of
             Inl e \<Rightarrow> Inl (KField ci fi e)
           | Inr _ \<Rightarrow> check_fields st n ci (fi + 1) ts))"

fun check_ctors :: "store \<Rightarrow> nat \<Rightarrow> nat \<Rightarrow> ty list list \<Rightarrow> ckerr + unit" where
  "check_ctors st n ci [] = Inr ()"
| "check_ctors st n ci (fs # cs) =
     rbind (check_fields st n ci 0 fs) (\<lambda>_. check_ctors st n (ci + 1) cs)"

fun check_binders :: "store \<Rightarrow> nat \<Rightarrow> nat \<Rightarrow> ty list \<Rightarrow> ctx \<Rightarrow> ckerr + ctx" where
  "check_binders st j bi [] c = Inr c"
| "check_binders st j bi (b # bs) c =
     (if \<not> tyIsConcrete b then Inl (KConcrete j)
      else case checkTyWF st 0 False b of
          Inl e \<Rightarrow> Inl (KBinder j bi e)
        | Inr _ \<Rightarrow> check_binders st j (bi + 1) bs (pushCtx c b))"

fun check_props :: "env \<Rightarrow> nat \<Rightarrow> property list \<Rightarrow> ckerr + property list" where
  "check_props E j [] = Inr []"
| "check_props E j (p # ps) =
     rbind (check_binders (est E) j 0 (binders p) []) (\<lambda>c.
       case runCheck E c (pbody p) TBool of
         None \<Rightarrow> Inl KNoResult
       | Some (t', Inl e) \<Rightarrow> Inl (KProp j e)
       | Some (t', Inr _) \<Rightarrow>
           rbind (check_props E (j + 1) ps) (\<lambda>ps'. Inr (p\<lparr>pbody := t'\<rparr> # ps')))"

fun checkDef :: "store \<Rightarrow> def \<Rightarrow> ckerr + def" where
  "checkDef st (DData n cs) =
     (if cs = [] then Inl KNoCtors
      else rbind (check_ctors st n 0 cs) (\<lambda>_. Inr (DData n cs)))"
| "checkDef st (DFunc n t b ps) =
     (let E = \<lparr>est = st, etv = n, eself = Some t\<rparr> in
      case checkTyWF st n False t of
        Inl e \<Rightarrow> Inl (KType e)
      | Inr _ \<Rightarrow>
          (case runCheck E [] b t of
             None \<Rightarrow> Inl KNoResult
           | Some (b', Inl e) \<Rightarrow> Inl (KBody e)
           | Some (b', Inr _) \<Rightarrow> rbind (check_props E 0 ps) (\<lambda>ps'. Inr (DFunc n t b' ps'))))"

lemma runCheck_eq: "runCheck E c t w = Some (fst (checkT E c t w), snd (snd (checkT E c t w)))"
proof -
  obtain t' m r where j: "checkT E c t w = (t', m, r)" by (metis prod.exhaust)
  show ?thesis
    by (cases r) (simp_all add: runCheck_def run_check [OF j] j)
qed

lemma check_fields_eq:
  "check_fields st n ci fi ts = Inr () \<longleftrightarrow>
     (\<forall>t \<in> set ts. ty_wf st n True t \<and> \<not> rec_occurs st t False True)"
proof (induction ts arbitrary: fi)
  case (Cons t ts)
  then show ?case
    using checkTyWF_eq [of st n True t] strictlyPositiveTy_eq [of st t False]
    by (auto split: sum.splits)
qed simp

lemma check_ctors_eq:
  "check_ctors st n ci cs = Inr () \<longleftrightarrow>
     (\<forall>t \<in> set (concat cs). ty_wf st n True t \<and> \<not> rec_occurs st t False True)"
  by (induction cs arbitrary: ci) (auto simp: rbind_eq_Inr check_fields_eq)

lemma check_binders_eq:
  "check_binders st j bi bs c = Inr c' \<longleftrightarrow>
     list_all (\<lambda>b. tyIsConcrete b \<and> ty_wf st 0 False b) bs \<and> c' = pushAll c bs"
proof (induction bs arbitrary: bi c)
  case (Cons b bs)
  then show ?case
    using checkTyWF_eq [of st 0 False b] by (auto simp: pushAll_def split: sum.splits)
qed (auto simp: pushAll_def)

lemma check_props_result: "check_props E j ps \<noteq> Inl KNoResult"
proof (induction ps arbitrary: j)
  case (Cons p ps)
  have "check_binders st i l bs c \<noteq> Inl KNoResult" for st i l bs c
    by (induction bs arbitrary: l c) (auto split: sum.split)
  with Cons show ?case
    by (auto simp: rbind_eq_Inl runCheck_eq split: sum.splits)
qed simp

lemma checkDef_result: "checkDef st d \<noteq> Inl KNoResult"
proof (cases d)
  case (DData n cs)
  have "check_fields st n ci fi ts \<noteq> Inl KNoResult" for ci fi ts
    by (induction ts arbitrary: fi) (auto split: sum.split)
  then have "check_ctors st n ci cs \<noteq> Inl KNoResult" for ci
    by (induction cs arbitrary: ci) (auto simp: rbind_eq_Inl)
  with DData show ?thesis by (auto simp: rbind_eq_Inl)
next
  case (DFunc n t b ps)
  then show ?thesis
    using check_props_result by (auto simp: Let_def rbind_eq_Inl runCheck_eq split: sum.splits)
qed

text \<open>
  What it takes for \<^verbatim>\<open>checkDef\<close> to accept: for a data type, for a function type and body, for
  its properties.
\<close>

lemma checkDef_data:
  "checkDef st (DData n cs) = Inr d \<longleftrightarrow>
     d = DData n cs \<and> cs \<noteq> [] \<and>
     (\<forall>t \<in> set (concat cs). ty_wf st n True t \<and> \<not> rec_occurs st t False True)"
  using check_ctors_eq [of st n 0 cs] by (auto simp: rbind_eq_Inr)

definition prop_checked :: "env \<Rightarrow> property \<Rightarrow> property \<Rightarrow> bool" where
  "prop_checked E p p' \<longleftrightarrow>
     list_all (\<lambda>b. tyIsConcrete b \<and> ty_wf (est E) 0 False b) (binders p) \<and>
     binders p' = binders p \<and>
     (\<exists>m. checkT E (pushAll [] (binders p)) (pbody p) TBool = (pbody p', m, Inr ()))"

lemma check_props_eq: "check_props E j ps = Inr ps' \<longleftrightarrow> list_all2 (prop_checked E) ps ps'"
proof (induction ps arbitrary: j ps')
  case (Cons p ps)
  obtain t' m r where j: "checkT E (pushAll [] (binders p)) (pbody p) TBool = (t', m, r)"
    by (metis prod.exhaust)
  have "prop_checked E p p' \<longleftrightarrow> list_all (\<lambda>b. tyIsConcrete b \<and> ty_wf (est E) 0 False b) (binders p) \<and>
      r = Inr () \<and> p' = p\<lparr>pbody := t'\<rparr>" for p'
    using j by (cases p'; cases p) (auto simp: prop_checked_def)
  then show ?case
    using j Cons.IH
    by (auto simp: rbind_eq_Inr check_binders_eq runCheck_eq list_all2_Cons1 split: sum.splits)
qed auto

lemma checkDef_func:
  "checkDef st (DFunc n t b ps) = Inr d \<longleftrightarrow>
     (let E = \<lparr>est = st, etv = n, eself = Some t\<rparr> in
      ty_wf st n False t \<and>
      (\<exists>b' m ps'. checkT E [] b t = (b', m, Inr ()) \<and> list_all2 (prop_checked E) ps ps' \<and>
         d = DFunc n t b' ps'))"
proof -
  let ?E = "\<lparr>est = st, etv = n, eself = Some t\<rparr>"
  obtain b' m r where j: "checkT ?E [] b t = (b', m, r)" by (metis prod.exhaust)
  show ?thesis
    using j checkTyWF_eq [of st n False t]
    by (cases r) (auto simp: Let_def rbind_eq_Inr runCheck_eq check_props_eq split: sum.splits)
qed

end
