(* ===== verification/Typing.thy ===== *)
theory Typing
  imports CheckDef
begin

text \<open>
  A declarative typing relation for terms with all type arguments present, and what it has to
  do with the checker of \<^verbatim>\<open>oath/check.go\<close>: the term a successful judgement leaves is typed
  (soundness of the inference), and every typed term is accepted as it is, with no entry into
  inference (completeness on explicit terms).
\<close>

subsection \<open>Well-formed stores, contexts and types\<close>

text \<open>
  What \<^verbatim>\<open>checkDef\<close> has established about the definitions of a store, as far as types go, and
  that the name \<^verbatim>\<open>List\<close>, when bound, is bound to a data type of one parameter.
\<close>

fun def_wf :: "store \<Rightarrow> def \<Rightarrow> bool" where
  "def_wf st (DData n cs) \<longleftrightarrow> cs \<noteq> [] \<and> (\<forall>fs \<in> set cs. list_all (ty_wf st n True) fs)"
| "def_wf st (DFunc n t b ps) \<longleftrightarrow> ty_wf st n False t"

definition store_wf :: "store \<Rightarrow> bool" where
  "store_wf st \<longleftrightarrow>
     (\<forall>h d. map_of (sdefs st) h = Some d \<longrightarrow> def_wf st d) \<and>
     (\<forall>h. slist st = Some h \<longrightarrow> (\<exists>cs. map_of (sdefs st) h = Some (DData 1 cs)))"

abbreviation wfT :: "env \<Rightarrow> ty \<Rightarrow> bool" where
  "wfT E \<equiv> ty_wf (est E) (etv E) False"

definition env_wf :: "env \<Rightarrow> bool" where
  "env_wf E \<longleftrightarrow> store_wf (est E) \<and> (case eself E of None \<Rightarrow> True | Some t \<Rightarrow> wfT E t)"

abbreviation ctx_wf :: "env \<Rightarrow> ctx \<Rightarrow> bool" where
  "ctx_wf E c \<equiv> list_all (wfT E) c"

lemma GetDef_Inr [simp]: "GetDef st h = Inr d \<longleftrightarrow> map_of (sdefs st) h = Some d"
  by (auto simp: GetDef_def split: option.split)

lemma getE_Inr [simp]: "getE E h = Inr d \<longleftrightarrow> map_of (sdefs (est E)) h = Some d"
  by (simp add: getE_def lift_t_def GetDef_def split: option.split)

lemma wfE_Inr [simp]: "wfE E t = Inr u \<longleftrightarrow> wfT E t"
  using checkTyWF_eq [of "est E" "etv E" False t]
  by (auto simp: wfE_def lift_t_def split: sum.split)

lemma wfsE_Inr [simp]: "wfsE E ts = Inr u \<longleftrightarrow> list_all (wfT E) ts"
proof -
  have "wf_list (est E) (etv E) False ts = Inr () \<longleftrightarrow> list_all (wfT E) ts"
    by (rule wf_list_eq) (rule checkTyWF_eq)
  then show ?thesis by (auto simp: wfsE_def lift_t_def split: sum.split)
qed

lemma lift_p_Inr [simp]: "lift_p r = Inr x \<longleftrightarrow> r = Inr x"
  by (simp add: lift_p_def split: sum.split)

lemma ty_wf_subst:
  "ty_wf st (length ts) False t \<Longrightarrow> list_all (ty_wf st n ar) ts \<Longrightarrow> ty_wf st n ar (substTy t ts)"
  by (induction t) (auto simp: list_all_iff split: option.splits def.splits)

lemma ty_wf_subst_rec:
  assumes "ty_wf st (length ts) True t" "list_all (ty_wf st n False) ts"
    "map_of (sdefs st) h = Some (DData (length ts) cs)"
  shows "ty_wf st n False (resolveRec (substTy t ts) h)"
proof -
  have "ty_wf st n False u \<Longrightarrow> resolveRec u h = u" for u
    by (induction u) (auto simp: list_all_iff map_idI)
  with assms show ?thesis
    by (induction t) (auto simp: list_all_iff split: option.splits def.splits)
qed

lemma instCtorFields_wf:
  assumes "store_wf st" "map_of (sdefs st) h = Some (DData (length ts) cs)" "i < length cs"
    "list_all (ty_wf st n False) ts"
  shows "list_all (ty_wf st n False) (instCtorFields (DData (length ts) cs) h ts i)"
proof -
  have "def_wf st (DData (length ts) cs)"
    using assms(1,2) by (simp only: store_wf_def)
  then have "\<forall>t \<in> set (cs ! i). ty_wf st (length ts) True t"
    using nth_mem [OF assms(3)] by (auto simp: list_all_iff)
  with ty_wf_subst_rec [OF _ assms(4,2)] show ?thesis
    by (auto simp: instCtorFields_def ctors_of_def list_all_iff)
qed

subsection \<open>Matching keeps solutions well-formed\<close>

definition wfS :: "env \<Rightarrow> subst \<Rightarrow> bool" where
  "wfS E s \<longleftrightarrow> list_all (\<lambda>u. case u of None \<Rightarrow> True | Some t \<Rightarrow> wfT E t) s"

definition keeps :: "env \<Rightarrow> subst \<Rightarrow> subst \<Rightarrow> bool" where
  "keeps E s s' \<longleftrightarrow> wfS E s' \<and> length s' = length s"

lemma wfS_replicate [simp]: "wfS E (replicate n None)"
  by (simp add: wfS_def list_all_iff)

lemma wfS_update: "wfS E s \<Longrightarrow> wfT E t \<Longrightarrow> wfS E (s[v := Some t])"
  by (auto simp: wfS_def list_all_iff dest!: subsetD [OF set_update_subset_insert])

lemma matchTys_wf:
  assumes "\<And>a b s. a \<in> set as \<Longrightarrow> wfT E b \<Longrightarrow> wfS E s \<Longrightarrow> keeps E s (fst (matchTy a b s))"
    and "list_all (wfT E) bs" "wfS E s"
  shows "keeps E s (fst (matchTys as bs s))"
  using assms
proof (induction as arbitrary: bs s)
  case Nil
  then show ?case by (simp add: keeps_def)
next
  case (Cons a as)
  have IH: "keeps E s (fst (matchTys as bs s))" if "list_all (wfT E) bs" "wfS E s" for bs s
    by (rule Cons.IH [OF Cons.prems(1) that]) simp
  show ?case
  proof (cases bs)
    case Nil
    then show ?thesis using Cons.prems(3) by (simp add: keeps_def)
  next
    case (Cons b bs')
    have one: "keeps E s (fst (matchTy a b s))"
      using Cons Cons.prems(2,3) by (intro Cons.prems(1)) simp_all
    then have "keeps E s (fst (matchTys as bs' (fst (matchTy a b s))))"
      using IH [of bs' "fst (matchTy a b s)"] Cons Cons.prems(2) by (simp add: keeps_def)
    with one Cons show ?thesis by (cases "matchTy a b s") (simp split: option.split)
  qed
qed

lemma matchTy_wf: "wfT E b \<Longrightarrow> wfS E s \<Longrightarrow> keeps E s (fst (matchTy a b s))"
proof (induction a arbitrary: b s)
  case (TFun p q)
  show ?case
  proof (cases b)
    case (TFun c d)
    with TFun.prems TFun.IH(1) [of c s] have one: "keeps E s (fst (matchTy p c s))" by simp
    with TFun TFun.prems TFun.IH(2) [of d "fst (matchTy p c s)"]
    have "keeps E s (fst (matchTy q d (fst (matchTy p c s))))" by (simp add: keeps_def)
    with one TFun show ?thesis by (cases "matchTy p c s") (simp split: option.split)
  qed (use TFun.prems in \<open>simp_all add: keeps_def\<close>)
next
  case (TData h as)
  have "list_all (wfT E) bs \<Longrightarrow> keeps E s (fst (matchTys as bs s))" for bs
    using matchTys_wf [of as E bs s] TData by blast
  then show ?case using TData.prems by (cases b) (simp_all add: keeps_def)
next
  case (TRec as)
  have "list_all (wfT E) bs \<Longrightarrow> keeps E s (fst (matchTys as bs s))" for bs
    using matchTys_wf [of as E bs s] TRec by blast
  then show ?case using TRec.prems by (cases b) (simp_all add: keeps_def)
next
  case (TRecord ns as)
  have "list_all (wfT E) bs \<Longrightarrow> keeps E s (fst (matchTys as bs s))" for bs
    using matchTys_wf [of as E bs s] TRecord by blast
  then show ?case using TRecord.prems by (cases b) (simp_all add: keeps_def split: option.split)
qed (simp_all add: keeps_def wfS_update split: option.split)

subsection \<open>The typing relation\<close>

inductive typed :: "env \<Rightarrow> ctx \<Rightarrow> trm \<Rightarrow> ty \<Rightarrow> bool" for E where
  typed_Var: "i < length c \<Longrightarrow> typed E c (Var i) (c ! i)"
| typed_Int: "typed E c (IntL v) TInt"
| typed_Rat: "typed E c (RatL r) TRat"
| typed_Float: "typed E c (FloatL f) TFloat"
| typed_Bool: "typed E c (BoolL b) TBool"
| typed_Lam: "wfT E t \<Longrightarrow> typed E (pushCtx c t) b u \<Longrightarrow> typed E c (Lam t b) (TFun t u)"
| typed_App: "typed E c f (TFun p q) \<Longrightarrow> typed E c a p \<Longrightarrow> typed E c (App f a) q"
| typed_Let: "wfT E t \<Longrightarrow> typed E c a t \<Longrightarrow> typed E (pushCtx c t) b u \<Longrightarrow> typed E c (Let t a b) u"
| typed_If:
    "typed E c a TBool \<Longrightarrow> typed E c b t \<Longrightarrow> typed E c d t \<Longrightarrow> typed E c (If a b d) t"
| typed_Prim:
    "op \<noteq> ''=='' \<Longrightarrow> list_all2 (typed E c) as ts \<Longrightarrow> primResultTy (est E) op ts = Inr t \<Longrightarrow>
     typed E c (Prim op as) t"
| typed_Eq:
    "\<not> tyHasFun t \<Longrightarrow> typed E c a t \<Longrightarrow> typed E c b t \<Longrightarrow> typed E c (Prim ''=='' [a, b]) TBool"
| typed_Ref:
    "map_of (sdefs (est E)) h = Some (DFunc (length ts) t b ps) \<Longrightarrow> list_all (wfT E) ts \<Longrightarrow>
     typed E c (Ref h ts) (substTy t ts)"
| typed_Self:
    "eself E = Some t \<Longrightarrow> length ts = etv E \<Longrightarrow> list_all (wfT E) ts \<Longrightarrow>
     typed E c (Self ts) (substTy t ts)"
| typed_Ctor:
    "map_of (sdefs (est E)) h = Some (DData (length ts) cs) \<Longrightarrow> i < length cs \<Longrightarrow>
     list_all (wfT E) ts \<Longrightarrow>
     list_all2 (typed E c) as (instCtorFields (DData (length ts) cs) h ts i) \<Longrightarrow>
     typed E c (Ctor h i ts as) (TData h ts)"
| typed_Match:
    "typed E c a (TData g ts) \<Longrightarrow> h = '''' \<or> h = g \<Longrightarrow>
     map_of (sdefs (est E)) g = Some d \<Longrightarrow> length arms = length (ctors_of d) \<Longrightarrow> arms \<noteq> [] \<Longrightarrow>
     list_all2 (\<lambda>fs x. typed E (pushAll c fs) x t)
       (map (instCtorFields d g ts) [0..<length arms]) arms \<Longrightarrow>
     typed E c (Match h a arms) t"
| typed_Record:
    "length ns = length as \<Longrightarrow> sorted_wrt (<) ns \<Longrightarrow> list_all2 (typed E c) as ts \<Longrightarrow>
     typed E c (Record ns as) (TRecord ns ts)"
| typed_Field:
    "typed E c a (TRecord ns ts) \<Longrightarrow> field_ty ns ts f = Some t \<Longrightarrow> typed E c (Field a f) t"

subsection \<open>Application spines\<close>

lemma peel_substTy:
  "peel t n = Some (ps, r) \<Longrightarrow>
   peel (substTy t ts) n = Some (map (\<lambda>p. substTy p ts) ps, substTy r ts)"
  by (induction t n arbitrary: ps rule: peel.induct) auto

lemma peel_wf:
  "peel t n = Some (ps, r) \<Longrightarrow> ty_wf st m ar t \<Longrightarrow> list_all (ty_wf st m ar) ps \<and> ty_wf st m ar r"
  by (induction t n arbitrary: ps rule: peel.induct) auto

lemma length_peel: "peel t n = Some (ps, r) \<Longrightarrow> length ps = n"
  by (induction t n arbitrary: ps rule: peel.induct) auto

lemma typed_respine:
  "typed E c h t \<Longrightarrow> peel t (length as) = Some (ps, r) \<Longrightarrow> list_all2 (typed E c) as ps \<Longrightarrow>
   typed E c (respine h as) r"
proof (induction as arbitrary: h t ps)
  case (Cons a as)
  then obtain p q qs where t: "t = TFun p q" and ps: "ps = p # qs"
    and q: "peel q (length as) = Some (qs, r)"
    by (cases t) auto
  have "typed E c (App h a) q"
    using Cons.prems t ps by (auto intro: typed_App)
  then have "typed E c (respine (App h a) as) r"
    using q Cons.prems(3) ps by (intro Cons.IH) auto
  then show ?case by (simp add: respine_def)
qed (auto simp: respine_def)

subsection \<open>Types of primitives\<close>

lemma listOfIntTy_wf: "env_wf E \<Longrightarrow> listOfIntTy (est E) = Some t \<Longrightarrow> wfT E t"
  by (auto simp: env_wf_def store_wf_def listOfIntTy_def)

lemma numericTy_Inr:
  "numericTy op ts = Inr t \<Longrightarrow> (t = TInt \<or> t = TRat \<or> t = TFloat) \<and> ts \<noteq> [] \<and> set ts = {t}"
  by (cases ts)
    (auto simp: numericTy_def all_are_def rbind_eq_Inr find_None_iff split: if_splits option.splits)

lemma primResultTy_wf:
  assumes "env_wf E" "primResultTy (est E) op ts = Inr t"
  shows "wfT E t"
  using assms listOfIntTy_wf [OF assms(1)]
  by (auto simp: primResultTy_def Let_def rbind_eq_Inr split: if_splits option.splits
      dest!: numericTy_Inr)

subsection \<open>Soundness of the passes over arguments\<close>

definition sound_sy :: "env \<Rightarrow> synther \<Rightarrow> bool" where
  "sound_sy E sy \<longleftrightarrow>
     (\<forall>c t t' n u. ctx_wf E c \<longrightarrow> sy c t = (t', n, Inr u) \<longrightarrow> typed E c t' u \<and> wfT E u)"

definition sound_ch :: "env \<Rightarrow> checker \<Rightarrow> bool" where
  "sound_ch E ch \<longleftrightarrow>
     (\<forall>c t w t' n. ctx_wf E c \<longrightarrow> wfT E w \<longrightarrow> ch c t w = (t', n, Inr ()) \<longrightarrow> typed E c t' w)"

lemma sound_syD: "sound_sy E sy \<Longrightarrow> ctx_wf E c \<Longrightarrow> sy c t = (t', n, Inr u) \<Longrightarrow> typed E c t' u \<and> wfT E u"
  by (simp add: sound_sy_def)

lemma sound_chD:
  "sound_ch E ch \<Longrightarrow> ctx_wf E c \<Longrightarrow> wfT E w \<Longrightarrow> ch c t w = (t', n, Inr ()) \<Longrightarrow> typed E c t' w"
  unfolding sound_ch_def by blast

lemma pushAll_wf [simp]: "ctx_wf E (pushAll c ts) \<longleftrightarrow> ctx_wf E c \<and> list_all (wfT E) ts"
  by (induction ts arbitrary: c) (auto simp: pushAll_def pushCtx_def)

lemma synth_list_sound:
  assumes s: "sound_sy E sy" and c: "ctx_wf E c"
  shows "synth_list sy c as = (as', n, Inr ts) \<Longrightarrow> list_all2 (typed E c) as' ts \<and> list_all (wfT E) ts"
proof (induction as arbitrary: as' n ts)
  case (Cons a as)
  then show ?case
    by (fastforce simp: rbind_eq_Inr split: prod.splits sum.splits dest: sound_syD [OF s c])
qed simp

lemma synth_fields_sound:
  assumes s: "sound_sy E sy" and c: "ctx_wf E c"
  shows "length ns = length as \<Longrightarrow> synth_fields sy c prev ns as = (as', n, Inr ts) \<Longrightarrow>
    list_all2 (typed E c) as' ts \<and> list_all (wfT E) ts \<and> above prev ns \<and> length as' = length as"
proof (induction ns as arbitrary: prev as' n ts rule: list_induct2)
  case Nil
  then show ?case by (simp add: above_def split: option.split)
next
  case (Cons f fs a as)
  have IH: "list_all2 (typed E c) as' ts \<and> list_all (wfT E) ts \<and> above (Some f) fs \<and>
      length as' = length as"
    if "synth_fields sy c (Some f) fs as = (as', n, Inr ts)" for as' n ts
    using Cons.IH that by blast
  show ?case
    using Cons.prems
    by (auto simp: rbind_eq_Inr above_Cons not_le split: prod.splits sum.splits if_splits option.splits
        dest!: sound_syD [OF s c] dest: IH)
qed

definition got_ok :: "env \<Rightarrow> ctx \<Rightarrow> trm \<Rightarrow> ty option \<Rightarrow> bool" where
  "got_ok E c a g \<longleftrightarrow> (case g of None \<Rightarrow> True | Some t \<Rightarrow> typed E c a t)"

lemma infer_pass_sound:
  assumes s: "sound_sy E sy" and c: "ctx_wf E c"
  shows "infer_pass sy c as ps s = (as', n, s', gots) \<Longrightarrow> wfS E s \<Longrightarrow> length as = length ps \<Longrightarrow>
    keeps E s s' \<and> list_all2 (got_ok E c) as' gots \<and> length as' = length as"
proof (induction as arbitrary: ps s as' n s' gots)
  case Nil
  then show ?case by (simp add: keeps_def)
next
  case (Cons a as)
  obtain p qs where ps: "ps = p # qs" using Cons.prems(3) by (cases ps) auto
  obtain a' m r where j: "sy c a = (a', m, r)" by (metis prod.exhaust)
  let ?s = "case r of Inl _ \<Rightarrow> s | Inr t \<Rightarrow> fst (matchTy p t s)"
  let ?g = "case r of Inl _ \<Rightarrow> None | Inr t \<Rightarrow> Some t"
  obtain as1 k s1 gs1 where rec: "infer_pass sy c as qs ?s = (as1, k, s1, gs1)"
    by (metis prod.exhaust)
  have res: "as' = a' # as1" "s' = s1" "gots = ?g # gs1"
    using Cons.prems(1) ps j rec by (auto split: sum.splits)
  have one: "keeps E s ?s \<and> got_ok E c a' ?g"
  proof (cases r)
    case (Inl e)
    then show ?thesis using Cons.prems(2) by (simp add: keeps_def got_ok_def)
  next
    case (Inr t)
    then show ?thesis
      using sound_syD [OF s c] j matchTy_wf [of E t s p] Cons.prems(2) by (auto simp: got_ok_def)
  qed
  then have "keeps E ?s s1 \<and> list_all2 (got_ok E c) as1 gs1 \<and> length as1 = length as"
    using Cons.prems(3) ps by (intro Cons.IH [OF rec]) (auto simp: keeps_def)
  with one res show ?case by (simp add: keeps_def)
qed

lemma check_list_sound:
  assumes s: "sound_ch E ch" and c: "ctx_wf E c"
  shows "check_list ch c as ts = (as', n, Inr ()) \<Longrightarrow> length as = length ts \<Longrightarrow> list_all (wfT E) ts \<Longrightarrow>
    list_all2 (typed E c) as' ts"
proof (induction as arbitrary: ts as' n)
  case (Cons a as)
  then obtain t us where ts: "ts = t # us" by (cases ts) auto
  have IH: "list_all2 (typed E c) bs us" if "check_list ch c as us = (bs, m, Inr ())" for bs m
    using Cons.IH [OF that] Cons.prems ts by simp
  show ?case
    using Cons.prems ts
    by (auto split: prod.splits sum.splits dest!: IH sound_chD [OF s c, rotated])
qed simp

lemma validate_args_sound:
  assumes s: "sound_ch E ch" and c: "ctx_wf E c"
  shows "list_all2 (got_ok E c) as gots \<Longrightarrow> length ps = length as \<Longrightarrow> list_all (wfT E) ps \<Longrightarrow>
    validate_args ch c i as ps gots = (as', n, Inr ()) \<Longrightarrow> list_all2 (typed E c) as' ps"
proof (induction as arbitrary: i ps gots as' n)
  case (Cons a as)
  then obtain p qs where ps: "ps = p # qs" by (cases ps) auto
  obtain g gs where gots: "gots = g # gs" using Cons.prems by (cases gots) auto
  have IH: "list_all2 (typed E c) bs qs" if "validate_args ch c k as qs gs = (bs, m, Inr ())" for k bs m
    using that Cons.prems ps gots by (intro Cons.IH [of gs qs]) auto
  show ?case
    using Cons.prems ps gots
    by (auto simp: got_ok_def split: option.splits prod.splits sum.splits if_splits
        dest!: IH sound_chD [OF s c, rotated])
qed simp

subsection \<open>Soundness of the rules\<close>

lemma unsolved_None: "unsolved i s = None \<longleftrightarrow> (\<forall>u \<in> set s. u \<noteq> None)"
  by (induction s arbitrary: i rule: unsolved.induct) auto

lemma solved_wf: "wfS E s \<Longrightarrow> unsolved 0 s = None \<Longrightarrow> list_all (wfT E) (map the s)"
  by (auto simp: wfS_def unsolved_None list_all_iff split: option.splits)

lemma store_data: "store_wf st \<Longrightarrow> map_of (sdefs st) h = Some d \<Longrightarrow> def_wf st d"
  by (auto simp: store_wf_def)

lemma seed_keeps:
  assumes "\<forall>w. want = Some w \<longrightarrow> wfT E w"
  shows "keeps E (replicate n None)
    (case want of None \<Rightarrow> replicate n None | Some t \<Rightarrow> fst (matchTy p t (replicate n None)))"
proof (cases want)
  case (Some t)
  then show ?thesis using assms matchTy_wf [of E t "replicate n None" p] by simp
qed (simp add: keeps_def)

lemma synth_ctor_sound:
  assumes E: "env_wf E" and sy: "sound_sy E sy" and ch: "sound_ch E ch" and c: "ctx_wf E c"
    and w: "\<forall>w. want = Some w \<longrightarrow> wfT E w"
    and j: "synth_ctor sy ch E c h i tys args want = (t', n, Inr u)"
  shows "typed E c t' u \<and> wfT E u"
proof -
  obtain m cs where d: "map_of (sdefs (est E)) h = Some (DData m cs)" and i: "i < length cs"
    and len: "length args = length (cs ! i)"
    using j by (auto simp: synth_ctor_def Let_def instCtorFields_def ctors_of_def
        split: sum.splits def.splits if_splits)
  let ?fs = "\<lambda>ts. instCtorFields (DData m cs) h ts i"
  have g: "getE E h = Inr (DData m cs)" using d by simp
  have fin: "typed E c (Ctor h i ts as') (TData h ts) \<and> wfT E (TData h ts)"
    if "check_list ch c as (?fs ts) = (as', k, Inr ())"
      "list_all (wfT E) ts" "length ts = m" "length as = length args" for ts as as' k
  proof -
    have "list_all (wfT E) (?fs ts)"
      using instCtorFields_wf [of "est E" h ts cs i "etv E"] E d i that by (simp add: env_wf_def)
    then have "list_all2 (typed E c) as' (?fs ts)"
      using check_list_sound [OF ch c that(1)] that(4) len by (simp add: instCtorFields_def ctors_of_def)
    then have "typed E c (Ctor h i ts as') (TData h ts)"
      using d i that(2,3) by (auto intro: typed_Ctor)
    then show ?thesis using that(2,3) d by simp
  qed
  have raw: "length (?fs ts) = length args" for ts
    using len by (simp add: instCtorFields_def ctors_of_def)
  show ?thesis
  proof (cases "inferReady m tys")
    case False
    have "\<exists>as' k. length tys = m \<and> list_all (wfT E) tys \<and>
        check_list ch c args (?fs tys) = (as', k, Inr ()) \<and> t' = Ctor h i tys as' \<and> u = TData h tys"
      using j d i raw False
      by (auto simp: synth_ctor_def Let_def rbind_eq_Inr split: if_splits sum.splits prod.splits)
    then show ?thesis using fin by blast
  next
    case True
    let ?s = "case want of None \<Rightarrow> replicate m None
        | Some t \<Rightarrow> fst (matchTy (TData h (identityTyArgs m)) t (replicate m None))"
    obtain as1 k s2 gots where p: "infer_pass sy c args (?fs (identityTyArgs m)) ?s = (as1, k, s2, gots)"
      by (metis prod.exhaust)
    have s1: "keeps E (replicate m None) ?s"
      by (rule seed_keeps [OF w])
    have s2: "keeps E ?s s2" "length as1 = length args"
      using infer_pass_sound [OF sy c p] s1 raw by (simp_all add: keeps_def)
    have "\<exists>as' l. unsolved 0 s2 = None \<and>
        check_list ch c as1 (?fs (map the s2)) = (as', l, Inr ()) \<and>
        t' = Ctor h i (map the s2) as' \<and> u = TData h (map the s2)"
      using j g i raw True p
      by (cases "unsolved 0 s2")
        (auto simp: synth_ctor_def Let_def rbind_eq_Inr simp del: getE_Inr split: prod.splits)
    then show ?thesis
      using fin s1 s2 solved_wf [of E s2] by (auto simp: keeps_def)
  qed
qed

lemma infer_head_typed:
  assumes "env_wf E" "infer_head E head = Some (raw, n)" "list_all (wfT E) ts" "length ts = n"
  shows "typed E c (set_tyargs head ts) (substTy raw ts) \<and> ty_wf (est E) n False raw"
proof (cases head)
  case (Ref h us)
  then obtain b ps where d: "map_of (sdefs (est E)) h = Some (DFunc n raw b ps)"
    using assms(2) by (auto simp: infer_head_def split: sum.splits def.splits if_splits)
  then show ?thesis
    using assms Ref store_data [of "est E" h] by (auto simp: env_wf_def intro: typed_Ref)
next
  case (Self us)
  then show ?thesis
    using assms by (auto simp: infer_head_def env_wf_def split: option.splits if_splits intro: typed_Self)
qed (use assms in \<open>auto simp: infer_head_def\<close>)

lemma try_infer_app_sound:
  assumes E: "env_wf E" and sy: "sound_sy E sy" and ch: "sound_ch E ch" and c: "ctx_wf E c"
    and w: "\<forall>w. want = Some w \<longrightarrow> wfT E w"
    and j: "try_infer_app sy ch E c head args want = Some (t', n, Inr u)"
  shows "typed E c t' u \<and> wfT E u"
proof -
  obtain raw m where head: "infer_head E head = Some (raw, m)"
    using j by (auto simp: try_infer_app_def split: option.splits)
  obtain ps r where ps: "peel raw (length args) = Some (ps, r)"
    using j head by (auto simp: try_infer_app_def split: option.splits)
  let ?s = "case want of None \<Rightarrow> replicate m None | Some t \<Rightarrow> fst (matchTy r t (replicate m None))"
  obtain as1 k s2 gots where p: "infer_pass sy c args ps ?s = (as1, k, s2, gots)"
    by (metis prod.exhaust)
  have s1: "keeps E (replicate m None) ?s"
    by (rule seed_keeps [OF w])
  have s2: "keeps E ?s s2" "length as1 = length args" "list_all2 (got_ok E c) as1 gots"
    using infer_pass_sound [OF sy c p] s1 length_peel [OF ps] by (simp_all add: keeps_def)
  let ?ts = "map the s2" let ?ps = "map (\<lambda>p. substTy p ?ts) ps"
  obtain as' l where v: "unsolved 0 s2 = None"
      "validate_args ch c 0 as1 ?ps gots = (as', l, Inr ())"
      "t' = respine (set_tyargs head ?ts) as'" "u = substTy r ?ts"
    using j head ps p
    by (auto simp: try_infer_app_def Let_def rbind_eq_Inr split: option.splits prod.splits)
  have ts: "list_all (wfT E) ?ts" "length ?ts = m"
    using s1 s2 solved_wf v(1) by (auto simp: keeps_def)
  have hd: "typed E c (set_tyargs head ?ts) (substTy raw ?ts)" and raw: "ty_wf (est E) m False raw"
    using infer_head_typed [OF E head ts] by auto
  have "list_all (ty_wf (est E) m False) ps \<and> ty_wf (est E) m False r"
    by (rule peel_wf [OF ps raw])
  then have wf: "list_all (wfT E) ?ps" "wfT E u"
    using ty_wf_subst [of "est E" ?ts _ "etv E" False] ts v(4) by (auto simp: list_all_iff)
  have "list_all2 (typed E c) as' ?ps"
    using validate_args_sound [OF ch c s2(3) _ wf(1) v(2)] s2(2) length_peel [OF ps] by simp
  moreover have "peel (substTy raw ?ts) (length as') = Some (?ps, u)"
    using peel_substTy [OF ps] calculation length_peel [OF ps] v(4)
    by (simp add: list_all2_lengthD)
  ultimately show ?thesis
    using typed_respine [OF hd] v(3) wf(2) by blast
qed

lemma spine_try_sound:
  assumes "env_wf E" "sound_sy E sy" "sound_ch E ch" "ctx_wf E c"
    and "\<forall>w. want = Some w \<longrightarrow> wfT E w" "spine_try sy ch E c t want = Some (t', n, Inr u)"
  shows "typed E c t' u \<and> wfT E u"
  using assms by (auto simp: spine_try_def split: prod.splits if_splits dest: try_infer_app_sound)

lemma synth_eq_sound:
  assumes sy: "sound_sy E sy" and ch: "sound_ch E ch" and c: "ctx_wf E c"
    and j: "synth_eq sy ch c a b = (t', n, Inr u)"
  shows "typed E c t' u \<and> wfT E u"
  using j
  by (auto simp: synth_eq_def rbind_eq_Inr split: prod.splits sum.splits if_splits
      dest!: sound_syD [OF sy c] dest: sound_chD [OF ch c] intro!: typed_Eq)

lemma refSelfTy_sound:
  assumes E: "env_wf E" and j: "refSelfTy E t = Inr u"
  shows "typed E c t u \<and> wfT E u"
proof (cases t)
  case (Ref h ts)
  obtain e where e: "map_of (sdefs (est E)) h = Some e"
    using j Ref by (auto simp: refSelfTy_def rbind_eq_Inr)
  then obtain ty b ps where d: "map_of (sdefs (est E)) h = Some (DFunc (length ts) ty b ps)"
    and ts: "list_all (wfT E) ts" and u: "u = substTy ty ts"
    using j Ref by (cases e) (auto simp: refSelfTy_def rbind_eq_Inr split: if_splits)
  then have "ty_wf (est E) (length ts) False ty"
    using E store_data by (fastforce simp: env_wf_def)
  then show ?thesis using Ref d ts u by (auto intro: typed_Ref ty_wf_subst)
next
  case (Self ts)
  then show ?thesis
    using j E by (auto simp: refSelfTy_def rbind_eq_Inr env_wf_def split: option.splits if_splits
        intro: typed_Self ty_wf_subst)
qed (use j in \<open>simp_all add: refSelfTy_def\<close>)

lemma match_data_Inr:
  assumes "match_data E h n t = Inr fss"
  obtains g ts d where "t = TData g ts" "h = '''' \<or> h = g" "map_of (sdefs (est E)) g = Some d"
    "n = length (ctors_of d)" "fss = map (instCtorFields d g ts) [0..<n]"
  using assms by (auto simp: match_data_def rbind_eq_Inr split: ty.splits if_splits)

lemma match_data_wf:
  assumes E: "env_wf E" and j: "match_data E h n t = Inr fss" and t: "wfT E t"
  shows "list_all (list_all (wfT E)) fss \<and> length fss = n"
proof -
  obtain g ts d where m: "t = TData g ts" "map_of (sdefs (est E)) g = Some d"
      "n = length (ctors_of d)" "fss = map (instCtorFields d g ts) [0..<n]"
    using match_data_Inr [OF j] by metis
  then obtain cs where d: "d = DData (length ts) cs"
    using t by (auto split: option.splits def.splits)
  have "list_all (wfT E) (instCtorFields d g ts i)" if "i < length cs" for i
    using instCtorFields_wf [of "est E" g ts cs i] E m d t that by (auto simp: env_wf_def)
  then show ?thesis using m d by (auto simp: ctors_of_def list_all_length)
qed

lemma synth_arms_sound:
  assumes s: "sound_sy E sy" and c: "ctx_wf E c"
  shows "synth_arms sy c res as fss = (as', n, Inr t) \<Longrightarrow> length as = length fss \<Longrightarrow>
    list_all (list_all (wfT E)) fss \<Longrightarrow> (\<forall>u. res = Some u \<longrightarrow> wfT E u) \<Longrightarrow>
    list_all2 (\<lambda>fs x. typed E (pushAll c fs) x t) fss as' \<and> wfT E t \<and>
    (\<forall>u. res = Some u \<longrightarrow> t = u) \<and> (res = None \<longrightarrow> as' \<noteq> [])"
proof (induction as arbitrary: res fss as' n)
  case Nil
  then show ?case by (auto split: option.splits)
next
  case (Cons a as)
  then obtain fs gss where fss: "fss = fs # gss" by (cases fss) auto
  obtain a' m r where j: "sy (pushAll c fs) a = (a', m, r)" by (metis prod.exhaust)
  obtain v where r: "r = Inr v" and v: "\<forall>u. res = Some u \<longrightarrow> u = v"
    using Cons.prems(1) fss j by (auto split: sum.splits option.splits if_splits)
  obtain as1 k where rec: "synth_arms sy c (Some v) as gss = (as1, k, Inr t)" and as': "as' = a' # as1"
    using Cons.prems(1) fss j r v by (auto split: option.splits prod.splits if_splits)
  have a: "typed E (pushAll c fs) a' v" "wfT E v"
    using sound_syD [OF s _ j [unfolded r]] c Cons.prems(3) fss by auto
  have "list_all2 (\<lambda>fs x. typed E (pushAll c fs) x t) gss as1 \<and> wfT E t \<and> t = v"
    using Cons.IH [OF rec] Cons.prems(2,3) fss a(2) by auto
  with a v fss as' show ?case by auto
qed

lemma check_arms_sound:
  assumes s: "sound_ch E ch" and c: "ctx_wf E c" and w: "wfT E w"
  shows "check_arms ch c w as fss = (as', n, Inr ()) \<Longrightarrow> length as = length fss \<Longrightarrow>
    list_all (list_all (wfT E)) fss \<Longrightarrow>
    list_all2 (\<lambda>fs x. typed E (pushAll c fs) x w) fss as'"
proof (induction as arbitrary: fss as' n)
  case (Cons a as)
  then obtain fs gss where fss: "fss = fs # gss" by (cases fss) auto
  obtain a' m where j: "ch (pushAll c fs) a w = (a', m, Inr ())"
    using Cons.prems(1) fss by (auto split: prod.splits sum.splits)
  obtain as1 k where rec: "check_arms ch c w as gss = (as1, k, Inr ())" and as': "as' = a' # as1"
    using Cons.prems(1) fss j by (auto split: prod.splits)
  have "typed E (pushAll c fs) a' w"
    using sound_chD [OF s _ w j] c Cons.prems(3) fss by auto
  moreover have "list_all2 (\<lambda>fs x. typed E (pushAll c fs) x w) gss as1"
    using Cons.IH [OF rec] Cons.prems(2,3) fss by simp
  ultimately show ?case using fss as' by simp
qed simp

lemma field_ty_wf: "list_all (wfT E) ts \<Longrightarrow> field_ty ns ts f = Some t \<Longrightarrow> wfT E t"
  by (induction ns ts f rule: field_ty.induct) (auto split: if_splits)

lemma match_sound:
  assumes "typed E c a t" "match_data E h (length arms) t = Inr fss" "length arms' = length arms"
    "arms' \<noteq> []" "list_all2 (\<lambda>fs x. typed E (pushAll c fs) x u) fss arms'"
  shows "typed E c (Match h a arms') u"
  using assms(2)
proof (rule match_data_Inr)
  fix g ts d
  assume "t = TData g ts" "h = '''' \<or> h = g" "map_of (sdefs (est E)) g = Some d"
    "length arms = length (ctors_of d)" "fss = map (instCtorFields d g ts) [0..<length arms]"
  with assms show ?thesis by (auto intro: typed_Match)
qed

lemma synth_match_sound:
  assumes E: "env_wf E" and sy: "sound_sy E sy" and c: "ctx_wf E c"
    and j: "synth_body sy ch E c (Match h a arms) = (t', n, Inr u)"
  shows "typed E c t' u \<and> wfT E u"
proof -
  obtain a' m t where a: "sy c a = (a', m, Inr t)"
    using j by (auto split: prod.splits sum.splits)
  obtain fss where d: "match_data E h (length arms) t = Inr fss"
    using j a by (auto split: sum.splits)
  obtain arms' k where s: "synth_arms sy c None arms fss = (arms', k, Inr u)" and t': "t' = Match h a' arms'"
    using j a d by (auto split: prod.splits)
  have t: "typed E c a' t" "wfT E t" using sound_syD [OF sy c a] by auto
  have "list_all (list_all (wfT E)) fss" "length fss = length arms"
    using match_data_wf [OF E d t(2)] by auto
  with synth_arms_sound [OF sy c s] have arms: "list_all2 (\<lambda>fs x. typed E (pushAll c fs) x u) fss arms'"
    "wfT E u" "arms' \<noteq> []" by auto
  moreover from arms(1) have "length arms' = length arms"
    using \<open>length fss = length arms\<close> by (simp add: list_all2_lengthD)
  ultimately show ?thesis using match_sound [OF t(1) d] t' by blast
qed

lemma check_match_sound:
  assumes E: "env_wf E" and sy: "sound_sy E sy" and ch: "sound_ch E ch" and c: "ctx_wf E c"
    and w: "wfT E w" and j: "check_body sy ch E c (Match h a arms) w = (t', n, Inr ())"
  shows "typed E c t' w"
proof -
  obtain a' m t where a: "sy c a = (a', m, Inr t)"
    using j by (auto split: prod.splits sum.splits)
  obtain fss where d: "match_data E h (length arms) t = Inr fss"
    using j a by (auto split: sum.splits)
  obtain arms' k where s: "check_arms ch c w arms fss = (arms', k, Inr ())" and t': "t' = Match h a' arms'"
    using j a d by (auto split: prod.splits)
  have t: "typed E c a' t" "wfT E t" using sound_syD [OF sy c a] by auto
  have fss: "list_all (list_all (wfT E)) fss" "length fss = length arms"
    using match_data_wf [OF E d t(2)] by auto
  with check_arms_sound [OF ch c w s] have arms: "list_all2 (\<lambda>fs x. typed E (pushAll c fs) x w) fss arms'"
    by auto
  moreover have "length arms' = length arms"
    using arms fss(2) by (simp add: list_all2_lengthD)
  moreover have "arms \<noteq> []"
    using d t(2) E store_data by (fastforce simp: match_data_def rbind_eq_Inr env_wf_def ctors_of_def
        split: ty.splits if_splits option.splits def.splits)
  ultimately show ?thesis using match_sound [OF t(1) d] t' by fastforce
qed

lemma synth_body_sound:
  assumes E: "env_wf E" and sy: "sound_sy E sy" and ch: "sound_ch E ch"
  shows "sound_sy E (synth_body sy ch E)"
  unfolding sound_sy_def
proof (intro allI impI)
  fix c t t' n u
  assume c: "ctx_wf E c" and j: "synth_body sy ch E c t = (t', n, Inr u)"
  show "typed E c t' u \<and> wfT E u"
  proof (cases t)
    case (Var i)
    then show ?thesis
      using j c by (auto simp: not_le list_all_length split: if_splits intro: typed_Var)
  next
    case (Lam p b)
    have "ctx_wf E (pushCtx c p)" if "wfT E p" using c that by (simp add: pushCtx_def)
    with Lam show ?thesis
      using j by (auto simp: rbind_eq_Inr split: sum.splits prod.splits
          dest!: sound_syD [OF sy] intro!: typed_Lam)
  next
    case (App f a)
    have "spine_try sy ch E c t None = Some (t', n, Inr u) \<Longrightarrow> ?thesis"
      by (rule spine_try_sound [OF E sy ch c]) auto
    with App show ?thesis
      using j by (auto simp: rbind_eq_Inr split: option.splits prod.splits sum.splits ty.splits if_splits
          dest!: sound_syD [OF sy c] intro: typed_App)
  next
    case (Let p a b)
    have "ctx_wf E (pushCtx c p)" if "wfT E p" using c that by (simp add: pushCtx_def)
    with Let show ?thesis
      using j by (auto split: sum.splits prod.splits if_splits dest!: sound_syD [OF sy]
          sound_syD [OF sy c] intro!: typed_Let)
  next
    case (If a b d)
    then show ?thesis
      using j by (auto simp: rbind_eq_Inr split: sum.splits prod.splits if_splits
          dest!: sound_syD [OF sy c] intro!: typed_If)
  next
    case (Prim op as)
    show ?thesis
    proof (cases "op = ''==''")
      case True
      then show ?thesis
        using j Prim synth_eq_sound [OF sy ch c] by (auto simp: synth_prim_def split: list.splits)
    next
      case False
      then obtain ts m where "synth_list sy c as = (m, n, Inr ts)"
          "primResultTy (est E) op ts = Inr u" "t' = Prim op m"
        using j Prim by (auto simp: synth_prim_def rbind_eq_Inr split: prod.splits)
      then show ?thesis
        using synth_list_sound [OF sy c] primResultTy_wf [OF E] False by (blast intro: typed_Prim)
    qed
  next
    case (Match h a arms)
    then show ?thesis using synth_match_sound [OF E sy c] j by blast
  next
    case (Record ns as)
    then obtain as' ts where s: "synth_fields sy c None ns as = (as', n, Inr ts)"
      and len: "length ns = length as" and t': "t' = Record ns as'" "u = TRecord ns ts"
      using j by (auto simp: rbind_eq_Inr split: if_splits prod.splits)
    have r: "list_all2 (typed E c) as' ts" "list_all (wfT E) ts" "sorted_wrt (<) ns"
        "length as' = length as"
      using synth_fields_sound [OF sy c len s] by (auto simp: above_None)
    then show ?thesis using t' len by (auto simp: list_all2_lengthD intro: typed_Record)
  next
    case (Field a f)
    obtain a' m r where a: "sy c a = (a', m, r)" by (metis prod.exhaust)
    then obtain v where r: "r = Inr v" using j Field by (cases r) auto
    obtain ns ts where "v = TRecord ns ts" "field_ty ns ts f = Some u" "t' = Field a' f"
      using j Field a r by (cases v) (auto split: option.splits)
    then show ?thesis
      using sound_syD [OF sy c a [unfolded r]] by (auto intro: typed_Field field_ty_wf)
  qed (use j refSelfTy_sound [OF E] synth_ctor_sound [OF E sy ch c, of None] in
      \<open>auto intro: typed.intros\<close>)
qed

lemma compare_sound:
  assumes "compare_to w j = (t', n, Inr ())" "\<And>u. j = (t', n, Inr u) \<Longrightarrow> typed E c t' u"
  shows "typed E c t' w"
  using assms by (auto simp: compare_to_def rbind_eq_Inr split: prod.splits if_splits)

lemma check_body_sound:
  assumes E: "env_wf E" and sy: "sound_sy E sy" and ch: "sound_ch E ch"
  shows "sound_ch E (check_body sy ch E)"
  unfolding sound_ch_def
proof (intro allI impI)
  fix c t w t' n
  assume c: "ctx_wf E c" and w: "wfT E w" and j: "check_body sy ch E c t w = (t', n, Inr ())"
  have dflt: "typed E c t' w" if "compare_to w (sy c t) = (t', n, Inr ())"
    by (rule compare_sound [OF that]) (use sound_syD [OF sy c] in blast)
  show "typed E c t' w"
  proof (cases t)
    case (Lam p b)
    have push: "ctx_wf E (pushCtx c p)" if "wfT E p" using c that by (simp add: pushCtx_def)
    show ?thesis
    proof (cases w)
      case (TFun q r)
      then show ?thesis
        using j Lam w push by (auto split: sum.splits prod.splits if_splits
            dest!: sound_chD [OF ch, rotated 2] intro!: typed_Lam)
    qed (use j Lam dflt in auto)
  next
    case (App f a)
    have "?thesis" if "spine_try sy ch E c t (Some w) = Some x" "compare_to w x = (t', n, Inr ())" for x
      by (rule compare_sound [OF that(2)]) (use spine_try_sound [OF E sy ch c, of "Some w" t] w that(1) in auto)
    with App show ?thesis using j dflt by (auto split: option.splits)
  next
    case (Let p a b)
    have push: "ctx_wf E (pushCtx c p)" if "wfT E p" using c that by (simp add: pushCtx_def)
    show ?thesis
      using j Let push by (auto split: sum.splits prod.splits dest: sound_chD [OF ch _ w]
          sound_chD [OF ch c] intro!: typed_Let)
  next
    case (If a b d)
    then show ?thesis
      using j by (auto split: sum.splits prod.splits if_splits dest!: sound_syD [OF sy c]
          sound_chD [OF ch c w] intro!: typed_If)
  next
    case (Ctor h i ts as)
    show ?thesis
    proof (rule compare_sound)
      show "compare_to w (synth_ctor sy ch E c h i ts as (Some w)) = (t', n, Inr ())"
        using j Ctor by simp
    qed (use synth_ctor_sound [OF E sy ch c, of "Some w"] w in auto)
  next
    case (Match h a arms)
    then show ?thesis using check_match_sound [OF E sy ch c w] j by blast
  qed (use j dflt in auto)
qed

lemma judgement_sound:
  assumes "env_wf E"
  shows "sound_sy E (synth k E) \<and> sound_ch E (check k E)"
proof (induction k)
  case 0
  show ?case by (simp add: sound_sy_def sound_ch_def)
next
  case (Suc k)
  have "synth (Suc k) E = synth_body (synth k E) (check k E) E"
    "check (Suc k) E = check_body (synth k E) (check k E) E"
    by (intro ext; simp)+
  with Suc synth_body_sound [OF assms] check_body_sound [OF assms] show ?case by simp
qed

subsection \<open>Completeness on explicit terms\<close>

definition synths :: "env \<Rightarrow> ctx \<Rightarrow> trm \<Rightarrow> ty \<Rightarrow> bool" where
  "synths E c t u \<longleftrightarrow> synthT E c t = (t, 0, Inr u)"

definition checks :: "env \<Rightarrow> ctx \<Rightarrow> trm \<Rightarrow> ty \<Rightarrow> bool" where
  "checks E c t u \<longleftrightarrow> checkT E c t u = (t, 0, Inr ())"

lemma synth_list_complete:
  "list_all2 (synths E c) as ts \<Longrightarrow> synth_list (synthT E) c as = (as, 0, Inr ts)"
  by (induction rule: list_all2_induct) (simp_all add: synths_def)

lemma synth_fields_complete:
  "list_all2 (synths E c) as ts \<Longrightarrow> length ns = length as \<Longrightarrow> above prev ns \<Longrightarrow>
   synth_fields (synthT E) c prev ns as = (as, 0, Inr ts)"
proof (induction arbitrary: ns prev rule: list_all2_induct)
  case Nil
  then show ?case by simp
next
  case (Cons a as t ts)
  then obtain f fs where ns: "ns = f # fs" by (cases ns) auto
  then have "synth_fields (synthT E) c (Some f) fs as = (as, 0, Inr ts)"
    using Cons.prems by (intro Cons.IH) (simp_all add: above_Cons)
  then show ?case
    using Cons ns by (auto simp: synths_def above_Cons split: option.split)
qed

lemma check_list_complete:
  "list_all2 (checks E c) as ts \<Longrightarrow> check_list (checkT E) c as ts = (as, 0, Inr ())"
  by (induction rule: list_all2_induct) (simp_all add: checks_def)

lemma synth_arms_complete:
  "list_all2 (\<lambda>fs x. synths E (pushAll c fs) x u) fss as \<Longrightarrow> res = None \<and> as \<noteq> [] \<or> res = Some u \<Longrightarrow>
   synth_arms (synthT E) c res as fss = (as, 0, Inr u)"
  by (induction arbitrary: res rule: list_all2_induct) (auto simp: synths_def)

lemma check_arms_complete:
  "list_all2 (\<lambda>fs x. checks E (pushAll c fs) x u) fss as \<Longrightarrow>
   check_arms (checkT E) c u as fss = (as, 0, Inr ())"
  by (induction rule: list_all2_induct) (auto simp: checks_def)

lemma inferReady_full: "\<not> inferReady (length ts) ts"
  by (simp add: inferReady_def)

inductive_cases typed_AppE: "typed E c (App f a) t"
inductive_cases typed_RefE: "typed E c (Ref h ts) t"
inductive_cases typed_SelfE: "typed E c (Self ts) t"

lemma typed_spine_acc: "typed E c t u \<Longrightarrow> spine_acc t as = (h, bs) \<Longrightarrow> \<exists>v. typed E c h v"
  by (induction t as arbitrary: u rule: spine_acc.induct) (auto elim: typed_AppE)

lemma typed_infer_head: "typed E c t u \<Longrightarrow> infer_head E t = None"
  by (cases t) (auto simp: infer_head_def inferReady_def elim!: typed_RefE typed_SelfE
      split: sum.split option.split def.split)

lemma typed_spine_try: "typed E c t u \<Longrightarrow> spine_try sy ch E c t want = None"
  using typed_spine_acc [of E c t u "[]"] typed_infer_head [of E c]
  by (fastforce simp: spine_try_def spine_def try_infer_app_def split: prod.split)

lemma checks_default:
  "synths E c t u \<Longrightarrow> check_body (synthT E) (checkT E) E c t u = compare_to u (synthT E c t) \<Longrightarrow>
   checks E c t u"
  by (simp add: synths_def checks_def checkT_eq [of E c t] compare_to_def)

lemma ok_rules:
  "wfT E t \<Longrightarrow> wfE E t = Inr ()"
  "list_all (wfT E) ts \<Longrightarrow> wfsE E ts = Inr ()"
  "map_of (sdefs (est E)) h = Some d \<Longrightarrow> getE E h = Inr d"
  by simp_all

lemma typed_complete: "typed E c t u \<Longrightarrow> synths E c t u \<and> checks E c t u"
proof (induction rule: typed.induct)
  case (typed_Var i c)
  then have "synths E c (Var i) (c ! i)" by (simp add: synths_def synthT_eq [of E c "Var i"])
  then show ?case by (auto intro: checks_default)
next
  case (typed_Int c v)
  have "synths E c (IntL v) TInt" by (simp add: synths_def synthT_eq [of E c "IntL v"])
  then show ?case by (auto intro: checks_default)
next
  case (typed_Rat c r)
  have "synths E c (RatL r) TRat" by (simp add: synths_def synthT_eq [of E c "RatL r"])
  then show ?case by (auto intro: checks_default)
next
  case (typed_Float c f)
  have "synths E c (FloatL f) TFloat" by (simp add: synths_def synthT_eq [of E c "FloatL f"])
  then show ?case by (auto intro: checks_default)
next
  case (typed_Bool c b)
  have "synths E c (BoolL b) TBool" by (simp add: synths_def synthT_eq [of E c "BoolL b"])
  then show ?case by (auto intro: checks_default)
next
  case (typed_Lam t c b u)
  then show ?case
    by (simp add: synths_def checks_def ok_rules synthT_eq [of E c "Lam t b"] checkT_eq [of E c "Lam t b"])
next
  case (typed_App c f p q a)
  then have "typed E c (App f a) q" by (auto intro: typed.typed_App)
  note none = typed_spine_try [OF this]
  have s: "synths E c (App f a) q"
    using typed_App by (simp add: synths_def none synthT_eq [of E c "App f a"])
  moreover have "checks E c (App f a) q"
    by (rule checks_default [OF s]) (simp add: none)
  ultimately show ?case ..
next
  case (typed_Let t c a b u)
  then show ?case
    by (simp add: synths_def checks_def ok_rules synthT_eq [of E c "Let t a b"] checkT_eq [of E c "Let t a b"])
next
  case (typed_If c a b t d)
  then show ?case
    by (simp add: synths_def checks_def synthT_eq [of E c "If a b d"] checkT_eq [of E c "If a b d"])
next
  case (typed_Prim op c as ts t)
  have "synth_list (synthT E) c as = (as, 0, Inr ts)"
    using typed_Prim by (intro synth_list_complete) (auto elim: list_all2_mono)
  then have "synths E c (Prim op as) t"
    using typed_Prim by (simp add: synths_def synth_prim_def lift_p_def synthT_eq [of E c "Prim op as"])
  then show ?case by (auto intro: checks_default)
next
  case (typed_Eq t c a b)
  then have "synths E c (Prim ''=='' [a, b]) TBool"
    by (simp add: synths_def checks_def synth_prim_def synth_eq_def synthT_eq [of E c "Prim ''=='' [a, b]"])
  then show ?case by (auto intro: checks_default)
next
  case (typed_Ref h ts t b ps c)
  then have "synths E c (Ref h ts) (substTy t ts)"
    by (simp add: synths_def refSelfTy_def ok_rules synthT_eq [of E c "Ref h ts"])
  then show ?case by (auto intro: checks_default)
next
  case (typed_Self t ts c)
  then have "synths E c (Self ts) (substTy t ts)"
    by (simp add: synths_def refSelfTy_def ok_rules synthT_eq [of E c "Self ts"])
  then show ?case by (auto intro: checks_default)
next
  case (typed_Ctor h ts cs i c as)
  let ?fs = "\<lambda>ts. instCtorFields (DData (length ts) cs) h ts i"
  have l: "check_list (checkT E) c as (?fs ts) = (as, 0, Inr ())"
    using typed_Ctor by (intro check_list_complete) (auto elim: list_all2_mono)
  have n: "length as = length (instCtorFields (DData (length ts) cs) h vs i)" for vs
    using typed_Ctor by (auto dest!: list_all2_lengthD simp add: instCtorFields_def)
  have "synth_ctor (synthT E) (checkT E) E c h i ts as want = (Ctor h i ts as, 0, Inr (TData h ts))" for want
    using typed_Ctor.hyps(1-3) l n inferReady_full
    by (simp add: synth_ctor_def ok_rules not_le Let_def del: getE_Inr wfsE_Inr)
  then show ?case
    by (simp add: synths_def checks_def compare_to_def synthT_eq [of E c "Ctor h i ts as"]
        checkT_eq [of E c "Ctor h i ts as"])
next
  case (typed_Match c a g ts h d arms t)
  let ?fss = "map (instCtorFields d g ts) [0..<length arms]"
  have d: "match_data E h (length arms) (TData g ts) = Inr ?fss"
    using typed_Match.hyps(2-4) by (auto simp: match_data_def ok_rules simp del: getE_Inr)
  have "synth_arms (synthT E) c None arms ?fss = (arms, 0, Inr t)"
    "check_arms (checkT E) c t arms ?fss = (arms, 0, Inr ())"
    using typed_Match by (auto intro!: synth_arms_complete check_arms_complete elim: list_all2_mono)
  with d typed_Match.IH show ?case
    by (simp add: synths_def checks_def synthT_eq [of E c "Match h a arms"]
        checkT_eq [of E c "Match h a arms"])
next
  case (typed_Record ns as c ts)
  have "synth_fields (synthT E) c None ns as = (as, 0, Inr ts)"
    using typed_Record by (intro synth_fields_complete) (auto simp: above_None elim: list_all2_mono)
  then have "synths E c (Record ns as) (TRecord ns ts)"
    using typed_Record by (simp add: synths_def synthT_eq [of E c "Record ns as"])
  then show ?case by (auto intro: checks_default)
next
  case (typed_Field c a ns ts f t)
  then have "synths E c (Field a f) t"
    by (simp add: synths_def synthT_eq [of E c "Field a f"])
  then show ?case by (auto intro: checks_default)
qed

subsection \<open>Definitions\<close>

text \<open>
  A definition all of whose terms are explicitly typed, which is what \<^verbatim>\<open>checkDef\<close> makes of
  the definitions it accepts.
\<close>

fun def_typed :: "store \<Rightarrow> def \<Rightarrow> bool" where
  "def_typed st (DData n cs) \<longleftrightarrow> True"
| "def_typed st (DFunc n t b ps) \<longleftrightarrow>
     (let E = \<lparr>est = st, etv = n, eself = Some t\<rparr> in
      typed E [] b t \<and> list_all (\<lambda>p. typed E (pushAll [] (binders p)) (pbody p) TBool) ps)"

lemma ty_wf_mono: "ty_wf st 0 False t \<Longrightarrow> ty_wf st n False t"
  by (induction t) (auto simp: list_all_iff)

lemma checkT_sound:
  "env_wf E \<Longrightarrow> ctx_wf E c \<Longrightarrow> wfT E w \<Longrightarrow> checkT E c t w = (t', n, Inr ()) \<Longrightarrow> typed E c t' w"
  using judgement_sound [of E "2 * height t"] sound_chD [of E "check (2 * height t) E" c w t t' n]
  by (simp add: checkT_def)

lemma typed_checkT: "typed E c t w \<Longrightarrow> checkT E c t w = (t, 0, Inr ())"
  using typed_complete [of E c t w] by (simp add: checks_def)

lemma prop_checked_typed:
  assumes "env_wf E" "prop_checked E p p'"
  shows "typed E (pushAll [] (binders p')) (pbody p') TBool \<and> prop_checked E p' p'"
proof -
  obtain m where b: "list_all (\<lambda>b. tyIsConcrete b \<and> ty_wf (est E) 0 False b) (binders p)"
      "binders p' = binders p" "checkT E (pushAll [] (binders p)) (pbody p) TBool = (pbody p', m, Inr ())"
    using assms(2) by (auto simp: prop_checked_def)
  have "ctx_wf E (pushAll [] (binders p))"
    using b(1) ty_wf_mono [of "est E" _ "etv E"] by (simp add: list.pred_mono_strong)
  with b assms(1) have *: "typed E (pushAll [] (binders p')) (pbody p') TBool"
    using checkT_sound [of E "pushAll [] (binders p)" TBool "pbody p" "pbody p'" m] by simp
  with typed_checkT [OF *] b show ?thesis by (auto simp: prop_checked_def)
qed

lemma checkDef_typed:
  assumes st: "store_wf st" and d: "checkDef st d = Inr d'"
  shows "def_typed st d' \<and> def_wf st d' \<and> checkDef st d' = Inr d'"
proof (cases d)
  case (DData n cs)
  have "d' = DData n cs" "cs \<noteq> []" "\<forall>t \<in> set (concat cs). ty_wf st n True t"
    using d checkDef_data [of st n cs d'] DData by simp_all
  then show ?thesis using d DData by (simp add: list_all_iff del: checkDef.simps)
next
  case (DFunc n t b ps)
  let ?E = "\<lparr>est = st, etv = n, eself = Some t\<rparr>"
  obtain b' m ps' where w: "ty_wf st n False t" and b: "checkT ?E [] b t = (b', m, Inr ())"
    and ps: "list_all2 (prop_checked ?E) ps ps'" and d': "d' = DFunc n t b' ps'"
    using d DFunc checkDef_func [of st n t b ps d'] by (auto simp: Let_def)
  have E: "env_wf ?E" using st w by (simp add: env_wf_def)
  have body: "typed ?E [] b' t"
    using checkT_sound [OF E _ _ b] w by simp
  have "typed ?E (pushAll [] (binders p)) (pbody p) TBool \<and> prop_checked ?E p p" if "p \<in> set ps'" for p
  proof -
    obtain i where "i < length ps'" "p = ps' ! i" using \<open>p \<in> set ps'\<close> by (auto simp: in_set_conv_nth)
    then have "prop_checked ?E (ps ! i) p" using list_all2_nthD2 [OF ps] by simp
    then show ?thesis by (rule prop_checked_typed [OF E])
  qed
  then have "list_all2 (prop_checked ?E) ps' ps'"
      "list_all (\<lambda>p. typed ?E (pushAll [] (binders p)) (pbody p) TBool) ps'"
    by (auto simp: list_all_iff list.rel_refl_strong)
  then show ?thesis
    using d' w body typed_checkT [OF body] checkDef_func [of st n t b' ps' d']
    by (auto simp: Let_def simp del: checkDef.simps)
qed

end
