(* ===== verification/Soundness.thy ===== *)
theory Soundness
  imports Eval Typing
begin

text \<open>
  Type soundness: in a store of definitions that \<^verbatim>\<open>checkDef\<close> accepts, the evaluator of
  \<^verbatim>\<open>oath/eval.go\<close> returns a value of the term's type or one of the errors that a checked
  program can meet (a spent budget, a division by zero, a number out of range, a comparison
  of functions); it never reaches a nil number, a missing argument, a variable out of scope,
  a missing field or arm, or the application of something that is no function.

  Types are erased at run time. A value has a closed-off instance of a type: a closure
  remembers the substitution \<open>s\<close> at which its polymorphic definition was instantiated.
\<close>

subsection \<open>Types at run time\<close>

text \<open>Types without a reference to the type being defined.\<close>

fun norec :: "ty \<Rightarrow> bool" where
  "norec (TRec as) = False"
| "norec (TFun a b) = (norec a \<and> norec b)"
| "norec (TData h as) = list_all norec as"
| "norec (TRecord ns as) = list_all norec as"
| "norec _ = True"

abbreviation instT :: "ty list \<Rightarrow> ty \<Rightarrow> ty" where
  "instT s t \<equiv> substTy t s"

lemma wf_norec: "ty_wf st n False t \<Longrightarrow> norec t"
  by (induction t) (auto simp: list_all_iff)

lemma norec_resolve: "norec t \<Longrightarrow> resolveRec t h = t"
  by (induction t) (auto simp: list_all_iff map_idI)

lemma norec_subst: "norec t \<Longrightarrow> list_all norec s \<Longrightarrow> norec (instT s t)"
  by (induction t) (auto simp: list_all_iff list_all_length)

lemma subst_subst:
  "ty_wf st (length ts) ar t \<Longrightarrow> instT s (substTy t ts) = substTy t (map (instT s) ts)"
  by (induction t) (auto simp: list_all_iff)

lemma subst_resolve:
  assumes "list_all norec s" "list_all norec ts" "ty_wf st (length ts) True t"
  shows "instT s (resolveRec (substTy t ts) h) = resolveRec (substTy t (map (instT s) ts)) h"
proof -
  have "norec u \<Longrightarrow> instT s (resolveRec u h) = resolveRec (instT s u) h" for u
    by (simp add: norec_resolve norec_subst assms(1))
  with assms show ?thesis
    by (induction t) (auto simp: list_all_iff)
qed

lemma instCtorFields_inst:
  assumes "store_wf st" "map_of (sdefs st) h = Some (DData (length ts) cs)" "i < length cs"
    "list_all norec s" "list_all norec ts"
  shows "map (instT s) (instCtorFields (DData (length ts) cs) h ts i) =
    instCtorFields (DData (length ts) cs) h (map (instT s) ts) i"
proof -
  have "def_wf st (DData (length ts) cs)"
    using assms(1,2) by (rule store_data)
  then have "\<forall>t \<in> set (cs ! i). ty_wf st (length ts) True t"
    using nth_mem [OF assms(3)] by (auto simp: list_all_iff)
  then show ?thesis
    using subst_resolve [OF assms(4,5)] by (auto simp: instCtorFields_def ctors_of_def)
qed

text \<open>The types of typed terms are well-formed.\<close>

lemma list_all2_wf:
  "list_all2 (\<lambda>x y. P x y \<and> wfT E y) xs ys \<Longrightarrow> list_all (wfT E) ys"
  by (induction rule: list_all2_induct) auto

lemma typed_wf: "typed E c t u \<Longrightarrow> env_wf E \<Longrightarrow> ctx_wf E c \<Longrightarrow> wfT E u"
proof (induction rule: typed.induct)
  case (typed_Var i c)
  then show ?case by (simp add: list_all_length)
next
  case (typed_Prim op c as ts t)
  then show ?case using primResultTy_wf by blast
next
  case (typed_Ref h ts t b ps c)
  then have "def_wf (est E) (DFunc (length ts) t b ps)"
    unfolding env_wf_def by (metis store_data)
  with typed_Ref show ?case by (simp add: ty_wf_subst)
next
  case (typed_Self t ts c)
  then show ?case by (simp add: env_wf_def ty_wf_subst)
next
  case (typed_Match c a g ts h d arms t)
  have "match_data E h (length arms) (TData g ts) =
      Inr (map (instCtorFields d g ts) [0..<length arms])"
    using typed_Match.hyps(2-4) by (auto simp: match_data_def ok_rules simp del: getE_Inr)
  with typed_Match have "list_all (list_all (wfT E)) (map (instCtorFields d g ts) [0..<length arms])"
    using match_data_wf by blast
  then have "list_all (wfT E) (instCtorFields d g ts 0)"
    using typed_Match.hyps(5) by (simp add: list_all_length)
  then have "ctx_wf E (pushAll c (instCtorFields d g ts 0))"
    using typed_Match.prems by simp
  moreover have "ctx_wf E (pushAll c (instCtorFields d g ts 0)) \<longrightarrow> wfT E t"
    using list_all2_nthD2 [OF typed_Match.IH(2), of 0] typed_Match.hyps(5) typed_Match.prems by auto
  ultimately show ?case by blast
next
  case (typed_Record ns as c ts)
  then show ?case by (auto elim!: list_all2_wf list_all2_mono simp: list_all2_lengthD)
next
  case (typed_Field c a ns ts f t)
  then show ?case using field_ty_wf by auto
qed (auto simp: pushCtx_def)

subsection \<open>Typed values\<close>

inductive vty :: "store \<Rightarrow> val \<Rightarrow> ty \<Rightarrow> bool" for st where
  vty_Int: "vty st (VInt x) TInt"
| vty_Rat: "vty st (VRat q) TRat"
| vty_Float: "vty st (VFloat f) TFloat"
| vty_Bool: "vty st (VBool b) TBool"
| vty_Record:
    "length ns = length vs \<Longrightarrow> list_all2 (vty st) vs ts \<Longrightarrow> vty st (VRecord ns vs) (TRecord ns ts)"
| vty_Data:
    "map_of (sdefs st) h = Some (DData (length ts) cs) \<Longrightarrow> i < length cs \<Longrightarrow>
     list_all2 (vty st) vs (instCtorFields (DData (length ts) cs) h ts i) \<Longrightarrow>
     vty st (VData h i vs) (TData h ts)"
| vty_Clos:
    "est E = st \<Longrightarrow> env_wf E \<Longrightarrow> ctx_wf E c \<Longrightarrow> wfT E p \<Longrightarrow> typed E (pushCtx c p) b q \<Longrightarrow>
     length s = etv E \<Longrightarrow> list_all norec s \<Longrightarrow>
     (\<And>t. eself E = Some t \<Longrightarrow> slf \<noteq> '''' \<and>
        (\<exists>b ps. map_of (sdefs st) slf = Some (DFunc (etv E) t b ps))) \<Longrightarrow>
     list_all2 (vty st) env (map (instT s) c) \<Longrightarrow>
     vty st (VClos env p b slf) (TFun (instT s p) (instT s q))"
| vty_Id: "vty st VId (TFun t t)"
| vty_Affine: "vty st (VAffine m n) (TFun TInt TInt)"
| vty_Const: "vty st v t \<Longrightarrow> vty st (VConst v) (TFun u t)"
| vty_Table:
    "length xs = length ys \<Longrightarrow> list_all (\<lambda>y. vty st y t) ys \<Longrightarrow> vty st v t \<Longrightarrow>
     vty st (VTable xs ys v) (TFun u t)"

inductive_cases vty_IntE: "vty st v TInt"
inductive_cases vty_RatE: "vty st v TRat"
inductive_cases vty_FloatE: "vty st v TFloat"
inductive_cases vty_BoolE: "vty st v TBool"
inductive_cases vty_RecordE: "vty st v (TRecord ns ts)"
inductive_cases vty_DataE: "vty st v (TData h ts)"
inductive_cases vty_FunE: "vty st v (TFun t u)"

lemmas vty_groundE = vty_IntE vty_RatE vty_FloatE vty_BoolE

text \<open>What a run of a checked program may end with.\<close>

definition benign :: "eerr \<Rightarrow> bool" where
  "benign e \<longleftrightarrow>
     e \<in> {ETooDeep, EFuel, EDivZero, EModZero, EByteRange, EEqFun} \<or> (\<exists>op. e = ENotFinite op)"

definition good :: "store \<Rightarrow> ty \<Rightarrow> eerr + val \<Rightarrow> bool" where
  "good st t r \<longleftrightarrow> (case r of Inl e \<Rightarrow> benign e | Inr v \<Rightarrow> vty st v t)"

lemma good_simps [simp]: "good st t (Inl e) \<longleftrightarrow> benign e" "good st t (Inr v) \<longleftrightarrow> vty st v t"
  by (simp_all add: good_def)

text \<open>
  A store every definition of which \<^verbatim>\<open>checkDef\<close> accepts, with \<^verbatim>\<open>List\<close>, if it is bound, the
  data type with \<^verbatim>\<open>Nil\<close> and \<^verbatim>\<open>Cons\<close>, in this order.
\<close>

definition store_checked :: "store \<Rightarrow> bool" where
  "store_checked st \<longleftrightarrow>
     (\<forall>h d. map_of (sdefs st) h = Some d \<longrightarrow> h \<noteq> '''' \<and> checkDef st d = Inr d) \<and>
     (\<forall>h. slist st = Some h \<longrightarrow> map_of (sdefs st) h = Some (DData 1 [[], [TVar 0, TRec [TVar 0]]]))"

lemma checked_wf:
  assumes "store_checked st"
  shows "store_wf st"
proof -
  have "def_wf st d" if "checkDef st d = Inr d" for d
  proof (cases d)
    case (DData n cs)
    then show ?thesis using that checkDef_data [of st n cs d] by (auto simp: list_all_iff)
  next
    case (DFunc n t b ps)
    then show ?thesis using that checkDef_func [of st n t b ps d] by (auto simp: Let_def)
  qed
  with assms show ?thesis by (auto simp: store_checked_def store_wf_def)
qed

subsection \<open>Primitives\<close>

lemma structEq_error: "structEq a b = Inl e \<Longrightarrow> e = EEqFun"
  and structEqs_error: "structEqs xs ys = Inl e \<Longrightarrow> e = EEqFun"
  by (induction a b and xs ys arbitrary: e and e rule: structEq_structEqs.induct)
    (auto split: val.splits if_splits sum.splits)

text \<open>The operands and the result of a primitive other than \<^verbatim>\<open>==\<close> have no type variables.\<close>

lemma all_are_Inr: "all_are k e ts = Inr u \<longleftrightarrow> (\<forall>t \<in> set ts. t = k)"
  by (auto simp: all_are_def find_None_iff find_Some_iff split: option.splits)

lemma list_args_Inr: "list_args op l i ts = Inr u \<longleftrightarrow> (\<forall>t \<in> set ts. t = l)"
  by (induction op l i ts rule: list_args.induct) auto

lemma length_2: "length ts = 2 \<longleftrightarrow> (\<exists>a b. ts = [a, b])"
  by (auto simp: numeral_2_eq_2 length_Suc_conv)

lemma length_1: "length ts = Suc 0 \<longleftrightarrow> (\<exists>a. ts = [a])"
  by (auto simp: length_Suc_conv)

definition numeric :: "ty \<Rightarrow> bool" where
  "numeric t \<longleftrightarrow> t = TInt \<or> t = TRat \<or> t = TFloat"

inductive prim_shape :: "store \<Rightarrow> string \<Rightarrow> ty list \<Rightarrow> ty \<Rightarrow> bool" for st where
  shape_arith: "op \<in> {''+'', ''-'', ''*'', ''/''} \<Longrightarrow> numeric k \<Longrightarrow> prim_shape st op [k, k] k"
| shape_mod: "prim_shape st ''%'' [TInt, TInt] TInt"
| shape_neg: "numeric k \<Longrightarrow> prim_shape st ''neg'' [k] k"
| shape_cmp: "op \<in> {''<'', ''<=''} \<Longrightarrow> numeric k \<Longrightarrow> prim_shape st op [k, k] TBool"
| shape_logic: "op \<in> {''and'', ''or''} \<Longrightarrow> prim_shape st op [TBool, TBool] TBool"
| shape_not: "prim_shape st ''not'' [TBool] TBool"
| shape_fpeq: "prim_shape st ''fp-eq'' [TFloat, TFloat] TBool"
| shape_crypto:
    "slist st = Some h \<Longrightarrow> op \<in> {''hmac-sha256'', ''bytes-eq-ct''} \<Longrightarrow>
     prim_shape st op [TData h [TInt], TData h [TInt]]
       (if op = ''bytes-eq-ct'' then TBool else TData h [TInt])"
| shape_to_rat: "k \<in> {TInt, TFloat} \<Longrightarrow> prim_shape st ''to-rat'' [k] TRat"
| shape_to_float: "k \<in> {TInt, TRat} \<Longrightarrow> prim_shape st ''to-float'' [k] TFloat"
| shape_floor: "k \<in> {TRat, TFloat} \<Longrightarrow> prim_shape st ''floor'' [k] TInt"

lemma primResultTy_shape:
  assumes "primResultTy st op ts = Inr t"
  shows "prim_shape st op ts t"
proof -
  have num: "numeric u \<and> set ts = {u}" if "numericTy op ts = Inr u" for u
    using numericTy_Inr [OF that] by (simp add: numeric_def)
  have two: "ts = [k, k]" if "length ts = 2" "\<forall>t \<in> set ts. t = k" for k
    using that by (auto simp: length_2)
  have one: "ts = [k]" if "length ts = Suc 0" "\<forall>t \<in> set ts. t = k" for k
    using that by (auto simp: length_1)
  have "op \<in> {''+'', ''-'', ''*'', ''/''} \<or> op = ''%'' \<or> op = ''neg'' \<or> op \<in> {''<'', ''<=''} \<or>
      op \<in> {''and'', ''or''} \<or> op = ''not'' \<or> op = ''fp-eq'' \<or>
      op \<in> {''hmac-sha256'', ''bytes-eq-ct''} \<or> op = ''to-rat'' \<or> op = ''to-float'' \<or> op = ''floor''"
    by (rule ccontr) (use assms in \<open>simp add: primResultTy_def\<close>)
  then consider (arith) "op \<in> {''+'', ''-'', ''*'', ''/''}" | (md) "op = ''%''" | (neg) "op = ''neg''"
    | (cmp) "op \<in> {''<'', ''<=''}" | (logic) "op \<in> {''and'', ''or''}" | (nt) "op = ''not''"
    | (fpe) "op = ''fp-eq''" | (crypto) "op \<in> {''hmac-sha256'', ''bytes-eq-ct''}"
    | (tr) "op = ''to-rat''" | (tf) "op = ''to-float''" | (fl) "op = ''floor''"
    by argo
  then show ?thesis
  proof cases
    case arith
    then have "length ts = 2" "numericTy op ts = Inr t"
      using assms by (auto simp: primResultTy_def Let_def split: if_splits)
    then show ?thesis using num two [of t] shape_arith [OF arith] by simp
  next
    case md
    then have "length ts = 2" "all_are TInt (PInt op) ts = Inr ()" "t = TInt"
      using assms by (auto simp: primResultTy_def Let_def rbind_eq_Inr split: if_splits)
    then show ?thesis using md two [of TInt] shape_mod by (simp add: all_are_Inr)
  next
    case neg
    then have "length ts = Suc 0" "numericTy op ts = Inr t"
      using assms by (auto simp: primResultTy_def Let_def split: if_splits)
    then show ?thesis using num neg one [of t] shape_neg by simp
  next
    case cmp
    have "\<exists>u. length ts = 2 \<and> numericTy op ts = Inr u \<and> t = TBool"
      using assms cmp by (cases "length ts = 2"; cases "numericTy op ts") (auto simp: primResultTy_def)
    then obtain u where "length ts = 2" "numericTy op ts = Inr u" "t = TBool" by blast
    then show ?thesis using num [of u] two [of u] shape_cmp [OF cmp] by simp
  next
    case logic
    then have "length ts = 2" "all_are TBool (PBool op) ts = Inr ()" "t = TBool"
      using assms by (auto simp: primResultTy_def Let_def rbind_eq_Inr split: if_splits)
    then show ?thesis using two [of TBool] shape_logic [OF logic] by (simp add: all_are_Inr)
  next
    case nt
    then have "length ts = Suc 0" "all_are TBool (PBool op) ts = Inr ()" "t = TBool"
      using assms by (auto simp: primResultTy_def Let_def rbind_eq_Inr split: if_splits)
    then show ?thesis using nt one [of TBool] shape_not by (simp add: all_are_Inr)
  next
    case fpe
    then have "length ts = 2" "all_are TFloat (PFloat op) ts = Inr ()" "t = TBool"
      using assms by (auto simp: primResultTy_def Let_def rbind_eq_Inr split: if_splits)
    then show ?thesis using fpe two [of TFloat] shape_fpeq by (simp add: all_are_Inr)
  next
    case crypto
    have eq: "primResultTy st op ts =
        (if length ts \<noteq> 2 then Inl (PArity op 2 (length ts))
         else case listOfIntTy st of
             None \<Rightarrow> Inl (PNoList op)
           | Some l \<Rightarrow> rbind (list_args op l 0 ts) (\<lambda>_.
               Inr (if op = ''bytes-eq-ct'' then TBool else l)))"
      using crypto by (cases "op = ''bytes-eq-ct''") (simp_all add: primResultTy_def split: option.split)
    have len: "length ts = 2"
      using assms unfolding eq by (simp split: if_splits)
    obtain h where h: "slist st = Some h"
      using assms len unfolding eq by (cases "slist st") (simp_all add: listOfIntTy_def)
    have r: "rbind (list_args op (TData h [TInt]) 0 ts)
        (\<lambda>_. Inr (if op = ''bytes-eq-ct'' then TBool else TData h [TInt])) = Inr t"
      using assms unfolding eq listOfIntTy_def h by (simp only: len option.map option.case if_False not_True_eq_False simp_thms)
    have l: "list_args op (TData h [TInt]) 0 ts = Inr ()"
        and t: "t = (if op = ''bytes-eq-ct'' then TBool else TData h [TInt])"
      using r unfolding rbind_eq_Inr by auto
    from l have "ts = [TData h [TInt], TData h [TInt]]"
      unfolding list_args_Inr by (rule two [OF len])
    then show ?thesis unfolding t using shape_crypto [OF h crypto] by (simp only:)
  next
    case tr
    then have "length ts = Suc 0" "hd ts = TInt \<or> hd ts = TFloat" "t = TRat"
      using assms by (auto simp: primResultTy_def Let_def split: if_splits)
    then show ?thesis using tr shape_to_rat by (auto simp: length_1)
  next
    case tf
    then have "length ts = Suc 0" "hd ts = TInt \<or> hd ts = TRat" "t = TFloat"
      using assms by (auto simp: primResultTy_def Let_def split: if_splits)
    then show ?thesis using tf shape_to_float by (auto simp: length_1)
  next
    case fl
    then have "length ts = Suc 0" "hd ts = TRat \<or> hd ts = TFloat" "t = TInt"
      using assms by (auto simp: primResultTy_def Let_def split: if_splits)
    then show ?thesis using fl shape_floor by (auto simp: length_1)
  qed
qed

lemma prim_shape_ground: "prim_shape st op ts t \<Longrightarrow> map (instT s) ts = ts \<and> instT s t = t"
  by (induction rule: prim_shape.induct) (auto simp: numeric_def)

lemma benign_simps [simp]:
  "benign EDivZero" "benign EModZero" "benign EByteRange" "benign (ENotFinite op)" "benign EEqFun"
  "benign ETooDeep" "benign EFuel"
  by (simp_all add: benign_def)

lemma prim_good_two:
  assumes "numeric k" "vty st a k" "vty st b k"
  shows "op \<in> {''+'', ''-'', ''*'', ''/''} \<Longrightarrow> good st k (prim op [a, b])"
    and "op \<in> {''<'', ''<=''} \<Longrightarrow> good st TBool (prim op [a, b])"
proof -
  consider x y where "k = TInt" "a = VInt x" "b = VInt y" | x y where "k = TRat" "a = VRat x" "b = VRat y"
    | x y where "k = TFloat" "a = VFloat x" "b = VFloat y"
    using assms by (auto simp: numeric_def elim!: vty_groundE)
  then have "(op \<in> {''+'', ''-'', ''*'', ''/''} \<longrightarrow> good st k (prim op [a, b])) \<and>
      (op \<in> {''<'', ''<=''} \<longrightarrow> good st TBool (prim op [a, b]))"
    by cases
      (auto simp: prim_def numPrim_def intPrim_def ratPrim_def floatPrim_def int2_def rat2_def
        float2_def arg_int_def arg_rat_def arg_float_def arg_def float_of_def vFloat_def intro: vty.intros)
  then show "op \<in> {''+'', ''-'', ''*'', ''/''} \<Longrightarrow> good st k (prim op [a, b])"
    "op \<in> {''<'', ''<=''} \<Longrightarrow> good st TBool (prim op [a, b])" by blast+
qed

lemma prim_good_one:
  assumes "vty st a k"
  shows "numeric k \<Longrightarrow> good st k (prim ''neg'' [a])"
    and "k \<in> {TInt, TFloat} \<Longrightarrow> good st TRat (prim ''to-rat'' [a])"
    and "k \<in> {TInt, TRat} \<Longrightarrow> good st TFloat (prim ''to-float'' [a])"
    and "k \<in> {TRat, TFloat} \<Longrightarrow> good st TInt (prim ''floor'' [a])"
    and "k = TBool \<Longrightarrow> good st TBool (prim ''not'' [a])"
proof -
  note defs = prim_def numPrim_def intPrim_def ratPrim_def floatPrim_def arg_int_def arg_rat_def
    arg_float_def arg_bool_def arg_def toRat_def toFloat_def floorPrim_def vFloat_def
  show "numeric k \<Longrightarrow> good st k (prim ''neg'' [a])"
    using assms by (auto simp: numeric_def defs elim!: vty_groundE intro: vty.intros)
  show "k \<in> {TInt, TFloat} \<Longrightarrow> good st TRat (prim ''to-rat'' [a])"
    using assms by (auto simp: defs elim!: vty_groundE intro: vty.intros)
  show "k \<in> {TInt, TRat} \<Longrightarrow> good st TFloat (prim ''to-float'' [a])"
    using assms by (auto simp: defs elim!: vty_groundE intro: vty.intros)
  show "k \<in> {TRat, TFloat} \<Longrightarrow> good st TInt (prim ''floor'' [a])"
    using assms by (auto simp: defs elim!: vty_groundE intro: vty.intros)
  show "k = TBool \<Longrightarrow> good st TBool (prim ''not'' [a])"
    using assms by (auto simp: defs elim!: vty_groundE intro: vty.intros)
qed

lemma prim_good_bool:
  assumes "vty st a TBool" "vty st b TBool"
    and "op \<in> {''and'', ''or''}"
  shows "good st TBool (prim op [a, b])"
proof -
  obtain x y where v: "a = VBool x" "b = VBool y" using assms(1,2) by (auto elim!: vty_BoolE)
  have "\<exists>z. prim op [a, b] = Inr (VBool z)"
    using assms(3) unfolding v
    by (cases x; cases "op = ''and''")
      (auto simp: prim_def numPrim_def intPrim_def arg_bool_def arg_def bool_of_def)
  then show ?thesis by (auto intro: vty_Bool)
qed

abbreviation list_def :: "def" where
  "list_def \<equiv> DData 1 [[], [TVar 0, TRec [TVar 0]]]"

lemma list_fields:
  "instCtorFields list_def h [TInt] 0 = []"
  "instCtorFields list_def h [TInt] (Suc 0) = [TInt, TData h [TInt]]"
  by (simp_all add: instCtorFields_def ctors_of_def)

lemmas list_fields_simps = list_fields list_fields [simplified]

lemma bytesOfList_good:
  "vty st v (TData h [TInt]) \<Longrightarrow> map_of (sdefs st) h = Some list_def \<Longrightarrow>
   bytesOfList v = Inl e \<Longrightarrow> benign e"
proof (induction v arbitrary: e rule: bytesOfList.induct)
  case (1 g i fs)
  then have g: "g = h" and i: "i = 0 \<or> i = 1"
    and fs: "list_all2 (vty st) fs (instCtorFields list_def h [TInt] i)"
    by (auto elim!: vty_DataE simp: less_Suc_eq)
  show ?case
  proof (cases "i = 1")
    case True
    then obtain n r where f: "fs = [n, r]" "vty st n TInt" and r: "vty st r (TData h [TInt])"
      using fs by (auto simp: list_fields_simps list_all2_Cons2)
    obtain x where n: "n = VInt x" using f(2) by (auto elim: vty_IntE)
    have "benign e" if "bytesOfList r = Inl e" "0 \<le> x" "x \<le> 255"
      using "1.IH" [of n "[r]" x r "[]" e] True f(1) n r "1.prems"(2) that by simp
    then show ?thesis
      using "1.prems"(3) True f(1) n by (auto simp: rbind_eq_Inl split: if_splits)
  qed (use "1.prems" in simp)
qed (auto elim: vty_DataE)

lemma listOfBytes_vty:
  "map_of (sdefs st) h = Some list_def \<Longrightarrow> vty st (listOfBytes h bs) (TData h [TInt])"
proof (induction bs)
  case Nil
  then show ?case by (auto intro!: vty_Data [where cs = "[[], [TVar 0, TRec [TVar 0]]]"] simp: list_fields_simps)
next
  case (Cons b bs)
  then show ?case
    by (auto intro!: vty_Data [where cs = "[[], [TVar 0, TRec [TVar 0]]]"] simp: list_fields_simps intro: vty_Int)
qed

lemma prim_good_crypto:
  assumes l: "map_of (sdefs st) h = Some list_def"
    and a: "vty st a (TData h [TInt])" and b: "vty st b (TData h [TInt])"
    and op: "op \<in> {''hmac-sha256'', ''bytes-eq-ct''}"
  shows "good st (if op = ''bytes-eq-ct'' then TBool else TData h [TInt]) (prim op [a, b])"
proof -
  obtain i fs where da: "a = VData h i fs" using a by (auto elim: vty_DataE)
  have "numPrim op [a, b] = None" by (simp add: numPrim_def da)
  then have p: "prim op [a, b] = cryptoPrim op [a, b]" using op by (auto simp: prim_def)
  have h: "val_hash a = h" by (simp add: val_hash_def da)
  show ?thesis
  proof (cases "bytesOfList a")
    case (Inl e)
    then show ?thesis using bytesOfList_good [OF a l] by (simp add: p cryptoPrim_def arg_def)
  next
    case (Inr as)
    note ra = this
    show ?thesis
    proof (cases "bytesOfList b")
      case (Inl e)
      then show ?thesis using ra bytesOfList_good [OF b l] by (simp add: p cryptoPrim_def arg_def)
    next
      case (Inr bs)
      then show ?thesis
        using ra op by (auto simp: p cryptoPrim_def arg_def h intro: vty_Bool listOfBytes_vty [OF l])
    qed
  qed
qed

lemma prim_good:
  assumes "prim_shape st op ts t" "list_all2 (vty st) vs ts" "store_checked st"
  shows "good st t (prim op vs)"
  using assms
proof (induction rule: prim_shape.induct)
  case (shape_crypto h op)
  then have l: "map_of (sdefs st) h = Some list_def" by (simp add: store_checked_def)
  obtain a b where "vs = [a, b]" "vty st a (TData h [TInt])" "vty st b (TData h [TInt])"
    using shape_crypto.prems(1) by (auto simp: list_all2_Cons2)
  then show ?case using prim_good_crypto [OF l _ _ shape_crypto.hyps(2)] by (simp only:)
next
  case shape_mod
  then obtain x y where "vs = [VInt x, VInt y]"
    by (auto simp: list_all2_Cons2 elim!: vty_IntE)
  then show ?case
    by (simp add: prim_def numPrim_def intPrim_def arg_int_def arg_def vty_Int)
next
  case shape_fpeq
  then obtain x y where "vs = [VFloat x, VFloat y]"
    by (auto simp: list_all2_Cons2 elim!: vty_FloatE)
  then show ?case
    by (simp add: prim_def numPrim_def floatPrim_def float2_def arg_float_def arg_def vty_Bool)
next
  case (shape_arith op k)
  then obtain a b where v: "vs = [a, b]" "vty st a k" "vty st b k" by (auto simp: list_all2_Cons2)
  show ?case unfolding v(1) by (rule prim_good_two(1) [OF shape_arith.hyps(2) v(2,3) shape_arith.hyps(1)])
next
  case (shape_cmp op k)
  then obtain a b where v: "vs = [a, b]" "vty st a k" "vty st b k" by (auto simp: list_all2_Cons2)
  show ?case unfolding v(1) by (rule prim_good_two(2) [OF shape_cmp.hyps(2) v(2,3) shape_cmp.hyps(1)])
next
  case (shape_logic op)
  then obtain a b where v: "vs = [a, b]" "vty st a TBool" "vty st b TBool" by (auto simp: list_all2_Cons2)
  show ?case unfolding v(1) by (rule prim_good_bool [OF v(2,3) shape_logic.hyps])
next
  case (shape_neg k)
  then obtain a where v: "vs = [a]" "vty st a k" by (auto simp: list_all2_Cons2)
  show ?case unfolding v(1) by (rule prim_good_one(1) [OF v(2) shape_neg.hyps])
next
  case (shape_to_rat k)
  then obtain a where v: "vs = [a]" "vty st a k" by (auto simp: list_all2_Cons2)
  show ?case unfolding v(1) by (rule prim_good_one(2) [OF v(2) shape_to_rat.hyps])
next
  case (shape_to_float k)
  then obtain a where v: "vs = [a]" "vty st a k" by (auto simp: list_all2_Cons2)
  show ?case unfolding v(1) by (rule prim_good_one(3) [OF v(2) shape_to_float.hyps])
next
  case (shape_floor k)
  then obtain a where v: "vs = [a]" "vty st a k" by (auto simp: list_all2_Cons2)
  show ?case unfolding v(1) by (rule prim_good_one(4) [OF v(2) shape_floor.hyps])
next
  case shape_not
  then obtain a where v: "vs = [a]" "vty st a TBool" by (auto simp: list_all2_Cons2)
  show ?case unfolding v(1) by (rule prim_good_one(5) [OF v(2) refl])
qed

lemma prim_eq_good:
  assumes "vty st a t" "vty st b t"
  shows "good st TBool (prim ''=='' [a, b])"
proof -
  have dflt: "good st TBool (intPrim ''=='' [a, b])"
    by (cases "structEq a b")
      (auto simp: intPrim_def arg_def intro: vty_Bool dest: structEq_error)
  show ?thesis
  proof (cases a)
    case (VRat x)
    then obtain y where "b = VRat y" using assms by (auto elim!: vty.cases [of st "VRat x"] vty_RatE)
    with VRat show ?thesis
      by (simp add: prim_def numPrim_def ratPrim_def rat2_def arg_rat_def arg_def vty_Bool)
  qed (use dflt in \<open>auto simp: prim_def numPrim_def floatPrim_def\<close>)
qed

subsection \<open>Runs that do not go wrong\<close>

definition ok_with :: "('a \<Rightarrow> bool) \<Rightarrow> 'a ev \<Rightarrow> bool" where
  "ok_with P m \<longleftrightarrow> (\<forall>f. case fst (m f) of Inl e \<Rightarrow> benign e | Inr v \<Rightarrow> P v)"

lemma ok_from [simp]: "ok_with P (efrom r) \<longleftrightarrow> (case r of Inl e \<Rightarrow> benign e | Inr v \<Rightarrow> P v)"
  by (simp add: ok_with_def efrom_def)

lemma ok_tick: "ok_with (\<lambda>_. True) tick"
  by (auto simp: ok_with_def tick_def)

lemma ok_bind: "ok_with P m \<Longrightarrow> (\<And>v. P v \<Longrightarrow> ok_with Q (k v)) \<Longrightarrow> ok_with Q (ebind m k)"
  by (auto simp: ok_with_def ebind_def split: prod.splits sum.splits) (metis fst_conv sum.simps(5,6))+

lemma ok_mono: "ok_with P m \<Longrightarrow> (\<And>v. P v \<Longrightarrow> Q v) \<Longrightarrow> ok_with Q m"
  by (auto simp: ok_with_def split: sum.splits)

lemma ok_eval_list:
  "list_all2 (\<lambda>a u. ok_with (\<lambda>v. vty st v u) (ev a)) as us \<Longrightarrow>
   ok_with (\<lambda>vs. list_all2 (vty st) vs us) (eval_list ev as)"
proof (induction rule: list_all2_induct)
  case (Cons a as u us)
  show ?case
    unfolding eval_list.simps
    by (rule ok_bind [OF Cons.hyps(1)], rule ok_bind [OF Cons.IH]) simp
qed simp

text \<open>A run-time scope: values for the context at an instance of the type variables.\<close>

definition scope :: "store \<Rightarrow> env \<Rightarrow> ctx \<Rightarrow> ty list \<Rightarrow> hash \<Rightarrow> val list \<Rightarrow> bool" where
  "scope st E c s slf env \<longleftrightarrow>
     est E = st \<and> env_wf E \<and> ctx_wf E c \<and> length s = etv E \<and> list_all norec s \<and>
     (\<forall>t. eself E = Some t \<longrightarrow> slf \<noteq> '''' \<and>
        (\<exists>b ps. map_of (sdefs st) slf = Some (DFunc (etv E) t b ps))) \<and>
     list_all2 (vty st) env (map (instT s) c)"

lemma scope_push:
  "scope st E c s slf env \<Longrightarrow> wfT E t \<Longrightarrow> vty st v (instT s t) \<Longrightarrow>
   scope st E (pushCtx c t) s slf (pushEnv env v)"
  by (auto simp: scope_def pushCtx_def pushEnv_def)

lemma scope_pushAll:
  "scope st E c s slf env \<Longrightarrow> list_all (wfT E) ts \<Longrightarrow> list_all2 (vty st) vs (map (instT s) ts) \<Longrightarrow>
   scope st E (pushAll c ts) s slf (foldl pushEnv env vs)"
proof (induction ts arbitrary: c env vs)
  case Nil
  then show ?case by (simp add: pushAll_def)
next
  case (Cons t ts)
  then obtain v ws where vs: "vs = v # ws" by (auto simp: list_all2_Cons2)
  have "scope st E (pushAll (pushCtx c t) ts) s slf (foldl pushEnv (pushEnv env v) ws)"
    using Cons.prems vs by (intro Cons.IH scope_push) simp_all
  then show ?case by (simp add: vs pushAll_def)
qed

inductive_cases typed_VarE: "typed E c (Var i) u"
inductive_cases typed_litE: "typed E c (IntL v) u" "typed E c (RatL q) u" "typed E c (FloatL f) u"
  "typed E c (BoolL b) u"
inductive_cases typed_LamE: "typed E c (Lam p b) u"
inductive_cases typed_LetE: "typed E c (Let p a b) u"
inductive_cases typed_IfE: "typed E c (If a b d) u"
inductive_cases typed_PrimE: "typed E c (Prim op as) u"
inductive_cases typed_CtorE: "typed E c (Ctor h i ts as) u"
inductive_cases typed_MatchE: "typed E c (Match h a arms) u"
inductive_cases typed_RecordE: "typed E c (Record ns as) u"
inductive_cases typed_FieldE: "typed E c (Field a f) u"

definition sound_ev :: "store \<Rightarrow> evaluator \<Rightarrow> bool" where
  "sound_ev st ev \<longleftrightarrow>
     (\<forall>E c s slf env t u. scope st E c s slf env \<longrightarrow> typed E c t u \<longrightarrow>
        ok_with (\<lambda>v. vty st v (instT s u)) (ev env slf t))"

lemma sound_evD:
  "sound_ev st ev \<Longrightarrow> scope st E c s slf env \<Longrightarrow> typed E c t u \<Longrightarrow>
   ok_with (\<lambda>v. vty st v (instT s u)) (ev env slf t)"
  by (simp add: sound_ev_def)

lemma eval_args:
  assumes ev: "sound_ev st ev" and sc: "scope st E c s slf env" and as: "list_all2 (typed E c) as us"
  shows "ok_with (\<lambda>vs. list_all2 (vty st) vs (map (instT s) us)) (eval_list (ev env slf) as)"
proof (rule ok_eval_list)
  show "list_all2 (\<lambda>a u. ok_with (\<lambda>v. vty st v u) (ev env slf a)) as (map (instT s) us)"
    using as by (auto simp: list_all2_map2 elim!: list_all2_mono dest: sound_evD [OF ev sc])
qed

lemma eval_def_sound:
  assumes st: "store_checked st" and ev: "sound_ev st ev"
    and h: "map_of (sdefs st) h = Some (DFunc (length ts) t b ps)" and ts: "list_all norec ts"
  shows "ok_with (\<lambda>v. vty st v (instT ts t)) (eval_def st ev h)"
proof -
  let ?E = "\<lparr>est = st, etv = length ts, eself = Some t\<rparr>"
  have wf: "store_wf st" by (rule checked_wf [OF st])
  have d: "checkDef st (DFunc (length ts) t b ps) = Inr (DFunc (length ts) t b ps)" and ne: "h \<noteq> ''''"
    using st h by (auto simp: store_checked_def simp del: checkDef.simps)
  have "typed ?E [] b t" "ty_wf st (length ts) False t"
    using checkDef_typed [OF wf d] by (simp_all add: Let_def)
  moreover have "scope st ?E [] ts h []"
    using calculation(2) wf ts h ne by (simp add: scope_def env_wf_def)
  ultimately show ?thesis
    using sound_evD [OF ev] h by (simp add: eval_def_def GetDef_def)
qed

lemma apply_sound:
  assumes ev: "sound_ev st ev" and g: "vty st g (TFun p q)" and a: "vty st a p"
  shows "ok_with (\<lambda>v. vty st v q) (apply_val ev g a)"
proof -
  have "ok_with (\<lambda>v. vty st v q) (apply_body ev g a)"
    using g
  proof (cases rule: vty.cases)
    case (vty_Clos E c p' b q' s slf env)
    then have "scope st E c s slf env" by (auto simp: scope_def)
    then have "scope st E (pushCtx c p') s slf (pushEnv env a)"
      using vty_Clos a by (auto intro: scope_push)
    from sound_evD [OF ev this] vty_Clos show ?thesis by (simp add: apply_body_def)
  next
    case (vty_Table xs ys v)
    have "good st q (table_get xs ys v a)"
      using vty_Table(2-) by (induction xs ys rule: list_induct2) auto
    then show ?thesis using vty_Table(1) by (simp add: apply_body_def good_def)
  qed (use a in \<open>auto simp: apply_body_def elim!: vty_IntE intro: vty_Int\<close>)
  then show ?thesis
    unfolding apply_val_def by (rule ok_bind [OF ok_tick])
qed

lemma field_vty:
  "list_all2 (vty st) vs (map (instT s) ts) \<Longrightarrow> length ns = length vs \<Longrightarrow> field_ty ns ts f = Some u \<Longrightarrow>
   \<exists>v. field_val ns vs f = Inr v \<and> vty st v (instT s u)"
  by (induction ns ts f arbitrary: vs rule: field_ty.induct)
    (auto simp: list_all2_Cons2 split: if_splits)

lemma match_sound_run:
  assumes ev: "sound_ev st ev" and sc: "scope st E c s slf env"
    and g: "map_of (sdefs (est E)) g = Some d" and len: "length arms = length (ctors_of d)"
    and arms: "list_all2 (\<lambda>fs x. typed E (pushAll c fs) x u) (map (instCtorFields d g ts) [0..<length arms]) arms"
    and ts: "wfT E (TData g ts)" and v: "vty st v (instT s (TData g ts))"
  shows "ok_with (\<lambda>v. vty st v (instT s u)) (case v of
       VData g i vs \<Rightarrow>
         if length arms \<le> i then efrom (Inl (ENoArm i))
         else ev (foldl pushEnv env vs) slf (arms ! i)
     | _ \<Rightarrow> efrom (Inl ENotData))"
proof -
  have st: "store_wf st" "est E = st" "list_all norec s"
    using sc by (auto simp: scope_def env_wf_def)
  obtain cs where d: "d = DData (length ts) cs"
    using ts g by (auto split: def.splits)
  obtain i vs where v': "v = VData g i vs" and i: "i < length cs"
    and vs: "list_all2 (vty st) vs (instCtorFields (DData (length ts) cs) g (map (instT s) ts) i)"
    using v g d st(2) by (auto elim!: vty_DataE)
  have norec: "list_all norec ts"
    using ts wf_norec by (auto simp: list_all_iff)
  have f: "list_all (wfT E) (instCtorFields d g ts i)"
    using instCtorFields_wf [of st g ts cs i "etv E"] st g d i ts by simp
  have "scope st E (pushAll c (instCtorFields d g ts i)) s slf (foldl pushEnv env vs)"
    using vs instCtorFields_inst [OF st(1) _ i st(3) norec, of g] g d st(2)
    by (intro scope_pushAll [OF sc f]) simp
  moreover have il: "i < length arms" using i len d by (simp add: ctors_of_def)
  moreover have "typed E (pushAll c (instCtorFields d g ts i)) (arms ! i) u"
    using list_all2_nthD2 [OF arms il] il by simp
  ultimately show ?thesis
    using sound_evD [OF ev] by (simp add: v')
qed

lemma evalInner_sound:
  assumes st: "store_checked st" and ev: "sound_ev st ev" and sc: "scope st E c s slf env"
    and t: "typed E c t u"
  shows "ok_with (\<lambda>v. vty st v (instT s u)) (evalInner st ev env slf t)"
proof -
  note ih = sound_evD [OF ev sc]
  have E: "env_wf E" "ctx_wf E c" "est E = st" "list_all norec s" using sc by (auto simp: scope_def)
  have wf: "wfT E u" if "typed E c t u" for t u by (rule typed_wf [OF that E(1,2)])
  show ?thesis
  proof (cases t)
    case (Var i)
    then show ?thesis
      using t sc by (auto elim!: typed_VarE simp: scope_def list_all2_conv_all_nth)
  next
    case (Lam p b)
    then obtain q where "u = TFun p q" "wfT E p" "typed E (pushCtx c p) b q"
      using t by (auto elim: typed_LamE)
    with Lam sc show ?thesis by (auto simp: scope_def intro!: vty_Clos)
  next
    case (App f a)
    then obtain p where p: "typed E c f (TFun p u)" "typed E c a p" using t by (auto elim: typed_AppE)
    show ?thesis
      unfolding App evalInner.simps
      by (rule ok_bind [OF ih [OF p(1)]], rule ok_bind [OF ih [OF p(2)]])
        (auto intro!: apply_sound [OF ev])
  next
    case (Let p a b)
    then have p: "wfT E p" "typed E c a p" "typed E (pushCtx c p) b u" using t by (auto elim: typed_LetE)
    show ?thesis
      unfolding Let evalInner.simps
      by (rule ok_bind [OF ih [OF p(2)]], rule sound_evD [OF ev scope_push [OF sc p(1)] p(3)])
  next
    case (If a b d)
    then have p: "typed E c a TBool" "typed E c b u" "typed E c d u" using t by (auto elim: typed_IfE)
    show ?thesis
      unfolding If evalInner.simps
      by (rule ok_bind [OF ih [OF p(1)]]) (simp add: ih p)
  next
    case (Prim op as)
    show ?thesis
    proof (cases "op = ''==''")
      case True
      then obtain a b k where "as = [a, b]" "typed E c a k" "typed E c b k" "u = TBool"
        using t Prim by (auto elim: typed_PrimE)
      then have "ok_with (\<lambda>vs. list_all2 (vty st) vs (map (instT s) [k, k])) (eval_list (ev env slf) as)"
        by (intro eval_args [OF ev sc]) simp
      then show ?thesis
        unfolding Prim evalInner.simps
        by (rule ok_bind) (use True \<open>u = TBool\<close> prim_eq_good in \<open>auto simp: list_all2_Cons2 good_def\<close>)
    next
      case False
      then obtain us where us: "list_all2 (typed E c) as us" "primResultTy st op us = Inr u"
        using t Prim E(3) by (auto elim: typed_PrimE)
      have shape: "prim_shape st op us u" by (rule primResultTy_shape [OF us(2)])
      have "ok_with (\<lambda>vs. list_all2 (vty st) vs us) (eval_list (ev env slf) as)"
        using eval_args [OF ev sc us(1)] prim_shape_ground [OF shape] by simp
      then show ?thesis
        unfolding Prim evalInner.simps
        by (rule ok_bind) (use prim_good [OF shape _ st] prim_shape_ground [OF shape] in \<open>auto simp: good_def\<close>)
    qed
  next
    case (Ref h ts)
    then obtain k b ps where k: "map_of (sdefs st) h = Some (DFunc (length ts) k b ps)"
      and ts: "list_all (wfT E) ts" and u: "u = substTy k ts"
      using t E(3) by (auto elim: typed_RefE)
    have "list_all norec (map (instT s) ts)"
      using ts wf_norec norec_subst [OF _ E(4)] by (auto simp: list_all_iff)
    then have "ok_with (\<lambda>v. vty st v (instT (map (instT s) ts) k)) (eval_def st ev h)"
      using k by (intro eval_def_sound [OF st ev]) simp_all
    moreover have "ty_wf st (length ts) False k"
      using store_data [OF checked_wf [OF st] k] by simp
    ultimately show ?thesis using Ref u by (simp add: subst_subst)
  next
    case (Self ts)
    then obtain k where k: "eself E = Some k" "length ts = etv E"
      and ts: "list_all (wfT E) ts" and u: "u = substTy k ts"
      using t by (auto elim: typed_SelfE)
    then obtain b ps where slf: "slf \<noteq> ''''" "map_of (sdefs st) slf = Some (DFunc (length ts) k b ps)"
      using sc by (auto simp: scope_def)
    have "list_all norec (map (instT s) ts)"
      using ts wf_norec norec_subst [OF _ E(4)] by (auto simp: list_all_iff)
    then have "ok_with (\<lambda>v. vty st v (instT (map (instT s) ts) k)) (eval_def st ev slf)"
      using slf by (intro eval_def_sound [OF st ev]) simp_all
    moreover have "ty_wf st (length ts) False k"
      using store_data [OF checked_wf [OF st] slf(2)] by simp
    ultimately show ?thesis using Self u slf(1) by (simp add: subst_subst)
  next
    case (Ctor h i ts as)
    then obtain cs where cs: "map_of (sdefs st) h = Some (DData (length ts) cs)" "i < length cs"
      "list_all (wfT E) ts" "list_all2 (typed E c) as (instCtorFields (DData (length ts) cs) h ts i)"
      "u = TData h ts"
      using t E(3) by (auto elim: typed_CtorE)
    have "list_all norec ts" using cs(3) wf_norec by (auto simp: list_all_iff)
    then have "ok_with (\<lambda>vs. list_all2 (vty st) vs
        (instCtorFields (DData (length ts) cs) h (map (instT s) ts) i)) (eval_list (ev env slf) as)"
      using eval_args [OF ev sc cs(4)] instCtorFields_inst [OF checked_wf [OF st] cs(1,2) E(4)] by simp
    then show ?thesis
      unfolding Ctor evalInner.simps
      by (rule ok_bind) (use cs in \<open>auto intro: vty_Data\<close>)
  next
    case (Match h a arms)
    then obtain g ts d where m: "typed E c a (TData g ts)" "map_of (sdefs (est E)) g = Some d"
      "length arms = length (ctors_of d)"
      "list_all2 (\<lambda>fs x. typed E (pushAll c fs) x u) (map (instCtorFields d g ts) [0..<length arms]) arms"
      using t by (auto elim: typed_MatchE)
    show ?thesis
      unfolding Match evalInner.simps
      by (rule ok_bind [OF ih [OF m(1)]], rule match_sound_run [OF ev sc m(2-4) wf [OF m(1)]])
  next
    case (Record ns as)
    then obtain ts where ts: "length ns = length as" "list_all2 (typed E c) as ts" "u = TRecord ns ts"
      using t by (auto elim: typed_RecordE)
    have len: "length ns = length ts" using ts(1) list_all2_lengthD [OF ts(2)] by simp
    have "vty st (VRecord ns vs) (instT s u)" if "list_all2 (vty st) vs (map (instT s) ts)" for vs
      using that len list_all2_lengthD [OF that] by (simp add: ts(3) vty_Record)
    then show ?thesis
      unfolding Record evalInner.simps
      by (intro ok_bind [OF eval_args [OF ev sc ts(2)]]) simp
  next
    case (Field a f)
    then obtain ns ts where f: "typed E c a (TRecord ns ts)" "field_ty ns ts f = Some u"
      using t by (auto elim: typed_FieldE)
    show ?thesis
      unfolding Field evalInner.simps
      by (rule ok_bind [OF ih [OF f(1)]])
        (use field_vty [OF _ _ f(2)] in \<open>fastforce elim!: vty_RecordE\<close>)
  qed (use t in \<open>auto elim!: typed_litE intro: vty.intros\<close>)
qed

lemma eval_sound:
  assumes st: "store_checked st"
  shows "sound_ev st (eval d st)"
proof (induction d)
  case 0
  show ?case by (simp add: sound_ev_def)
next
  case (Suc d)
  have "ok_with (\<lambda>v. vty st v (instT s u)) (eval (Suc d) st env slf t)"
    if "scope st E c s slf env" "typed E c t u" for E c s slf env t u
    unfolding eval.simps by (rule ok_bind [OF ok_tick], rule evalInner_sound [OF st Suc.IH that])
  then show ?case by (simp only: sound_ev_def) blast
qed

end
