(* ===== verification/EvalProps.thy ===== *)
theory EvalProps
  imports Soundness
begin

text \<open>
  What holds of every run of the evaluator, typed or not: the verdict does not depend on the
  budgets once they suffice, fuel only goes down, and structural equality on data is equality.
\<close>

subsection \<open>Verdicts do not depend on the budgets\<close>

definition budget_error :: "eerr + 'a \<Rightarrow> bool" where
  "budget_error r \<longleftrightarrow> r = Inl ETooDeep \<or> r = Inl EFuel"

definition refines_ev :: "'a ev \<Rightarrow> 'a ev \<Rightarrow> bool" where
  "refines_ev m m' \<longleftrightarrow>
     (\<forall>f r f' k. m f = (r, f') \<longrightarrow> \<not> budget_error r \<longrightarrow> 0 \<le> k \<longrightarrow> m' (f + k) = (r, f' + k))"

lemma refines_evD:
  "refines_ev m m' \<Longrightarrow> m f = (r, f') \<Longrightarrow> \<not> budget_error r \<Longrightarrow> 0 \<le> k \<Longrightarrow> m' (f + k) = (r, f' + k)"
  by (simp add: refines_ev_def)

lemma refines_from: "refines_ev (efrom r) (efrom r)"
  by (auto simp: refines_ev_def efrom_def)

lemma refines_tick: "refines_ev tick tick"
  by (auto simp: refines_ev_def tick_def budget_error_def split: if_splits)

lemma refines_bind:
  assumes m: "refines_ev m m'" and k: "\<And>v. refines_ev (k v) (k' v)"
  shows "refines_ev (ebind m k) (ebind m' k')"
  unfolding refines_ev_def
proof (intro allI impI)
  fix f r f' i
  assume b: "ebind m k f = (r, f')" "\<not> budget_error r" "0 \<le> (i :: int)"
  obtain q g where q: "m f = (q, g)" by fastforce
  show "ebind m' k' (f + i) = (r, f' + i)"
  proof (cases q)
    case (Inl e)
    then have "r = Inl e" "f' = g" using b(1) q by (auto simp: ebind_def)
    then have "m' (f + i) = (Inl e, g + i)"
      using refines_evD [OF m q _ b(3)] b(2) Inl by (simp add: budget_error_def)
    then show ?thesis using \<open>r = Inl e\<close> \<open>f' = g\<close> by (simp add: ebind_def)
  next
    case (Inr v)
    then have "k v g = (r, f')" using b(1) q by (simp add: ebind_def)
    then have "k' v (g + i) = (r, f' + i)" using refines_evD [OF k] b by blast
    moreover have "m' (f + i) = (Inr v, g + i)"
      using refines_evD [OF m q _ b(3)] Inr by (simp add: budget_error_def)
    ultimately show ?thesis by (simp add: ebind_def)
  qed
qed

definition refines_evs :: "evaluator \<Rightarrow> evaluator \<Rightarrow> bool" where
  "refines_evs ev ev' \<longleftrightarrow> (\<forall>env slf t. refines_ev (ev env slf t) (ev' env slf t))"

lemma refines_list:
  "(\<And>t. refines_ev (ev t) (ev' t)) \<Longrightarrow> refines_ev (eval_list ev ts) (eval_list ev' ts)"
  by (induction ts) (auto intro!: refines_bind refines_from)

lemma refines_apply: "refines_evs ev ev' \<Longrightarrow> refines_ev (apply_val ev g a) (apply_val ev' g a)"
  by (auto simp: apply_val_def apply_body_def refines_evs_def intro!: refines_bind refines_tick
      refines_from split: val.split)

lemma refines_inner:
  assumes "refines_evs ev ev'"
  shows "refines_ev (evalInner st ev env slf t) (evalInner st ev' env slf t)"
proof -
  have ev: "refines_ev (ev env slf t) (ev' env slf t)" for env slf t
    using assms by (simp add: refines_evs_def)
  show ?thesis
    by (cases t)
      (auto simp: eval_def_def GetDef_def intro!: refines_bind refines_from refines_list refines_apply assms ev
        split: option.split def.split val.split)
qed

lemma eval_refines: "d \<le> d' \<Longrightarrow> refines_evs (eval d st) (eval d' st)"
proof (induction d arbitrary: d')
  case 0
  show ?case by (auto simp: refines_evs_def refines_ev_def efrom_def budget_error_def)
next
  case (Suc d)
  then obtain e where d': "d' = Suc e" and le: "d \<le> e" by (cases d') auto
  show ?case
    unfolding refines_evs_def d' eval.simps
    by (intro allI refines_bind refines_tick refines_inner Suc.IH le)
qed

subsection \<open>Fuel\<close>

text \<open>A run spends fuel, and is out of it exactly when that is its verdict.\<close>

definition spends :: "'a ev \<Rightarrow> bool" where
  "spends m \<longleftrightarrow>
     (\<forall>f r f'. m f = (r, f') \<longrightarrow> 0 \<le> f \<longrightarrow> f' \<le> f \<and> - 1 \<le> f' \<and> (f' < 0 \<longleftrightarrow> r = Inl EFuel))"

lemma spends_from: "r \<noteq> Inl EFuel \<Longrightarrow> spends (efrom r)"
  by (auto simp: spends_def efrom_def)

lemma spends_tick: "spends tick"
  by (auto simp: spends_def tick_def)

lemma spends_bind: "spends m \<Longrightarrow> (\<And>v. spends (k v)) \<Longrightarrow> spends (ebind m k)"
  unfolding spends_def ebind_def by (fastforce split: prod.splits sum.splits)

lemma spends_list: "(\<And>t. spends (ev t)) \<Longrightarrow> spends (eval_list ev ts)"
  by (induction ts) (auto intro!: spends_bind spends_from)

text \<open>Errors of primitives and lookups are not about budgets.\<close>

lemma budget_error_simps [simp]:
  "\<not> budget_error (Inr v)" "budget_error (Inl e) \<longleftrightarrow> e = ETooDeep \<or> e = EFuel"
  by (auto simp: budget_error_def)

lemma budget_error_iff: "budget_error r \<longleftrightarrow> (\<exists>e. r = Inl e \<and> (e = ETooDeep \<or> e = EFuel))"
  by (auto simp: budget_error_def)

lemma in_budget_values: "\<not> budget_error (structEq a b)"
  using structEq_error by (auto simp: budget_error_iff)

lemma in_budget_bytes: "\<not> budget_error (bytesOfList v)"
  by (induction v rule: bytesOfList.induct)
    (auto simp: budget_error_iff rbind_eq_Inl split: list.splits val.splits)

lemma in_budget_bind:
  "budget_error (rbind m k) \<longleftrightarrow> budget_error m \<or> (\<exists>v. m = Inr v \<and> budget_error (k v))"
  by (cases m) auto

lemma in_budget_args:
  "\<not> budget_error (arg vs i)" "\<not> budget_error (arg_int vs i)" "\<not> budget_error (arg_rat vs i)"
  "\<not> budget_error (arg_float vs i)" "\<not> budget_error (arg_bool vs i)"
  "\<not> budget_error (int2 g vs)" "\<not> budget_error (rat2 h vs)" "\<not> budget_error (float2 k vs)"
  by (auto simp: arg_def arg_int_def arg_rat_def arg_float_def arg_bool_def int2_def rat2_def float2_def
      in_budget_bind split: val.split)

lemma in_budget_prim: "\<not> budget_error (prim op vs)"
proof -
  have r: "\<not> budget_error q" if "ratPrim op vs = Some q" for q
    using that by (auto simp: ratPrim_def in_budget_args in_budget_bind split: if_splits)
  have f: "\<not> budget_error q" if "floatPrim op vs = Some q" for q
    using that by (auto simp: floatPrim_def in_budget_args in_budget_bind split: if_splits)
  have "\<not> budget_error q" if "numPrim op vs = Some q" for q
    using r f that by (auto simp: numPrim_def split: list.splits val.splits)
  moreover have "\<not> budget_error (intPrim op vs)"
    by (auto simp: intPrim_def in_budget_args in_budget_values in_budget_bind)
  moreover have "\<not> budget_error (cryptoPrim op vs)"
    by (auto simp: cryptoPrim_def in_budget_args in_budget_bytes in_budget_bind)
  moreover have "\<not> budget_error (toRat vs)" "\<not> budget_error (toFloat vs)" "\<not> budget_error (floorPrim vs)"
    by (auto simp: toRat_def toFloat_def floorPrim_def in_budget_args in_budget_bind split: val.split)
  ultimately show ?thesis by (auto simp: prim_def split: option.split)
qed

lemma in_budget_field: "\<not> budget_error (field_val ns vs f)"
  by (induction ns vs f rule: field_val.induct) (auto split: list.split)

lemma in_budget_table: "\<not> budget_error (table_get xs ys d a)"
  by (induction xs arbitrary: ys) (auto split: list.split)

lemma no_fuel_lookup:
  "prim op vs \<noteq> Inl EFuel" "field_val ns vs f \<noteq> Inl EFuel" "table_get xs ys d a \<noteq> Inl EFuel"
  using in_budget_prim in_budget_field in_budget_table by (fastforce simp: budget_error_iff)+

lemma spends_apply: "(\<And>env slf t. spends (ev env slf t)) \<Longrightarrow> spends (apply_val ev g a)"
  unfolding apply_val_def
  by (rule spends_bind [OF spends_tick])
    (auto simp: apply_body_def no_fuel_lookup intro!: spends_from split: val.split)

lemma spends_inner:
  assumes ev: "\<And>env slf t. spends (ev env slf t)"
  shows "spends (evalInner st ev env slf t)"
proof -
  have field: "spends (efrom (case v of VRecord ns vs \<Rightarrow> field_val ns vs f | _ \<Rightarrow> Inl (ENoField f)))" for v f
    by (intro spends_from) (simp add: no_fuel_lookup split: val.split)
  show ?thesis
    by (cases t)
      (auto simp: eval_def_def no_fuel_lookup intro!: spends_bind spends_from spends_list
        spends_apply field ev split: sum.split def.split val.split)
qed

lemma eval_spends: "spends (eval d st env slf t)"
proof (induction d arbitrary: env slf t)
  case 0
  show ?case by (simp add: spends_from)
next
  case (Suc d)
  show ?case unfolding eval.simps by (intro spends_bind spends_tick spends_inner Suc.IH)
qed

subsection \<open>Structural equality\<close>

text \<open>Data all the way down, with canonical floats.\<close>

fun first_order :: "val \<Rightarrow> bool" where
  "first_order (VInt _) = True"
| "first_order (VRat _) = True"
| "first_order (VFloat f) = (canonFloat f = f)"
| "first_order (VBool _) = True"
| "first_order (VData h i vs) = list_all first_order vs"
| "first_order (VRecord ns vs) = list_all first_order vs"
| "first_order _ = False"

lemma structEqs_eq:
  "length xs = length ys \<Longrightarrow>
   (\<And>x y u. x \<in> set xs \<Longrightarrow> y \<in> set ys \<Longrightarrow> vty st x u \<Longrightarrow> vty st y u \<Longrightarrow> structEq x y = Inr (x = y)) \<Longrightarrow>
   list_all2 (vty st) xs us \<Longrightarrow> list_all2 (vty st) ys us \<Longrightarrow> structEqs xs ys = Inr (xs = ys)"
  by (induction xs ys arbitrary: us rule: list_induct2) (auto simp: list_all2_Cons1)

lemma structEq_eq:
  "first_order a \<Longrightarrow> first_order b \<Longrightarrow> vty st a t \<Longrightarrow> vty st b t \<Longrightarrow> structEq a b = Inr (a = b)"
proof (induction a arbitrary: b t)
  case (VData h i xs)
  obtain ts cs where t: "t = TData h ts" and cs: "map_of (sdefs st) h = Some (DData (length ts) cs)"
    and xs: "list_all2 (vty st) xs (instCtorFields (DData (length ts) cs) h ts i)"
    using VData.prems(3) by (auto elim: vty.cases)
  obtain j ys where b: "b = VData h j ys"
    and ys: "list_all2 (vty st) ys (instCtorFields (DData (length ts) cs) h ts j)"
    using VData.prems(4) cs unfolding t by (auto elim: vty_DataE)
  show ?case
  proof (cases "i = j")
    case True
    have len: "length xs = length ys"
      using list_all2_lengthD [OF xs] list_all2_lengthD [OF ys] True by simp
    have "structEqs xs ys = Inr (xs = ys)"
      using VData.IH VData.prems(1,2) b
      by (intro structEqs_eq [OF len _ xs ys [folded True]]) (auto simp: list_all_iff)
    then show ?thesis using b True len by simp
  qed (simp add: b)
next
  case (VRecord ns xs)
  obtain ts where t: "t = TRecord ns ts" and xs: "list_all2 (vty st) xs ts"
    using VRecord.prems(3) by (auto elim: vty.cases)
  obtain ys where b: "b = VRecord ns ys" and ys: "list_all2 (vty st) ys ts"
    using VRecord.prems(4) unfolding t by (auto elim: vty_RecordE)
  have len: "length xs = length ys"
    using list_all2_lengthD [OF xs] list_all2_lengthD [OF ys] by simp
  have "structEqs xs ys = Inr (xs = ys)"
    using VRecord.IH VRecord.prems(1,2) b
    by (intro structEqs_eq [OF len _ xs ys]) (auto simp: list_all_iff)
  then show ?case using b len by simp
qed (auto elim!: vty.cases [of st "VInt _"] vty.cases [of st "VRat _"] vty.cases [of st "VFloat _"]
    vty.cases [of st "VBool _"] vty_groundE)

end
