(* ===== verification/Reducible.thy ===== *)
theory Reducible
  imports EvalProps
begin

text \<open>
  What it means for a run to return, and the reducible values of a type: the values that can
  be used at it without a run that spends every budget. Data types are least fixed points,
  taken in the order of the store, so a positivity condition makes them unfold. It is stronger
  than the one of \<^verbatim>\<open>strictlyPositiveTy\<close>, which is not enough (\<open>Spec2Isabelle\<close> shows why).
\<close>

subsection \<open>Runs that return\<close>

text \<open>
  A family of runs indexed by the depth limit returns when some budgets lead to a verdict
  other than a spent budget, and the verdict, if it is a value, is as expected.
\<close>

definition chain :: "(nat \<Rightarrow> 'a ev) \<Rightarrow> bool" where
  "chain ms \<longleftrightarrow> (\<forall>d d'. d \<le> d' \<longrightarrow> refines_ev (ms d) (ms d'))"

definition returns :: "(nat \<Rightarrow> 'a ev) \<Rightarrow> ('a \<Rightarrow> bool) \<Rightarrow> bool" where
  "returns ms P \<longleftrightarrow>
     (\<exists>d f r f'. 0 \<le> f \<and> ms d f = (r, f') \<and> \<not> budget_error r \<and> (\<forall>v. r = Inr v \<longrightarrow> P v))"

lemma chain_eval: "chain (\<lambda>d. eval d st env slf t)"
  using eval_refines by (auto simp: chain_def refines_evs_def)

lemma chain_apply: "chain (\<lambda>d. apply_val (eval d st) g a)"
  using refines_apply [OF eval_refines] by (simp add: chain_def)

lemma chain_def_body: "chain (\<lambda>d. eval_def st (eval d st) h)"
  using chain_eval by (auto simp: chain_def eval_def_def GetDef_def intro!: refines_from split: option.split def.split)

lemma chain_list: "chain (\<lambda>d. eval_list (eval d st env slf) ts)"
  using refines_list [where ev = "eval d st env slf" for d] eval_refines
  by (simp add: chain_def refines_evs_def)

lemma chain_from: "chain (\<lambda>d. efrom r)"
  by (simp add: chain_def refines_from)

lemma chain_bind: "chain ms \<Longrightarrow> (\<And>v. chain (\<lambda>d. ks d v)) \<Longrightarrow> chain (\<lambda>d. ebind (ms d) (ks d))"
  by (simp add: chain_def refines_bind)

lemma chain_if: "(c \<Longrightarrow> chain ms) \<Longrightarrow> (\<not> c \<Longrightarrow> chain ms') \<Longrightarrow> chain (\<lambda>d. if c then ms d else ms' d)"
  by (cases c) simp_all

lemma chain_match:
  "chain (\<lambda>d. case v of
       VData g i vs \<Rightarrow>
         if length arms \<le> i then efrom (Inl (ENoArm i))
         else eval d st (foldl pushEnv env vs) slf (arms ! i)
     | _ \<Rightarrow> efrom (Inl ENotData))"
  by (cases v) (auto intro: chain_eval chain_from chain_if)

lemmas chains = chain_eval chain_apply chain_def_body chain_list chain_from chain_match

lemma returns_mono: "returns ms P \<Longrightarrow> (\<And>v. P v \<Longrightarrow> Q v) \<Longrightarrow> returns ms Q"
  unfolding returns_def by blast

lemma returns_from:
  "\<not> budget_error r \<Longrightarrow> (\<And>v. r = Inr v \<Longrightarrow> P v) \<Longrightarrow> returns (\<lambda>d. efrom r) P"
  unfolding returns_def efrom_def by (intro exI [of _ 0]) auto

lemma returns_bind:
  assumes ms: "chain ms" and ks: "\<And>v. chain (\<lambda>d. ks d v)"
    and m: "returns ms P" and k: "\<And>v. P v \<Longrightarrow> returns (\<lambda>d. ks d v) Q"
  shows "returns (\<lambda>d. ebind (ms d) (ks d)) Q"
proof -
  obtain d f r f' where m: "0 \<le> f" "ms d f = (r, f')" "\<not> budget_error r" "\<forall>v. r = Inr v \<longrightarrow> P v"
    using m unfolding returns_def by blast
  show ?thesis
  proof (cases r)
    case (Inl e)
    then have "ebind (ms d) (ks d) f = (Inl e, f')" using m(2) by (simp add: ebind_def)
    then show ?thesis
      using m(1,3) Inl unfolding returns_def budget_error_def by fastforce
  next
    case (Inr v)
    then obtain e g q g' where k: "0 \<le> g" "ks e v g = (q, g')" "\<not> budget_error q" "\<forall>v. q = Inr v \<longrightarrow> Q v"
      using k [of v] m(4) unfolding returns_def by blast
    define n where "n = max d e"
    define i where "i = max 0 (g - f')"
    have "ms n (f + i) = (Inr v, f' + i)"
      using ms m(2,3) Inr by (intro refines_evD [of "ms d"]) (simp_all add: chain_def n_def i_def)
    moreover have "ks n v (g + (f' + i - g)) = (q, g' + (f' + i - g))"
      using ks [of v] k(2,3) by (intro refines_evD [of "ks e v"]) (simp_all add: chain_def n_def i_def)
    ultimately have "ebind (ms n) (ks n) (f + i) = (q, g' + (f' + i - g))"
      by (simp add: ebind_def)
    moreover have "0 \<le> f + i" using m(1) by (simp add: i_def)
    ultimately show ?thesis using k(3,4) unfolding returns_def by blast
  qed
qed

lemma returns_tick:
  assumes "returns ms P"
  shows "returns (\<lambda>d. ebind tick (\<lambda>_. ms d)) P"
proof -
  obtain d f r f' where m: "0 \<le> f" "ms d f = (r, f')" "\<not> budget_error r" "\<forall>v. r = Inr v \<longrightarrow> P v"
    using assms unfolding returns_def by blast
  then have "ebind tick (\<lambda>_. ms d) (f + 1) = (r, f')" by (simp add: ebind_def tick_def)
  with m show ?thesis unfolding returns_def by (metis add_increasing2 zero_le_one)
qed

lemma returns_eval:
  assumes "returns (\<lambda>d. evalInner st (eval d st) env slf t) P"
  shows "returns (\<lambda>d. eval d st env slf t) P"
proof -
  obtain d f r f' where "0 \<le> f" "eval (Suc d) st env slf t f = (r, f')" "\<not> budget_error r"
    "\<forall>v. r = Inr v \<longrightarrow> P v"
    using returns_tick [OF assms] unfolding returns_def eval.simps by blast
  then show ?thesis unfolding returns_def by blast
qed

lemma returns_apply:
  "returns (\<lambda>d. apply_body (eval d st) g a) P \<Longrightarrow> returns (\<lambda>d. apply_val (eval d st) g a) P"
  unfolding apply_val_def by (rule returns_tick)

lemma returns_list:
  "list_all2 (\<lambda>t S. returns (\<lambda>d. eval d st env slf t) (\<lambda>v. v \<in> S)) ts Ss \<Longrightarrow>
   returns (\<lambda>d. eval_list (eval d st env slf) ts) (\<lambda>vs. list_all2 (\<in>) vs Ss)"
proof (induction rule: list_all2_induct)
  case Nil
  show ?case by (auto simp: budget_error_def intro: returns_from)
next
  case (Cons t ts S Ss)
  show ?case
    unfolding eval_list.simps
    by (rule returns_bind [OF chain_eval _ Cons.hyps(1)],
        intro chain_bind chains, rule returns_bind [OF chain_list chain_from Cons.IH])
      (auto simp: budget_error_def intro: returns_from)
qed

text \<open>The same for the forms of terms.\<close>

lemma returns_app:
  assumes "returns (\<lambda>d. eval d st env slf f) P" "returns (\<lambda>d. eval d st env slf a) Q"
    and "\<And>g v. P g \<Longrightarrow> Q v \<Longrightarrow> returns (\<lambda>d. apply_val (eval d st) g v) R"
  shows "returns (\<lambda>d. eval d st env slf (App f a)) R"
proof (intro returns_eval, unfold evalInner.simps)
  show "returns (\<lambda>d. ebind (eval d st env slf f) (\<lambda>g. ebind (eval d st env slf a) (\<lambda>v. apply_val (eval d st) g v))) R"
    by (rule returns_bind [OF chain_eval _ assms(1)], intro chain_bind chains)
      (rule returns_bind [OF chain_eval chain_apply assms(2)], rule assms(3))
qed

lemma returns_let:
  assumes "returns (\<lambda>d. eval d st env slf a) P"
    and "\<And>v. P v \<Longrightarrow> returns (\<lambda>d. eval d st (pushEnv env v) slf b) R"
  shows "returns (\<lambda>d. eval d st env slf (Let p a b)) R"
  by (intro returns_eval, unfold evalInner.simps) (rule returns_bind [OF chain_eval chain_eval assms])

lemma returns_cond:
  "returns ms R \<Longrightarrow> returns ms' R \<Longrightarrow> returns (\<lambda>d. if c then ms d else ms' d) R"
  by (cases c) simp_all

lemma returns_if:
  assumes "returns (\<lambda>d. eval d st env slf a) P"
    and "returns (\<lambda>d. eval d st env slf b) R" "returns (\<lambda>d. eval d st env slf c) R"
  shows "returns (\<lambda>d. eval d st env slf (If a b c)) R"
proof (intro returns_eval, unfold evalInner.simps)
  show "returns (\<lambda>d. ebind (eval d st env slf a)
      (\<lambda>v. if bool_of v then eval d st env slf b else eval d st env slf c)) R"
    by (rule returns_bind [OF chain_eval _ assms(1)], intro chain_if chains) (rule returns_cond [OF assms(2,3)])
qed

lemma returns_args:
  assumes "list_all2 (\<lambda>t S. returns (\<lambda>d. eval d st env slf t) (\<lambda>v. v \<in> S)) ts Ss"
    and "\<And>vs. list_all2 (\<in>) vs Ss \<Longrightarrow> \<not> budget_error (g vs) \<and> (\<forall>v. g vs = Inr v \<longrightarrow> R v)"
  shows "returns (\<lambda>d. ebind (eval_list (eval d st env slf) ts) (\<lambda>vs. efrom (g vs))) R"
  by (rule returns_bind [OF chain_list chain_from returns_list [OF assms(1)]])
    (use assms(2) in \<open>blast intro: returns_from\<close>)

lemma returns_match:
  assumes "returns (\<lambda>d. eval d st env slf a) P"
    and "\<And>v. P v \<Longrightarrow> \<exists>g i vs. v = VData g i vs \<and> i < length arms \<and>
      returns (\<lambda>d. eval d st (foldl pushEnv env vs) slf (arms ! i)) R"
  shows "returns (\<lambda>d. eval d st env slf (Match h a arms)) R"
proof (intro returns_eval, unfold evalInner.simps, rule returns_bind [OF chain_eval chain_match assms(1)])
  fix v
  assume "P v"
  then obtain g i vs where "v = VData g i vs" "i < length arms"
    "returns (\<lambda>d. eval d st (foldl pushEnv env vs) slf (arms ! i)) R"
    using assms(2) by blast
  then show "returns (\<lambda>d. case v of
       VData g i vs \<Rightarrow>
         if length arms \<le> i then efrom (Inl (ENoArm i))
         else eval d st (foldl pushEnv env vs) slf (arms ! i)
     | _ \<Rightarrow> efrom (Inl ENotData)) R"
    by simp
qed

subsection \<open>Reducible values\<close>

definition applies :: "store \<Rightarrow> val \<Rightarrow> val \<Rightarrow> val set \<Rightarrow> bool" where
  "applies st g a S \<longleftrightarrow> returns (\<lambda>d. apply_val (eval d st) g a) (\<lambda>v. v \<in> S)"

type_synonym dsets = "val set list \<Rightarrow> val set"

text \<open>
  The values of a type: \<open>D\<close> gives the data types, \<open>X\<close> the type being defined, \<open>Ss\<close> the type
  variables.
\<close>

fun vsem :: "store \<Rightarrow> (hash \<Rightarrow> dsets) \<Rightarrow> dsets \<Rightarrow> val set list \<Rightarrow> ty \<Rightarrow> val set" where
  "vsem st D X Ss TInt = range VInt"
| "vsem st D X Ss TRat = range VRat"
| "vsem st D X Ss TFloat = range VFloat"
| "vsem st D X Ss TBool = range VBool"
| "vsem st D X Ss (TVar v) = (if v < length Ss then Ss ! v else {})"
| "vsem st D X Ss (TFun a b) = {g. \<forall>v \<in> vsem st D X Ss a. applies st g v (vsem st D X Ss b)}"
| "vsem st D X Ss (TData h ts) = D h (map (vsem st D X Ss) ts)"
| "vsem st D X Ss (TRec ts) = X (map (vsem st D X Ss) ts)"
| "vsem st D X Ss (TRecord ns ts) =
     {VRecord ns vs | vs. length ns = length ts \<and> list_all2 (\<in>) vs (map (vsem st D X Ss) ts)}"

definition dstep :: "store \<Rightarrow> (hash \<Rightarrow> dsets) \<Rightarrow> hash \<Rightarrow> ty list list \<Rightarrow> dsets \<Rightarrow> dsets" where
  "dstep st D h cs X Ss =
     {VData h i vs | i vs. i < length cs \<and> list_all2 (\<in>) vs (map (vsem st D X Ss) (cs ! i))}"

fun dsem :: "store \<Rightarrow> (hash \<times> def) list \<Rightarrow> hash \<Rightarrow> dsets" where
  "dsem st [] h = (\<lambda>Ss. {})"
| "dsem st ((g, d) # ds) h =
     (if h = g then (case d of DData n cs \<Rightarrow> lfp (dstep st (dsem st ds) h cs) | _ \<Rightarrow> (\<lambda>Ss. {}))
      else dsem st ds h)"

abbreviation dats :: "store \<Rightarrow> hash \<Rightarrow> dsets" where
  "dats st \<equiv> dsem st (sdefs st)"

abbreviation reds :: "store \<Rightarrow> val set list \<Rightarrow> ty \<Rightarrow> val set" where
  "reds st \<equiv> vsem st (dats st) (\<lambda>Ss. {})"

subsection \<open>The order of the store\<close>

text \<open>
  Definitions are content-addressed, so a definition only depends on definitions that exist
  before it: a store can be listed with every definition after the ones that use it.
\<close>

fun ordered :: "(hash \<times> def) list \<Rightarrow> bool" where
  "ordered [] = True"
| "ordered ((h, d) # ds) = (h \<notin> fst ` set ds \<and> collectDeps d \<subseteq> fst ` set ds \<and> ordered ds)"

lemma ordered_induct:
  assumes "ordered ds" "map_of ds h = Some d"
    and "\<And>h d. map_of ds h = Some d \<Longrightarrow> (\<And>g e. g \<in> collectDeps d \<Longrightarrow> map_of ds g = Some e \<Longrightarrow> P g e) \<Longrightarrow> P h d"
  shows "P h d"
  using assms
proof (induction ds arbitrary: h d)
  case (Cons x ds)
  obtain k e where x: "x = (k, e)" by fastforce
  have other: "P g c" if "map_of ds g = Some c" for g c
  proof (rule Cons.IH [OF _ that])
    show "ordered ds" using Cons.prems(1) by (simp add: x)
    fix g c
    assume g: "map_of ds g = Some c" and ih: "\<And>a b. a \<in> collectDeps c \<Longrightarrow> map_of ds a = Some b \<Longrightarrow> P a b"
    have "\<not> k \<in> fst ` set ds" "ordered ds" using Cons.prems(1) by (auto simp: x)
    have "k \<notin> collectDeps c" "g \<noteq> k"
    proof -
      have "collectDeps c \<subseteq> fst ` set ds" using \<open>ordered ds\<close> g
        by (induction ds) (auto split: if_splits)
      with \<open>\<not> k \<in> fst ` set ds\<close> show "k \<notin> collectDeps c" by blast
      show "g \<noteq> k" using g \<open>\<not> k \<in> fst ` set ds\<close> by (metis domI dom_map_of_conv_image_fst)
    qed
    show "P g c"
    proof (rule Cons.prems(3))
      show "map_of (x # ds) g = Some c" using g \<open>g \<noteq> k\<close> by (simp add: x)
      fix a b
      assume a: "a \<in> collectDeps c" "map_of (x # ds) a = Some b"
      with \<open>k \<notin> collectDeps c\<close> have "a \<noteq> k" by blast
      with a show "P a b" using ih by (simp add: x)
    qed
  qed
  show ?case
  proof (cases "h = k")
    case True
    then have d: "d = e" using Cons.prems(2) by (simp add: x)
    have "k \<notin> collectDeps e" using Cons.prems(1) by (auto simp: x)
    show ?thesis
    proof (rule Cons.prems(3) [OF Cons.prems(2)])
      fix a b
      assume a: "a \<in> collectDeps d" "map_of (x # ds) a = Some b"
      with \<open>k \<notin> collectDeps e\<close> d have "a \<noteq> k" by blast
      then show "P a b" using a(2) other by (simp add: x)
    qed
  next
    case False
    then show ?thesis using Cons.prems(2) other by (simp add: x)
  qed
qed simp

text \<open>The values of a type only depend on the data types it mentions.\<close>

lemma map_vsem_cong:
  "(\<And>t. t \<in> set ts \<Longrightarrow> (\<And>h. h \<in> set (ty_deps t) \<Longrightarrow> D h = D' h) \<Longrightarrow> vsem st D X Ss t = vsem st D' X Ss t) \<Longrightarrow>
   (\<And>h t. t \<in> set ts \<Longrightarrow> h \<in> set (ty_deps t) \<Longrightarrow> D h = D' h) \<Longrightarrow>
   map (vsem st D X Ss) ts = map (vsem st D' X Ss) ts"
  by (intro map_cong refl) blast

lemma vsem_cong:
  "(\<And>h. h \<in> set (ty_deps t) \<Longrightarrow> D h = D' h) \<Longrightarrow> vsem st D X Ss t = vsem st D' X Ss t"
proof (induction t)
  case (TData h ts)
  then have "map (vsem st D X Ss) ts = map (vsem st D' X Ss) ts"
    by (intro map_vsem_cong) auto
  moreover have "D h = D' h" using TData.prems by simp
  ultimately show ?case by (simp only: vsem.simps)
next
  case (TRec ts)
  then have "map (vsem st D X Ss) ts = map (vsem st D' X Ss) ts"
    by (intro map_vsem_cong) auto
  then show ?case by (simp only: vsem.simps)
next
  case (TRecord ns ts)
  then have "map (vsem st D X Ss) ts = map (vsem st D' X Ss) ts"
    by (intro map_vsem_cong) auto
  then show ?case by (simp only: vsem.simps)
qed simp_all


subsection \<open>Positivity\<close>

text \<open>
  A self-reference in covariant position, whatever polarity is: not below the argument of a
  data type that is not arrow-free, and with arguments that do not mention the type again.
\<close>

fun covariant :: "store \<Rightarrow> bool \<Rightarrow> ty \<Rightarrow> bool" where
  "covariant st neg (TFun a b) = (covariant st (\<not> neg) a \<and> covariant st neg b)"
| "covariant st neg (TData h ts) =
     (if data_arrow_free st h then list_all (covariant st neg) ts else list_all norec ts)"
| "covariant st neg (TRec ts) = (\<not> neg \<and> list_all norec ts)"
| "covariant st neg (TRecord ns ts) = list_all (covariant st neg) ts"
| "covariant st neg _ = True"

definition store_covariant :: "store \<Rightarrow> bool" where
  "store_covariant st \<longleftrightarrow>
     (\<forall>h n cs. map_of (sdefs st) h = Some (DData n cs) \<longrightarrow>
        (\<forall>t \<in> set (concat cs). covariant st False t))"

definition mono_args :: "dsets \<Rightarrow> bool" where
  "mono_args F \<longleftrightarrow> (\<forall>Ss Ts. list_all2 (\<subseteq>) Ss Ts \<longrightarrow> F Ss \<subseteq> F Ts)"

lemma members_mono:
  "list_all2 (\<in>) vs Ss \<Longrightarrow> list_all2 (\<subseteq>) Ss Ts \<Longrightarrow> list_all2 (\<in>) vs Ts"
  by (rule list_all2_trans [where ?P1.0 = "(\<in>)" and ?P2.0 = "(\<subseteq>)"]) auto

lemma maps_sub:
  "(\<And>t. t \<in> set ts \<Longrightarrow> f t \<subseteq> g t) \<Longrightarrow> list_all2 (\<subseteq>) (map f ts) (map g ts)"
  by (auto simp: list_all2_conv_all_nth)

lemma vsem_norec: "norec t \<Longrightarrow> vsem st D X Ss t = vsem st D Y Ss t"
proof (induction t)
  case (TData h ts)
  then have "map (vsem st D X Ss) ts = map (vsem st D Y Ss) ts" by (auto simp: list_all_iff)
  then show ?case by (simp only: vsem.simps)
next
  case (TRecord ns ts)
  then have "map (vsem st D X Ss) ts = map (vsem st D Y Ss) ts" by (auto simp: list_all_iff)
  then show ?case by (simp only: vsem.simps)
qed simp_all

lemma map_vsem_norec: "list_all norec ts \<Longrightarrow> map (vsem st D X Ss) ts = map (vsem st D Y Ss) ts"
  by (intro map_cong refl vsem_norec) (simp add: list_all_iff)

lemma applies_mono: "applies st g v S \<Longrightarrow> S \<subseteq> T \<Longrightarrow> applies st g v T"
  unfolding applies_def by (erule returns_mono) blast

definition sub_if :: "bool \<Rightarrow> val set \<Rightarrow> val set \<Rightarrow> bool" where
  "sub_if neg S T \<longleftrightarrow> (if neg then T \<subseteq> S else S \<subseteq> T)"

lemma maps_sub_if:
  "(\<And>t. t \<in> set ts \<Longrightarrow> sub_if neg (f t) (g t)) \<Longrightarrow>
   (if neg then list_all2 (\<subseteq>) (map g ts) (map f ts) else list_all2 (\<subseteq>) (map f ts) (map g ts))"
  by (cases neg) (auto simp: sub_if_def intro: maps_sub)

lemma vsem_covariant:
  assumes XY: "X \<le> Y"
  shows "covariant st neg t \<Longrightarrow> \<forall>h \<in> set (ty_deps t). data_arrow_free st h \<longrightarrow> mono_args (D h) \<Longrightarrow>
    sub_if neg (vsem st D X Ss t) (vsem st D Y Ss t)"
proof (induction t arbitrary: neg)
  case (TFun a b)
  have "sub_if (\<not> neg) (vsem st D X Ss a) (vsem st D Y Ss a)"
    using TFun.prems by (intro TFun.IH(1)) simp_all
  moreover have "sub_if neg (vsem st D X Ss b) (vsem st D Y Ss b)"
    using TFun.prems by (intro TFun.IH(2)) simp_all
  ultimately show ?case
    by (cases neg) (auto simp: sub_if_def intro: applies_mono dest: subsetD)
next
  case (TData h ts)
  show ?case
  proof (cases "data_arrow_free st h")
    case True
    have "sub_if neg (vsem st D X Ss t) (vsem st D Y Ss t)" if "t \<in> set ts" for t
      using TData.prems True that by (intro TData.IH) (auto simp: list_all_iff)
    from maps_sub_if [of ts neg "vsem st D X Ss" "vsem st D Y Ss", OF this] True TData.prems(2) show ?thesis
      by (cases neg) (simp_all add: mono_args_def sub_if_def)
  next
    case False
    then have "map (vsem st D X Ss) ts = map (vsem st D Y Ss) ts"
      using TData.prems(1) by (intro map_vsem_norec) simp
    then show ?thesis by (simp only: vsem.simps) (simp add: sub_if_def)
  qed
next
  case (TRec ts)
  then have "map (vsem st D X Ss) ts = map (vsem st D Y Ss) ts" "\<not> neg"
    by (auto intro: map_vsem_norec simp del: map_eq_conv)
  then show ?case
    using le_funD [OF XY] by (simp only: vsem.simps) (simp add: sub_if_def)
next
  case (TRecord ns ts)
  have "sub_if neg (vsem st D X Ss t) (vsem st D Y Ss t)" if "t \<in> set ts" for t
    using TRecord.prems that by (intro TRecord.IH) (auto simp: list_all_iff)
  from maps_sub_if [of ts neg "vsem st D X Ss" "vsem st D Y Ss", OF this] show ?case
    by (cases neg) (auto simp: sub_if_def intro: members_mono)
qed (simp_all add: sub_if_def)

lemma vsem_args:
  assumes XY: "\<And>Ss Ts. list_all2 (\<subseteq>) Ss Ts \<Longrightarrow> X Ss \<subseteq> Y Ts" and ST: "list_all2 (\<subseteq>) Ss Ts"
  shows "\<not> tyHasFun t \<Longrightarrow> \<forall>h \<in> set (ty_deps t). mono_args (D h) \<Longrightarrow>
    vsem st D X Ss t \<subseteq> vsem st D Y Ts t"
proof (induction t)
  case (TVar v)
  then show ?case using ST by (auto simp: list_all2_conv_all_nth)
next
  case (TData h ts)
  have "list_all2 (\<subseteq>) (map (vsem st D X Ss) ts) (map (vsem st D Y Ts) ts)"
    using TData by (intro maps_sub TData.IH) (auto simp: list_ex_iff)
  then show ?case using TData.prems(2) by (simp add: mono_args_def)
next
  case (TRec ts)
  have "list_all2 (\<subseteq>) (map (vsem st D X Ss) ts) (map (vsem st D Y Ts) ts)"
    using TRec by (intro maps_sub TRec.IH) (auto simp: list_ex_iff)
  then show ?case using XY by simp
next
  case (TRecord ns ts)
  have "list_all2 (\<subseteq>) (map (vsem st D X Ss) ts) (map (vsem st D Y Ts) ts)"
    using TRecord by (intro maps_sub TRecord.IH) (auto simp: list_ex_iff)
  then show ?case by (auto intro: members_mono)
qed simp_all


subsection \<open>Data types unfold\<close>

definition store_total_data :: "store \<Rightarrow> bool" where
  "store_total_data st \<longleftrightarrow> store_checked st \<and> ordered (sdefs st) \<and> store_covariant st"

lemma ordered_deps: "ordered ds \<Longrightarrow> map_of ds h = Some d \<Longrightarrow> collectDeps d \<subseteq> fst ` set ds"
  by (induction ds) (auto split: if_splits)

lemma dsem_other: "\<forall>n cs. map_of ds h \<noteq> Some (DData n cs) \<Longrightarrow> dsem st ds h = (\<lambda>Ss. {})"
proof (induction ds)
  case (Cons x ds)
  then show ?case by (cases x; cases "snd x") auto
qed simp

lemma dstep_cong:
  assumes "\<And>t h. t \<in> set (concat cs) \<Longrightarrow> h \<in> set (ty_deps t) \<Longrightarrow> D h = D' h"
  shows "dstep st D g cs = dstep st D' g cs"
proof -
  have "vsem st D X Ss t = vsem st D' X Ss t" if "t \<in> set fs" "fs \<in> set cs" for X Ss t fs
    using assms that by (intro vsem_cong) auto
  then have "map (vsem st D X Ss) (cs ! i) = map (vsem st D' X Ss) (cs ! i)" if "i < length cs" for X Ss i
    using nth_mem [OF that] by simp
  then show ?thesis
    unfolding dstep_def by (intro ext Collect_cong ex_cong) (metis (no_types, lifting))
qed

lemma dep_of_field: "t \<in> set (concat cs) \<Longrightarrow> h \<in> set (ty_deps t) \<Longrightarrow> h \<in> collectDeps (DData n cs)"
  by auto

lemma dsem_lfp:
  "ordered ds \<Longrightarrow> map_of ds h = Some (DData n cs) \<Longrightarrow> dsem st ds h = lfp (dstep st (dsem st ds) h cs)"
proof (induction ds)
  case (Cons x ds)
  obtain g d where x: "x = (g, d)" by fastforce
  have "collectDeps (DData n cs) \<subseteq> fst ` set ds"
  proof (cases "h = g")
    case True
    then show ?thesis using Cons.prems by (auto simp: x)
  next
    case False
    then show ?thesis using Cons.prems ordered_deps [of ds h "DData n cs"] by (simp add: x)
  qed
  then have "k \<noteq> g" if "t \<in> set (concat cs)" "k \<in> set (ty_deps t)" for t k
    using dep_of_field [OF that] Cons.prems(1) by (auto simp: x)
  then have eq: "dstep st (dsem st (x # ds)) h cs = dstep st (dsem st ds) h cs"
    by (intro dstep_cong) (simp add: x)
  have "dsem st (x # ds) h = lfp (dstep st (dsem st ds) h cs)"
    using Cons by (cases "h = g") (auto simp: x)
  then show ?case unfolding eq .
qed simp

lemma ty_datas_deps: "set (ty_datas t) = set (ty_deps t)"
  by (induction t) auto

lemma dstep_sub:
  "(\<And>t. t \<in> set (concat cs) \<Longrightarrow> vsem st D X Ss t \<subseteq> vsem st D Y Ts t) \<Longrightarrow>
   dstep st D h cs X Ss \<subseteq> dstep st D h cs Y Ts"
proof -
  assume sub: "\<And>t. t \<in> set (concat cs) \<Longrightarrow> vsem st D X Ss t \<subseteq> vsem st D Y Ts t"
  have "list_all2 (\<subseteq>) (map (vsem st D X Ss) (cs ! i)) (map (vsem st D Y Ts) (cs ! i))" if "i < length cs" for i
    using that sub by (intro maps_sub) (auto intro: nth_mem)
  then show ?thesis unfolding dstep_def by (blast intro: members_mono)
qed

lemma dstep_mono:
  assumes "\<And>t. t \<in> set (concat cs) \<Longrightarrow> covariant st False t"
    and "\<And>t g. t \<in> set (concat cs) \<Longrightarrow> g \<in> set (ty_deps t) \<Longrightarrow> data_arrow_free st g \<Longrightarrow> mono_args (D g)"
  shows "mono (dstep st D h cs)"
proof (intro monoI le_funI dstep_sub)
  fix X Y :: dsets and Ss t
  assume "X \<le> Y" "t \<in> set (concat cs)"
  then have "sub_if False (vsem st D X Ss t) (vsem st D Y Ss t)"
    using assms by (intro vsem_covariant) auto
  then show "vsem st D X Ss t \<subseteq> vsem st D Y Ss t" by (simp add: sub_if_def)
qed

lemma lfp_mono_args:
  assumes F: "mono (dstep st D h cs)" and Dh: "D h = lfp (dstep st D h cs)"
    and f: "\<And>t. t \<in> set (concat cs) \<Longrightarrow> \<not> tyHasFun t \<and> (\<forall>g \<in> set (ty_deps t). mono_args (D g))"
  shows "mono_args (D h)"
proof -
  let ?F = "dstep st D h cs"
  let ?G = "\<lambda>Ss. {v. \<forall>Ts. list_all2 (\<subseteq>) Ss Ts \<longrightarrow> v \<in> D h Ts}"
  have unf: "D h = ?F (D h)" using lfp_unfold [OF F] Dh by simp
  have "?F ?G Ss \<subseteq> D h Ts" if "list_all2 (\<subseteq>) Ss Ts" for Ss Ts
    using f that by (subst unf) (intro dstep_sub vsem_args, auto)
  then have "?F ?G \<le> ?G" by (intro le_funI) blast
  then have "D h \<le> ?G" unfolding Dh by (rule lfp_lowerbound)
  then have "D h Ss \<subseteq> ?G Ss" for Ss by (rule le_funD)
  then show ?thesis unfolding mono_args_def by blast
qed

lemma data_facts:
  assumes st: "store_total_data st" and h: "map_of (sdefs st) h = Some d"
  shows "(\<forall>n cs. d = DData n cs \<longrightarrow> dats st h = dstep st (dats st) h cs (dats st h)) \<and>
    (data_arrow_free st h \<longrightarrow> mono_args (dats st h))"
proof -
  have ord: "ordered (sdefs st)" using st by (simp add: store_total_data_def)
  show ?thesis
  proof (rule ordered_induct [OF ord h])
    fix h d
    assume h: "map_of (sdefs st) h = Some d"
      and ih: "\<And>g e. g \<in> collectDeps d \<Longrightarrow> map_of (sdefs st) g = Some e \<Longrightarrow>
        (\<forall>n cs. e = DData n cs \<longrightarrow> dats st g = dstep st (dats st) g cs (dats st g)) \<and>
        (data_arrow_free st g \<longrightarrow> mono_args (dats st g))"
    show "(\<forall>n cs. d = DData n cs \<longrightarrow> dats st h = dstep st (dats st) h cs (dats st h)) \<and>
        (data_arrow_free st h \<longrightarrow> mono_args (dats st h))"
    proof (cases d)
      case (DFunc n t b ps)
      then have "dats st h = (\<lambda>Ss. {})" using h by (intro dsem_other) simp
      with DFunc show ?thesis by (simp add: mono_args_def)
    next
      case (DData n cs)
      have dep: "mono_args (dats st g)"
        if "t \<in> set (concat cs)" "g \<in> set (ty_deps t)" "data_arrow_free st g" for t g
      proof (cases "map_of (sdefs st) g")
        case None
        then have "dats st g = (\<lambda>Ss. {})" by (intro dsem_other) simp
        then show ?thesis by (simp add: mono_args_def)
      next
        case (Some e)
        then show ?thesis using ih [OF _ Some] dep_of_field [OF that(1,2)] that(3) DData by blast
      qed
      have F: "mono (dstep st (dats st) h cs)"
        using st h DData dep by (intro dstep_mono) (auto simp: store_total_data_def store_covariant_def)
      have lfp: "dats st h = lfp (dstep st (dats st) h cs)"
        using dsem_lfp [OF ord] h DData by blast
      have "mono_args (dats st h)" if "data_arrow_free st h"
      proof (rule lfp_mono_args [OF F lfp])
        fix t
        assume t: "t \<in> set (concat cs)"
        have ne: "h \<noteq> ''''" using st h by (auto simp: store_total_data_def store_checked_def)
        have nar: "\<not> arrowy st h" using that by (simp add: data_arrow_free_eq)
        have "\<not> arrowy st g" if "g \<in> set (ty_datas t)" for g
          using nar arrowy.below [OF ne _ t that] h DData by auto
        then have "data_arrow_free st g" if "g \<in> set (ty_deps t)" for g
          using that by (simp add: data_arrow_free_eq ty_datas_deps)
        moreover have "\<not> tyHasFun t"
          using nar arrowy.here [OF ne _ t] h DData by auto
        ultimately show "\<not> tyHasFun t \<and> (\<forall>g \<in> set (ty_deps t). mono_args (dats st g))"
          using dep [OF t] by blast
      qed
      moreover have "dats st h = dstep st (dats st) h cs (dats st h)"
        using lfp_unfold [OF F] lfp by simp
      ultimately show ?thesis using DData by blast
    qed
  qed
qed


subsection \<open>Instances\<close>

lemma reds_subst:
  "ty_wf st (length ts) False t \<Longrightarrow> vsem st D X Ss (substTy t ts) = vsem st D Y (map (vsem st D X Ss) ts) t"
proof (induction t)
  case (TData h us)
  then have "map (vsem st D X Ss \<circ> (\<lambda>t. substTy t ts)) us = map (vsem st D Y (map (vsem st D X Ss) ts)) us"
    by (auto simp: list_all_iff)
  then show ?case by (simp only: substTy.simps resolveRec.simps vsem.simps map_map length_map)
next
  case (TRecord ns us)
  then have "map (vsem st D X Ss \<circ> (\<lambda>t. substTy t ts)) us = map (vsem st D Y (map (vsem st D X Ss) ts)) us"
    by (auto simp: list_all_iff)
  then show ?case by (simp only: substTy.simps resolveRec.simps vsem.simps map_map length_map)
qed simp_all

lemma reds_inst:
  assumes ts: "list_all norec ts"
  shows "ty_wf st (length ts) True f \<Longrightarrow>
    vsem st D X Ss (resolveRec (substTy f ts) h) = vsem st D (D h) (map (vsem st D X Ss) ts) f"
proof (induction f)
  case (TVar v)
  then show ?case using ts by (simp add: norec_resolve list_all_length)
next
  case (TData g us)
  then have "map (vsem st D X Ss \<circ> ((\<lambda>t. resolveRec t h) \<circ> (\<lambda>t. substTy t ts))) us =
      map (vsem st D (D h) (map (vsem st D X Ss) ts)) us"
    by (auto simp: list_all_iff)
  then show ?case by (simp only: substTy.simps resolveRec.simps vsem.simps map_map length_map)
next
  case (TRec us)
  then have "map (vsem st D X Ss \<circ> ((\<lambda>t. resolveRec t h) \<circ> (\<lambda>t. substTy t ts))) us =
      map (vsem st D (D h) (map (vsem st D X Ss) ts)) us"
    by (auto simp: list_all_iff)
  then show ?case by (simp only: substTy.simps resolveRec.simps vsem.simps map_map length_map)
next
  case (TRecord ns us)
  then have "map (vsem st D X Ss \<circ> ((\<lambda>t. resolveRec t h) \<circ> (\<lambda>t. substTy t ts))) us =
      map (vsem st D (D h) (map (vsem st D X Ss) ts)) us"
    by (auto simp: list_all_iff)
  then show ?case by (simp only: substTy.simps resolveRec.simps vsem.simps map_map length_map)
qed simp_all

lemma reds_data:
  assumes st: "store_total_data st" and h: "map_of (sdefs st) h = Some (DData (length ts) cs)"
    and ts: "list_all norec ts"
  shows "v \<in> reds st Ss (TData h ts) \<longleftrightarrow>
    (\<exists>i vs. v = VData h i vs \<and> i < length cs \<and>
       list_all2 (\<in>) vs (map (reds st Ss) (instCtorFields (DData (length ts) cs) h ts i)))"
proof -
  have wf: "def_wf st (DData (length ts) cs)"
    using checked_wf st h store_data by (fastforce simp: store_total_data_def)
  have "map (reds st Ss) (instCtorFields (DData (length ts) cs) h ts i) =
      map (vsem st (dats st) (dats st h) (map (reds st Ss) ts)) (cs ! i)" if "i < length cs" for i
    using reds_inst [OF ts] wf nth_mem [OF that] by (auto simp: instCtorFields_def ctors_of_def list_all_iff)
  moreover have "dats st h = dstep st (dats st) h cs (dats st h)"
    using data_facts [OF st h] by blast
  then have "v \<in> reds st Ss (TData h ts) \<longleftrightarrow> v \<in> dstep st (dats st) h cs (dats st h) (map (reds st Ss) ts)"
    by simp
  ultimately show ?thesis by (auto simp: dstep_def)
qed

text \<open>Typed values of a type without functions are reducible.\<close>

definition data_ty :: "store \<Rightarrow> ty \<Rightarrow> bool" where
  "data_ty st t \<longleftrightarrow> \<not> tyHasFun t \<and> (\<forall>h \<in> set (ty_deps t). data_arrow_free st h)"

lemma data_ty_simps [simp]:
  "data_ty st TInt" "data_ty st TRat" "data_ty st TFloat" "data_ty st TBool" "data_ty st (TVar v)"
  "\<not> data_ty st (TFun a b)"
  "data_ty st (TData h ts) \<longleftrightarrow> data_arrow_free st h \<and> list_all (data_ty st) ts"
  "data_ty st (TRec ts) \<longleftrightarrow> list_all (data_ty st) ts"
  "data_ty st (TRecord ns ts) \<longleftrightarrow> list_all (data_ty st) ts"
  by (auto simp: data_ty_def list_ex_iff list_all_iff)

lemma data_ty_subst: "data_ty st u \<Longrightarrow> list_all (data_ty st) ts \<Longrightarrow> data_ty st (substTy u ts)"
  by (induction u) (simp_all add: list_all_iff)

lemma data_ty_resolve: "data_ty st u \<Longrightarrow> data_arrow_free st h \<Longrightarrow> data_ty st (resolveRec u h)"
  by (induction u) (simp_all add: list_all_iff)

lemma norec_resolved: "norec (resolveRec u h)"
  by (induction u) (simp_all add: list_all_iff)

lemma data_ty_inst:
  assumes h: "map_of (sdefs st) h = Some (DData (length ts) cs)" "h \<noteq> ''''" and t: "data_ty st (TData h ts)"
    and i: "i < length cs" and f: "f \<in> set (instCtorFields (DData (length ts) cs) h ts i)"
  shows "data_ty st f"
proof -
  obtain g where g: "g \<in> set (cs ! i)" "f = resolveRec (substTy g ts) h"
    using f by (auto simp: instCtorFields_def ctors_of_def)
  then have gc: "g \<in> set (concat cs)" using nth_mem [OF i] by auto
  have free: "data_arrow_free st h" and ts: "list_all (data_ty st) ts" using t by simp_all
  then have nar: "\<not> arrowy st h" by (simp add: data_arrow_free_eq)
  have "\<not> tyHasFun g" using nar arrowy.here [OF h(2) _ gc] h(1) by auto
  moreover have "data_arrow_free st k" if "k \<in> set (ty_deps g)" for k
    using nar arrowy.below [OF h(2) _ gc] h(1) that by (auto simp: data_arrow_free_eq ty_datas_deps)
  ultimately have "data_ty st g" by (simp add: data_ty_def)
  then show ?thesis using g(2) data_ty_resolve [OF data_ty_subst [OF _ ts] free] by simp
qed

lemma list_all2_members:
  "list_all2 (\<lambda>v t. P v t \<and> (Q t \<longrightarrow> v \<in> F t)) vs ts \<Longrightarrow> list_all Q ts \<Longrightarrow> list_all2 (\<in>) vs (map F ts)"
  by (induction rule: list_all2_induct) auto

lemma vty_reds:
  assumes st: "store_total_data st"
  shows "vty st v t \<Longrightarrow> norec t \<Longrightarrow> data_ty st t \<Longrightarrow> v \<in> reds st Ss t"
proof (induction rule: vty.induct)
  case (vty_Record ns vs ts)
  have "list_all2 (\<in>) vs (map (reds st Ss) ts)"
    by (rule list_all2_members [where P = "vty st" and Q = "\<lambda>t. norec t \<and> data_ty st t"])
      (use vty_Record in \<open>auto elim!: list_all2_mono simp: list_all_iff\<close>)
  with vty_Record.hyps show ?case by (auto dest: list_all2_lengthD)
next
  case (vty_Data h ts cs i vs)
  have ts: "list_all norec ts" using vty_Data.prems by simp
  have ne: "h \<noteq> ''''" using st vty_Data.hyps(1) by (auto simp: store_total_data_def store_checked_def)
  have "list_all (\<lambda>t. norec t \<and> data_ty st t) (instCtorFields (DData (length ts) cs) h ts i)"
    using data_ty_inst [OF vty_Data.hyps(1) ne vty_Data.prems(2) vty_Data.hyps(2)]
    by (auto simp: list_all_iff instCtorFields_def norec_resolved)
  moreover have "list_all2 (\<lambda>v t. vty st v t \<and> (norec t \<and> data_ty st t \<longrightarrow> v \<in> reds st Ss t)) vs
      (instCtorFields (DData (length ts) cs) h ts i)"
    using vty_Data.IH by (auto elim!: list_all2_mono)
  ultimately have "list_all2 (\<in>) vs (map (reds st Ss) (instCtorFields (DData (length ts) cs) h ts i))"
    by (rule list_all2_members [rotated])
  then show ?case
    unfolding reds_data [OF st vty_Data.hyps(1) ts] using vty_Data.hyps(2) by blast
qed simp_all

end
