(* ===== verification/Termination.thy ===== *)
theory Termination
  imports TypeOps
begin

text \<open>
  The structural termination checker, \<^verbatim>\<open>oath/termination.go\<close>. It walks a body with a stack,
  collects for every self-call how its arguments relate in size to the parameters, and looks
  for an order of the parameters in which every call descends lexicographically. Sites,
  relations and the search are those of the code; environments list variable 0 first. The
  ranking functions of \<^verbatim>\<open>ranking.go\<close>, which an external solver verifies, are the argument
  \<open>ranks\<close>, and the stored verdicts that \<^verbatim>\<open>GetMeta\<close> answers from are the argument \<open>meta\<close>.
\<close>

subsection \<open>Relations and call sites\<close>

datatype size_rel = Eq | Lt

type_synonym rel = "(nat \<times> size_rel) list option"
type_synonym callSite = "rel list"

record walker =
  sites :: "callSite list"
  bad :: bool

definition pushRel :: "rel list \<Rightarrow> rel \<Rightarrow> rel list" where
  "pushRel env r = r # env"

definition argRel :: "trm \<Rightarrow> rel list \<Rightarrow> rel" where
  "argRel t env = (case t of Var i \<Rightarrow> if i < length env then env ! i else None | _ \<Rightarrow> None)"

definition ltOf :: "rel \<Rightarrow> rel" where
  "ltOf r = map_option (map (\<lambda>(k, _). (k, Lt))) r"

subsection \<open>The walk\<close>

text \<open>The children of a term in the order \<^verbatim>\<open>A\<close>, \<^verbatim>\<open>B\<close>, \<^verbatim>\<open>C\<close>, \<^verbatim>\<open>Args\<close>, \<^verbatim>\<open>Arms\<close>.\<close>

fun kids :: "trm \<Rightarrow> trm list" where
  "kids (Lam p b) = [b]"
| "kids (App f a) = [f, a]"
| "kids (Let p a b) = [a, b]"
| "kids (If a b d) = [a, b, d]"
| "kids (Prim op as) = as"
| "kids (Ctor h i ts as) = as"
| "kids (Match h a arms) = a # arms"
| "kids (Record ns as) = as"
| "kids (Field a f) = [a]"
| "kids _ = []"

lemma kids_nodes: "sum_list (map trm_nodes (kids t)) < trm_nodes t"
  by (cases t) auto

definition arm_envs :: "rel list \<Rightarrow> rel \<Rightarrow> ty list list \<Rightarrow> rel list list" where
  "arm_envs env r cs = map (\<lambda>fs. foldl (\<lambda>e _. pushRel e r) env fs) cs"

text \<open>
  The loop over the stack. Children are pushed in reverse, so they are popped in the order of
  the source. \<^const>\<open>None\<close> is the panic of an arm without a constructor.
\<close>

type_synonym walkItem = "trm \<times> rel list \<times> rel list"

fun walk_push :: "store \<Rightarrow> walkItem \<Rightarrow> walker \<Rightarrow> (walkItem list \<times> walker) option" where
  "walk_push st (Self ts, env, sp) w = Some ([], w\<lparr>sites := sites w @ [sp]\<rparr>)"
| "walk_push st (App f a, env, sp) w = Some ([(f, env, argRel a env # sp), (a, env, [])], w)"
| "walk_push st (Lam p b, env, sp) w = Some ([(b, pushRel env None, [])], w)"
| "walk_push st (Let p a b, env, sp) w = Some ([(a, env, []), (b, pushRel env None, [])], w)"
| "walk_push st (Match h a arms, env, sp) w =
     (case GetDef st h of
        Inl _ \<Rightarrow> Some ([], w\<lparr>bad := True\<rparr>)
      | Inr d \<Rightarrow>
          if length (ctors_of d) < length arms then None
          else Some ((a, env, []) #
            map (\<lambda>(b, e). (b, e, [])) (zip arms (arm_envs env (ltOf (argRel a env)) (ctors_of d))), w))"
| "walk_push st (t, env, sp) w = Some (map (\<lambda>k. (k, env, [])) (kids t), w)"

definition stack_nodes :: "walkItem list \<Rightarrow> nat" where
  "stack_nodes S = sum_list (map (trm_nodes \<circ> fst) S)"

lemma stack_nodes_zip:
  "stack_nodes (map (\<lambda>(b, e). (b, e, [])) (zip arms es)) \<le> sum_list (map trm_nodes arms)"
  by (induction arms es rule: list_induct2') (auto simp: stack_nodes_def)

lemma stack_nodes_kids: "stack_nodes (map (\<lambda>k. (k, env, [])) ks) = sum_list (map trm_nodes ks)"
  by (simp add: stack_nodes_def o_def)

lemma stack_nodes_Cons: "stack_nodes (it # S) = trm_nodes (fst it) + stack_nodes S"
  by (simp add: stack_nodes_def)

lemma stack_nodes_append: "stack_nodes (S @ S') = stack_nodes S + stack_nodes S'"
  by (simp add: stack_nodes_def)

lemma stack_nodes_Nil: "stack_nodes [] = 0"
  by (simp add: stack_nodes_def)

lemmas stack_nodes_simps =
  stack_nodes_kids stack_nodes_Cons stack_nodes_append stack_nodes_Nil

lemma walk_push_nodes:
  "walk_push st it w = Some (its, w') \<Longrightarrow> stack_nodes its < trm_nodes (fst it)"
  by (induction st it w rule: walk_push.induct)
    (auto simp: stack_nodes_simps le_imp_less_Suc [OF stack_nodes_zip] split: sum.splits if_splits)

function (sequential) walk :: "store \<Rightarrow> walkItem list \<Rightarrow> walker \<Rightarrow> walker option" where
  "walk st [] w = Some w"
| "walk st (it # S) w =
     (case walk_push st it w of None \<Rightarrow> None | Some (its, w') \<Rightarrow> walk st (its @ S) w')"
  by pat_completeness auto
termination
  by (relation "measure (\<lambda>(st, S, w). stack_nodes S)") (auto dest: walk_push_nodes simp: stack_nodes_simps)

subsection \<open>References of a body\<close>

function (sequential) body_refs :: "trm list \<Rightarrow> hash list \<Rightarrow> hash list" where
  "body_refs [] out = out"
| "body_refs (t # S) out =
     body_refs (rev (kids t) @ S) (case t of Ref h ts \<Rightarrow> List.insert h out | _ \<Rightarrow> out)"
  by pat_completeness auto
termination
  by (relation "measure (\<lambda>(S, out). sum_list (map trm_nodes S))")
    (auto simp: kids_nodes rev_map [symmetric])

definition bodyFuncRefs :: "trm \<Rightarrow> hash list" where
  "bodyFuncRefs t = body_refs [t] []"

subsection \<open>Lexicographic descent\<close>

definition relAt :: "callSite \<Rightarrow> nat \<Rightarrow> size_rel option" where
  "relAt cs j =
     (if length cs \<le> j then None else case cs ! j of None \<Rightarrow> None | Some r \<Rightarrow> map_of r j)"

definition heads :: "callSite list \<Rightarrow> nat \<Rightarrow> bool" where
  "heads ss j \<longleftrightarrow> list_all (\<lambda>s. relAt s j \<noteq> None) ss \<and> list_ex (\<lambda>s. relAt s j = Some Lt) ss"

text \<open>
  The search, with backtracking: \<open>tried\<close> are the positions the loop has passed, the others
  are still to be tried as the head of the order.
\<close>

function (sequential) lexFrom :: "callSite list \<Rightarrow> nat list \<Rightarrow> nat list \<Rightarrow> bool" where
  "lexFrom ss tried todo =
     (ss = [] \<or>
      (case todo of
         [] \<Rightarrow> False
       | j # js \<Rightarrow>
           heads ss j \<and> lexFrom (filter (\<lambda>s. relAt s j = Some Eq) ss) [] (tried @ js) \<or>
           lexFrom ss (tried @ [j]) js))"
  by pat_completeness auto
termination
  by (relation "measures [\<lambda>(ss, b, a). length b + length a, \<lambda>(ss, b, a). length a]") auto

declare lexFrom.simps [simp del]

definition lexDescends :: "callSite list \<Rightarrow> nat list \<Rightarrow> bool" where
  "lexDescends ss positions = lexFrom ss [] positions"

subsection \<open>Verdicts\<close>

definition isTotal :: "string \<Rightarrow> bool" where
  "isTotal v \<longleftrightarrow> v = ''structural'' \<or> v = ''nonrecursive'' \<or> v = ''measure''"

fun peel_lams :: "trm \<Rightarrow> nat \<times> trm" where
  "peel_lams (Lam p b) = (case peel_lams b of (n, t) \<Rightarrow> (Suc n, t))"
| "peel_lams t = (0, t)"

definition param_rels :: "nat \<Rightarrow> rel list" where
  "param_rels n = foldl (\<lambda>e i. pushRel e (Some [(i, Eq)])) [] [0..<n]"

definition terminationOf ::
    "(hash \<Rightarrow> string option) \<Rightarrow> (def \<Rightarrow> hash \<Rightarrow> bool) \<Rightarrow> store \<Rightarrow> def \<Rightarrow> hash \<Rightarrow> string option" where
  "terminationOf meta ranks st d h =
     (case d of
        DData n cs \<Rightarrow> Some ''''
      | DFunc n t b ps \<Rightarrow>
          if list_ex (\<lambda>g. case meta g of None \<Rightarrow> True | Some v \<Rightarrow> \<not> isTotal v) (bodyFuncRefs b)
          then Some ''unknown''
          else case peel_lams b of (np, cur) \<Rightarrow>
            (case walk st [(cur, param_rels np, [])] \<lparr>sites = [], bad = False\<rparr> of
               None \<Rightarrow> None
             | Some w \<Rightarrow>
                 Some (if bad w then ''unknown''
                       else if sites w = [] then ''nonrecursive''
                       else if lexDescends (sites w) [0..<np] then ''structural''
                       else if ranks d h then ''measure''
                       else ''unknown'')))"

end
