(* ===== verification/Descent.thy ===== *)
theory Descent
  imports Termination
begin

text \<open>
  What the walk and the search of the termination checker compute: the walk collects the
  sites of a recursive specification, and the search finds an order of the parameters exactly
  when there is one along which every site descends.
\<close>

subsection \<open>The sites of a term\<close>

function (sequential) tsites :: "store \<Rightarrow> rel list \<Rightarrow> rel list \<Rightarrow> trm \<Rightarrow> callSite list" where
  "tsites st env sp (Self ts) = [sp]"
| "tsites st env sp (App f a) = tsites st env (argRel a env # sp) f @ tsites st env [] a"
| "tsites st env sp (Lam p b) = tsites st (pushRel env None) [] b"
| "tsites st env sp (Let p a b) = tsites st env [] a @ tsites st (pushRel env None) [] b"
| "tsites st env sp (Match h a arms) =
     (case GetDef st h of
        Inl _ \<Rightarrow> []
      | Inr d \<Rightarrow> tsites st env [] a @
          concat (map (\<lambda>(b, e). tsites st e [] b)
            (zip arms (arm_envs env (ltOf (argRel a env)) (ctors_of d)))))"
| "tsites st env sp t = concat (map (tsites st env []) (kids t))"
  by pat_completeness auto
termination
  by (relation "measure (\<lambda>(st, env, sp, t). size t)")
    (auto dest!: set_zip_leftD simp: less_Suc_eq_le intro: size_list_estimation' le_less_trans
      trans_le_add1 trans_le_add2)

definition item_sites :: "store \<Rightarrow> walkItem \<Rightarrow> callSite list" where
  "item_sites st it = (case it of (t, env, sp) \<Rightarrow> tsites st env sp t)"

lemma walk_push_bad: "walk_push st it w = Some (its, w') \<Longrightarrow> bad w \<Longrightarrow> bad w'"
  by (induction st it w rule: walk_push.induct) (auto split: sum.splits if_splits)

lemma walk_bad: "walk st S w = Some w' \<Longrightarrow> bad w \<Longrightarrow> bad w'"
  by (induction st S w rule: walk.induct) (auto split: option.splits dest: walk_push_bad)

lemma walk_push_sites:
  "walk_push st it w = Some (its, w') \<Longrightarrow> \<not> bad w' \<Longrightarrow>
   sites w' @ concat (map (item_sites st) its) = sites w @ item_sites st it"
  by (induction st it w rule: walk_push.induct)
    (auto simp: item_sites_def o_def case_prod_unfold split: sum.splits if_splits)

lemma walk_sites:
  "walk st S w = Some w' \<Longrightarrow> \<not> bad w' \<Longrightarrow> sites w' = sites w @ concat (map (item_sites st) S)"
proof (induction st S w rule: walk.induct)
  case (2 st it S w)
  obtain its w1 where p: "walk_push st it w = Some (its, w1)"
    using 2 by (auto split: option.splits)
  then have w: "walk st (its @ S) w1 = Some w'" using 2 by simp
  have "\<not> bad w1" using walk_bad [OF w] 2 by blast
  then show ?case
    using "2.IH" [OF p refl w] "2.prems"(2) walk_push_sites [OF p] by simp
qed simp

text \<open>A walk that does not end badly has found the data type of every match.\<close>

fun matches_known :: "store \<Rightarrow> trm \<Rightarrow> bool" where
  "matches_known st (Match h a arms) \<longleftrightarrow>
     (\<exists>d. GetDef st h = Inr d) \<and> matches_known st a \<and> list_all (matches_known st) arms"
| "matches_known st (Lam p b) \<longleftrightarrow> matches_known st b"
| "matches_known st (App f a) \<longleftrightarrow> matches_known st f \<and> matches_known st a"
| "matches_known st (Let p a b) \<longleftrightarrow> matches_known st a \<and> matches_known st b"
| "matches_known st (If a b d) \<longleftrightarrow> matches_known st a \<and> matches_known st b \<and> matches_known st d"
| "matches_known st (Prim op as) \<longleftrightarrow> list_all (matches_known st) as"
| "matches_known st (Ctor h i ts as) \<longleftrightarrow> list_all (matches_known st) as"
| "matches_known st (Record ns as) \<longleftrightarrow> list_all (matches_known st) as"
| "matches_known st (Field a f) \<longleftrightarrow> matches_known st a"
| "matches_known st _ \<longleftrightarrow> True"

lemma zip_fst: "length xs \<le> length ys \<Longrightarrow> x \<in> set xs \<Longrightarrow> \<exists>y. (x, y) \<in> set (zip xs ys)"
  by (induction xs ys rule: list_induct2') auto

lemma walk_push_known:
  "walk_push st it w = Some (its, w') \<Longrightarrow> \<not> bad w' \<Longrightarrow> \<forall>i \<in> set its. matches_known st (fst i) \<Longrightarrow>
   matches_known st (fst it)"
proof (induction st it w rule: walk_push.induct)
  case (5 st h a arms env sp w)
  then obtain d where d: "GetDef st h = Inr d" "length arms \<le> length (ctors_of d)"
    and its: "its = (a, env, []) #
        map (\<lambda>(b, e). (b, e, [])) (zip arms (arm_envs env (ltOf (argRel a env)) (ctors_of d)))"
    by (auto split: sum.splits if_splits)
  have "matches_known st b" if b: "b \<in> set arms" for b
  proof -
    obtain e where "(b, e) \<in> set (zip arms (arm_envs env (ltOf (argRel a env)) (ctors_of d)))"
      using zip_fst [OF _ b] d(2) by (metis arm_envs_def length_map)
    then show ?thesis using "5.prems"(3) by (auto simp: its)
  qed
  then show ?case using d "5.prems"(3) by (simp add: its list_all_iff)
qed (auto simp: list_all_iff)

lemma walk_known:
  "walk st S w = Some w' \<Longrightarrow> \<not> bad w' \<Longrightarrow> \<forall>i \<in> set S. matches_known st (fst i)"
proof (induction st S w rule: walk.induct)
  case (2 st it S w)
  obtain its w1 where p: "walk_push st it w = Some (its, w1)"
    using 2 by (auto split: option.splits)
  then have w: "walk st (its @ S) w1 = Some w'" using 2 by simp
  have "\<not> bad w1" using walk_bad [OF w] 2 by blast
  then show ?case
    using "2.IH" [OF p refl w] "2.prems"(2) walk_push_known [OF p] by auto
qed simp

subsection \<open>The references of a term\<close>

fun refs_of :: "trm \<Rightarrow> hash set" where
  "refs_of (Ref h ts) = {h}"
| "refs_of (Lam p b) = refs_of b"
| "refs_of (App f a) = refs_of f \<union> refs_of a"
| "refs_of (Let p a b) = refs_of a \<union> refs_of b"
| "refs_of (If a b d) = refs_of a \<union> refs_of b \<union> refs_of d"
| "refs_of (Prim op as) = (\<Union>a \<in> set as. refs_of a)"
| "refs_of (Ctor h i ts as) = (\<Union>a \<in> set as. refs_of a)"
| "refs_of (Match h a arms) = refs_of a \<union> (\<Union>a \<in> set arms. refs_of a)"
| "refs_of (Record ns as) = (\<Union>a \<in> set as. refs_of a)"
| "refs_of (Field a f) = refs_of a"
| "refs_of _ = {}"

lemma body_refs_eq: "set (body_refs S out) = set out \<union> (\<Union>t \<in> set S. refs_of t)"
proof (induction S out rule: body_refs.induct)
  case (2 t S out)
  have e: "set (case t of Ref h ts \<Rightarrow> List.insert h out | _ \<Rightarrow> out) \<union> (\<Union>k \<in> set (kids t). refs_of k) =
      set out \<union> refs_of t"
    by (cases t) auto
  show ?case
    unfolding body_refs.simps(2) 2 set_append set_rev list.set UN_Un UN_insert Un_assoc [symmetric] e ..
qed simp

lemma bodyFuncRefs_eq: "set (bodyFuncRefs t) = refs_of t"
  unfolding bodyFuncRefs_def body_refs_eq by simp

lemma refs_of_deps: "refs_of t - {''''} \<subseteq> set (trm_deps t)"
  by (induction t) (auto simp: hash_dep_def)

subsection \<open>Lexicographic descent\<close>

text \<open>A call site descends along an order of positions.\<close>

fun descends :: "nat list \<Rightarrow> callSite \<Rightarrow> bool" where
  "descends [] s = False"
| "descends (j # js) s =
     (case relAt s j of None \<Rightarrow> False | Some Lt \<Rightarrow> True | Some Eq \<Rightarrow> descends js s)"

lemma lexFrom_Nil: "lexFrom [] tried todo"
  by (subst lexFrom.simps) simp

lemma lexFrom_stuck: "ss \<noteq> [] \<Longrightarrow> \<not> lexFrom ss tried []"
  by (subst lexFrom.simps) simp

lemma lexFrom_Cons:
  "ss \<noteq> [] \<Longrightarrow> lexFrom ss tried (j # js) \<longleftrightarrow>
     heads ss j \<and> lexFrom (filter (\<lambda>s. relAt s j = Some Eq) ss) [] (tried @ js) \<or>
     lexFrom ss (tried @ [j]) js"
  by (subst lexFrom.simps) simp

lemma lexFrom_sound:
  "lexFrom ss tried todo \<Longrightarrow>
   \<exists>ord. set ord \<subseteq> set tried \<union> set todo \<and> (\<forall>s \<in> set ss. descends ord s)"
proof (induction ss tried todo rule: lexFrom.induct)
  case (1 ss tried todo)
  show ?case
  proof (cases "ss = []")
    case False
    then obtain j js where todo: "todo = j # js"
      using "1.prems" lexFrom_stuck by (cases todo) auto
    show ?thesis
    proof (cases "lexFrom ss (tried @ [j]) js")
      case True
      then show ?thesis using "1.IH"(2) [OF todo] todo by auto
    next
      case nl: False
      then have h: "heads ss j" "lexFrom (filter (\<lambda>s. relAt s j = Some Eq) ss) [] (tried @ js)"
        using "1.prems" nl unfolding todo lexFrom_Cons [OF False] by simp_all
      then obtain ord where ord: "set ord \<subseteq> set tried \<union> set js"
        "\<forall>s \<in> set ss. relAt s j = Some Eq \<longrightarrow> descends ord s"
        using "1.IH"(1) [OF todo] by auto
      have "descends (j # ord) s" if "s \<in> set ss" for s
      proof -
        have "relAt s j \<noteq> None" using that h(1) by (simp add: heads_def list_all_iff)
        then consider "relAt s j = Some Lt" | "relAt s j = Some Eq"
          by (metis not_None_eq size_rel.exhaust)
        then show ?thesis using that ord(2) by cases simp_all
      qed
      with ord(1) todo show ?thesis by (intro exI [of _ "j # ord"]) auto
    qed
  qed (auto intro: exI [of _ "[]"])
qed

lemma lexFrom_try:
  "heads ss j \<Longrightarrow> lexFrom (filter (\<lambda>s. relAt s j = Some Eq) ss) [] (tried @ pre @ js) \<Longrightarrow>
   lexFrom ss tried (pre @ j # js)"
proof (induction pre arbitrary: tried)
  case Nil
  then show ?case by (subst lexFrom.simps) simp
next
  case (Cons i pre)
  then have "lexFrom ss (tried @ [i]) (pre @ j # js)" by (intro Cons.IH) simp_all
  then show ?case by (subst lexFrom.simps) simp
qed

lemma descends_skip:
  "relAt s j = Some Eq \<Longrightarrow> descends (removeAll j ord) s \<longleftrightarrow> descends ord s"
  by (induction ord) (auto split: option.splits size_rel.splits)

lemma lexFrom_complete:
  "\<forall>s \<in> set ss. descends ord s \<Longrightarrow> set ord \<subseteq> set ps \<Longrightarrow> lexFrom ss [] ps"
proof (induction ord arbitrary: ss ps rule: length_induct)
  case (1 ord)
  show ?case
  proof (cases "ss = []")
    case False
    then obtain j js where ord: "ord = j # js" using 1 by (cases ord) (auto simp: neq_Nil_conv)
    have some: "relAt s j \<noteq> None" if "s \<in> set ss" for s using 1 that by (auto simp: ord split: option.splits)
    have eq: "descends js s" if "s \<in> set ss" "relAt s j = Some Eq" for s
      using 1 that by (auto simp: ord)
    show ?thesis
    proof (cases "\<exists>s \<in> set ss. relAt s j = Some Lt")
      case True
      then have h: "heads ss j" using some by (auto simp: heads_def list_all_iff list_ex_iff)
      obtain pre post where ps: "ps = pre @ j # post"
        using 1 ord by (metis in_set_conv_decomp list.set_intros(1) subsetD)
      have "lexFrom (filter (\<lambda>s. relAt s j = Some Eq) ss) [] (pre @ post)"
      proof (rule "1.IH" [rule_format, of "removeAll j js"])
        show "length (removeAll j js) < length ord" by (simp add: ord less_Suc_eq_le)
        show "descends (removeAll j js) s" if "s \<in> set (filter (\<lambda>s. relAt s j = Some Eq) ss)" for s
          using eq descends_skip that by auto
        show "set (removeAll j js) \<subseteq> set (pre @ post)" using 1 ord ps by auto
      qed
      with h show ?thesis unfolding ps by (intro lexFrom_try) simp_all
    next
      case False
      then have "\<forall>s \<in> set ss. descends js s"
        using some eq by (metis (full_types) not_None_eq size_rel.exhaust)
      moreover have "set js \<subseteq> set ps" "length js < length ord" using "1.prems"(2) by (simp_all add: ord)
      ultimately show ?thesis using "1.IH" by blast
    qed
  qed (simp add: lexFrom_Nil)
qed

lemma lexDescends_iff:
  "lexDescends ss ps \<longleftrightarrow> (\<exists>ord. set ord \<subseteq> set ps \<and> (\<forall>s \<in> set ss. descends ord s))"
  unfolding lexDescends_def using lexFrom_sound [of ss "[]" ps] lexFrom_complete [of ss _ ps] by auto

end
