(* ===== verification/Totality.thy ===== *)
theory Totality
  imports Reducible Descent
begin

text \<open>
  What a verdict of the structural termination checker is worth: in a store whose data types
  are covariant in themselves, a definition with the verdict \<^verbatim>\<open>structural\<close> or
  \<^verbatim>\<open>nonrecursive\<close> returns on all reducible arguments.
\<close>

subsection \<open>Arguments and parameters\<close>

text \<open>A value is related to the parameters of the current call as the walk claims.\<close>

definition rel_ok :: "val list \<Rightarrow> rel \<Rightarrow> val \<Rightarrow> bool" where
  "rel_ok cur r v \<longleftrightarrow>
     (case r of None \<Rightarrow> True | Some rs \<Rightarrow> \<forall>(k, q) \<in> set rs. k < length cur \<and>
        (case q of Eq \<Rightarrow> v = cur ! k | Lt \<Rightarrow> size v < size (cur ! k)))"

definition rels_ok :: "val list \<Rightarrow> rel list \<Rightarrow> val list \<Rightarrow> bool" where
  "rels_ok cur renv env \<longleftrightarrow> list_all2 (rel_ok cur) renv env"

lemma rel_ok_None [simp]: "rel_ok cur None v"
  by (simp add: rel_ok_def)

lemma rels_ok_push: "rels_ok cur renv env \<Longrightarrow> rel_ok cur r v \<Longrightarrow> rels_ok cur (pushRel renv r) (pushEnv env v)"
  by (simp add: rels_ok_def pushRel_def pushEnv_def)

lemma size_field: "v \<in> set vs \<Longrightarrow> size v < size (VData h i vs)"
  by (induction vs) auto

lemma rel_ok_field: "rel_ok cur r (VData h i vs) \<Longrightarrow> v \<in> set vs \<Longrightarrow> rel_ok cur (ltOf r) v"
proof (cases r)
  case (Some rs)
  assume r: "rel_ok cur r (VData h i vs)" and v: "v \<in> set vs"
  have "k < length cur \<and> size v < size (cur ! k)" if "(k, q) \<in> set rs" for k q
  proof -
    have "k < length cur \<and> (case q of Eq \<Rightarrow> VData h i vs = cur ! k | Lt \<Rightarrow> size (VData h i vs) < size (cur ! k))"
      using r Some that unfolding rel_ok_def by fastforce
    then show ?thesis
      using size_field [OF v, of h i] by (cases q) (auto simp del: val.size simp: less_trans)
  qed
  then show ?thesis using Some by (auto simp: rel_ok_def ltOf_def)
qed (simp add: ltOf_def)

lemma rels_ok_arm:
  "rels_ok cur renv env \<Longrightarrow> \<forall>v \<in> set vs. rel_ok cur r v \<Longrightarrow> length fs = length vs \<Longrightarrow>
   rels_ok cur (foldl (\<lambda>e _. pushRel e r) renv fs) (foldl pushEnv env vs)"
proof (induction fs arbitrary: renv env vs)
  case (Cons f fs)
  then obtain v ws where "vs = v # ws" by (cases vs) auto
  with Cons show ?case by (auto intro!: Cons.IH rels_ok_push)
qed simp

lemma rels_ok_params: "rels_ok cur (param_rels (length cur)) (rev cur)"
proof -
  have "param_rels n = rev (map (\<lambda>i. Some [(i, Eq)]) [0..<n])" for n
    by (induction n) (simp_all add: param_rels_def pushRel_def)
  then show ?thesis
    by (auto simp: rels_ok_def rel_ok_def list_all2_conv_all_nth rev_nth)
qed

text \<open>Tuples are compared by the sizes of their components along an order of positions.\<close>

definition sizes :: "nat list \<Rightarrow> val list \<Rightarrow> nat list" where
  "sizes ord vs = map (\<lambda>j. size (vs ! j)) ord"

definition smaller :: "nat list \<Rightarrow> (val list \<times> val list) set" where
  "smaller ord = inv_image (lex less_than) (sizes ord)"

lemma wf_smaller: "wf (smaller ord)"
  by (simp add: smaller_def wf_lex)

lemma descends_smaller:
  assumes "list_all2 (rel_ok cur) as vs"
  shows "descends ord (as @ sp) \<Longrightarrow> \<forall>j \<in> set ord. j < length as \<or> sp = [] \<Longrightarrow>
    (vs @ ws, cur) \<in> smaller ord"
proof (induction ord)
  case (Cons j js)
  have lt: "j < length as"
  proof (rule ccontr)
    assume "\<not> j < length as"
    then have "sp = []" "relAt (as @ sp) j = None" using Cons.prems(2) by (auto simp: relAt_def)
    with Cons.prems(1) show False by simp
  qed
  then obtain rs where rs: "as ! j = Some rs" "map_of rs j = relAt (as @ sp) j"
    using Cons.prems(1) by (auto simp: relAt_def nth_append split: option.splits)
  have ok: "rel_ok cur (as ! j) (vs ! j)" using assms lt by (simp add: list_all2_nthD)
  have vj: "(vs @ ws) ! j = vs ! j" using lt list_all2_lengthD [OF assms] by (simp add: nth_append)
  show ?case
  proof (cases "relAt (as @ sp) j")
    case None
    then show ?thesis using Cons.prems(1) by simp
  next
    case (Some q)
    then have q: "(j, q) \<in> set rs" using rs(2) by (auto dest: map_of_SomeD)
    show ?thesis
    proof (cases q)
      case Eq
      then have "vs ! j = cur ! j" using q ok rs(1) by (fastforce simp: rel_ok_def)
      moreover have "(vs @ ws, cur) \<in> smaller js"
        using Cons Some Eq by simp
      ultimately show ?thesis by (simp add: smaller_def sizes_def vj)
    next
      case Lt
      then have "size (vs ! j) < size (cur ! j)" using q ok rs(1) by (fastforce simp: rel_ok_def)
      then show ?thesis by (simp add: smaller_def sizes_def vj)
    qed
  qed
qed simp

subsection \<open>Bodies of functions\<close>

text \<open>The type of a body with \<open>length ps\<close> abstractions, and what is left below some of them.\<close>

abbreviation funs :: "ty list \<Rightarrow> ty \<Rightarrow> ty" where
  "funs ps r \<equiv> foldr TFun ps r"

fun below :: "nat \<Rightarrow> trm \<Rightarrow> trm" where
  "below 0 b = b"
| "below (Suc k) (Lam p b) = below k b"
| "below (Suc k) b = b"

lemma peel_lams_below:
  "peel_lams b = (n, c) \<Longrightarrow> below n b = c \<and> (\<forall>k < n. \<exists>p. below k b = Lam p (below (Suc k) b))"
proof (induction b arbitrary: n rule: peel_lams.induct)
  case (1 p b)
  then obtain m where m: "peel_lams b = (m, c)" "n = Suc m" by (auto split: prod.splits)
  have "\<exists>q. below k (Lam p b) = Lam q (below (Suc k) (Lam p b))" if "k < n" for k
    using "1.IH" [OF m(1)] that m(2) by (cases k) auto
  with "1.IH" [OF m(1)] m(2) show ?case by simp
qed simp_all

lemma typed_funs:
  "typed E c b t \<Longrightarrow> peel_lams b = (n, b0) \<Longrightarrow> list_all (wfT E) c \<Longrightarrow>
   \<exists>ps r. t = funs ps r \<and> length ps = n \<and> typed E (rev ps @ c) b0 r \<and> list_all (wfT E) (rev ps @ c)"
proof (induction b arbitrary: c t n rule: peel_lams.induct)
  case (1 p b)
  then obtain m where m: "peel_lams b = (m, b0)" "n = Suc m" by (auto split: prod.splits)
  obtain q where q: "t = TFun p q" "wfT E p" "typed E (p # c) b q"
    using "1.prems"(1) by (auto elim: typed_LamE simp: pushCtx_def)
  then obtain ps r where "q = funs ps r" "length ps = m" "typed E (rev ps @ p # c) b0 r"
    "list_all (wfT E) (rev ps @ p # c)"
    using "1.IH" [OF q(3) m(1)] "1.prems"(3) by auto
  then show ?case using q(1) m(2) by (intro exI [of _ "p # ps"] exI [of _ r]) simp
qed auto


text \<open>The body below all abstractions returns on a tuple of arguments, at every instance.\<close>

definition body_returns :: "store \<Rightarrow> hash \<Rightarrow> trm \<Rightarrow> nat \<Rightarrow> ty list \<Rightarrow> ty \<Rightarrow> val list \<Rightarrow> bool" where
  "body_returns st h b0 n ps r vs \<longleftrightarrow>
     (\<forall>Ss. length Ss = n \<longrightarrow> list_all2 (\<in>) vs (map (reds st Ss) ps) \<longrightarrow>
        returns (\<lambda>d. eval d st (rev vs) h b0) (\<lambda>v. v \<in> reds st Ss r))"

text \<open>The closure that applying a function to too few arguments leaves.\<close>

definition clos :: "trm \<Rightarrow> hash \<Rightarrow> val list \<Rightarrow> val" where
  "clos b h vs =
     VClos (rev vs) (case below (length vs) b of Lam p c \<Rightarrow> p | _ \<Rightarrow> TInt) (below (Suc (length vs)) b) h"

lemma eval_below:
  assumes "peel_lams b = (n, b0)" "length vs < n"
  shows "returns (\<lambda>d. eval d st (rev vs) h (below (length vs) b)) (\<lambda>w. w = clos b h vs)"
proof -
  obtain p where p: "below (length vs) b = Lam p (below (Suc (length vs)) b)"
    using peel_lams_below [OF assms(1)] assms(2) by blast
  then have "clos b h vs = VClos (rev vs) p (below (Suc (length vs)) b) h" by (simp add: clos_def)
  then show ?thesis
    unfolding p by (intro returns_eval) (auto intro: returns_from)
qed

lemma apply_clos:
  "returns (\<lambda>d. eval d st (rev (vs @ [v])) h (below (Suc (length vs)) b)) P \<Longrightarrow>
   returns (\<lambda>d. apply_val (eval d st) (clos b h vs) v) P"
  by (rule returns_apply) (simp add: apply_body_def clos_def pushEnv_def)

lemma members_snoc:
  "list_all2 (\<in>) vs (map f (take (length vs) ps)) \<Longrightarrow> length vs < length ps \<Longrightarrow> v \<in> f (ps ! length vs) \<Longrightarrow>
   list_all2 (\<in>) (vs @ [v]) (map f (take (Suc (length vs)) ps))"
  by (simp add: take_Suc_conv_app_nth list_all2_appendI)

lemma clos_reducible:
  assumes b: "peel_lams b = (length ps, b0)" and Ss: "length Ss = n"
  shows "length vs < length ps \<Longrightarrow> list_all2 (\<in>) vs (map (reds st Ss) (take (length vs) ps)) \<Longrightarrow>
    (\<And>ws. length (vs @ ws) = length ps \<Longrightarrow> body_returns st h b0 n ps r (vs @ ws)) \<Longrightarrow>
    clos b h vs \<in> reds st Ss (funs (drop (length vs) ps) r)"
proof (induction "length ps - length vs" arbitrary: vs rule: less_induct)
  case less
  let ?k = "length vs"
  have "applies st (clos b h vs) v (reds st Ss (funs (drop (Suc ?k) ps) r))" if v: "v \<in> reds st Ss (ps ! ?k)" for v
  proof -
    have m: "list_all2 (\<in>) (vs @ [v]) (map (reds st Ss) (take (Suc ?k) ps))"
      by (rule members_snoc [OF less.prems(2,1) v])
    show ?thesis
    proof (cases "Suc ?k < length ps")
      case True
      have ext: "body_returns st h b0 n ps r ((vs @ [v]) @ ws)" if "length ((vs @ [v]) @ ws) = length ps" for ws
        using less.prems(3) [of "v # ws"] that by simp
      have "clos b h (vs @ [v]) \<in> reds st Ss (funs (drop (Suc ?k) ps) r)"
        using less.hyps [of "vs @ [v]"] ext m True by simp
      with eval_below [OF b, of "vs @ [v]" st h] True show ?thesis
        unfolding applies_def by (intro apply_clos) (auto elim: returns_mono)
    next
      case False
      then have all: "Suc ?k = length ps" using less.prems(1) by simp
      then have "returns (\<lambda>d. eval d st (rev (vs @ [v])) h b0) (\<lambda>w. w \<in> reds st Ss r)"
        using less.prems(3) [of "[v]"] m Ss by (simp add: body_returns_def)
      then show ?thesis
        using peel_lams_below [OF b] all unfolding applies_def by (intro apply_clos) simp
    qed
  qed
  then show ?case
    using less.prems(1) by (simp add: Cons_nth_drop_Suc [symmetric])
qed

subsection \<open>Self-calls\<close>

text \<open>A chain of applications with the function itself at its head.\<close>

fun self_args :: "trm \<Rightarrow> (ty list \<times> trm list) option" where
  "self_args (Self ts) = Some (ts, [])"
| "self_args (App f a) = (case self_args f of None \<Rightarrow> None | Some (ts, as) \<Rightarrow> Some (ts, as @ [a]))"
| "self_args _ = None"

lemma tsites_self:
  "self_args t = Some (ts, as) \<Longrightarrow>
   tsites st renv sp t = (map (\<lambda>a. argRel a renv) as @ sp) # concat (map (tsites st renv []) as)"
  by (induction t arbitrary: as sp rule: self_args.induct) (auto split: option.splits)

lemma tsites_head: "self_args t = None \<Longrightarrow> tsites st renv sp t = tsites st renv [] t"
proof (induction t arbitrary: sp rule: self_args.induct)
  case (2 f a)
  then have n: "self_args f = None" by (auto split: option.splits)
  show ?case
    using "2.IH" [OF n, of "argRel a renv # sp"] "2.IH" [OF n, of "[argRel a renv]"] by simp
qed auto

lemma self_args_size: "self_args t = Some (ts, as) \<Longrightarrow> a \<in> set as \<Longrightarrow> size a < size t"
  by (induction t arbitrary: as rule: self_args.induct) (fastforce split: option.splits)+

text \<open>
  What the fundamental lemma says of a term: in reducible environments that are related to the
  parameters as the walk claims, and if all its self-calls descend, it returns a reducible value.
\<close>

definition fl_ok :: "store \<Rightarrow> env \<Rightarrow> hash \<Rightarrow> val set list \<Rightarrow> val list \<Rightarrow> nat list \<Rightarrow> trm \<Rightarrow> bool" where
  "fl_ok st E h Ss cur ord t \<longleftrightarrow>
     (\<forall>c u env renv. typed E c t u \<longrightarrow> ctx_wf E c \<longrightarrow> list_all2 (\<in>) env (map (reds st Ss) c) \<longrightarrow>
        rels_ok cur renv env \<longrightarrow> (\<forall>s \<in> set (tsites st renv [] t). descends ord s) \<longrightarrow>
        returns (\<lambda>d. eval d st env h t) (\<lambda>v. v \<in> reds st Ss u \<and> rel_ok cur (argRel t renv) v))"

lemma fl_okD:
  "fl_ok st E h Ss cur ord t \<Longrightarrow> typed E c t u \<Longrightarrow> ctx_wf E c \<Longrightarrow>
   list_all2 (\<in>) env (map (reds st Ss) c) \<Longrightarrow> rels_ok cur renv env \<Longrightarrow>
   (\<And>s. s \<in> set (tsites st renv [] t) \<Longrightarrow> descends ord s) \<Longrightarrow>
   returns (\<lambda>d. eval d st env h t) (\<lambda>v. v \<in> reds st Ss u \<and> rel_ok cur (argRel t renv) v)"
  unfolding fl_ok_def by blast

text \<open>The definition whose body is evaluated, with the calls that are known to return.\<close>

definition self_ok :: "store \<Rightarrow> env \<Rightarrow> hash \<Rightarrow> trm \<Rightarrow> trm \<Rightarrow> ty list \<Rightarrow> ty \<Rightarrow> val list \<Rightarrow> nat list \<Rightarrow> bool" where
  "self_ok st E h b b0 ps r cur ord \<longleftrightarrow>
     est E = st \<and> h \<noteq> '''' \<and> (\<exists>qs. map_of (sdefs st) h = Some (DFunc (etv E) (funs ps r) b qs)) \<and>
     eself E = Some (funs ps r) \<and> ty_wf st (etv E) False (funs ps r) \<and>
     peel_lams b = (length ps, b0) \<and> set ord \<subseteq> {..<length ps} \<and>
     (\<forall>vs. length vs = length ps \<longrightarrow> (vs, cur) \<in> smaller ord \<longrightarrow> body_returns st h b0 (etv E) ps r vs)"

lemma wf_funs: "ty_wf st n ar (funs ps r) \<longleftrightarrow> list_all (ty_wf st n ar) ps \<and> ty_wf st n ar r"
  by (induction ps) auto

definition chain_value ::
    "store \<Rightarrow> hash \<Rightarrow> trm \<Rightarrow> ty list \<Rightarrow> val list \<Rightarrow> val set list \<Rightarrow> val set list \<Rightarrow> rel list \<Rightarrow> ty \<Rightarrow> val \<Rightarrow> bool" where
  "chain_value st h b ps cur Ss Ts rs u w \<longleftrightarrow>
     (if length rs < length ps
      then \<exists>vs. w = clos b h vs \<and> length vs = length rs \<and>
        list_all2 (\<in>) vs (map (reds st Ts) (take (length rs) ps)) \<and> list_all2 (rel_ok cur) rs vs
      else w \<in> reds st Ss u)"


lemma chain_step:
  assumes ok: "self_ok st E h b b0 ps r cur ord" and Ss: "length Ts = etv E"
    and uf: "length ps \<le> length rs \<Longrightarrow> g \<in> reds st Ss (TFun p u)"
    and p: "length rs < length ps \<Longrightarrow> reds st Ts (ps ! length rs) = reds st Ss p"
    and g: "chain_value st h b ps cur Ss Ts rs t g"
    and v: "v \<in> reds st Ss p" "rel_ok cur x v"
    and last: "Suc (length rs) = length ps \<Longrightarrow> reds st Ts r = reds st Ss u"
    and desc: "descends ord ((rs @ [x]) @ sp)"
  shows "returns (\<lambda>d. apply_val (eval d st) g v) (chain_value st h b ps cur Ss Ts (rs @ [x]) u)"
proof (cases "length rs < length ps")
  case True
  have b: "peel_lams b = (length ps, b0)" using ok by (simp add: self_ok_def)
  obtain vs where g: "g = clos b h vs" and len: "length vs = length rs"
    and vs: "list_all2 (\<in>) vs (map (reds st Ts) (take (length rs) ps))" "list_all2 (rel_ok cur) rs vs"
    using g True by (auto simp: chain_value_def)
  have m: "list_all2 (\<in>) (vs @ [v]) (map (reds st Ts) (take (Suc (length rs)) ps))"
    using members_snoc [of vs "reds st Ts" ps v] vs(1) len True v(1) p by simp
  have rel: "list_all2 (rel_ok cur) (rs @ [x]) (vs @ [v])" using vs(2) v(2) by (simp add: list_all2_appendI)
  show ?thesis
  proof (cases "Suc (length rs) < length ps")
    case True
    have "returns (\<lambda>d. eval d st (rev (vs @ [v])) h (below (Suc (length vs)) b)) (\<lambda>w. w = clos b h (vs @ [v]))"
      using eval_below [OF b, of "vs @ [v]" st h] True len by simp
    then show ?thesis
      unfolding g using True len m rel
      by (intro apply_clos) (auto elim!: returns_mono simp: chain_value_def intro!: exI [of _ "vs @ [v]"])
  next
    case False
    then have all: "Suc (length rs) = length ps" using True by simp
    have "\<forall>j \<in> set ord. j < length (rs @ [x]) \<or> sp = []" using ok all by (auto simp: self_ok_def)
    then have "(vs @ [v], cur) \<in> smaller ord" using descends_smaller [OF rel desc, of "[]"] by simp
    then have "body_returns st h b0 (etv E) ps r (vs @ [v])"
      using ok all len by (simp add: self_ok_def)
    then have "returns (\<lambda>d. eval d st (rev (vs @ [v])) h b0) (\<lambda>w. w \<in> reds st Ts r)"
      using m Ss all by (simp add: body_returns_def)
    then show ?thesis
      unfolding g using peel_lams_below [OF b] all len last
      by (intro apply_clos) (auto elim!: returns_mono simp: chain_value_def)
  qed
next
  case False
  then have "applies st g v (reds st Ss u)" using uf v(1) by simp
  then show ?thesis using False unfolding applies_def by (auto elim!: returns_mono simp: chain_value_def)
qed

lemma self_chain:
  assumes ok: "self_ok st E h b b0 ps r cur ord"
    and c: "ctx_wf E c" "list_all2 (\<in>) env (map (reds st Ss) c)" "rels_ok cur renv env"
  shows "self_args t = Some (ts, as) \<Longrightarrow> typed E c t u \<Longrightarrow> \<forall>a \<in> set as. fl_ok st E h Ss cur ord a \<Longrightarrow>
    \<forall>a \<in> set as. \<forall>s \<in> set (tsites st renv [] a). descends ord s \<Longrightarrow>
    descends ord (map (\<lambda>a. argRel a renv) as @ sp) \<Longrightarrow>
    length ts = etv E \<and> list_all (wfT E) ts \<and>
    (length as \<le> length ps \<longrightarrow> u = substTy (funs (drop (length as) ps) r) ts) \<and>
    returns (\<lambda>d. eval d st env h t)
      (chain_value st h b ps cur Ss (map (reds st Ss) ts) (map (\<lambda>a. argRel a renv) as) u)"
proof (induction t arbitrary: as u sp rule: self_args.induct)
  case (1 us)
  then have as: "us = ts" "as = []" by simp_all
  have ts: "u = substTy (funs ps r) ts" "length ts = etv E" "list_all (wfT E) ts"
    using "1.prems"(2) ok as by (auto elim!: typed_SelfE simp: self_ok_def)
  have np: "0 < length ps"
  proof (rule ccontr)
    assume "\<not> 0 < length ps"
    then have "ord = []" using ok by (auto simp: self_ok_def)
    then show False using "1.prems"(5) by simp
  qed
  have b: "peel_lams b = (length ps, b0)" using ok by (simp add: self_ok_def)
  have "returns (\<lambda>d. eval d st [] h b) (\<lambda>w. w = clos b h [])"
    using eval_below [OF b, of "[]" st h] np by simp
  then have "returns (\<lambda>d. eval d st env h (Self us)) (\<lambda>w. w = clos b h [])"
    using ok by (intro returns_eval) (auto simp: eval_def_def GetDef_def self_ok_def)
  then show ?case
    using ts np as by (auto elim!: returns_mono simp: chain_value_def)
next
  case (2 f a)
  then obtain bs where f: "self_args f = Some (ts, bs)" and as: "as = bs @ [a]"
    by (auto split: option.splits)
  obtain p where p: "typed E c f (TFun p u)" "typed E c a p"
    using "2.prems"(2) by (auto elim: typed_AppE)
  let ?rs = "map (\<lambda>a. argRel a renv) bs" and ?Ts = "map (reds st Ss) ts"
  have ih: "length ts = etv E \<and> list_all (wfT E) ts \<and>
      (length bs \<le> length ps \<longrightarrow> TFun p u = substTy (funs (drop (length bs) ps) r) ts) \<and>
      returns (\<lambda>d. eval d st env h f) (chain_value st h b ps cur Ss ?Ts ?rs (TFun p u))"
    using "2.prems" by (intro "2.IH" [OF f p(1), of "argRel a renv # sp"]) (auto simp: as)
  have wf: "list_all (ty_wf st (length ts) False) ps" "ty_wf st (length ts) False r"
    using ok ih by (auto simp: self_ok_def wf_funs)
  have sub: "reds st ?Ts q = reds st Ss (substTy q ts)" if "ty_wf st (length ts) False q" for q
    using reds_subst [OF that, where D = "dats st" and X = "\<lambda>Ss. {}" and Y = "\<lambda>Ss. {}" and Ss = Ss] by simp
  have pu: "p = substTy (ps ! length bs) ts \<and> u = substTy (funs (drop (Suc (length bs)) ps) r) ts"
    if "length bs < length ps"
    using ih that by (auto simp: Cons_nth_drop_Suc [symmetric])
  have av: "returns (\<lambda>d. eval d st env h a) (\<lambda>v. v \<in> reds st Ss p \<and> rel_ok cur (argRel a renv) v)"
    using "2.prems"(3,4) p(2) c by (intro fl_okD [where c = c]) (auto simp: as)
  have "returns (\<lambda>d. apply_val (eval d st) g v) (chain_value st h b ps cur Ss ?Ts (?rs @ [argRel a renv]) u)"
    if g: "chain_value st h b ps cur Ss ?Ts ?rs (TFun p u) g"
      and v: "v \<in> reds st Ss p" "rel_ok cur (argRel a renv) v" for g v
  proof (rule chain_step [OF ok _ _ _ g v])
    show "length ?Ts = etv E" using ih by simp
    show "descends ord ((?rs @ [argRel a renv]) @ sp)" using "2.prems"(5) by (simp add: as)
    show "reds st ?Ts r = reds st Ss u" if "Suc (length ?rs) = length ps"
      using pu that sub [OF wf(2)] by simp
    show "reds st ?Ts (ps ! length ?rs) = reds st Ss p" if "length ?rs < length ps"
      using pu that sub wf(1) by (simp add: list_all_length)
    show "g \<in> reds st Ss (TFun p u)" if "length ps \<le> length ?rs"
      using g that by (simp add: chain_value_def)
  qed
  then have "returns (\<lambda>d. eval d st env h (App f a))
      (chain_value st h b ps cur Ss ?Ts (?rs @ [argRel a renv]) u)"
    by (intro returns_app [OF _ av]) (use ih in blast)+
  then show ?case using ih pu by (auto simp: as)
qed simp_all


subsection \<open>The fundamental lemma\<close>

text \<open>A referenced definition returns at every instance.\<close>

definition ref_ok :: "store \<Rightarrow> hash \<Rightarrow> bool" where
  "ref_ok st g \<longleftrightarrow>
     (\<forall>k t b qs Ss. map_of (sdefs st) g = Some (DFunc k t b qs) \<longrightarrow> length Ss = k \<longrightarrow>
        returns (\<lambda>d. eval_def st (eval d st) g) (\<lambda>v. v \<in> reds st Ss t))"

text \<open>A term that only refers to such definitions and names the data type of every match.\<close>

fun fine :: "store \<Rightarrow> trm \<Rightarrow> bool" where
  "fine st (Ref h ts) \<longleftrightarrow> ref_ok st h"
| "fine st (Match h a arms) \<longleftrightarrow> (\<exists>d. GetDef st h = Inr d) \<and> fine st a \<and> list_all (fine st) arms"
| "fine st (Lam p b) \<longleftrightarrow> fine st b"
| "fine st (App f a) \<longleftrightarrow> fine st f \<and> fine st a"
| "fine st (Let p a b) \<longleftrightarrow> fine st a \<and> fine st b"
| "fine st (If a b d) \<longleftrightarrow> fine st a \<and> fine st b \<and> fine st d"
| "fine st (Prim op as) \<longleftrightarrow> list_all (fine st) as"
| "fine st (Ctor h i ts as) \<longleftrightarrow> list_all (fine st) as"
| "fine st (Record ns as) \<longleftrightarrow> list_all (fine st) as"
| "fine st (Field a f) \<longleftrightarrow> fine st a"
| "fine st _ \<longleftrightarrow> True"

lemma fine_iff: "fine st t \<longleftrightarrow> (\<forall>g \<in> refs_of t. ref_ok st g) \<and> matches_known st t"
  by (induction t) (auto simp: list_all_iff simp del: GetDef_Inr)

lemma self_args_fine: "self_args t = Some (ts, as) \<Longrightarrow> fine st t \<Longrightarrow> a \<in> set as \<Longrightarrow> fine st a"
  by (induction t arbitrary: as rule: self_args.induct) (fastforce split: option.splits)+

text \<open>Primitives.\<close>

lemma reds_ground: "numeric t \<or> t = TBool \<Longrightarrow> v \<in> reds st Ss t \<longleftrightarrow> vty st v t"
  by (auto simp: numeric_def elim: vty_groundE intro: vty.intros)

definition int_list :: "store \<Rightarrow> hash \<Rightarrow> bool" where
  "int_list st h \<longleftrightarrow> map_of (sdefs st) h = Some (DData 1 [[], [TVar 0, TRec [TVar 0]]])"

lemma reds_list:
  assumes st: "store_total_data st" and h: "int_list st h"
  shows "v \<in> reds st Ss (TData h [TInt]) \<longleftrightarrow>
    v = VData h 0 [] \<or> (\<exists>x w. v = VData h 1 [VInt x, w] \<and> w \<in> reds st Ss (TData h [TInt]))"
proof -
  let ?cs = "[[], [TVar 0, TRec [TVar 0]]]"
  have f: "instCtorFields (DData 1 ?cs) h [TInt] 0 = []"
    "instCtorFields (DData 1 ?cs) h [TInt] 1 = [TInt, TData h [TInt]]"
    by (simp_all add: instCtorFields_def ctors_of_def)
  have "v \<in> reds st Ss (TData h [TInt]) \<longleftrightarrow>
    (\<exists>i vs. v = VData h i vs \<and> i < length ?cs \<and>
       list_all2 (\<in>) vs (map (reds st Ss) (instCtorFields (DData 1 ?cs) h [TInt] i)))"
    using reds_data [OF st, of h "[TInt]" ?cs v Ss] h by (simp add: int_list_def del: vsem.simps)
  also have "\<dots> \<longleftrightarrow> v = VData h 0 [] \<or> (\<exists>vs. v = VData h 1 vs \<and> list_all2 (\<in>) vs (map (reds st Ss) [TInt, TData h [TInt]]))"
    using f by (auto simp: less_Suc_eq simp del: vsem.simps)
  also have "\<dots> \<longleftrightarrow> v = VData h 0 [] \<or> (\<exists>x w. v = VData h 1 [VInt x, w] \<and> w \<in> reds st Ss (TData h [TInt]))"
    by (auto simp: list_all2_Cons2 simp del: vsem.simps(7))
  finally show ?thesis .
qed

lemma listOfBytes_reds:
  "store_total_data st \<Longrightarrow> int_list st h \<Longrightarrow> listOfBytes h bs \<in> reds st Ss (TData h [TInt])"
  by (induction bs) (subst reds_list, simp_all del: vsem.simps)+

lemma prim_reds:
  assumes st: "store_total_data st" and sh: "prim_shape st op us u"
    and vs: "list_all2 (\<in>) vs (map (reds st Ss) us)" and w: "prim op vs = Inr w"
  shows "w \<in> reds st Ss u"
proof (cases "op = ''hmac-sha256'' \<or> op = ''bytes-eq-ct''")
  case False
  have g: "\<forall>k \<in> set us. numeric k \<or> k = TBool" "numeric u \<or> u = TBool"
    using sh False by (cases, auto simp: numeric_def)+
  then have "list_all2 (vty st) vs us"
    using vs by (auto simp: list_all2_conv_all_nth reds_ground)
  then have "good st u (prim op vs)"
    using prim_good [OF sh] st by (simp add: store_total_data_def)
  with g(2) w show ?thesis by (simp add: reds_ground)
next
  case True
  obtain h where h: "slist st = Some h" "us = [TData h [TInt], TData h [TInt]]"
      "u = (if op = ''bytes-eq-ct'' then TBool else TData h [TInt])"
    using sh True by cases auto
  have l: "int_list st h"
    using st h(1) by (simp add: store_total_data_def store_checked_def int_list_def)
  obtain a b where ab: "vs = [a, b]" "a \<in> reds st Ss (TData h [TInt])" "b \<in> reds st Ss (TData h [TInt])"
    using vs h(2) by (auto simp: list_all2_Cons2 simp del: vsem.simps)
  obtain i fs where a: "a = VData h i fs"
    using reds_list [OF st l, THEN iffD1, OF ab(2)] by blast
  then have ha: "val_hash a = h" and "numPrim op vs = None"
    using ab(1) by (simp_all add: numPrim_def val_hash_def)
  then have "prim op vs = cryptoPrim op vs" using True by (simp add: prim_def)
  then have "op = ''bytes-eq-ct'' \<Longrightarrow> \<exists>x. w = VBool x"
    and "op \<noteq> ''bytes-eq-ct'' \<Longrightarrow> \<exists>bs. w = listOfBytes h bs"
    using w ab(1) ha by (auto simp: cryptoPrim_def arg_def rbind_eq_Inr split: if_splits)
  then show ?thesis
    using listOfBytes_reds [OF st l] h(3) by (cases "op = ''bytes-eq-ct''") (auto simp del: vsem.simps(7))
qed

lemma prim_eq_reds: "prim ''=='' vs = Inr w \<Longrightarrow> w \<in> range VBool"
proof -
  assume w: "prim ''=='' vs = Inr w"
  have "\<exists>x. w = VBool x" if "ratPrim ''=='' vs = Some (Inr w)"
    using that by (auto simp: ratPrim_def rat2_def rbind_eq_Inr)
  moreover have "floatPrim ''=='' vs = None" by (simp add: floatPrim_def)
  moreover have "\<exists>x. w = VBool x" if "intPrim ''=='' vs = Inr w"
    using that by (auto simp: intPrim_def rbind_eq_Inr)
  ultimately show ?thesis
    using w by (auto simp: prim_def numPrim_def split: list.splits val.splits option.splits)
qed


lemma self_call:
  assumes ok: "self_ok st E h b b0 ps r cur ord" and Ss: "length Ss = etv E"
    and c: "ctx_wf E c" "list_all2 (\<in>) env (map (reds st Ss) c)" "rels_ok cur renv env"
    and t: "self_args t = Some (ts, as)" "typed E c t u"
    and args: "\<And>a. a \<in> set as \<Longrightarrow> fl_ok st E h Ss cur ord a"
    and desc: "\<forall>s \<in> set (tsites st renv [] t). descends ord s"
  shows "returns (\<lambda>d. eval d st env h t) (\<lambda>v. v \<in> reds st Ss u)"
proof -
  let ?rs = "map (\<lambda>a. argRel a renv) as" and ?Ts = "map (reds st Ss) ts"
  have site: "descends ord ?rs" and sub: "\<forall>a \<in> set as. \<forall>s \<in> set (tsites st renv [] a). descends ord s"
    using desc by (auto simp: tsites_self [OF t(1)])
  have ch: "length ts = etv E \<and> list_all (wfT E) ts \<and>
    (length as \<le> length ps \<longrightarrow> u = substTy (funs (drop (length as) ps) r) ts) \<and>
    returns (\<lambda>d. eval d st env h t) (chain_value st h b ps cur Ss ?Ts ?rs u)"
    using args sub site by (intro self_chain [OF ok c t, where sp = "[]"]) simp_all
  have "w \<in> reds st Ss u" if w: "chain_value st h b ps cur Ss ?Ts ?rs u w" for w
  proof (cases "length as < length ps")
    case False
    then show ?thesis using w by (simp add: chain_value_def)
  next
    case True
    then obtain vs where vs: "w = clos b h vs" "length vs = length as"
      "list_all2 (\<in>) vs (map (reds st ?Ts) (take (length vs) ps))" "list_all2 (rel_ok cur) ?rs vs"
      using w by (auto simp: chain_value_def)
    have b: "peel_lams b = (length ps, b0)" using ok by (simp add: self_ok_def)
    have "body_returns st h b0 (etv E) ps r (vs @ ws)" if "length (vs @ ws) = length ps" for ws
      using descends_smaller [OF vs(4), of ord "[]" ws] site ok that by (simp add: self_ok_def)
    then have "w \<in> reds st ?Ts (funs (drop (length as) ps) r)"
      using clos_reducible [OF b, of ?Ts "etv E" vs st h r] vs True ch by simp
    moreover have "ty_wf st (length ts) False (funs (drop (length as) ps) r)"
      using ok ch by (auto simp: self_ok_def wf_funs list_all_iff dest: in_set_dropD)
    ultimately show ?thesis
      using reds_subst [where D = "dats st" and X = "\<lambda>Ss. {}" and Y = "\<lambda>Ss. {}" and Ss = Ss and ts = ts] ch True
      by simp
  qed
  with ch show ?thesis by (blast intro: returns_mono)
qed

lemma args_return:
  assumes "list_all2 (typed E c) as us" "\<And>a. a \<in> set as \<Longrightarrow> fl_ok st E h Ss cur ord a"
    and c: "ctx_wf E c" "list_all2 (\<in>) env (map (reds st Ss) c)" "rels_ok cur renv env"
    and "\<forall>a \<in> set as. \<forall>s \<in> set (tsites st renv [] a). descends ord s"
  shows "list_all2 (\<lambda>t S. returns (\<lambda>d. eval d st env h t) (\<lambda>v. v \<in> S)) as (map (reds st Ss) us)"
  using assms(1,2,6)
proof (induction rule: list_all2_induct)
  case (Cons a as u us)
  have "returns (\<lambda>d. eval d st env h a) (\<lambda>v. v \<in> reds st Ss u \<and> rel_ok cur (argRel a renv) v)"
    using Cons.prems Cons.hyps(1) c by (intro fl_okD [where c = c and ord = ord]) simp_all
  then have "returns (\<lambda>d. eval d st env h a) (\<lambda>v. v \<in> reds st Ss u)" by (rule returns_mono) simp
  with Cons show ?case by simp
qed simp

lemma match_arms:
  assumes st: "store_total_data st" and wf: "env_wf E" and E: "est E = st"
    and g: "map_of (sdefs st) g = Some d" "length arms = length (ctors_of d)" "wfT E (TData g ts)"
    and arms: "list_all2 (\<lambda>fs x. typed E (pushAll c fs) x u) (map (instCtorFields d g ts) [0..<length arms]) arms"
    and c: "ctx_wf E c" "list_all2 (\<in>) env (map (reds st Ss) c)" "rels_ok cur renv env"
    and v: "v \<in> reds st Ss (TData g ts)" "rel_ok cur r v"
  shows "\<exists>i vs e. v = VData g i vs \<and> i < length arms \<and>
    (arms ! i, e) \<in> set (zip arms (arm_envs renv (ltOf r) (ctors_of d))) \<and>
    typed E (pushAll c (instCtorFields d g ts i)) (arms ! i) u \<and>
    ctx_wf E (pushAll c (instCtorFields d g ts i)) \<and>
    list_all2 (\<in>) (foldl pushEnv env vs) (map (reds st Ss) (pushAll c (instCtorFields d g ts i))) \<and>
    rels_ok cur e (foldl pushEnv env vs)"
proof -
  obtain cs where d: "d = DData (length ts) cs" using g(1,3) E by (auto split: def.splits)
  have ts: "list_all norec ts" using g(3) by (auto simp: list_all_iff dest: wf_norec)
  obtain i vs where v': "v = VData g i vs" and i: "i < length cs"
    and vs: "list_all2 (\<in>) vs (map (reds st Ss) (instCtorFields d g ts i))"
    using v(1) reds_data [OF st _ ts, of g cs v Ss] g(1) by (auto simp: d)
  have il: "i < length arms" using i g(2) by (simp add: d ctors_of_def)
  let ?fs = "instCtorFields d g ts i"
  have wfs: "list_all (wfT E) ?fs"
    using instCtorFields_wf [of "est E" g ts cs i "etv E"] wf g(1,3) i E by (simp add: d env_wf_def)
  have push: "list_all2 (\<in>) (foldl pushEnv env vs) (map (reds st Ss) (pushAll c fs))"
    if "list_all2 (\<in>) env (map (reds st Ss) c)" "list_all2 (\<in>) vs (map (reds st Ss) fs)" for env c vs fs
    using that
  proof (induction fs arbitrary: env c vs)
    case (Cons f fs)
    then obtain w ws where "vs = w # ws" by (auto simp: list_all2_Cons2)
    with Cons show ?case by (auto simp: pushAll_def pushCtx_def pushEnv_def intro!: Cons.IH)
  qed (simp add: pushAll_def)
  let ?e = "foldl (\<lambda>e _. pushRel e (ltOf r)) renv (cs ! i)"
  let ?z = "zip arms (arm_envs renv (ltOf r) (ctors_of d))"
  have "i < length ?z" "?z ! i = (arms ! i, ?e)"
    using il i by (simp_all add: arm_envs_def d ctors_of_def)
  then have mem: "(arms ! i, ?e) \<in> set ?z" by (metis nth_mem)
  have "length (cs ! i) = length vs"
    using list_all2_lengthD [OF vs] i by (simp add: d instCtorFields_def ctors_of_def)
  then have "rels_ok cur ?e (foldl pushEnv env vs)"
    using rel_ok_field [of cur r g i vs] v(2) v' c(3) by (intro rels_ok_arm) auto
  moreover have "typed E (pushAll c ?fs) (arms ! i) u"
    using list_all2_nthD2 [OF arms il] il by simp
  moreover have "ctx_wf E (pushAll c ?fs)" using wfs c(1) by simp
  ultimately show ?thesis using v' il mem push [OF c(2) vs] by blast
qed


theorem fundamental:
  assumes st: "store_total_data st" and ok: "self_ok st E h b b0 ps r cur ord"
    and Ss: "length Ss = etv E" and wf: "env_wf E"
  shows "fine st t \<Longrightarrow> fl_ok st E h Ss cur ord t"
proof (induction t rule: measure_induct_rule [of size])
  case (less t)
  have E: "est E = st" using ok by (simp add: self_ok_def)
  have IH: "fl_ok st E h Ss cur ord s" if "size s < size t" "fine st s" for s
    using less.IH that by blast
  show ?case
    unfolding fl_ok_def
  proof (intro allI impI)
    fix c u env renv
    assume t: "typed E c t u" and c: "ctx_wf E c" "list_all2 (\<in>) env (map (reds st Ss) c)" "rels_ok cur renv env"
      and sites: "\<forall>s \<in> set (tsites st renv [] t). descends ord s"
    have sub: "returns (\<lambda>d. eval d st env h s) (\<lambda>v. v \<in> reds st Ss q \<and> rel_ok cur (argRel s renv) v)"
      if "typed E c s q" "size s < size t" "fine st s"
        "set (tsites st renv [] s) \<subseteq> set (tsites st renv [] t)" for s q
      using fl_okD [OF IH [OF that(2,3)] that(1) c] sites that(4) by blast
    have sub': "returns (\<lambda>d. eval d st env h s) (\<lambda>v. v \<in> reds st Ss q)"
      if "typed E c s q" "size s < size t" "fine st s"
        "set (tsites st renv [] s) \<subseteq> set (tsites st renv [] t)" for s q
      using sub [OF that] by (rule returns_mono) simp
    have push: "returns (\<lambda>d. eval d st (pushEnv env v) h s) (\<lambda>w. w \<in> reds st Ss q)"
      if "typed E (pushCtx c p) s q" "wfT E p" "v \<in> reds st Ss p" "size s < size t" "fine st s"
        "set (tsites st (pushRel renv None) [] s) \<subseteq> set (tsites st renv [] t)" for s p q v
    proof -
      have "returns (\<lambda>d. eval d st (pushEnv env v) h s)
          (\<lambda>w. w \<in> reds st Ss q \<and> rel_ok cur (argRel s (pushRel renv None)) w)"
        using that sites c rels_ok_push [OF c(3), of None v]
        by (intro fl_okD [OF IH [OF that(4,5)] that(1)]) (auto simp: pushCtx_def pushEnv_def)
      then show ?thesis by (rule returns_mono) simp
    qed
    have plain: "returns (\<lambda>d. eval d st env h t) (\<lambda>v. v \<in> reds st Ss u \<and> rel_ok cur (argRel t renv) v)"
      if "returns (\<lambda>d. eval d st env h t) (\<lambda>v. v \<in> reds st Ss u)" "\<And>i. t \<noteq> Var i"
      using that by (cases t) (auto elim!: returns_mono simp: argRel_def)
    show "returns (\<lambda>d. eval d st env h t) (\<lambda>v. v \<in> reds st Ss u \<and> rel_ok cur (argRel t renv) v)"
    proof (cases "self_args t")
      case (Some tas)
      obtain ts as where as: "self_args t = Some (ts, as)" using Some by (cases tas) simp
      have "fl_ok st E h Ss cur ord a" if "a \<in> set as" for a
        using self_args_size [OF as that] self_args_fine [OF as less.prems that] by (rule IH)
      then show ?thesis
        using self_call [OF ok Ss c as t _ sites] by (intro plain) (use as in auto)
    next
      case None
      show ?thesis
      proof (cases t)
        case (Var i)
        then have i: "i < length c" "u = c ! i" using t by (auto elim: typed_VarE)
        have "env ! i \<in> reds st Ss u" "i < length env" "rel_ok cur (argRel t renv) (env ! i)"
          using i c(2,3) by (auto simp: list_all2_conv_all_nth argRel_def Var rels_ok_def simp del: vsem.simps)
        then show ?thesis
          unfolding Var by (intro returns_eval) (auto intro!: returns_from)
      next
        case (Lam p s)
        then obtain q where q: "u = TFun p q" "wfT E p" "typed E (pushCtx c p) s q"
          using t by (auto elim: typed_LamE)
        have "applies st (VClos env p s h) v (reds st Ss q)" if "v \<in> reds st Ss p" for v
          unfolding applies_def
          by (rule returns_apply) (use push [OF q(3,2) that] less.prems Lam in \<open>simp add: apply_body_def\<close>)
        then have "VClos env p s h \<in> reds st Ss u" by (simp add: q(1))
        then have "returns (\<lambda>d. eval d st env h t) (\<lambda>v. v \<in> reds st Ss u)"
          unfolding Lam by (intro returns_eval) (auto intro: returns_from)
        then show ?thesis by (rule plain) (simp add: Lam)
      next
        case (App f a)
        then obtain p where p: "typed E c f (TFun p u)" "typed E c a p" using t by (auto elim: typed_AppE)
        have "self_args f = None" using None App by (auto split: option.splits)
        then have "returns (\<lambda>d. eval d st env h f) (\<lambda>v. v \<in> reds st Ss (TFun p u))"
          using less.prems App tsites_head [of f st renv "[argRel a renv]"] by (intro sub' p) auto
        moreover have "returns (\<lambda>d. eval d st env h a) (\<lambda>v. v \<in> reds st Ss p)"
          using less.prems App by (intro sub' p) auto
        ultimately have "returns (\<lambda>d. eval d st env h t) (\<lambda>v. v \<in> reds st Ss u)"
          unfolding App by (rule returns_app) (simp add: applies_def)
        then show ?thesis by (rule plain) (simp add: App)
      next
        case (Let p a s)
        then have p: "wfT E p" "typed E c a p" "typed E (pushCtx c p) s u" using t by (auto elim: typed_LetE)
        have "returns (\<lambda>d. eval d st env h a) (\<lambda>v. v \<in> reds st Ss p)"
          using less.prems Let by (intro sub' p) auto
        then have "returns (\<lambda>d. eval d st env h t) (\<lambda>v. v \<in> reds st Ss u)"
          unfolding Let by (rule returns_let) (rule push [OF p(3,1)], use less.prems Let in auto)
        then show ?thesis by (rule plain) (simp add: Let)
      next
        case (If a x y)
        then have p: "typed E c a TBool" "typed E c x u" "typed E c y u" using t by (auto elim: typed_IfE)
        have "returns (\<lambda>d. eval d st env h t) (\<lambda>v. v \<in> reds st Ss u)"
          unfolding If by (rule returns_if [OF sub' [OF p(1)] sub' [OF p(2)] sub' [OF p(3)]]) (use less.prems in \<open>auto simp: If\<close>)
        then show ?thesis by (rule plain) (simp add: If)
      next
        case (Ref g ts)
        then obtain k x qs where k: "map_of (sdefs st) g = Some (DFunc (length ts) k x qs)"
          and ts: "list_all (wfT E) ts" and u: "u = substTy k ts"
          using t E by (auto elim: typed_RefE)
        have kw: "ty_wf st (length ts) False k"
          using store_data [OF _ k] checked_wf st by (fastforce simp: store_total_data_def)
        have "returns (\<lambda>d. eval_def st (eval d st) g) (\<lambda>v. v \<in> reds st (map (reds st Ss) ts) k)"
          using less.prems k Ref by (simp add: ref_ok_def)
        then have "returns (\<lambda>d. eval_def st (eval d st) g) (\<lambda>v. v \<in> reds st Ss u)"
          using reds_subst [OF kw, where D = "dats st" and X = "\<lambda>Ss. {}" and Y = "\<lambda>Ss. {}" and Ss = Ss] u by simp
        then have "returns (\<lambda>d. eval d st env h t) (\<lambda>v. v \<in> reds st Ss u)"
          unfolding Ref by (intro returns_eval) simp
        then show ?thesis by (rule plain) (simp add: Ref)
      next
        case (Prim op as)
        have r: "returns (\<lambda>d. eval d st env h t) (\<lambda>v. v \<in> reds st Ss u)"
          if us: "list_all2 (typed E c) as us"
            and w: "\<And>vs w. list_all2 (\<in>) vs (map (reds st Ss) us) \<Longrightarrow> prim op vs = Inr w \<Longrightarrow> w \<in> reds st Ss u" for us
          unfolding Prim
          by (intro returns_eval, unfold evalInner.simps, rule returns_args [OF args_return [OF us _ c]])
            (use IH less.prems sites w in_budget_prim in \<open>auto simp: Prim list_all_iff less_Suc_eq_le intro: size_list_estimation'\<close>)
        have "returns (\<lambda>d. eval d st env h t) (\<lambda>v. v \<in> reds st Ss u)"
        proof (cases "op = ''==''")
          case True
          then obtain a b k where "as = [a, b]" "typed E c a k" "typed E c b k" "u = TBool"
            using t Prim by (auto elim: typed_PrimE)
          then show ?thesis using r [of "[k, k]"] prim_eq_reds True by auto
        next
          case False
          then obtain us where us: "list_all2 (typed E c) as us" "primResultTy st op us = Inr u"
            using t Prim E by (auto elim: typed_PrimE)
          show ?thesis by (rule r [OF us(1)]) (rule prim_reds [OF st primResultTy_shape [OF us(2)]])
        qed
        then show ?thesis by (rule plain) (simp add: Prim)
      next
        case (Record ns as)
        then obtain ts where ts: "length ns = length as" "list_all2 (typed E c) as ts" "u = TRecord ns ts"
          using t by (auto elim: typed_RecordE)
        have "returns (\<lambda>d. eval d st env h t) (\<lambda>v. v \<in> reds st Ss u)"
          unfolding Record
          by (intro returns_eval, unfold evalInner.simps, rule returns_args [OF args_return [OF ts(2) _ c]])
            (use IH less.prems sites ts list_all2_lengthD [OF ts(2)] in
              \<open>auto simp: Record list_all_iff less_Suc_eq_le intro: size_list_estimation'\<close>)
        then show ?thesis by (rule plain) (simp add: Record)
      next
        case (Ctor g i ts as)
        then obtain cs where cs: "map_of (sdefs st) g = Some (DData (length ts) cs)" "i < length cs"
          "list_all (wfT E) ts" "list_all2 (typed E c) as (instCtorFields (DData (length ts) cs) g ts i)"
          "u = TData g ts"
          using t E by (auto elim: typed_CtorE)
        have n: "list_all norec ts" using cs(3) by (auto simp: list_all_iff dest: wf_norec)
        have "returns (\<lambda>d. eval d st env h t) (\<lambda>v. v \<in> reds st Ss u)"
          unfolding Ctor
          by (intro returns_eval, unfold evalInner.simps, rule returns_args [OF args_return [OF cs(4) _ c]])
            (use IH less.prems sites cs(2) in \<open>auto simp: Ctor cs(5) list_all_iff reds_data [OF st cs(1) n] less_Suc_eq_le
              simp del: vsem.simps intro: size_list_estimation'\<close>)
        then show ?thesis by (rule plain) (simp add: Ctor)
      next
        case (Match k a arms)
        then obtain g ts d where m: "typed E c a (TData g ts)" "k = '''' \<or> k = g"
          "map_of (sdefs st) g = Some d" "length arms = length (ctors_of d)"
          "list_all2 (\<lambda>fs x. typed E (pushAll c fs) x u) (map (instCtorFields d g ts) [0..<length arms]) arms"
          using t E by (auto elim: typed_MatchE)
        have "k \<noteq> ''''" using less.prems Match st by (auto simp: store_total_data_def store_checked_def)
        then have k: "GetDef st k = Inr d" using m(2,3) by simp
        have "set (tsites st renv [] a) \<subseteq> set (tsites st renv [] t)"
          using k by (simp add: Match del: GetDef_Inr)
        then have a: "returns (\<lambda>d. eval d st env h a) (\<lambda>v. v \<in> reds st Ss (TData g ts) \<and> rel_ok cur (argRel a renv) v)"
          using less.prems Match by (intro sub m(1)) (auto simp del: GetDef_Inr)
        have "returns (\<lambda>d. eval d st env h t) (\<lambda>v. v \<in> reds st Ss u)"
          unfolding Match
        proof (rule returns_match [OF a])
          fix v
          assume v: "v \<in> reds st Ss (TData g ts) \<and> rel_ok cur (argRel a renv) v"
          obtain i vs e where i: "v = VData g i vs" "i < length arms"
            "(arms ! i, e) \<in> set (zip arms (arm_envs renv (ltOf (argRel a renv)) (ctors_of d)))"
            "typed E (pushAll c (instCtorFields d g ts i)) (arms ! i) u"
            "ctx_wf E (pushAll c (instCtorFields d g ts i))"
            "list_all2 (\<in>) (foldl pushEnv env vs) (map (reds st Ss) (pushAll c (instCtorFields d g ts i)))"
            "rels_ok cur e (foldl pushEnv env vs)"
            using match_arms [OF st wf E _ m(4) typed_wf [OF m(1) wf c(1)] m(5) c, of v "argRel a renv"] v m(3) E
            by blast
          have mem: "arms ! i \<in> set arms" using i(2) by simp
          have fn: "fine st (arms ! i)" using less.prems mem by (simp add: Match list_all_iff)
          have "size (arms ! i) \<le> size_list size arms" using mem by (simp add: size_list_estimation')
          then have sz: "size (arms ! i) < size t" by (simp add: Match)
          have "set (tsites st e [] (arms ! i)) \<subseteq> set (tsites st renv [] t)"
            using k i(3) by (auto simp: Match simp del: GetDef_Inr)
          then have "returns (\<lambda>d. eval d st (foldl pushEnv env vs) h (arms ! i))
              (\<lambda>w. w \<in> reds st Ss u \<and> rel_ok cur (argRel (arms ! i) e) w)"
            using fl_okD [OF IH [OF sz fn] i(4-7)] sites by blast
          then have "returns (\<lambda>d. eval d st (foldl pushEnv env vs) h (arms ! i)) (\<lambda>w. w \<in> reds st Ss u)"
            by (rule returns_mono) simp
          then show "\<exists>g i vs. v = VData g i vs \<and> i < length arms \<and>
              returns (\<lambda>d. eval d st (foldl pushEnv env vs) h (arms ! i)) (\<lambda>w. w \<in> reds st Ss u)"
            using i(1,2) by blast
        qed
        then show ?thesis by (rule plain) (simp add: Match)
      next
        case (Field a f)
        then obtain ns ts where f: "typed E c a (TRecord ns ts)" "field_ty ns ts f = Some u"
          using t by (auto elim: typed_FieldE)
        have a: "returns (\<lambda>d. eval d st env h a) (\<lambda>v. v \<in> reds st Ss (TRecord ns ts))"
          using less.prems Field by (intro sub' f(1)) auto
        have field: "\<exists>w. field_val ns vs f = Inr w \<and> w \<in> reds st Ss u"
          if "length ns = length ts" "list_all2 (\<in>) vs (map (reds st Ss) ts)" for vs
          using f(2) that
          by (induction ns ts f arbitrary: vs rule: field_ty.induct)
            (auto simp: list_all2_Cons2 split: if_splits)
        have "returns (\<lambda>d. eval d st env h t) (\<lambda>v. v \<in> reds st Ss u)"
          unfolding Field
        proof (intro returns_eval, unfold evalInner.simps, rule returns_bind [OF chain_eval chain_from a])
          fix v
          assume "v \<in> reds st Ss (TRecord ns ts)"
          then obtain vs where "v = VRecord ns vs" "length ns = length ts" "list_all2 (\<in>) vs (map (reds st Ss) ts)"
            by auto
          then show "returns (\<lambda>d. efrom (case v of VRecord ns vs \<Rightarrow> field_val ns vs f | _ \<Rightarrow> Inl (ENoField f)))
              (\<lambda>v. v \<in> reds st Ss u)"
            using field [of vs] by (auto intro!: returns_from)
        qed
        then show ?thesis by (rule plain) (simp add: Field)
      next
        case (Self ts)
        then show ?thesis using None by simp
      qed (use t in \<open>auto elim!: typed_litE intro!: returns_eval returns_from simp: argRel_def\<close>)
    qed
  qed
qed


subsection \<open>Total verdicts\<close>

text \<open>
  The verdicts on record: every total one is what the checker computes for the definition,
  and none rests on a ranking function.
\<close>

definition verdicts_computed :: "(hash \<Rightarrow> string option) \<Rightarrow> store \<Rightarrow> bool" where
  "verdicts_computed meta st \<longleftrightarrow>
     (\<forall>g v. meta g = Some v \<longrightarrow> isTotal v \<longrightarrow>
        (\<exists>d. map_of (sdefs st) g = Some d \<and> terminationOf meta (\<lambda>_ _. False) st d g = Some v))"

lemma peel_lams_refs: "peel_lams b = (n, b0) \<Longrightarrow> refs_of b0 = refs_of b"
  by (induction b arbitrary: n rule: peel_lams.induct) (auto split: prod.splits)

text \<open>What a total verdict has found.\<close>

lemma total_verdict:
  assumes v: "terminationOf meta (\<lambda>_ _. False) st d h = Some v" "isTotal v"
  obtains n t b qs np b0 ord where "d = DFunc n t b qs" "peel_lams b = (np, b0)"
    "\<forall>g \<in> refs_of b. \<exists>v. meta g = Some v \<and> isTotal v" "matches_known st b0"
    "set ord \<subseteq> {..<np}" "\<forall>s \<in> set (tsites st (param_rels np) [] b0). descends ord s"
proof -
  obtain n t b qs where d: "d = DFunc n t b qs"
    using v by (cases d) (auto simp: terminationOf_def isTotal_def)
  obtain np b0 where p: "peel_lams b = (np, b0)" by fastforce
  have refs: "\<forall>g \<in> refs_of b. \<exists>v. meta g = Some v \<and> isTotal v"
  proof (rule ccontr)
    assume "\<not> ?thesis"
    then have "list_ex (\<lambda>g. case meta g of None \<Rightarrow> True | Some v \<Rightarrow> \<not> isTotal v) (bodyFuncRefs b)"
      by (auto simp: list_ex_iff bodyFuncRefs_eq split: option.splits)
    then have "v = ''unknown''" using v(1) by (simp add: terminationOf_def d)
    then show False using v(2) by (simp add: isTotal_def)
  qed
  then have "\<not> list_ex (\<lambda>g. case meta g of None \<Rightarrow> True | Some v \<Rightarrow> \<not> isTotal v) (bodyFuncRefs b)"
    by (auto simp: list_ex_iff bodyFuncRefs_eq split: option.splits)
  then obtain w where w: "walk st [(b0, param_rels np, [])] \<lparr>sites = [], bad = False\<rparr> = Some w"
    and vw: "v = (if bad w then ''unknown'' else if sites w = [] then ''nonrecursive''
      else if lexDescends (sites w) [0..<np] then ''structural'' else ''unknown'')"
    using v(1) by (auto simp: terminationOf_def d p split: option.splits)
  have nb: "\<not> bad w" and ok: "sites w = [] \<or> lexDescends (sites w) [0..<np]"
    using v(2) vw by (auto simp: isTotal_def split: if_splits)
  have sw: "sites w = tsites st (param_rels np) [] b0"
    using walk_sites [OF w nb] by (simp add: item_sites_def)
  obtain ord where "set ord \<subseteq> {..<np}" "\<forall>s \<in> set (sites w). descends ord s"
    using ok by (auto simp: lexDescends_iff atLeast0LessThan intro: that [of "[]"])
  then show thesis
    using that [OF d p refs] walk_known [OF w nb] sw by simp
qed

lemma bodies_return:
  assumes st: "store_total_data st" and E: "est E = st" "env_wf E" "eself E = Some (funs ps r)"
    and h: "h \<noteq> ''''" "map_of (sdefs st) h = Some (DFunc (etv E) (funs ps r) b qs)"
    and b: "peel_lams b = (length ps, b0)" "typed E (rev ps) b0 r" "ctx_wf E (rev ps)" "fine st b0"
    and ord: "set ord \<subseteq> {..<length ps}" "\<forall>s \<in> set (tsites st (param_rels (length ps)) [] b0). descends ord s"
  shows "length cur = length ps \<Longrightarrow> body_returns st h b0 (etv E) ps r cur"
proof (induction cur rule: wf_induct_rule [OF wf_smaller [of ord]])
  case (1 cur)
  have "wfT E (funs ps r)" using E by (simp add: env_wf_def)
  then have ok: "self_ok st E h b b0 ps r cur ord"
    using 1 E h b(1) ord(1) by (auto simp: self_ok_def)
  show ?case
    unfolding body_returns_def
  proof (intro allI impI)
    fix Ss
    assume Ss: "length Ss = etv E" and m: "list_all2 (\<in>) cur (map (reds st Ss) ps)"
    have "list_all2 (\<in>) (rev cur) (map (reds st Ss) (rev ps))"
      using m by (simp add: list_all2_rev1 rev_map)
    then have "returns (\<lambda>d. eval d st (rev cur) h b0)
        (\<lambda>v. v \<in> reds st Ss r \<and> rel_ok cur (argRel b0 (param_rels (length ps))) v)"
      using fl_okD [OF fundamental [OF st ok Ss E(2) b(4)] b(2,3)] ord(2) rels_ok_params [of cur] "1.prems" by simp
    then show "returns (\<lambda>d. eval d st (rev cur) h b0) (\<lambda>v. v \<in> reds st Ss r)"
      by (rule returns_mono) simp
  qed
qed

lemma function_returns:
  assumes st: "store_total_data st" and h: "map_of (sdefs st) h = Some d"
    and v: "terminationOf meta (\<lambda>_ _. False) st d h = Some v" "isTotal v"
    and refs: "\<And>g v. meta g = Some v \<Longrightarrow> isTotal v \<Longrightarrow> g \<in> collectDeps d \<Longrightarrow> ref_ok st g"
    and known: "\<And>g v. meta g = Some v \<Longrightarrow> isTotal v \<Longrightarrow> g \<noteq> ''''"
  shows "ref_ok st h"
proof -
  obtain n t b qs np b0 ord where d: "d = DFunc n t b qs" and b: "peel_lams b = (np, b0)"
    and rt: "\<forall>g \<in> refs_of b. \<exists>v. meta g = Some v \<and> isTotal v" and kn: "matches_known st b0"
    and ord: "set ord \<subseteq> {..<np}" "\<forall>s \<in> set (tsites st (param_rels np) [] b0). descends ord s"
    by (rule total_verdict [OF v])
  let ?E = "\<lparr>est = st, etv = n, eself = Some t\<rparr>"
  have sc: "store_checked st" using st by (simp add: store_total_data_def)
  have wf: "store_wf st" by (rule checked_wf [OF sc])
  have ne: "h \<noteq> ''''" and ck: "checkDef st (DFunc n t b qs) = Inr (DFunc n t b qs)"
    using sc h by (auto simp: store_checked_def d simp del: checkDef.simps)
  have ty: "typed ?E [] b t" "ty_wf st n False t"
    using checkDef_typed [OF wf ck] by (simp_all add: Let_def)
  have E: "env_wf ?E" using wf ty(2) by (simp add: env_wf_def)
  obtain ps r where t: "t = funs ps r" and np: "length ps = np"
    and tb: "typed ?E (rev ps) b0 r" "ctx_wf ?E (rev ps)"
    using typed_funs [OF ty(1) b] by auto
  have "ref_ok st g" if "g \<in> refs_of b0" for g
  proof -
    have g: "g \<in> refs_of b" using that peel_lams_refs [OF b] by simp
    then obtain v where v: "meta g = Some v" "isTotal v" using rt by blast
    have "g \<in> collectDeps d" using refs_of_deps [of b] g known [OF v] by (auto simp: d)
    with v show ?thesis by (rule refs)
  qed
  then have f: "fine st b0" using kn by (simp add: fine_iff)
  have body: "body_returns st h b0 n ps r cur" if "length cur = length ps" for cur
    using bodies_return [OF st, of ?E ps r h b qs b0 ord cur] E h ne b tb f ord that by (simp add: t d np)
  have "returns (\<lambda>e. eval e st [] h b) (\<lambda>v. v \<in> reds st Ss t)" if Ss: "length Ss = n" for Ss
  proof (cases "ps = []")
    case True
    then have "b = b0" using b np peel_lams_below [OF b] by simp
    then show ?thesis using body [of "[]"] Ss True by (simp add: body_returns_def t)
  next
    case False
    have "0 < np" using False np by auto
    then have "clos b h [] \<in> reds st Ss t"
      using clos_reducible [of b ps b0 Ss n "[]" st h r] b np Ss False body by (simp add: t)
    then show ?thesis
      using eval_below [OF b, of "[]" st h] False np by (auto elim!: returns_mono)
  qed
  then show ?thesis using h by (simp add: ref_ok_def eval_def_def GetDef_def d)
qed

lemma total_ref:
  assumes st: "store_total_data st" and meta: "verdicts_computed meta st"
    and v: "meta h = Some v" "isTotal v"
  shows "ref_ok st h"
proof -
  have ord: "ordered (sdefs st)" using st by (simp add: store_total_data_def)
  obtain d where d: "map_of (sdefs st) h = Some d" using meta v by (auto simp: verdicts_computed_def)
  have "\<forall>v. meta h = Some v \<longrightarrow> isTotal v \<longrightarrow> ref_ok st h"
  proof (rule ordered_induct [OF ord d], intro allI impI)
    fix h d v
    assume h: "map_of (sdefs st) h = Some d" and v: "meta h = Some v" "isTotal v"
      and ih: "\<And>g e. g \<in> collectDeps d \<Longrightarrow> map_of (sdefs st) g = Some e \<Longrightarrow>
        \<forall>v. meta g = Some v \<longrightarrow> isTotal v \<longrightarrow> ref_ok st g"
    show "ref_ok st h"
    proof (rule function_returns [OF st h _ v(2)])
      show "terminationOf meta (\<lambda>_ _. False) st d h = Some v"
        using meta v h unfolding verdicts_computed_def by (metis option.inject)
      fix g v
      assume g: "meta g = Some v" "isTotal v" "g \<in> collectDeps d"
      obtain e where "map_of (sdefs st) g = Some e"
        using meta g(1,2) unfolding verdicts_computed_def by blast
      then show "ref_ok st g" using ih g by blast
    next
      show "g \<noteq> ''''" if "meta g = Some v" "isTotal v" for g v
        using meta st that by (force simp: verdicts_computed_def store_total_data_def store_checked_def)
    qed
  qed
  with v show ?thesis by blast
qed


subsection \<open>Calls\<close>

text \<open>A definition applied to arguments, one at a time, as property runs do.\<close>

fun apply_all :: "evaluator \<Rightarrow> val \<Rightarrow> val list \<Rightarrow> val ev" where
  "apply_all ev g [] = efrom (Inr g)"
| "apply_all ev g (a # as) = ebind (apply_val ev g a) (\<lambda>f. apply_all ev f as)"

definition call :: "store \<Rightarrow> evaluator \<Rightarrow> hash \<Rightarrow> val list \<Rightarrow> val ev" where
  "call st ev h as = ebind (eval_def st ev h) (\<lambda>g. apply_all ev g as)"

lemma chain_apply_all: "chain (\<lambda>d. apply_all (eval d st) g as)"
  by (induction as arbitrary: g) (auto intro!: chain_bind chains)

lemma apply_all_returns:
  "g \<in> reds st Ss (funs ps r) \<Longrightarrow> list_all2 (\<in>) as (map (reds st Ss) ps) \<Longrightarrow>
   returns (\<lambda>d. apply_all (eval d st) g as) (\<lambda>v. v \<in> reds st Ss r)"
proof (induction ps arbitrary: g as)
  case Nil
  then show ?case by (auto intro!: returns_from)
next
  case (Cons p ps)
  then obtain a bs where as: "as = a # bs" "a \<in> reds st Ss p" "list_all2 (\<in>) bs (map (reds st Ss) ps)"
    by (auto simp: list_all2_Cons2)
  then have "returns (\<lambda>d. apply_val (eval d st) g a) (\<lambda>v. v \<in> reds st Ss (funs ps r))"
    using Cons.prems(1) by (simp add: applies_def)
  then show ?case
    unfolding as(1) apply_all.simps
    by (rule returns_bind [OF chain_apply chain_apply_all]) (rule Cons.IH [OF _ as(3)])
qed

lemma call_returns:
  assumes st: "store_total_data st" and meta: "verdicts_computed meta st" "meta h = Some v" "isTotal v"
    and h: "map_of (sdefs st) h = Some (DFunc (length s) (funs ps r) b qs)" and s: "list_all norec s"
    and as: "list_all2 (vty st) as (map (instT s) ps)" "list_all (data_ty st) (map (instT s) ps)"
  shows "returns (\<lambda>d. call st (eval d st) h as) (\<lambda>v. True)"
proof -
  let ?Ss = "map (reds st []) s"
  have ft: "ty_wf st (length s) False (funs ps r)"
    using store_data [OF _ h] checked_wf st by (fastforce simp: store_total_data_def)
  have "a \<in> reds st ?Ss p" if "p \<in> set ps" "vty st a (instT s p)" for a p
  proof -
    have w: "ty_wf st (length s) False p" using ft that(1) by (simp add: wf_funs list_all_iff)
    have "norec (instT s p)" by (rule norec_subst [OF wf_norec [OF w] s])
    then have "a \<in> reds st [] (instT s p)"
      using vty_reds [OF st that(2)] as(2) that(1) by (simp add: list_all_iff)
    then show ?thesis
      using reds_subst [OF w, where D = "dats st" and X = "\<lambda>Ss. {}" and Y = "\<lambda>Ss. {}" and Ss = "[]"] by simp
  qed
  then have "list_all2 (\<in>) as (map (reds st ?Ss) ps)"
    using as(1) by (auto simp: list_all2_conv_all_nth)
  moreover have "returns (\<lambda>d. eval_def st (eval d st) h) (\<lambda>v. v \<in> reds st ?Ss (funs ps r))"
    using total_ref [OF st meta] h by (simp add: ref_ok_def)
  ultimately have "returns (\<lambda>d. call st (eval d st) h as) (\<lambda>v. v \<in> reds st ?Ss r)"
    unfolding call_def
    by (intro returns_bind [OF chain_def_body chain_apply_all, where P = "\<lambda>v. v \<in> reds st ?Ss (funs ps r)"])
      (auto intro: apply_all_returns)
  then show ?thesis by (rule returns_mono) simp
qed

text \<open>Once the budgets suffice, the verdict stays.\<close>

lemma returns_verdict:
  assumes ms: "chain ms" and m: "returns ms P"
  shows "\<exists>d0 f0 q. \<not> budget_error q \<and> (\<forall>v. q = Inr v \<longrightarrow> P v) \<and> (\<forall>d \<ge> d0. \<forall>f \<ge> f0. fst (ms d f) = q)"
proof -
  obtain d f q f' where m: "ms d f = (q, f')" "\<not> budget_error q" "\<forall>v. q = Inr v \<longrightarrow> P v"
    using m unfolding returns_def by blast
  have "fst (ms e g) = q" if "d \<le> e" "f \<le> g" for e g
  proof -
    have "ms e (f + (g - f)) = (q, f' + (g - f))"
      using ms m that by (intro refines_evD [of "ms d"]) (simp_all add: chain_def)
    then show ?thesis by simp
  qed
  with m(2,3) show ?thesis by blast
qed

lemma chain_call: "chain (\<lambda>d. call st (eval d st) h as)"
  unfolding call_def by (rule chain_bind [OF chain_def_body chain_apply_all])

end
