(* ===== verification/NegativeData.thy ===== *)
theory NegativeData
  imports EvalProps Termination
begin

text \<open>
  A data type that refers to itself to the left of an arrow, inside the argument of a
  container that is not arrow-free, and passes \<^verbatim>\<open>strictlyPositiveTy\<close>: the argument of the
  container is visited as negative, and the domain of the arrow in it flips that back to
  positive. With it a term without references and without self-calls diverges.
\<close>

definition wrapHash :: hash where
  "wrapHash = replicate 64 CHR ''a''"

definition negHash :: hash where
  "negHash = replicate 64 CHR ''b''"

definition loopHash :: hash where
  "loopHash = replicate 64 CHR ''c''"

text \<open>\<^verbatim>\<open>data Wrap a = MkWrap (Int -> a)\<close> and \<^verbatim>\<open>data Neg = MkNeg (Wrap (Neg -> Int))\<close>.\<close>

definition wrapDef :: "def" where
  "wrapDef = DData 1 [[TFun TInt (TVar 0)]]"

definition negDef :: "def" where
  "negDef = DData 0 [[TData wrapHash [TFun (TRec []) TInt]]]"

text \<open>The function \<^verbatim>\<open>\<lambda>x. case x of MkNeg (MkWrap f) -> f 0 x\<close>, and its application to itself.\<close>

definition selfBody :: trm where
  "selfBody = Match negHash (Var 0) [Match wrapHash (Var 0) [App (App (Var 0) (IntL 0)) (Var 2)]]"

definition selfApp :: trm where
  "selfApp = Lam (TData negHash []) selfBody"

definition loopBody :: trm where
  "loopBody = App selfApp
     (Ctor negHash 0 [] [Ctor wrapHash 0 [TFun (TData negHash []) TInt] [Lam TInt selfApp]])"

definition loopDef :: "def" where
  "loopDef = DFunc 0 TInt loopBody []"

definition negStore :: store where
  "negStore = \<lparr>sdefs = [(loopHash, loopDef), (negHash, negDef), (wrapHash, wrapDef)], slist = None\<rparr>"

definition negVal :: val where
  "negVal = VData negHash 0 [VData wrapHash 0 [VClos [] TInt selfApp loopHash]]"

text \<open>Runs that spend a budget, and runs that do or return a given value.\<close>

definition spent :: "'a ev \<Rightarrow> bool" where
  "spent m \<longleftrightarrow> (\<forall>f. budget_error (fst (m f)))"

definition spent_or :: "'a ev \<Rightarrow> 'a \<Rightarrow> bool" where
  "spent_or m v \<longleftrightarrow> (\<forall>f. budget_error (fst (m f)) \<or> fst (m f) = Inr v)"

lemma spent_bind:
  assumes "spent_or m v" "spent (k v)"
  shows "spent (ebind m k)"
  unfolding spent_def
proof
  fix f
  obtain r g where m: "m f = (r, g)" by fastforce
  with assms show "budget_error (fst (ebind m k f))"
    by (cases r) (auto simp: spent_def spent_or_def ebind_def dest: spec [of _ f])
qed

lemma spent_or_bind:
  assumes "spent_or m v" "spent_or (k v) w"
  shows "spent_or (ebind m k) w"
  unfolding spent_or_def
proof
  fix f
  obtain r g where m: "m f = (r, g)" by fastforce
  then have "budget_error r \<or> r = Inr v"
    using assms(1) unfolding spent_or_def by (metis fst_conv)
  moreover have "budget_error (fst (k v g)) \<or> fst (k v g) = Inr w"
    using assms(2) by (simp add: spent_or_def)
  ultimately show "budget_error (fst (ebind m k f)) \<or> fst (ebind m k f) = Inr w"
    using m by (cases r) (auto simp: ebind_def)
qed

lemma spent_or_from: "spent_or (efrom (Inr v)) v"
  by (simp add: spent_or_def efrom_def)

lemma spent_or_tick: "spent_or tick ()"
  by (simp add: spent_or_def tick_def)

lemma spent_or_eval:
  assumes "\<And>d. spent_or (evalInner st (eval d st) env slf t) v"
  shows "spent_or (eval d st env slf t) v"
proof (cases d)
  case 0
  then show ?thesis by (simp add: spent_or_def efrom_def)
next
  case (Suc e)
  show ?thesis unfolding Suc eval.simps by (rule spent_or_bind [OF spent_or_tick assms])
qed

lemma spent_eval:
  assumes "\<And>e. d = Suc e \<Longrightarrow> spent (evalInner st (eval e st) env slf t)"
  shows "spent (eval d st env slf t)"
proof (cases d)
  case 0
  then show ?thesis by (simp add: spent_def efrom_def)
next
  case (Suc e)
  show ?thesis unfolding Suc eval.simps by (rule spent_bind [OF spent_or_tick assms [OF Suc]])
qed

lemma spent_or_var: "i < length env \<Longrightarrow> spent_or (eval d st env slf (Var i)) (env ! i)"
  by (rule spent_or_eval) (simp add: spent_or_from)

lemma spent_or_lam: "spent_or (eval d st env slf (Lam p b)) (VClos env p b slf)"
  by (rule spent_or_eval) (simp add: spent_or_from)

lemma spent_or_int: "spent_or (eval d st env slf (IntL x)) (VInt x)"
  by (rule spent_or_eval) (simp add: spent_or_from)

lemma spent_match:
  assumes "env ! i = VData g 0 vs" "i < length env"
    and "\<And>e. e < d \<Longrightarrow> spent (eval e st (foldl pushEnv env vs) slf a)"
  shows "spent (eval d st env slf (Match h (Var i) [a]))"
  by (rule spent_eval, unfold evalInner.simps, rule spent_bind [OF spent_or_var [OF assms(2)]])
    (simp add: assms)

text \<open>Each call of the function on the value leads to the same call.\<close>

lemma self_diverges: "spent (apply_val (eval d st) (VClos env p selfBody h) negVal)"
proof (induction d arbitrary: env p h rule: less_induct)
  case (less d)
  let ?f = "VClos [] TInt selfApp loopHash" and ?g = "VClos [VInt 0] (TData negHash []) selfBody loopHash"
  let ?env = "?f # VData wrapHash 0 [?f] # negVal # env"
  have fun0: "spent_or (eval e st ?env h (App (Var 0) (IntL 0))) ?g" for e
  proof (rule spent_or_eval, unfold evalInner.simps)
    fix d
    have "spent_or (apply_val (eval d st) ?f (VInt 0)) ?g"
      unfolding apply_val_def
      by (rule spent_or_bind [OF spent_or_tick])
        (simp add: apply_body_def pushEnv_def selfApp_def spent_or_lam)
    moreover have "spent_or (eval d st ?env h (Var 0)) ?f"
      using spent_or_var [of 0 ?env d st h] by simp
    ultimately show "spent_or (ebind (eval d st ?env h (Var 0))
        (\<lambda>g. ebind (eval d st ?env h (IntL 0)) (\<lambda>v. apply_val (eval d st) g v))) ?g"
      by - (rule spent_or_bind, assumption, rule spent_or_bind, rule spent_or_int, assumption)
  qed
  have inner: "spent (eval e st ?env h (App (App (Var 0) (IntL 0)) (Var 2)))" if "e < d" for e
  proof (rule spent_eval, unfold evalInner.simps, rule spent_bind [OF fun0])
    fix k
    assume "e = Suc k"
    then have "spent (apply_val (eval k st) ?g negVal)" using that by (intro less.IH) simp
    then show "spent (ebind (eval k st ?env h (Var 2)) (\<lambda>v. apply_val (eval k st) ?g v))"
      using spent_or_var [of 2 ?env k st h] by (intro spent_bind) auto
  qed
  have "spent (eval d st (negVal # env) h selfBody)"
    unfolding selfBody_def
  proof (rule spent_match [of "negVal # env" 0 negHash "[VData wrapHash 0 [?f]]"])
    fix e
    assume e: "e < d"
    show "spent (eval e st (foldl pushEnv (negVal # env) [VData wrapHash 0 [?f]]) h
        (Match wrapHash (Var 0) [App (App (Var 0) (IntL 0)) (Var 2)]))"
      by (rule spent_match [where g = wrapHash and vs = "[?f]"]) (use inner e in \<open>simp_all add: pushEnv_def\<close>)
  qed (simp_all add: negVal_def)
  then show ?case
    unfolding apply_val_def
    by (intro spent_bind [OF spent_or_tick]) (simp add: apply_body_def pushEnv_def)
qed

lemma loop_diverges: "spent (eval d st [] loopHash loopBody)"
proof (unfold loopBody_def, rule spent_eval, unfold evalInner.simps)
  fix e
  let ?c = "Ctor negHash 0 [] [Ctor wrapHash 0 [TFun (TData negHash []) TInt] [Lam TInt selfApp]]"
  have w: "spent_or (eval k st [] loopHash (Ctor wrapHash 0 ts [Lam TInt selfApp]))
      (VData wrapHash 0 [VClos [] TInt selfApp loopHash])" for k ts
    by (rule spent_or_eval, unfold evalInner.simps eval_list.simps)
      (rule spent_or_bind, rule spent_or_bind, rule spent_or_lam, rule spent_or_bind, (rule spent_or_from)+)
  have c: "spent_or (eval k st [] loopHash ?c) negVal" for k
    unfolding negVal_def
    by (rule spent_or_eval, unfold evalInner.simps eval_list.simps)
      (rule spent_or_bind, rule spent_or_bind, rule w, rule spent_or_bind, (rule spent_or_from)+)
  have "spent_or (eval e st [] loopHash selfApp) (VClos [] (TData negHash []) selfBody loopHash)"
    unfolding selfApp_def by (rule spent_or_lam)
  then show "spent (ebind (eval e st [] loopHash selfApp)
      (\<lambda>g. ebind (eval e st [] loopHash ?c) (\<lambda>v. apply_val (eval e st) g v)))"
    by - (rule spent_bind, assumption, rule spent_bind, rule c, rule self_diverges)
qed

end
