(* ===== verification/Positivity.thy ===== *)
theory Positivity
  imports CheckDef
begin

text \<open>
  Strict positivity as \<^verbatim>\<open>docs/SPEC.md\<close> has it, apart from the code: \<^verbatim>\<open>rec\<close> must not be in a
  negative position, where the domain of an arrow flips the polarity, a data type from which no
  arrow can be reached keeps it, and the arguments of any other data type are negative
  positions whatever is around \<^verbatim>\<open>rec\<close> in them.
\<close>

fun has_rec :: "ty \<Rightarrow> bool" where
  "has_rec (TRec ts) = True"
| "has_rec (TFun a b) = (has_rec a \<or> has_rec b)"
| "has_rec (TData h ts) = list_ex has_rec ts"
| "has_rec (TRecord ns ts) = list_ex has_rec ts"
| "has_rec _ = False"

fun forbidden :: "store \<Rightarrow> ty \<Rightarrow> bool \<Rightarrow> bool" where
  "forbidden st (TRec ts) neg \<longleftrightarrow> neg \<or> list_ex (\<lambda>t. forbidden st t neg) ts"
| "forbidden st (TFun a b) neg \<longleftrightarrow> forbidden st a (\<not> neg) \<or> forbidden st b neg"
| "forbidden st (TRecord ns ts) neg \<longleftrightarrow> list_ex (\<lambda>t. forbidden st t neg) ts"
| "forbidden st (TData h ts) neg \<longleftrightarrow>
     (if arrowy st h then list_ex has_rec ts else list_ex (\<lambda>t. forbidden st t neg) ts)"
| "forbidden st _ neg \<longleftrightarrow> False"

text \<open>No argument of a data type from which an arrow can be reached holds an arrow itself.\<close>

fun arrows_apart :: "store \<Rightarrow> ty \<Rightarrow> bool" where
  "arrows_apart st (TData h ts) \<longleftrightarrow>
     (arrowy st h \<longrightarrow> \<not> list_ex tyHasFun ts) \<and> list_all (arrows_apart st) ts"
| "arrows_apart st (TRec ts) \<longleftrightarrow> list_all (arrows_apart st) ts"
| "arrows_apart st (TRecord ns ts) \<longleftrightarrow> list_all (arrows_apart st) ts"
| "arrows_apart st (TFun a b) \<longleftrightarrow> arrows_apart st a \<and> arrows_apart st b"
| "arrows_apart st _ \<longleftrightarrow> True"

lemma rec_occurs_has_rec: "rec_occurs st t neg p \<Longrightarrow> has_rec t"
  by (induction rule: rec_occurs.induct) (auto simp: list_ex_iff)

text \<open>Without an arrow the polarity stays what it is.\<close>

lemma has_rec_occurs: "has_rec t \<Longrightarrow> \<not> tyHasFun t \<Longrightarrow> rec_occurs st t True True"
  by (induction t) (auto simp: rec_occurs_simps list_ex_iff)

lemma occurs_forbidden: "rec_occurs st t neg True \<Longrightarrow> forbidden st t neg"
proof (induction t arbitrary: neg)
  case (TData h ts)
  then obtain a where a: "a \<in> set ts" "rec_occurs st a (neg \<or> arrowy st h) True" by (auto simp: rec_occurs_simps)
  then show ?case using TData.IH [OF a] rec_occurs_has_rec [OF a(2)] a(1) by (auto simp: list_ex_iff)
qed (auto simp: rec_occurs_simps list_ex_iff)

lemma forbidden_occurs: "arrows_apart st t \<Longrightarrow> forbidden st t neg \<Longrightarrow> rec_occurs st t neg True"
proof (induction t arbitrary: neg)
  case (TData h ts)
  show ?case
  proof (cases "arrowy st h")
    case True
    then obtain a where "a \<in> set ts" "has_rec a" "\<not> tyHasFun a" using TData.prems by (auto simp: list_ex_iff)
    then show ?thesis using True has_rec_occurs [of a st] by (auto simp: rec_occurs_simps)
  next
    case False
    then obtain a where "a \<in> set ts" "arrows_apart st a" "forbidden st a neg"
      using TData.prems by (auto simp: list_ex_iff list_all_iff)
    then show ?thesis using False TData.IH by (auto simp: rec_occurs_simps)
  qed
qed (auto simp: rec_occurs_simps list_ex_iff list_all_iff)

lemma allowed_accepted:
  "cs \<noteq> [] \<Longrightarrow> \<forall>fs \<in> set cs. \<forall>t \<in> set fs. ty_wf st n True t \<and> \<not> forbidden st t False \<Longrightarrow>
   checkDef st (DData n cs) = Inr (DData n cs)"
  using occurs_forbidden [of st _ False] by (simp add: checkDef_data del: checkDef.simps) blast

lemma accepted_allowed:
  "\<forall>fs \<in> set cs. list_all (arrows_apart st) fs \<Longrightarrow> checkDef st (DData n cs) = Inr d \<Longrightarrow>
   d = DData n cs \<and> cs \<noteq> [] \<and> (\<forall>fs \<in> set cs. \<forall>t \<in> set fs. ty_wf st n True t \<and> \<not> forbidden st t False)"
  using forbidden_occurs by (fastforce simp: checkDef_data list_all_iff simp del: checkDef.simps)

end
