(* ===== verification/Meta.thy ===== *)
theory Meta
  imports Syntax
begin

text \<open>
  The metadata of a definition, \<^verbatim>\<open>oath/ast.go\<close>: what is known of an object and what it is called.
  The naming fields belong to a name, the verdict fields to the hash. A string field that may
  be empty in the Go code is a string here, a map is a partial function.
\<close>

datatype level = Asserted | Tested | Falsified | Proven

record guarantee =
  glevel :: level
  gcases :: nat
  gproven :: nat
  gfalsified :: "string list"
  gindeterminate :: "string list"

record alias_naming =
  al_tyvars :: "string list"
  al_ctors :: "string list"
  al_props :: "string list"
  al_params :: "string list"

record waived_mutant =
  wm_hash :: hash
  wm_desc :: string
  wm_reason :: string
  wm_by :: string
  wm_artifact :: string

record hint_ref =
  hint_def :: hash
  hint_prop :: nat

record meta =
  mname :: string
  tyvar_names :: "string list"
  ctor_names :: "string list"
  prop_names :: "string list"
  aliases :: "string \<Rightarrow> alias_naming option"
  guarantee :: guarantee
  mutants_killed :: nat
  mutants_total :: nat
  waived :: "waived_mutant list"
  campaign :: string
  mtermination :: string
  spec_author :: string
  body_author :: string
  mauthor :: string
  param_names :: "string list"
  mconfinement :: "string list"
  proven_props :: "nat list"
  hints :: "nat \<Rightarrow> hint_ref list option"

text \<open>A guarantee with its level alone, as the Go literal leaves the other fields zero.\<close>

definition guarantee0 :: "level \<Rightarrow> guarantee" where
  "guarantee0 l = \<lparr>glevel = l, gcases = 0, gproven = 0, gfalsified = [], gindeterminate = []\<rparr>"

text \<open>\<^verbatim>\<open>storedPropName\<close>: the stored name of a property, or \<^verbatim>\<open>prop\<close> with its index.\<close>

fun dec_str :: "nat \<Rightarrow> string" where
  "dec_str n = (if n < 10 then [char_of (48 + n)] else dec_str (n div 10) @ [char_of (48 + n mod 10)])"

declare dec_str.simps [simp del]

definition storedPropName :: "meta \<Rightarrow> nat \<Rightarrow> string" where
  "storedPropName m i = (if i < length (prop_names m) then prop_names m ! i else ''prop'' @ dec_str i)"

end
