(* ===== verification/Generator.thy ===== *)
theory Generator
  imports Eval
begin

text \<open>
  The deterministic generator of test inputs, \<^verbatim>\<open>oath/gen.go\<close>. The state threaded through a
  generation is the one word of the splitmix64 stream. The size is a recursion budget that
  the Go code floors at 0 on entry, so it is a natural number here and \<open>sz - 1\<close> is
  truncated. The Go recursion through the fields of data types has no bound of its own; here
  it carries a fuel, and \<open>GenProps\<close> shows that the fuel of \<open>genValue\<close> is never spent.
  \<open>GPanic\<close> stands for a division by zero, \<open>GFuel\<close> for spent fuel; the other errors are those
  of the code.
\<close>

unbundle bit_operations_syntax

datatype gerr = GGet hash | GNoBase hash | GKind ty | GPanic | GFuel

type_synonym rng = "64 word"
type_synonym 'a gen = "rng \<Rightarrow> (gerr + 'a) \<times> rng"

definition gret :: "'a \<Rightarrow> 'a gen" where
  "gret x r = (Inr x, r)"

definition gfail :: "gerr \<Rightarrow> 'a gen" where
  "gfail e r = (Inl e, r)"

definition gbind :: "'a gen \<Rightarrow> ('a \<Rightarrow> 'b gen) \<Rightarrow> 'b gen" where
  "gbind m k r = (case m r of (Inl e, r') \<Rightarrow> (Inl e, r') | (Inr x, r') \<Rightarrow> k x r')"

subsection \<open>The stream\<close>

definition mix64 :: "64 word \<Rightarrow> 64 word" where
  "mix64 s =
     (let z1 = (s XOR drop_bit 30 s) * 0xBF58476D1CE4E5B9;
          z2 = (z1 XOR drop_bit 27 z1) * 0x94D049BB133111EB
      in z2 XOR drop_bit 31 z2)"

definition rng_next :: "rng \<Rightarrow> 64 word \<times> rng" where
  "rng_next s = (let s' = s + 0x9E3779B97F4A7C15 in (mix64 s', s'))"

definition below_n :: "nat \<Rightarrow> nat gen" where
  "below_n n r =
     (case rng_next r of (x, r') \<Rightarrow>
        if n = 0 then (Inl GPanic, r') else (Inr (unat x mod n), r'))"

text \<open>
  The remainders are those of \<^verbatim>\<open>uint64\<close>: a Go \<^verbatim>\<open>int\<close> that is a count is below \<open>2 ^ 63\<close>, and all
  bounds of \<open>intIn\<close> in the source are constants with \<open>lo \<le> hi\<close>.
\<close>

definition intIn :: "int \<Rightarrow> int \<Rightarrow> int gen" where
  "intIn lo hi r = (case rng_next r of (x, r') \<Rightarrow> (Inr (lo + uint x mod (hi - lo + 1)), r'))"

subsection \<open>Values of ground types\<close>

definition int_boundary :: "int list" where
  "int_boundary = [-2, -1, 0, 1, 2]"

definition floatBoundary :: "64 word list" where
  "floatBoundary =
     [0x0000000000000000, 0x8000000000000000, 0x3FF0000000000000, 0xBFF0000000000000,
      0x3FE0000000000000, 0x4000000000000000, 0x7FF0000000000000, 0xFFF0000000000000,
      0x7FF8000000000001]"

definition gen_int :: "val gen" where
  "gen_int = gbind (below_n 4) (\<lambda>k.
     if k = 0 then gbind (below_n 5) (\<lambda>i. gret (VInt (int_boundary ! i)))
     else gbind (intIn (-20) 20) (\<lambda>x. gret (VInt x)))"

definition gen_rat :: "val gen" where
  "gen_rat = gbind (intIn (-8) 8) (\<lambda>num. gbind (intIn 1 5) (\<lambda>den. gret (VRat (Fract num den))))"

definition gen_float :: "val gen" where
  "gen_float = gbind (below_n 4) (\<lambda>k.
     if k = 0 then gbind (below_n 9) (\<lambda>i. gret (VFloat (canonFloat (floatBoundary ! i))))
     else gbind (intIn (-8) 8) (\<lambda>num. gbind (intIn 1 4) (\<lambda>den.
       gret (VFloat (f_div (f_of_int num) (f_of_int den))))))"

definition gen_bool :: "val gen" where
  "gen_bool = gbind (below_n 2) (\<lambda>k. gret (VBool (k = 0)))"

subsection \<open>Functions and records\<close>

fun gen_seq :: "val gen list \<Rightarrow> val list gen" where
  "gen_seq [] = gret []"
| "gen_seq (g # gs) = gbind g (\<lambda>v. gbind (gen_seq gs) (\<lambda>vs. gret (v # vs)))"

text \<open>The loop that fills a table: a key, then the value it is mapped to.\<close>

fun gen_pairs :: "nat \<Rightarrow> val gen \<Rightarrow> val gen \<Rightarrow> (val list \<times> val list) gen" where
  "gen_pairs 0 gk gv = gret ([], [])"
| "gen_pairs (Suc n) gk gv =
     gbind gk (\<lambda>k. gbind gv (\<lambda>v. gbind (gen_pairs n gk gv) (\<lambda>(ks, vs). gret (k # ks, v # vs))))"

definition gen_table :: "val gen \<Rightarrow> val gen \<Rightarrow> val gen" where
  "gen_table gk gv = gbind (below_n 3) (\<lambda>n. gbind (gen_pairs (1 + n) gk gv) (\<lambda>(ks, vs).
     gbind gv (\<lambda>d. gret (VTable ks vs d))))"

definition gen_int_fun :: "val gen \<Rightarrow> val gen" where
  "gen_int_fun tbl = gbind (below_n 4) (\<lambda>k.
     if k = 0 then gret VId
     else if k = 1 \<or> k = 2
     then gbind (intIn (-3) 3) (\<lambda>a. gbind (intIn (-10) 10) (\<lambda>b. gret (VAffine a b)))
     else tbl)"

subsection \<open>Data\<close>

fun tyMentionsHash :: "ty \<Rightarrow> hash \<Rightarrow> bool" where
  "tyMentionsHash (TData g ts) h = (g = h \<or> list_ex (\<lambda>t. tyMentionsHash t h) ts)"
| "tyMentionsHash (TFun a b) h = (tyMentionsHash a h \<or> tyMentionsHash b h)"
| "tyMentionsHash (TRec ts) h = list_ex (\<lambda>t. tyMentionsHash t h) ts"
| "tyMentionsHash (TRecord ns ts) h = list_ex (\<lambda>t. tyMentionsHash t h) ts"
| "tyMentionsHash _ h = False"

definition ctorRecursive :: "def \<Rightarrow> hash \<Rightarrow> ty list \<Rightarrow> nat \<Rightarrow> bool" where
  "ctorRecursive d h ts i = list_ex (\<lambda>f. tyMentionsHash f h) (instCtorFields d h ts i)"

definition gen_candidates :: "def \<Rightarrow> hash \<Rightarrow> ty list \<Rightarrow> nat \<Rightarrow> nat list" where
  "gen_candidates d h ts sz =
     (if sz = 0 then filter (\<lambda>i. \<not> ctorRecursive d h ts i) [0..<length (ctors_of d)]
      else [0..<length (ctors_of d)])"

text \<open>The generator \<open>rc\<close> of the fields is the recursive call.\<close>

definition gen_data :: "(nat \<Rightarrow> ty \<Rightarrow> val gen) \<Rightarrow> store \<Rightarrow> nat \<Rightarrow> hash \<Rightarrow> ty list \<Rightarrow> val gen" where
  "gen_data rc st sz h ts =
     (case GetDef st h of
        Inl e \<Rightarrow> gfail (GGet h)
      | Inr d \<Rightarrow>
          (let cand = gen_candidates d h ts sz in
           if sz = 0 \<and> cand = [] then gfail (GNoBase h)
           else gbind (below_n (length cand)) (\<lambda>j.
             gbind (gen_seq (map (rc (sz - 1)) (instCtorFields d h ts (cand ! j)))) (\<lambda>vs.
               gret (VData h (cand ! j) vs)))))"

fun gen_ty :: "(nat \<Rightarrow> ty \<Rightarrow> val gen) \<Rightarrow> store \<Rightarrow> nat \<Rightarrow> ty \<Rightarrow> val gen" where
  "gen_ty rc st sz TInt = gen_int"
| "gen_ty rc st sz TRat = gen_rat"
| "gen_ty rc st sz TFloat = gen_float"
| "gen_ty rc st sz TBool = gen_bool"
| "gen_ty rc st sz (TRecord ns ts) =
     gbind (gen_seq (map (gen_ty rc st sz) ts)) (\<lambda>vs. gret (VRecord ns vs))"
| "gen_ty rc st sz (TFun a b) =
     (if a = TInt \<and> b = TInt
      then gen_int_fun (gen_table (gen_ty rc st sz a) (gen_ty rc st sz b))
      else gen_table (gen_ty rc st sz a) (gen_ty rc st sz b))"
| "gen_ty rc st sz (TData h ts) = gen_data rc st sz h ts"
| "gen_ty rc st sz t = gfail (GKind t)"

primrec gen :: "nat \<Rightarrow> store \<Rightarrow> nat \<Rightarrow> ty \<Rightarrow> val gen" where
  "gen 0 st = gen_ty (\<lambda>sz t. gfail GFuel) st"
| "gen (Suc k) st = gen_ty (gen k st) st"

definition genValue :: "store \<Rightarrow> ty \<Rightarrow> nat \<Rightarrow> val gen" where
  "genValue st t sz = gen (sz + 2 ^ length (sdefs st)) st sz t"

end
