(* ===== verification/Testing.thy ===== *)
theory Testing
  imports Meta Generator
begin

text \<open>
  Property testing, \<^verbatim>\<open>oath/verify.go\<close>: the seeds and sizes of the cases of a property, the run of
  one property, and the guarantee that the runs of all properties of a definition record. The
  reason why a case has no verdict is the error itself, the counterexample the values
  themselves; both are rendered as text in the Go code.
\<close>

datatype outcome = PropPassed | PropFalsified | PropIndeterminate

datatype reason = RGen gerr | REval eerr | RNotBool

record prop_report =
  rname :: string
  routcome :: outcome
  rpassed :: nat
  rindet :: nat
  rcounter :: "val list option"
  rerr :: "reason option"

definition propCases :: nat where "propCases = 200"
definition propFuel :: int where "propFuel = 2000000"

subsection \<open>Inputs\<close>

text \<open>Slicing off the first 16 characters and reading 8 bytes panic on a shorter hash.\<close>

definition caseSeedBase :: "hash \<Rightarrow> 64 word option" where
  "caseSeedBase h =
     (case hex_decode (take 16 h) of
        None \<Rightarrow> None
      | Some b \<Rightarrow> if length b < 8 then None else Some (of_nat (be_nat b)))"

definition case_seed :: "64 word \<Rightarrow> nat \<Rightarrow> nat \<Rightarrow> 64 word" where
  "case_seed base ix c = base XOR push_bit 32 (of_nat ix) XOR (of_nat c * 0xD1B54A32D192ED03)"

definition genPropCase :: "store \<Rightarrow> property \<Rightarrow> 64 word \<Rightarrow> nat \<Rightarrow> nat \<Rightarrow> gerr + val list" where
  "genPropCase st p base ix c =
     fst (gen_seq (map (\<lambda>t. genValue st t (c mod 8)) (binders p)) (case_seed base ix c))"

subsection \<open>The run of a property\<close>

text \<open>One pass of the loop: no verdict with its reason, or the verdict on the inputs.\<close>

datatype case_result = NoVerdict reason | Verdict "val list" bool

definition prop_case :: "store \<Rightarrow> hash \<Rightarrow> property \<Rightarrow> 64 word \<Rightarrow> nat \<Rightarrow> int \<Rightarrow> nat \<Rightarrow> case_result" where
  "prop_case st h p base ix fuel c =
     (case genPropCase st p base ix c of
        Inl e \<Rightarrow> NoVerdict (RGen e)
      | Inr env \<Rightarrow>
          (case fst (run_eval st (rev env) h (pbody p) fuel) of
             Inl e \<Rightarrow> NoVerdict (REval e)
           | Inr v \<Rightarrow> (case v of VBool b \<Rightarrow> Verdict env b | _ \<Rightarrow> NoVerdict RNotBool)))"

definition noVerdict :: "reason \<Rightarrow> prop_report \<Rightarrow> prop_report" where
  "noVerdict why rep =
     rep\<lparr>rindet := rindet rep + 1,
         rerr := (case rerr rep of None \<Rightarrow> Some why | Some e \<Rightarrow> Some e)\<rparr>"

fun run_cases :: "(nat \<Rightarrow> case_result) \<Rightarrow> nat list \<Rightarrow> prop_report \<Rightarrow> prop_report" where
  "run_cases f [] rep = (if 0 < rindet rep then rep\<lparr>routcome := PropIndeterminate\<rparr> else rep)"
| "run_cases f (c # cs) rep =
     (case f c of
        NoVerdict why \<Rightarrow> run_cases f cs (noVerdict why rep)
      | Verdict env ok \<Rightarrow>
          if \<not> ok then rep\<lparr>routcome := PropFalsified, rcounter := Some env, rerr := None\<rparr>
          else run_cases f cs (rep\<lparr>rpassed := rpassed rep + 1\<rparr>))"

definition report0 :: "string \<Rightarrow> prop_report" where
  "report0 name = \<lparr>rname = name, routcome = PropPassed, rpassed = 0, rindet = 0, rcounter = None, rerr = None\<rparr>"

definition runProp ::
  "store \<Rightarrow> hash \<Rightarrow> property \<Rightarrow> string \<Rightarrow> 64 word \<Rightarrow> nat \<Rightarrow> nat \<Rightarrow> int \<Rightarrow> prop_report" where
  "runProp st h p name base ix cases fuel =
     run_cases (prop_case st h p base ix fuel) [0..<cases] (report0 name)"

subsection \<open>Guarantees\<close>

datatype verr = VGetDef hash | VNotFunc | VNoMeta hash | VPanic

definition verifyReports ::
  "store \<Rightarrow> (hash \<Rightarrow> meta option) \<Rightarrow> hash \<Rightarrow> verr + (prop_report list \<times> property list \<times> meta)" where
  "verifyReports st metas h =
     (case GetDef st h of
        Inl e \<Rightarrow> Inl (VGetDef h)
      | Inr (DData n cs) \<Rightarrow> Inl VNotFunc
      | Inr (DFunc n t b ps) \<Rightarrow>
          (case metas h of
             None \<Rightarrow> Inl (VNoMeta h)
           | Some m \<Rightarrow>
               (case caseSeedBase h of
                  None \<Rightarrow> Inl VPanic
                | Some base \<Rightarrow>
                    Inr (map (\<lambda>ix. runProp st h (ps ! ix) (storedPropName m ix) base ix propCases propFuel)
                           [0..<length ps], ps, m))))"

definition names_with :: "outcome \<Rightarrow> prop_report list \<Rightarrow> string list" where
  "names_with oc reports = map rname (filter (\<lambda>r. routcome r = oc) reports)"

definition guaranteeFromReports :: "property list \<Rightarrow> prop_report list \<Rightarrow> guarantee" where
  "guaranteeFromReports ps reports =
     (if ps = [] then guarantee0 Asserted
      else
        let falsified = names_with PropFalsified reports;
            indeterminate = names_with PropIndeterminate reports
        in if falsified \<noteq> []
           then (guarantee0 Falsified)\<lparr>gfalsified := falsified, gindeterminate := indeterminate\<rparr>
           else if indeterminate \<noteq> [] then (guarantee0 Asserted)\<lparr>gindeterminate := indeterminate\<rparr>
           else (guarantee0 Tested)\<lparr>gcases := propCases\<rparr>)"

definition resolveLevel :: "level \<Rightarrow> level \<Rightarrow> bool \<Rightarrow> level" where
  "resolveLevel computed prev allProven =
     (if computed = Falsified then Falsified
      else if prev = Proven \<and> allProven then Proven
      else computed)"

text \<open>The metadata that \<^verbatim>\<open>verifyDef\<close> writes back.\<close>

definition verified_meta :: "property list \<Rightarrow> prop_report list \<Rightarrow> meta \<Rightarrow> meta" where
  "verified_meta ps reports m =
     (let g = guaranteeFromReports ps reports;
          allProven = (0 < length ps \<and> length (proven_props m) = length ps);
          lv = resolveLevel (glevel g) (glevel (guarantee m)) allProven;
          m1 = m\<lparr>guarantee := g\<lparr>glevel := lv\<rparr>\<rparr>
      in if lv = Falsified then m1\<lparr>proven_props := []\<rparr>
         else m1\<lparr>guarantee := (guarantee m1)\<lparr>gproven := length (proven_props m1)\<rparr>\<rparr>)"

definition verifyDef ::
  "store \<Rightarrow> (hash \<Rightarrow> meta option) \<Rightarrow> hash \<Rightarrow> verr + (prop_report list \<times> (hash \<Rightarrow> meta option))" where
  "verifyDef st metas h =
     (case verifyReports st metas h of
        Inl e \<Rightarrow> Inl e
      | Inr (reports, ps, m) \<Rightarrow> Inr (reports, metas(h \<mapsto> verified_meta ps reports m)))"

end
