(* ===== verification/GenProps.thy ===== *)
theory GenProps
  imports Generator Soundness Reducible
begin

text \<open>
  What \<^verbatim>\<open>oath/gen.go\<close> generates: values of the requested type, always after finitely many
  steps, deterministically from a seed that differs for every case of a property.
\<close>

subsection \<open>Outcomes of a generation\<close>

definition gyields :: "('a \<Rightarrow> bool) \<Rightarrow> (gerr \<Rightarrow> bool) \<Rightarrow> 'a gen \<Rightarrow> bool" where
  "gyields P Q m \<longleftrightarrow> (\<forall>r. case fst (m r) of Inl e \<Rightarrow> Q e | Inr x \<Rightarrow> P x)"

lemma gyields_ret [simp]: "gyields P Q (gret x) \<longleftrightarrow> P x"
  by (simp add: gyields_def gret_def)

lemma gyields_fail [simp]: "gyields P Q (gfail e) \<longleftrightarrow> Q e"
  by (simp add: gyields_def gfail_def)

lemma gyields_bind:
  assumes m: "gyields P Q m" and k: "\<And>x. P x \<Longrightarrow> gyields R Q (k x)"
  shows "gyields R Q (gbind m k)"
  unfolding gyields_def
proof
  fix r
  have "case fst (m r) of Inl e \<Rightarrow> Q e | Inr x \<Rightarrow> P x"
    using m by (simp add: gyields_def)
  moreover have "case fst (k x r') of Inl e \<Rightarrow> Q e | Inr y \<Rightarrow> R y" if "P x" for x r'
    using k [OF that] by (simp add: gyields_def)
  then have "fst (k x r') = Inl e \<Longrightarrow> P x \<Longrightarrow> Q e" "fst (k x r') = Inr y \<Longrightarrow> P x \<Longrightarrow> R y" for x r' e y
    by (metis old.sum.simps(5), metis old.sum.simps(6))
  ultimately show "case fst (gbind m k r) of Inl e \<Rightarrow> Q e | Inr y \<Rightarrow> R y"
    by (auto simp: gbind_def split: prod.splits sum.splits)
qed

lemma gyields_mono:
  "gyields P Q m \<Longrightarrow> (\<And>x. P x \<Longrightarrow> P' x) \<Longrightarrow> (\<And>e. Q e \<Longrightarrow> Q' e) \<Longrightarrow> gyields P' Q' m"
  unfolding gyields_def by (auto split: sum.splits)

lemma gyieldsD: "gyields P Q m \<Longrightarrow> fst (m r) = Inr x \<Longrightarrow> P x"
  by (auto simp: gyields_def split: sum.splits)

lemma gyields_errorD: "gyields P Q m \<Longrightarrow> fst (m r) = Inl e \<Longrightarrow> Q e"
  by (auto simp: gyields_def split: sum.splits)

text \<open>Draws stay in their range.\<close>

lemma gyields_below: "0 < n \<Longrightarrow> gyields (\<lambda>i. i < n) Q (below_n n)"
  by (simp add: gyields_def below_n_def split: prod.split)

lemma gyields_intIn:
  assumes "lo \<le> hi"
  shows "gyields (\<lambda>i. i \<in> {lo..hi}) Q (intIn lo hi)"
proof -
  have "0 \<le> x mod (hi - lo + 1) \<and> x mod (hi - lo + 1) < hi - lo + 1" for x
    using assms pos_mod_bound [of "hi - lo + 1" x] by simp
  then have "lo + x mod (hi - lo + 1) \<in> {lo..hi}" for x
    by (smt (verit) atLeastAtMost_iff)
  then show ?thesis by (simp add: gyields_def intIn_def split: prod.split)
qed

lemma gyields_seq:
  "list_all2 (\<lambda>g P. gyields P Q g) gs Ps \<Longrightarrow> gyields (\<lambda>vs. list_all2 (\<lambda>v P. P v) vs Ps) Q (gen_seq gs)"
proof (induction rule: list_all2_induct)
  case (Cons g gs P Ps)
  show ?case
    unfolding gen_seq.simps
    by (rule gyields_bind [OF Cons.hyps(1)], rule gyields_bind [OF Cons.IH]) simp
qed simp

lemma gyields_pairs:
  "gyields P Q gk \<Longrightarrow> gyields R Q gv \<Longrightarrow>
   gyields (\<lambda>(ks, vs). length ks = length vs \<and> list_all P ks \<and> list_all R vs) Q (gen_pairs n gk gv)"
proof (induction n)
  case (Suc n)
  show ?case
    unfolding gen_pairs.simps
    by (rule gyields_bind [OF Suc.prems(1)], rule gyields_bind [OF Suc.prems(2)],
        rule gyields_bind [OF Suc.IH [OF Suc.prems]]) auto
qed simp

subsection \<open>Generated values are typed\<close>

definition gen_error :: "gerr \<Rightarrow> bool" where
  "gen_error e \<longleftrightarrow> e = GFuel \<or> (\<exists>h. e = GNoBase h)"

abbreviation gtyped :: "store \<Rightarrow> ty \<Rightarrow> val gen \<Rightarrow> bool" where
  "gtyped st t \<equiv> gyields (\<lambda>v. vty st v t) gen_error"

lemma gtyped_int: "gyields (\<lambda>v. vty st v TInt) Q gen_int"
  unfolding gen_int_def
proof (rule gyields_bind [OF gyields_below])
  fix k :: nat
  show "gyields (\<lambda>v. vty st v TInt) Q (if k = 0 then gbind (below_n 5) (\<lambda>i. gret (VInt (int_boundary ! i)))
      else gbind (intIn (-20) 20) (\<lambda>x. gret (VInt x)))"
    by (auto intro!: gyields_bind [OF gyields_below] gyields_bind [OF gyields_intIn] vty_Int)
qed simp

lemma gtyped_rat: "gyields (\<lambda>v. vty st v TRat) Q gen_rat"
  unfolding gen_rat_def
  by (auto intro!: gyields_bind [OF gyields_intIn] vty_Rat)

lemma gtyped_float: "gyields (\<lambda>v. vty st v TFloat) Q gen_float"
  unfolding gen_float_def
proof (rule gyields_bind [OF gyields_below])
  fix k :: nat
  show "gyields (\<lambda>v. vty st v TFloat) Q (if k = 0
      then gbind (below_n 9) (\<lambda>i. gret (VFloat (canonFloat (floatBoundary ! i))))
      else gbind (intIn (-8) 8) (\<lambda>num. gbind (intIn 1 4) (\<lambda>den.
        gret (VFloat (f_div (f_of_int num) (f_of_int den))))))"
    by (auto intro!: gyields_bind [OF gyields_below] gyields_bind [OF gyields_intIn] vty_Float)
qed simp

lemma gtyped_bool: "gyields (\<lambda>v. vty st v TBool) Q gen_bool"
  unfolding gen_bool_def
  by (rule gyields_bind [OF gyields_below]) (simp_all add: vty_Bool)

lemma gtyped_table:
  assumes "gtyped st a ga" "gtyped st b gb"
  shows "gtyped st (TFun a b) (gen_table ga gb)"
  unfolding gen_table_def
proof (rule gyields_bind [OF gyields_below])
  fix n :: nat
  show "gtyped st (TFun a b) (gbind (gen_pairs (1 + n) ga gb) (\<lambda>(ks, vs).
      gbind gb (\<lambda>d. gret (VTable ks vs d))))"
  proof (rule gyields_bind [OF gyields_pairs [OF assms]])
    fix p :: "val list \<times> val list"
    assume "case p of (ks, vs) \<Rightarrow>
      length ks = length vs \<and> list_all (\<lambda>v. vty st v a) ks \<and> list_all (\<lambda>v. vty st v b) vs"
    then show "gtyped st (TFun a b) (case p of (ks, vs) \<Rightarrow> gbind gb (\<lambda>d. gret (VTable ks vs d)))"
      by (auto split: prod.split intro!: gyields_bind [OF assms(2)] vty_Table)
  qed
qed simp

lemma gtyped_int_fun:
  assumes "gtyped st (TFun TInt TInt) tbl"
  shows "gtyped st (TFun TInt TInt) (gen_int_fun tbl)"
  unfolding gen_int_fun_def
proof (rule gyields_bind [OF gyields_below])
  fix k :: nat
  show "gtyped st (TFun TInt TInt) (if k = 0 then gret VId
      else if k = 1 \<or> k = 2
      then gbind (intIn (-3) 3) (\<lambda>a. gbind (intIn (-10) 10) (\<lambda>b. gret (VAffine a b)))
      else tbl)"
    using assms by (auto intro!: gyields_bind [OF gyields_intIn] vty_Id vty_Affine)
qed simp

lemma gtyped_seq:
  assumes "\<forall>t \<in> set ts. gtyped st t (g t)"
  shows "gyields (\<lambda>vs. list_all2 (vty st) vs ts) gen_error (gen_seq (map g ts))"
proof -
  have "list_all2 (\<lambda>m P. gyields P gen_error m) (map g ts) (map (\<lambda>t v. vty st v t) ts)"
    using assms by (auto simp: list_all2_map1 list_all2_map2 intro: list.rel_refl_strong)
  from gyields_seq [OF this] show ?thesis
    by (simp add: list_all2_map2)
qed

lemma gen_candidates_less: "i \<in> set (gen_candidates d h ts sz) \<Longrightarrow> i < length (ctors_of d)"
  by (auto simp: gen_candidates_def split: if_splits)

lemma gtyped_data:
  assumes st: "store_wf st" and wf: "ty_wf st 0 False (TData h ts)"
    and rc: "\<And>sz t. ty_wf st 0 False t \<Longrightarrow> gtyped st t (rc sz t)"
  shows "gtyped st (TData h ts) (gen_data rc st sz h ts)"
proof -
  obtain cs where h: "map_of (sdefs st) h = Some (DData (length ts) cs)"
    and ts: "list_all (ty_wf st 0 False) ts"
    using wf by (auto split: option.splits def.splits)
  have "def_wf st (DData (length ts) cs)"
    using st h by (rule store_data)
  then have cs: "cs \<noteq> []" by simp
  let ?d = "DData (length ts) cs"
  let ?cand = "gen_candidates ?d h ts sz"
  have ne: "?cand \<noteq> []" if "\<not> (sz = 0 \<and> ?cand = [])"
    using that cs by (auto simp: gen_candidates_def ctors_of_def)
  have one: "gtyped st (TData h ts) (gbind (gen_seq (map (rc (sz - 1)) (instCtorFields ?d h ts (?cand ! j))))
      (\<lambda>vs. gret (VData h (?cand ! j) vs)))" if "j < length ?cand" for j
  proof -
    have i: "?cand ! j < length cs"
      using gen_candidates_less [OF nth_mem [OF that]] by (simp add: ctors_of_def)
    have "list_all (ty_wf st 0 False) (instCtorFields ?d h ts (?cand ! j))"
      using instCtorFields_wf [OF st h i ts] .
    then have "\<forall>t \<in> set (instCtorFields ?d h ts (?cand ! j)). gtyped st t (rc (sz - 1) t)"
      using rc by (simp add: list_all_iff)
    from gtyped_seq [OF this] show ?thesis
      by (rule gyields_bind) (simp add: vty_Data [OF h i])
  qed
  have "gtyped st (TData h ts) (gbind (below_n (length ?cand)) (\<lambda>j.
      gbind (gen_seq (map (rc (sz - 1)) (instCtorFields ?d h ts (?cand ! j))))
        (\<lambda>vs. gret (VData h (?cand ! j) vs))))" if "\<not> (sz = 0 \<and> ?cand = [])"
    using ne [OF that] one by (intro gyields_bind [OF gyields_below]) auto
  moreover have "GetDef st h = Inr ?d" using h by simp
  ultimately show ?thesis by (auto simp: gen_data_def Let_def gen_error_def simp del: GetDef_Inr)
qed

lemma gen_ty_typed:
  assumes st: "store_wf st" and rc: "\<And>sz t. ty_wf st 0 False t \<Longrightarrow> gtyped st t (rc sz t)"
  shows "ty_wf st 0 False t \<Longrightarrow> gtyped st t (gen_ty rc st sz t)"
proof (induction t)
  case (TFun a b)
  then show ?case using gtyped_table gtyped_int_fun by (auto split: if_splits)
next
  case (TData h ts)
  then show ?case using gtyped_data [OF st _ rc] by simp
next
  case (TRecord ns ts)
  have "gyields (\<lambda>vs. list_all2 (vty st) vs ts) gen_error (gen_seq (map (gen_ty rc st sz) ts))"
    using TRecord by (intro gtyped_seq) (auto simp: list_all_iff)
  then show ?case
    unfolding gen_ty.simps
    by (rule gyields_bind) (use TRecord.prems in \<open>auto intro!: vty_Record dest: list_all2_lengthD\<close>)
qed (simp_all add: gtyped_int gtyped_rat gtyped_float gtyped_bool)

lemma gen_typed:
  assumes st: "store_wf st"
  shows "ty_wf st 0 False t \<Longrightarrow> gtyped st t (gen k st sz t)"
proof (induction k arbitrary: sz t)
  case 0
  show ?case
    unfolding gen.simps by (rule gen_ty_typed [OF st _ 0]) (simp add: gen_error_def)
next
  case (Suc k)
  show ?case
    unfolding gen.simps by (rule gen_ty_typed [OF st Suc.IH Suc.prems])
qed

subsection \<open>Generation ends\<close>

text \<open>
  The rank of a definition is its position from the end of an ordered store: a definition
  only depends on definitions of lower rank. The weight of a set of hashes counts the
  definitions among them, each twice as heavy as the one below it, so replacing one by any
  set of lower ones makes it lighter.
\<close>

fun rank :: "(hash \<times> def) list \<Rightarrow> hash \<Rightarrow> nat" where
  "rank [] h = 0"
| "rank ((g, d) # ds) h = (if h = g then length ds else rank ds h)"

definition known :: "(hash \<times> def) list \<Rightarrow> hash set" where
  "known ds = fst ` set ds"

definition weight :: "(hash \<times> def) list \<Rightarrow> hash set \<Rightarrow> nat" where
  "weight ds S = (\<Sum>h \<in> S \<inter> known ds. 2 ^ rank ds h)"

lemma known_simps [simp]: "known [] = {}" "known ((g, d) # ds) = insert g (known ds)"
  by (simp_all add: known_def)

lemma finite_known [simp]: "finite (known ds)"
  by (simp add: known_def)

lemma known_map_of: "h \<in> known ds \<longleftrightarrow> (\<exists>d. map_of ds h = Some d)"
  by (metis known_def domD domI dom_map_of_conv_image_fst)

lemma rank_less: "h \<in> known ds \<Longrightarrow> rank ds h < length ds"
  by (induction ds h rule: rank.induct) auto

lemma rank_inj: "ordered ds \<Longrightarrow> inj_on (rank ds) (known ds)"
proof (induction ds)
  case (Cons x ds)
  obtain g d where x: "x = (g, d)" by fastforce
  have g: "g \<notin> known ds" and IH: "inj_on (rank ds) (known ds)"
    using Cons by (simp_all add: x known_def)
  have "\<forall>h \<in> known ds. h \<noteq> g \<and> rank ds h < length ds"
    using g rank_less by blast
  with IH show ?case by (auto simp: x inj_on_def)
qed simp

lemma deps_rank:
  "ordered ds \<Longrightarrow> map_of ds h = Some d \<Longrightarrow> g \<in> collectDeps d \<Longrightarrow> g \<in> known ds \<and> rank ds g < rank ds h"
proof (induction ds)
  case (Cons x ds)
  obtain k e where x: "x = (k, e)" by fastforce
  have k: "k \<notin> known ds" and e: "collectDeps e \<subseteq> known ds" and o: "ordered ds"
    using Cons.prems(1) by (simp_all add: x known_def)
  show ?case
  proof (cases "h = k")
    case True
    then have "g \<in> known ds" using Cons.prems(2,3) e by (auto simp: x)
    then show ?thesis using True k rank_less by (auto simp: x)
  next
    case False
    then have "g \<in> known ds \<and> rank ds g < rank ds h"
      using Cons.IH [OF o] Cons.prems(2,3) by (simp add: x)
    with False k show ?thesis by (auto simp: x)
  qed
qed simp

lemma weight_mono: "S \<inter> known ds \<subseteq> T \<Longrightarrow> weight ds S \<le> weight ds T"
  unfolding weight_def by (rule sum_mono2) auto

lemma weight_below:
  assumes "ordered ds" "h \<in> known ds"
  shows "weight ds {g. rank ds g < rank ds h} < 2 ^ rank ds h"
proof -
  let ?S = "{g. rank ds g < rank ds h} \<inter> known ds"
  have "inj_on (rank ds) ?S" using rank_inj [OF assms(1)] by (rule inj_on_subset) simp
  then have "weight ds {g. rank ds g < rank ds h} = (\<Sum>i \<in> rank ds ` ?S. 2 ^ i)"
    by (simp add: weight_def sum.reindex)
  also have "\<dots> \<le> (\<Sum>i < rank ds h. 2 ^ i)"
    by (rule sum_mono2) auto
  also have "\<dots> < 2 ^ rank ds h"
    by (simp add: sum_power2 lessThan_atLeast0)
  finally show ?thesis .
qed

lemma weight_bound: "ordered ds \<Longrightarrow> weight ds S < 2 ^ length ds"
proof -
  assume o: "ordered ds"
  have "weight ds S = (\<Sum>i \<in> rank ds ` (S \<inter> known ds). 2 ^ i)"
    using inj_on_subset [OF rank_inj [OF o]] by (simp add: weight_def sum.reindex)
  also have "\<dots> \<le> (\<Sum>i < length ds. 2 ^ i)"
    by (rule sum_mono2) (auto dest: rank_less)
  also have "\<dots> < 2 ^ length ds"
    by (simp add: sum_power2 lessThan_atLeast0)
  finally show ?thesis .
qed

lemma weight_replace:
  assumes "ordered ds" "map_of ds h = Some d" "S \<subseteq> (T \<union> collectDeps d) - {h}"
  shows "weight ds S < weight ds (insert h T)"
proof -
  have h: "h \<in> known ds" using assms(2) by (auto simp: known_map_of)
  let ?L = "{g. rank ds g < rank ds h}"
  have "S \<subseteq> (T - {h}) \<union> ?L"
    using assms(3) deps_rank [OF assms(1,2)] by blast
  then have "weight ds S \<le> weight ds ((T - {h}) \<union> ?L)"
    by (intro weight_mono) blast
  also have "\<dots> \<le> weight ds (T - {h}) + weight ds ?L"
    by (simp add: weight_def Int_Un_distrib2 sum_Un_nat)
  also have "\<dots> < weight ds (T - {h}) + 2 ^ rank ds h"
    using weight_below [OF assms(1) h] by simp
  also have "\<dots> = weight ds (insert h (T - {h}))"
    using h by (simp add: weight_def del: insert_Diff_single)
  finally show ?thesis by simp
qed

text \<open>A field of a constructor that does not mention the type is lighter than the type.\<close>

abbreviation ty_weight :: "store \<Rightarrow> ty \<Rightarrow> nat" where
  "ty_weight st t \<equiv> weight (sdefs st) (set (ty_deps t))"

lemma tyMentionsHash_deps: "tyMentionsHash t h \<longleftrightarrow> h \<in> set (ty_deps t)"
  by (induction t) (auto simp: list_ex_iff)

lemma deps_subst: "set (ty_deps (substTy t ts)) \<subseteq> set (ty_deps t) \<union> (\<Union>u \<in> set ts. set (ty_deps u))"
  by (induction t) (auto intro: nth_mem)

lemma deps_resolve: "set (ty_deps (resolveRec t h)) \<subseteq> insert h (set (ty_deps t))"
  by (induction t) auto

lemma field_weight:
  assumes o: "ordered (sdefs st)" and h: "map_of (sdefs st) h = Some d"
    and f: "f \<in> set (instCtorFields d h ts i)" "\<not> tyMentionsHash f h" and i: "i < length (ctors_of d)"
  shows "ty_weight st f < ty_weight st (TData h ts)"
proof -
  obtain t where t: "t \<in> set (ctors_of d ! i)" "f = resolveRec (substTy t ts) h"
    using f(1) by (auto simp: instCtorFields_def)
  have "set (ty_deps t) \<subseteq> collectDeps d"
    using t(1) nth_mem [OF i] by (cases d) (auto simp: ctors_of_def)
  then have "set (ty_deps f) \<subseteq> ((\<Union>u \<in> set ts. set (ty_deps u)) \<union> collectDeps d) - {h}"
    using deps_resolve [of "substTy t ts" h] deps_subst [of t ts] f(2)
    unfolding t(2) tyMentionsHash_deps by blast
  from weight_replace [OF o h this] show ?thesis by simp
qed

text \<open>The fuel that a generation needs.\<close>

definition gen_need :: "store \<Rightarrow> nat \<Rightarrow> ty \<Rightarrow> nat" where
  "gen_need st sz t = (if sz = 0 then ty_weight st t else sz + 2 ^ length (sdefs st))"

lemma gen_need_mono: "set (ty_deps t) \<subseteq> set (ty_deps u) \<Longrightarrow> gen_need st sz t \<le> gen_need st sz u"
  unfolding gen_need_def using weight_mono [of "set (ty_deps t)" "sdefs st" "set (ty_deps u)"] by auto

lemma gen_need_bound: "ordered (sdefs st) \<Longrightarrow> gen_need st sz t \<le> sz + 2 ^ length (sdefs st)"
  using weight_bound [of "sdefs st" "set (ty_deps t)"] by (simp add: gen_need_def)

lemma gen_need_field:
  assumes o: "ordered (sdefs st)" and h: "GetDef st h = Inr d"
    and j: "j < length (gen_candidates d h ts sz)"
    and f: "f \<in> set (instCtorFields d h ts (gen_candidates d h ts sz ! j))"
  shows "gen_need st (sz - 1) f < gen_need st sz (TData h ts)"
proof (cases "sz = 0")
  case True
  let ?i = "gen_candidates d h ts sz ! j"
  have i: "?i \<in> set (gen_candidates d h ts sz)" using j by simp
  then have "\<not> ctorRecursive d h ts ?i" using True by (simp add: gen_candidates_def)
  with f have "\<not> tyMentionsHash f h" by (auto simp: ctorRecursive_def list_ex_iff)
  with o h f gen_candidates_less [OF i] True show ?thesis
    using field_weight [of st h d f ts ?i] by (simp add: gen_need_def)
next
  case False
  then show ?thesis
    using weight_bound [OF o, of "set (ty_deps f)"] by (simp add: gen_need_def)
qed

text \<open>
  Two recursive calls that agree below the need of a type generate the same values of it; a
  recursive call that ends below the need makes the generation end.
\<close>

abbreviation gends :: "'a gen \<Rightarrow> bool" where
  "gends m \<equiv> gyields (\<lambda>_. True) (\<lambda>e. e \<noteq> GFuel) m"

lemma gends_below: "gyields (\<lambda>j. j < n) (\<lambda>e. e \<noteq> GFuel) (below_n n)"
  by (simp add: gyields_def below_n_def split: prod.split)

lemma gends_seq:
  assumes "\<forall>t \<in> set ts. gends (g t)"
  shows "gends (gen_seq (map g ts))"
proof -
  have "list_all2 (\<lambda>m P. gyields P (\<lambda>e. e \<noteq> GFuel) m) (map g ts) (map (\<lambda>_ _. True) ts)"
    using assms by (simp add: list_all2_map1 list_all2_map2 list.rel_refl_strong)
  then show ?thesis by (rule gyields_mono [OF gyields_seq]) auto
qed

lemma gbind_cong: "m = m' \<Longrightarrow> (\<And>x r r'. fst (m r) = Inr x \<Longrightarrow> k x r' = k' x r') \<Longrightarrow> gbind m k = gbind m' k'"
  by (rule ext) (auto simp: gbind_def split: prod.splits sum.splits; metis fst_conv)

lemma gen_data_cong:
  assumes o: "ordered (sdefs st)"
    and rc: "\<And>f. gen_need st (sz - 1) f < gen_need st sz (TData h ts) \<Longrightarrow> rc (sz - 1) f = rc' (sz - 1) f"
  shows "gen_data rc st sz h ts = gen_data rc' st sz h ts"
proof (cases "GetDef st h")
  case (Inr d)
  let ?cand = "gen_candidates d h ts sz"
  have seq: "map (rc (sz - 1)) (instCtorFields d h ts (?cand ! j)) =
      map (rc' (sz - 1)) (instCtorFields d h ts (?cand ! j))" if "j < length ?cand" for j
    using rc gen_need_field [OF o Inr that] by (intro map_cong refl) blast
  have "fst (below_n (length ?cand) r) = Inr j \<Longrightarrow> j < length ?cand" for r j
    by (auto simp: below_n_def split: prod.splits if_splits)
  then have "gbind (below_n (length ?cand)) (\<lambda>j.
        gbind (gen_seq (map (rc (sz - 1)) (instCtorFields d h ts (?cand ! j)))) (\<lambda>vs. gret (VData h (?cand ! j) vs))) =
      gbind (below_n (length ?cand)) (\<lambda>j.
        gbind (gen_seq (map (rc' (sz - 1)) (instCtorFields d h ts (?cand ! j)))) (\<lambda>vs. gret (VData h (?cand ! j) vs)))"
    by (intro gbind_cong refl) (simp only: seq)
  then show ?thesis by (simp only: gen_data_def Inr sum.case Let_def)
qed (simp add: gen_data_def)

lemma gen_ty_cong:
  assumes o: "ordered (sdefs st)"
    and rc: "\<And>f. gen_need st (sz - 1) f < B \<Longrightarrow> rc (sz - 1) f = rc' (sz - 1) f"
  shows "gen_need st sz t \<le> B \<Longrightarrow> gen_ty rc st sz t = gen_ty rc' st sz t"
proof (induction t)
  case (TFun a b)
  have "gen_need st sz a \<le> B" "gen_need st sz b \<le> B"
    by (rule order_trans [OF gen_need_mono TFun.prems], simp)+
  with TFun.IH show ?case by simp
next
  case (TData h ts)
  have "gen_data rc st sz h ts = gen_data rc' st sz h ts"
  proof (rule gen_data_cong [OF o])
    fix f
    assume "gen_need st (sz - 1) f < gen_need st sz (TData h ts)"
    with TData.prems show "rc (sz - 1) f = rc' (sz - 1) f" by (intro rc) linarith
  qed
  then show ?case by simp
next
  case (TRecord ns ts)
  have "gen_need st sz t \<le> B" if "t \<in> set ts" for t
    by (rule order_trans [OF gen_need_mono TRecord.prems]) (use that in auto)
  with TRecord.IH have "map (gen_ty rc st sz) ts = map (gen_ty rc' st sz) ts"
    by simp
  then show ?case by (simp only: gen_ty.simps)
qed simp_all

lemma gen_fuel_enough:
  assumes o: "ordered (sdefs st)"
  shows "gen_need st sz t \<le> k \<Longrightarrow> k \<le> k' \<Longrightarrow> gen k' st sz t = gen k st sz t"
proof (induction k arbitrary: k' sz t)
  case 0
  show ?case
  proof (cases k')
    case (Suc m)
    show ?thesis unfolding Suc gen.simps by (rule gen_ty_cong [OF o _ 0(1)]) simp
  qed simp
next
  case (Suc k)
  then obtain m where m: "k' = Suc m" "k \<le> m" by (cases k') auto
  have "gen m st (sz - 1) f = gen k st (sz - 1) f" if "gen_need st (sz - 1) f < Suc k" for f
    using Suc.IH [of "sz - 1" f m] that m(2) by simp
  then show ?case
    unfolding m(1) gen.simps using Suc.prems(1) by (rule gen_ty_cong [OF o])
qed

text \<open>Fuel is only spent below the need: a generation that does not have it fails differently.\<close>

lemma gen_data_ends:
  assumes o: "ordered (sdefs st)"
    and rc: "\<And>f. gen_need st (sz - 1) f < gen_need st sz (TData h ts) \<Longrightarrow> gends (rc (sz - 1) f)"
  shows "gends (gen_data rc st sz h ts)"
proof (cases "GetDef st h")
  case (Inr d)
  let ?cand = "gen_candidates d h ts sz"
  have "gends (gen_seq (map (rc (sz - 1)) (instCtorFields d h ts (?cand ! j))))" if "j < length ?cand" for j
  proof -
    have "\<forall>f \<in> set (instCtorFields d h ts (?cand ! j)). gends (rc (sz - 1) f)"
      using rc gen_need_field [OF o Inr that] by blast
    then show ?thesis by (rule gends_seq)
  qed
  then have one: "gends (gbind (gen_seq (map (rc (sz - 1)) (instCtorFields d h ts (?cand ! j))))
      (\<lambda>vs. gret (VData h (?cand ! j) vs)))" if "j < length ?cand" for j
    using that by (intro gyields_bind [where P = "\<lambda>_. True"]) simp_all
  have "gends (gbind (below_n (length ?cand)) (\<lambda>j.
      gbind (gen_seq (map (rc (sz - 1)) (instCtorFields d h ts (?cand ! j)))) (\<lambda>vs. gret (VData h (?cand ! j) vs))))"
    by (rule gyields_bind [OF gends_below]) (rule one)
  then show ?thesis by (simp add: gen_data_def Inr Let_def del: GetDef_Inr)
qed (simp add: gen_data_def)

lemma gends_ground:
  "gends gen_int" "gends gen_rat" "gends gen_float" "gends gen_bool"
  by (rule gyields_mono, rule gtyped_int gtyped_rat gtyped_float gtyped_bool, simp_all)+

lemma gends_table: "gends ga \<Longrightarrow> gends gb \<Longrightarrow> gends (gen_table ga gb)"
  unfolding gen_table_def
  by (intro gyields_bind [OF gends_below] gyields_bind [OF gyields_pairs])
    (auto intro: gyields_bind split: prod.split)

lemma gends_int_fun: "gends tbl \<Longrightarrow> gends (gen_int_fun tbl)"
  unfolding gen_int_fun_def
  by (rule gyields_bind [OF gends_below]) (auto intro!: gyields_bind [OF gyields_intIn])

lemma gen_ty_ends:
  assumes o: "ordered (sdefs st)"
    and rc: "\<And>f. gen_need st (sz - 1) f < B \<Longrightarrow> gends (rc (sz - 1) f)"
  shows "gen_need st sz t \<le> B \<Longrightarrow> gends (gen_ty rc st sz t)"
proof (induction t)
  case (TFun a b)
  have "gen_need st sz a \<le> B" "gen_need st sz b \<le> B"
    by (rule order_trans [OF gen_need_mono TFun.prems], simp)+
  with TFun.IH have "gends (gen_table (gen_ty rc st sz a) (gen_ty rc st sz b))"
    by (intro gends_table) auto
  then have "gends (gen_ty rc st sz (TFun a b))"
    unfolding gen_ty.simps by (simp only: if_split gends_int_fun simp_thms)
  then show ?case .
next
  case (TData h ts)
  have "gends (gen_data rc st sz h ts)"
  proof (rule gen_data_ends [OF o])
    fix f
    assume "gen_need st (sz - 1) f < gen_need st sz (TData h ts)"
    with TData.prems show "gends (rc (sz - 1) f)" by (intro rc) linarith
  qed
  then show ?case by simp
next
  case (TRecord ns ts)
  have "gen_need st sz t \<le> B" if "t \<in> set ts" for t
    by (rule order_trans [OF gen_need_mono TRecord.prems]) (use that in auto)
  with TRecord.IH have "\<forall>t \<in> set ts. gends (gen_ty rc st sz t)" by simp
  from gends_seq [OF this] show ?case
    unfolding gen_ty.simps by (rule gyields_bind) simp
qed (simp_all add: gends_ground)

lemma gen_ends:
  assumes o: "ordered (sdefs st)"
  shows "gen_need st sz t \<le> k \<Longrightarrow> gends (gen k st sz t)"
proof (induction k arbitrary: sz t)
  case 0
  show ?case unfolding gen.simps by (rule gen_ty_ends [OF o _ 0]) simp
next
  case (Suc k)
  have "gends (gen k st (sz - 1) f)" if "gen_need st (sz - 1) f < Suc k" for f
    using Suc.IH [of "sz - 1" f] that by simp
  then show ?case
    unfolding gen.simps using Suc.prems by (rule gen_ty_ends [OF o])
qed

lemma genValue_ends: "ordered (sdefs st) \<Longrightarrow> gends (genValue st t sz)"
  unfolding genValue_def by (intro gen_ends gen_need_bound)

lemma genValue_typed: "store_wf st \<Longrightarrow> ty_wf st 0 False t \<Longrightarrow> gtyped st t (genValue st t sz)"
  unfolding genValue_def by (rule gen_typed)

text \<open>In an ordered store the only thing that stops a generation at a well-formed type.\<close>

lemma genValue_error:
  assumes "ordered (sdefs st)" "store_wf st" "ty_wf st 0 False t" "fst (genValue st t sz r) = Inl e"
  shows "\<exists>h. e = GNoBase h"
  using gyields_errorD [OF genValue_ends [OF assms(1)] assms(4)]
    gyields_errorD [OF genValue_typed [OF assms(2,3)] assms(4)]
  by (simp add: gen_error_def)

subsection \<open>A type nested in itself\<close>

text \<open>
  At size 0 \<^verbatim>\<open>ctorRecursive\<close> looks at the fields after the type's arguments are put in, so a
  constructor with a parameter for which the type itself is put in counts as recursive; when
  every constructor does, nothing is generated.
\<close>

lemma mentions_resolve: "tyMentionsHash t h \<Longrightarrow> tyMentionsHash (resolveRec t g) h"
  by (induction t) (auto simp: list_ex_iff)

lemma nested_error:
  assumes d: "GetDef st h = Inr (DData n cs)"
    and cs: "\<forall>fs \<in> set cs. \<exists>i < length ts. TVar i \<in> set fs \<and> tyMentionsHash (ts ! i) h"
  shows "genValue st (TData h ts) 0 r = (Inl (GNoBase h), r)"
proof -
  have "ctorRecursive (DData n cs) h ts j" if j: "j < length cs" for j
  proof -
    obtain i where i: "i < length ts" "TVar i \<in> set (cs ! j)" "tyMentionsHash (ts ! i) h"
      using cs nth_mem [OF j] by blast
    then show ?thesis
      using mentions_resolve [of "ts ! i" h h]
      by (force simp: ctorRecursive_def instCtorFields_def ctors_of_def list_ex_iff)
  qed
  then have "gen_candidates (DData n cs) h ts 0 = []"
    by (simp add: gen_candidates_def ctors_of_def filter_empty_conv)
  then have "gen k st 0 (TData h ts) r = (Inl (GNoBase h), r)" for k
    using d by (cases k) (simp_all add: gen_data_def gfail_def Let_def del: GetDef_Inr)
  then show ?thesis by (simp add: genValue_def)
qed

end
