(* ===== verification/TestingProps.thy ===== *)
theory TestingProps
  imports Testing GenProps EvalProps
begin

text \<open>
  What a verdict of the property tester says: the run of a property against the three-way
  outcome of \<^verbatim>\<open>SPEC\<close> 4.1, its independence of the fuel, the reasons a checked definition can
  be left without a verdict, and the guarantee ladder.
\<close>

subsection \<open>The outcome of a property, from the outcomes of its cases\<close>

fun refutes :: "case_result \<Rightarrow> bool" where
  "refutes (Verdict env b) = (\<not> b)"
| "refutes (NoVerdict why) = False"

fun passes :: "case_result \<Rightarrow> bool" where
  "passes (Verdict env b) = b"
| "passes (NoVerdict why) = False"

fun undecided :: "case_result \<Rightarrow> bool" where
  "undecided (Verdict env b) = False"
| "undecided (NoVerdict why) = True"

fun first_reason :: "case_result list \<Rightarrow> reason option" where
  "first_reason [] = None"
| "first_reason (NoVerdict why # rs) = Some why"
| "first_reason (Verdict env b # rs) = first_reason rs"

fun first_refuting :: "case_result list \<Rightarrow> val list option" where
  "first_refuting [] = None"
| "first_refuting (Verdict env b # rs) = (if b then first_refuting rs else Some env)"
| "first_refuting (NoVerdict why # rs) = first_refuting rs"

text \<open>
  A refutation dominates; the counts are those of the cases before it, and a report carries
  either a counterexample or a reason, not both.
\<close>

definition prop_verdict :: "string \<Rightarrow> case_result list \<Rightarrow> prop_report" where
  "prop_verdict name rs =
     (let seen = takeWhile (\<lambda>r. \<not> refutes r) rs;
          refuted = list_ex refutes rs
      in \<lparr>rname = name,
          routcome = (if refuted then PropFalsified
                      else if list_ex undecided rs then PropIndeterminate else PropPassed),
          rpassed = length (filter passes seen),
          rindet = length (filter undecided seen),
          rcounter = first_refuting rs,
          rerr = (if refuted then None else first_reason rs)\<rparr>)"

text \<open>The loop, from any report it has reached without a refutation.\<close>

definition resume :: "case_result list \<Rightarrow> prop_report \<Rightarrow> prop_report" where
  "resume rs rep =
     (let v = prop_verdict (rname rep) rs in
      v\<lparr>routcome := (if routcome v = PropPassed \<and> 0 < rindet rep then PropIndeterminate else routcome v),
        rpassed := rpassed rep + rpassed v, rindet := rindet rep + rindet v,
        rerr := (if routcome v = PropFalsified then None
                 else case rerr rep of None \<Rightarrow> rerr v | Some e \<Rightarrow> Some e)\<rparr>)"

lemma run_cases_resume:
  "routcome rep = PropPassed \<Longrightarrow> rcounter rep = None \<Longrightarrow>
   run_cases f cs rep = resume (map f cs) rep"
proof (induction cs arbitrary: rep)
  case Nil
  then show ?case by (cases rep) (auto simp: resume_def prop_verdict_def Let_def split: option.split)
next
  case (Cons c cs)
  show ?case
  proof (cases "f c")
    case (NoVerdict why)
    have "run_cases f (c # cs) rep = resume (map f cs) (noVerdict why rep)"
      using Cons by (simp add: NoVerdict noVerdict_def)
    also have "\<dots> = resume (map f (c # cs)) rep"
      by (cases rep) (auto simp: NoVerdict resume_def prop_verdict_def noVerdict_def Let_def split: option.split)
    finally show ?thesis .
  next
    case (Verdict env b)
    show ?thesis
    proof (cases b)
      case True
      have "run_cases f (c # cs) rep = resume (map f cs) (rep\<lparr>rpassed := rpassed rep + 1\<rparr>)"
        using Cons by (simp add: Verdict True)
      also have "\<dots> = resume (map f (c # cs)) rep"
        by (cases rep) (auto simp: Verdict True resume_def prop_verdict_def Let_def split: option.split)
      finally show ?thesis .
    next
      case False
      then show ?thesis
        using Cons.prems by (cases rep) (simp add: Verdict resume_def prop_verdict_def Let_def)
    qed
  qed
qed

lemma runProp_verdict:
  "runProp st h p name base ix cases fuel =
     prop_verdict name (map (prop_case st h p base ix fuel) [0..<cases])"
  using run_cases_resume [of "report0 name" "prop_case st h p base ix fuel" "[0..<cases]"]
  by (simp add: runProp_def report0_def resume_def prop_verdict_def Let_def split: option.split)

lemma first_refuting_None: "first_refuting rs = None \<longleftrightarrow> \<not> list_ex refutes rs"
  by (induction rs rule: first_refuting.induct) auto

lemma prop_verdict_simps:
  "routcome (prop_verdict name rs) = PropFalsified \<longleftrightarrow> list_ex refutes rs"
  "routcome (prop_verdict name rs) = PropPassed \<longleftrightarrow> list_all passes rs"
  "routcome (prop_verdict name rs) = PropIndeterminate \<longleftrightarrow> \<not> list_ex refutes rs \<and> list_ex undecided rs"
proof -
  have "list_all passes rs \<longleftrightarrow> \<not> list_ex refutes rs \<and> \<not> list_ex undecided rs"
  proof (induction rs)
    case (Cons r rs)
    then show ?case by (cases r) auto
  qed simp
  then show "routcome (prop_verdict name rs) = PropFalsified \<longleftrightarrow> list_ex refutes rs"
    "routcome (prop_verdict name rs) = PropPassed \<longleftrightarrow> list_all passes rs"
    "routcome (prop_verdict name rs) = PropIndeterminate \<longleftrightarrow> \<not> list_ex refutes rs \<and> list_ex undecided rs"
    by (auto simp: prop_verdict_def Let_def)
qed

subsection \<open>More fuel\<close>

lemma prop_case_more_fuel:
  assumes "prop_case st h p base ix fuel c = Verdict env b" "fuel \<le> fuel'"
  shows "prop_case st h p base ix fuel' c = Verdict env b"
proof -
  have g: "genPropCase st p base ix c = Inr env"
    and "fst (run_eval st (rev env) h (pbody p) fuel) = Inr (VBool b)"
    using assms(1) by (auto simp: prop_case_def split: sum.splits val.splits)
  then obtain f' where e: "run_eval st (rev env) h (pbody p) fuel = (Inr (VBool b), f')"
    by (metis prod.collapse)
  have "refines_ev (eval maxEvalDepth st (rev env) h (pbody p)) (eval maxEvalDepth st (rev env) h (pbody p))"
    using eval_refines [of maxEvalDepth maxEvalDepth st] by (simp add: refines_evs_def)
  from refines_evD [OF this e [unfolded run_eval_def], of "fuel' - fuel"] assms(2)
  have "run_eval st (rev env) h (pbody p) fuel' = (Inr (VBool b), f' + (fuel' - fuel))"
    by (simp add: run_eval_def budget_error_def)
  then show ?thesis using g by (simp add: prop_case_def)
qed

lemma prop_case_decided:
  "\<not> undecided (prop_case st h p base ix fuel c) \<Longrightarrow> fuel \<le> fuel' \<Longrightarrow>
   prop_case st h p base ix fuel' c = prop_case st h p base ix fuel c"
  using prop_case_more_fuel [of st h p base ix fuel c] by (cases "prop_case st h p base ix fuel c") auto

lemma runProp_more_fuel:
  assumes "fuel \<le> fuel'"
  shows "routcome (runProp st h p name base ix cases fuel) = PropPassed \<Longrightarrow>
      runProp st h p name base ix cases fuel' = runProp st h p name base ix cases fuel"
    and "routcome (runProp st h p name base ix cases fuel) = PropFalsified \<Longrightarrow>
      routcome (runProp st h p name base ix cases fuel') = PropFalsified"
proof -
  let ?f = "prop_case st h p base ix"
  note decided = prop_case_decided [where fuel = fuel and fuel' = fuel', OF _ assms]
  assume "routcome (runProp st h p name base ix cases fuel) = PropPassed"
  then have "\<forall>c < cases. passes (?f fuel c)"
    by (auto simp: runProp_verdict prop_verdict_simps list_all_iff)
  then have "\<forall>c < cases. \<not> undecided (?f fuel c)"
    by (metis passes.simps(2) undecided.elims(2))
  then have "map (?f fuel') [0..<cases] = map (?f fuel) [0..<cases]"
    using decided by simp
  then show "runProp st h p name base ix cases fuel' = runProp st h p name base ix cases fuel"
    by (simp only: runProp_verdict)
next
  let ?f = "prop_case st h p base ix"
  assume "routcome (runProp st h p name base ix cases fuel) = PropFalsified"
  then obtain c where c: "c < cases" "refutes (?f fuel c)"
    by (auto simp: runProp_verdict prop_verdict_simps list_ex_iff)
  then have "refutes (?f fuel' c)"
    using prop_case_decided [OF _ assms] by (metis refutes.simps(2) undecided.elims(2))
  with c(1) show "routcome (runProp st h p name base ix cases fuel') = PropFalsified"
    by (auto simp: runProp_verdict prop_verdict_simps list_ex_iff)
qed

subsection \<open>Why a checked property has no verdict\<close>

lemma prop_scope:
  assumes st: "store_checked st" and h: "map_of (sdefs st) h = Some (DFunc n t b ps)" and p: "p \<in> set ps"
  shows "\<exists>E. est E = st \<and> env_wf E \<and> etv E = n \<and> eself E = Some t \<and>
    list_all (ty_wf st 0 False) (binders p) \<and> typed E (pushAll [] (binders p)) (pbody p) TBool"
proof -
  let ?E = "\<lparr>est = st, etv = n, eself = Some t\<rparr>"
  have c: "checkDef st (DFunc n t b ps) = Inr (DFunc n t b ps)"
    using st h by (simp add: store_checked_def del: checkDef.simps)
  have wf: "store_wf st" by (rule checked_wf [OF st])
  have "ty_wf st n False t" "list_all2 (prop_checked ?E) ps ps"
    using c checkDef_func [of st n t b ps "DFunc n t b ps"] by (auto simp: Let_def)
  then have E: "env_wf ?E" and pp: "prop_checked ?E p p"
    using wf p by (auto simp: env_wf_def list_all2_same)
  have "typed ?E (pushAll [] (binders p)) (pbody p) TBool"
    using prop_checked_typed [OF E pp] by blast
  moreover have "list_all (ty_wf st 0 False) (binders p)"
    using pp by (auto simp: prop_checked_def list_all_iff)
  ultimately show ?thesis using E by (intro exI [of _ ?E]) simp
qed

lemma pushAll_rev: "pushAll [] ts = rev ts"
proof -
  have "pushAll c ts = rev ts @ c" for c
    by (induction ts arbitrary: c) (simp_all add: pushAll_def pushCtx_def)
  then show ?thesis by simp
qed

lemma subst_closed: "ty_wf st 0 False t \<Longrightarrow> instT s t = t"
  by (induction t) (auto simp: list_all_iff map_idI)

lemma genPropCase_typed:
  assumes "store_wf st" "list_all (ty_wf st 0 False) (binders p)" "genPropCase st p base ix c = Inr env"
  shows "list_all2 (vty st) env (binders p)"
proof -
  have "\<forall>t \<in> set (binders p). gtyped st t (genValue st t (c mod 8))"
    using assms(1,2) genValue_typed by (simp add: list_all_iff)
  from gyieldsD [OF gtyped_seq [OF this]] show ?thesis
    using assms(3) by (simp add: genPropCase_def)
qed

lemma genPropCase_error:
  assumes "ordered (sdefs st)" "store_wf st" "list_all (ty_wf st 0 False) (binders p)"
    and "genPropCase st p base ix c = Inl e"
  shows "\<exists>g. e = GNoBase g"
proof -
  have "\<forall>t \<in> set (binders p). gtyped st t (genValue st t (c mod 8))"
    using assms(2,3) genValue_typed by (simp add: list_all_iff)
  from gyields_errorD [OF gtyped_seq [OF this]] have "gen_error e"
    using assms(4) by (simp add: genPropCase_def)
  moreover have "\<forall>t \<in> set (binders p). gends (genValue st t (c mod 8))"
    using genValue_ends [OF assms(1)] by blast
  from gyields_errorD [OF gends_seq [OF this]] have "e \<noteq> GFuel"
    using assms(4) by (simp add: genPropCase_def)
  ultimately show ?thesis by (auto simp: gen_error_def)
qed

lemma prop_body_sound:
  assumes st: "store_checked st" and h: "map_of (sdefs st) h = Some (DFunc n t b ps)" and p: "p \<in> set ps"
    and env: "list_all2 (vty st) env (binders p)"
  shows "ok_with (\<lambda>v. vty st v TBool) (run_eval st (rev env) h (pbody p))"
proof -
  obtain E where E: "est E = st" "env_wf E" "etv E = n" "eself E = Some t"
    and wf: "list_all (ty_wf st 0 False) (binders p)"
    and ty: "typed E (pushAll [] (binders p)) (pbody p) TBool"
    using prop_scope [OF st h p] by blast
  let ?s = "replicate n TInt"
  have "map (instT ?s) (binders p) = binders p"
    using wf subst_closed by (intro map_idI) (auto simp: list_all_iff)
  then have "list_all2 (vty st) (rev env) (map (instT ?s) (rev (binders p)))"
    using env by (simp add: rev_map [symmetric])
  moreover have "ctx_wf E (rev (binders p))"
    using wf ty_wf_mono [of st _ n] E by (simp add: list_all_iff)
  moreover have "h \<noteq> ''''" using st h by (simp add: store_checked_def)
  ultimately have "scope st E (pushAll [] (binders p)) ?s h (rev env)"
    using E h by (simp add: scope_def pushAll_rev list_all_iff)
  from sound_evD [OF eval_sound [OF st] this ty] show ?thesis
    by (simp add: run_eval_def)
qed

lemma prop_case_reason:
  assumes st: "store_checked st" and o: "ordered (sdefs st)"
    and h: "map_of (sdefs st) h = Some (DFunc n t b ps)" and p: "p \<in> set ps"
  shows "case prop_case st h p base ix fuel c of
      Verdict env ok \<Rightarrow> list_all2 (vty st) env (binders p)
    | NoVerdict why \<Rightarrow> (\<exists>g. why = RGen (GNoBase g)) \<or> (\<exists>e. why = REval e \<and> benign e)"
proof -
  note wf = checked_wf [OF st]
  have b: "list_all (ty_wf st 0 False) (binders p)" using prop_scope [OF st h p] by blast
  show ?thesis
  proof (cases "genPropCase st p base ix c")
    case (Inl e)
    then show ?thesis using genPropCase_error [OF o wf b] by (simp add: prop_case_def)
  next
    case (Inr env)
    then have env: "list_all2 (vty st) env (binders p)" by (rule genPropCase_typed [OF wf b])
    have "case fst (run_eval st (rev env) h (pbody p) fuel) of Inl e \<Rightarrow> benign e | Inr v \<Rightarrow> vty st v TBool"
      using prop_body_sound [OF st h p env] by (simp add: ok_with_def)
    then show ?thesis
      using env Inr by (auto simp: prop_case_def elim!: vty_BoolE split: sum.splits)
  qed
qed

subsection \<open>The guarantee ladder\<close>

lemma runProp_name [simp]: "rname (runProp st h p name base ix cases fuel) = name"
  by (simp add: runProp_verdict prop_verdict_def Let_def)

lemma names_with_Nil: "names_with oc rs = [] \<longleftrightarrow> (\<forall>r \<in> set rs. routcome r \<noteq> oc)"
  by (auto simp: names_with_def filter_empty_conv)

lemma verified_level:
  "glevel (guarantee (verified_meta ps rs m)) =
     (if ps \<noteq> [] \<and> (\<exists>r \<in> set rs. routcome r = PropFalsified) then Falsified
      else if ps \<noteq> [] \<and> glevel (guarantee m) = Proven \<and> length (proven_props m) = length ps then Proven
      else if ps \<noteq> [] \<and> (\<forall>r \<in> set rs. routcome r = PropPassed) then Tested
      else Asserted)"
proof -
  have o: "routcome r = PropPassed \<longleftrightarrow> routcome r \<noteq> PropFalsified \<and> routcome r \<noteq> PropIndeterminate" for r
    by (cases "routcome r") auto
  show ?thesis
    by (auto simp: verified_meta_def guaranteeFromReports_def resolveLevel_def guarantee0_def Let_def
        names_with_Nil o)
qed

lemma verified_proofs:
  "proven_props (verified_meta ps rs m) =
     (if glevel (guarantee (verified_meta ps rs m)) = Falsified then [] else proven_props m)"
  by (simp add: verified_meta_def Let_def)

subsection \<open>Streams of different cases\<close>

text \<open>Every step of splitmix64 is one-to-one, so different states never agree in their output.\<close>

lemma odd_times_inj:
  assumes "(k :: 64 word) * k' = 1"
  shows "a * k = b * k \<longleftrightarrow> a = b"
proof
  assume "a * k = b * k"
  then have "a * (k * k') = b * (k * k')" by (simp only: mult.assoc [symmetric])
  then show "a = b" by (simp add: assms)
qed simp

lemma shift_fixed: "0 < n \<Longrightarrow> (z :: 64 word) = drop_bit n z \<Longrightarrow> z = 0"
proof -
  assume n: "0 < n" and z: "z = drop_bit n z"
  have "unat z = unat z div 2 ^ n"
    using z by (metis unat_drop_bit_eq drop_bit_eq_div)
  moreover have "unat z div 2 ^ n < unat z" if "0 < unat z"
    using that n one_less_power [of "2 :: nat" n] by (intro div_less_dividend) simp_all
  ultimately show "z = 0" by (metis less_irrefl not_gr_zero unat_eq_zero)
qed

lemma xor_eq_zero: "x XOR y = 0 \<longleftrightarrow> x = (y :: 64 word)"
proof
  assume "x XOR y = 0"
  then have "x XOR (y XOR y) = 0 XOR y" by (metis xor.assoc)
  then show "x = y" by simp
qed simp

lemma xor_left_cancel: "a XOR b = a XOR c \<longleftrightarrow> b = (c :: 64 word)"
proof
  assume "a XOR b = a XOR c"
  then have "(a XOR a) XOR b = (a XOR a) XOR c" by (simp only: xor.assoc)
  then show "b = c" by simp
qed simp

lemma xorshift_inj:
  assumes n: "0 < n"
  shows "(x :: 64 word) XOR drop_bit n x = y XOR drop_bit n y \<longleftrightarrow> x = y"
proof
  assume "x XOR drop_bit n x = y XOR drop_bit n y"
  then have "(x XOR drop_bit n x) XOR (y XOR drop_bit n y) = 0" by simp
  then have "(x XOR y) XOR (drop_bit n x XOR drop_bit n y) = 0" by (simp add: ac_simps)
  then have "x XOR y = drop_bit n x XOR drop_bit n y" by (simp only: xor_eq_zero)
  then have "x XOR y = drop_bit n (x XOR y)" by (subst drop_bit_xor)
  from shift_fixed [OF n this] show "x = y" by (simp only: xor_eq_zero)
qed simp

lemma mix64_inj: "mix64 x = mix64 y \<longleftrightarrow> x = y"
proof -
  have a: "a * 0xBF58476D1CE4E5B9 = b * 0xBF58476D1CE4E5B9 \<longleftrightarrow> a = b" for a b :: "64 word"
    by (rule odd_times_inj [of _ "0x96DE1B173F119089"]) simp
  have b: "a * 0x94D049BB133111EB = b * 0x94D049BB133111EB \<longleftrightarrow> a = b" for a b :: "64 word"
    by (rule odd_times_inj [of _ "0x319642B2D24D8EC3"]) simp
  show ?thesis by (simp only: mix64_def Let_def xorshift_inj zero_less_numeral a b)
qed

lemma case_seed_inj:
  assumes "c < 2 ^ 64" "c' < 2 ^ 64"
  shows "case_seed base ix c = case_seed base ix c' \<longleftrightarrow> c = c'"
proof -
  have k: "a * 0xD1B54A32D192ED03 = b * 0xD1B54A32D192ED03 \<longleftrightarrow> a = b" for a b :: "64 word"
    by (rule odd_times_inj [of _ "0x6106CCFA448E5AB"]) simp
  have "unat (of_nat c :: 64 word) = c" "unat (of_nat c' :: 64 word) = c'"
    using assms by (simp_all add: unat_of_nat take_bit_nat_eq_self)
  then have "(of_nat c = (of_nat c' :: 64 word)) \<longleftrightarrow> c = c'" by metis
  then show ?thesis by (simp only: case_seed_def xor_left_cancel k)
qed

text \<open>So the first numbers that two cases of a property draw are different.\<close>

lemma first_draws_differ:
  assumes "c < 2 ^ 64" "c' < 2 ^ 64" "c \<noteq> c'"
  shows "fst (rng_next (case_seed base ix c)) \<noteq> fst (rng_next (case_seed base ix c'))"
  using case_seed_inj [OF assms(1,2)] assms(3) by (simp add: rng_next_def mix64_inj Let_def)

end
