(* ===== verification/Confinement.thy ===== *)
theory Confinement
  imports TypeOps Meta
begin

text \<open>
  Capability confinement, \<^verbatim>\<open>oath/confinement.go\<close>: for every higher-order parameter of a
  definition, whether the body only exercises it or may keep it. The stored verdicts of
  callees, which \<^verbatim>\<open>GetMeta\<close> answers from, are the argument \<open>metas\<close>. An arm beyond the
  constructors of the matched type, at which the Go code would panic, counts as an escape;
  \<^verbatim>\<open>checkDef\<close> refuses such a match.
\<close>

record escapeWalker =
  selfPos :: nat
  paramTy :: ty

fun appliedToData :: "ty option \<Rightarrow> nat \<Rightarrow> bool" where
  "appliedToData None n = False"
| "appliedToData (Some t) 0 = (\<not> tyHasFun t)"
| "appliedToData (Some t) (Suc n) = (case t of TFun a b \<Rightarrow> appliedToData (Some b) n | _ \<Rightarrow> False)"

fun name_ty :: "string list \<Rightarrow> ty list \<Rightarrow> string \<Rightarrow> ty option" where
  "name_ty (n # ns) (t # ts) f = (if n = f then Some t else name_ty ns ts f)"
| "name_ty _ _ f = None"

definition fieldTy :: "escapeWalker \<Rightarrow> string \<Rightarrow> ty option" where
  "fieldTy w f = (case paramTy w of TRecord ns ts \<Rightarrow> name_ty ns ts f | _ \<Rightarrow> None)"

definition calleeConfines :: "(hash \<Rightarrow> meta option) \<Rightarrow> escapeWalker \<Rightarrow> trm \<Rightarrow> nat \<Rightarrow> bool" where
  "calleeConfines metas w hh j =
     (case hh of
        Self ts \<Rightarrow> j = selfPos w
      | Ref h ts \<Rightarrow>
          (case metas h of
             None \<Rightarrow> False
           | Some m \<Rightarrow> j < length (mconfinement m) \<and> mconfinement m ! j = ''confined'')
      | _ \<Rightarrow> False)"

text \<open>The application of the parameter, or of a field of it, to so many arguments that data results.\<close>

definition head_ok :: "escapeWalker \<Rightarrow> trm \<Rightarrow> nat \<Rightarrow> nat \<Rightarrow> bool \<Rightarrow> bool" where
  "head_ok w hh n idx inLam =
     (case hh of
        Var i \<Rightarrow> i = idx \<and> \<not> inLam \<and> appliedToData (Some (paramTy w)) n
      | Field (Var i) f \<Rightarrow> i = idx \<and> \<not> inLam \<and> appliedToData (fieldTy w f) n
      | _ \<Rightarrow> False)"

definition data_field :: "escapeWalker \<Rightarrow> trm \<Rightarrow> string \<Rightarrow> nat \<Rightarrow> bool" where
  "data_field w a f idx =
     (a = Var idx \<and> (case fieldTy w f of None \<Rightarrow> True | Some t \<Rightarrow> \<not> tyHasFun t))"

fun strip_lams :: "trm \<Rightarrow> nat \<Rightarrow> trm \<times> nat" where
  "strip_lams (Lam p b) idx = strip_lams b (Suc idx)"
| "strip_lams t idx = (t, idx)"

lemma strip_lams_size [simp]: "size (fst (strip_lams t idx)) \<le> size t"
  by (induction t idx rule: strip_lams.induct) auto

lemma spine_acc_size:
  "spine_acc t as = (h, bs) \<Longrightarrow> size h + size_list size bs \<le> size t + size_list size as"
  by (induction t as rule: spine_acc.induct) auto

lemma spine_acc_length: "spine_acc t as = (h, bs) \<Longrightarrow> length as \<le> length bs"
  by (induction t as rule: spine_acc.induct) auto

lemma mem_size: "(t :: trm) \<in> set ts \<Longrightarrow> size t < size_list size ts"
  by (induction ts) auto

lemma spine_app_size:
  assumes "spine (App f a) = (h, bs)"
  shows "size h < size (App f a)" "b \<in> set bs \<Longrightarrow> size b < size (App f a)"
proof -
  have s: "size h + size_list size bs \<le> size f + size_list size [a]"
    using assms spine_acc_size [of f "[a]" h bs] by (simp add: spine_def)
  moreover have "bs \<noteq> []"
    using assms spine_acc_length [of f "[a]" h bs] by (auto simp: spine_def)
  then have "0 < size_list size bs" by (cases bs) simp_all
  ultimately show "size h < size (App f a)" by simp
  show "size b < size (App f a)" if "b \<in> set bs"
    using s mem_size [OF that] by simp
qed

lemma spine_member:
  assumes "(h, bs) = spine (App f a)"
  shows "size h < Suc (size f + size a)" "b \<in> set bs \<Longrightarrow> size b < Suc (size f + size a)"
    "j < length bs \<Longrightarrow> size (bs ! j) < Suc (size f + size a)"
    "j < length bs \<Longrightarrow> size (fst (strip_lams (bs ! j) idx)) < Suc (size f + size a)"
  using spine_app_size [OF assms [symmetric]] le_less_trans [OF strip_lams_size] by auto

function (sequential) confined ::
  "store \<Rightarrow> (hash \<Rightarrow> meta option) \<Rightarrow> escapeWalker \<Rightarrow> trm \<Rightarrow> nat \<Rightarrow> bool \<Rightarrow> bool" where
  "confined st metas w (Var i) idx inLam = (i \<noteq> idx)"
| "confined st metas w (Field a f) idx inLam =
     (if \<not> inLam \<and> data_field w a f idx then True else confined st metas w a idx inLam)"
| "confined st metas w (App f a) idx inLam =
     (let (hh, args) = spine (App f a) in
      if head_ok w hh (length args) idx inLam
      then list_all (\<lambda>x. confined st metas w x idx inLam) args
      else if (case hh of Ref h ts \<Rightarrow> True | Self ts \<Rightarrow> True | _ \<Rightarrow> False)
      then list_all (\<lambda>(j, x).
             if x = Var idx then \<not> inLam \<and> calleeConfines metas w hh j
             else if (case x of Lam p b \<Rightarrow> True | _ \<Rightarrow> False) \<and> \<not> inLam \<and> calleeConfines metas w hh j
             then confined st metas w (fst (strip_lams x idx)) (snd (strip_lams x idx)) False
             else confined st metas w x idx inLam) (enumerate 0 args)
      else confined st metas w hh idx inLam \<and> list_all (\<lambda>x. confined st metas w x idx inLam) args)"
| "confined st metas w (Lam p b) idx inLam = confined st metas w b (Suc idx) True"
| "confined st metas w (Let p a b) idx inLam =
     (confined st metas w a idx inLam \<and> confined st metas w b (Suc idx) inLam)"
| "confined st metas w (Match h a arms) idx inLam =
     (confined st metas w a idx inLam \<and>
      (case GetDef st h of
         Inl e \<Rightarrow> False
       | Inr d \<Rightarrow>
           length arms \<le> length (ctors_of d) \<and>
           list_all (\<lambda>(x, fs). confined st metas w x (idx + length fs) inLam) (zip arms (ctors_of d))))"
| "confined st metas w (If a b d) idx inLam =
     (confined st metas w a idx inLam \<and> confined st metas w b idx inLam \<and> confined st metas w d idx inLam)"
| "confined st metas w (Prim op as) idx inLam = list_all (\<lambda>x. confined st metas w x idx inLam) as"
| "confined st metas w (Ctor h i ts as) idx inLam = list_all (\<lambda>x. confined st metas w x idx inLam) as"
| "confined st metas w (Record ns as) idx inLam = list_all (\<lambda>x. confined st metas w x idx inLam) as"
| "confined st metas w t idx inLam = True"
  by pat_completeness auto
termination
  apply (relation "measure (\<lambda>(st, metas, w, t, idx, inLam). size t)")
  apply (auto simp: in_set_enumerate_eq spine_member mem_size less_SucI trans_less_add1
      dest!: set_zip_leftD intro: less_SucI trans_less_add1 mem_size)
  done

subsection \<open>Verdicts\<close>

fun lam_params :: "trm \<Rightarrow> ty list \<times> trm" where
  "lam_params (Lam p b) = (case lam_params b of (ps, c) \<Rightarrow> (p # ps, c))"
| "lam_params t = ([], t)"

definition confinementOf :: "store \<Rightarrow> (hash \<Rightarrow> meta option) \<Rightarrow> def \<Rightarrow> string list" where
  "confinementOf st metas d =
     (case d of
        DData n cs \<Rightarrow> []
      | DFunc n t b qs \<Rightarrow>
          (case lam_params b of (ps, c) \<Rightarrow>
             map (\<lambda>i.
               if \<not> tyHasFun (ps ! i) then ''''
               else if confined st metas \<lparr>selfPos = i, paramTy = ps ! i\<rparr> c (length ps - 1 - i) False
               then ''confined'' else ''escapes'') [0..<length ps]))"

subsection \<open>Closures\<close>

text \<open>The free occurrences of a variable, and the terms all of whose matches have a known type.\<close>

function (sequential) mentions :: "store \<Rightarrow> trm \<Rightarrow> nat \<Rightarrow> bool" where
  "mentions st (Var i) idx = (i = idx)"
| "mentions st (Lam p b) idx = mentions st b (Suc idx)"
| "mentions st (App f a) idx = (mentions st f idx \<or> mentions st a idx)"
| "mentions st (Let p a b) idx = (mentions st a idx \<or> mentions st b (Suc idx))"
| "mentions st (If a b d) idx = (mentions st a idx \<or> mentions st b idx \<or> mentions st d idx)"
| "mentions st (Prim op as) idx = list_ex (\<lambda>x. mentions st x idx) as"
| "mentions st (Ctor h i ts as) idx = list_ex (\<lambda>x. mentions st x idx) as"
| "mentions st (Record ns as) idx = list_ex (\<lambda>x. mentions st x idx) as"
| "mentions st (Field a f) idx = mentions st a idx"
| "mentions st (Match h a arms) idx =
     (mentions st a idx \<or>
      (case GetDef st h of
         Inl e \<Rightarrow> False
       | Inr d \<Rightarrow> list_ex (\<lambda>(x, fs). mentions st x (idx + length fs)) (zip arms (ctors_of d))))"
| "mentions st t idx = False"
  by pat_completeness auto
termination
  apply (relation "measure (\<lambda>(st, t, idx). size t)")
  apply (auto dest!: set_zip_leftD intro: less_SucI trans_less_add1 mem_size)
  done

fun matches_ok :: "store \<Rightarrow> trm \<Rightarrow> bool" where
  "matches_ok st (Lam p b) = matches_ok st b"
| "matches_ok st (App f a) = (matches_ok st f \<and> matches_ok st a)"
| "matches_ok st (Let p a b) = (matches_ok st a \<and> matches_ok st b)"
| "matches_ok st (If a b d) = (matches_ok st a \<and> matches_ok st b \<and> matches_ok st d)"
| "matches_ok st (Prim op as) = list_all (matches_ok st) as"
| "matches_ok st (Ctor h i ts as) = list_all (matches_ok st) as"
| "matches_ok st (Record ns as) = list_all (matches_ok st) as"
| "matches_ok st (Field a f) = matches_ok st a"
| "matches_ok st (Match h a arms) =
     (matches_ok st a \<and> list_all (matches_ok st) arms \<and>
      (case GetDef st h of Inl e \<Rightarrow> False | Inr d \<Rightarrow> length arms \<le> length (ctors_of d)))"
| "matches_ok st t = True"

lemma spine_acc_mentions:
  "spine_acc t as = (h, bs) \<Longrightarrow>
   (mentions st t idx \<or> (\<exists>a \<in> set as. mentions st a idx)) \<longleftrightarrow>
   (mentions st h idx \<or> (\<exists>b \<in> set bs. mentions st b idx))"
  by (induction t as rule: spine_acc.induct) auto

lemma spine_mentions:
  "spine t = (h, bs) \<Longrightarrow> mentions st t idx \<longleftrightarrow> mentions st h idx \<or> (\<exists>b \<in> set bs. mentions st b idx)"
  using spine_acc_mentions [of t "[]" h bs st idx] by (simp add: spine_def)

lemma spine_acc_matches:
  "spine_acc t as = (h, bs) \<Longrightarrow>
   matches_ok st t \<Longrightarrow> list_all (matches_ok st) as \<Longrightarrow> matches_ok st h \<and> list_all (matches_ok st) bs"
  by (induction t as rule: spine_acc.induct) auto

lemma spine_matches:
  "spine t = (h, bs) \<Longrightarrow> matches_ok st t \<Longrightarrow> matches_ok st h \<and> list_all (matches_ok st) bs"
  using spine_acc_matches [of t "[]" h bs st] by (simp add: spine_def)

lemma list_all_enumerate:
  "(\<And>j x. P (j, x) \<longleftrightarrow> Q x) \<Longrightarrow> list_all P (enumerate n xs) \<longleftrightarrow> list_all Q xs"
  by (induction xs arbitrary: n) auto

text \<open>
  Under a lambda that is not handed to a confined position, the walk accepts exactly the terms
  in which the parameter does not occur: no closure it admits there has captured it.
\<close>

lemma confined_in_lambda:
  "matches_ok st t \<Longrightarrow> confined st metas w t idx inLam \<longleftrightarrow> \<not> mentions st t idx" if "inLam"
  using that
proof (induction st metas w t idx inLam rule: confined.induct)
  case (3 st metas w f a idx inLam)
  obtain h bs where s: "spine (App f a) = (h, bs)" by fastforce
  have no: "\<not> head_ok w h (length bs) idx inLam"
    using 3(7) by (simp add: head_ok_def split: trm.split)
  have m: "matches_ok st h" "\<forall>x \<in> set bs. matches_ok st x"
    using spine_matches [OF s 3(6)] by (auto simp: list_all_iff)
  let ?ref = "case h of Ref h ts \<Rightarrow> True | Self ts \<Rightarrow> True | _ \<Rightarrow> False"
  show ?case
  proof (cases ?ref)
    case True
    have x: "confined st metas w (bs ! j) idx inLam \<longleftrightarrow> \<not> mentions st (bs ! j) idx"
      if "j < length bs" "bs ! j \<noteq> Var idx" for j
      using 3(3) [OF s [symmetric] refl no True, of "(j, bs ! j)" j "bs ! j"] 3(7) m(2) that
      by (simp add: in_set_enumerate_eq)
    have "confined st metas w (App f a) idx inLam \<longleftrightarrow>
        (\<forall>j < length bs. if bs ! j = Var idx then False else confined st metas w (bs ! j) idx inLam)"
      using s no True 3(7) by (auto simp: list_all_iff in_set_enumerate_eq)
    also have "\<dots> \<longleftrightarrow> (\<forall>j < length bs. \<not> mentions st (bs ! j) idx)"
      using x by (metis (full_types) mentions.simps(1))
    also have "\<dots> \<longleftrightarrow> \<not> mentions st (App f a) idx"
      using True spine_mentions [OF s, of st idx] by (auto simp: in_set_conv_nth split: trm.splits; metis nth_mem)
    finally show ?thesis .
  next
    case False
    have "confined st metas w h idx inLam \<longleftrightarrow> \<not> mentions st h idx"
      using 3(4) [OF s [symmetric] refl no False] m(1) 3(7) by simp
    moreover have "\<forall>x \<in> set bs. confined st metas w x idx inLam \<longleftrightarrow> \<not> mentions st x idx"
      using 3(5) [OF s [symmetric] refl no False] m(2) 3(7) by simp
    ultimately show ?thesis
      using False s no spine_mentions [OF s, of st idx] by (auto simp: list_all_iff)
  qed
next
  case (6 st metas w h a arms idx inLam)
  show ?case
  proof (cases "GetDef st h")
    case (Inr d)
    have "confined st metas w x (idx + length fs) inLam \<longleftrightarrow> \<not> mentions st x (idx + length fs)"
      if "(x, fs) \<in> set (zip arms (ctors_of d))" for x fs
      using 6(2) [OF Inr that refl] 6(3,4) set_zip_leftD [OF that] by (simp add: list_all_iff)
    then have "list_all (\<lambda>(x, fs). confined st metas w x (idx + length fs) inLam) (zip arms (ctors_of d)) \<longleftrightarrow>
        \<not> list_ex (\<lambda>(x, fs). mentions st x (idx + length fs)) (zip arms (ctors_of d))"
      by (auto simp: list_all_iff list_ex_iff)
    with Inr 6(1,3,4) show ?thesis by simp
  qed (use 6 in simp)
qed (auto simp: list_all_iff list_ex_iff)

end
