(* ===== verification/Objects.thy ===== *)
theory Objects
  imports Meta DecodeTerm CheckDef Sha256 "HOL-Library.AList"
begin

text \<open>
  The content-addressed store of \<^verbatim>\<open>oath/store.go\<close>: objects under the digest of their bytes,
  metadata, the index of names, and the two caches. The back end is a table of bytes, its
  writes do not fail, and metadata are kept as they are (the Go code stores them as JSON).
  Objects are listed with the most recent first; no operation depends on their order.

  \<^verbatim>\<open>GetDef\<close> calls \<^verbatim>\<open>checkDef\<close>, which calls \<^verbatim>\<open>GetDef\<close> for the hashes it meets. Here the object that
  is loaded is put in the cache first, as it decodes, and checked against the live store: what
  is cached, and what every other object that is present loads to with that cache. The checker
  only looks at what the definition leads to, so the objects that Go does not load meanwhile
  make no difference. An accepted object stays cached with those it leads to; when one is
  rejected, Go also keeps the dependencies it had come to, which are not kept here.
\<close>

record ostore =
  objects :: "(hash \<times> bytes) list"
  ometas :: "(hash \<times> meta) list"
  names :: "(string \<times> hash) list"
  dcache :: "(hash \<times> def) list"
  mcache :: "(hash \<times> meta) list"

datatype oerr =
    ONoDef hash | OMismatch hash hash | ODecode hash derr | OIllFormed hash ckerr | ONoMeta hash
  | ONotEncodable

subsection \<open>Loading\<close>

definition hex_digest :: "bytes \<Rightarrow> hash" where
  "hex_digest b = hex_encode (sha256 b)"

definition hashDef :: "def \<Rightarrow> hash option" where
  "hashDef d = map_option hex_digest (encodeDef d)"

definition Resolve :: "ostore \<Rightarrow> string \<Rightarrow> hash option" where
  "Resolve s n = map_of (names s) n"

text \<open>One object, checked against the store that is live when its decoding is cached.\<close>

definition load_object :: "(def \<Rightarrow> store) \<Rightarrow> hash \<Rightarrow> bytes \<Rightarrow> oerr + def" where
  "load_object live h b =
     (if hex_digest b \<noteq> h then Inl (OMismatch h (hex_digest b))
      else case decodeDef b of
          Inl e \<Rightarrow> Inl (ODecode h e)
        | Inr d \<Rightarrow> (case checkDef (live d) d of Inl e \<Rightarrow> Inl (OIllFormed h e) | Inr d' \<Rightarrow> Inr d'))"

text \<open>
  What the objects that are not cached load to. Each is in the cache while the others that it
  may lead to are loaded, so the recursion ends.
\<close>

definition uncached :: "(hash \<times> bytes) list \<Rightarrow> (hash \<times> def) list \<Rightarrow> nat" where
  "uncached os c = length (filter (\<lambda>g. map_of c g = None) (map fst os))"

lemma uncached_less:
  assumes "g \<in> fst ` set os" "map_of c g = None"
  shows "uncached os ((g, d) # c) < uncached os c"
proof -
  have "filter (\<lambda>h. map_of ((g, d) # c) h = None) (map fst os) =
      filter (\<lambda>h. h \<noteq> g) (filter (\<lambda>h. map_of c h = None) (map fst os))"
    unfolding filter_filter by (rule filter_cong) auto
  moreover have "g \<in> set (filter (\<lambda>h. map_of c h = None) (map fst os))" using assms by auto
  ultimately show ?thesis unfolding uncached_def by (simp only: length_filter_less)
qed

function loaded :: "hash option \<Rightarrow> (hash \<times> bytes) list \<Rightarrow> (hash \<times> def) list \<Rightarrow> (hash \<times> def) list" where
  "loaded sl os c =
     concat (map (\<lambda>g.
       if map_of c g \<noteq> None then []
       else case load_object (\<lambda>d. \<lparr>sdefs = ((g, d) # c) @ loaded sl os ((g, d) # c), slist = sl\<rparr>) g (the (map_of os g)) of
           Inl e \<Rightarrow> []
         | Inr d \<Rightarrow> [(g, d)]) (map fst os))"
  by pat_completeness auto
termination by (relation "measure (\<lambda>(sl, os, c). uncached os c)") (auto intro: uncached_less)

declare loaded.simps [simp del]

definition live :: "ostore \<Rightarrow> (hash \<times> def) list \<Rightarrow> store" where
  "live s c = \<lparr>sdefs = c @ loaded (Resolve s ''List'') (objects s) c, slist = Resolve s ''List''\<rparr>"

definition view :: "ostore \<Rightarrow> store" where
  "view s = live s (dcache s)"

text \<open>What a set of hashes leads to through the definitions of a table, in at most so many steps.\<close>

primrec leads_to :: "nat \<Rightarrow> (hash \<times> def) list \<Rightarrow> hash set \<Rightarrow> hash set" where
  "leads_to 0 ds hs = hs"
| "leads_to (Suc n) ds hs =
     leads_to n ds (hs \<union> (\<Union>h \<in> hs. case map_of ds h of None \<Rightarrow> {} | Some d \<Rightarrow> collectDeps d))"

definition getDefFromBackend :: "ostore \<Rightarrow> hash \<Rightarrow> (oerr + def) \<times> ostore" where
  "getDefFromBackend s h =
     (case map_of (objects s) h of
        None \<Rightarrow> (Inl (ONoDef h), s)
      | Some b \<Rightarrow>
          (case load_object (\<lambda>d. live s ((h, d) # dcache s)) h b of
             Inl e \<Rightarrow>
               (Inl e, case e of OIllFormed g k \<Rightarrow> s\<lparr>dcache := AList.delete h (dcache s)\<rparr> | _ \<Rightarrow> s)
           | Inr d \<Rightarrow>
               (let c = (h, d) # dcache s;
                    ds = loaded (Resolve s ''List'') (objects s) c;
                    hs = leads_to (length ds) ds (collectDeps d)
                in (Inr d, s\<lparr>dcache := c @ filter (\<lambda>(g, _). g \<in> hs) ds\<rparr>))))"

definition getDef :: "ostore \<Rightarrow> hash \<Rightarrow> (oerr + def) \<times> ostore" where
  "getDef s h = (case map_of (dcache s) h of Some d \<Rightarrow> (Inr d, s) | None \<Rightarrow> getDefFromBackend s h)"

definition getMeta :: "ostore \<Rightarrow> hash \<Rightarrow> (oerr + meta) \<times> ostore" where
  "getMeta s h =
     (case map_of (mcache s) h of
        Some m \<Rightarrow> (Inr m, s)
      | None \<Rightarrow>
          (case map_of (ometas s) h of
             None \<Rightarrow> (Inl (ONoMeta h), s)
           | Some m \<Rightarrow> (Inr m, s\<lparr>mcache := AList.update h m (mcache s)\<rparr>)))"

subsection \<open>Writing\<close>

definition put_object :: "hash \<Rightarrow> bytes \<Rightarrow> (hash \<times> bytes) list \<Rightarrow> (hash \<times> bytes) list" where
  "put_object h b os = (if map_of os h \<noteq> None then AList.update h b os else (h, b) # os)"

definition naming_of :: "meta \<Rightarrow> alias_naming" where
  "naming_of m =
     \<lparr>al_tyvars = tyvar_names m, al_ctors = ctor_names m, al_props = prop_names m, al_params = param_names m\<rparr>"

text \<open>
  The merge of \<^verbatim>\<open>StoreObject\<close>: verdict fields belong to the hash and are kept, the naming block
  of the previous name becomes an alias unless the name is the same.
\<close>

definition merge_meta :: "meta \<Rightarrow> meta \<Rightarrow> meta" where
  "merge_meta prev m =
     (let m1 = m\<lparr>guarantee := guarantee prev, proven_props := proven_props prev, hints := hints prev,
            mutants_killed := mutants_killed prev, mutants_total := mutants_total prev,
            campaign := campaign prev, waived := waived prev, mtermination := mtermination prev,
            mconfinement := mconfinement prev, spec_author := spec_author prev,
            body_author := body_author prev, aliases := aliases prev\<rparr>
      in if mname prev \<noteq> mname m
         then m1\<lparr>aliases := ((aliases prev)(mname prev \<mapsto> naming_of prev))(mname m := None)\<rparr>
         else m1)"

definition StoreObject :: "ostore \<Rightarrow> def \<Rightarrow> meta \<Rightarrow> oerr + (hash \<times> ostore)" where
  "StoreObject s d m =
     (case encodeDef d of
        None \<Rightarrow> Inl ONotEncodable
      | Some b \<Rightarrow>
          (let h = hex_digest b;
               (r, s1) = getMeta s h;
               m' = (case r of Inl e \<Rightarrow> m | Inr prev \<Rightarrow> merge_meta prev m)
           in Inr (h, s1\<lparr>objects := put_object h b (objects s1),
                 ometas := AList.update h m' (ometas s1),
                 dcache := AList.update h d (dcache s1),
                 mcache := AList.update h m' (mcache s1)\<rparr>)))"

text \<open>The previous binding is returned with the new index; an absent one is the empty string in Go.\<close>

definition Repoint :: "ostore \<Rightarrow> string \<Rightarrow> hash \<Rightarrow> hash option \<times> ostore" where
  "Repoint s n h = (map_of (names s) n, s\<lparr>names := AList.update n h (names s)\<rparr>)"

definition Put :: "ostore \<Rightarrow> def \<Rightarrow> meta \<Rightarrow> oerr + (hash \<times> hash option \<times> ostore)" where
  "Put s d m =
     (case StoreObject s d m of
        Inl e \<Rightarrow> Inl e
      | Inr (h, s1) \<Rightarrow> (case Repoint s1 (mname m) h of (prev, s2) \<Rightarrow> Inr (h, prev, s2)))"

definition CacheDef :: "ostore \<Rightarrow> hash \<Rightarrow> def \<Rightarrow> ostore" where
  "CacheDef s h d = s\<lparr>dcache := AList.update h d (dcache s)\<rparr>"

definition SetMeta :: "ostore \<Rightarrow> hash \<Rightarrow> meta \<Rightarrow> ostore" where
  "SetMeta s h m = s\<lparr>ometas := AList.update h m (ometas s), mcache := AList.update h m (mcache s)\<rparr>"

definition RefreshMutable :: "ostore \<Rightarrow> ostore" where
  "RefreshMutable s = s\<lparr>mcache := []\<rparr>"

definition AllHashes :: "ostore \<Rightarrow> hash list" where
  "AllHashes s = sort (map fst (objects s))"

subsection \<open>Names\<close>

definition shortHash :: "hash \<Rightarrow> string" where
  "shortHash h = (if 12 < length h then take 12 h else h)"

text \<open>The loop ranges over a Go map, in any order: here the order of the list.\<close>

definition least_name :: "hash \<Rightarrow> (string \<times> hash) list \<Rightarrow> string" where
  "least_name h ns =
     foldl (\<lambda>best (n, g). if g = h \<and> (best = '''' \<or> n < best) then n else best) '''' ns"

definition NameOf :: "ostore \<Rightarrow> hash \<Rightarrow> string \<times> ostore" where
  "NameOf s h =
     (if least_name h (names s) \<noteq> '''' then (least_name h (names s), s)
      else case getMeta s h of
          (Inr m, s') \<Rightarrow> (mname m @ ''@'' @ shortHash h, s')
        | (Inl e, s') \<Rightarrow> (''#'' @ shortHash h, s'))"

text \<open>The constructor names a name of an object goes by: its own naming block, or the main one.\<close>

definition ctors_for :: "meta \<Rightarrow> string \<Rightarrow> string list" where
  "ctors_for m k =
     (if mname m \<noteq> k then (case aliases m k of Some a \<Rightarrow> al_ctors a | None \<Rightarrow> ctor_names m)
      else ctor_names m)"

fun index_of :: "string \<Rightarrow> string list \<Rightarrow> nat option" where
  "index_of x [] = None"
| "index_of x (y # ys) = (if x = y then Some 0 else map_option Suc (index_of x ys))"

fun find_ctor :: "ostore \<Rightarrow> string \<Rightarrow> string list \<Rightarrow> (hash \<times> nat) option \<times> ostore" where
  "find_ctor s c [] = (None, s)"
| "find_ctor s c (k # ks) =
     (case map_of (names s) k of
        None \<Rightarrow> find_ctor s c ks
      | Some h \<Rightarrow>
          (case getMeta s h of
             (Inl e, s') \<Rightarrow> find_ctor s' c ks
           | (Inr m, s') \<Rightarrow>
               (case index_of c (ctors_for m k) of
                  Some i \<Rightarrow> (Some (h, i), s')
                | None \<Rightarrow> find_ctor s' c ks)))"

definition FindCtor :: "ostore \<Rightarrow> string \<Rightarrow> (hash \<times> nat) option \<times> ostore" where
  "FindCtor s c = find_ctor s c (sort (map fst (names s)))"

end
