(* ===== verification/StoreExt.thy ===== *)
theory StoreExt
  imports Soundness Reducible
begin

text \<open>
  A definition that was accepted when fewer definitions were in the store is still accepted
  when there are more: every judgement of the checker about a definition only depends on the
  definitions it refers to.
\<close>

definition extends :: "store \<Rightarrow> store \<Rightarrow> bool" where
  "extends st st' \<longleftrightarrow>
     slist st' = slist st \<and> (\<forall>h d. map_of (sdefs st) h = Some d \<longrightarrow> map_of (sdefs st') h = Some d)"

lemma extends_defD: "extends st st' \<Longrightarrow> map_of (sdefs st) h = Some d \<Longrightarrow> map_of (sdefs st') h = Some d"
  by (simp add: extends_def)

lemma ty_wf_extends: "extends st st' \<Longrightarrow> ty_wf st n ar t \<Longrightarrow> ty_wf st' n ar t"
  by (induction t) (auto simp: list_all_iff extends_def split: option.splits def.splits)

lemma listOfIntTy_extends: "extends st st' \<Longrightarrow> listOfIntTy st' = listOfIntTy st"
  by (simp add: listOfIntTy_def extends_def)

lemma primResultTy_extends: "extends st st' \<Longrightarrow> primResultTy st' op ts = primResultTy st op ts"
  by (simp add: primResultTy_def listOfIntTy_extends)

lemma typed_extends:
  assumes "typed E c t u" "extends (est E) st'"
  shows "typed (E\<lparr>est := st'\<rparr>) c t u"
proof -
  let ?E = "E\<lparr>est := st'\<rparr>"
  have wf: "wfT E t \<Longrightarrow> wfT ?E t" for t
    using ty_wf_extends [OF assms(2)] by simp
  have wfs: "list_all (wfT E) ts \<Longrightarrow> list_all (wfT ?E) ts" for ts
    using wf by (auto simp: list_all_iff)
  have look: "map_of (sdefs (est E)) h = Some d \<Longrightarrow> map_of (sdefs (est ?E)) h = Some d" for h d
    using extends_defD [OF assms(2)] by simp
  show ?thesis
    using assms(1)
  proof (induction rule: typed.induct)
    case (typed_Prim op c as ts t)
    then show ?case
      using primResultTy_extends [OF assms(2)] by (intro typed.typed_Prim) (auto elim: list_all2_mono)
  next
    case (typed_Ref h ts t b ps c)
    then show ?case using look wfs by (intro typed.typed_Ref)
  next
    case (typed_Ctor h ts cs i c as)
    then show ?case
      using look wfs by (intro typed.typed_Ctor) (auto elim: list_all2_mono)
  next
    case (typed_Match c a g ts h d arms t)
    then show ?case
      using look by (intro typed.typed_Match) (auto elim: list_all2_mono)
  next
    case (typed_Record ns as c ts)
    then show ?case by (intro typed.typed_Record) (auto elim: list_all2_mono)
  qed (use wf wfs in \<open>auto intro: typed.intros\<close>)
qed

subsection \<open>Positivity\<close>

text \<open>The data types of well-formed types are known, and so are those they lead to.\<close>

lemma ty_wf_datas: "ty_wf st n ar t \<Longrightarrow> h \<in> set (ty_datas t) \<Longrightarrow> \<exists>m cs. map_of (sdefs st) h = Some (DData m cs)"
  by (induction t) (auto simp: list_all_iff split: option.splits def.splits)

lemma arrowy_extends:
  assumes st: "store_wf st" and x: "extends st st'"
  shows "arrowy st' h \<Longrightarrow> map_of (sdefs st) h = Some (DData m cs) \<Longrightarrow> arrowy st h"
proof (induction arbitrary: m cs rule: arrowy.induct)
  case (unknown h)
  then show ?case using extends_defD [OF x] by fastforce
next
  case (here h n ds t)
  then have "map_of (sdefs st') h = Some (DData m cs)" using extends_defD [OF x] by blast
  with here show ?case by (intro arrowy.here [of h st m cs t]) simp_all
next
  case (below h n ds t g)
  then have "map_of (sdefs st') h = Some (DData m cs)" using extends_defD [OF x] by blast
  with below.hyps(2) have ds: "ds = cs" by simp
  have "def_wf st (DData m cs)" by (rule store_data [OF st below.prems])
  then have "ty_wf st m True t" using below.hyps(3) ds by (auto simp: list_all_iff)
  then obtain k es where "map_of (sdefs st) g = Some (DData k es)"
    using ty_wf_datas [OF _ below.hyps(4)] by blast
  then have "arrowy st g" by (rule below.IH)
  with below ds show ?case by (intro arrowy.below [of h st m cs t g]) simp_all
qed

lemma arrowy_extends_rev:
  assumes st: "store_wf st" and x: "extends st st'"
  shows "arrowy st h \<Longrightarrow> map_of (sdefs st) h = Some (DData m cs) \<Longrightarrow> arrowy st' h"
proof (induction arbitrary: m cs rule: arrowy.induct)
  case (here h n ds t)
  then show ?case
    using extends_defD [OF x] by (intro arrowy.here [of h st' n ds t]) simp_all
next
  case (below h n ds t g)
  then have "def_wf st (DData n ds)" by (intro store_data [OF st]) simp
  then have "ty_wf st n True t" using below.hyps(3) by (auto simp: list_all_iff)
  then obtain k es where "map_of (sdefs st) g = Some (DData k es)"
    using ty_wf_datas [OF _ below.hyps(4)] by blast
  then have "arrowy st' g" by (rule below.IH)
  with below show ?case
    using extends_defD [OF x] by (intro arrowy.below [of h st' n ds t g]) simp_all
next
  case (unknown h)
  then show ?case by fastforce
qed

lemma rec_occurs_extends:
  assumes st: "store_wf st" and x: "extends st st'"
  shows "ty_wf st n True t \<Longrightarrow> rec_occurs st' t neg p \<longleftrightarrow> rec_occurs st t neg p"
proof (induction t arbitrary: neg)
  case (TData h ts)
  then obtain m cs where "map_of (sdefs st) h = Some (DData m cs)"
    by (auto split: option.splits def.splits)
  then have "arrowy st' h \<longleftrightarrow> arrowy st h"
    using arrowy_extends [OF st x] arrowy_extends_rev [OF st x] by blast
  with TData show ?case by (auto simp: rec_occurs_simps list_all_iff)
qed (auto simp: rec_occurs_simps list_all_iff)

subsection \<open>Definitions\<close>

lemma prop_checked_self:
  assumes "list_all (\<lambda>b. tyIsConcrete b \<and> ty_wf (est E) 0 False b) (binders p)"
    and "typed E (pushAll [] (binders p)) (pbody p) TBool"
  shows "prop_checked E p p"
  using assms(1) typed_checkT [OF assms(2)] by (auto simp: prop_checked_def)

lemma checkDef_extends:
  assumes st: "store_wf st" and x: "extends st st'" and d: "checkDef st d = Inr d"
  shows "checkDef st' d = Inr d"
proof (cases d)
  case (DData n cs)
  have "\<forall>t \<in> set (concat cs). ty_wf st n True t \<and> \<not> rec_occurs st t False True" "cs \<noteq> []"
    using d checkDef_data [of st n cs d] by (simp_all add: DData)
  then have "\<forall>t \<in> set (concat cs). ty_wf st' n True t \<and> \<not> rec_occurs st' t False True"
    using ty_wf_extends [OF x] rec_occurs_extends [OF st x] by blast
  with \<open>cs \<noteq> []\<close> show ?thesis using checkDef_data [of st' n cs d] by (simp add: DData)
next
  case (DFunc n t b ps)
  let ?E = "\<lparr>est = st, etv = n, eself = Some t\<rparr>" and ?E' = "\<lparr>est = st', etv = n, eself = Some t\<rparr>"
  have w: "ty_wf st n False t" and pp: "list_all2 (prop_checked ?E) ps ps"
    using d checkDef_func [of st n t b ps d] by (auto simp: DFunc Let_def)
  have E: "env_wf ?E" using st w by (simp add: env_wf_def)
  have ty: "typed ?E [] b t \<and> list_all (\<lambda>p. typed ?E (pushAll [] (binders p)) (pbody p) TBool) ps"
    using checkDef_typed [OF st d] by (simp add: DFunc Let_def)
  have up: "typed ?E' c a u" if "typed ?E c a u" for c a u
    using typed_extends [OF that, of st'] x by simp
  have "prop_checked ?E' p p" if "p \<in> set ps" for p
  proof (rule prop_checked_self)
    have "prop_checked ?E p p" using pp that by (simp add: list_all2_same)
    then show "list_all (\<lambda>b. tyIsConcrete b \<and> ty_wf (est ?E') 0 False b) (binders p)"
      using ty_wf_extends [OF x] by (auto simp: prop_checked_def list_all_iff)
    show "typed ?E' (pushAll [] (binders p)) (pbody p) TBool"
      using ty that up by (auto simp: list_all_iff)
  qed
  then have "list_all2 (prop_checked ?E') ps ps" by (simp add: list_all2_same)
  moreover have "checkT ?E' [] b t = (b, 0, Inr ())" using ty by (intro typed_checkT up) simp
  ultimately show ?thesis
    using checkDef_func [of st' n t b ps d] ty_wf_extends [OF x w] by (auto simp: DFunc Let_def)
qed

subsection \<open>What an accepted definition refers to\<close>

definition deps_in :: "store \<Rightarrow> hash list \<Rightarrow> bool" where
  "deps_in st hs \<longleftrightarrow> (\<forall>h \<in> set hs. map_of (sdefs st) h \<noteq> None)"

lemma deps_in_simps [simp]:
  "deps_in st []" "deps_in st (h # hs) \<longleftrightarrow> map_of (sdefs st) h \<noteq> None \<and> deps_in st hs"
  "deps_in st (hs @ gs) \<longleftrightarrow> deps_in st hs \<and> deps_in st gs"
  "deps_in st (concat hss) \<longleftrightarrow> list_all (deps_in st) hss"
  by (auto simp: deps_in_def list_all_iff)

lemma ty_wf_deps: "ty_wf st n ar t \<Longrightarrow> deps_in st (ty_deps t)"
  by (induction t) (auto simp: list_all_iff split: option.splits)

lemma tys_wf_deps: "list_all (ty_wf st n ar) ts \<Longrightarrow> list_all (deps_in st) (map ty_deps ts)"
  by (auto simp: list_all_iff ty_wf_deps)

lemma list_all2_deps:
  "list_all2 (\<lambda>x y. typed E c x y \<and> deps_in st (trm_deps x)) as ts \<Longrightarrow> list_all (deps_in st) (map trm_deps as)"
  by (induction rule: list_all2_induct) auto

lemma typed_deps: "typed E c t u \<Longrightarrow> deps_in (est E) (trm_deps t)"
proof (induction rule: typed.induct)
  case (typed_Match c a g ts h d arms t)
  have "list_all (deps_in (est E)) (map trm_deps arms)"
    using typed_Match.IH(2) by (auto simp: list_all_length list_all2_conv_all_nth)
  with typed_Match show ?case by (auto simp: hash_dep_def)
qed (auto simp: hash_dep_def ty_wf_deps tys_wf_deps list_all2_deps dest: list_all2_deps)

lemma checkDef_deps:
  assumes st: "store_wf st" and d: "checkDef st d = Inr d"
  shows "h \<in> collectDeps d \<Longrightarrow> map_of (sdefs st) h \<noteq> None"
proof -
  have "\<forall>h \<in> collectDeps d. map_of (sdefs st) h \<noteq> None"
  proof (cases d)
    case (DData n cs)
    then have "\<forall>t \<in> set (concat cs). deps_in st (ty_deps t)"
      using d checkDef_data [of st n cs d] ty_wf_deps by (simp add: DData) blast
    then show ?thesis by (auto simp: DData deps_in_def)
  next
    case (DFunc n t b ps)
    let ?E = "\<lparr>est = st, etv = n, eself = Some t\<rparr>"
    have w: "ty_wf st n False t" and pp: "\<forall>p \<in> set ps. prop_checked ?E p p"
      using d checkDef_func [of st n t b ps d] by (auto simp: DFunc Let_def list_all2_same)
    have ty: "typed ?E [] b t" "\<forall>p \<in> set ps. typed ?E (pushAll [] (binders p)) (pbody p) TBool"
      using checkDef_typed [OF st d] by (simp_all add: DFunc Let_def list_all_iff)
    have "deps_in st (ty_deps t)" "deps_in st (trm_deps b)"
      using ty_wf_deps [OF w] typed_deps [OF ty(1)] by simp_all
    moreover have "deps_in st (trm_deps (pbody p)) \<and> (\<forall>u \<in> set (binders p). deps_in st (ty_deps u))"
      if "p \<in> set ps" for p
    proof -
      have "\<forall>u \<in> set (binders p). ty_wf st 0 False u"
        using pp that by (auto simp: prop_checked_def list_all_iff)
      then show ?thesis using typed_deps [OF ty(2) [rule_format, OF that]] ty_wf_deps by auto
    qed
    ultimately show ?thesis by (auto simp: DFunc deps_in_def)
  qed
  then show "h \<in> collectDeps d \<Longrightarrow> map_of (sdefs st) h \<noteq> None" by blast
qed

end
