(* ===== verification/CheckAgree.thy ===== *)
theory CheckAgree
  imports CheckDef
begin

text \<open>
  What the checker says of a definition depends on the definitions its hashes lead to and on
  no other: two stores that agree on a set of hashes closed under the references of types give
  the same judgements, and what a judgement fills in stays within the set.
\<close>

abbreviation tyK :: "hash set \<Rightarrow> ty \<Rightarrow> bool" where
  "tyK K t \<equiv> set (ty_deps t) \<subseteq> K"

abbreviation tmK :: "hash set \<Rightarrow> trm \<Rightarrow> bool" where
  "tmK K t \<equiv> set (trm_deps t) \<subseteq> K"

definition tysK :: "hash set \<Rightarrow> ty list \<Rightarrow> bool" where
  "tysK K ts \<longleftrightarrow> list_all (tyK K) ts"

definition tmsK :: "hash set \<Rightarrow> trm list \<Rightarrow> bool" where
  "tmsK K ts \<longleftrightarrow> list_all (tmK K) ts"

definition optsK :: "hash set \<Rightarrow> ty option list \<Rightarrow> bool" where
  "optsK K s \<longleftrightarrow> list_all (pred_option (tyK K)) s"

lemma K_simps [simp]:
  "tysK K []" "tysK K (t # ts) \<longleftrightarrow> tyK K t \<and> tysK K ts"
  "tmsK K []" "tmsK K (a # as) \<longleftrightarrow> tmK K a \<and> tmsK K as"
  "optsK K []" "optsK K (x # s) \<longleftrightarrow> pred_option (tyK K) x \<and> optsK K s"
  "tysK K (ts @ us) \<longleftrightarrow> tysK K ts \<and> tysK K us"
  "optsK K (replicate n None)"
  by (auto simp: tysK_def tmsK_def optsK_def list_all_iff)

lemma K_concat [simp]:
  "(\<Union>x\<in>set ts. set (ty_deps x)) \<subseteq> K \<longleftrightarrow> tysK K ts"
  "(\<Union>x\<in>set as. set (trm_deps x)) \<subseteq> K \<longleftrightarrow> tmsK K as"
  by (auto simp: tysK_def tmsK_def list_all_iff)

fun defK :: "hash set \<Rightarrow> def \<Rightarrow> bool" where
  "defK K (DData n cs) \<longleftrightarrow> list_all (tysK K) cs"
| "defK K (DFunc n t b ps) \<longleftrightarrow> tyK K t"

definition sameK :: "hash set \<Rightarrow> store \<Rightarrow> store \<Rightarrow> bool" where
  "sameK K st st' \<longleftrightarrow>
     '''' \<in> K \<and> slist st' = slist st \<and> (\<forall>l. slist st = Some l \<longrightarrow> l \<in> K) \<and>
     (\<forall>h \<in> K. map_of (sdefs st') h = map_of (sdefs st) h \<and> (\<forall>d. map_of (sdefs st) h = Some d \<longrightarrow> defK K d))"

lemma sameKD:
  assumes "sameK K st st'"
  shows "h \<in> K \<Longrightarrow> GetDef st' h = GetDef st h" "h \<in> K \<Longrightarrow> map_of (sdefs st) h = Some d \<Longrightarrow> defK K d"
    "slist st' = slist st" "slist st = Some l \<Longrightarrow> l \<in> K" "'''' \<in> K"
  using assms by (auto simp: sameK_def GetDef_def)

subsection \<open>Types\<close>

lemma checkTyWF_same:
  shows "sameK K st st' \<Longrightarrow> tyK K t \<Longrightarrow> checkTyWF st' n ar t = checkTyWF st n ar t"
    and "sameK K st st' \<Longrightarrow> tysK K ts \<Longrightarrow> wf_list st' n ar ts = wf_list st n ar ts"
    and "sameK K st st' \<Longrightarrow> tysK K ts \<Longrightarrow> wf_fields st' n ar prev ns ts = wf_fields st n ar prev ns ts"
proof (induction st n ar t and st n ar ts and st n ar prev ns ts rule: checkTyWF_wf_list_wf_fields.induct)
  case (5 st n ar h as)
  then show ?case using sameKD(1) [OF 5(2), of h] by (auto split: def.split intro!: rbind_cong)
qed (auto split: option.split intro!: rbind_cong)

lemma substTy_K: "tyK K t \<Longrightarrow> tysK K ts \<Longrightarrow> tyK K (substTy t ts)"
  by (induction t) (auto simp: tysK_def list_all_iff)


lemma resolveRec_K: "tyK K t \<Longrightarrow> h \<in> K \<Longrightarrow> tyK K (resolveRec t h)"
  by (induction t) (auto simp: tysK_def list_all_iff)

lemma fields_K:
  assumes "defK K d" "h \<in> K" "tysK K ts" "i < length (ctors_of d)"
  shows "tysK K (instCtorFields d h ts i)"
proof -
  have "tysK K (ctors_of d ! i)" using assms(1,4) by (cases d) (auto simp: list_all_length ctors_of_def)
  then have "tyK K (resolveRec (substTy f ts) h)" if "f \<in> set (ctors_of d ! i)" for f
    using that assms(2,3) resolveRec_K substTy_K by (simp add: tysK_def list_all_iff)
  then show ?thesis by (auto simp: instCtorFields_def tysK_def list_all_iff)
qed

lemma identity_K [simp]: "tysK K (identityTyArgs n)"
  by (simp add: identityTyArgs_def tysK_def list_all_iff)

lemma optsK_update: "optsK K s \<Longrightarrow> tyK K t \<Longrightarrow> optsK K (s[i := Some t])"
  unfolding optsK_def list_all_iff using set_update_subset_insert [of s i "Some t"] by fastforce

lemma matchTy_K:
  shows "tyK K u \<Longrightarrow> optsK K s \<Longrightarrow> optsK K (fst (matchTy t u s))"
    and "tysK K us \<Longrightarrow> optsK K s \<Longrightarrow> optsK K (fst (matchTys ts us s))"
  by (induction t u s and ts us s rule: matchTy_matchTys.induct)
    (auto simp: optsK_update split: ty.split option.split prod.split)

lemma solved_K: "optsK K s \<Longrightarrow> unsolved i s = None \<Longrightarrow> tysK K (map the s)"
  by (induction i s rule: unsolved.induct) auto

lemma field_ty_K: "tysK K ts \<Longrightarrow> field_ty ns ts f = Some u \<Longrightarrow> tyK K u"
  by (induction ns ts f rule: field_ty.induct) (auto split: if_splits)

lemma peel_K: "peel t n = Some (ps, r) \<Longrightarrow> tyK K t \<Longrightarrow> tysK K ps \<and> tyK K r"
  by (induction t n arbitrary: ps rule: peel.induct) auto

lemma prim_same: "sameK K st st' \<Longrightarrow> primResultTy st' op ts = primResultTy st op ts"
  by (simp add: primResultTy_def listOfIntTy_def sameKD(3))

lemma numericTy_mem: "numericTy op ts = Inr u \<Longrightarrow> u \<in> set ts"
  by (auto simp: numericTy_def rbind_eq_Inr split: list.splits if_splits)

lemma prim_K: "sameK K st st' \<Longrightarrow> tysK K ts \<Longrightarrow> primResultTy st op ts = Inr u \<Longrightarrow> tyK K u"
  using sameKD(4) [of K st st']
  by (auto simp: primResultTy_def Let_def rbind_eq_Inr listOfIntTy_def tysK_def list_all_iff
      split: if_splits option.splits dest!: numericTy_mem)


subsection \<open>Judgements stay within the set\<close>

definition keep_sy :: "hash set \<Rightarrow> synther \<Rightarrow> bool" where
  "keep_sy K sy \<longleftrightarrow> (\<forall>c t t' n r. tysK K c \<longrightarrow> tmK K t \<longrightarrow> sy c t = (t', n, r) \<longrightarrow>
     tmK K t' \<and> (\<forall>u. r = Inr u \<longrightarrow> tyK K u))"

definition keep_ch :: "hash set \<Rightarrow> checker \<Rightarrow> bool" where
  "keep_ch K ch \<longleftrightarrow> (\<forall>c t w t' n r. tysK K c \<longrightarrow> tmK K t \<longrightarrow> tyK K w \<longrightarrow> ch c t w = (t', n, r) \<longrightarrow> tmK K t')"

lemma keep_syD:
  assumes "keep_sy K sy" "sy c t = (t', n, r)" "tysK K c" "tmK K t"
  shows "tmK K t'" "r = Inr u \<Longrightarrow> tyK K u"
  using assms unfolding keep_sy_def by metis+

lemma keep_chD: "keep_ch K ch \<Longrightarrow> ch c t w = (t', n, r) \<Longrightarrow> tysK K c \<Longrightarrow> tmK K t \<Longrightarrow> tyK K w \<Longrightarrow> tmK K t'"
  unfolding keep_ch_def by metis

lemma synth_list_keep:
  "keep_sy K sy \<Longrightarrow> tysK K c \<Longrightarrow> tmsK K as \<Longrightarrow> synth_list sy c as = (as', n, r) \<Longrightarrow>
   tmsK K as' \<and> (\<forall>ts. r = Inr ts \<longrightarrow> tysK K ts)"
  by (induction as arbitrary: as' n r) (auto split: prod.splits sum.splits simp: rbind_eq_Inr dest: keep_syD)

lemma synth_fields_keep:
  "keep_sy K sy \<Longrightarrow> tysK K c \<Longrightarrow> tmsK K as \<Longrightarrow> synth_fields sy c prev ns as = (as', n, r) \<Longrightarrow>
   tmsK K as' \<and> (\<forall>ts. r = Inr ts \<longrightarrow> tysK K ts)"
  by (induction sy c prev ns as arbitrary: as' n r rule: synth_fields.induct)
    (auto split: prod.splits sum.splits if_splits simp: rbind_eq_Inr dest: keep_syD)

lemma infer_pass_keep:
  "keep_sy K sy \<Longrightarrow> tysK K c \<Longrightarrow> tmsK K as \<Longrightarrow> optsK K s \<Longrightarrow> infer_pass sy c as ps s = (as', n, s', gots) \<Longrightarrow>
   tmsK K as' \<and> optsK K s' \<and> optsK K gots"
proof (induction sy c as ps s arbitrary: as' n s' gots rule: infer_pass.induct)
  case (1 sy c a as p ps s)
  obtain a' m r where a: "sy c a = (a', m, r)" by (metis prod.exhaust)
  have k: "tmK K a'" "r = Inr u \<Longrightarrow> tyK K u" for u using keep_syD [OF 1(3) a 1(4)] 1(5) by simp_all
  show ?case
  proof (cases r)
    case (Inl e)
    then show ?thesis using 1(1) [OF a [symmetric] refl Inl] 1(3-7) a k(1) by (auto split: prod.splits)
  next
    case (Inr t)
    then show ?thesis
      using 1(2) [OF a [symmetric] refl Inr] 1(3-7) a k matchTy_K(1) [of t K s p] by (auto split: prod.splits)
  qed
qed auto

lemma check_list_keep:
  "keep_ch K ch \<Longrightarrow> tysK K c \<Longrightarrow> tmsK K as \<Longrightarrow> tysK K ts \<Longrightarrow> check_list ch c as ts = (as', n, r) \<Longrightarrow> tmsK K as'"
  by (induction ch c as ts arbitrary: as' n r rule: check_list.induct)
    (auto split: prod.splits sum.splits dest: keep_chD)

lemma validate_args_keep:
  "keep_ch K ch \<Longrightarrow> tysK K c \<Longrightarrow> tmsK K as \<Longrightarrow> tysK K ps \<Longrightarrow> validate_args ch c i as ps gots = (as', n, r) \<Longrightarrow> tmsK K as'"
  by (induction ch c i as ps gots arbitrary: as' n r rule: validate_args.induct)
    (auto split: prod.splits sum.splits option.splits if_splits dest: keep_chD)

lemma pushAll_K: "tysK K c \<Longrightarrow> tysK K ts \<Longrightarrow> tysK K (pushAll c ts)"
  by (induction ts arbitrary: c) (simp_all add: pushAll_def pushCtx_def)

lemma synth_arms_keep:
  "keep_sy K sy \<Longrightarrow> tysK K c \<Longrightarrow> tmsK K as \<Longrightarrow> list_all (tysK K) fss \<Longrightarrow> pred_option (tyK K) res \<Longrightarrow>
   synth_arms sy c res as fss = (as', n, r) \<Longrightarrow> tmsK K as' \<and> (\<forall>u. r = Inr u \<longrightarrow> tyK K u)"
proof (induction sy c res as fss arbitrary: as' n r rule: synth_arms.induct)
  case (1 sy c res a as fs fss)
  obtain a' m q where a: "sy (pushAll c fs) a = (a', m, q)" by (metis prod.exhaust)
  have k: "tmK K a'" "q = Inr u \<Longrightarrow> tyK K u" for u
    using keep_syD [OF 1(3) a] 1(4-6) by (simp_all add: pushAll_K)
  show ?case
  proof (cases q)
    case (Inr t)
    then show ?thesis
      using 1(1,2) [OF a [symmetric] refl Inr] 1(3-8) a k by (auto split: option.splits prod.splits if_splits)
  qed (use 1(3-8) a k in auto)
qed (auto split: option.splits)

lemma check_arms_keep:
  "keep_ch K ch \<Longrightarrow> tysK K c \<Longrightarrow> tmsK K as \<Longrightarrow> list_all (tysK K) fss \<Longrightarrow> tyK K w \<Longrightarrow>
   check_arms ch c w as fss = (as', n, r) \<Longrightarrow> tmsK K as'"
  by (induction ch c w as fss arbitrary: as' n r rule: check_arms.induct)
    (auto split: prod.splits sum.splits dest: keep_chD simp: pushAll_K)


lemma getE_K: "sameK K (est E) st' \<Longrightarrow> h \<in> K \<Longrightarrow> getE E h = Inr d \<Longrightarrow> defK K d"
  using sameKD(2) [of K "est E" st' h d] by (simp add: getE_def lift_t_def GetDef_def split: option.splits)

subsection \<open>Agreeing judgements agree on lists\<close>

definition eq_sy :: "hash set \<Rightarrow> synther \<Rightarrow> synther \<Rightarrow> bool" where
  "eq_sy K sy sy' \<longleftrightarrow> (\<forall>c t. tysK K c \<longrightarrow> tmK K t \<longrightarrow> sy' c t = sy c t)"

definition eq_ch :: "hash set \<Rightarrow> checker \<Rightarrow> checker \<Rightarrow> bool" where
  "eq_ch K ch ch' \<longleftrightarrow> (\<forall>c t w. tysK K c \<longrightarrow> tmK K t \<longrightarrow> tyK K w \<longrightarrow> ch' c t w = ch c t w)"

lemma eq_syD: "eq_sy K sy sy' \<Longrightarrow> tysK K c \<Longrightarrow> tmK K t \<Longrightarrow> sy' c t = sy c t"
  by (simp add: eq_sy_def)

lemma eq_chD: "eq_ch K ch ch' \<Longrightarrow> tysK K c \<Longrightarrow> tmK K t \<Longrightarrow> tyK K w \<Longrightarrow> ch' c t w = ch c t w"
  by (simp add: eq_ch_def)

lemma synth_list_eq: "eq_sy K sy sy' \<Longrightarrow> tysK K c \<Longrightarrow> tmsK K as \<Longrightarrow> synth_list sy' c as = synth_list sy c as"
  by (induction as) (auto simp: eq_syD split: prod.split sum.split)

lemma synth_fields_eq:
  "eq_sy K sy sy' \<Longrightarrow> tysK K c \<Longrightarrow> tmsK K as \<Longrightarrow> synth_fields sy' c prev ns as = synth_fields sy c prev ns as"
  by (induction sy c prev ns as rule: synth_fields.induct) (auto simp: eq_syD split: prod.split sum.split option.split)

lemma infer_pass_eq:
  "eq_sy K sy sy' \<Longrightarrow> tysK K c \<Longrightarrow> tmsK K as \<Longrightarrow> infer_pass sy' c as ps s = infer_pass sy c as ps s"
  by (induction sy c as ps s rule: infer_pass.induct) (auto simp: eq_syD split: prod.split sum.split)

lemma check_list_eq:
  "eq_ch K ch ch' \<Longrightarrow> tysK K c \<Longrightarrow> tmsK K as \<Longrightarrow> tysK K ts \<Longrightarrow> check_list ch' c as ts = check_list ch c as ts"
  by (induction ch c as ts rule: check_list.induct) (auto simp: eq_chD split: prod.split sum.split)

lemma validate_args_eq:
  "eq_ch K ch ch' \<Longrightarrow> tysK K c \<Longrightarrow> tmsK K as \<Longrightarrow> tysK K ps \<Longrightarrow>
   validate_args ch' c i as ps gots = validate_args ch c i as ps gots"
  by (induction ch c i as ps gots rule: validate_args.induct) (auto simp: eq_chD split: prod.split sum.split option.split)

lemma synth_arms_eq:
  "eq_sy K sy sy' \<Longrightarrow> tysK K c \<Longrightarrow> tmsK K as \<Longrightarrow> list_all (tysK K) fss \<Longrightarrow>
   synth_arms sy' c res as fss = synth_arms sy c res as fss"
  by (induction sy c res as fss rule: synth_arms.induct)
    (auto simp: eq_syD pushAll_K split: prod.split sum.split option.split)

lemma check_arms_eq:
  "eq_ch K ch ch' \<Longrightarrow> tysK K c \<Longrightarrow> tmsK K as \<Longrightarrow> list_all (tysK K) fss \<Longrightarrow> tyK K w \<Longrightarrow>
   check_arms ch' c w as fss = check_arms ch c w as fss"
  by (induction ch c w as fss rule: check_arms.induct) (auto simp: eq_chD pushAll_K split: prod.split sum.split)

subsection \<open>The rules\<close>

text \<open>Two judgements that agree, and stay within the set, and their stores.\<close>

definition same_judges :: "hash set \<Rightarrow> env \<Rightarrow> store \<Rightarrow> synther \<Rightarrow> synther \<Rightarrow> checker \<Rightarrow> checker \<Rightarrow> bool" where
  "same_judges K E st' sy sy' ch ch' \<longleftrightarrow>
     sameK K (est E) st' \<and> pred_option (tyK K) (eself E) \<and>
     keep_sy K sy \<and> keep_ch K ch \<and> eq_sy K sy sy' \<and> eq_ch K ch ch'"

text \<open>An outcome that is the same in both and stays within the set.\<close>

definition same_ty :: "hash set \<Rightarrow> ty judged \<Rightarrow> ty judged \<Rightarrow> bool" where
  "same_ty K j j' \<longleftrightarrow> j' = j \<and> tmK K (fst j) \<and> (\<forall>u. snd (snd j) = Inr u \<longrightarrow> tyK K u)"

definition same_ck :: "hash set \<Rightarrow> unit judged \<Rightarrow> unit judged \<Rightarrow> bool" where
  "same_ck K j j' \<longleftrightarrow> j' = j \<and> tmK K (fst j)"

lemma hash_dep_K: "sameK K st st' \<Longrightarrow> set (hash_dep h) \<subseteq> K \<longleftrightarrow> h \<in> K"
  using sameKD(5) [of K st st'] by (auto simp: hash_dep_def)

lemma synth_ctor_same:
  assumes J: "same_judges K E st' sy sy' ch ch'"
    and c: "tysK K c" "tmsK K as" "tysK K ts" "h \<in> K" "pred_option (tyK K) want"
  shows "same_ty K (synth_ctor sy ch E c h i ts as want) (synth_ctor sy' ch' (E\<lparr>est := st'\<rparr>) c h i ts as want)"
proof -
  note st = J [unfolded same_judges_def, THEN conjunct1]
  have k: "keep_sy K sy" "keep_ch K ch" "eq_sy K sy sy'" "eq_ch K ch ch'" using J by (simp_all add: same_judges_def)
  have get: "getE (E\<lparr>est := st'\<rparr>) h = getE E h" using sameKD(1) [OF st c(4)] by (simp add: getE_def)
  have hd: "set (hash_dep h) \<subseteq> K" using hash_dep_K [OF st] c(4) by simp
  show ?thesis
  proof (cases "getE E h")
    case (Inr d)
    show ?thesis
    proof (cases d)
      case (DData n cs)
      let ?d = "DData n cs"
      have f: "tysK K (instCtorFields ?d h us i)" if "tysK K us" "i < length cs" for us
        using fields_K [OF getE_K [OF st c(4) Inr] c(4) that(1)] that(2) by (simp add: DData ctors_of_def)
      let ?s = "case want of None \<Rightarrow> replicate n None | Some t \<Rightarrow> fst (matchTy (TData h (identityTyArgs n)) t (replicate n None))"
      obtain as1 m1 s2 gots where ip: "infer_pass sy c as (instCtorFields ?d h (identityTyArgs n) i) ?s = (as1, m1, s2, gots)"
        by (metis prod.exhaust)
      have "optsK K ?s" using c(5) by (cases want) (simp_all add: matchTy_K(1) del: matchTy.simps)
      from infer_pass_keep [OF k(1) c(1,2) this ip] have k1: "tmsK K as1" "optsK K s2" by simp_all
      note ip' = infer_pass_eq [OF k(3) c(1,2)]
      have wf: "wfsE (E\<lparr>est := st'\<rparr>) ts = wfsE E ts" using checkTyWF_same(2) [OF st c(3)] by (simp add: wfsE_def)
      obtain as2 m2 r where cl: "check_list ch c as1 (instCtorFields ?d h (map the s2) i) = (as2, m2, r)" by (metis prod.exhaust)
      obtain as3 m3 r3 where cl3: "check_list ch c as (instCtorFields ?d h ts i) = (as3, m3, r3)" by (metis prod.exhaust)
      have "same_ty K (synth_ctor sy ch E c h i ts as want) (synth_ctor sy' ch' (E\<lparr>est := st'\<rparr>) c h i ts as want)"
        if i: "i < length cs" "unsolved 0 s2 = None" "inferReady n ts"
      proof -
        have s: "tysK K (map the s2)" by (rule solved_K [OF k1(2) i(2)])
        then have s': "(\<Union>x \<in> set s2. set (ty_deps (the x))) \<subseteq> K" by (auto simp: tysK_def list_all_iff)
        note f2 = f [OF s i(1)]
        have "tmsK K as2" by (rule check_list_keep [OF k(2) c(1) k1(1) f2 cl])
        moreover note check_list_eq [OF k(4) c(1) k1(1) f2]
        ultimately show ?thesis
          using i s s' c hd ip cl ip'
          by (simp add: synth_ctor_def get Inr DData same_ty_def rbind_eq_Inr Let_def)
      qed
      moreover have "same_ty K (synth_ctor sy ch E c h i ts as want) (synth_ctor sy' ch' (E\<lparr>est := st'\<rparr>) c h i ts as want)"
        if i: "i < length cs" "unsolved 0 s2 = Some v" "inferReady n ts" for v
        using i c hd ip ip' k1 by (simp add: synth_ctor_def get Inr DData same_ty_def rbind_eq_Inr Let_def)
      moreover have "same_ty K (synth_ctor sy ch E c h i ts as want) (synth_ctor sy' ch' (E\<lparr>est := st'\<rparr>) c h i ts as want)"
        if i: "i < length cs" "\<not> inferReady n ts"
      proof -
        note f3 = f [OF c(3) i(1)]
        have "tmsK K as3" by (rule check_list_keep [OF k(2) c(1,2) f3 cl3])
        moreover note check_list_eq [OF k(4) c(1,2) f3]
        ultimately show ?thesis
          using i c hd cl3 wf
          by (auto simp: synth_ctor_def get Inr DData same_ty_def rbind_eq_Inr Let_def split: sum.split)
      qed
      ultimately show ?thesis
        using c hd by (cases "i < length cs"; cases "inferReady n ts"; cases "unsolved 0 s2")
          (simp_all add: synth_ctor_def get Inr DData same_ty_def Let_def)
    qed (use c hd in \<open>simp add: synth_ctor_def get Inr same_ty_def\<close>)
  qed (use c hd in \<open>simp add: synth_ctor_def get same_ty_def\<close>)
qed


lemma respine_K: "tmK K (respine h as) \<longleftrightarrow> tmK K h \<and> tmsK K as"
  unfolding respine_def by (induction as arbitrary: h) auto

lemma spine_K: "spine t = (h, as) \<Longrightarrow> tmK K t \<Longrightarrow> tmK K h \<and> tmsK K as"
  using respine_K [of h as K] spine_respine by metis

lemma set_tyargs_K: "tmK K h \<Longrightarrow> tysK K us \<Longrightarrow> tmK K (set_tyargs h us)"
  by (cases h) auto

lemma infer_head_same:
  assumes J: "same_judges K E st' sy sy' ch ch'" and h: "tmK K h"
  shows "infer_head (E\<lparr>est := st'\<rparr>) h = infer_head E h \<and> (\<forall>raw n. infer_head E h = Some (raw, n) \<longrightarrow> tyK K raw)"
proof (cases h)
  case (Ref g ts)
  note st = J [unfolded same_judges_def, THEN conjunct1]
  have g: "g \<in> K" using h hash_dep_K [OF st] Ref by auto
  then have "getE (E\<lparr>est := st'\<rparr>) g = getE E g" using sameKD(1) [OF st g] by (simp add: getE_def)
  moreover have "getE E g = Inr (DFunc n t b ps) \<Longrightarrow> tyK K t" for n t b ps using getE_K [OF st g] by fastforce
  ultimately show ?thesis by (auto simp: infer_head_def Ref split: sum.splits def.splits if_splits)
next
  case (Self ts)
  have "pred_option (tyK K) (eself E)" using J by (simp add: same_judges_def)
  then show ?thesis by (auto simp: infer_head_def Self split: option.splits if_splits)
qed (simp_all add: infer_head_def)

lemma try_infer_same:
  assumes J: "same_judges K E st' sy sy' ch ch'"
    and c: "tysK K c" "tmK K h" "tmsK K as" "pred_option (tyK K) want"
  shows "rel_option (same_ty K) (try_infer_app sy ch E c h as want) (try_infer_app sy' ch' (E\<lparr>est := st'\<rparr>) c h as want)"
proof (cases "infer_head E h")
  case None
  then show ?thesis using infer_head_same [OF J c(2)] by (simp add: try_infer_app_def)
next
  case (Some x)
  obtain raw n where x: "infer_head E h = Some (raw, n)" "infer_head (E\<lparr>est := st'\<rparr>) h = Some (raw, n)" "tyK K raw"
    using infer_head_same [OF J c(2)] Some by (cases x) auto
  have k: "keep_sy K sy" "keep_ch K ch" "eq_sy K sy sy'" "eq_ch K ch ch'" using J by (simp_all add: same_judges_def)
  show ?thesis
  proof (cases "peel raw (length as)")
    case None
    then show ?thesis using x c(2,3) by (simp add: try_infer_app_def same_ty_def respine_K)
  next
    case (Some y)
    obtain ps res where y: "peel raw (length as) = Some (ps, res)" using Some by (cases y) auto
    have pr: "tysK K ps" "tyK K res" using peel_K [OF y x(3)] by simp_all
    let ?s = "case want of None \<Rightarrow> replicate n None | Some t \<Rightarrow> fst (matchTy res t (replicate n None))"
    obtain as1 m1 s2 gots where ip: "infer_pass sy c as ps ?s = (as1, m1, s2, gots)" by (metis prod.exhaust)
    have "optsK K ?s" using c(4) by (cases want) (simp_all add: matchTy_K(1) del: matchTy.simps)
    from infer_pass_keep [OF k(1) c(1,3) this ip] have k1: "tmsK K as1" "optsK K s2" by simp_all
    note ip' = infer_pass_eq [OF k(3) c(1,3)]
    show ?thesis
    proof (cases "unsolved 0 s2")
      case (Some v)
      then show ?thesis using x y ip ip' c(2) k1(1) by (simp add: try_infer_app_def same_ty_def respine_K)
    next
      case None
      let ?ps = "map (\<lambda>p. substTy p (map the s2)) ps"
      have s: "tysK K (map the s2)" by (rule solved_K [OF k1(2) None])
      have ps: "tysK K ?ps" using pr(1) substTy_K [OF _ s] by (auto simp: tysK_def list_all_iff)
      obtain as2 m2 r where v: "validate_args ch c 0 as1 ?ps gots = (as2, m2, r)" by (metis prod.exhaust)
      have "tmsK K as2" by (rule validate_args_keep [OF k(2) c(1) k1(1) ps v])
      then show ?thesis
        using x y ip ip' None v validate_args_eq [OF k(4) c(1) k1(1) ps, of 0 gots] set_tyargs_K [OF c(2) s] substTy_K [OF pr(2) s]
        by (simp add: try_infer_app_def same_ty_def respine_K rbind_eq_Inr Let_def)
    qed
  qed
qed

lemma spine_try_same:
  assumes J: "same_judges K E st' sy sy' ch ch'" and c: "tysK K c" "tmK K t" "pred_option (tyK K) want"
  shows "rel_option (same_ty K) (spine_try sy ch E c t want) (spine_try sy' ch' (E\<lparr>est := st'\<rparr>) c t want)"
proof -
  obtain h as where h: "spine t = (h, as)" by fastforce
  show ?thesis
    using try_infer_same [OF J c(1) _ _ c(3)] spine_K [OF h c(2)] by (simp add: spine_try_def h)
qed

lemma refSelf_same:
  assumes J: "same_judges K E st' sy sy' ch ch'" and t: "tmK K t"
  shows "refSelfTy (E\<lparr>est := st'\<rparr>) t = refSelfTy E t \<and> (\<forall>u. refSelfTy E t = Inr u \<longrightarrow> tyK K u)"
proof -
  note st = J [unfolded same_judges_def, THEN conjunct1]
  have wf: "wfsE (E\<lparr>est := st'\<rparr>) ts = wfsE E ts" if "tysK K ts" for ts
    using checkTyWF_same(2) [OF st that] by (simp add: wfsE_def)
  show ?thesis
  proof (cases t)
    case (Ref g ts)
    have g: "g \<in> K" "tysK K ts" using t hash_dep_K [OF st] Ref by auto
    then have "getE (E\<lparr>est := st'\<rparr>) g = getE E g" using sameKD(1) [OF st g(1)] by (simp add: getE_def)
    moreover have "tyK K (substTy ty ts)" if "getE E g = Inr (DFunc n ty b ps)" for n ty b ps
      using getE_K [OF st g(1) that] substTy_K [OF _ g(2)] by simp
    ultimately show ?thesis
      by (cases "getE E g") (auto simp: refSelfTy_def Ref rbind_eq_Inr wf [OF g(2)] split: def.splits if_splits)
  next
    case (Self ts)
    have "pred_option (tyK K) (eself E)" "tysK K ts" using J t Self by (simp_all add: same_judges_def)
    then show ?thesis
      using wf substTy_K by (cases "eself E") (simp_all add: refSelfTy_def Self rbind_eq_Inr)
  qed (simp_all add: refSelfTy_def)
qed


lemma synth_eq_same:
  assumes J: "same_judges K E st' sy sy' ch ch'" and c: "tysK K c" "tmK K a" "tmK K b"
  shows "same_ty K (synth_eq sy ch c a b) (synth_eq sy' ch' c a b)"
proof -
  have k: "keep_sy K sy" "keep_ch K ch" "eq_sy K sy sy'" "eq_ch K ch ch'" using J by (simp_all add: same_judges_def)
  obtain a' n r where a: "sy c a = (a', n, r)" by (metis prod.exhaust)
  obtain b' m q where b: "sy c b = (b', m, q)" by (metis prod.exhaust)
  note ka = keep_syD [OF k(1) a c(1,2)] and kb = keep_syD [OF k(1) b c(1,3)]
  show ?thesis
  proof (cases r)
    case (Inr t)
    obtain b2 l s where ch: "ch c b t = (b2, l, s)" by (metis prod.exhaust)
    have "tmK K b2" using keep_chD [OF k(2) ch c(1,3)] ka Inr by simp
    then show ?thesis
      using a ch ka Inr c eq_syD [OF k(3) c(1,2)] eq_chD [OF k(4) c(1,3), of t]
      by (simp add: synth_eq_def same_ty_def rbind_eq_Inr)
  next
    case (Inl e)
    show ?thesis
    proof (cases q)
      case (Inr t)
      obtain a2 l s where ch: "ch c a' t = (a2, l, s)" by (metis prod.exhaust)
      have "tmK K a2" using keep_chD [OF k(2) ch c(1) ka(1)] kb Inr by simp
      then show ?thesis
        using a b ch ka kb Inl Inr c eq_syD [OF k(3) c(1,2)] eq_syD [OF k(3) c(1,3)] eq_chD [OF k(4) c(1) ka(1), of t]
        by (simp add: synth_eq_def same_ty_def rbind_eq_Inr)
    next
      case (Inl e')
      then show ?thesis
        using a b ka kb \<open>r = Inl e\<close> c eq_syD [OF k(3) c(1,2)] eq_syD [OF k(3) c(1,3)]
        by (simp add: synth_eq_def same_ty_def)
    qed
  qed
qed

lemma synth_prim_same:
  assumes J: "same_judges K E st' sy sy' ch ch'" and c: "tysK K c" "tmsK K as"
  shows "same_ty K (synth_prim sy ch E c op as) (synth_prim sy' ch' (E\<lparr>est := st'\<rparr>) c op as)"
proof (cases "op = ''==''")
  case True
  show ?thesis
  proof (cases "\<exists>a b. as = [a, b]")
    case True
    then obtain a b where as: "as = [a, b]" by blast
    then have "same_ty K (synth_eq sy ch c a b) (synth_eq sy' ch' c a b)"
      using c(2) by (intro synth_eq_same [OF J c(1)]) simp_all
    then show ?thesis using \<open>op = _\<close> by (simp add: synth_prim_def as)
  next
    case False
    then have "synth_prim sy ch E c op as = (Prim op as, 0, Inl (CEqArity (length as)))" for sy ch E
      using \<open>op = _\<close> by (auto simp: synth_prim_def split: list.split)
    then show ?thesis using c(2) by (simp add: same_ty_def)
  qed
next
  case False
  note st = J [unfolded same_judges_def, THEN conjunct1]
  have k: "keep_sy K sy" "eq_sy K sy sy'" using J by (simp_all add: same_judges_def)
  obtain as' n r where l: "synth_list sy c as = (as', n, r)" by (metis prod.exhaust)
  from synth_list_keep [OF k(1) c l] have l': "tmsK K as'" "r = Inr ts \<Longrightarrow> tysK K ts" for ts by simp_all
  show ?thesis
  proof (cases r)
    case (Inr ts)
    then show ?thesis
      using False l l' synth_list_eq [OF k(2) c] prim_K [OF st, of ts op]
      by (cases "primResultTy (est E) op ts") (simp_all add: synth_prim_def same_ty_def prim_same [OF st] lift_p_def)
  qed (use False l l' synth_list_eq [OF k(2) c] in \<open>simp add: synth_prim_def same_ty_def\<close>)
qed

lemma match_data_same:
  assumes J: "same_judges K E st' sy sy' ch ch'" and t: "tyK K t"
  shows "match_data (E\<lparr>est := st'\<rparr>) h n t = match_data E h n t \<and>
    (\<forall>fss. match_data E h n t = Inr fss \<longrightarrow> list_all (tysK K) fss)"
proof (cases t)
  case (TData g ts)
  note st = J [unfolded same_judges_def, THEN conjunct1]
  have g: "g \<in> K" "tysK K ts" using t TData by simp_all
  then have "getE (E\<lparr>est := st'\<rparr>) g = getE E g" using sameKD(1) [OF st g(1)] by (simp add: getE_def)
  moreover have "list_all (tysK K) (map (instCtorFields d g ts) [0..<length (ctors_of d)])" if "getE E g = Inr d" for d
    using fields_K [OF getE_K [OF st g(1) that] g] by (simp add: list_all_iff)
  ultimately show ?thesis
    by (cases "getE E g") (auto simp: match_data_def TData rbind_eq_Inr split: if_splits)
qed (simp_all add: match_data_def)

lemma wfE_same: "same_judges K E st' sy sy' ch ch' \<Longrightarrow> tyK K t \<Longrightarrow> wfE (E\<lparr>est := st'\<rparr>) t = wfE E t"
  using checkTyWF_same(1) [of K "est E" st' t] by (simp add: wfE_def same_judges_def)

lemma pushCtx_K [simp]: "tysK K (pushCtx c t) \<longleftrightarrow> tyK K t \<and> tysK K c"
  by (simp add: pushCtx_def)

lemma synth_body_same:
  assumes J: "same_judges K E st' sy sy' ch ch'" and c: "tysK K c" "tmK K t"
  shows "same_ty K (synth_body sy ch E c t) (synth_body sy' ch' (E\<lparr>est := st'\<rparr>) c t)"
proof -
  note st = J [unfolded same_judges_def, THEN conjunct1]
  have k: "keep_sy K sy" "eq_sy K sy sy'" using J by (simp_all add: same_judges_def)
  note kp = keep_syD [OF k(1)] and eq = eq_syD [OF k(2)]
  show ?thesis
  proof (cases t)
    case (Var i)
    then show ?thesis using c(1) by (auto simp: same_ty_def tysK_def list_all_length split: if_splits)
  next
    case (Lam p b)
    obtain b' n r where "sy (pushCtx c p) b = (b', n, r)" by (metis prod.exhaust)
    then show ?thesis
      using c kp [of "pushCtx c p" b b' n r] eq [of "pushCtx c p" b] wfE_same [OF J, of p] Lam
      by (auto simp: same_ty_def rbind_eq_Inr split: sum.split)
  next
    case (App f a)
    show ?thesis
    proof (cases "spine_try sy ch E c t None")
      case (Some j)
      then show ?thesis
        using spine_try_same [OF J c, of None] App by (auto simp: rel_option_iff same_ty_def split: option.splits)
    next
      case None
      then have s: "spine_try sy' ch' (E\<lparr>est := st'\<rparr>) c t None = None"
        using spine_try_same [OF J c, of None] by (auto simp: rel_option_iff split: option.splits)
      obtain f' n r where f: "sy c f = (f', n, r)" by (metis prod.exhaust)
      obtain a' m q where a: "sy c a = (a', m, q)" by (metis prod.exhaust)
      show ?thesis
        using None s App c kp [OF f] kp [OF a] f a eq [of c f] eq [of c a]
        by (auto simp: same_ty_def rbind_eq_Inr split: sum.split ty.split)
    qed
  next
    case (Let p a b)
    obtain a' n r where a: "sy c a = (a', n, r)" by (metis prod.exhaust)
    obtain b' m q where b: "sy (pushCtx c p) b = (b', m, q)" by (metis prod.exhaust)
    show ?thesis
      using Let c kp [OF a] kp [OF b] a b eq [of c a] eq [of "pushCtx c p" b] wfE_same [OF J, of p]
      by (auto simp: same_ty_def split: sum.split)
  next
    case (If a b d)
    obtain a' n r where a: "sy c a = (a', n, r)" by (metis prod.exhaust)
    obtain b' m q where b: "sy c b = (b', m, q)" by (metis prod.exhaust)
    obtain d' l s where d: "sy c d = (d', l, s)" by (metis prod.exhaust)
    show ?thesis
      using If c kp [OF a] kp [OF b] kp [OF d] a b d eq [of c a] eq [of c b] eq [of c d]
      by (auto simp: same_ty_def rbind_eq_Inr split: sum.split)
  next
    case (Prim op as)
    then show ?thesis using synth_prim_same [OF J c(1)] c(2) by simp
  next
    case (Ref h ts)
    then show ?thesis using refSelf_same [OF J c(2)] c(2) by (simp add: same_ty_def)
  next
    case (Self ts)
    then show ?thesis using refSelf_same [OF J c(2)] c(2) by (simp add: same_ty_def)
  next
    case (Ctor h i ts as)
    then show ?thesis using synth_ctor_same [OF J c(1), of as ts h None i] c(2) hash_dep_K [OF st] by simp
  next
    case (Match h a arms)
    obtain a' n r where a: "sy c a = (a', n, r)" by (metis prod.exhaust)
    show ?thesis
    proof (cases "\<exists>u fss. r = Inr u \<and> match_data E h (length arms) u = Inr fss")
      case True
      then obtain u fss where u: "r = Inr u" "match_data E h (length arms) u = Inr fss" by blast
      have tu: "tyK K u" using kp [OF a] c Match u by simp
      have fss: "list_all (tysK K) fss" "match_data (E\<lparr>est := st'\<rparr>) h (length arms) u = Inr fss"
        using match_data_same [OF J tu] u(2) by simp_all
      obtain as' m q where s: "synth_arms sy c None arms fss = (as', m, q)" by (metis prod.exhaust)
      have arms: "tmsK K arms" using c Match by simp
      show ?thesis
        using Match c kp [OF a] a u fss s synth_arms_keep [OF k(1) c(1) arms fss(1) _ s] synth_arms_eq [OF k(2) c(1) arms fss(1), of None] eq [of c a]
        by (simp add: same_ty_def)
    next
      case False
      then show ?thesis
        using Match c kp [OF a] a match_data_same [OF J, of _ h "length arms"] eq [of c a]
        by (auto simp: same_ty_def split: sum.split)
    qed
  next
    case (Record ns as)
    obtain as' n r where s: "synth_fields sy c None ns as = (as', n, r)" by (metis prod.exhaust)
    have as: "tmsK K as" using c Record by simp
    show ?thesis
      using Record c s synth_fields_keep [OF k(1) c(1) as s] synth_fields_eq [OF k(2) c(1) as]
      by (cases r) (simp_all add: same_ty_def)
  next
    case (Field a f)
    obtain a' n r where a: "sy c a = (a', n, r)" by (metis prod.exhaust)
    show ?thesis
    proof (cases r)
      case (Inr u)
      then show ?thesis
        using Field c kp [OF a] a eq [of c a]
        by (cases u) (auto simp: same_ty_def dest: field_ty_K split: option.split)
    qed (use Field c kp [OF a] a eq [of c a] in \<open>simp add: same_ty_def\<close>)
  qed (simp_all add: same_ty_def)
qed


lemma same_compare: "same_ty K j j' \<Longrightarrow> same_ck K (compare_to w j) (compare_to w j')"
  by (simp add: same_ty_def same_ck_def compare_to_fst)

lemma check_body_same:
  assumes J: "same_judges K E st' sy sy' ch ch'" and c: "tysK K c" "tmK K t" "tyK K w"
  shows "same_ck K (check_body sy ch E c t w) (check_body sy' ch' (E\<lparr>est := st'\<rparr>) c t w)"
proof -
  note st = J [unfolded same_judges_def, THEN conjunct1]
  have k: "keep_sy K sy" "keep_ch K ch" "eq_sy K sy sy'" "eq_ch K ch ch'" using J by (simp_all add: same_judges_def)
  note kp = keep_syD [OF k(1)] and kc = keep_chD [OF k(2)] and eq = eq_syD [OF k(3)] and ec = eq_chD [OF k(4)]
  have dflt: "same_ck K (compare_to w (sy c t)) (compare_to w (sy' c t))"
  proof -
    obtain t' n r where s: "sy c t = (t', n, r)" by (metis prod.exhaust)
    show ?thesis using kp [OF s c(1,2)] eq [OF c(1,2)] s by (intro same_compare) (simp add: same_ty_def)
  qed
  show ?thesis
  proof (cases t)
    case (Lam p b)
    show ?thesis
    proof (cases "\<exists>p' q. w = TFun p' q")
      case True
      then obtain p' q where w: "w = TFun p' q" by blast
      obtain b' n r where "ch (pushCtx c p) b q = (b', n, r)" by (metis prod.exhaust)
      then show ?thesis
        using c kc [of "pushCtx c p" b q b' n r] ec [of "pushCtx c p" b q] wfE_same [OF J, of p] Lam w
        by (auto simp: same_ck_def split: sum.split)
    next
      case False
      then show ?thesis using dflt Lam by (auto split: ty.split)
    qed
  next
    case (App f a)
    have s: "rel_option (same_ty K) (spine_try sy ch E c t (Some w)) (spine_try sy' ch' (E\<lparr>est := st'\<rparr>) c t (Some w))"
      using c by (intro spine_try_same [OF J]) simp_all
    show ?thesis
    proof (cases "spine_try sy ch E c t (Some w)")
      case None
      with s have "spine_try sy' ch' (E\<lparr>est := st'\<rparr>) c t (Some w) = None" by simp
      with None show ?thesis using dflt App by simp
    next
      case (Some j)
      with s obtain j' where "spine_try sy' ch' (E\<lparr>est := st'\<rparr>) c t (Some w) = Some j'" "same_ty K j j'"
        by (auto simp: option_rel_Some1)
      with Some show ?thesis using same_compare App by simp
    qed
  next
    case (Let p a b)
    obtain a' n r where a: "ch c a p = (a', n, r)" by (metis prod.exhaust)
    obtain b' m q where b: "ch (pushCtx c p) b w = (b', m, q)" by (metis prod.exhaust)
    show ?thesis
      using Let c kc [OF a] kc [OF b] a b ec [of c a p] ec [of "pushCtx c p" b w] wfE_same [OF J, of p]
      by (auto simp: same_ck_def split: sum.split)
  next
    case (If a b d)
    obtain a' n r where a: "sy c a = (a', n, r)" by (metis prod.exhaust)
    obtain b' m q where b: "ch c b w = (b', m, q)" by (metis prod.exhaust)
    obtain d' l s where d: "ch c d w = (d', l, s)" by (metis prod.exhaust)
    show ?thesis
      using If c kp [OF a] kc [OF b] kc [OF d] a b d eq [of c a] ec [of c b w] ec [of c d w]
      by (auto simp: same_ck_def split: sum.split)
  next
    case (Ctor h i ts as)
    then show ?thesis
      using synth_ctor_same [OF J c(1), of as ts h "Some w" i] c(2,3) hash_dep_K [OF st] by (simp add: same_compare)
  next
    case (Match h a arms)
    obtain a' n r where a: "sy c a = (a', n, r)" by (metis prod.exhaust)
    show ?thesis
    proof (cases "\<exists>u fss. r = Inr u \<and> match_data E h (length arms) u = Inr fss")
      case True
      then obtain u fss where u: "r = Inr u" "match_data E h (length arms) u = Inr fss" by blast
      have tu: "tyK K u" using kp [OF a] c Match u by simp
      have fss: "list_all (tysK K) fss" "match_data (E\<lparr>est := st'\<rparr>) h (length arms) u = Inr fss"
        using match_data_same [OF J tu] u(2) by simp_all
      obtain as' m q where s: "check_arms ch c w arms fss = (as', m, q)" by (metis prod.exhaust)
      have arms: "tmsK K arms" using c Match by simp
      show ?thesis
        using Match c kp [OF a] a u fss s check_arms_keep [OF k(2) c(1) arms fss(1) c(3) s]
          check_arms_eq [OF k(4) c(1) arms fss(1) c(3)] eq [of c a]
        by (simp add: same_ck_def)
    next
      case False
      then show ?thesis
        using Match c kp [OF a] a match_data_same [OF J, of _ h "length arms"] eq [of c a]
        by (auto simp: same_ck_def split: sum.split)
    qed
  qed (use dflt in simp_all)
qed

lemma same_tyI:
  "(\<And>c t. tysK K c \<Longrightarrow> tmK K t \<Longrightarrow> same_ty K (sy c t) (sy' c t)) \<Longrightarrow> keep_sy K sy \<and> eq_sy K sy sy'"
  unfolding same_ty_def keep_sy_def eq_sy_def by (metis fst_conv snd_conv)

lemma same_ckI:
  "(\<And>c t w. tysK K c \<Longrightarrow> tmK K t \<Longrightarrow> tyK K w \<Longrightarrow> same_ck K (ch c t w) (ch' c t w)) \<Longrightarrow> keep_ch K ch \<and> eq_ch K ch ch'"
  unfolding same_ck_def keep_ch_def eq_ch_def by (metis fst_conv)

lemma judgements_same:
  assumes "sameK K (est E) st'" "pred_option (tyK K) (eself E)"
  shows "same_judges K E st' (synth k E) (synth k (E\<lparr>est := st'\<rparr>)) (check k E) (check k (E\<lparr>est := st'\<rparr>))"
proof (induction k)
  case 0
  show ?case
    using assms by (simp add: same_judges_def keep_sy_def keep_ch_def eq_sy_def eq_ch_def)
next
  case (Suc k)
  have "keep_sy K (synth (Suc k) E) \<and> eq_sy K (synth (Suc k) E) (synth (Suc k) (E\<lparr>est := st'\<rparr>))"
    using synth_body_same [OF Suc] by (intro same_tyI) simp
  moreover have "keep_ch K (check (Suc k) E) \<and> eq_ch K (check (Suc k) E) (check (Suc k) (E\<lparr>est := st'\<rparr>))"
    using check_body_same [OF Suc] by (intro same_ckI) simp
  ultimately show ?case using assms by (simp only: same_judges_def simp_thms)
qed


subsection \<open>Definitions\<close>

lemma sameK_sym: "sameK K st st' \<Longrightarrow> sameK K st' st"
  by (auto simp: sameK_def)

lemma datas_are_deps: "set (ty_datas t) = set (ty_deps t)"
  by (induction t) auto

lemma arrowy_same: "arrowy st h \<Longrightarrow> sameK K st st' \<Longrightarrow> h \<in> K \<Longrightarrow> arrowy st' h"
proof (induction rule: arrowy.induct)
  case (unknown h)
  then show ?case using sameKD(1) [of K st st' h] by (intro arrowy.unknown) simp_all
next
  case (here h n cs t)
  then show ?case using sameKD(1) [of K st st' h] by (intro arrowy.here [of h st' n cs t]) simp_all
next
  case (below h n cs t g)
  then have "defK K (DData n cs)" using sameKD(2) [of K st st' h] by (simp add: GetDef_def split: option.splits)
  then have "tyK K t" using below.hyps(3) by (auto simp: list_all_iff tysK_def)
  then have "g \<in> K" using below.hyps(4) datas_are_deps by blast
  then have "arrowy st' g" using below.IH below.prems(1) by blast
  then show ?case using below sameKD(1) [of K st st' h] by (intro arrowy.below [of h st' n cs t g]) simp_all
qed

lemma positive_same:
  shows "sameK K st st' \<Longrightarrow> tyK K t \<Longrightarrow> strictlyPositiveTy st' t neg = strictlyPositiveTy st t neg"
    and "sameK K st st' \<Longrightarrow> tysK K ts \<Longrightarrow> positives st' ts neg = positives st ts neg"
proof (induction st t neg and st ts neg rule: strictlyPositiveTy_positives.induct)
  case (4 st h as neg)
  have h: "h \<in> K" using 4(3) by simp
  have "data_arrow_free st' h = data_arrow_free st h"
    using arrowy_same [OF _ 4(2) h] arrowy_same [OF _ sameK_sym [OF 4(2)] h] by (auto simp: data_arrow_free_eq)
  then show ?case using 4 by simp
qed (auto intro!: rbind_cong)

lemma check_fields_same:
  assumes st: "sameK K st st'"
  shows "tysK K ts \<Longrightarrow> check_fields st' n ci fi ts = check_fields st n ci fi ts"
  by (induction ts arbitrary: fi) (simp_all add: checkTyWF_same(1) [OF st] positive_same(1) [OF st] split: sum.split)

lemma check_ctors_same:
  "sameK K st st' \<Longrightarrow> list_all (tysK K) cs \<Longrightarrow> check_ctors st' n ci cs = check_ctors st n ci cs"
  by (induction cs arbitrary: ci) (auto simp: check_fields_same intro!: rbind_cong)

lemma check_binders_same:
  "sameK K st st' \<Longrightarrow> tysK K bs \<Longrightarrow> check_binders st' j bi bs c = check_binders st j bi bs c"
  by (induction bs arbitrary: bi c) (auto simp: checkTyWF_same(1) split: sum.split)

lemma check_binders_ctx: "check_binders st j bi bs c = Inr c' \<Longrightarrow> tysK K bs \<Longrightarrow> tysK K c \<Longrightarrow> tysK K c'"
  by (induction bs arbitrary: bi c) (auto split: if_splits sum.splits simp: pushCtx_K)

lemma runCheck_same:
  assumes "sameK K (est E) st'" "pred_option (tyK K) (eself E)" "tysK K c" "tmK K t" "tyK K w"
  shows "runCheck (E\<lparr>est := st'\<rparr>) c t w = runCheck E c t w \<and> (\<forall>t' r. runCheck E c t w = Some (t', r) \<longrightarrow> tmK K t')"
proof -
  obtain t' n r where j: "check (2 * height t) E c t w = (t', n, r)" by (metis prod.exhaust)
  have J: "keep_ch K (check (2 * height t) E)"
    "eq_ch K (check (2 * height t) E) (check (2 * height t) (E\<lparr>est := st'\<rparr>))"
    using judgements_same [OF assms(1,2)] by (simp_all add: same_judges_def)
  show ?thesis
    using keep_chD [OF J(1) j assms(3-5)] eq_chD [OF J(2) assms(3-5)] j by (simp add: runCheck_eq checkT_def)
qed

definition propK :: "hash set \<Rightarrow> property \<Rightarrow> bool" where
  "propK K p \<longleftrightarrow> tysK K (binders p) \<and> tmK K (pbody p)"

lemma propK_pbody [simp]: "propK K (p\<lparr>pbody := t\<rparr>) \<longleftrightarrow> tysK K (binders p) \<and> tmK K t"
  by (simp add: propK_def)

lemma check_props_same:
  assumes st: "sameK K (est E) st'" and s: "pred_option (tyK K) (eself E)"
  shows "list_all (propK K) ps \<Longrightarrow> check_props (E\<lparr>est := st'\<rparr>) j ps = check_props E j ps \<and>
    (\<forall>ps'. check_props E j ps = Inr ps' \<longrightarrow> list_all (propK K) ps')"
proof (induction ps arbitrary: j)
  case (Cons p ps)
  have p: "tysK K (binders p)" "tmK K (pbody p)" using Cons.prems by (simp_all add: propK_def)
  note b = check_binders_same [OF st p(1), of j 0 "[]"]
  have IH: "check_props (E\<lparr>est := st'\<rparr>) (j + 1) ps = check_props E (j + 1) ps"
    "check_props E (j + 1) ps = Inr ps' \<Longrightarrow> list_all (propK K) ps'" for ps'
    using Cons by simp_all
  show ?case
  proof (cases "check_binders (est E) j 0 (binders p) []")
    case (Inr c)
    have c: "tysK K c" using check_binders_ctx [OF Inr p(1)] by simp
    have "tyK K TBool" by simp
    from runCheck_same [OF st s c p(2) this] show ?thesis
      using b IH Inr p(1) by (auto simp: rbind_eq_Inr split: option.split prod.split sum.split)
  qed (use b in simp)
qed simp

lemma defK_deps: "collectDeps d \<subseteq> K \<Longrightarrow> defK K d"
  by (cases d) (auto simp: list_all_iff tysK_def)

lemma deps_props:
  "set (concat (map (\<lambda>p. concat (map ty_deps (binders p)) @ trm_deps (pbody p)) ps)) \<subseteq> K \<longleftrightarrow> list_all (propK K) ps"
  by (induction ps) (auto simp: propK_def tysK_def list_all_iff)

lemma deps_func: "collectDeps (DFunc n t b ps) \<subseteq> K \<longleftrightarrow> tyK K t \<and> tmK K b \<and> list_all (propK K) ps"
  using deps_props [of ps K] by (simp only: collectDeps.simps Un_subset_iff conj_assoc)

lemma checkDef_same:
  assumes st: "sameK K st st'" and d: "collectDeps d \<subseteq> K"
  shows "checkDef st' d = checkDef st d \<and> (\<forall>d'. checkDef st d = Inr d' \<longrightarrow> collectDeps d' \<subseteq> K)"
proof (cases d)
  case (DData n cs)
  have "list_all (tysK K) cs" using defK_deps [OF d] by (simp add: DData)
  from check_ctors_same [OF st this] show ?thesis using d by (auto simp: DData rbind_eq_Inr)
next
  case (DFunc n t b ps)
  have k: "tyK K t" "tmK K b" "list_all (propK K) ps" using d [unfolded DFunc deps_func] by simp_all
  let ?E = "\<lparr>est = st, etv = n, eself = Some t\<rparr>"
  have "sameK K (est ?E) st'" "pred_option (tyK K) (eself ?E)" "tysK K []" using st k(1) by simp_all
  note r = runCheck_same [OF this k(2,1)] and p = check_props_same [OF this(1,2) k(3), of 0]
  show ?thesis
  proof (cases "runCheck ?E [] b t")
    case None
    then show ?thesis using r checkTyWF_same(1) [OF st k(1)] by (simp add: DFunc Let_def split: sum.split)
  next
    case (Some x)
    obtain b' q where x: "x = (b', q)" by (cases x)
    have "tmK K b'" using r Some x by simp
    then have "collectDeps (DFunc n t b' ps') \<subseteq> K" if "check_props ?E 0 ps = Inr ps'" for ps'
      using that p k(1) by (simp only: deps_func)
    then show ?thesis
      using r p Some x checkTyWF_same(1) [OF st k(1)]
      by (simp add: DFunc Let_def rbind_eq_Inr del: collectDeps.simps split: sum.split)
        (metis (no_types))
  qed
qed

end
