(* ===== verification/Loading.thy ===== *)
theory Loading
  imports Objects StoreExt CheckAgree
begin

text \<open>
  What the definitions of a store load to, whatever its bytes are. An object loads alike
  whatever else is cached or present, as long as no object leads to itself: the checker only
  looks at what the object leads to. So the definitions that load are a store of checked
  definitions, which can be put in the order of their references, a cache of loaded definitions
  stays one, and what is written loads again.
\<close>

subsection \<open>Loading\<close>

lemma hex_digest_nonempty [simp]: "hex_digest b \<noteq> ''''"
proof -
  have "length (sha256 b) \<noteq> 0" by (simp only: length_sha256)
  then show ?thesis by (metis hex_digest_def length_hex_encode list.size(3) mult_is_0 zero_neq_numeral)
qed

lemma load_object_Inr:
  "load_object lv h b = Inr d \<longleftrightarrow>
     hex_digest b = h \<and> (\<exists>d0. decodeDef b = Inr d0 \<and> checkDef (lv d0) d0 = Inr d)"
  by (auto simp: load_object_def split: sum.split)

lemma decoded_encode: "decodeDef b = Inr d \<Longrightarrow> encodeDef d = Some b"
  using encodeDef_eq [OF def_canon_encodable] by (simp add: decodeDef_iff)

lemma map_of_concat:
  "(\<And>g. f g = [] \<or> (\<exists>d. f g = [(g, d)])) \<Longrightarrow>
   map_of (concat (map f gs)) h = (if h \<in> set gs then map_of (f h) h else None)"
proof (induction gs)
  case (Cons g gs)
  have f: "map_of (f g) h = None" if "h \<noteq> g" using Cons.prems [of g] that by auto
  show ?case using Cons f by (cases "h = g") (auto simp: map_add_def split: option.split)
qed simp

lemma map_of_loaded:
  "map_of (loaded sl os c) h =
     (if map_of c h \<noteq> None then None
      else case map_of os h of
          None \<Rightarrow> None
        | Some b \<Rightarrow>
            (case load_object (\<lambda>d. \<lparr>sdefs = ((h, d) # c) @ loaded sl os ((h, d) # c), slist = sl\<rparr>) h b of
               Inl e \<Rightarrow> None
             | Inr d \<Rightarrow> Some d))"
proof -
  have "h \<in> fst ` set os \<longleftrightarrow> map_of os h \<noteq> None" by (auto simp: map_of_eq_None_iff)
  then show ?thesis
    by (subst loaded.simps, subst map_of_concat)
      (auto split: sum.splits option.split simp del: append_Cons)
qed

text \<open>What an object refers to, and what it leads to. A cycle would be a digest among the bytes it is of.\<close>

definition refers :: "(hash \<times> bytes) list \<Rightarrow> (hash \<times> hash) set" where
  "refers os =
     {(g, h). \<exists>b d. map_of os h = Some b \<and> hex_digest b = h \<and> decodeDef b = Inr d \<and> g \<in> collectDeps d}"

definition no_cycles :: "(hash \<times> bytes) list \<Rightarrow> bool" where
  "no_cycles os \<longleftrightarrow> acyclic (refers os)"

definition listType :: "def" where
  "listType = DData 1 [[], [TVar 0, TRec [TVar 0]]]"

text \<open>The name \<^verbatim>\<open>List\<close>, when it is bound, is bound to the list type.\<close>

definition list_bound :: "hash option \<Rightarrow> (hash \<times> bytes) list \<Rightarrow> bool" where
  "list_bound sl os \<longleftrightarrow>
     (case sl of None \<Rightarrow> True
      | Some l \<Rightarrow> \<exists>b. map_of os l = Some b \<and> hex_digest b = l \<and> decodeDef b = Inr listType)"

definition ancestors :: "hash option \<Rightarrow> (hash \<times> bytes) list \<Rightarrow> hash \<Rightarrow> hash set" where
  "ancestors sl os g = {k. (k, g) \<in> (refers os)\<^sup>+} \<union> set_option sl \<union> {''''}"

lemma finite_deps: "finite (collectDeps d)"
  by (cases d) simp_all

lemma refers_wf: "no_cycles os \<Longrightarrow> wf (refers os)"
proof -
  assume a: "no_cycles os"
  let ?deps = "\<lambda>b. case decodeDef b of Inl e \<Rightarrow> {} | Inr d \<Rightarrow> collectDeps d"
  have "refers os \<subseteq> (\<Union>x \<in> set os. ?deps (snd x) \<times> {fst x})"
  proof
    fix x
    assume "x \<in> refers os"
    then obtain g h b d where x: "x = (g, h)" "map_of os h = Some b" "decodeDef b = Inr d" "g \<in> collectDeps d"
      unfolding refers_def by blast
    have "(h, b) \<in> set os" by (rule map_of_SomeD [OF x(2)])
    then show "x \<in> (\<Union>x \<in> set os. ?deps (snd x) \<times> {fst x})" using x by (intro UN_I [of "(h, b)"]) simp_all
  qed
  moreover have "finite (?deps b)" for b by (cases "decodeDef b") (simp_all add: finite_deps)
  then have "finite (\<Union>x \<in> set os. ?deps (snd x) \<times> {fst x})"
    by (intro finite_UN_I finite_cartesian_product) simp_all
  ultimately have "finite (refers os)" by (rule finite_subset)
  then show ?thesis using a by (simp add: no_cycles_def finite_acyclic_wf)
qed

lemma ancestors_trans: "(k, g) \<in> (refers os)\<^sup>+ \<Longrightarrow> ancestors sl os k \<subseteq> ancestors sl os g"
  by (auto simp: ancestors_def)

lemma List_accepted: "checkDef st listType = Inr listType"
  by (simp add: listType_def checkDef_data rec_occurs_simps del: checkDef.simps)

lemma listType_deps [simp]: "collectDeps listType = {}"
  by (simp add: listType_def)

lemma List_loads: "list_bound (Some l) os \<Longrightarrow> map_of c l = None \<Longrightarrow> map_of (loaded (Some l) os c) l = Some listType"
  by (auto simp: map_of_loaded list_bound_def load_object_def List_accepted simp del: checkDef.simps)

lemma empty_unloaded: "map_of (loaded sl os c) '''' = None"
  by (auto simp: map_of_loaded load_object_Inr split: option.split sum.split)

text \<open>What an object loads to in a process that starts with an empty cache.\<close>

abbreviation fresh :: "hash option \<Rightarrow> (hash \<times> bytes) list \<Rightarrow> hash \<rightharpoonup> def" where
  "fresh sl os \<equiv> map_of (loaded sl os [])"

text \<open>A cache that holds such definitions where an object leads to.\<close>

definition cached_for :: "hash option \<Rightarrow> (hash \<times> bytes) list \<Rightarrow> (hash \<times> def) list \<Rightarrow> hash \<Rightarrow> bool" where
  "cached_for sl os c g \<longleftrightarrow>
     (\<forall>k \<in> ancestors sl os g. map_of c k \<noteq> None \<longrightarrow> map_of c k = fresh sl os k)"

lemma map_of_append:
  assumes "map_of c k \<noteq> None \<Longrightarrow> map_of c k = v" "map_of c k = None \<Longrightarrow> map_of ds k = v"
  shows "map_of (c @ ds) k = v"
proof (cases "map_of c k")
  case (Some x)
  then have "v = Some x" using assms(1) by simp
  then show ?thesis using Some by (simp add: map_add_def)
qed (use assms(2) in \<open>simp add: map_add_def\<close>)

lemma cached_lookup:
  "cached_for sl os c g \<Longrightarrow> k \<in> ancestors sl os g \<Longrightarrow> (map_of c k = None \<Longrightarrow> map_of (loaded sl os c) k = fresh sl os k) \<Longrightarrow>
   map_of (c @ loaded sl os c) k = fresh sl os k"
  by (cases "map_of c k") (auto simp: cached_for_def map_add_def split: option.split)

text \<open>
  Loading does not depend on what else is cached or present: only on what the object leads to.
\<close>

lemma live_same:
  assumes cyc: "no_cycles os" and l: "list_bound sl os" "list_bound sl os'"
    and F: "\<And>k. (k, g) \<in> (refers os)\<^sup>+ \<Longrightarrow> map_of (c @ loaded sl os c) k = F k"
      "\<And>k. (k, g) \<in> (refers os)\<^sup>+ \<Longrightarrow> map_of (c' @ loaded sl os' c') k = F k"
      "\<And>k d. (k, g) \<in> (refers os)\<^sup>+ \<Longrightarrow> F k = Some d \<Longrightarrow> collectDeps d \<subseteq> ancestors sl os k"
    and list: "\<And>l. sl = Some l \<Longrightarrow> map_of (c @ loaded sl os c) l = Some listType"
      "\<And>l. sl = Some l \<Longrightarrow> map_of (c' @ loaded sl os' c') l = Some listType"
    and empty: "map_of c '''' = None" "map_of c' '''' = None"
  shows "sameK (ancestors sl os g) \<lparr>sdefs = c @ loaded sl os c, slist = sl\<rparr> \<lparr>sdefs = c' @ loaded sl os' c', slist = sl\<rparr>"
proof -
  let ?K = "ancestors sl os g" and ?ds = "c @ loaded sl os c" and ?ds' = "c' @ loaded sl os' c'"
  have "map_of ?ds' h = map_of ?ds h \<and> (\<forall>d. map_of ?ds h = Some d \<longrightarrow> defK ?K d)" if h: "h \<in> ?K" for h
  proof -
    consider "(h, g) \<in> (refers os)\<^sup>+" | "sl = Some h" | "h = ''''" using h by (auto simp: ancestors_def)
    then show ?thesis
    proof cases
      case 1
      then have "defK ?K d" if "F h = Some d" for d
        using F(3) [OF 1 that] ancestors_trans [OF 1, of sl] by (intro defK_deps) blast
      then show ?thesis using F(1,2) [OF 1] by simp
    next
      case 2
      then show ?thesis using list by (simp add: defK_deps)
    next
      case 3
      then show ?thesis using empty empty_unloaded by (simp add: map_add_def)
    qed
  qed
  then show ?thesis by (auto simp: sameK_def ancestors_def)
qed


lemma fresh_List: "list_bound (Some l) os \<Longrightarrow> fresh (Some l) os l = Some listType"
  by (rule List_loads) simp_all

lemma cached_Nil [simp]: "cached_for sl os [] g"
  by (simp add: cached_for_def)

lemma cached_below:
  assumes cyc: "no_cycles os" and l: "list_bound sl os" and c: "cached_for sl os c g"
    and g: "g \<noteq> ''''" "sl = Some g \<Longrightarrow> d = listType" and k: "(k, g) \<in> (refers os)\<^sup>+"
  shows "cached_for sl os ((g, d) # c) k"
  unfolding cached_for_def
proof (intro ballI impI)
  fix j
  assume j: "j \<in> ancestors sl os k" "map_of ((g, d) # c) j \<noteq> None"
  show "map_of ((g, d) # c) j = fresh sl os j"
  proof (cases "j = g")
    case True
    have "(g, k) \<notin> (refers os)\<^sup>+" using cyc k by (metis acyclic_def no_cycles_def trancl_trans)
    then have "sl = Some g" using j(1) True g(1) by (auto simp: ancestors_def)
    then show ?thesis using True g(2) l fresh_List by simp
  next
    case False
    then show ?thesis using c j ancestors_trans [OF k, of sl] by (auto simp: cached_for_def)
  qed
qed

lemma cached_List:
  assumes "list_bound sl os" "sl = Some l" "cached_for sl os c g"
  shows "map_of (c @ loaded sl os c) l = Some listType"
proof -
  have "l \<in> ancestors sl os g" using assms(2) by (simp add: ancestors_def)
  from cached_lookup [OF assms(3) this] show ?thesis
    using assms fresh_List [of l os] List_loads [of l os c] by simp
qed

lemma cached_empty: "cached_for sl os c g \<Longrightarrow> map_of c '''' = None"
  using empty_unloaded [of sl os "[]"] by (auto simp: cached_for_def ancestors_def)

lemma cached_self:
  assumes "list_bound sl os" "sl = Some l" "sl = Some g \<Longrightarrow> d = listType" "cached_for sl os c g"
  shows "map_of (((g, d) # c) @ loaded sl os ((g, d) # c)) l = Some listType"
proof (cases "l = g")
  case False
  have "l \<in> ancestors sl os g" using assms(2) by (simp add: ancestors_def)
  then have "map_of c l = None \<or> map_of c l = Some listType"
    using assms(4) fresh_List [of l os] assms(1,2) by (fastforce simp: cached_for_def)
  then show ?thesis
    using False List_loads [of l os "(g, d) # c"] assms(1,2) by (auto simp: map_add_def)
qed (use assms(2,3) in simp)

lemma decoded_deps:
  "map_of os g = Some b \<Longrightarrow> hex_digest b = g \<Longrightarrow> decodeDef b = Inr d \<Longrightarrow> collectDeps d \<subseteq> ancestors sl os g"
  by (auto simp: ancestors_def refers_def)


text \<open>One load, with the lookups that the check of the object makes.\<close>

lemma loaded_cases [consumes 1, case_names unloaded decoded]:
  assumes "map_of c g = None"
  obtains (unloaded) "map_of (loaded sl os c) g = None" "\<And>c'. map_of c' g = None \<Longrightarrow> map_of (loaded sl os c') g = None"
      "\<And>os' c'. map_of c' g = None \<Longrightarrow> map_of os' g = map_of os g \<Longrightarrow> map_of (loaded sl os' c') g = None"
    | (decoded) b d where "map_of os g = Some b" "hex_digest b = g" "decodeDef b = Inr d"
      "\<And>os' c'. map_of c' g = None \<Longrightarrow> map_of os' g = map_of os g \<Longrightarrow> map_of (loaded sl os' c') g =
         (case checkDef \<lparr>sdefs = ((g, d) # c') @ loaded sl os' ((g, d) # c'), slist = sl\<rparr> d of Inl e \<Rightarrow> None | Inr d' \<Rightarrow> Some d')"
proof (cases "\<exists>b d. map_of os g = Some b \<and> hex_digest b = g \<and> decodeDef b = Inr d")
  case True
  then obtain b d where "map_of os g = Some b" "hex_digest b = g" "decodeDef b = Inr d" by blast
  then show ?thesis
    by (intro decoded [of b d]) (auto simp: map_of_loaded load_object_def simp del: checkDef.simps append_Cons split: sum.split)
next
  case False
  then have "map_of (loaded sl os' c') g = None" if "map_of c' g = None" "map_of os' g = map_of os g" for os' c'
    using that by (auto simp: map_of_loaded load_object_Inr split: option.split sum.split)
  then show ?thesis using assms by (intro unloaded) simp_all
qed

lemma load_fresh:
  assumes cyc: "no_cycles os" and l: "list_bound sl os"
  shows "cached_for sl os c g \<Longrightarrow> map_of c g = None \<Longrightarrow>
    map_of (loaded sl os c) g = fresh sl os g \<and> (\<forall>d. fresh sl os g = Some d \<longrightarrow> collectDeps d \<subseteq> ancestors sl os g)"
proof (induction g arbitrary: c rule: wf_induct_rule [OF wf_trancl [OF refers_wf [OF cyc]]])
  case (1 g)
  have f: "map_of [] g = None" by simp
  from 1(3) show ?case
  proof (cases rule: loaded_cases [where sl = sl and os = os])
    case unloaded
    then show ?thesis by simp
  next
    case (decoded b d)
    have g: "g \<noteq> ''''" "sl = Some g \<Longrightarrow> d = listType"
      using decoded(1-3) l by (auto simp: list_bound_def)
    let ?C = "\<lambda>c. ((g, d) # c) @ loaded sl os ((g, d) # c)"
    have look: "map_of (?C c) k = fresh sl os k" if "cached_for sl os c g" "(k, g) \<in> (refers os)\<^sup>+" for c k
    proof -
      have ne: "k \<noteq> g" using that(2) cyc by (auto simp: no_cycles_def acyclic_def)
      have c: "cached_for sl os ((g, d) # c) k" using cached_below [OF cyc l that(1) g that(2)] .
      have "map_of c k \<noteq> None \<Longrightarrow> map_of c k = fresh sl os k"
        using that by (auto simp: cached_for_def ancestors_def)
      then show ?thesis using 1(1) [OF that(2) c] ne by (intro map_of_append) simp_all
    qed
    have deps: "collectDeps e \<subseteq> ancestors sl os k" if "(k, g) \<in> (refers os)\<^sup>+" "fresh sl os k = Some e" for k e
      using 1(1) [OF that(1) cached_Nil] that(2) by simp
    have "sameK (ancestors sl os g) \<lparr>sdefs = ?C [], slist = sl\<rparr> \<lparr>sdefs = ?C c, slist = sl\<rparr>"
    proof (rule live_same [OF cyc l l])
      show "map_of (?C []) k = fresh sl os k" if "(k, g) \<in> (refers os)\<^sup>+" for k
        by (rule look [OF cached_Nil that])
      show "map_of (?C c) k = fresh sl os k" if "(k, g) \<in> (refers os)\<^sup>+" for k
        by (rule look [OF 1(2) that])
      show "map_of (?C []) l = Some listType" if "sl = Some l" for l
        by (rule cached_self [OF l that g(2) cached_Nil])
      show "map_of (?C c) l = Some listType" if "sl = Some l" for l
        by (rule cached_self [OF l that g(2) 1(2)])
      show "map_of [(g, d)] '''' = None" "map_of ((g, d) # c) '''' = None"
        using g(1) cached_empty [OF 1(2)] by simp_all
    qed (rule deps)
    from checkDef_same [OF this decoded_deps [OF decoded(1-3)]] show ?thesis
      using decoded(4) [OF f refl] decoded(4) [OF 1(3) refl] by (auto split: sum.splits simp del: checkDef.simps)
  qed
qed


text \<open>Objects that agree on what an object leads to load it alike.\<close>

lemma refers_agree:
  assumes same: "\<And>k. k = g \<or> (k, g) \<in> (refers os)\<^sup>+ \<Longrightarrow> map_of os' k = map_of os k" and k: "(k, g) \<in> (refers os)\<^sup>+"
  shows "(k, g) \<in> (refers os')\<^sup>+"
  using k
proof (induction rule: converse_trancl_induct)
  case (base k)
  then show ?case using same [of g] by (auto simp: refers_def)
next
  case (step k i)
  then have "(k, i) \<in> refers os'" using same [of i] by (auto simp: refers_def)
  then show ?case using step.IH by (rule trancl_into_trancl2)
qed

lemma fresh_agree:
  assumes cyc: "no_cycles os" "no_cycles os'" and l: "list_bound sl os" "list_bound sl os'"
  shows "(\<And>k. k = g \<or> (k, g) \<in> (refers os)\<^sup>+ \<Longrightarrow> map_of os' k = map_of os k) \<Longrightarrow> fresh sl os' g = fresh sl os g"
proof (induction g rule: wf_induct_rule [OF wf_trancl [OF refers_wf [OF cyc(1)]]])
  case (1 g)
  have f: "map_of [] g = None" by simp
  then show ?case
  proof (cases rule: loaded_cases [where sl = sl and os = os])
    case unloaded
    then show ?thesis using 1(2) by simp
  next
    case (decoded b d)
    have g: "g \<noteq> ''''" "sl = Some g \<Longrightarrow> d = listType"
      using decoded(1-3) l by (auto simp: list_bound_def)
    let ?C = "\<lambda>os. [(g, d)] @ loaded sl os [(g, d)]"
    have self: "(g, g) \<notin> (refers os)\<^sup>+" "(g, g) \<notin> (refers os')\<^sup>+" using cyc by (auto simp: no_cycles_def acyclic_def)
    have up: "(k, g) \<in> (refers os')\<^sup>+" if "(k, g) \<in> (refers os)\<^sup>+" for k by (rule refers_agree [OF 1(2) that])
    have look: "map_of (?C os) k = fresh sl os k" if "(k, g) \<in> (refers os)\<^sup>+" "no_cycles os" "list_bound sl os" for k os
    proof -
      have "k \<noteq> g" using that(1,2) by (auto simp: no_cycles_def acyclic_def)
      moreover from this have "map_of (loaded sl os [(g, d)]) k = fresh sl os k"
        using load_fresh [OF that(2,3) cached_below [OF that(2,3) cached_Nil g that(1)]] by simp
      ultimately show ?thesis by (simp add: map_add_def split: option.split)
    qed
    have same: "fresh sl os' k = fresh sl os k" if "(k, g) \<in> (refers os)\<^sup>+" for k
      using that 1(2) by (intro 1(1)) (auto intro: trancl_trans)
    have deps: "collectDeps e \<subseteq> ancestors sl os k" if "(k, g) \<in> (refers os)\<^sup>+" "fresh sl os k = Some e" for k e
      using load_fresh [OF cyc(1) l(1) cached_Nil, of k] that(2) by simp
    have "sameK (ancestors sl os g) \<lparr>sdefs = ?C os, slist = sl\<rparr> \<lparr>sdefs = ?C os', slist = sl\<rparr>"
    proof (rule live_same [OF cyc(1) l])
      show "map_of (?C os) k = fresh sl os k" "map_of (?C os') k = fresh sl os k" if "(k, g) \<in> (refers os)\<^sup>+" for k
        using look [OF that cyc(1) l(1)] look [OF up [OF that] cyc(2) l(2)] same [OF that] by simp_all
      show "map_of (?C os) l = Some listType" "map_of (?C os') l = Some listType" if "sl = Some l" for l
        using cached_self [OF assms(3) that g(2) cached_Nil] cached_self [OF assms(4) that g(2) cached_Nil] by simp_all
    qed (use g(1) deps in simp_all)
    from checkDef_same [OF this decoded_deps [OF decoded(1-3)]] show ?thesis
      using decoded(4) [OF f refl] decoded(4) [OF f, of os'] 1(2) by (auto split: sum.splits simp del: checkDef.simps)
  qed
qed

text \<open>Checking a definition in the live store, or against what every object loads to.\<close>

lemma live_view:
  assumes cyc: "no_cycles os" and l: "list_bound sl os" and g: "g \<noteq> ''''" "sl = Some g \<Longrightarrow> d = listType"
    and d: "collectDeps d \<subseteq> ancestors sl os g"
  shows "checkDef \<lparr>sdefs = loaded sl os [], slist = sl\<rparr> d = checkDef \<lparr>sdefs = [(g, d)] @ loaded sl os [(g, d)], slist = sl\<rparr> d"
proof -
  have "sameK (ancestors sl os g) \<lparr>sdefs = [(g, d)] @ loaded sl os [(g, d)], slist = sl\<rparr> \<lparr>sdefs = [] @ loaded sl os [], slist = sl\<rparr>"
  proof (rule live_same [OF cyc l l, where F = "fresh sl os"])
    fix k
    assume k: "(k, g) \<in> (refers os)\<^sup>+"
    have "k \<noteq> g" using k cyc by (auto simp: no_cycles_def acyclic_def)
    moreover from this have "map_of (loaded sl os [(g, d)]) k = fresh sl os k"
      using load_fresh [OF cyc l cached_below [OF cyc l cached_Nil g k]] by simp
    ultimately show "map_of ([(g, d)] @ loaded sl os [(g, d)]) k = fresh sl os k"
      by (simp add: map_add_def split: option.split)
  next
    fix k e
    assume "(k, g) \<in> (refers os)\<^sup>+" "fresh sl os k = Some e"
    then show "collectDeps e \<subseteq> ancestors sl os k" using load_fresh [OF cyc l cached_Nil, of k] by simp
  next
    fix k
    assume "sl = Some k"
    then show "map_of ([(g, d)] @ loaded sl os [(g, d)]) k = Some listType"
      using cached_self [OF l _ g(2) cached_Nil] by simp
    show "map_of ([] @ loaded sl os []) k = Some listType" using \<open>sl = Some k\<close> l fresh_List by simp
  qed (use g(1) in simp_all)
  from checkDef_same [OF this d] show ?thesis by simp
qed

lemma fresh_checked:
  assumes cyc: "no_cycles os" and l: "list_bound sl os" and d: "fresh sl os g = Some d"
  obtains b d0 where "map_of os g = Some b" "hex_digest b = g" "decodeDef b = Inr d0"
    "checkDef \<lparr>sdefs = loaded sl os [], slist = sl\<rparr> d0 = Inr d"
proof -
  have "map_of [] g = None" by simp
  then show thesis
  proof (cases rule: loaded_cases [where sl = sl and os = os])
    case (decoded b d0)
    have g: "g \<noteq> ''''" "sl = Some g \<Longrightarrow> d0 = listType"
      using decoded(1-3) l by (auto simp: list_bound_def)
    have "checkDef \<lparr>sdefs = [(g, d0)] @ loaded sl os [(g, d0)], slist = sl\<rparr> d0 = Inr d"
      using decoded(4) [of "[]" os] d by (simp del: checkDef.simps split: sum.splits)
    then show thesis
      using that [OF decoded(1-3)] live_view [OF cyc l g decoded_deps [OF decoded(1-3)]] by simp
  qed (use d in simp)
qed


subsection \<open>The view\<close>

text \<open>Every cached definition is what the object of its hash loads to; so it is at the start of a process.\<close>

definition coherent :: "ostore \<Rightarrow> bool" where
  "coherent s \<longleftrightarrow> (\<forall>g d. map_of (dcache s) g = Some d \<longrightarrow> fresh (Resolve s ''List'') (objects s) g = Some d)"

text \<open>What content addressing gives, and the list type.\<close>

definition addressed :: "ostore \<Rightarrow> bool" where
  "addressed s \<longleftrightarrow> no_cycles (objects s) \<and> list_bound (Resolve s ''List'') (objects s)"

lemma coherent_Nil [simp]: "dcache s = [] \<Longrightarrow> coherent s"
  by (simp add: coherent_def)

lemma checkDef_map_of:
  assumes "map_of (sdefs st') = map_of (sdefs st)" "slist st' = slist st"
  shows "checkDef st' d = checkDef st d"
proof -
  have "sameK UNIV st st'"
    using assms by (auto simp: sameK_def intro: defK_deps)
  from checkDef_same [OF this] show ?thesis by simp
qed

lemma view_fresh:
  assumes "addressed s" "coherent s"
  shows "map_of (sdefs (view s)) = fresh (Resolve s ''List'') (objects s)"
proof
  fix g
  let ?sl = "Resolve s ''List''"
  have "cached_for ?sl (objects s) (dcache s) g" using assms(2) by (auto simp: cached_for_def coherent_def)
  from load_fresh [OF _ _ this] assms show "map_of (sdefs (view s)) g = fresh ?sl (objects s) g"
    unfolding view_def live_def store.select_convs
    by (intro map_of_append) (auto simp: coherent_def addressed_def)
qed

lemma fresh_store_checked:
  assumes "no_cycles os" "list_bound sl os"
  shows "store_checked \<lparr>sdefs = loaded sl os [], slist = sl\<rparr>"
proof -
  let ?st = "\<lparr>sdefs = loaded sl os [], slist = sl\<rparr>"
  have list: "map_of (sdefs ?st) l = Some listType" if "slist ?st = Some l" for l
    using that assms(2) fresh_List by simp
  have acc: "\<exists>d0. checkDef ?st d0 = Inr d" if "map_of (sdefs ?st) g = Some d" for g d
    using fresh_checked [OF assms] that by (metis store.select_convs(1))
  have wf: "store_wf ?st"
    unfolding store_wf_def
  proof (intro conjI allI impI)
    fix g d
    assume "map_of (sdefs ?st) g = Some d"
    then obtain d0 where "checkDef ?st d0 = Inr d" using acc by blast
    then show "def_wf ?st d"
      by (cases d0) (auto simp: checkDef_func checkDef_data Let_def list_all_iff simp del: checkDef.simps)
  next
    fix l
    assume "slist ?st = Some l"
    from list [OF this] show "\<exists>cs. map_of (sdefs ?st) l = Some (DData 1 cs)" by (simp add: listType_def)
  qed
  have "g \<noteq> '''' \<and> checkDef ?st d = Inr d" if "map_of (sdefs ?st) g = Some d" for g d
    using acc [OF that] checkDef_typed [OF wf] that empty_unloaded [of sl os "[]"] by force
  then show ?thesis using list unfolding store_checked_def listType_def by blast
qed

lemma store_checked_map_of:
  assumes "map_of (sdefs st') = map_of (sdefs st)" "slist st' = slist st"
  shows "store_checked st' \<longleftrightarrow> store_checked st"
  using assms checkDef_map_of [OF assms] by (simp add: store_checked_def)

lemma view_checked: "addressed s \<Longrightarrow> coherent s \<Longrightarrow> store_checked (view s)"
  using fresh_store_checked [of "objects s" "Resolve s ''List''"] view_fresh [of s]
    store_checked_map_of [of "view s" "\<lparr>sdefs = loaded (Resolve s ''List'') (objects s) [], slist = Resolve s ''List''\<rparr>"]
  by (simp add: addressed_def) (simp add: view_def live_def)

subsection \<open>The order of what loads\<close>

lemma order_exists:
  "finite (dom f) \<Longrightarrow> acyclic {(k, g). \<exists>d. f g = Some d \<and> k \<in> collectDeps d} \<Longrightarrow>
   (\<And>g d. f g = Some d \<Longrightarrow> collectDeps d \<subseteq> dom f) \<Longrightarrow> \<exists>ds. ordered ds \<and> map_of ds = f"
proof (induction "card (dom f)" arbitrary: f)
  case 0
  then have "f = Map.empty" by (simp add: dom_def fun_eq_iff)
  then show ?case by (intro exI [of _ "[]"]) simp
next
  case (Suc n)
  let ?R = "\<lambda>f. {(k, g). \<exists>d. f g = Some d \<and> k \<in> collectDeps d}"
  have "?R f \<subseteq> dom f \<times> dom f" using Suc.prems(3) by blast
  then have "finite (?R f)" using Suc.prems(1) by (meson finite_SigmaI finite_subset)
  then have "wf ((?R f)\<inverse>)" using Suc.prems(2) by (simp add: finite_acyclic_wf_converse)
  moreover have "dom f \<noteq> {}" using Suc.hyps(2) by auto
  ultimately obtain g where g: "g \<in> dom f" "\<And>k. (g, k) \<in> ?R f \<Longrightarrow> k \<notin> dom f"
    by (metis (no_types, lifting) converse_iff equals0I wfE_min)
  then obtain d where d: "f g = Some d" by blast
  have top: "g \<notin> collectDeps e" if "f k = Some e" for k e using g(2) [of k] that by auto
  let ?f = "f(g := None)"
  have "\<exists>ds. ordered ds \<and> map_of ds = ?f"
  proof (rule Suc.hyps(1))
    show "n = card (dom ?f)" using Suc.hyps(2) Suc.prems(1) g(1) by simp
    show "finite (dom ?f)" using Suc.prems(1) by simp
    have "?R ?f \<subseteq> ?R f" by (auto split: if_splits)
    then show "acyclic (?R ?f)" by (rule acyclic_subset [OF Suc.prems(2)])
    show "collectDeps e \<subseteq> dom ?f" if "?f k = Some e" for k e
      using that Suc.prems(3) [of k e] top [of k e] by (auto split: if_splits)
  qed
  then obtain ds where ds: "ordered ds" "map_of ds = ?f" by blast
  have "fst ` set ds = dom ?f" using ds(2) by (metis dom_map_of_conv_image_fst)
  then have "ordered ((g, d) # ds)" using ds(1) Suc.prems(3) [OF d] top [OF d] by auto
  moreover have "map_of ((g, d) # ds) = f" using ds(2) d by auto
  ultimately show ?case by blast
qed

lemma fresh_ordered:
  assumes cyc: "no_cycles os" and l: "list_bound sl os"
  shows "\<exists>ds. ordered ds \<and> map_of ds = fresh sl os"
proof (rule order_exists)
  let ?R = "{(k, g). \<exists>d. fresh sl os g = Some d \<and> k \<in> collectDeps d}" and ?st = "\<lparr>sdefs = loaded sl os [], slist = sl\<rparr>"
  have st: "store_checked ?st" by (rule fresh_store_checked [OF assms])
  show "finite (dom (fresh sl os))" by (rule finite_dom_map_of)
  show deps: "collectDeps d \<subseteq> dom (fresh sl os)" if "fresh sl os g = Some d" for g d
    using checkDef_deps [OF checked_wf [OF st]] st that by (fastforce simp: store_checked_def)
  have edge: "(k, g) \<in> (refers os)\<^sup>+ \<or> sl = Some k" if e: "(k, g) \<in> ?R" for k g
  proof -
    obtain d where d: "fresh sl os g = Some d" "k \<in> collectDeps d" using e by blast
    have "k \<in> ancestors sl os g" using load_fresh [OF cyc l cached_Nil, of g] d by auto
    moreover have "k \<noteq> ''''" using deps [OF d(1)] d(2) empty_unloaded [of sl os "[]"] by auto
    ultimately show ?thesis by (auto simp: ancestors_def)
  qed
  have sink: "(k, g) \<notin> ?R" if "sl = Some g" for k g
    using that l fresh_List [of g os] by auto
  have last: "sl \<noteq> Some g" if p: "(k, g) \<in> ?R\<^sup>+" for k g
  proof -
    obtain j where "(j, g) \<in> ?R" using p by (rule tranclE)
    then show ?thesis using sink by blast
  qed
  have path: "(k, g) \<in> (refers os)\<^sup>+ \<or> sl = Some k" if p: "(k, g) \<in> ?R\<^sup>+" for k g
    using p
  proof (induction rule: trancl_induct)
    case (step g j)
    have "(g, j) \<in> (refers os)\<^sup>+" using edge [OF step(2)] last [OF step(1)] by blast
    then show ?case using step.IH by (meson trancl_trans)
  qed (rule edge)
  have "(g, g) \<notin> ?R\<^sup>+" for g
  proof
    assume p: "(g, g) \<in> ?R\<^sup>+"
    have "(g, g) \<in> (refers os)\<^sup>+" using path [OF p] last [OF p] by blast
    then show False using cyc by (simp add: no_cycles_def acyclic_def)
  qed
  then show "acyclic ?R" unfolding acyclic_def by blast
qed


subsection \<open>\<^verbatim>\<open>GetDef\<close>\<close>

lemma map_of_filter_keys: "map_of (filter (\<lambda>(g, _). g \<in> hs) ds) g = (if g \<in> hs then map_of ds g else None)"
  by (induction ds) auto

lemma map_of_append_Some:
  "map_of (c @ ds) g = Some x \<Longrightarrow> map_of c g = Some x \<or> map_of c g = None \<and> map_of ds g = Some x"
  by (auto simp: map_add_def split: option.splits)

lemma load_live:
  "map_of (dcache s) h = None \<Longrightarrow> map_of (objects s) h = Some b \<Longrightarrow>
   load_object (\<lambda>d. live s ((h, d) # dcache s)) h b = Inr d \<longleftrightarrow>
     map_of (loaded (Resolve s ''List'') (objects s) (dcache s)) h = Some d"
  by (simp add: map_of_loaded live_def split: sum.split)

lemma getDef_view:
  assumes "addressed s" "coherent s"
  shows "(fst (getDef s h) = Inr d \<longleftrightarrow> map_of (sdefs (view s)) h = Some d) \<and> coherent (snd (getDef s h))"
proof (cases "map_of (dcache s) h")
  case (Some e)
  then show ?thesis using assms(2) by (auto simp: getDef_def view_def live_def map_add_def)
next
  case None
  let ?sl = "Resolve s ''List''" and ?os = "objects s" and ?c = "dcache s"
  have v: "map_of (sdefs (view s)) h = map_of (loaded ?sl ?os ?c) h"
    by (simp add: view_def live_def map_add_def None split: option.split)
  show ?thesis
  proof (cases "map_of ?os h")
    case None
    then show ?thesis
      using \<open>map_of ?c h = None\<close> assms(2) v by (simp add: getDef_def getDefFromBackend_def map_of_loaded)
  next
    case (Some b)
    note l = load_live [OF None Some]
    show ?thesis
    proof (cases "load_object (\<lambda>d. live s ((h, d) # ?c)) h b")
      case (Inl e)
      then have "coherent (snd (getDef s h))"
        using None Some assms(2)
        by (auto simp: getDef_def getDefFromBackend_def coherent_def Resolve_def delete_conv' split: oerr.split if_splits)
      then show ?thesis using l Inl None Some v by (simp add: getDef_def getDefFromBackend_def)
    next
      case (Inr e)
      have ch: "fresh ?sl ?os h = Some e"
        using l [where d = e] Inr v view_fresh [OF assms] by simp
      let ?c' = "(h, e) # ?c"
      have c': "fresh ?sl ?os g = Some x" if "map_of ?c' g = Some x" for g x
        using that ch assms(2) by (auto simp: coherent_def split: if_splits)
      then have "cached_for ?sl ?os ?c' g" for g by (auto simp: cached_for_def)
      then have "map_of (loaded ?sl ?os ?c') g = fresh ?sl ?os g" if "map_of ?c' g = None" for g
        using load_fresh [of ?os ?sl ?c' g] that assms(1) by (simp only: addressed_def)
      then have "fresh ?sl ?os g = Some x" if "map_of (?c' @ filter (\<lambda>(g, _). g \<in> hs) (loaded ?sl ?os ?c')) g = Some x" for g x hs
        using map_of_append_Some [OF that] c' by (auto simp only: map_of_filter_keys split: if_splits)
      then have "coherent (snd (getDef s h))"
        using None Some Inr by (simp add: getDef_def getDefFromBackend_def coherent_def Let_def Resolve_def)
      then show ?thesis using l Inr None Some v by (simp add: getDef_def getDefFromBackend_def Let_def)
    qed
  qed
qed

lemma getDef_identity:
  assumes "addressed s" "coherent s" "fst (getDef s h) = Inr d"
  shows "\<exists>d0. hashDef d0 = Some h \<and> encodeDef d0 = map_of (objects s) h \<and> checkDef (view s) d0 = Inr d"
proof -
  let ?sl = "Resolve s ''List''"
  have "fresh ?sl (objects s) h = Some d" using getDef_view [OF assms(1,2)] view_fresh [OF assms(1,2)] assms(3) by simp
  then obtain b d0 where b: "map_of (objects s) h = Some b" "hex_digest b = h" "decodeDef b = Inr d0"
    "checkDef \<lparr>sdefs = loaded ?sl (objects s) [], slist = ?sl\<rparr> d0 = Inr d"
    using assms(1) by (auto simp: addressed_def elim: fresh_checked)
  have "checkDef (view s) d0 = checkDef \<lparr>sdefs = loaded ?sl (objects s) [], slist = ?sl\<rparr> d0"
    using view_fresh [OF assms(1,2)] by (intro checkDef_map_of) (simp_all add: view_def live_def)
  then show ?thesis using b decoded_encode [OF b(3)] by (auto simp: hashDef_def)
qed


subsection \<open>What is written loads again\<close>

lemma getMeta_same [simp]:
  "objects (snd (getMeta s h)) = objects s" "ometas (snd (getMeta s h)) = ometas s"
  "names (snd (getMeta s h)) = names s" "dcache (snd (getMeta s h)) = dcache s"
  by (auto simp: getMeta_def split: option.split)

lemma StoreObject_Inr:
  assumes "StoreObject s d m = Inr (h, s')"
  shows "\<exists>b. encodeDef d = Some b \<and> h = hex_digest b \<and> objects s' = put_object h b (objects s) \<and>
    names s' = names s \<and> dcache s' = AList.update h d (dcache s) \<and>
    ometas s' = AList.update h (case fst (getMeta s h) of Inl e \<Rightarrow> m | Inr prev \<Rightarrow> merge_meta prev m) (ometas s)"
proof -
  obtain b where b: "encodeDef d = Some b" using assms by (auto simp: StoreObject_def split: option.splits)
  obtain r s1 where r: "getMeta s (hex_digest b) = (r, s1)" by fastforce
  have same: "objects s1 = objects s" "ometas s1 = ometas s" "names s1 = names s" "dcache s1 = dcache s"
    using getMeta_same [of s "hex_digest b"] by (simp_all add: r)
  show ?thesis
    using assms by (auto simp: StoreObject_def b r same Let_def)
qed

lemma map_of_put_object [simp]: "map_of (put_object h b os) = (map_of os)(h \<mapsto> b)"
  by (simp add: put_object_def update_conv')

text \<open>An object that was written does not change how the others are checked.\<close>

lemma put_checks:
  assumes cyc: "no_cycles os" "no_cycles os'" and l: "list_bound sl os" "list_bound sl os'"
    and os: "map_of os' = (map_of os)(h \<mapsto> b)" and b: "hex_digest b = h" "decodeDef b = Inr d"
    and h: "sl = Some h \<Longrightarrow> d = listType"
  shows "checkDef \<lparr>sdefs = [(h, d)] @ loaded sl os' [(h, d)], slist = sl\<rparr> d = checkDef \<lparr>sdefs = loaded sl os [], slist = sl\<rparr> d"
proof -
  have self: "(h, k) \<notin> (refers os')\<^sup>*" if "(k, h) \<in> (refers os')\<^sup>+" for k
    using that cyc(2) unfolding no_cycles_def acyclic_def by (metis rtrancl_trancl_trancl)
  have same: "fresh sl os k = fresh sl os' k" if k: "(k, h) \<in> (refers os')\<^sup>+" for k
  proof (rule fresh_agree [OF cyc(2,1) l(2,1)])
    fix j
    assume "j = k \<or> (j, k) \<in> (refers os')\<^sup>+"
    then have "j \<noteq> h" using self [OF k] by (auto dest: trancl_into_rtrancl)
    then show "map_of os j = map_of os' j" by (simp add: os)
  qed
  have d: "collectDeps d \<subseteq> ancestors sl os' h" using b os by (intro decoded_deps [of os' h b]) simp_all
  have "sameK (ancestors sl os' h) \<lparr>sdefs = [] @ loaded sl os' [], slist = sl\<rparr> \<lparr>sdefs = [] @ loaded sl os [], slist = sl\<rparr>"
    using same load_fresh [OF cyc(2) l(2) cached_Nil] fresh_List l
    by (intro live_same [OF cyc(2) l(2,1), where F = "fresh sl os'"]) auto
  from checkDef_same [OF this d] have "checkDef \<lparr>sdefs = loaded sl os [], slist = sl\<rparr> d = checkDef \<lparr>sdefs = loaded sl os' [], slist = sl\<rparr> d"
    by simp
  then show ?thesis using live_view [OF cyc(2) l(2) _ h d] b(1) by auto
qed

lemma stored_object_loads:
  assumes d: "def_canon d" "def_nodes d \<le> maxCanonicalNodes" "def_tyvars d \<le> maxCanonicalNodes"
    and c: "checkDef (view (s\<lparr>dcache := []\<rparr>)) d = Inr d"
    and p: "StoreObject s d m = Inr (h, s')" and a: "no_cycles (objects s)" "addressed s'"
  shows "fst (getDef s' h) = Inr d \<and> fst (getDef (s'\<lparr>dcache := []\<rparr>) h) = Inr d"
proof -
  obtain b where b: "encodeDef d = Some b" "h = hex_digest b" "objects s' = put_object h b (objects s)"
    "names s' = names s" "dcache s' = AList.update h d (dcache s)"
    using StoreObject_Inr [OF p] by blast
  have dec: "decodeDef b = Inr d"
    using d b(1) encodeDef_eq [OF def_canon_encodable [OF d(1)]] by (simp add: decodeDef_iff)
  let ?sl = "Resolve s ''List''" and ?os = "objects s" and ?os' = "objects s'"
  have sl: "Resolve s' ''List'' = ?sl" by (simp add: Resolve_def b(4))
  have os: "map_of ?os' = (map_of ?os)(h \<mapsto> b)" by (simp add: b(3))
  have a': "no_cycles ?os'" "list_bound ?sl ?os'" using a(2) by (simp_all add: addressed_def sl)
  have "checkDef \<lparr>sdefs = [(h, d)] @ loaded ?sl ?os' [(h, d)], slist = ?sl\<rparr> d = Inr d"
  proof (cases "?sl = Some h")
    case True
    then have "d = listType" using a'(2) os dec by (auto simp: list_bound_def)
    then show ?thesis by (simp only: List_accepted)
  next
    case False
    then have "list_bound ?sl ?os" using a'(2) os by (auto simp: list_bound_def split: option.splits if_splits)
    from put_checks [OF a(1) a'(1) this a'(2) os b(2) [symmetric] dec] False show ?thesis
      using c by (simp add: view_def live_def Resolve_def)
  qed
  then have "map_of (sdefs (view (s'\<lparr>dcache := []\<rparr>))) h = Some d"
    using b(2) dec os
    by (simp add: view_def live_def map_of_loaded load_object_def Resolve_def [symmetric] sl del: checkDef.simps)
      (simp add: Resolve_def b(4) del: checkDef.simps)
  then have "fst (getDef (s'\<lparr>dcache := []\<rparr>) h) = Inr d"
    using getDef_view [of "s'\<lparr>dcache := []\<rparr>"] a(2) by (simp add: addressed_def Resolve_def)
  moreover have "fst (getDef s' h) = Inr d" by (simp add: getDef_def b(5) update_conv')
  ultimately show ?thesis by simp
qed

end
