(* ===== verification/ObjectsProps.thy ===== *)
theory ObjectsProps
  imports Loading
begin

text \<open>
  Publishing moves one name and keeps what was known of the hash and of the other names; and
  what holds of a store in all histories of the operations on it: objects stay under the digest
  of their bytes and none is lost.
\<close>

subsection \<open>Names and metadata\<close>

definition naming :: "meta \<Rightarrow> string \<Rightarrow> alias_naming option" where
  "naming m k = (if k = mname m then Some (naming_of m) else aliases m k)"

lemma naming_merge:
  "naming (merge_meta prev m) k = (if k = mname m then Some (naming_of m) else naming prev k)"
  by (auto simp: naming_def merge_meta_def naming_of_def Let_def)

lemma merge_verdicts:
  "guarantee (merge_meta prev m) = guarantee prev" "proven_props (merge_meta prev m) = proven_props prev"
  "mtermination (merge_meta prev m) = mtermination prev" "mconfinement (merge_meta prev m) = mconfinement prev"
  "waived (merge_meta prev m) = waived prev" "mname (merge_meta prev m) = mname m"
  by (simp_all add: merge_meta_def Let_def)

lemma Put_Inr:
  assumes "Put s d m = Inr (h, prev, s')"
  shows "prev = Resolve s (mname m) \<and>
    (\<forall>n. Resolve s' n = (if n = mname m then Some h else Resolve s n)) \<and>
    map_of (ometas s') h = Some (case fst (getMeta s h) of Inl e \<Rightarrow> m | Inr p \<Rightarrow> merge_meta p m)"
proof -
  obtain s1 where s1: "StoreObject s d m = Inr (h, s1)" and r: "Repoint s1 (mname m) h = (prev, s')"
    using assms by (auto simp: Put_def split: sum.splits prod.splits)
  obtain b where "names s1 = names s"
      "ometas s1 = AList.update h (case fst (getMeta s h) of Inl e \<Rightarrow> m | Inr p \<Rightarrow> merge_meta p m) (ometas s)"
    using StoreObject_Inr [OF s1] by blast
  then show ?thesis using r by (auto simp: Repoint_def Resolve_def update_conv')
qed

text \<open>The name that \<^verbatim>\<open>NameOf\<close> picks is the least, in whatever order a Go map is ranged over.\<close>

definition names_of :: "hash \<Rightarrow> (string \<times> hash) list \<Rightarrow> string set" where
  "names_of h ns = {n. (n, h) \<in> set ns \<and> n \<noteq> ''''}"

lemma least_name_snoc:
  "least_name h (ns @ [(n, g)]) =
     (if g = h \<and> (least_name h ns = '''' \<or> n < least_name h ns) then n else least_name h ns)"
  by (simp only: least_name_def foldl_append foldl.simps prod.case)

lemma least_name_is:
  assumes "\<And>g. ('''', g) \<notin> set ns"
  shows "(names_of h ns = {} \<longrightarrow> least_name h ns = '''') \<and>
   (names_of h ns \<noteq> {} \<longrightarrow> least_name h ns \<in> names_of h ns \<and> (\<forall>n \<in> names_of h ns. least_name h ns \<le> n))"
  using assms
proof (induction ns rule: rev_induct)
  case Nil
  then show ?case by (simp add: names_of_def least_name_def)
next
  case (snoc x ns)
  obtain n g where x: "x = (n, g)" by fastforce
  have s: "names_of h (ns @ [x]) = (if g = h \<and> n \<noteq> '''' then insert n (names_of h ns) else names_of h ns)"
    by (auto simp: names_of_def x)
  show ?case
    using snoc.IH snoc.prems unfolding s x least_name_snoc by (auto simp: names_of_def)
qed

subsection \<open>Histories\<close>

text \<open>The operations of one process on its store, in any order.\<close>

inductive store_step :: "ostore \<Rightarrow> ostore \<Rightarrow> bool" where
  step_put: "Put s d m = Inr (h, prev, s') \<Longrightarrow> store_step s s'"
| step_store: "StoreObject s d m = Inr (h, s') \<Longrightarrow> store_step s s'"
| step_repoint: "Repoint s n h = (prev, s') \<Longrightarrow> store_step s s'"
| step_setmeta: "store_step s (SetMeta s h m)"
| step_cache: "store_step s (CacheDef s h d)"
| step_refresh: "store_step s (RefreshMutable s)"
| step_getdef: "getDef s h = (r, s') \<Longrightarrow> store_step s s'"
| step_getmeta: "getMeta s h = (rm, s') \<Longrightarrow> store_step s s'"
| step_nameof: "NameOf s h = (n, s') \<Longrightarrow> store_step s s'"
| step_findctor: "FindCtor s n = (rc, s') \<Longrightarrow> store_step s s'"

abbreviation store_history :: "ostore \<Rightarrow> ostore \<Rightarrow> bool" where
  "store_history \<equiv> store_step\<^sup>*\<^sup>*"

text \<open>
  Objects are under the digest of their bytes, have metadata, and what is cached of the
  metadata is what is stored.
\<close>

definition store_inv :: "ostore \<Rightarrow> bool" where
  "store_inv s \<longleftrightarrow>
     (\<forall>h b. map_of (objects s) h = Some b \<longrightarrow> hex_digest b = h \<and> map_of (ometas s) h \<noteq> None) \<and>
     (\<forall>h m. map_of (mcache s) h = Some m \<longrightarrow> map_of (ometas s) h = Some m)"

text \<open>No object is lost; one that is written again was written with bytes of the same digest.\<close>

definition keeps_objects :: "ostore \<Rightarrow> ostore \<Rightarrow> bool" where
  "keeps_objects s s' \<longleftrightarrow>
     (\<forall>h b. map_of (objects s) h = Some b \<longrightarrow>
        (\<exists>b'. map_of (objects s') h = Some b' \<and> hex_digest b' = hex_digest b))"

lemma keeps_refl [simp]: "keeps_objects s s"
  by (simp add: keeps_objects_def)

lemma keeps_trans: "keeps_objects s t \<Longrightarrow> keeps_objects t u \<Longrightarrow> keeps_objects s u"
  unfolding keeps_objects_def by metis

lemma keeps_same: "objects s' = objects s \<Longrightarrow> keeps_objects s s'"
  by (simp add: keeps_objects_def)

lemma getMeta_inv: "store_inv s \<Longrightarrow> store_inv (snd (getMeta s h))"
  by (auto simp: store_inv_def getMeta_def update_conv' split: option.split)

lemma getMeta_inv': "getMeta s h = (r, s') \<Longrightarrow> store_inv s \<Longrightarrow> store_inv s' \<and> objects s' = objects s"
  using getMeta_inv [of s h] getMeta_same(1) [of s h] by simp

lemma StoreObject_inv:
  assumes "StoreObject s d m = Inr (h, s')" "store_inv s"
  shows "store_inv s' \<and> keeps_objects s s'"
proof -
  obtain b m' where b: "h = hex_digest b" "objects s' = put_object h b (objects s)"
      "ometas s' = AList.update h m' (ometas s)"
    using StoreObject_Inr [OF assms(1)] by blast
  obtain r s1 where r: "getMeta s h = (r, s1)" by fastforce
  have "store_inv s1" "ometas s1 = ometas s"
    using getMeta_inv [OF assms(2), of h] getMeta_same(2) [of s h] by (simp_all add: r)
  then have "map_of (mcache s') g = Some n \<Longrightarrow> map_of (ometas s') g = Some n" for g n
    using assms(1) b(1) r
    by (auto simp: StoreObject_def store_inv_def update_conv' Let_def split: option.splits prod.splits if_splits)
  then show ?thesis
    using assms(2) b by (auto simp: store_inv_def keeps_objects_def update_conv')
qed

lemma Repoint_inv: "Repoint s n h = (prev, s') \<Longrightarrow> store_inv s \<Longrightarrow> store_inv s' \<and> objects s' = objects s"
  by (auto simp: Repoint_def store_inv_def)

lemma getDef_inv: "getDef s h = (r, s') \<Longrightarrow> store_inv s \<Longrightarrow> store_inv s' \<and> objects s' = objects s"
  by (auto simp: getDef_def getDefFromBackend_def store_inv_def Let_def split: option.splits sum.splits oerr.splits)

lemma find_ctor_inv: "store_inv s \<Longrightarrow> store_inv (snd (find_ctor s c ks)) \<and> objects (snd (find_ctor s c ks)) = objects s"
proof (induction s c ks rule: find_ctor.induct)
  case (2 s c k ks)
  show ?case
  proof (cases "map_of (names s) k")
    case None
    then show ?thesis using 2(1,4) by simp
  next
    case (Some h)
    obtain r s1 where r: "getMeta s h = (r, s1)" by fastforce
    have s1: "store_inv s1" "objects s1 = objects s" using getMeta_inv' [OF r 2(4)] by simp_all
    show ?thesis
      using Some r s1 2(2) [OF Some r [symmetric]] 2(3) [OF Some r [symmetric]]
      by (auto split: sum.split option.split)
  qed
qed simp

lemma NameOf_state: "snd (NameOf s h) = s \<or> snd (NameOf s h) = snd (getMeta s h)"
  by (simp add: NameOf_def split: prod.split sum.split)

lemma step_inv: "store_step s s' \<Longrightarrow> store_inv s \<Longrightarrow> store_inv s' \<and> keeps_objects s s'"
proof (induction rule: store_step.induct)
  case (step_put s d m h prev s')
  obtain s1 where "StoreObject s d m = Inr (h, s1)" "Repoint s1 (mname m) h = (prev, s')"
    using step_put(1) by (auto simp: Put_def split: sum.splits prod.splits)
  then show ?case
    using StoreObject_inv [OF _ step_put(2)] Repoint_inv keeps_same keeps_trans by metis
next
  case (step_nameof s h n s')
  then show ?case
    using NameOf_state [of s h] getMeta_inv [of s h] getMeta_same(1) [of s h]
    by (metis keeps_same snd_conv)
next
  case (step_findctor s n rc s')
  then show ?case
    using find_ctor_inv [of s n] by (metis FindCtor_def keeps_same snd_conv)
next
  case (step_setmeta s h m)
  then show ?case by (auto simp: SetMeta_def store_inv_def update_conv' intro: keeps_same)
next
  case (step_cache s h d)
  then show ?case by (auto simp: CacheDef_def store_inv_def intro: keeps_same)
next
  case (step_refresh s)
  then show ?case by (auto simp: RefreshMutable_def store_inv_def intro: keeps_same)
qed (metis StoreObject_inv Repoint_inv getDef_inv getMeta_inv' keeps_same)+

lemma history_inv: "store_history s s' \<Longrightarrow> store_inv s \<Longrightarrow> store_inv s' \<and> keeps_objects s s'"
proof (induction rule: rtranclp_induct)
  case (step t u)
  then show ?case using step_inv [OF step(2)] keeps_trans by blast
qed simp

end
