(* ===== verification/Normalize.thy ===== *)
theory Normalize
  imports Machine EncodeTerm
begin

text \<open>
  The normal form behind \<^verbatim>\<open>find --equiv\<close>, \<^verbatim>\<open>eNormalize\<close> of \<^verbatim>\<open>oath/canon.go\<close>: commutativity and
  associativity by sorting, identity elements, idempotence, double negation, constant and
  vacuous conditionals, eta. The Go loop keeps a stack of pending nodes and writes results
  through pointers; here it is the recursion that the stack unrolls, which returns for each
  node the node itself, with the type arguments \<^verbatim>\<open>synth\<close> has published into it, the normalized
  node, and whether its rebuilding was deferred to its parent.

  A panic of the encoder, on a hash that is not 32 bytes, and a comparison that never ends are
  read as an empty key and as equality; admitted terms have neither.
\<close>

subsection \<open>Rules\<close>

definition commutativePrims :: "string set" where
  "commutativePrims = {''+'', ''*'', ''=='', ''and'', ''or''}"

definition isACPrim :: "string \<Rightarrow> ty option \<Rightarrow> bool" where
  "isACPrim op t =
     (if op = ''and'' \<or> op = ''or'' then True
      else if op = ''+'' \<or> op = ''*'' then t = Some TInt \<or> t = Some TRat
      else False)"

text \<open>The bit pattern of 1.0.\<close>

definition float_one :: "64 word" where
  "float_one = 0x3FF0000000000000"

definition acUnitLeaf :: "string \<Rightarrow> trm \<Rightarrow> bool" where
  "acUnitLeaf op t =
     (if op = ''+'' then (case t of IntL v \<Rightarrow> v = 0 | RatL q \<Rightarrow> q = 0 | _ \<Rightarrow> False)
      else if op = ''*'' then
        (case t of IntL v \<Rightarrow> v = 1 | RatL q \<Rightarrow> q = 1 | FloatL f \<Rightarrow> f = float_one | _ \<Rightarrow> False)
      else if op = ''and'' then t = BoolL True
      else if op = ''or'' then t = BoolL False
      else False)"

definition idempotentPrims :: "string set" where
  "idempotentPrims = {''and'', ''or''}"

definition acDropUnits :: "string \<Rightarrow> trm list \<Rightarrow> trm list" where
  "acDropUnits op ls =
     (let kept = filter (\<lambda>t. \<not> acUnitLeaf op t) ls in if kept = [] then [ls ! 0] else kept)"

definition mulUnitSurvivor :: "string \<Rightarrow> ty option \<Rightarrow> trm list \<Rightarrow> trm option" where
  "mulUnitSurvivor op t as =
     (if op \<noteq> ''*'' \<or> t \<noteq> Some TFloat \<or> length as \<noteq> 2 then None
      else if acUnitLeaf ''*'' (as ! 0) then Some (as ! 1)
      else if acUnitLeaf ''*'' (as ! 1) then Some (as ! 0)
      else None)"

definition negInvolution :: "string \<Rightarrow> trm list \<Rightarrow> trm option" where
  "negInvolution op as =
     (if op \<noteq> ''neg'' then None
      else case as of
          [Prim o' [x]] \<Rightarrow> if o' = ''neg'' then Some x else None
        | _ \<Rightarrow> None)"

lemmas [code] = cmp_loop.simps

definition cmp_trm :: "trm \<Rightarrow> trm \<Rightarrow> int" where
  "cmp_trm a b = (case compareTermsCanonical a b of None \<Rightarrow> 0 | Some c \<Rightarrow> c)"

definition ifSelect :: "trm \<Rightarrow> trm \<Rightarrow> trm \<Rightarrow> trm option" where
  "ifSelect a b d =
     (case a of
        BoolL v \<Rightarrow> Some (if v then b else d)
      | Var i \<Rightarrow> if cmp_trm b d = 0 then Some b else None
      | _ \<Rightarrow> None)"

fun etaReduce :: "store \<Rightarrow> trm \<Rightarrow> trm option" where
  "etaReduce st (App h (Var 0)) =
     (case h of
        Var i \<Rightarrow> if i = 0 then None else Some (Var (i - 1))
      | Ref g ts \<Rightarrow>
          (case GetDef st g of
             Inr (DFunc n t (Lam p b) ps) \<Rightarrow> Some (Ref g ts)
           | _ \<Rightarrow> None)
      | _ \<Rightarrow> None)"
| "etaReduce st t = None"

subsection \<open>Chains\<close>

function (sequential) ac_loop :: "string \<Rightarrow> trm list \<Rightarrow> trm list" where
  "ac_loop op [] = []"
| "ac_loop op (Prim o' [a, b] # ts) =
     (if o' = op then ac_loop op (a # b # ts) else Prim o' [a, b] # ac_loop op ts)"
| "ac_loop op (t # ts) = t # ac_loop op ts"
  by pat_completeness auto
termination by (relation "measure (\<lambda>(op, ts). size_list size ts)") auto

definition acFlatten :: "string \<Rightarrow> trm list \<Rightarrow> trm list" where
  "acFlatten op as = ac_loop op as"

definition key :: "trm \<Rightarrow> bytes" where
  "key t = (case termBytes t of None \<Rightarrow> [] | Some b \<Rightarrow> b)"

fun uniq :: "trm list \<Rightarrow> trm list" where
  "uniq (x # y # ys) = (if key y = key x then uniq (x # ys) else x # uniq (y # ys))"
| "uniq ts = ts"

fun rechain :: "string \<Rightarrow> trm list \<Rightarrow> trm" where
  "rechain op (x # y # ys) = Prim op [x, rechain op (y # ys)]"
| "rechain op ts = ts ! 0"

definition acRebuild :: "string \<Rightarrow> trm list \<Rightarrow> trm" where
  "acRebuild op ls =
     (let ks = sort_key key (acDropUnits op ls)
      in rechain op (if op \<in> idempotentPrims then uniq ks else ks))"

subsection \<open>The traversal\<close>

definition msynth :: "env \<Rightarrow> ctx \<Rightarrow> trm \<Rightarrow> trm \<times> ty option" where
  "msynth E c t =
     (case run E Synth c t of
        Some (Ret t' r, K, n) \<Rightarrow> (t', case r of Inl e \<Rightarrow> None | Inr u \<Rightarrow> u)
      | _ \<Rightarrow> (t, None))"

definition forceAC :: "trm \<times> bool \<Rightarrow> trm" where
  "forceAC x =
     (case x of
        (Prim op as, True) \<Rightarrow> acRebuild op (acFlatten op as)
      | (t, _) \<Rightarrow> t)"

text \<open>The second visit of a primitive: its children are normalized, some of them deferred.\<close>

definition exit_prim :: "env \<Rightarrow> ctx \<Rightarrow> string \<Rightarrow> string \<Rightarrow> trm list \<Rightarrow> (trm \<times> bool) list \<Rightarrow> trm \<times> trm \<times> bool" where
  "exit_prim E c ch op os ns =
     (case negInvolution op (map fst ns) of
        Some s \<Rightarrow> (Prim op os, s, False)
      | None \<Rightarrow>
          if op \<in> commutativePrims \<and> length ns = 2 then
            (let (o0, t) = msynth E c (os ! 0); os' = os[0 := o0] in
             if isACPrim op t then
               (if ch = op then (Prim op os', Prim op (map fst ns), True)
                else (Prim op os', acRebuild op (acFlatten op (map fst ns)), False))
             else
               (let as = map forceAC ns in
                case mulUnitSurvivor op t as of
                  Some s \<Rightarrow> (Prim op os', s, False)
                | None \<Rightarrow>
                    (Prim op os',
                     Prim op (if 0 < cmp_trm (as ! 0) (as ! 1) then [as ! 1, as ! 0] else as), False)))
          else (Prim op os, Prim op (map fst ns), False))"

function (sequential) eNorm :: "env \<Rightarrow> ctx \<Rightarrow> string \<Rightarrow> trm \<Rightarrow> trm \<times> trm \<times> bool" where
  "eNorm E c ch (Lam p b) =
     (let (b0, b', _) = eNorm E (pushCtx c p) '''' b in
      (Lam p b0, case etaReduce (est E) b' of None \<Rightarrow> Lam p b' | Some s \<Rightarrow> s, False))"
| "eNorm E c ch (Let p a b) =
     (let (a0, a', _) = eNorm E c '''' a; (b0, b', _) = eNorm E (pushCtx c p) '''' b in
      (Let p a0 b0, Let p a' b', False))"
| "eNorm E c ch (If a b d) =
     (let (a0, a', _) = eNorm E c '''' a; (b0, b', _) = eNorm E c '''' b; (d0, d', _) = eNorm E c '''' d in
      (If a0 b0 d0, case ifSelect a' b' d' of None \<Rightarrow> If a' b' d' | Some s \<Rightarrow> s, False))"
| "eNorm E c ch (App f a) =
     (let (f0, f', _) = eNorm E c '''' f; (a0, a', _) = eNorm E c '''' a in (App f0 a0, App f' a', False))"
| "eNorm E c ch (Field a f) =
     (let (a0, a', _) = eNorm E c '''' a in (Field a0 f, Field a' f, False))"
| "eNorm E c ch (Match h a arms) =
     (let (a0, a', _) = eNorm E c '''' a;
          (a1, t) = msynth E c a0;
          fs = (\<lambda>i. case (t, GetDef (est E) h) of
                 (Some (TData g ts), Inr d) \<Rightarrow>
                   if i < length (ctors_of d) then instCtorFields d g ts i else []
               | _ \<Rightarrow> []);
          rs = map (\<lambda>(x, us). eNorm E (pushAll c us) '''' x) (zip arms (map fs [0..<length arms]))
      in (Match h a1 (map fst rs), Match h a' (map (fst \<circ> snd) rs), False))"
| "eNorm E c ch (Prim op as) =
     (let cc = (if op \<in> commutativePrims \<and> length as = 2 then op else '''');
          rs = map (eNorm E c cc) as
      in exit_prim E c ch op (map fst rs) (map snd rs))"
| "eNorm E c ch (Ctor h i ts as) =
     (let rs = map (eNorm E c '''') as in (Ctor h i ts (map fst rs), Ctor h i ts (map (fst \<circ> snd) rs), False))"
| "eNorm E c ch (Record ns as) =
     (let rs = map (eNorm E c '''') as in (Record ns (map fst rs), Record ns (map (fst \<circ> snd) rs), False))"
| "eNorm E c ch t = (t, t, False)"
  by pat_completeness auto
termination
  by (relation "measure (\<lambda>(E, c, ch, t). size t)")
    (auto dest!: set_zip_leftD simp: size_list_estimation' less_Suc_eq_le trans_le_add1)

definition eNormalize :: "env \<Rightarrow> ctx \<Rightarrow> trm \<Rightarrow> trm" where
  "eNormalize E c t = fst (snd (eNorm E c '''' t))"

end
