(* ===== verification/BigStep.thy ===== *)
theory BigStep
  imports EvalProps
begin

text \<open>
  The evaluator without its budgets: a big-step relation, bounded by the nesting and sequence
  of function calls, for programs whose values hold no native function of the test-input
  generator. It relates a term to a value exactly when the evaluator returns the value for
  some depth and some fuel.
\<close>

subsection \<open>Runs that return\<close>

definition runs :: "'a ev \<Rightarrow> 'a \<Rightarrow> bool" where
  "runs m v \<longleftrightarrow> (\<exists>f f'. m f = (Inr v, f'))"

lemma runs_from [simp]: "runs (efrom r) v \<longleftrightarrow> r = Inr v"
  by (simp add: runs_def efrom_def)

lemma runs_tick: "runs tick ()"
  unfolding runs_def tick_def by (rule exI [of _ 1]) simp

lemma runs_refines: "refines_ev m m' \<Longrightarrow> runs m v \<Longrightarrow> runs m' v"
proof -
  assume m: "refines_ev m m'" and "runs m v"
  then obtain f f' where "m f = (Inr v, f')" by (auto simp: runs_def)
  from refines_evD [OF m this, of 0] show "runs m' v" by (auto simp: runs_def)
qed

lemma runs_bindE: "runs (ebind m k) v \<Longrightarrow> (\<And>x. runs m x \<Longrightarrow> runs (k x) v \<Longrightarrow> P) \<Longrightarrow> P"
proof -
  assume "runs (ebind m k) v" and P: "\<And>x. runs m x \<Longrightarrow> runs (k x) v \<Longrightarrow> P"
  then obtain f f' where f: "ebind m k f = (Inr v, f')" by (auto simp: runs_def)
  then obtain x g where m: "m f = (Inr x, g)" by (auto simp: ebind_def split: prod.splits sum.splits)
  with f have "k x g = (Inr v, f')" by (simp add: ebind_def)
  with m show P by (intro P) (auto simp: runs_def)
qed

lemma runs_bindI:
  assumes m: "refines_ev m m" and k: "refines_ev (k x) (k x)" and "runs m x" "runs (k x) v"
  shows "runs (ebind m k) v"
proof -
  obtain f f' g g' where r: "m f = (Inr x, f')" "k x g = (Inr v, g')"
    using assms(3,4) by (auto simp: runs_def)
  let ?i = "max 0 (g - f')"
  have "m (f + ?i) = (Inr x, f' + ?i)" by (rule refines_evD [OF m r(1)]) auto
  moreover have "k x (g + (f' + ?i - g)) = (Inr v, g' + (f' + ?i - g))"
    by (rule refines_evD [OF k r(2)]) auto
  ultimately have "ebind m k (f + ?i) = (Inr v, g' + (f' + ?i - g))"
    by (simp add: ebind_def)
  then show ?thesis unfolding runs_def by blast
qed

lemma refl_eval: "refines_ev (eval d st env slf t) (eval d st env slf t)"
  using eval_refines [of d d st] by (simp add: refines_evs_def)

lemma refl_evs: "refines_evs (eval d st) (eval d st)"
  by (rule eval_refines) simp

lemma runs_eval_mono: "runs (eval d st env slf t) v \<Longrightarrow> d \<le> d' \<Longrightarrow> runs (eval d' st env slf t) v"
  using runs_refines [OF eval_refines [of d d' st, unfolded refines_evs_def, rule_format]] by blast

lemma runs_apply_mono: "runs (apply_val (eval d st) g a) v \<Longrightarrow> d \<le> d' \<Longrightarrow> runs (apply_val (eval d' st) g a) v"
  by (rule runs_refines [OF refines_apply [OF eval_refines]])

lemma runs_bind_eq:
  "refines_ev m m \<Longrightarrow> (\<And>x. refines_ev (k x) (k x)) \<Longrightarrow>
   runs (ebind m k) v \<longleftrightarrow> (\<exists>x. runs m x \<and> runs (k x) v)"
  by (metis runs_bindE runs_bindI)

lemma runs_list:
  "(\<And>t. refines_ev (ev t) (ev t)) \<Longrightarrow> runs (eval_list ev ts) vs \<longleftrightarrow> list_all2 (\<lambda>t. runs (ev t)) ts vs"
proof (induction ts arbitrary: vs)
  case (Cons t ts)
  have "refines_ev (eval_list ev ts) (eval_list ev ts)" by (rule refines_list) (rule Cons.prems)
  then show ?case
    using Cons by (auto simp: runs_bind_eq refines_bind refines_from list_all2_Cons1)
qed auto

lemma runs_eval_Suc: "runs (eval (Suc d) st env slf t) v \<longleftrightarrow> runs (evalInner st (eval d st) env slf t) v"
  by (simp add: runs_bind_eq refines_tick refines_inner refl_evs runs_tick)

lemma runs_apply: "runs (apply_val (eval d st) g a) v \<longleftrightarrow> runs (apply_body (eval d st) g a) v"
proof -
  have "refines_ev (apply_body (eval d st) g a) (apply_body (eval d st) g a)"
    by (auto simp: apply_body_def refl_eval refines_from split: val.split)
  then show ?thesis by (simp add: apply_val_def runs_bind_eq refines_tick runs_tick)
qed

lemma runs_det: "runs (eval d st env slf t) v \<Longrightarrow> runs (eval d' st env slf t) v' \<Longrightarrow> v = v'"
proof -
  assume a: "runs (eval d st env slf t) v" "runs (eval d' st env slf t) v'"
  let ?m = "eval (max d d') st env slf t"
  obtain f f' g g' where r: "?m f = (Inr v, f')" "?m g = (Inr v', g')"
    using runs_eval_mono [OF a(1), of "max d d'"] runs_eval_mono [OF a(2), of "max d d'"]
    by (auto simp: runs_def)
  have "?m (f + max 0 (g - f)) = (Inr v, f' + max 0 (g - f))"
    by (rule refines_evD [OF refl_eval r(1)]) auto
  moreover have "?m (g + max 0 (f - g)) = (Inr v', g' + max 0 (f - g))"
    by (rule refines_evD [OF refl_eval r(2)]) auto
  ultimately show ?thesis by (simp add: max_def split: if_splits)
qed

subsection \<open>Plain values\<close>

text \<open>No native function, and every float canonical, in closures too.\<close>

fun plain :: "val \<Rightarrow> bool" where
  "plain (VFloat f) = (canonFloat f = f)"
| "plain (VClos env p b slf) = list_all plain env"
| "plain (VData h i vs) = list_all plain vs"
| "plain (VRecord ns vs) = list_all plain vs"
| "plain VId = False"
| "plain (VAffine m n) = False"
| "plain (VConst v) = False"
| "plain (VTable xs ys v) = False"
| "plain _ = True"

lemma plain_first_order: "first_order v \<Longrightarrow> plain v"
  by (induction v) (auto simp: list_all_iff)

lemma first_order_bytes: "first_order (listOfBytes h bs)"
  by (induction bs) simp_all

lemma first_order_vFloat [simp]: "first_order (vFloat x)"
  by (simp add: vFloat_def)

lemma prim_first_order:
  assumes "prim op vs = Inr v"
  shows "first_order v"
proof -
  note binds = rbind_eq_Inr int2_def rat2_def float2_def
  have r: "first_order v" if "ratPrim op vs = Some (Inr v)"
    using that by (auto simp: ratPrim_def binds split: if_splits)
  have f: "first_order v" if "floatPrim op vs = Some (Inr v)"
    using that by (auto simp: floatPrim_def binds split: if_splits)
  have i: "first_order v" if "intPrim op vs = Inr v"
    using that by (auto simp: intPrim_def binds split: if_splits)
  have c: "first_order v" if "cryptoPrim op vs = Inr v"
    using that by (auto simp: cryptoPrim_def binds first_order_bytes split: if_splits)
  have t: "first_order v" if a: "toRat vs = Inr v"
  proof -
    obtain x where "arg vs 0 = Inr x" using a by (cases "arg vs 0") (simp_all add: toRat_def)
    with a show ?thesis by (cases x) (auto simp: toRat_def split: if_splits)
  qed
  have u: "first_order v" if a: "toFloat vs = Inr v"
  proof -
    obtain x where "arg vs 0 = Inr x" using a by (cases "arg vs 0") (simp_all add: toFloat_def)
    with a show ?thesis by (cases x) (auto simp: toFloat_def)
  qed
  have w: "first_order v" if a: "floorPrim vs = Inr v"
  proof -
    obtain x where "arg vs 0 = Inr x" using a by (cases "arg vs 0") (simp_all add: floorPrim_def)
    with a show ?thesis by (cases x) (auto simp: floorPrim_def split: if_splits)
  qed
  have n: "first_order v" if "numPrim op vs = Some (Inr v)"
    using that r f by (simp add: numPrim_def split: list.splits val.splits)
  show ?thesis
  proof (cases "numPrim op vs")
    case None
    then show ?thesis using assms i c t u w by (simp add: prim_def split: if_splits)
  next
    case (Some q)
    then show ?thesis using assms n by (simp add: prim_def)
  qed
qed

subsection \<open>The relation\<close>

text \<open>
  The bound of an application is that of its operator and operand plus that of the call; a
  call of a closure, of a reference or of \<^verbatim>\<open>self\<close> costs one more than the body.
\<close>

inductive bs :: "store \<Rightarrow> nat \<Rightarrow> val list \<Rightarrow> hash \<Rightarrow> trm \<Rightarrow> val \<Rightarrow> bool"
  and ap :: "store \<Rightarrow> nat \<Rightarrow> val \<Rightarrow> val \<Rightarrow> val \<Rightarrow> bool" for st where
  bs_Var: "i < length env \<Longrightarrow> bs st n env slf (Var i) (env ! i)"
| bs_Int: "bs st n env slf (IntL x) (VInt x)"
| bs_Rat: "bs st n env slf (RatL q) (VRat q)"
| bs_Float: "bs st n env slf (FloatL f) (VFloat (canonFloat f))"
| bs_Bool: "bs st n env slf (BoolL b) (VBool b)"
| bs_Lam: "bs st n env slf (Lam p b) (VClos env p b slf)"
| bs_App: "bs st m env slf f g \<Longrightarrow> bs st m env slf x y \<Longrightarrow> ap st k g y v \<Longrightarrow> m + k \<le> n \<Longrightarrow>
    bs st n env slf (App f x) v"
| bs_Let: "bs st m env slf a x \<Longrightarrow> bs st k (pushEnv env x) slf b v \<Longrightarrow> m + k \<le> n \<Longrightarrow>
    bs st n env slf (Let p a b) v"
| bs_If: "bs st m env slf a w \<Longrightarrow> bs st k env slf (if bool_of w then b else d) v \<Longrightarrow> m + k \<le> n \<Longrightarrow>
    bs st n env slf (If a b d) v"
| bs_Prim: "list_all2 (bs st n env slf) as vs \<Longrightarrow> prim op vs = Inr v \<Longrightarrow>
    bs st n env slf (Prim op as) v"
| bs_Ref: "map_of (sdefs st) h = Some (DFunc j t b ps) \<Longrightarrow> bs st n [] h b v \<Longrightarrow>
    bs st (Suc n) env slf (Ref h ts) v"
| bs_Self: "slf \<noteq> '''' \<Longrightarrow> map_of (sdefs st) slf = Some (DFunc j t b ps) \<Longrightarrow> bs st n [] slf b v \<Longrightarrow>
    bs st (Suc n) env slf (Self ts) v"
| bs_Ctor: "list_all2 (bs st n env slf) as vs \<Longrightarrow> bs st n env slf (Ctor h i ts as) (VData h i vs)"
| bs_Match: "bs st m env slf a (VData g i vs) \<Longrightarrow> i < length arms \<Longrightarrow>
    bs st k (foldl pushEnv env vs) slf (arms ! i) v \<Longrightarrow> m + k \<le> n \<Longrightarrow>
    bs st n env slf (Match h a arms) v"
| bs_Record: "list_all2 (bs st n env slf) as vs \<Longrightarrow> bs st n env slf (Record ns as) (VRecord ns vs)"
| bs_Field: "bs st n env slf a (VRecord ns vs) \<Longrightarrow> field_val ns vs f = Inr v \<Longrightarrow>
    bs st n env slf (Field a f) v"
| ap_Clos: "bs st n (pushEnv env y) slf b v \<Longrightarrow> ap st (Suc n) (VClos env p b slf) y v"

inductive_cases bs_VarE: "bs st n env slf (Var i) v"
inductive_cases bs_LamE: "bs st n env slf (Lam p b) v"
inductive_cases bs_BoolE: "bs st n env slf (BoolL b) v"
inductive_cases bs_AppE: "bs st n env slf (App f x) v"
inductive_cases bs_LetE: "bs st n env slf (Let p a b) v"
inductive_cases bs_IfE: "bs st n env slf (If a b d) v"
inductive_cases bs_PrimE: "bs st n env slf (Prim op as) v"
inductive_cases bs_RefE: "bs st n env slf (Ref h ts) v"
inductive_cases bs_SelfE: "bs st n env slf (Self ts) v"
inductive_cases bs_CtorE: "bs st n env slf (Ctor h i ts as) v"
inductive_cases bs_MatchE: "bs st n env slf (Match h a arms) v"
inductive_cases bs_RecordE: "bs st n env slf (Record ns as) v"
inductive_cases bs_FieldE: "bs st n env slf (Field a f) v"
inductive_cases ap_ClosE: "ap st n g y v"

inductive_simps bs_lit_simps [simp]:
  "bs st n env slf (Var i) v" "bs st n env slf (IntL x) v" "bs st n env slf (RatL q) v"
  "bs st n env slf (FloatL f) v" "bs st n env slf (BoolL b) v" "bs st n env slf (Lam p b) v"

lemma bs_mono: "bs st n env slf t v \<Longrightarrow> n \<le> n' \<Longrightarrow> bs st n' env slf t v"
  and ap_mono: "ap st n g y v \<Longrightarrow> n \<le> n' \<Longrightarrow> ap st n' g y v"
proof (induction arbitrary: n' and n' rule: bs_ap.inducts)
  case (bs_Ref h j t b ps n v env slf ts)
  then show ?case by (cases n') (auto intro: bs_ap.bs_Ref)
next
  case (bs_Self slf j t b ps n v env ts)
  then show ?case by (cases n') (auto intro: bs_ap.bs_Self)
next
  case (ap_Clos n env y slf b v p)
  then show ?case by (cases n') (auto intro: bs_ap.ap_Clos)
next
  case (bs_Prim n env slf as vs op v)
  then show ?case by (auto intro!: bs_ap.bs_Prim elim!: list_all2_mono)
next
  case (bs_Ctor n env slf as vs h i ts)
  then show ?case by (auto intro!: bs_ap.bs_Ctor elim!: list_all2_mono)
next
  case (bs_Record n env slf as vs ns)
  then show ?case by (auto intro!: bs_ap.bs_Record elim!: list_all2_mono)
next
  case (bs_Field n env slf a ns vs f v)
  then show ?case by (auto intro: bs_ap.bs_Field)
qed (auto intro: bs_ap.intros le_trans)

subsection \<open>The relation and the evaluator\<close>

lemma list_all2_bound:
  assumes "list_all2 (\<lambda>x y. \<exists>n :: nat. P n x y) xs ys" "\<And>n n' x y. P n x y \<Longrightarrow> n \<le> n' \<Longrightarrow> P n' x y"
  shows "\<exists>n. list_all2 (P n) xs ys"
  using assms(1)
proof (induction rule: list_all2_induct)
  case (Cons x xs y ys)
  then obtain m n where "P m x y" "list_all2 (P n) xs ys" by blast
  then have "list_all2 (P (max m n)) (x # xs) (y # ys)"
    using assms(2) by (auto elim!: list_all2_mono)
  then show ?case by blast
qed simp

lemma runs_args:
  assumes "list_all2 (\<lambda>t v. P t v \<and> (\<exists>d. runs (eval d st env slf t) v)) as vs"
  shows "\<exists>d. list_all2 (\<lambda>t. runs (eval d st env slf t)) as vs"
proof (rule list_all2_bound)
  show "list_all2 (\<lambda>t v. \<exists>d. runs (eval d st env slf t) v) as vs"
    using assms by (rule list_all2_mono) blast
qed (rule runs_eval_mono)

lemma bs_runs: "bs st n env slf t v \<Longrightarrow> \<exists>d. runs (eval d st env slf t) v"
  and ap_runs: "ap st n g y v \<Longrightarrow> \<exists>d. runs (apply_val (eval d st) g y) v"
proof (induction rule: bs_ap.inducts)
  case (bs_App m env slf f g x y k v n)
  then obtain a b d where r: "runs (eval a st env slf f) g" "runs (eval b st env slf x) y"
    "runs (apply_val (eval d st) g y) v" by blast
  let ?d = "max a (max b d)"
  have "runs (eval (Suc ?d) st env slf (App f x)) v"
    using runs_eval_mono [OF r(1), of ?d] runs_eval_mono [OF r(2), of ?d] runs_apply_mono [OF r(3), of ?d]
    unfolding runs_eval_Suc evalInner.simps
    by (auto simp: runs_bind_eq refl_eval refines_bind refines_apply refl_evs le_max_iff_disj)
  then show ?case by blast
next
  case (bs_Let m env slf a x k b v n p)
  then obtain i j where r: "runs (eval i st env slf a) x" "runs (eval j st (pushEnv env x) slf b) v" by blast
  have "runs (eval (Suc (max i j)) st env slf (Let p a b)) v"
    using runs_eval_mono [OF r(1), of "max i j"] runs_eval_mono [OF r(2), of "max i j"]
    unfolding runs_eval_Suc evalInner.simps by (intro runs_bindI refl_eval) simp_all
  then show ?case by blast
next
  case (bs_If m env slf a w k b d v n)
  then obtain i j where r: "runs (eval i st env slf a) w" "runs (eval j st env slf (if bool_of w then b else d)) v"
    by blast
  have "runs (eval (Suc (max i j)) st env slf (If a b d)) v"
    using runs_eval_mono [OF r(1), of "max i j"] runs_eval_mono [OF r(2), of "max i j"]
    unfolding runs_eval_Suc evalInner.simps
    by (intro runs_bindI [where x = w] refl_eval) (simp_all add: refl_eval split: if_splits)
  then show ?case by blast
next
  case (bs_Prim n env slf as vs op v)
  then obtain d where "list_all2 (\<lambda>t. runs (eval d st env slf t)) as vs"
    using runs_args [of "bs st n env slf"] by blast
  then have "runs (eval (Suc d) st env slf (Prim op as)) v"
    using bs_Prim unfolding runs_eval_Suc evalInner.simps
    by (intro runs_bindI [where x = vs]) (simp_all add: refines_list refl_eval refines_from runs_list)
  then show ?case by blast
next
  case (bs_Ref h j t b ps n v env slf ts)
  then obtain d where "runs (eval d st [] h b) v" by blast
  then have "runs (eval (Suc d) st env slf (Ref h ts)) v"
    using bs_Ref(1) by (simp add: runs_eval_Suc eval_def_def GetDef_def del: eval.simps)
  then show ?case by blast
next
  case (bs_Self slf j t b ps n v env ts)
  then obtain d where "runs (eval d st [] slf b) v" by blast
  then have "runs (eval (Suc d) st env slf (Self ts)) v"
    using bs_Self(1,2) by (simp add: runs_eval_Suc eval_def_def GetDef_def del: eval.simps)
  then show ?case by blast
next
  case (bs_Ctor n env slf as vs h i ts)
  then obtain d where "list_all2 (\<lambda>t. runs (eval d st env slf t)) as vs"
    using runs_args [of "bs st n env slf"] by blast
  then have "runs (eval (Suc d) st env slf (Ctor h i ts as)) (VData h i vs)"
    unfolding runs_eval_Suc evalInner.simps
    by (intro runs_bindI [where x = vs]) (simp_all add: refines_list refl_eval refines_from runs_list)
  then show ?case by blast
next
  case (bs_Match m env slf a g i vs arms k v n h)
  then obtain c d where r: "runs (eval c st env slf a) (VData g i vs)"
    "runs (eval d st (foldl pushEnv env vs) slf (arms ! i)) v" by blast
  have "runs (eval (Suc (max c d)) st env slf (Match h a arms)) v"
    using runs_eval_mono [OF r(1), of "max c d"] runs_eval_mono [OF r(2), of "max c d"] \<open>i < length arms\<close>
    unfolding runs_eval_Suc evalInner.simps
    by (intro runs_bindI [where x = "VData g i vs"] refl_eval) (simp_all add: refl_eval refines_from)
  then show ?case by blast
next
  case (bs_Record n env slf as vs ns)
  then obtain d where "list_all2 (\<lambda>t. runs (eval d st env slf t)) as vs"
    using runs_args [of "bs st n env slf"] by blast
  then have "runs (eval (Suc d) st env slf (Record ns as)) (VRecord ns vs)"
    unfolding runs_eval_Suc evalInner.simps
    by (intro runs_bindI [where x = vs]) (simp_all add: refines_list refl_eval refines_from runs_list)
  then show ?case by blast
next
  case (bs_Field n env slf a ns vs f v)
  then obtain d where "runs (eval d st env slf a) (VRecord ns vs)" by blast
  then have "runs (eval (Suc d) st env slf (Field a f)) v"
    using \<open>field_val ns vs f = Inr v\<close> unfolding runs_eval_Suc evalInner.simps
    by (intro runs_bindI [where x = "VRecord ns vs"] refl_eval) (simp_all add: refines_from)
  then show ?case by blast
next
  case (ap_Clos n env y slf b v p)
  then obtain d where "runs (eval d st (pushEnv env y) slf b) v" by blast
  then show ?case by (auto simp: runs_apply apply_body_def)
qed (rule exI [of _ "Suc 0"], simp add: runs_eval_Suc del: eval.simps)+

lemma plain_field: "list_all plain vs \<Longrightarrow> field_val ns vs f = Inr v \<Longrightarrow> plain v"
proof (induction ns vs f rule: field_val.induct)
  case (2 n ns vs f)
  then show ?case by (cases vs) (auto split: if_splits)
qed simp

lemma plain_pushAll: "list_all plain vs \<Longrightarrow> list_all plain env \<Longrightarrow> list_all plain (foldl pushEnv env vs)"
  by (induction vs arbitrary: env) (auto simp: pushEnv_def)

lemma bs_plain: "bs st n env slf t v \<Longrightarrow> list_all plain env \<Longrightarrow> plain v"
  and ap_plain: "ap st n g y v \<Longrightarrow> plain g \<Longrightarrow> plain y \<Longrightarrow> plain v"
proof (induction rule: bs_ap.inducts)
  case (bs_Prim n env slf as vs op v)
  then show ?case using prim_first_order plain_first_order by blast
next
  case (bs_Ctor n env slf as vs h i ts)
  then show ?case by (simp add: list_all2_conv_all_nth list_all_length)
next
  case (bs_Record n env slf as vs ns)
  then show ?case by (simp add: list_all2_conv_all_nth list_all_length)
next
  case (bs_Match m env slf a g i vs arms k v n h)
  then show ?case by (simp add: plain_pushAll)
next
  case (bs_Field n env slf a ns vs f v)
  then show ?case using plain_field by auto
next
  case (bs_Var i env n slf)
  then show ?case by (simp add: list_all_length)
qed (auto simp: pushEnv_def)

lemma runs_apply_bs:
  assumes IH: "\<And>env slf t v. runs (eval d st env slf t) v \<Longrightarrow> list_all plain env \<Longrightarrow> \<exists>n. bs st n env slf t v"
    and "runs (apply_val (eval d st) g y) v" "plain g" "plain y"
  shows "\<exists>n. ap st n g y v"
proof (cases g)
  case (VClos env p b slf)
  then have "runs (eval d st (pushEnv env y) slf b) v" using assms(2) by (simp add: runs_apply apply_body_def)
  moreover have "list_all plain (pushEnv env y)" using assms(3,4) VClos by (simp add: pushEnv_def)
  ultimately obtain n where "bs st n (pushEnv env y) slf b v" using IH by blast
  then show ?thesis using VClos ap_Clos by blast
qed (use assms in \<open>auto simp: runs_apply apply_body_def\<close>)

lemma runs_args_bs:
  assumes "\<And>t v. runs (ev t) v \<Longrightarrow> \<exists>n. bs st n env slf t v" "list_all2 (\<lambda>t. runs (ev t)) as vs"
  shows "\<exists>n. list_all2 (bs st n env slf) as vs"
proof (rule list_all2_bound)
  show "list_all2 (\<lambda>t v. \<exists>n. bs st n env slf t v) as vs"
    using assms(2) by (rule list_all2_mono) (rule assms(1))
qed (rule bs_mono)

lemma runs_bs: "runs (eval d st env slf t) v \<Longrightarrow> list_all plain env \<Longrightarrow> \<exists>n. bs st n env slf t v"
proof (induction d arbitrary: env slf t v)
  case 0
  then show ?case by (simp add: runs_def efrom_def)
next
  case (Suc d)
  note IH = Suc.IH [OF _ Suc.prems(2)]
  have r: "runs (evalInner st (eval d st) env slf t) v" using Suc.prems(1) by (simp only: runs_eval_Suc)
  have list: "runs (eval_list (eval d st env slf) as) vs \<Longrightarrow> \<exists>n. list_all2 (bs st n env slf) as vs" for as vs
    using runs_args_bs [OF IH] by (simp add: runs_list refl_eval)
  show ?case
  proof (cases t)
    case (App f x)
    obtain g y where g: "runs (eval d st env slf f) g" "runs (eval d st env slf x) y"
      "runs (apply_val (eval d st) g y) v"
      using r unfolding App evalInner.simps by (elim runs_bindE) blast
    obtain a b where ab: "bs st a env slf f g" "bs st b env slf x y" using IH g(1,2) by blast
    obtain k where k: "ap st k g y v"
      using runs_apply_bs [OF Suc.IH g(3)] bs_plain [OF ab(1) Suc.prems(2)] bs_plain [OF ab(2) Suc.prems(2)] by blast
    have "bs st (max a b + k) env slf (App f x) v"
      by (rule bs_App [OF bs_mono [OF ab(1), of "max a b"] bs_mono [OF ab(2)] k]) simp_all
    then show ?thesis using App by blast
  next
    case (Let p a b)
    obtain x where x: "runs (eval d st env slf a) x" "runs (eval d st (pushEnv env x) slf b) v"
      using r unfolding Let evalInner.simps by (elim runs_bindE) blast
    obtain m where m: "bs st m env slf a x" using IH x(1) by blast
    then obtain k where "bs st k (pushEnv env x) slf b v"
      using Suc.IH [OF x(2)] bs_plain [OF m Suc.prems(2)] Suc.prems(2) by (auto simp: pushEnv_def)
    with m show ?thesis using bs_Let Let by blast
  next
    case (If a b e)
    obtain w where w: "runs (eval d st env slf a) w" "runs (eval d st env slf (if bool_of w then b else e)) v"
      using r unfolding If evalInner.simps by (elim runs_bindE) (auto split: if_splits)
    then obtain m k where "bs st m env slf a w" "bs st k env slf (if bool_of w then b else e) v"
      using IH by blast
    then show ?thesis using bs_If If by blast
  next
    case (Match h a arms)
    obtain x where x: "runs (eval d st env slf a) x" "runs (case x of VData g i vs \<Rightarrow>
           if length arms \<le> i then efrom (Inl (ENoArm i)) else eval d st (foldl pushEnv env vs) slf (arms ! i)
       | _ \<Rightarrow> efrom (Inl ENotData)) v"
      using r unfolding Match evalInner.simps by (elim runs_bindE) blast
    obtain g i vs where v: "x = VData g i vs" "i < length arms"
        "runs (eval d st (foldl pushEnv env vs) slf (arms ! i)) v"
      using x(2) by (cases x) (auto split: if_splits)
    obtain m where m: "bs st m env slf a (VData g i vs)" using IH x(1) v(1) by blast
    then have "list_all plain (foldl pushEnv env vs)"
      using bs_plain [OF m Suc.prems(2)] Suc.prems(2) by (simp add: plain_pushAll)
    then obtain k where "bs st k (foldl pushEnv env vs) slf (arms ! i) v" using Suc.IH v(3) by blast
    with m v(2) show ?thesis using bs_Match Match by blast
  next
    case (Field a f)
    obtain x where x: "runs (eval d st env slf a) x"
        "runs (efrom (case x of VRecord ns vs \<Rightarrow> field_val ns vs f | _ \<Rightarrow> Inl (ENoField f))) v"
      using r unfolding Field evalInner.simps by (elim runs_bindE) blast
    then obtain ns vs where "x = VRecord ns vs" "field_val ns vs f = Inr v" by (cases x) auto
    then show ?thesis using IH x(1) bs_Field Field by blast
  next
    case (Prim op as)
    then obtain vs where vs: "runs (eval_list (eval d st env slf) as) vs" "prim op vs = Inr v"
      using r by (auto elim!: runs_bindE)
    then show ?thesis using list [OF vs(1)] bs_Prim Prim by blast
  next
    case (Ctor h i ts as)
    then obtain vs where vs: "runs (eval_list (eval d st env slf) as) vs" "v = VData h i vs"
      using r by (auto elim!: runs_bindE)
    then show ?thesis using list [OF vs(1)] bs_Ctor Ctor by blast
  next
    case (Record ns as)
    then obtain vs where vs: "runs (eval_list (eval d st env slf) as) vs" "v = VRecord ns vs"
      using r by (auto elim!: runs_bindE)
    then show ?thesis using list [OF vs(1)] bs_Record Record by blast
  next
    case (Ref h ts)
    then obtain j u b ps where "map_of (sdefs st) h = Some (DFunc j u b ps)" "runs (eval d st [] h b) v"
      using r by (auto simp: eval_def_def GetDef_def split: option.splits def.splits)
    moreover from this(2) obtain n where "bs st n [] h b v" using Suc.IH by fastforce
    ultimately show ?thesis using bs_Ref Ref by blast
  next
    case (Self ts)
    then obtain j u b ps where "slf \<noteq> ''''" "map_of (sdefs st) slf = Some (DFunc j u b ps)" "runs (eval d st [] slf b) v"
      using r by (auto simp: eval_def_def GetDef_def split: option.splits def.splits if_splits)
    moreover from this(3) obtain n where "bs st n [] slf b v" using Suc.IH by fastforce
    ultimately show ?thesis using bs_Self Self by blast
  qed (use r in \<open>auto split: if_splits\<close>)
qed

lemma bs_det: "bs st n env slf t v \<Longrightarrow> bs st n' env slf t v' \<Longrightarrow> v = v'"
  using bs_runs [of st n env slf t v] bs_runs [of st n' env slf t v'] by (auto dest: runs_det)

text \<open>What is typed has a typed value.\<close>

lemma bs_typed:
  assumes "store_checked st" "scope st E c s slf env" "typed E c t u" "bs st n env slf t v"
  shows "vty st v (instT s u)"
proof -
  obtain d f f' where "eval d st env slf t f = (Inr v, f')"
    using bs_runs [OF assms(4)] by (auto simp: runs_def)
  moreover have "ok_with (\<lambda>v. vty st v (instT s u)) (eval d st env slf t)"
    by (rule sound_evD [OF eval_sound [OF assms(1)] assms(2,3)])
  ultimately show ?thesis by (auto simp: ok_with_def dest: spec [of _ f])
qed

end
