(* ===== verification/LogRel.thy ===== *)
theory LogRel
  imports BigStep
begin

text \<open>
  When two terms mean the same. Values of a type are related up to a number of calls: data by
  their fields, functions when related arguments make the one return and then the other too,
  with related results. Two terms are related when, in related environments, a value of the
  first is matched by a value of the second. The relation is closed under the constructors of
  terms, so that every term of a checked program is related to itself, and replacing a
  subterm by a related one is sound.
\<close>

subsection \<open>Values\<close>

definition fn :: "store \<Rightarrow> ty \<Rightarrow> ty \<Rightarrow> val \<Rightarrow> bool" where
  "fn st p q v \<longleftrightarrow> (\<exists>env t b slf. v = VClos env t b slf) \<and> vty st v (TFun p q) \<and> plain v"

inductive vrel :: "store \<Rightarrow> (ty \<Rightarrow> ty \<Rightarrow> val \<Rightarrow> val \<Rightarrow> bool) \<Rightarrow> ty \<Rightarrow> val \<Rightarrow> val \<Rightarrow> bool" for st R where
  vrel_Int: "vrel st R TInt (VInt x) (VInt x)"
| vrel_Rat: "vrel st R TRat (VRat q) (VRat q)"
| vrel_Float: "canonFloat f = f \<Longrightarrow> vrel st R TFloat (VFloat f) (VFloat f)"
| vrel_Bool: "vrel st R TBool (VBool b) (VBool b)"
| vrel_Record:
    "length ns = length ts \<Longrightarrow> length vs = length ts \<Longrightarrow> length ws = length ts \<Longrightarrow>
     (\<And>i. i < length ts \<Longrightarrow> vrel st R (ts ! i) (vs ! i) (ws ! i)) \<Longrightarrow>
     vrel st R (TRecord ns ts) (VRecord ns vs) (VRecord ns ws)"
| vrel_Data:
    "map_of (sdefs st) h = Some (DData (length ts) cs) \<Longrightarrow> i < length cs \<Longrightarrow>
     fs = instCtorFields (DData (length ts) cs) h ts i \<Longrightarrow>
     length vs = length fs \<Longrightarrow> length ws = length fs \<Longrightarrow>
     (\<And>j. j < length fs \<Longrightarrow> vrel st R (fs ! j) (vs ! j) (ws ! j)) \<Longrightarrow>
     vrel st R (TData h ts) (VData h i vs) (VData h i ws)"
| vrel_Fun: "fn st p q v \<Longrightarrow> fn st p q w \<Longrightarrow> R p q v w \<Longrightarrow> vrel st R (TFun p q) v w"

inductive_cases vrel_IntE: "vrel st R TInt v w"
inductive_cases vrel_RatE: "vrel st R TRat v w"
inductive_cases vrel_FloatE: "vrel st R TFloat v w"
inductive_cases vrel_BoolE: "vrel st R TBool v w"
inductive_cases vrel_RecordE: "vrel st R (TRecord ns ts) v w"
inductive_cases vrel_DataE: "vrel st R (TData h ts) v w"
inductive_cases vrel_FunE: "vrel st R (TFun p q) v w"

definition erel :: "store \<Rightarrow> (ty \<Rightarrow> ty \<Rightarrow> val \<Rightarrow> val \<Rightarrow> bool) \<Rightarrow> ty list \<Rightarrow> val list \<Rightarrow> val list \<Rightarrow> bool" where
  "erel st R ts vs ws \<longleftrightarrow>
     length vs = length ts \<and> length ws = length ts \<and> (\<forall>i < length ts. vrel st R (ts ! i) (vs ! i) (ws ! i))"

lemma vrel_typed: "vrel st R t v w \<Longrightarrow> vty st v t \<and> vty st w t \<and> plain v \<and> plain w"
proof (induction rule: vrel.induct)
  case (vrel_Record ns ts vs ws)
  then show ?case by (auto intro!: vty_Record simp: list_all2_conv_all_nth list_all_length)
next
  case (vrel_Data h ts cs i fs vs ws)
  then show ?case by (auto intro!: vty_Data simp: list_all2_conv_all_nth list_all_length)
qed (auto intro: vty.intros simp: fn_def)

lemma vrel_mono:
  "vrel st R t v w \<Longrightarrow> (\<And>p q v w. R p q v w \<Longrightarrow> R' p q v w) \<Longrightarrow> vrel st R' t v w"
  by (induction rule: vrel.induct) (auto intro: vrel.intros)

lemma erel_typed:
  "erel st R ts vs ws \<Longrightarrow>
   list_all2 (vty st) vs ts \<and> list_all2 (vty st) ws ts \<and> list_all plain vs \<and> list_all plain ws"
  using vrel_typed by (simp add: erel_def list_all2_conv_all_nth list_all_length) blast

lemma erel_mono:
  "erel st R ts vs ws \<Longrightarrow> (\<And>p q v w. R p q v w \<Longrightarrow> R' p q v w) \<Longrightarrow> erel st R' ts vs ws"
  unfolding erel_def using vrel_mono by blast

lemma erel_Cons: "erel st R (t # ts) (v # vs) (w # ws) \<longleftrightarrow> vrel st R t v w \<and> erel st R ts vs ws"
  by (auto simp: erel_def nth_Cons less_Suc_eq_0_disj split: nat.split)

lemma erel_Nil [simp]: "erel st R [] vs ws \<longleftrightarrow> vs = [] \<and> ws = []"
  by (auto simp: erel_def)

lemma erel_pushAll:
  "erel st R ts env env' \<Longrightarrow> erel st R us vs ws \<Longrightarrow>
   erel st R (pushAll ts us) (foldl pushEnv env vs) (foldl pushEnv env' ws)"
proof (induction us arbitrary: ts env env' vs ws)
  case (Cons u us)
  then obtain v vs' w ws' where s: "vs = v # vs'" "ws = w # ws'" by (cases vs; cases ws) (auto simp: erel_def)
  then have "erel st R (pushAll (u # ts) us) (foldl pushEnv (v # env) vs') (foldl pushEnv (w # env') ws')"
    using Cons.prems by (intro Cons.IH) (simp_all add: erel_Cons)
  then show ?case by (simp add: s pushAll_def) (simp add: pushCtx_def pushEnv_def)
qed (simp add: pushAll_def)

text \<open>Data all the way down is related to itself only.\<close>

lemma vrel_first_order: "vrel st R t v w \<Longrightarrow> first_order v \<or> first_order w \<Longrightarrow> v = w"
proof (induction rule: vrel.induct)
  case (vrel_Record ns ts vs ws)
  then show ?case by (auto simp: list_all_length intro!: nth_equalityI)
next
  case (vrel_Data h ts cs i fs vs ws)
  then show ?case by (auto simp: list_all_length intro!: nth_equalityI)
qed (auto simp: fn_def)

lemma first_order_vrel: "vty st v t \<Longrightarrow> first_order v \<Longrightarrow> vrel st R t v v"
proof (induction rule: vty.induct)
  case (vty_Record ns vs ts)
  then show ?case by (auto simp: list_all2_conv_all_nth list_all_length intro!: vrel_Record)
next
  case (vty_Data h ts cs i vs)
  then show ?case by (auto simp: list_all2_conv_all_nth list_all_length intro!: vrel_Data)
qed (auto intro: vrel.intros)

lemma structEqs_pointwise:
  "length ws = length vs \<Longrightarrow> length xs = length vs \<Longrightarrow> length ys = length vs \<Longrightarrow>
   (\<And>i. i < length vs \<Longrightarrow> structEq (vs ! i) (xs ! i) = structEq (ws ! i) (ys ! i)) \<Longrightarrow>
   structEqs vs xs = structEqs ws ys"
proof (induction vs arbitrary: ws xs ys)
  case (Cons v vs)
  obtain w ws' where w: "ws = w # ws'" using Cons.prems(1) by (cases ws) auto
  obtain x xs' where x: "xs = x # xs'" using Cons.prems(2) by (cases xs) auto
  obtain y ys' where y: "ys = y # ys'" using Cons.prems(3) by (cases ys) auto
  have "structEq v x = structEq w y" using Cons.prems(4) [of 0] by (simp add: w x y)
  moreover have "structEqs vs xs' = structEqs ws' ys'"
  proof (rule Cons.IH)
    show "structEq (vs ! i) (xs' ! i) = structEq (ws' ! i) (ys' ! i)" if "i < length vs" for i
      using Cons.prems(4) [of "Suc i"] that by (simp add: w x y)
  qed (use Cons.prems(1-3) w x y in simp_all)
  ultimately show ?case by (simp add: w x y split: sum.split)
qed simp

lemma structEq_vrel:
  "vrel st R t v w \<Longrightarrow> vrel st R' t x y \<Longrightarrow> structEq v x = structEq w y"
proof (induction arbitrary: x y rule: vrel.induct)
  case (vrel_Record ns ts vs ws)
  obtain xs ys where x: "x = VRecord ns xs" "y = VRecord ns ys" "length xs = length ts" "length ys = length ts"
    "\<And>i. i < length ts \<Longrightarrow> vrel st R' (ts ! i) (xs ! i) (ys ! i)"
    using vrel_Record.prems by (auto elim!: vrel_RecordE)
  have "structEqs vs xs = structEqs ws ys"
    using vrel_Record.IH vrel_Record.hyps x(3,4,5) by (intro structEqs_pointwise) simp_all
  then show ?case using vrel_Record x by simp
next
  case (vrel_Data h ts cs i fs vs ws)
  obtain j xs ys where x: "x = VData h j xs" "y = VData h j ys"
    "length xs = length (instCtorFields (DData (length ts) cs) h ts j)"
    "length ys = length (instCtorFields (DData (length ts) cs) h ts j)"
    "\<And>k. k < length (instCtorFields (DData (length ts) cs) h ts j) \<Longrightarrow>
       vrel st R' (instCtorFields (DData (length ts) cs) h ts j ! k) (xs ! k) (ys ! k)"
    using vrel_Data.prems vrel_Data.hyps(1) by (auto elim!: vrel_DataE)
  have "structEqs vs xs = structEqs ws ys" if "i = j"
    using vrel_Data.IH vrel_Data.hyps(3-5) x(3-5) that by (intro structEqs_pointwise) simp_all
  then show ?case using vrel_Data.hyps x(1-4) by simp
qed (auto elim!: vrel_IntE vrel_RatE vrel_FloatE vrel_BoolE vrel_FunE simp: fn_def)

subsection \<open>Functions\<close>

text \<open>Related up to \<open>n\<close> calls: a call that costs \<open>c\<close> of them leaves the rest for the result.\<close>

function F :: "store \<Rightarrow> nat \<Rightarrow> ty \<Rightarrow> ty \<Rightarrow> val \<Rightarrow> val \<Rightarrow> bool" where
  "F st n = (\<lambda>p q v w. \<forall>j \<in> {..<n}. \<forall>x y. vrel st (F st j) p x y \<longrightarrow>
     (\<forall>c \<in> {..j}. \<forall>r. ap st (Suc c) v x r \<longrightarrow> (\<exists>d r'. ap st d w y r' \<and> vrel st (F st (j - c)) q r r')))"
  by pat_completeness auto
termination by (relation "measure snd") auto

declare F.simps [simp del]

abbreviation V :: "store \<Rightarrow> nat \<Rightarrow> ty \<Rightarrow> val \<Rightarrow> val \<Rightarrow> bool" where
  "V st n \<equiv> vrel st (F st n)"

lemma F_mono: "F st n p q v w \<Longrightarrow> m \<le> n \<Longrightarrow> F st m p q v w"
  by (subst F.simps, subst (asm) F.simps) auto

lemma V_mono: "V st n t v w \<Longrightarrow> m \<le> n \<Longrightarrow> V st m t v w"
  by (erule vrel_mono) (erule F_mono)

lemma EV_mono: "erel st (F st n) ts vs ws \<Longrightarrow> m \<le> n \<Longrightarrow> erel st (F st m) ts vs ws"
  by (erule erel_mono) (erule F_mono)

lemma FI:
  assumes "\<And>j x y c r. j < n \<Longrightarrow> V st j p x y \<Longrightarrow> c \<le> j \<Longrightarrow> ap st (Suc c) v x r \<Longrightarrow>
    \<exists>d r'. ap st d w y r' \<and> V st (j - c) q r r'"
  shows "F st n p q v w"
  by (subst F.simps) (use assms in auto)

lemma FD:
  "F st n p q v w \<Longrightarrow> V st j p x y \<Longrightarrow> j < n \<Longrightarrow> c \<le> j \<Longrightarrow> ap st (Suc c) v x r \<Longrightarrow>
   \<exists>d r'. ap st d w y r' \<and> V st (j - c) q r r'"
  by (subst (asm) F.simps) auto

lemma ap_cost: "ap st n g y v \<Longrightarrow> \<exists>c. n = Suc c"
  by (erule ap_ClosE) auto

text \<open>A call of related functions at related arguments.\<close>

lemma V_apply:
  assumes g: "V st n (TFun p q) g g'" and y: "V st n p y y'" and a: "ap st k g y v" and k: "k \<le> n"
  shows "\<exists>k' v'. ap st k' g' y' v' \<and> V st (n - k) q v v'"
proof -
  obtain c where c: "k = Suc c" using ap_cost [OF a] by blast
  have "F st n p q g g'" using g by (auto elim: vrel_FunE)
  moreover have "V st (n - 1) p y y'" using y by (rule V_mono) simp
  ultimately obtain d r where "ap st d g' y' r" "V st (n - 1 - c) q v r"
    using FD [of st n p q g g' "n - 1" y y' c v] a k c by fastforce
  then show ?thesis using c by auto
qed

subsection \<open>Terms\<close>

definition inst :: "env \<Rightarrow> ty list \<Rightarrow> bool" where
  "inst E s \<longleftrightarrow> length s = etv E \<and> list_all norec s"

text \<open>What \<^verbatim>\<open>self\<close> refers to on the two sides: definitions whose bodies are related below \<open>m\<close>.\<close>

definition body_rel :: "store \<Rightarrow> nat \<Rightarrow> nat \<Rightarrow> ty \<Rightarrow> hash \<Rightarrow> trm \<Rightarrow> hash \<Rightarrow> trm \<Rightarrow> bool" where
  "body_rel st j n t h b h' b' \<longleftrightarrow>
     (\<forall>s k v. length s = n \<longrightarrow> list_all norec s \<longrightarrow> k \<le> j \<longrightarrow> bs st k [] h b v \<longrightarrow>
        (\<exists>k' v'. bs st k' [] h' b' v' \<and> V st (j - k) (instT s t) v v'))"

lemma body_relD:
  "body_rel st j n t h b h' b' \<Longrightarrow> length s = n \<Longrightarrow> list_all norec s \<Longrightarrow> k \<le> j \<Longrightarrow> bs st k [] h b v \<Longrightarrow>
   \<exists>k' v'. bs st k' [] h' b' v' \<and> V st (j - k) (instT s t) v v'"
  unfolding body_rel_def by blast

definition sref :: "store \<Rightarrow> nat \<Rightarrow> env \<Rightarrow> hash \<Rightarrow> hash \<Rightarrow> bool" where
  "sref st m E h h' \<longleftrightarrow>
     (\<forall>t. eself E = Some t \<longrightarrow> h \<noteq> '''' \<and> h' \<noteq> '''' \<and>
        (\<exists>b b' ps ps'. map_of (sdefs st) h = Some (DFunc (etv E) t b ps) \<and>
           map_of (sdefs st) h' = Some (DFunc (etv E) t b' ps') \<and>
           (\<forall>j < m. body_rel st j (etv E) t h b h' b')))"

definition frame :: "store \<Rightarrow> nat \<Rightarrow> env \<Rightarrow> ctx \<Rightarrow> ty list \<Rightarrow> hash \<Rightarrow> hash \<Rightarrow> val list \<Rightarrow> val list \<Rightarrow> bool" where
  "frame st m E c s h h' env env' \<longleftrightarrow>
     est E = st \<and> env_wf E \<and> ctx_wf E c \<and> inst E s \<and> sref st m E h h' \<and>
     erel st (F st m) (map (instT s) c) env env'"

definition apx :: "store \<Rightarrow> nat \<Rightarrow> env \<Rightarrow> ctx \<Rightarrow> trm \<Rightarrow> trm \<Rightarrow> ty \<Rightarrow> bool" where
  "apx st n E c t t' u \<longleftrightarrow>
     (\<forall>m s h h' env env' k v. m \<le> n \<longrightarrow> frame st m E c s h h' env env' \<longrightarrow> k \<le> m \<longrightarrow> bs st k env h t v \<longrightarrow>
        (\<exists>k' v'. bs st k' env' h' t' v' \<and> V st (m - k) (instT s u) v v'))"

lemma apxD:
  "apx st n E c t t' u \<Longrightarrow> frame st m E c s h h' env env' \<Longrightarrow> bs st k env h t v \<Longrightarrow> m \<le> n \<Longrightarrow> k \<le> m \<Longrightarrow>
   \<exists>k' v'. bs st k' env' h' t' v' \<and> V st (m - k) (instT s u) v v'"
  unfolding apx_def by blast

lemma frame_mono: "frame st m E c s h h' env env' \<Longrightarrow> j \<le> m \<Longrightarrow> frame st j E c s h h' env env'"
  unfolding frame_def sref_def by (auto intro: EV_mono)

lemma frame_scope:
  "frame st m E c s h h' env env' \<Longrightarrow>
   scope st E c s h env \<and> scope st E c s h' env' \<and> list_all plain env \<and> list_all plain env'"
  using erel_typed [of st "F st m" "map (instT s) c" env env']
  unfolding frame_def scope_def sref_def inst_def by blast

lemma frame_push:
  "frame st m E c s h h' env env' \<Longrightarrow> wfT E t \<Longrightarrow> V st m (instT s t) v v' \<Longrightarrow>
   frame st m E (pushCtx c t) s h h' (pushEnv env v) (pushEnv env' v')"
  by (auto simp: frame_def pushCtx_def pushEnv_def erel_Cons)

lemma frame_pushAll:
  "frame st m E c s h h' env env' \<Longrightarrow> list_all (wfT E) ts \<Longrightarrow> erel st (F st m) (map (instT s) ts) vs vs' \<Longrightarrow>
   frame st m E (pushAll c ts) s h h' (foldl pushEnv env vs) (foldl pushEnv env' vs')"
proof (induction ts arbitrary: c env env' vs vs')
  case (Cons t ts)
  then obtain v ws v' ws' where s: "vs = v # ws" "vs' = v' # ws'" by (cases vs; cases vs') (auto simp: erel_def)
  have "frame st m E (pushAll (pushCtx c t) ts) s h h' (foldl pushEnv (pushEnv env v) ws) (foldl pushEnv (pushEnv env' v') ws')"
    using Cons.prems s by (intro Cons.IH frame_push) (simp_all add: erel_Cons)
  then show ?case by (simp add: s pushAll_def)
qed (simp add: pushAll_def)

subsection \<open>Operands of primitives\<close>

lemma list_int_first_order:
  assumes st: "store_checked st" and l: "slist st = Some h"
  shows "vty st v (TData h [TInt]) \<Longrightarrow> first_order v"
proof (induction v rule: first_order.induct)
  case (5 g i vs)
  have d: "map_of (sdefs st) h = Some (DData 1 [[], [TVar 0, TRec [TVar 0]]])"
    using st l by (simp add: store_checked_def)
  have "i < 2" "list_all2 (vty st) vs (instCtorFields (DData 1 [[], [TVar 0, TRec [TVar 0]]]) h [TInt] i)"
    using 5(2) d by (auto elim!: vty_DataE)
  moreover have "instCtorFields (DData 1 [[], [TVar 0, TRec [TVar 0]]]) h [TInt] i =
      (if i = 0 then [] else [TInt, TData h [TInt]])" if "i < 2"
    using that by (cases i) (auto simp: instCtorFields_def ctors_of_def)
  ultimately have "vs = [] \<or> (\<exists>x r. vs = [x, r] \<and> vty st x TInt \<and> vty st r (TData h [TInt]))"
    by (cases "i = 0") (auto simp: list_all2_Cons2)
  then show ?case using 5(1) by (auto elim!: vty_IntE)
qed (auto elim!: vty_DataE)

lemma prim_operands:
  assumes st: "store_checked st" and p: "prim_shape st op ts t"
    and v: "erel st R ts vs ws"
  shows "vs = ws"
proof -
  have one: "a = b" if "vrel st R k a b" "k \<in> {TInt, TRat, TFloat, TBool}" for k a b
    using that by (auto elim!: vrel_IntE vrel_RatE vrel_FloatE vrel_BoolE)
  have list: "a = b" if "vrel st R (TData h [TInt]) a b" "slist st = Some h" for h a b
    using vrel_first_order [OF that(1)] vrel_typed [OF that(1)] list_int_first_order [OF st that(2)] by blast
  have "ts ! i \<in> {TInt, TRat, TFloat, TBool} \<or> (\<exists>h. slist st = Some h \<and> ts ! i = TData h [TInt])"
    if "i < length ts" for i
    using p that by cases (auto simp: numeric_def nth_Cons' split: if_splits)
  then have "vs ! i = ws ! i" if "i < length ts" for i
    using one list v that by (fastforce simp: erel_def)
  then show ?thesis using v by (auto simp: erel_def intro: nth_equalityI)
qed

lemma prim_eq_vrel:
  assumes "vrel st R t v w" "vrel st R' t x y"
  shows "prim ''=='' [v, x] = prim ''=='' [w, y]"
proof (cases "\<exists>q. v = VRat q")
  case True
  then have "t = TRat" using assms(1) by (auto elim: vrel.cases simp: fn_def)
  then show ?thesis using assms by (auto elim!: vrel_RatE)
next
  case False
  then have "\<nexists>q. w = VRat q" using assms(1) by (auto elim: vrel.cases simp: fn_def)
  moreover have "prim ''=='' [v, x] = intPrim ''=='' [v, x]" if "\<nexists>q. v = VRat q" for v x
    using that by (cases v) (auto simp: prim_def numPrim_def floatPrim_def)
  ultimately show ?thesis
    using False structEq_vrel [OF assms] by (simp add: intPrim_def arg_def)
qed

subsection \<open>Compatibility\<close>

lemma apx_mono: "apx st n E c t t' u \<Longrightarrow> m \<le> n \<Longrightarrow> apx st m E c t t' u"
  unfolding apx_def by (meson le_trans)

definition apxs :: "store \<Rightarrow> nat \<Rightarrow> env \<Rightarrow> ctx \<Rightarrow> trm list \<Rightarrow> trm list \<Rightarrow> ty list \<Rightarrow> bool" where
  "apxs st n E c as as' us \<longleftrightarrow>
     length as = length us \<and> length as' = length us \<and> (\<forall>i < length us. apx st n E c (as ! i) (as' ! i) (us ! i))"

lemma apxsD:
  assumes "apxs st n E c as as' us" "frame st m E c s h h' env env'" "m \<le> n" "k \<le> m"
    and b: "list_all2 (bs st k env h) as vs"
  shows "\<exists>k' vs'. list_all2 (bs st k' env' h') as' vs' \<and> erel st (F st (m - k)) (map (instT s) us) vs vs'"
proof -
  have "\<exists>k' v'. bs st k' env' h' (as' ! i) v' \<and> V st (m - k) (instT s (us ! i)) (vs ! i) v'" if "i < length us" for i
    using assms(1) that list_all2_nthD [OF b, of i] apxD [OF _ assms(2) _ assms(3,4)]
    by (auto simp: apxs_def)
  then obtain f v' where f: "\<And>i. i < length us \<Longrightarrow>
      bs st (f i) env' h' (as' ! i) (v' i) \<and> V st (m - k) (instT s (us ! i)) (vs ! i) (v' i)"
    by metis
  let ?k = "Max (insert 0 (f ` {..<length us}))"
  have "list_all2 (bs st ?k env' h') as' (map v' [0..<length us])"
  proof (rule list_all2_all_nthI)
    show "length as' = length (map v' [0..<length us])" using assms(1) by (simp add: apxs_def)
    fix i assume "i < length as'"
    then have i: "i < length us" using assms(1) by (simp add: apxs_def)
    then have "f i \<le> ?k" by (intro Max_ge) auto
    from bs_mono [OF conjunct1 [OF f [OF i]] this]
    show "bs st ?k env' h' (as' ! i) (map v' [0..<length us] ! i)" using i by simp
  qed
  moreover have "erel st (F st (m - k)) (map (instT s) us) vs (map v' [0..<length us])"
    using f list_all2_lengthD [OF b] assms(1) by (simp add: erel_def apxs_def)
  ultimately show ?thesis by blast
qed

lemma apx_Var: "i < length c \<Longrightarrow> apx st n E c (Var i) (Var i) (c ! i)"
  unfolding apx_def by (auto simp: frame_def erel_def intro: V_mono)

lemma apx_lit:
  "apx st n E c (IntL x) (IntL x) TInt" "apx st n E c (RatL q) (RatL q) TRat"
  "apx st n E c (FloatL f) (FloatL f) TFloat" "apx st n E c (BoolL b) (BoolL b) TBool"
  unfolding apx_def by (auto intro: vrel.intros)

lemma apx_Lam:
  assumes st: "store_checked st" and p: "wfT E p" and t: "typed E (pushCtx c p) b q" "typed E (pushCtx c p) b' q"
    and b: "apx st n E (pushCtx c p) b b' q"
  shows "apx st n E c (Lam p b) (Lam p b') (TFun p q)"
  unfolding apx_def
proof (intro allI impI)
  fix m s h h' env env' k v
  assume m: "m \<le> n" and f: "frame st m E c s h h' env env'" and "k \<le> m" "bs st k env h (Lam p b) v"
  then have v: "v = VClos env p b h" by simp
  have l: "typed E c (Lam p b) (TFun p q)" "typed E c (Lam p b') (TFun p q)"
    using p t by (auto intro: typed_Lam)
  have "fn st (instT s p) (instT s q) v" "fn st (instT s p) (instT s q) (VClos env' p b' h')"
    using frame_scope [OF f] bs_typed [OF st _ l(1)] bs_typed [OF st _ l(2)] v by (auto simp: fn_def)
  moreover have "F st (m - k) (instT s p) (instT s q) v (VClos env' p b' h')"
  proof (rule FI)
    fix j x y i r
    assume j: "j < m - k" and x: "V st j (instT s p) x y" and i: "i \<le> j" and a: "ap st (Suc i) v x r"
    have f': "frame st j E (pushCtx c p) s h h' (pushEnv env x) (pushEnv env' y)"
      using frame_push [OF frame_mono [OF f] p x] j by simp
    have "bs st i (pushEnv env x) h b r" using a v by (auto elim: ap_ClosE)
    from apxD [OF b f' this _ i] obtain k' r' where
      "bs st k' (pushEnv env' y) h' b' r'" "V st (j - i) (instT s q) r r'" using j m by fastforce
    then show "\<exists>d r'. ap st d (VClos env' p b' h') y r' \<and> V st (j - i) (instT s q) r r'"
      using ap_Clos by blast
  qed
  ultimately show "\<exists>k' v'. bs st k' env' h' (Lam p b') v' \<and> V st (m - k) (instT s (TFun p q)) v v'"
    by (auto intro: vrel_Fun)
qed

lemma apx_App:
  assumes f: "apx st n E c f f' (TFun p q)" and a: "apx st n E c a a' p"
  shows "apx st n E c (App f a) (App f' a') q"
  unfolding apx_def
proof (intro allI impI)
  fix m s h h' env env' k v
  assume m: "m \<le> n" and fr: "frame st m E c s h h' env env'" and k: "k \<le> m" and b: "bs st k env h (App f a) v"
  obtain i j g y where r: "bs st i env h f g" "bs st i env h a y" "ap st j g y v" "i + j \<le> k"
    using b by (auto elim: bs_AppE)
  have i: "i \<le> m" using r(4) k by simp
  obtain k1 g' where g: "bs st k1 env' h' f' g'" "V st (m - i) (TFun (instT s p) (instT s q)) g g'"
    using apxD [OF f fr r(1) m i] by auto
  obtain k2 y' where y: "bs st k2 env' h' a' y'" "V st (m - i) (instT s p) y y'"
    using apxD [OF a fr r(2) m i] by auto
  obtain k3 v' where v: "ap st k3 g' y' v'" "V st (m - i - j) (instT s q) v v'"
    using V_apply [OF g(2) y(2) r(3)] r(4) k by fastforce
  have "bs st (max k1 k2 + k3) env' h' (App f' a') v'"
    by (rule bs_App [OF bs_mono [OF g(1), of "max k1 k2"] bs_mono [OF y(1)] v(1)]) simp_all
  moreover have "V st (m - k) (instT s q) v v'" by (rule V_mono [OF v(2)]) (use r(4) in simp)
  ultimately show "\<exists>k' v'. bs st k' env' h' (App f' a') v' \<and> V st (m - k) (instT s q) v v'" by blast
qed

lemma apx_Let:
  assumes p: "wfT E p" and a: "apx st n E c a a' p" and b: "apx st n E (pushCtx c p) b b' q"
  shows "apx st n E c (Let p a b) (Let p a' b') q"
  unfolding apx_def
proof (intro allI impI)
  fix m s h h' env env' k v
  assume m: "m \<le> n" and fr: "frame st m E c s h h' env env'" and k: "k \<le> m" and "bs st k env h (Let p a b) v"
  then obtain i j x where r: "bs st i env h a x" "bs st j (pushEnv env x) h b v" "i + j \<le> k"
    by (auto elim: bs_LetE)
  have le: "i \<le> m" "m - i \<le> n" "j \<le> m - i" using r(3) k m by simp_all
  obtain k1 x' where x: "bs st k1 env' h' a' x'" "V st (m - i) (instT s p) x x'"
    using apxD [OF a fr r(1) m le(1)] by auto
  have "frame st (m - i) E (pushCtx c p) s h h' (pushEnv env x) (pushEnv env' x')"
    by (rule frame_push [OF frame_mono [OF fr] p x(2)]) simp
  from apxD [OF b this r(2) le(2,3)] obtain k2 v' where
    v: "bs st k2 (pushEnv env' x') h' b' v'" "V st (m - i - j) (instT s q) v v'" by auto
  have "V st (m - k) (instT s q) v v'" by (rule V_mono [OF v(2)]) (use r(3) in simp)
  with bs_Let [OF x(1) v(1)] show "\<exists>k' v'. bs st k' env' h' (Let p a' b') v' \<and> V st (m - k) (instT s q) v v'"
    by blast
qed

lemma apx_If:
  assumes a: "apx st n E c a a' TBool" and b: "apx st n E c b b' q" and d: "apx st n E c d d' q"
  shows "apx st n E c (If a b d) (If a' b' d') q"
  unfolding apx_def
proof (intro allI impI)
  fix m s h h' env env' k v
  assume m: "m \<le> n" and fr: "frame st m E c s h h' env env'" and k: "k \<le> m" and "bs st k env h (If a b d) v"
  then obtain i j x where r: "bs st i env h a x" "bs st j env h (if bool_of x then b else d) v" "i + j \<le> k"
    by (auto elim: bs_IfE)
  have le: "i \<le> m" "m - i \<le> n" "j \<le> m - i" using r(3) k m by simp_all
  obtain k1 x' where x: "bs st k1 env' h' a' x'" "V st (m - i) TBool x x'"
    using apxD [OF a fr r(1) m le(1)] by auto
  have eq: "x' = x" using x(2) by (auto elim: vrel_BoolE)
  have fr': "frame st (m - i) E c s h h' env env'" by (rule frame_mono [OF fr]) simp
  have "apx st n E c (if bool_of x then b else d) (if bool_of x then b' else d') q" using b d by simp
  from apxD [OF this fr' r(2) le(2,3)] obtain k2 v' where
    v: "bs st k2 env' h' (if bool_of x then b' else d') v'" "V st (m - i - j) (instT s q) v v'" by auto
  have "V st (m - k) (instT s q) v v'" by (rule V_mono [OF v(2)]) (use r(3) in simp)
  with bs_If [OF x(1), unfolded eq, OF v(1)]
  show "\<exists>k' v'. bs st k' env' h' (If a' b' d') v' \<and> V st (m - k) (instT s q) v v'"
    by blast
qed

lemma apx_Prim:
  assumes st: "store_checked st" and E: "est E = st" and t: "list_all2 (typed E c) as us"
    and p: "primResultTy st op us = Inr u" and as: "apxs st n E c as as' us"
  shows "apx st n E c (Prim op as) (Prim op as') u"
  unfolding apx_def
proof (intro allI impI)
  fix m s h h' env env' k v
  assume m: "m \<le> n" and fr: "frame st m E c s h h' env env'" and k: "k \<le> m"
    and b: "bs st k env h (Prim op as) v"
  then obtain vs where r: "list_all2 (bs st k env h) as vs" "prim op vs = Inr v" by (auto elim: bs_PrimE)
  obtain k' vs' where vs: "list_all2 (bs st k' env' h') as' vs'" "erel st (F st (m - k)) (map (instT s) us) vs vs'"
    using apxsD [OF as fr m k r(1)] by blast
  have shape: "prim_shape st op us u" by (rule primResultTy_shape [OF p])
  have g: "map (instT s) us = us" "instT s u = u" using prim_shape_ground [OF shape] by simp_all
  have eq: "vs' = vs" using prim_operands [OF st shape vs(2) [unfolded g]] by simp
  have "good st u (prim op vs)"
    using erel_typed [OF vs(2)] g by (intro prim_good [OF shape _ st]) simp
  then have "V st (m - k) (instT s u) v v"
    using r(2) prim_first_order [OF r(2)] g by (intro first_order_vrel) simp_all
  with bs_Prim [OF vs(1)] r(2) eq
  show "\<exists>k' v'. bs st k' env' h' (Prim op as') v' \<and> V st (m - k) (instT s u) v v'" by blast
qed

lemma apx_Eq:
  assumes a: "apx st n E c a a' t" and b: "apx st n E c b b' t"
  shows "apx st n E c (Prim ''=='' [a, b]) (Prim ''=='' [a', b']) TBool"
  unfolding apx_def
proof (intro allI impI)
  fix m s h h' env env' k v
  assume m: "m \<le> n" and fr: "frame st m E c s h h' env env'" and k: "k \<le> m"
    and "bs st k env h (Prim ''=='' [a, b]) v"
  then obtain x y where r: "bs st k env h a x" "bs st k env h b y" "prim ''=='' [x, y] = Inr v"
    by (auto elim!: bs_PrimE simp: list_all2_Cons1)
  obtain i x' where x: "bs st i env' h' a' x'" "V st (m - k) (instT s t) x x'"
    using apxD [OF a fr r(1) m k] by auto
  obtain j y' where y: "bs st j env' h' b' y'" "V st (m - k) (instT s t) y y'"
    using apxD [OF b fr r(2) m k] by auto
  have "prim ''=='' [x', y'] = Inr v" using prim_eq_vrel [OF x(2) y(2)] r(3) by simp
  moreover have "list_all2 (bs st (max i j) env' h') [a', b'] [x', y']"
    using x(1) y(1) by (auto intro: bs_mono)
  ultimately have "bs st (max i j) env' h' (Prim ''=='' [a', b']) v" by (intro bs_Prim)
  moreover have "vty st x (instT s t)" "vty st y (instT s t)" using vrel_typed x(2) y(2) by blast+
  then have "vty st v TBool" using prim_eq_good [of st x "instT s t" y] r(3) by simp
  then have "V st (m - k) TBool v v" using prim_first_order [OF r(3)] by (rule first_order_vrel)
  ultimately show "\<exists>k' v'. bs st k' env' h' (Prim ''=='' [a', b']) v' \<and> V st (m - k) (instT s TBool) v v'"
    by auto
qed

lemma apx_Self:
  assumes st: "store_checked st" and E: "est E = st" and t: "eself E = Some t" "length ts = etv E" "list_all (wfT E) ts"
  shows "apx st n E c (Self ts) (Self ts) (substTy t ts)"
  unfolding apx_def
proof (intro allI impI)
  fix m s h h' env env' k v
  assume m: "m \<le> n" and fr: "frame st m E c s h h' env env'" and k: "k \<le> m" and b: "bs st k env h (Self ts) v"
  obtain b0 b1 ps ps' where d: "h \<noteq> ''''" "h' \<noteq> ''''" "map_of (sdefs st) h = Some (DFunc (etv E) t b0 ps)"
      "map_of (sdefs st) h' = Some (DFunc (etv E) t b1 ps')" "\<And>j. j < m \<Longrightarrow> body_rel st j (etv E) t h b0 h' b1"
    using fr t(1) by (auto simp: frame_def sref_def)
  obtain j where j: "k = Suc j" "bs st j [] h b0 v" using b d(3) by (auto elim!: bs_SelfE)
  have s: "list_all norec s" "length s = etv E" using fr by (auto simp: frame_def inst_def)
  have ns: "list_all norec (map (instT s) ts)"
    using t(3) wf_norec norec_subst [OF _ s(1)] by (auto simp: list_all_iff)
  have wf: "ty_wf st (length ts) False t"
    using store_data [OF checked_wf [OF st] d(3)] t(2) by simp
  obtain i v' where v: "bs st i [] h' b1 v'" "V st (m - 1 - j) (instT (map (instT s) ts) t) v v'"
  proof -
    have "m - 1 < m" "j \<le> m - 1" using j(1) k by simp_all
    with body_relD [OF d(5) _ ns _ j(2), of "m - 1"] t(2) that show ?thesis by auto
  qed
  have "bs st (Suc i) env' h' (Self ts) v'" by (rule bs_Self [OF d(2,4) v(1)])
  moreover have "V st (m - k) (instT s (substTy t ts)) v v'"
    using v(2) j subst_subst [OF wf, of s] by simp
  ultimately show "\<exists>k' v'. bs st k' env' h' (Self ts) v' \<and> V st (m - k) (instT s (substTy t ts)) v v'" by blast
qed

lemma apx_Ref:
  assumes st: "store_checked st" and E: "est E = st"
    and d: "map_of (sdefs st) g = Some (DFunc (length ts) t b ps)" "list_all (wfT E) ts"
    and rel: "\<And>j. j < n \<Longrightarrow> body_rel st j (length ts) t g b g b"
  shows "apx st n E c (Ref g ts) (Ref g ts) (substTy t ts)"
  unfolding apx_def
proof (intro allI impI)
  fix m s h h' env env' k v
  assume m: "m \<le> n" and fr: "frame st m E c s h h' env env'" and k: "k \<le> m" and b: "bs st k env h (Ref g ts) v"
  obtain j where j: "k = Suc j" "bs st j [] g b v" using b d(1) by (auto elim!: bs_RefE)
  have s: "list_all norec s" "length s = etv E" using fr by (auto simp: frame_def inst_def)
  have ns: "list_all norec (map (instT s) ts)"
    using d(2) wf_norec norec_subst [OF _ s(1)] by (auto simp: list_all_iff)
  have wf: "ty_wf st (length ts) False t"
    using store_data [OF checked_wf [OF st] d(1)] by simp
  obtain i v' where v: "bs st i [] g b v'" "V st (m - 1 - j) (instT (map (instT s) ts) t) v v'"
  proof -
    have "m - 1 < n" "j \<le> m - 1" using j(1) k m by simp_all
    with body_relD [OF rel _ ns _ j(2), of "m - 1"] that show ?thesis by auto
  qed
  have "bs st (Suc i) env' h' (Ref g ts) v'" by (rule bs_Ref [OF d(1) v(1)])
  moreover have "V st (m - k) (instT s (substTy t ts)) v v'"
    using v(2) j subst_subst [OF wf, of s] by simp
  ultimately show "\<exists>k' v'. bs st k' env' h' (Ref g ts) v' \<and> V st (m - k) (instT s (substTy t ts)) v v'" by blast
qed

lemma apx_Ctor:
  assumes st: "store_checked st" and E: "est E = st"
    and d: "map_of (sdefs st) g = Some (DData (length ts) cs)" "i < length cs" "list_all (wfT E) ts"
    and as: "apxs st n E c as as' (instCtorFields (DData (length ts) cs) g ts i)"
  shows "apx st n E c (Ctor g i ts as) (Ctor g i ts as') (TData g ts)"
  unfolding apx_def
proof (intro allI impI)
  fix m s h h' env env' k v
  assume m: "m \<le> n" and fr: "frame st m E c s h h' env env'" and k: "k \<le> m"
    and "bs st k env h (Ctor g i ts as) v"
  then obtain vs where r: "list_all2 (bs st k env h) as vs" "v = VData g i vs" by (auto elim: bs_CtorE)
  obtain k' vs' where vs: "list_all2 (bs st k' env' h') as' vs'"
    "erel st (F st (m - k)) (map (instT s) (instCtorFields (DData (length ts) cs) g ts i)) vs vs'"
    using apxsD [OF as fr m k r(1)] by blast
  have s: "list_all norec s" using fr by (auto simp: frame_def inst_def)
  have "list_all norec ts" using d(3) wf_norec by (auto simp: list_all_iff)
  then have "erel st (F st (m - k)) (instCtorFields (DData (length (map (instT s) ts)) cs) g (map (instT s) ts) i) vs vs'"
    using vs(2) instCtorFields_inst [OF checked_wf [OF st] d(1,2) s] by simp
  then have "V st (m - k) (TData g (map (instT s) ts)) v (VData g i vs')"
    unfolding r(2) erel_def using d(1,2) by (intro vrel_Data) auto
  with bs_Ctor [OF vs(1), of g i ts]
  show "\<exists>k' v'. bs st k' env' h' (Ctor g i ts as') v' \<and> V st (m - k) (instT s (TData g ts)) v v'"
    by (simp only: substTy.simps) blast
qed

lemma apx_Match:
  assumes st: "store_checked st" and E: "est E = st" "env_wf E" and a: "apx st n E c a a' (TData g ts)"
    and wf: "wfT E (TData g ts)" and d: "map_of (sdefs st) g = Some d"
    and len: "length arms = length (ctors_of d)" "length arms' = length arms"
    and arms: "\<And>i. i < length arms \<Longrightarrow> apx st n E (pushAll c (instCtorFields d g ts i)) (arms ! i) (arms' ! i) u"
  shows "apx st n E c (Match x a arms) (Match x a' arms') u"
  unfolding apx_def
proof (intro allI impI)
  fix m s h h' env env' k v
  assume m: "m \<le> n" and fr: "frame st m E c s h h' env env'" and k: "k \<le> m"
    and "bs st k env h (Match x a arms) v"
  then obtain p q g' i vs where r: "bs st p env h a (VData g' i vs)" "i < length arms"
    "bs st q (foldl pushEnv env vs) h (arms ! i) v" "p + q \<le> k"
    by (auto elim: bs_MatchE)
  have le: "p \<le> m" "m - p \<le> n" "q \<le> m - p" using r(4) k m by simp_all
  obtain k1 w where w: "bs st k1 env' h' a' w" "V st (m - p) (TData g (map (instT s) ts)) (VData g' i vs) w"
    using apxD [OF a fr r(1) m le(1)] by auto
  obtain cs where cs: "d = DData (length ts) cs" using wf d E by (auto split: def.splits)
  have s: "list_all norec s" using fr by (auto simp: frame_def inst_def)
  have norec: "list_all norec ts" using wf wf_norec by (auto simp: list_all_iff)
  have i: "i < length cs" using r(2) len cs by (simp add: ctors_of_def)
  obtain vs' where v': "w = VData g i vs'"
    "erel st (F st (m - p)) (instCtorFields (DData (length ts) cs) g (map (instT s) ts) i) vs vs'"
    using w(2) d cs by (auto elim!: vrel_DataE simp: erel_def)
  have "erel st (F st (m - p)) (map (instT s) (instCtorFields d g ts i)) vs vs'"
    using v'(2) instCtorFields_inst [OF checked_wf [OF st] _ i s norec, of g] d cs by simp
  moreover have "list_all (wfT E) (instCtorFields d g ts i)"
    using instCtorFields_wf [of st g ts cs i "etv E"] checked_wf [OF st] d cs E i wf by simp
  ultimately have "frame st (m - p) E (pushAll c (instCtorFields d g ts i)) s h h' (foldl pushEnv env vs) (foldl pushEnv env' vs')"
    by (intro frame_pushAll [OF frame_mono [OF fr]]) simp_all
  from apxD [OF arms [OF r(2)] this r(3) le(2,3)] obtain k2 v2 where
    v2: "bs st k2 (foldl pushEnv env' vs') h' (arms' ! i) v2" "V st (m - p - q) (instT s u) v v2" by auto
  have "V st (m - k) (instT s u) v v2" by (rule V_mono [OF v2(2)]) (use r(4) in simp)
  with bs_Match [OF w(1)[unfolded v'(1)] _ v2(1)] r(2) len(2)
  show "\<exists>k' v'. bs st k' env' h' (Match x a' arms') v' \<and> V st (m - k) (instT s u) v v'" by fastforce
qed

lemma apx_Record:
  assumes len: "length ns = length us" and as: "apxs st n E c as as' us"
  shows "apx st n E c (Record ns as) (Record ns as') (TRecord ns us)"
  unfolding apx_def
proof (intro allI impI)
  fix m s h h' env env' k v
  assume m: "m \<le> n" and fr: "frame st m E c s h h' env env'" and k: "k \<le> m"
    and "bs st k env h (Record ns as) v"
  then obtain vs where r: "list_all2 (bs st k env h) as vs" "v = VRecord ns vs" by (auto elim: bs_RecordE)
  obtain k' vs' where vs: "list_all2 (bs st k' env' h') as' vs'" "erel st (F st (m - k)) (map (instT s) us) vs vs'"
    using apxsD [OF as fr m k r(1)] by blast
  then have "V st (m - k) (TRecord ns (map (instT s) us)) v (VRecord ns vs')"
    unfolding r(2) erel_def using len by (intro vrel_Record) simp_all
  with bs_Record [OF vs(1)] show "\<exists>k' v'. bs st k' env' h' (Record ns as') v' \<and> V st (m - k) (instT s (TRecord ns us)) v v'"
    by auto
qed

lemma field_vrel:
  "erel st R (map (instT s) ts) vs ws \<Longrightarrow> length ns = length ts \<Longrightarrow> field_ty ns ts f = Some u \<Longrightarrow> field_val ns vs f = Inr v \<Longrightarrow>
   \<exists>w. field_val ns ws f = Inr w \<and> vrel st R (instT s u) v w"
proof (induction ns ts f arbitrary: vs ws rule: field_ty.induct)
  case (1 n ns t ts f)
  then obtain x vs' y ws' where "vs = x # vs'" "ws = y # ws'" by (cases vs; cases ws) (auto simp: erel_def)
  with 1 show ?case by (auto simp: erel_Cons split: if_splits)
qed simp_all

lemma apx_Field:
  assumes len: "length ns = length ts" and a: "apx st n E c a a' (TRecord ns ts)" and f: "field_ty ns ts f = Some u"
  shows "apx st n E c (Field a f) (Field a' f) u"
  unfolding apx_def
proof (intro allI impI)
  fix m s h h' env env' k v
  assume m: "m \<le> n" and fr: "frame st m E c s h h' env env'" and k: "k \<le> m" and "bs st k env h (Field a f) v"
  then obtain ms vs where r: "bs st k env h a (VRecord ms vs)" "field_val ms vs f = Inr v" by (auto elim: bs_FieldE)
  obtain k' w where w: "bs st k' env' h' a' w" "V st (m - k) (TRecord ns (map (instT s) ts)) (VRecord ms vs) w"
    using apxD [OF a fr r(1) m k] by auto
  then obtain ws where ws: "w = VRecord ns ws" "ms = ns" "erel st (F st (m - k)) (map (instT s) ts) vs ws"
    by (auto elim!: vrel_RecordE simp: erel_def)
  then obtain x where "field_val ns ws f = Inr x" "V st (m - k) (instT s u) v x"
    using field_vrel [OF ws(3) len f] r(2) by blast
  with bs_Field [OF w(1)[unfolded ws(1)]]
  show "\<exists>k' v'. bs st k' env' h' (Field a' f) v' \<and> V st (m - k) (instT s u) v v'" by blast
qed

subsection \<open>Every checked term is related to itself\<close>

definition bodies :: "store \<Rightarrow> nat \<Rightarrow> bool" where
  "bodies st n \<longleftrightarrow>
     (\<forall>g k t b ps j. map_of (sdefs st) g = Some (DFunc k t b ps) \<longrightarrow> j < n \<longrightarrow> body_rel st j k t g b g b)"

lemma typed_apxs:
  "list_all2 (\<lambda>a u. typed E c a u \<and> apx st n E c a (f a) u) as us \<Longrightarrow> apxs st n E c as (map f as) us"
  by (simp add: apxs_def list_all2_conv_all_nth)

lemma apx_refl_below:
  assumes st: "store_checked st" and E: "est E = st" "env_wf E" and b: "bodies st n"
  shows "typed E c t u \<Longrightarrow> ctx_wf E c \<Longrightarrow> apx st n E c t t u"
proof (induction rule: typed.induct)
  case (typed_Var i c)
  from typed_Var(1) show ?case by (rule apx_Var)
next
  case (typed_Lam t c b u)
  then show ?case by (intro apx_Lam [OF st]) (simp_all add: pushCtx_def)
next
  case (typed_App c f p q a)
  then show ?case by (intro apx_App) simp_all
next
  case (typed_Let t c a b u)
  then show ?case by (intro apx_Let) (simp_all add: pushCtx_def)
next
  case (typed_If c a b t d)
  then show ?case by (intro apx_If) simp_all
next
  case (typed_Prim op c as ts t)
  have "list_all2 (typed E c) as ts" using typed_Prim.IH by (rule list_all2_mono) simp
  moreover have "apxs st n E c as as ts"
    using typed_Prim.IH typed_Prim.prems by (simp add: apxs_def list_all2_conv_all_nth)
  ultimately show ?case using typed_Prim.hyps E(1) by (intro apx_Prim [OF st E(1)]) simp_all
next
  case (typed_Eq t c a b)
  then show ?case by (intro apx_Eq [where t = t]) simp_all
next
  case (typed_Ref h ts t b0 ps c)
  then show ?case using b E(1) by (intro apx_Ref [OF st E(1)]) (auto simp: bodies_def)
next
  case (typed_Self t ts c)
  then show ?case by (intro apx_Self [OF st E(1)]) simp_all
next
  case (typed_Ctor h ts cs i c as)
  have "apxs st n E c as as (instCtorFields (DData (length ts) cs) h ts i)"
    using typed_Ctor.IH typed_Ctor.prems by (simp add: apxs_def list_all2_conv_all_nth)
  then show ?case using typed_Ctor E(1) by (intro apx_Ctor [OF st E(1)]) simp_all
next
  case (typed_Match c a g ts h d arms t)
  have a: "typed E c a (TData g ts)" by (rule typed_Match.hyps)
  have wf: "wfT E (TData g ts)" by (rule typed_wf [OF a E(2) typed_Match.prems])
  obtain cs where cs: "d = DData (length ts) cs" using wf typed_Match E by (auto split: def.splits)
  show ?case
  proof (rule apx_Match [OF st E _ wf])
    fix i assume i: "i < length arms"
    then have "i < length cs" using typed_Match cs by (simp add: ctors_of_def)
    then have "list_all (wfT E) (instCtorFields d g ts i)"
      using instCtorFields_wf [of st g ts cs i "etv E"] checked_wf [OF st] typed_Match.hyps cs E wf by simp
    then have "ctx_wf E (pushAll c (instCtorFields d g ts i))"
      using typed_Match.prems by simp
    then show "apx st n E (pushAll c (instCtorFields d g ts i)) (arms ! i) (arms ! i) t"
      using list_all2_nthD2 [OF typed_Match.IH(2) i] i by simp
  qed (use typed_Match E in simp_all)
next
  case (typed_Record ns as c ts)
  have "apxs st n E c as as ts"
    using typed_Record.IH typed_Record.prems by (simp add: apxs_def list_all2_conv_all_nth)
  then show ?case using typed_Record list_all2_lengthD [OF typed_Record.IH] by (intro apx_Record) simp_all
next
  case (typed_Field c a ns ts f t)
  have "wfT E (TRecord ns ts)" by (rule typed_wf [OF typed_Field.hyps(1) E(2) typed_Field.prems])
  then show ?case using typed_Field by (intro apx_Field) simp_all
qed (rule apx_lit)+

lemma sref_refl:
  assumes "bodies st m" "\<And>t. eself E = Some t \<Longrightarrow> h \<noteq> '''' \<and> (\<exists>b ps. map_of (sdefs st) h = Some (DFunc (etv E) t b ps))"
  shows "sref st m E h h"
  unfolding sref_def
proof (intro allI impI)
  fix t assume "eself E = Some t"
  then obtain b ps where d: "h \<noteq> ''''" "map_of (sdefs st) h = Some (DFunc (etv E) t b ps)" using assms(2) by blast
  then have "\<forall>j < m. body_rel st j (etv E) t h b h b" using assms(1) by (auto simp: bodies_def)
  with d show "h \<noteq> '''' \<and> h \<noteq> '''' \<and>
    (\<exists>b b' ps ps'. map_of (sdefs st) h = Some (DFunc (etv E) t b ps) \<and>
       map_of (sdefs st) h = Some (DFunc (etv E) t b' ps') \<and> (\<forall>j < m. body_rel st j (etv E) t h b h b'))"
    by blast
qed

lemma frame_nil:
  assumes st: "store_checked st" and b: "bodies st m" and d: "map_of (sdefs st) g = Some (DFunc (length s) t b0 ps)"
    and s: "list_all norec s"
  shows "frame st m \<lparr>est = st, etv = length s, eself = Some t\<rparr> [] s g g [] []"
proof -
  have "g \<noteq> ''''" using st d by (auto simp: store_checked_def)
  then have "sref st m \<lparr>est = st, etv = length s, eself = Some t\<rparr> g g"
    using d by (intro sref_refl [OF b]) simp
  moreover have "ty_wf st (length s) False t" using store_data [OF checked_wf [OF st] d] by simp
  ultimately show ?thesis
    using s checked_wf [OF st] by (simp add: frame_def inst_def env_wf_def)
qed

lemma def_body_typed:
  assumes st: "store_checked st" and d: "map_of (sdefs st) g = Some (DFunc n t b ps)"
  shows "typed \<lparr>est = st, etv = n, eself = Some t\<rparr> [] b t" "env_wf \<lparr>est = st, etv = n, eself = Some t\<rparr>"
proof -
  have "checkDef st (DFunc n t b ps) = Inr (DFunc n t b ps)"
    using st d by (auto simp: store_checked_def simp del: checkDef.simps)
  then show "typed \<lparr>est = st, etv = n, eself = Some t\<rparr> [] b t"
    using checkDef_typed [OF checked_wf [OF st], of "DFunc n t b ps" "DFunc n t b ps"] by (simp add: Let_def del: checkDef.simps)
  show "env_wf \<lparr>est = st, etv = n, eself = Some t\<rparr>"
    using store_data [OF checked_wf [OF st] d] checked_wf [OF st] by (simp add: env_wf_def)
qed

lemma bodies_all:
  assumes st: "store_checked st"
  shows "bodies st n"
proof (induction n)
  case (Suc n)
  have "body_rel st n k t g b g b" if d: "map_of (sdefs st) g = Some (DFunc k t b ps)" for g k t b ps
    unfolding body_rel_def
  proof (intro allI impI)
    fix s i v
    assume s: "length s = k" "list_all norec s" and i: "i \<le> n" and v: "bs st i [] g b v"
    let ?E = "\<lparr>est = st, etv = length s, eself = Some t\<rparr>"
    have "frame st n ?E [] s g g [] []" using d s by (intro frame_nil [OF st Suc.IH]) simp_all
    moreover have "apx st n ?E [] b b t"
      using def_body_typed [OF st d] s by (intro apx_refl_below [OF st _ _ Suc.IH]) simp_all
    ultimately show "\<exists>k' v'. bs st k' [] g b v' \<and> V st (n - i) (instT s t) v v'"
      using apxD v i by blast
  qed
  then show ?case using Suc.IH by (auto simp: bodies_def less_Suc_eq)
qed (simp add: bodies_def)

lemma apx_refl:
  "store_checked st \<Longrightarrow> est E = st \<Longrightarrow> env_wf E \<Longrightarrow> ctx_wf E c \<Longrightarrow> typed E c t u \<Longrightarrow> apx st n E c t t u"
  by (rule apx_refl_below) (simp_all add: bodies_all)

lemma V_refl:
  assumes st: "store_checked st"
  shows "vty st v t \<Longrightarrow> plain v \<Longrightarrow> V st n t v v"
proof (induction arbitrary: n rule: vty.induct)
  case (vty_Record ns vs ts)
  then show ?case by (auto simp: list_all2_conv_all_nth list_all_length intro!: vrel_Record)
next
  case (vty_Data h ts cs i vs)
  then show ?case by (auto simp: list_all2_conv_all_nth list_all_length intro!: vrel_Data)
next
  case (vty_Clos E c p b q s slf env)
  have l: "typed E c (Lam p b) (TFun p q)" using vty_Clos(4,5) by (rule typed_Lam)
  have "erel st (F st n) (map (instT s) c) env env"
    using vty_Clos.IH vty_Clos.prems by (auto simp: erel_def list_all2_conv_all_nth list_all_length)
  moreover have "sref st n E slf slf"
    using vty_Clos.hyps by (intro sref_refl [OF bodies_all [OF st]]) blast
  ultimately have "frame st n E c s slf slf env env"
    using vty_Clos.hyps by (simp add: frame_def inst_def)
  from apxD [OF apx_refl [OF st _ _ _ l] this, of 0 "VClos env p b slf" n]
  show ?case using vty_Clos.hyps by auto
qed (auto intro: vrel.intros)

lemma ap_det: "ap st n g y v \<Longrightarrow> ap st n' g y v' \<Longrightarrow> v = v'"
  by (auto elim!: ap_ClosE dest: bs_det)

text \<open>Related up to some number of calls, and then for every number.\<close>

lemma V_trans:
  assumes st: "store_checked st"
  shows "V st n t u v \<Longrightarrow> (\<And>m. V st m t v w) \<Longrightarrow> V st n t u w"
proof (induction n arbitrary: t u v w rule: less_induct)
  case (less n)
  show ?case
    using less.prems
  proof (induction arbitrary: w rule: vrel.induct)
    case (vrel_Record ns ts vs ws)
    then obtain xs where x: "w = VRecord ns xs" "length xs = length ts"
      by (auto elim!: vrel_RecordE dest: meta_spec [of _ 0])
    have "V st m (ts ! i) (ws ! i) (xs ! i)" if "i < length ts" for m i
      using vrel_Record.prems [of m] that x by (auto elim!: vrel_RecordE)
    then show ?case using vrel_Record x by (auto intro!: vrel.vrel_Record)
  next
    case (vrel_Data h ts cs i fs vs ws)
    then obtain xs where x: "w = VData h i xs" "length xs = length fs"
      by (auto elim!: vrel_DataE dest: meta_spec [of _ 0])
    have "V st m (fs ! j) (ws ! j) (xs ! j)" if "j < length fs" for m j
      using vrel_Data.prems [of m] vrel_Data.hyps that x by (auto elim!: vrel_DataE)
    then show ?case using vrel_Data x by (auto intro!: vrel.vrel_Data)
  next
    case (vrel_Fun p q u v)
    have vw: "F st m p q v w" "fn st p q w" for m using vrel_Fun.prems [of m] by (auto elim!: vrel_FunE)
    have "F st n p q u w"
    proof (rule FI)
      fix j x y c r
      assume j: "j < n" and x: "V st j p x y" and c: "c \<le> j" and a: "ap st (Suc c) u x r"
      obtain d r' where r': "ap st d v y r'" "V st (j - c) q r r'"
        using FD [OF vrel_Fun.hyps(3) x j c a] by blast
      obtain e where e: "d = Suc e" using ap_cost [OF r'(1)] by blast
      have y: "V st m p y y" for m using vrel_typed [OF x] V_refl [OF st] by blast
      have "\<exists>d' r''. ap st d' w y r'' \<and> V st m q r' r''" for m
        using FD [OF vw(1) [of "Suc (m + e)"] y [of "m + e"], of e r'] r'(1) e by auto
      then obtain d' r'' where "ap st d' w y r''" "\<And>m. V st m q r' r''"
        using ap_det by metis
      then show "\<exists>d r'. ap st d w y r' \<and> V st (j - c) q r r'"
        using less.IH [OF _ r'(2)] j by (meson diff_le_self le_less_trans)
    qed
    with vrel_Fun vw show ?case by (intro vrel.vrel_Fun) auto
  qed auto
qed

end
