(* ===== verification/NormChain.thy ===== *)
theory NormChain
  imports Normalize LogRel DecodeTerm "HOL-Library.Multiset"
begin

text \<open>
  Chains of an associative and commutative primitive. The locale states what the rebuilding
  of a chain relies on: the values of the operand type are a commutative monoid under the
  primitive, of which the leaves that are dropped are the identity, idempotent where
  duplicates are dropped. Every operator and operand type for which \<^verbatim>\<open>isACPrim\<close> answers yes is
  an instance.
\<close>

subsection \<open>Totals\<close>

text \<open>The leaves have values, in the image of \<open>mk\<close>, which add up to \<open>z\<close>.\<close>

fun ac_leaves :: "string \<Rightarrow> trm \<Rightarrow> trm list" where
  "ac_leaves op (Prim o' [a, b]) = (if o' = op then ac_leaves op a @ ac_leaves op b else [Prim o' [a, b]])"
| "ac_leaves op t = [t]"

lemma ac_loop_leaves: "ac_loop op ts = concat (map (ac_leaves op) ts)"
  by (induction op ts rule: ac_loop.induct) auto

fun tot :: "('l \<Rightarrow> val \<Rightarrow> bool) \<Rightarrow> ('a \<Rightarrow> val) \<Rightarrow> ('a \<Rightarrow> 'a \<Rightarrow> 'a) \<Rightarrow> 'a \<Rightarrow> 'l list \<Rightarrow> 'a \<Rightarrow> bool" where
  "tot B mk f e [] z = (z = e)"
| "tot B mk f e (l # ls) z = (\<exists>a b. B l (mk a) \<and> tot B mk f e ls b \<and> z = f a b)"

lemma trm_bytes_inj:
  assumes "trm_canon t" "trm_canon u" "trm_nodes t \<le> maxCanonicalNodes" "trm_nodes u \<le> maxCanonicalNodes"
    "trm_bytes t = trm_bytes u"
  shows "t = u"
proof -
  have "trm_bytes t @ [] = trm_bytes u @ []" using assms(5) by simp
  from trmc.self_delimiting [OF assms(1,2) this assms(3,4)] show ?thesis by blast
qed

definition admitted :: "trm \<Rightarrow> bool" where
  "admitted t \<longleftrightarrow> trm_canon t \<and> trm_nodes t \<le> maxCanonicalNodes"

lemma key_eq: "trm_canon t \<Longrightarrow> key t = trm_bytes t"
  by (simp add: key_def termBytes_eq trm_canon_encodable)

lemma key_inj: "admitted t \<Longrightarrow> admitted u \<Longrightarrow> key t = key u \<longleftrightarrow> t = u"
  using trm_bytes_inj by (auto simp: admitted_def key_eq)

lemma cmp_trm_eq: "admitted t \<Longrightarrow> admitted u \<Longrightarrow> cmp_trm t u = 0 \<longleftrightarrow> t = u"
  using trm_bytes_inj [of t u] cmp_loop_eq [of t u 64]
  by (auto simp: admitted_def cmp_trm_def compareTermsCanonical_def trm_canon_encodable)

subsection \<open>Weights\<close>

definition weight :: "trm list \<Rightarrow> nat" where
  "weight ls = sum_list (map (\<lambda>l. Suc (trm_nodes l)) ls)"

lemma weight_simps [simp]: "weight [] = 0" "weight (l # ls) = Suc (trm_nodes l) + weight ls"
    "weight (xs @ ys) = weight xs + weight ys"
  by (simp_all add: weight_def)

lemma weight_leaves: "weight (ac_leaves op t) = Suc (trm_nodes t)"
  by (induction op t rule: ac_leaves.induct) auto

lemma weight_chain: "ls \<noteq> [] \<Longrightarrow> Suc (trm_nodes (rechain op ls)) = weight ls"
  by (induction op ls rule: rechain.induct) auto

lemma weight_filter: "weight (filter P ls) \<le> weight ls"
  by (induction ls) auto

lemma weight_uniq: "weight (uniq ls) \<le> weight ls"
  by (induction ls rule: uniq.induct) auto

lemma weight_sort: "weight (sort_key k ls) = weight ls"
proof -
  have "mset (map (\<lambda>l. Suc (trm_nodes l)) (sort_key k ls)) = mset (map (\<lambda>l. Suc (trm_nodes l)) ls)" by simp
  then show ?thesis unfolding weight_def sum_mset_sum_list [symmetric] by (rule arg_cong)
qed

lemma sort_key_Nil [simp]: "sort_key k ls = [] \<longleftrightarrow> ls = []"
  using length_sort [of k ls] by (metis length_0_conv)

lemma weight_mem: "l \<in> set ls \<Longrightarrow> Suc (trm_nodes l) \<le> weight ls"
  by (induction ls) auto

lemma weight_drop: "ls \<noteq> [] \<Longrightarrow> weight (acDropUnits op ls) \<le> weight ls"
  using weight_mem [of "ls ! 0" ls] weight_filter by (simp add: acDropUnits_def Let_def)

lemma set_uniq: "set (uniq ls) \<subseteq> set ls" "uniq ls = [] \<longleftrightarrow> ls = []"
  by (induction ls rule: uniq.induct) auto

lemma leaves_canon: "trm_canon t \<Longrightarrow> \<forall>l \<in> set (ac_leaves op t). trm_canon l"
  by (induction op t rule: ac_leaves.induct) auto

lemma leaves_nonempty: "ac_leaves op t \<noteq> []"
  by (induction op t rule: ac_leaves.induct) auto

lemma chain_canon:
  "length op \<le> 2 ^ 24 \<Longrightarrow> ls \<noteq> [] \<Longrightarrow> \<forall>l \<in> set ls. trm_canon l \<Longrightarrow> trm_canon (rechain op ls)"
  by (induction op ls rule: rechain.induct) auto

subsection \<open>Chains\<close>

locale ac_prim =
  fixes op :: string and K :: ty and mk :: "'a \<Rightarrow> val" and f :: "'a \<Rightarrow> 'a \<Rightarrow> 'a" and e :: 'a
  assumes assoc: "f (f x y) z = f x (f y z)" and comm: "f x y = f y x" and unit: "f e x = x"
    and mk_eq: "mk x = mk y \<longleftrightarrow> x = y" and prim: "prim op [mk x, mk y] = Inr (mk (f x y))"
    and ground: "vty st v (instT s K) \<Longrightarrow> \<exists>x. v = mk x"
    and operands: "typed E c (Prim op [a, b]) K \<longleftrightarrow> typed E c a K \<and> typed E c b K"
    and unit_leaf: "acUnitLeaf op l \<Longrightarrow> typed E c l K \<Longrightarrow> bs st k env h l v \<longleftrightarrow> v = mk e"
    and idem: "op \<in> idempotentPrims \<Longrightarrow> f x x = x"
    and name: "length op \<le> 2 ^ 24"
begin

lemma unit': "f x e = x"
  using comm unit by metis

lemma left_comm: "f x (f y z) = f y (f x z)"
  using assoc comm by metis

lemma tot_append:
  "tot B mk f e (xs @ ys) z \<longleftrightarrow> (\<exists>a b. tot B mk f e xs a \<and> tot B mk f e ys b \<and> z = f a b)"
proof (induction xs arbitrary: z)
  case (Cons l xs)
  have "tot B mk f e ((l # xs) @ ys) z \<longleftrightarrow>
      (\<exists>a p q. B l (mk a) \<and> tot B mk f e xs p \<and> tot B mk f e ys q \<and> z = f a (f p q))"
    by (simp add: Cons.IH) blast
  also have "\<dots> \<longleftrightarrow> (\<exists>a p q. B l (mk a) \<and> tot B mk f e xs p \<and> tot B mk f e ys q \<and> z = f (f a p) q)"
    by (simp only: assoc)
  finally show ?case by simp blast
qed (simp add: unit)

lemma tot_perm: "mset xs = mset ys \<Longrightarrow> tot B mk f e xs z \<longleftrightarrow> tot B mk f e ys z"
proof (induction xs arbitrary: ys z)
  case (Cons x xs)
  then have "x \<in> set ys" by (metis list.set_intros(1) mset_eq_setD)
  then obtain y1 y2 where y: "ys = y1 @ x # y2" by (auto simp: in_set_conv_decomp)
  then have "mset xs = mset (y1 @ y2)" using Cons.prems by simp
  then have "tot B mk f e xs z \<longleftrightarrow> tot B mk f e (y1 @ y2) z" for z by (rule Cons.IH)
  then have "tot B mk f e (x # xs) z \<longleftrightarrow>
      (\<exists>a p q. B x (mk a) \<and> tot B mk f e y1 p \<and> tot B mk f e y2 q \<and> z = f a (f p q))"
    by (simp add: tot_append) blast
  also have "\<dots> \<longleftrightarrow> (\<exists>a p q. B x (mk a) \<and> tot B mk f e y1 p \<and> tot B mk f e y2 q \<and> z = f p (f a q))"
    by (simp only: left_comm)
  also have "\<dots> \<longleftrightarrow> tot B mk f e ys z"
    unfolding y tot_append tot.simps by blast
  finally show ?case .
qed simp

lemma leaves_typed: "o' = op \<Longrightarrow> typed E c t K \<Longrightarrow> \<forall>l \<in> set (ac_leaves o' t). typed E c l K"
proof (induction o' t rule: ac_leaves.induct)
  case (1 o1 o2 a b)
  show ?case
  proof (cases "o2 = o1")
    case True
    then have "typed E c a K" "typed E c b K" using 1(3,4) operands [of E c a b] by simp_all
    then show ?thesis using 1(1,2) True 1(3) by auto
  qed (use 1(4) in simp)
qed simp_all

text \<open>An evaluation of primitives whose values at the operand type are in the image of \<open>mk\<close>.\<close>

definition evaluates :: "env \<Rightarrow> ctx \<Rightarrow> (trm \<Rightarrow> val \<Rightarrow> bool) \<Rightarrow> bool" where
  "evaluates E c B \<longleftrightarrow>
     (\<forall>a b v. B (Prim op [a, b]) v \<longleftrightarrow> (\<exists>x y. B a x \<and> B b y \<and> prim op [x, y] = Inr v)) \<and>
     (\<forall>t v. typed E c t K \<longrightarrow> B t v \<longrightarrow> (\<exists>x. v = mk x)) \<and>
     (\<forall>t v w. B t v \<longrightarrow> B t w \<longrightarrow> v = w) \<and>
     (\<forall>l v. acUnitLeaf op l \<longrightarrow> typed E c l K \<longrightarrow> B l v \<longleftrightarrow> v = mk e)"

lemma prim_tot:
  assumes B: "evaluates E c B" and t: "typed E c a K" "typed E c b K"
  shows "B (Prim op [a, b]) v \<longleftrightarrow> (\<exists>x y. B a (mk x) \<and> B b (mk y) \<and> v = mk (f x y))"
proof -
  have "B (Prim op [a, b]) v \<longleftrightarrow> (\<exists>x y. B a x \<and> B b y \<and> prim op [x, y] = Inr v)"
    using B by (simp add: evaluates_def)
  also have "\<dots> \<longleftrightarrow> (\<exists>x y. B a (mk x) \<and> B b (mk y) \<and> prim op [mk x, mk y] = Inr v)"
  proof -
    have "\<exists>x. v = mk x" if "B a v" for v using B t(1) that unfolding evaluates_def by blast
    moreover have "\<exists>x. v = mk x" if "B b v" for v using B t(2) that unfolding evaluates_def by blast
    ultimately show ?thesis by metis
  qed
  finally show ?thesis by (auto simp: prim)
qed

lemma tot_leaves:
  assumes B: "evaluates E c B"
  shows "o' = op \<Longrightarrow> typed E c t K \<Longrightarrow> tot B mk f e (ac_leaves o' t) z \<longleftrightarrow> B t (mk z)"
proof (induction o' t arbitrary: z rule: ac_leaves.induct)
  case (1 o1 o2 a b)
  show ?case
  proof (cases "o2 = o1")
    case True
    then have "typed E c a K" "typed E c b K" using 1 by (simp_all add: operands)
    then show ?thesis using 1 True prim_tot [OF B] by (auto simp: tot_append mk_eq)
  qed (use 1 in \<open>simp add: unit'\<close>)
qed (simp_all add: unit')

lemma tot_flatten:
  assumes B: "evaluates E c B"
  shows "\<forall>t \<in> set ts. typed E c t K \<Longrightarrow> tot B mk f e (acFlatten op ts) z \<longleftrightarrow> tot B mk f e ts z"
  unfolding acFlatten_def ac_loop_leaves
proof (induction ts arbitrary: z)
  case (Cons t ts)
  then show ?case using tot_leaves [OF B refl, of t] by (simp add: tot_append)
qed simp

lemma tot_units:
  assumes B: "evaluates E c B" and ls: "\<forall>l \<in> set ls. typed E c l K"
  shows "tot B mk f e (filter (\<lambda>t. \<not> acUnitLeaf op t) ls) z \<longleftrightarrow> tot B mk f e ls z"
  using ls
proof (induction ls arbitrary: z)
  case (Cons l ls)
  have "B l v \<longleftrightarrow> v = mk e" if "acUnitLeaf op l" for v
    using B that Cons.prems by (simp add: evaluates_def)
  then show ?case using Cons by (auto simp: mk_eq unit)
qed simp

lemma drop_units:
  assumes ls: "ls \<noteq> []"
  shows "acDropUnits op ls \<noteq> [] \<and> set (acDropUnits op ls) \<subseteq> set ls"
  using ls by (auto simp: acDropUnits_def Let_def)

lemma tot_drop:
  assumes B: "evaluates E c B" and ls: "\<forall>l \<in> set ls. typed E c l K" "ls \<noteq> []"
  shows "tot B mk f e (acDropUnits op ls) z \<longleftrightarrow> tot B mk f e ls z"
proof (cases "filter (\<lambda>t. \<not> acUnitLeaf op t) ls = []")
  case True
  then have "acUnitLeaf op (ls ! 0)" "typed E c (ls ! 0) K" using ls by (auto simp: filter_empty_conv)
  then have "B (ls ! 0) v \<longleftrightarrow> v = mk e" for v using B by (simp add: evaluates_def)
  then have "tot B mk f e [ls ! 0] z \<longleftrightarrow> z = e" by (simp add: mk_eq unit')
  then show ?thesis using tot_units [OF B ls(1), of z] True by (simp add: acDropUnits_def)
next
  case False
  then show ?thesis using tot_units [OF B ls(1)] by (simp add: acDropUnits_def)
qed

lemma tot_uniq:
  assumes B: "evaluates E c B" and i: "op \<in> idempotentPrims"
  shows "\<forall>l \<in> set ls. admitted l \<Longrightarrow> tot B mk f e (uniq ls) z \<longleftrightarrow> tot B mk f e ls z"
proof (induction ls arbitrary: z rule: uniq.induct)
  case (1 x y ys)
  have det: "B t v \<Longrightarrow> B t w \<Longrightarrow> v = w" for t v w using B unfolding evaluates_def by blast
  show ?case
  proof (cases "key y = key x")
    case True
    then have y: "y = x" using 1 key_inj by auto
    have a: "a = b" if "B x (mk a)" "B x (mk b)" for a b using det [OF that] by (simp add: mk_eq)
    have "f a (f a b) = f a b" for a b using idem [OF i, of a] by (simp flip: assoc)
    then have "tot B mk f e (x # x # ys) z \<longleftrightarrow> tot B mk f e (x # ys) z"
      using a by simp (metis (full_types))
    then show ?thesis using 1 True by (simp add: y)
  qed (use 1 in simp)
qed simp_all

lemma chain_typed: "ls \<noteq> [] \<Longrightarrow> \<forall>l \<in> set ls. typed E c l K \<Longrightarrow> typed E c (rechain op ls) K"
proof (induction ls)
  case (Cons x ls)
  then show ?case by (cases ls) (simp_all add: operands)
qed simp

lemma chain_tot:
  assumes B: "evaluates E c B"
  shows "ls \<noteq> [] \<Longrightarrow> \<forall>l \<in> set ls. typed E c l K \<Longrightarrow> B (rechain op ls) v \<longleftrightarrow> (\<exists>z. v = mk z \<and> tot B mk f e ls z)"
proof (induction ls arbitrary: v)
  case (Cons x ls)
  have x: "typed E c x K" using Cons.prems by simp
  show ?case
  proof (cases ls)
    case Nil
    have "B x v \<longleftrightarrow> (\<exists>z. v = mk z \<and> B x (mk z))" using B x unfolding evaluates_def by blast
    then show ?thesis using Nil Cons.prems by (simp add: unit')
  next
    case (Cons y ys)
    then have l: "typed E c (rechain op ls) K" "\<And>v. B (rechain op ls) v \<longleftrightarrow> (\<exists>z. v = mk z \<and> tot B mk f e ls z)"
      using Cons.IH Cons.prems chain_typed [of ls] by simp_all
    have "B (rechain op (x # ls)) v \<longleftrightarrow> (\<exists>a b. B x (mk a) \<and> tot B mk f e ls b \<and> v = mk (f a b))"
      using prim_tot [OF B x l(1), of v] l(2) by (simp add: Cons mk_eq)
    then show ?thesis by auto
  qed
qed simp

text \<open>Rebuilding keeps the type, the bounds of the profile and the value.\<close>

lemma leaves_of_prim: "acFlatten op [a, b] = ac_leaves op a @ ac_leaves op b"
  by (simp add: acFlatten_def ac_loop_leaves)

lemma rebuild_leaves:
  assumes t: "typed E c a K" "typed E c b K" and adm: "admitted (Prim op [a, b])"
  shows "acFlatten op [a, b] \<noteq> [] \<and>
    (\<forall>l \<in> set (acFlatten op [a, b]). typed E c l K \<and> admitted l) \<and>
    weight (acFlatten op [a, b]) = Suc (trm_nodes (Prim op [a, b]))"
proof -
  let ?ls = "acFlatten op [a, b]"
  have w: "weight ?ls = Suc (trm_nodes (Prim op [a, b]))" by (simp add: leaves_of_prim weight_leaves)
  have "trm_canon a" "trm_canon b" using adm by (simp_all add: admitted_def)
  then have "\<forall>l \<in> set ?ls. trm_canon l"
    using leaves_canon [of a op] leaves_canon [of b op] by (auto simp: leaves_of_prim)
  then have "\<forall>l \<in> set ?ls. admitted l"
    using weight_mem [of _ ?ls] w adm by (force simp: admitted_def)
  moreover have "\<forall>l \<in> set ?ls. typed E c l K"
    using t leaves_typed [OF refl] by (simp add: leaves_of_prim ball_Un)
  ultimately show ?thesis using w leaves_nonempty by (simp add: leaves_of_prim)
qed

lemma rebuild_shape:
  assumes t: "typed E c a K" "typed E c b K" and adm: "admitted (Prim op [a, b])"
  defines "R \<equiv> acRebuild op (acFlatten op [a, b])"
  shows "typed E c R K \<and> admitted R \<and> trm_nodes R \<le> trm_nodes (Prim op [a, b])"
proof -
  let ?ls = "acFlatten op [a, b]"
  let ?ks = "sort_key key (acDropUnits op ?ls)"
  let ?us = "if op \<in> idempotentPrims then uniq ?ks else ?ks"
  note ls = rebuild_leaves [OF t adm]
  have R: "R = rechain op ?us" by (simp add: R_def acRebuild_def)
  have us: "set ?us \<subseteq> set ?ls" "?us \<noteq> []"
    using drop_units [of ?ls] ls set_uniq [of ?ks] by auto
  have "weight ?us \<le> weight ?ls"
    using weight_drop [of ?ls op] ls weight_uniq [of ?ks] weight_sort [of key "acDropUnits op ?ls"] by auto
  then have n: "trm_nodes R \<le> trm_nodes (Prim op [a, b])"
    using weight_chain [OF us(2), of op] ls unfolding R by linarith
  moreover have "typed E c R K" unfolding R using us ls by (intro chain_typed) auto
  moreover have "trm_canon R" unfolding R using us ls by (intro chain_canon name) (auto simp: admitted_def)
  ultimately show ?thesis using adm by (simp add: admitted_def)
qed

lemma rebuild_value:
  assumes t: "typed E c a K" "typed E c b K" and adm: "admitted (Prim op [a, b])" and B: "evaluates E c B"
  shows "B (acRebuild op (acFlatten op [a, b])) v \<longleftrightarrow> B (Prim op [a, b]) v"
proof -
  let ?ls = "acFlatten op [a, b]"
  let ?ds = "acDropUnits op ?ls"
  let ?ks = "sort_key key ?ds"
  let ?us = "if op \<in> idempotentPrims then uniq ?ks else ?ks"
  note ls = rebuild_leaves [OF t adm]
  have us: "set ?us \<subseteq> set ?ls" "?us \<noteq> []"
    using drop_units [of ?ls] ls set_uniq [of ?ks] by auto
  have ks: "\<forall>l \<in> set ?ks. admitted l" using drop_units [of ?ls] ls by auto
  have tots: "tot B mk f e ?us z \<longleftrightarrow> tot B mk f e [a, b] z" for z
  proof -
    have "tot B mk f e ?us z \<longleftrightarrow> tot B mk f e ?ks z" using tot_uniq [OF B _ ks] by simp
    also have "\<dots> \<longleftrightarrow> tot B mk f e ?ds z" by (rule tot_perm) simp
    also have "\<dots> \<longleftrightarrow> tot B mk f e ?ls z" using ls by (intro tot_drop [OF B]) simp_all
    also have "\<dots> \<longleftrightarrow> tot B mk f e [a, b] z" using t by (intro tot_flatten [OF B]) simp
    finally show ?thesis .
  qed
  have "B (rechain op ?us) v \<longleftrightarrow> (\<exists>z. v = mk z \<and> tot B mk f e [a, b] z)"
    using chain_tot [OF B us(2), of v] us(1) ls unfolding tots by blast
  also have "\<dots> \<longleftrightarrow> B (Prim op [a, b]) v"
    unfolding prim_tot [OF B t] by (auto simp: unit')
  finally show ?thesis by (simp add: acRebuild_def Let_def)
qed

lemma bs_evaluates:
  assumes "store_checked st" "scope st E c s h env"
  shows "evaluates E c (bs st k env h)"
  unfolding evaluates_def
proof (intro conjI allI impI)
  show "bs st k env h (Prim op [a, b]) v \<longleftrightarrow>
      (\<exists>x y. bs st k env h a x \<and> bs st k env h b y \<and> prim op [x, y] = Inr v)" for a b v
  proof
    assume "bs st k env h (Prim op [a, b]) v"
    then show "\<exists>x y. bs st k env h a x \<and> bs st k env h b y \<and> prim op [x, y] = Inr v"
      by (elim bs_PrimE) (force simp: list_all2_Cons1)
  next
    assume "\<exists>x y. bs st k env h a x \<and> bs st k env h b y \<and> prim op [x, y] = Inr v"
    then obtain x y where "bs st k env h a x" "bs st k env h b y" "prim op [x, y] = Inr v" by blast
    then show "bs st k env h (Prim op [a, b]) v" by (intro bs_Prim [where vs = "[x, y]"]) simp_all
  qed
  show "\<exists>x. v = mk x" if "typed E c t K" "bs st k env h t v" for t v
    using ground bs_typed [OF assms that] by blast
  show "v = w" if "bs st k env h t v" "bs st k env h t w" for t v w
    using bs_det that by blast
  show "bs st k env h l v \<longleftrightarrow> v = mk e" if "acUnitLeaf op l" "typed E c l K" for l v
    by (rule unit_leaf [OF that])
qed

end

subsection \<open>The instances\<close>

lemma typed_arith:
  assumes "op = ''+'' \<or> op = ''*''" "numeric K"
  shows "typed E c (Prim op [a, b]) K \<longleftrightarrow> typed E c a K \<and> typed E c b K"
proof
  assume "typed E c (Prim op [a, b]) K"
  then obtain ts where ts: "list_all2 (typed E c) [a, b] ts" "primResultTy (est E) op ts = Inr K"
    using assms(1) by (auto elim!: typed_PrimE)
  have "ts = [K, K]"
    using primResultTy_shape [OF ts(2)] assms(1) by cases auto
  then show "typed E c a K \<and> typed E c b K" using ts(1) by simp
next
  assume t: "typed E c a K \<and> typed E c b K"
  have "primResultTy (est E) op [K, K] = Inr K"
  proof -
    have "K = TInt \<or> K = TRat \<or> K = TFloat" using assms(2) by (simp add: numeric_def)
    then show ?thesis using assms(1) by (elim disjE) (simp_all add: primResultTy_def numericTy_def all_are_def)
  qed
  then show "typed E c (Prim op [a, b]) K"
    using t assms(1) by (intro typed_Prim [where ts = "[K, K]"]) auto
qed

lemma typed_logic:
  assumes "op = ''and'' \<or> op = ''or''"
  shows "typed E c (Prim op [a, b]) TBool \<longleftrightarrow> typed E c a TBool \<and> typed E c b TBool"
proof
  assume "typed E c (Prim op [a, b]) TBool"
  then obtain ts where ts: "list_all2 (typed E c) [a, b] ts" "primResultTy (est E) op ts = Inr TBool"
    using assms(1) by (auto elim!: typed_PrimE)
  have "ts = [TBool, TBool]"
    using primResultTy_shape [OF ts(2)] assms(1) by cases auto
  then show "typed E c a TBool \<and> typed E c b TBool" using ts(1) by simp
next
  assume t: "typed E c a TBool \<and> typed E c b TBool"
  have "primResultTy (est E) op [TBool, TBool] = Inr TBool"
    using assms by (auto simp: primResultTy_def all_are_def)
  then show "typed E c (Prim op [a, b]) TBool"
    using t assms(1) by (intro typed_Prim [where ts = "[TBool, TBool]"]) auto
qed

lemma unit_leaf_shape:
  "acUnitLeaf op l \<Longrightarrow>
   op = ''+'' \<and> (l = IntL 0 \<or> l = RatL 0) \<or>
   op = ''*'' \<and> (l = IntL 1 \<or> l = RatL 1 \<or> l = FloatL float_one) \<or>
   op = ''and'' \<and> l = BoolL True \<or> op = ''or'' \<and> l = BoolL False"
  by (cases l) (auto simp: acUnitLeaf_def split: if_splits)

lemmas prim_simps = prim_def numPrim_def intPrim_def ratPrim_def int2_def rat2_def arg_int_def arg_rat_def
  arg_bool_def arg_def bool_of_def

interpretation int_plus: ac_prim "''+''" TInt VInt "(+)" 0
  by unfold_locales
    (auto simp: typed_arith numeric_def prim_simps idempotentPrims_def elim: vty_IntE typed_litE
      dest!: unit_leaf_shape)

interpretation int_times: ac_prim "''*''" TInt VInt "(*)" 1
  by unfold_locales
    (auto simp: typed_arith numeric_def prim_simps idempotentPrims_def elim: vty_IntE typed_litE
      dest!: unit_leaf_shape)

interpretation rat_plus: ac_prim "''+''" TRat VRat "(+)" 0
  by unfold_locales
    (auto simp: typed_arith numeric_def prim_simps idempotentPrims_def elim: vty_RatE typed_litE
      dest!: unit_leaf_shape)

interpretation rat_times: ac_prim "''*''" TRat VRat "(*)" 1
  by unfold_locales
    (auto simp: typed_arith numeric_def prim_simps idempotentPrims_def elim: vty_RatE typed_litE
      dest!: unit_leaf_shape)

interpretation conj: ac_prim "''and''" TBool VBool "(\<and>)" True
  by unfold_locales
    (auto simp: typed_logic prim_simps elim: vty_BoolE typed_litE dest!: unit_leaf_shape)

interpretation disj: ac_prim "''or''" TBool VBool "(\<or>)" False
  by unfold_locales
    (auto simp: typed_logic prim_simps elim: vty_BoolE typed_litE dest!: unit_leaf_shape)

end
