(* ===== verification/FloatProps.thy ===== *)
theory FloatProps
  imports Float64
begin

text \<open>
  The identities of binary64 arithmetic that normalisation uses: addition and multiplication
  commute, one is the unit of multiplication, and a sign flipped twice is the same pattern.
  They hold of every pattern, zeros, infinities and the canonical NaN included.
\<close>

subsection \<open>The two ways to say NaN\<close>

lemma mask_11: "x = mask 11 \<longleftrightarrow> unat x = 2047" for x :: "64 word"
  by (simp add: word_unat_eq_iff mask_eq_exp_minus_1)

lemma exp_field: "w AND 0x7FF0000000000000 = 0x7FF0000000000000 \<longleftrightarrow> f_exp w = 2047" for w :: "64 word"
proof -
  have c: "(0x7FF0000000000000 :: 64 word) = push_bit 52 (mask 11)" by (simp add: mask_eq_exp_minus_1 push_bit_eq_mult)
  have "w AND push_bit 52 (mask 11) = push_bit 52 (take_bit 11 (drop_bit 52 w))"
    by (rule bit_eqI) (auto simp: bit_simps)
  then have "w AND 0x7FF0000000000000 = 0x7FF0000000000000 \<longleftrightarrow>
      push_bit 52 (take_bit 11 (drop_bit 52 w)) = push_bit 52 (mask 11)"
    by (simp only: c)
  also have "\<dots> \<longleftrightarrow> take_bit 11 (drop_bit 52 w) = mask 11"
  proof
    let ?x = "take_bit 11 (drop_bit 52 w)" and ?m = "mask 11 :: 64 word"
    assume e: "push_bit 52 ?x = push_bit 52 ?m"
    show "?x = ?m"
    proof (rule bit_word_eqI)
      fix n assume "n < LENGTH(64)"
      have "bit (push_bit 52 ?x) (52 + n) = bit (push_bit 52 ?m) (52 + n)" by (simp only: e)
      then show "bit ?x n = bit ?m n"
        by (cases "n < 11") (simp_all only: bit_push_bit_iff bit_take_bit_iff bit_mask_iff, simp_all)
    qed
  qed simp
  also have "\<dots> \<longleftrightarrow> unat (take_bit 11 (drop_bit 52 w)) = 2047"
    by (rule mask_11)
  also have "\<dots> \<longleftrightarrow> f_exp w = 2047"
  proof -
    have "unat (take_bit 11 (drop_bit 52 w)) = unat w div 2 ^ 52 mod 2 ^ 11"
      using unsigned_less [of w, where ?'a = nat]
      by (simp only: unsigned_take_bit_eq unsigned_drop_bit_eq) (simp add: take_bit_eq_mod drop_bit_eq_div)
    moreover have "f_exp w = unat w div 2 ^ 52 mod 2 ^ 11"
      by (simp add: f_exp_def f_abs_def mod_mult2_eq [of "unat w" "2 ^ 52" "2 ^ 11", simplified])
    ultimately show ?thesis by simp
  qed
  finally show ?thesis .
qed

lemma frac_field: "w AND 0x000FFFFFFFFFFFFF = 0 \<longleftrightarrow> f_frac w = 0" for w :: "64 word"
proof -
  have c: "(0x000FFFFFFFFFFFFF :: 64 word) = mask 52" by (simp add: mask_eq_exp_minus_1)
  have "w AND 0x000FFFFFFFFFFFFF = 0 \<longleftrightarrow> unat (take_bit 52 w) = 0"
    by (simp only: c take_bit_eq_mask [symmetric] unsigned_eq_0_iff)
  also have "unat (take_bit 52 w) = unat w mod 2 ^ 52"
    by (simp only: unsigned_take_bit_eq) (simp only: take_bit_eq_mod)
  also have "\<dots> = f_frac w"
    by (simp add: f_frac_def f_abs_def mod_mod_cancel)
  finally show ?thesis .
qed

lemma is_nan_f_nan: "is_nan w \<longleftrightarrow> f_nan w"
proof -
  have "f_exp w < 2048" using f_abs_less [of w] by (simp add: f_exp_def less_mult_imp_div_less)
  then show ?thesis
    using f_abs_fields [of w] unfolding is_nan_def exp_field frac_field f_nan_def inf_abs_def by auto
qed

subsection \<open>Identities\<close>

lemma unat_make: "m < 2 ^ 63 \<Longrightarrow> unat (f_make s m) = m + (if s then 2 ^ 63 else 0)"
  unfolding f_make_def unat_of_nat by (rule mod_less) (auto split: if_splits)

lemma f_abs_make: "f_abs (f_make s (f_abs w)) = f_abs w"
  using f_abs_less [of w] by (simp add: f_abs_def [of "f_make s (f_abs w)"] unat_make)

lemma f_neg_make: "f_neg (f_make s (f_abs w)) = s"
  using f_abs_less [of w] by (simp add: f_neg_def unat_make)

lemma canon_nan: "canonFloat w = w \<Longrightarrow> f_nan w \<Longrightarrow> w = canonNaN"
  by (simp add: canonFloat_def is_nan_f_nan)

lemma canon_not_nan: "\<not> f_nan w \<Longrightarrow> canonFloat w = w"
  by (simp add: canonFloat_def is_nan_f_nan)

lemma f_nan_make: "f_nan (f_make s (f_abs w)) = f_nan w"
  by (simp add: f_nan_def f_abs_make)

lemma f_uminus_twice:
  assumes "canonFloat w = w"
  shows "canonFloat (f_uminus (canonFloat (f_uminus w))) = w"
proof (cases "f_nan w")
  case True
  then show ?thesis
    using canon_nan [OF assms] by (simp add: f_uminus_def canonFloat_def is_nan_f_nan [symmetric])
next
  case False
  then have "canonFloat (f_uminus w) = f_make (\<not> f_neg w) (f_abs w)"
    by (simp add: f_uminus_def canon_not_nan f_nan_make)
  then show ?thesis
    using False assms by (simp add: f_uminus_def f_nan_make f_abs_make f_neg_make f_make_fields)
qed

lemma f_add_commute: "f_add a b = f_add b a"
proof -
  have "a = b" if "f_inf a" "f_inf b" "f_neg a = f_neg b"
    using that f_make_fields [of a] f_make_fields [of b] by (simp add: f_inf_def)
  then show ?thesis
    unfolding f_add_def Let_def add.commute [of "f_rat b"] conj_commute [of "f_neg b"] by auto
qed

lemma f_mul_commute: "f_mul a b = f_mul b a"
proof -
  have "(f_neg b \<noteq> f_neg a) = (f_neg a \<noteq> f_neg b)" by auto
  then show ?thesis
    unfolding f_mul_def Let_def mult.commute [of "f_mag b"] by (simp add: disj_commute)
qed

lemma f_mul_one:
  assumes "canonFloat w = w"
  shows "canonFloat (f_mul 0x3FF0000000000000 w) = w"
proof -
  let ?one = "0x3FF0000000000000 :: 64 word"
  have one: "f_abs ?one = 0x3FF0000000000000" "\<not> f_neg ?one" by (simp_all add: f_abs_def f_neg_def)
  then have cls: "\<not> f_nan ?one" "\<not> f_inf ?one" by (simp_all add: f_nan_def f_inf_def inf_abs_def)
  have "f_exp ?one = 1023" "f_frac ?one = 0" by (simp_all add: f_exp_def f_frac_def one)
  then have mag: "f_mag ?one = 1" by (simp add: f_mag_def scale_def One_rat_def eq_rat)
  show ?thesis
  proof (cases "f_nan w")
    case True
    then show ?thesis using canon_nan [OF assms] by (simp add: f_mul_def canonFloat_def is_nan_f_nan [symmetric])
  next
    case False
    have "f_mul ?one w = w"
    proof (cases "f_inf w")
      case True
      then have "f_abs w = inf_abs" "f_abs w \<noteq> 0" by (simp_all add: f_inf_def inf_abs_def)
      then show ?thesis
        using False True cls one f_make_fields [of w] by (simp add: f_mul_def Let_def)
    next
      case inf: False
      then have "f_finite w" using False by (simp add: f_finite_def f_inf_def f_nan_def)
      then show ?thesis
        using False inf cls one mag f_round_mag [of w] by (simp add: f_mul_def Let_def)
    qed
    then show ?thesis using assms by simp
  qed
qed

end
