(* ===== verification/NormSound.thy ===== *)
theory NormSound
  imports NormChain FloatProps Totality
begin

text \<open>
  Normalisation is sound: it keeps the type of a term, its bounds, and the function it
  computes, in every environment of plain values of the context's types.
\<close>

subsection \<open>Equivalence of terms\<close>

lemma frame_refl:
  assumes st: "store_checked st" and s: "scope st E c s h env" and p: "list_all plain env"
  shows "frame st m E c s h h env env"
proof -
  have v: "length env = length c" "\<And>i. i < length c \<Longrightarrow> vty st (env ! i) (instT s (c ! i))"
    using s by (auto simp: scope_def list_all2_conv_all_nth)
  have "erel st (F st m) (map (instT s) c) env env"
    using v p by (auto simp: erel_def list_all_length intro: V_refl [OF st])
  moreover have "sref st m E h h"
    using s by (intro sref_refl [OF bodies_all [OF st]]) (auto simp: scope_def)
  ultimately show ?thesis using s by (auto simp: frame_def scope_def inst_def)
qed

lemma apx_trans:
  assumes st: "store_checked st" and ab: "apx st n E c a b u" and bd: "\<And>m. apx st m E c b d u"
  shows "apx st n E c a d u"
  unfolding apx_def
proof (intro allI impI)
  fix m s h h' env env' k v
  assume m: "m \<le> n" and fr: "frame st m E c s h h' env env'" and k: "k \<le> m" and v: "bs st k env h a v"
  obtain i w where w: "bs st i env' h' b w" "V st (m - k) (instT s u) v w"
    using apxD [OF ab fr v m k] by blast
  have sc: "scope st E c s h' env'" "list_all plain env'" using frame_scope [OF fr] by auto
  have "\<exists>j x. bs st j env' h' d x \<and> V st l (instT s u) w x" for l
    using apxD [OF bd [of "l + i"] frame_refl [OF st sc, of "l + i"] w(1)] by fastforce
  then obtain j x where x: "bs st j env' h' d x" "\<And>l. V st l (instT s u) w x"
    using bs_det by metis
  then show "\<exists>k' v'. bs st k' env' h' d v' \<and> V st (m - k) (instT s u) v v'"
    using V_trans [OF st w(2)] by blast
qed

definition equ :: "env \<Rightarrow> ctx \<Rightarrow> trm \<Rightarrow> trm \<Rightarrow> ty \<Rightarrow> bool" where
  "equ E c t t' u \<longleftrightarrow>
     typed E c t u \<and> typed E c t' u \<and> (\<forall>n. apx (est E) n E c t t' u \<and> apx (est E) n E c t' t u)"

lemma equD: "equ E c t t' u \<Longrightarrow> typed E c t u" "equ E c t t' u \<Longrightarrow> typed E c t' u"
    "equ E c t t' u \<Longrightarrow> apx (est E) n E c t t' u" "equ E c t t' u \<Longrightarrow> apx (est E) n E c t' t u"
  by (simp_all add: equ_def)

lemma equI:
  "typed E c t u \<Longrightarrow> typed E c t' u \<Longrightarrow> (\<And>n. apx (est E) n E c t t' u) \<Longrightarrow>
   (\<And>n. apx (est E) n E c t' t u) \<Longrightarrow> equ E c t t' u"
  by (simp add: equ_def)

lemma equ_trans:
  assumes "store_checked (est E)" and ab: "equ E c a b u" and bd: "equ E c b d u"
  shows "equ E c a d u"
proof (rule equI)
  show "apx (est E) n E c a d u" for n by (rule apx_trans [OF assms(1) equD(3) [OF ab] equD(3) [OF bd]])
  show "apx (est E) n E c d a u" for n by (rule apx_trans [OF assms(1) equD(4) [OF bd] equD(4) [OF ab]])
qed (rule equD(1) [OF ab] equD(2) [OF bd])+

definition same :: "env \<Rightarrow> ctx \<Rightarrow> trm \<Rightarrow> trm \<Rightarrow> bool" where
  "same E c t t' \<longleftrightarrow>
     (\<forall>s h env k v. scope (est E) E c s h env \<longrightarrow> list_all plain env \<longrightarrow>
        bs (est E) k env h t v = bs (est E) k env h t' v)"

lemma apx_same:
  assumes t: "same E c t t'" and a: "apx (est E) n E c a t u"
  shows "apx (est E) n E c a t' u"
  unfolding apx_def
proof (intro allI impI)
  fix m s h h' env env' k v
  assume m: "m \<le> n" and fr: "frame (est E) m E c s h h' env env'" and k: "k \<le> m" and v: "bs (est E) k env h a v"
  obtain i w where w: "bs (est E) i env' h' t w" "V (est E) (m - k) (instT s u) v w"
    using apxD [OF a fr v m k] by blast
  then have "bs (est E) i env' h' t' w"
    using t frame_scope [OF fr] unfolding same_def by blast
  then show "\<exists>k' v'. bs (est E) k' env' h' t' v' \<and> V (est E) (m - k) (instT s u) v v'" using w(2) by blast
qed

lemma same_sym: "same E c t t' \<Longrightarrow> same E c t' t"
  by (simp add: same_def)

definition sound_env :: "env \<Rightarrow> bool" where
  "sound_env E \<longleftrightarrow> store_checked (est E) \<and> env_wf E"

lemma equ_refl: "sound_env E \<Longrightarrow> ctx_wf E c \<Longrightarrow> typed E c t u \<Longrightarrow> equ E c t t u"
  by (simp add: equ_def sound_env_def apx_refl)

lemma equ_same:
  assumes E: "sound_env E" "ctx_wf E c" and s: "same E c t t'" and t: "typed E c t u" "typed E c t' u"
  shows "equ E c t t' u"
proof (rule equI)
  show "apx (est E) n E c t t' u" for n by (rule apx_same [OF s equD(3) [OF equ_refl [OF E t(1)]]])
  show "apx (est E) n E c t' t u" for n by (rule apx_same [OF same_sym [OF s] equD(3) [OF equ_refl [OF E t(2)]]])
qed (rule t)+

subsection \<open>Eta\<close>

text \<open>The head of an eta redex: the same value under the binder and outside it.\<close>

definition head_value :: "env \<Rightarrow> ctx \<Rightarrow> trm \<Rightarrow> trm \<Rightarrow> bool" where
  "head_value E c a a' \<longleftrightarrow>
     (\<forall>env h. length env = length c \<longrightarrow>
        (\<exists>w. \<forall>y. bs (est E) 1 env h a' w \<and> bs (est E) 1 (pushEnv env y) h a w))"

lemma eta_unfold: "bs st k (pushEnv env y) h (App a (Var 0)) v \<longleftrightarrow>
    (\<exists>m g i. bs st m (pushEnv env y) h a g \<and> ap st i g y v \<and> m + i \<le> k)"
  by (auto simp: pushEnv_def intro!: bs_App elim!: bs_AppE) blast

lemma equ_eta:
  assumes E: "sound_env E" "ctx_wf E c" and p: "wfT E p"
    and t: "typed E (pushCtx c p) a (TFun p q)" "typed E c a' (TFun p q)" and hv: "head_value E c a a'"
  shows "equ E c (Lam p (App a (Var 0))) a' (TFun p q)"
proof (rule equI)
  let ?st = "est E"
  have st: "store_checked ?st" using E by (simp add: sound_env_def)
  have "typed E (pushCtx c p) (Var 0) p" using typed_Var [of 0 "pushCtx c p"] by (simp add: pushCtx_def)
  then have l: "typed E c (Lam p (App a (Var 0))) (TFun p q)" using t(1) p by (intro typed_Lam typed_App)
  then show "typed E c (Lam p (App a (Var 0))) (TFun p q)" .
  show "typed E c a' (TFun p q)" by (rule t(2))
  have hd: "\<exists>w w'. (\<forall>y. bs ?st 1 env h a' w \<and> bs ?st 1 (pushEnv env y) h a w) \<and>
      (\<forall>y. bs ?st 1 env' h' a' w' \<and> bs ?st 1 (pushEnv env' y) h' a w') \<and>
      (1 \<le> m \<longrightarrow> V ?st (m - 1) (instT s (TFun p q)) w w')"
    if fr: "frame ?st m E c s h h' env env'" for m s h h' env env'
  proof -
    have "length env = length c" "length env' = length c" using fr by (auto simp: frame_def erel_def)
    then obtain w w' where w: "\<And>y. bs ?st 1 env h a' w \<and> bs ?st 1 (pushEnv env y) h a w"
      "\<And>y. bs ?st 1 env' h' a' w' \<and> bs ?st 1 (pushEnv env' y) h' a w'"
      using hv unfolding head_value_def by meson
    have "V ?st (m - 1) (instT s (TFun p q)) w w'" if "1 \<le> m"
      using apxD [OF equD(3) [OF equ_refl [OF E t(2)]] fr _ order_refl that, of w] w bs_det by blast
    with w show ?thesis by blast
  qed
  have fns: "fn ?st (instT s p) (instT s q) v"
    if "scope ?st E c s h env" "list_all plain env" "bs ?st k env h b v" "typed E c b (TFun p q)" for s h env k v b
    using bs_typed [OF st that(1,4,3)] bs_plain [OF that(3,2)]
    by (cases v) (auto simp: fn_def elim: vty.cases)
  show "apx ?st n E c (Lam p (App a (Var 0))) a' (TFun p q)" for n
    unfolding apx_def
  proof (intro allI impI)
    fix m s h h' env env' k v
    assume fr: "frame ?st m E c s h h' env env'" and "k \<le> m" and v: "bs ?st k env h (Lam p (App a (Var 0))) v"
    obtain w w' where w: "\<And>y. bs ?st 1 env h a' w \<and> bs ?st 1 (pushEnv env y) h a w"
      "\<And>y. bs ?st 1 env' h' a' w'" "1 \<le> m \<Longrightarrow> V ?st (m - 1) (instT s (TFun p q)) w w'"
      using hd [OF fr] by blast
    have "F ?st (m - k) (instT s p) (instT s q) v w'"
    proof (rule FI)
      fix j x y i r
      assume j: "j < m - k" and x: "V ?st j (instT s p) x y" and i: "i \<le> j" and r: "ap ?st (Suc i) v x r"
      have "bs ?st i (pushEnv env x) h (App a (Var 0)) r" using r v by (auto elim: ap_ClosE)
      then obtain e g l where g: "bs ?st e (pushEnv env x) h a g" "ap ?st l g x r" "e + l \<le> i"
        by (auto simp: eta_unfold)
      have "g = w" using w(1) g(1) bs_det by blast
      have "V ?st j (TFun (instT s p) (instT s q)) w w'" using V_mono [OF w(3)] j by simp
      with V_apply [OF _ x, of "instT s q" w w' l r] g \<open>g = w\<close> i obtain d r' where
        "ap ?st d w' y r'" "V ?st (j - l) (instT s q) r r'" by auto
      moreover from this(2) have "V ?st (j - i) (instT s q) r r'" by (rule V_mono) (use g(3) in simp)
      ultimately show "\<exists>d r'. ap ?st d w' y r' \<and> V ?st (j - i) (instT s q) r r'" by blast
    qed
    then have "V ?st (m - k) (instT s (TFun p q)) v w'"
      using fns [OF _ _ v l] fns [OF _ _ w(2) t(2)] frame_scope [OF fr] by (auto intro: vrel_Fun)
    then show "\<exists>k' v'. bs ?st k' env' h' a' v' \<and> V ?st (m - k) (instT s (TFun p q)) v v'" using w(2) by blast
  qed
  show "apx ?st n E c a' (Lam p (App a (Var 0))) (TFun p q)" for n
    unfolding apx_def
  proof (intro allI impI)
    fix m s h h' env env' k v
    assume fr: "frame ?st m E c s h h' env env'" and k: "k \<le> m" and v: "bs ?st k env h a' v"
    obtain w' where w': "\<And>y. bs ?st 1 env' h' a' w'" "\<And>y. bs ?st 1 (pushEnv env' y) h' a w'"
      using hd [OF fr] by blast
    have vw: "V ?st (m - k) (TFun (instT s p) (instT s q)) v w'"
      using apxD [OF equD(3) [OF equ_refl [OF E t(2)]] fr v order_refl k] w'(1) bs_det by fastforce
    let ?w = "VClos env' p (App a (Var 0)) h'"
    have "F ?st (m - k) (instT s p) (instT s q) v ?w"
    proof (rule FI)
      fix j x y i r
      assume j: "j < m - k" "V ?st j (instT s p) x y" "i \<le> j" "ap ?st (Suc i) v x r"
      have "F ?st (m - k) (instT s p) (instT s q) v w'" using vw by (auto elim: vrel_FunE)
      from FD [OF this j(2,1,3,4)] obtain d r' where r: "ap ?st d w' y r'" "V ?st (j - i) (instT s q) r r'" by blast
      have "bs ?st (1 + d) (pushEnv env' y) h' (App a (Var 0)) r'"
        unfolding eta_unfold using w'(2) r(1) by blast
      then show "\<exists>d r'. ap ?st d ?w y r' \<and> V ?st (j - i) (instT s q) r r'" using r(2) ap_Clos by blast
    qed
    then have "V ?st (m - k) (instT s (TFun p q)) v ?w"
      using fns [OF _ _ _ l, of s h' env' 0 ?w] frame_scope [OF fr] vw by (auto intro!: vrel_Fun elim: vrel_FunE)
    then show "\<exists>k' v'. bs ?st k' env' h' (Lam p (App a (Var 0))) v' \<and> V ?st (m - k) (instT s (TFun p q)) v v'"
      by auto
  qed
qed

lemma equ_etaReduce:
  assumes E: "sound_env E" "ctx_wf E c" and p: "wfT E p" and b: "typed E (pushCtx c p) b q"
    and r: "etaReduce (est E) b = Some b'"
  shows "equ E c (Lam p b) b' (TFun p q)"
proof -
  obtain a where a: "b = App a (Var 0)" using r by (cases "(est E, b)" rule: etaReduce.cases) auto
  obtain p' where ta: "typed E (pushCtx c p) a (TFun p' q)" "typed E (pushCtx c p) (Var 0) p'"
    using b unfolding a by (auto elim: typed_AppE)
  have p': "p' = p" using ta(2) by (auto elim: typed_VarE simp: pushCtx_def)
  have "(\<exists>i. a = Var (Suc i) \<and> b' = Var i) \<or> (\<exists>g ts n u t0 b0 ps. a = Ref g ts \<and> b' = Ref g ts \<and> GetDef (est E) g = Inr (DFunc n u (Lam t0 b0) ps))"
    using r unfolding a by (cases a) (auto split: if_splits sum.splits def.splits trm.splits simp: gr0_conv_Suc)
  then show ?thesis
  proof (elim disjE exE conjE)
    fix i assume i: "a = Var (Suc i)" "b' = Var i"
    have "Suc i < length (pushCtx c p)" "pushCtx c p ! Suc i = TFun p q"
      using ta(1) unfolding i p' by (auto elim: typed_VarE)
    then have t: "typed E c (Var i) (TFun p q)" using typed_Var [of i c E] by (simp add: pushCtx_def)
    moreover have "head_value E c a b'"
      using t by (auto simp: head_value_def i pushEnv_def elim: typed_VarE)
    ultimately show ?thesis using equ_eta [OF E p] ta(1) unfolding a i p' by blast
  next
    fix g ts n u t0 b0 ps
    assume g: "a = Ref g ts" "b' = Ref g ts" "GetDef (est E) g = Inr (DFunc n u (Lam t0 b0) ps)"
    then have d: "map_of (sdefs (est E)) g = Some (DFunc n u (Lam t0 b0) ps)"
      by (auto simp: GetDef_def split: option.splits)
    have t: "typed E c (Ref g ts) (TFun p q)" using ta(1) unfolding g p' by (auto elim!: typed_RefE intro: typed_Ref)
    have "bs (est E) 1 env h (Ref g ts) (VClos [] t0 b0 g)" for env h
      using bs_Ref [OF d, of 0 "VClos [] t0 b0 g" env h ts] by simp
    then have "head_value E c a b'" by (auto simp: head_value_def g)
    then show ?thesis using equ_eta [OF E p] ta(1) t unfolding a g p' by blast
  qed
qed

lemmas prim_ops = prim_simps floatPrim_def float2_def arg_float_def vFloat_def float_of_def

text \<open>Structural equality does not see the order of its operands.\<close>

lemma structEq_commute: "vty st x t \<Longrightarrow> vty st y t \<Longrightarrow> structEq x y = structEq y x"
proof (induction arbitrary: y rule: vty.induct)
  case (vty_Record ns xs ts)
  then obtain ys where y: "y = VRecord ns ys" "list_all2 (vty st) ys ts" by (auto elim!: vty_RecordE)
  have "structEqs xs ys = structEqs ys xs"
    using vty_Record.IH y(2) by (intro structEqs_pointwise) (simp_all add: list_all2_conv_all_nth)
  then show ?case using y vty_Record by (auto dest!: list_all2_lengthD)
next
  case (vty_Data h ts cs i xs)
  then obtain j ys where y: "y = VData h j ys"
    "list_all2 (vty st) ys (instCtorFields (DData (length ts) cs) h ts j)" by (auto elim!: vty_DataE)
  have "structEqs xs ys = structEqs ys xs" if "i = j"
    using vty_Data.IH y(2) that by (intro structEqs_pointwise) (simp_all add: list_all2_conv_all_nth)
  then show ?case using y vty_Data by (auto dest!: list_all2_lengthD)
qed (auto elim!: vty_IntE vty_RatE vty_FloatE vty_BoolE elim: vty.cases)

lemma prim_eq_commute:
  assumes "vty st x t" "vty st y t"
  shows "prim ''=='' [x, y] = prim ''=='' [y, x]"
proof (cases "\<exists>q. x = VRat q \<or> y = VRat q")
  case True
  then have "t = TRat" using assms by (elim exE disjE) (auto elim: vty.cases)
  then obtain p q where "x = VRat p" "y = VRat q" using assms by (auto elim!: vty_RatE)
  then show ?thesis by (simp add: prim_ops eq_commute [of p])
next
  case False
  moreover have "prim ''=='' [v, w] = intPrim ''=='' [v, w]" if "\<nexists>q. v = VRat q" for v w
    using that by (cases v) (auto simp: prim_def numPrim_def floatPrim_def)
  ultimately show ?thesis using structEq_commute [OF assms] by (simp add: intPrim_def arg_def)
qed

subsection \<open>Steps at a node\<close>

lemma bs_If_value:
  assumes a: "bs st 0 env h a w"
  shows "bs st k env h (If a b d) v \<longleftrightarrow> bs st k env h (if bool_of w then b else d) v"
proof
  assume "bs st k env h (If a b d) v"
  then obtain m i x where r: "bs st m env h a x" "bs st i env h (if bool_of x then b else d) v" "m + i \<le> k"
    by (auto elim: bs_IfE)
  then have "x = w" using a bs_det by blast
  with r show "bs st k env h (if bool_of w then b else d) v" by (intro bs_mono [OF r(2)[unfolded \<open>x = w\<close>]]) simp
next
  assume "bs st k env h (if bool_of w then b else d) v"
  from bs_If [OF a this] show "bs st k env h (If a b d) v" by simp
qed

lemma equ_ifSelect:
  assumes E: "sound_env E" "ctx_wf E c" and t: "typed E c (If a b d) u"
    and adm: "admitted b" "admitted d" and r: "ifSelect a b d = Some s"
  shows "equ E c (If a b d) s u"
proof -
  have ty: "typed E c a TBool" "typed E c b u" "typed E c d u" using t by (auto elim: typed_IfE)
  have "(\<exists>x. a = BoolL x \<and> s = (if x then b else d)) \<or> (\<exists>i. a = Var i \<and> d = b \<and> s = b)"
    using r cmp_trm_eq [OF adm] by (cases a) (auto simp: ifSelect_def split: if_splits)
  then show ?thesis
  proof (elim disjE exE conjE)
    fix x assume a: "a = BoolL x" "s = (if x then b else d)"
    then show ?thesis
      using t ty bs_If_value [of _ _ _ "BoolL x" "VBool x"]
      by (intro equ_same [OF E]) (simp_all add: same_def bool_of_def)
  next
    fix i assume a: "a = Var i" "d = b" "s = b"
    have "bs st k env h (If (Var i) b b) v \<longleftrightarrow> bs st k env h b v" if "i < length env" for st k env h v
      using that bs_If_value [of st env h "Var i" "env ! i" k b b v] by simp
    moreover have "i < length env" if "scope (est E) E c s h env" for s h env
      using that ty(1) list_all2_lengthD unfolding a scope_def by (fastforce elim: typed_VarE)
    ultimately show ?thesis
      using t ty unfolding a by (intro equ_same [OF E]) (auto simp: same_def)
  qed
qed

lemma bs_Prim2: "bs st k env h (Prim op [a, b]) v \<longleftrightarrow>
    (\<exists>x y. bs st k env h a x \<and> bs st k env h b y \<and> prim op [x, y] = Inr v)"
  by (auto elim!: bs_PrimE simp: list_all2_Cons1 intro!: bs_Prim) blast

lemma bs_Prim1: "bs st k env h (Prim op [a]) v \<longleftrightarrow> (\<exists>x. bs st k env h a x \<and> prim op [x] = Inr v)"
  by (auto elim!: bs_PrimE simp: list_all2_Cons1 intro!: bs_Prim)

text \<open>What an operand of a type evaluates to.\<close>

lemma operand_value:
  assumes "sound_env E" "scope (est E) E c s h env" "list_all plain env" "typed E c a u" "bs (est E) k env h a v"
  shows "vty (est E) v (instT s u) \<and> plain v"
  using bs_typed [OF _ assms(2,4,5)] bs_plain [OF assms(5,3)] assms(1) by (auto simp: sound_env_def)

lemma shape_neg_inv: "prim_shape st op ts u \<Longrightarrow> op = ''neg'' \<Longrightarrow> ts = [u] \<and> numeric u"
  by (cases rule: prim_shape.cases) auto

lemma typed_neg: "typed E c (Prim ''neg'' [a]) u \<Longrightarrow> typed E c a u \<and> numeric u"
proof (erule typed_PrimE)
  fix ts assume t: "list_all2 (typed E c) [a] ts" "primResultTy (est E) ''neg'' ts = Inr u"
  from shape_neg_inv [OF primResultTy_shape [OF t(2)] refl] t(1) show "typed E c a u \<and> numeric u" by simp
qed simp_all

lemma neg_twice:
  assumes "numeric u" "vty st v (instT s u)" "plain v"
  shows "\<exists>x. prim ''neg'' [v] = Inr x \<and> prim ''neg'' [x] = Inr v"
proof -
  have "(\<exists>i. v = VInt i) \<or> (\<exists>q. v = VRat q) \<or> (\<exists>f. v = VFloat f \<and> canonFloat f = f)"
    using assms by (auto simp: numeric_def elim!: vty_IntE vty_RatE vty_FloatE)
  then show ?thesis by (auto simp: prim_ops f_uminus_twice)
qed

lemma equ_neg:
  assumes E: "sound_env E" "ctx_wf E c" and t: "typed E c (Prim ''neg'' [Prim ''neg'' [a]]) u"
  shows "equ E c (Prim ''neg'' [Prim ''neg'' [a]]) a u"
proof (rule equ_same [OF E _ t])
  have a: "typed E c a u" "numeric u" using typed_neg [OF t] typed_neg by blast+
  show "typed E c a u" by (rule a)
  show "same E c (Prim ''neg'' [Prim ''neg'' [a]]) a"
    unfolding same_def
  proof (intro allI impI)
    fix s h env k v
    assume "scope (est E) E c s h env" "list_all plain env"
    from operand_value [OF E(1) this a(1)] neg_twice [OF a(2)]
    have n: "\<exists>x. prim ''neg'' [v] = Inr x \<and> prim ''neg'' [x] = Inr v" if "bs (est E) k env h a v" for v
      using that by blast
    show "bs (est E) k env h (Prim ''neg'' [Prim ''neg'' [a]]) v = bs (est E) k env h a v"
      unfolding bs_Prim1 using n by (metis Inr_inject)
  qed
qed

lemma equ_mulUnit:
  assumes E: "sound_env E" "ctx_wf E c" and t: "typed E c (Prim ''*'' [a, b]) TFloat"
    and r: "mulUnitSurvivor ''*'' (Some TFloat) [a, b] = Some s"
  shows "equ E c (Prim ''*'' [a, b]) s TFloat"
proof (rule equ_same [OF E _ t])
  have ty: "typed E c a TFloat" "typed E c b TFloat" using t typed_arith by (auto simp: numeric_def)
  have u: "x = FloatL float_one" if "acUnitLeaf ''*'' x" "typed E c x TFloat" for x
    using unit_leaf_shape [OF that(1)] that(2) by (auto elim: typed_litE)
  then have r': "a = FloatL float_one \<and> s = b \<or> b = FloatL float_one \<and> s = a"
    using r ty by (auto simp: mulUnitSurvivor_def split: if_splits)
  then show "typed E c s TFloat" using ty by auto
  have one: "canonFloat float_one = float_one" by (simp add: float_one_def canonFloat_def is_nan_def)
  have mul: "prim ''*'' [VFloat float_one, VFloat f] = Inr (VFloat f)" "prim ''*'' [VFloat f, VFloat float_one] = Inr (VFloat f)"
    if "canonFloat f = f" for f
    using f_mul_one [OF that] f_mul_commute [of f] by (simp_all add: prim_ops float_one_def)
  show "same E c (Prim ''*'' [a, b]) s"
    unfolding same_def
  proof (intro allI impI)
    fix s' h env k v
    assume "scope (est E) E c s' h env" "list_all plain env"
    note o = operand_value [OF E(1) this]
    have f: "\<exists>f. v = VFloat f \<and> canonFloat f = f" if "typed E c x TFloat" "bs (est E) k env h x v" for x v
      using o [OF that] by (auto elim: vty_FloatE)
    show "bs (est E) k env h (Prim ''*'' [a, b]) v = bs (est E) k env h s v"
      using r' f [OF ty(1)] f [OF ty(2)] mul by (auto simp: bs_Prim2 one) (metis Inr_inject)+
  qed
qed

text \<open>Operands that commute without associating: equality, and sums and products of floats.\<close>

lemma equ_swap:
  assumes E: "sound_env E" "ctx_wf E c" and t: "typed E c (Prim op [a, b]) u"
    and op: "op = ''=='' \<or> (op = ''+'' \<or> op = ''*'') \<and> u = TFloat"
  shows "equ E c (Prim op [a, b]) (Prim op [b, a]) u"
proof (rule equ_same [OF E _ t])
  have ty: "\<exists>w. typed E c a w \<and> typed E c b w \<and> (op = ''=='' \<longrightarrow> \<not> tyHasFun w \<and> u = TBool) \<and> (op \<noteq> ''=='' \<longrightarrow> w = TFloat)"
  proof (cases "op = ''==''")
    case True
    then show ?thesis using t by (auto elim!: typed_PrimE)
  next
    case False
    then show ?thesis using t op typed_arith [of op TFloat E c a b] by (auto simp: numeric_def)
  qed
  then obtain w where w: "typed E c a w" "typed E c b w" "op = ''=='' \<Longrightarrow> \<not> tyHasFun w \<and> u = TBool"
    "op \<noteq> ''=='' \<Longrightarrow> w = TFloat" by blast
  show "typed E c (Prim op [b, a]) u"
  proof (cases "op = ''==''")
    case True
    then show ?thesis using w by (auto intro: typed_Eq)
  next
    case False
    then show ?thesis using w op typed_arith [of op TFloat E c b a] by (auto simp: numeric_def)
  qed
  have comm: "prim op [x, y] = prim op [y, x]"
    if v: "vty (est E) x (instT s w)" "vty (est E) y (instT s w)" for x y s
  proof (cases "op = ''==''")
    case True
    show ?thesis unfolding True by (rule prim_eq_commute [OF v])
  next
    case False
    then obtain f g where fg: "x = VFloat f" "y = VFloat g" using v w(4) by (auto elim!: vty_FloatE)
    have "op = ''+'' \<or> op = ''*''" using op False by simp
    then show ?thesis using f_add_commute [of f g] f_mul_commute [of f g]
      by (elim disjE) (simp_all add: fg prim_ops)
  qed
  show "same E c (Prim op [a, b]) (Prim op [b, a])"
    unfolding same_def
  proof (intro allI impI)
    fix s h env k v
    assume "scope (est E) E c s h env" "list_all plain env"
    note o = operand_value [OF E(1) this]
    show "bs (est E) k env h (Prim op [a, b]) v = bs (est E) k env h (Prim op [b, a]) v"
      unfolding bs_Prim2 using o [OF w(1)] o [OF w(2)] comm by metis
  qed
qed

subsection \<open>Chains\<close>

definition ac_op :: "string \<Rightarrow> ty \<Rightarrow> bool" where
  "ac_op op u \<longleftrightarrow> (op = ''+'' \<or> op = ''*'') \<and> (u = TInt \<or> u = TRat) \<or> (op = ''and'' \<or> op = ''or'') \<and> u = TBool"

lemma rebuild_ac:
  assumes op: "ac_op op u" and t: "typed E c a u" "typed E c b u" and adm: "admitted (Prim op [a, b])"
  defines "R \<equiv> acRebuild op (acFlatten op [a, b])"
  shows "typed E c R u \<and> admitted R \<and> trm_nodes R \<le> trm_nodes (Prim op [a, b])"
proof -
  consider "op = ''+''" "u = TInt" | "op = ''*''" "u = TInt" | "op = ''+''" "u = TRat" | "op = ''*''" "u = TRat"
    | "op = ''and''" "u = TBool" | "op = ''or''" "u = TBool"
    using op by (auto simp: ac_op_def)
  then show ?thesis
  proof cases
    case 1 then show ?thesis using t adm int_plus.rebuild_shape unfolding R_def by blast
  next
    case 2 then show ?thesis using t adm int_times.rebuild_shape unfolding R_def by blast
  next
    case 3 then show ?thesis using t adm rat_plus.rebuild_shape unfolding R_def by blast
  next
    case 4 then show ?thesis using t adm rat_times.rebuild_shape unfolding R_def by blast
  next
    case 5 then show ?thesis using t adm conj.rebuild_shape unfolding R_def by blast
  next
    case 6 then show ?thesis using t adm disj.rebuild_shape unfolding R_def by blast
  qed
qed

lemma rebuild_same:
  assumes E: "sound_env E" and op: "ac_op op u" and t: "typed E c a u" "typed E c b u" and adm: "admitted (Prim op [a, b])"
  shows "same E c (Prim op [a, b]) (acRebuild op (acFlatten op [a, b]))"
  unfolding same_def
proof (intro allI impI)
  fix s h env k v
  assume s: "scope (est E) E c s h env"
  have st: "store_checked (est E)" using E by (simp add: sound_env_def)
  consider "op = ''+''" "u = TInt" | "op = ''*''" "u = TInt" | "op = ''+''" "u = TRat" | "op = ''*''" "u = TRat"
    | "op = ''and''" "u = TBool" | "op = ''or''" "u = TBool"
    using op by (auto simp: ac_op_def)
  then show "bs (est E) k env h (Prim op [a, b]) v = bs (est E) k env h (acRebuild op (acFlatten op [a, b])) v"
  proof cases
    case 1 then show ?thesis using int_plus.rebuild_value [OF _ _ _ int_plus.bs_evaluates [OF st s]] t adm by blast
  next
    case 2 then show ?thesis using int_times.rebuild_value [OF _ _ _ int_times.bs_evaluates [OF st s]] t adm by blast
  next
    case 3 then show ?thesis using rat_plus.rebuild_value [OF _ _ _ rat_plus.bs_evaluates [OF st s]] t adm by blast
  next
    case 4 then show ?thesis using rat_times.rebuild_value [OF _ _ _ rat_times.bs_evaluates [OF st s]] t adm by blast
  next
    case 5 then show ?thesis using conj.rebuild_value [OF _ _ _ conj.bs_evaluates [OF st s]] t adm by blast
  next
    case 6 then show ?thesis using disj.rebuild_value [OF _ _ _ disj.bs_evaluates [OF st s]] t adm by blast
  qed
qed

lemma typed_ac: "ac_op op u \<Longrightarrow> typed E c (Prim op [a, b]) u \<longleftrightarrow> typed E c a u \<and> typed E c b u"
  by (auto simp: ac_op_def typed_arith typed_logic numeric_def)

lemma equ_rebuild:
  assumes E: "sound_env E" "ctx_wf E c" and op: "ac_op op u" and t: "typed E c (Prim op [a, b]) u"
    and adm: "admitted (Prim op [a, b])"
  shows "equ E c (Prim op [a, b]) (acRebuild op (acFlatten op [a, b])) u"
proof -
  have ty: "typed E c a u" "typed E c b u" using t typed_ac [OF op] by simp_all
  show ?thesis
    using rebuild_ac [OF op ty adm] by (intro equ_same [OF E rebuild_same [OF E(1) op ty adm] t]) simp
qed

subsection \<open>Congruence\<close>

definition equs :: "env \<Rightarrow> ctx \<Rightarrow> trm list \<Rightarrow> trm list \<Rightarrow> ty list \<Rightarrow> bool" where
  "equs E c as bs' us \<longleftrightarrow>
     length as = length us \<and> length bs' = length us \<and> (\<forall>i < length us. equ E c (as ! i) (bs' ! i) (us ! i))"

lemma equsD:
  assumes "equs E c as bs' us"
  shows "list_all2 (typed E c) as us" "list_all2 (typed E c) bs' us"
    "apxs (est E) n E c as bs' us" "apxs (est E) n E c bs' as us" "length as = length us" "length bs' = length us"
  using assms by (auto simp: equs_def list_all2_conv_all_nth apxs_def dest: equD)

lemma equ_Lam:
  assumes E: "sound_env E" and p: "wfT E p" and b: "equ E (pushCtx c p) b b' q"
  shows "equ E c (Lam p b) (Lam p b') (TFun p q)"
  using E p equD [OF b] by (intro equI apx_Lam typed_Lam) (simp_all add: sound_env_def)

lemma equ_App: "equ E c f f' (TFun p q) \<Longrightarrow> equ E c a a' p \<Longrightarrow> equ E c (App f a) (App f' a') q"
  unfolding equ_def by (auto intro: apx_App typed_App)

lemma equ_Let: "wfT E p \<Longrightarrow> equ E c a a' p \<Longrightarrow> equ E (pushCtx c p) b b' q \<Longrightarrow> equ E c (Let p a b) (Let p a' b') q"
  unfolding equ_def by (auto intro: apx_Let typed_Let)

lemma equ_If: "equ E c a a' TBool \<Longrightarrow> equ E c b b' q \<Longrightarrow> equ E c d d' q \<Longrightarrow> equ E c (If a b d) (If a' b' d') q"
  unfolding equ_def by (auto intro: apx_If typed_If)

definition prim_rule :: "env \<Rightarrow> string \<Rightarrow> ty list \<Rightarrow> ty \<Rightarrow> bool" where
  "prim_rule E op us u \<longleftrightarrow>
     (if op = ''=='' then u = TBool \<and> (\<exists>t. us = [t, t] \<and> \<not> tyHasFun t) else primResultTy (est E) op us = Inr u)"

lemma equ_Prim:
  assumes E: "sound_env E" and p: "prim_rule E op us u" and as: "equs E c as bs' us"
  shows "equ E c (Prim op as) (Prim op bs') u"
proof (cases "op = ''==''")
  case True
  then obtain t a b a' b' where "us = [t, t]" "u = TBool" "\<not> tyHasFun t" "as = [a, b]" "bs' = [a', b']"
    using p equsD(5,6) [OF as] by (auto simp: prim_rule_def length_Suc_conv)
  moreover from this have "equ E c a a' t" "equ E c b b' t"
    using as unfolding equs_def by (auto dest: spec [of _ 0] spec [of _ 1])
  ultimately show ?thesis using True unfolding equ_def by (auto intro: apx_Eq typed_Eq)
next
  case False
  then show ?thesis using E p equsD [OF as]
    by (intro equI apx_Prim typed_Prim) (simp_all add: prim_rule_def sound_env_def)
qed

lemma equ_Ctor:
  assumes E: "sound_env E" and d: "map_of (sdefs (est E)) h = Some (DData (length ts) cs)" "i < length cs"
    "list_all (wfT E) ts" and as: "equs E c as bs' (instCtorFields (DData (length ts) cs) h ts i)"
  shows "equ E c (Ctor h i ts as) (Ctor h i ts bs') (TData h ts)"
  using E d equsD [OF as] by (intro equI apx_Ctor typed_Ctor) (simp_all add: sound_env_def)

lemma equ_Record:
  assumes "length ns = length us" "sorted_wrt (<) ns" and as: "equs E c as bs' us"
  shows "equ E c (Record ns as) (Record ns bs') (TRecord ns us)"
  using assms equsD [OF as] by (intro equI apx_Record typed_Record) simp_all

lemma equ_Field:
  assumes "length ns = length ts" "equ E c a a' (TRecord ns ts)" "field_ty ns ts f = Some u"
  shows "equ E c (Field a f) (Field a' f) u"
  using assms unfolding equ_def by (auto intro: apx_Field typed_Field)

lemma equ_Match:
  assumes E: "sound_env E" and a: "equ E c a a' (TData g ts)" and wf: "wfT E (TData g ts)"
    and h: "h = '''' \<or> h = g" and d: "map_of (sdefs (est E)) g = Some d"
    and len: "length arms = length (ctors_of d)" "length arms' = length arms" "arms \<noteq> []"
    and arms: "\<And>i. i < length arms \<Longrightarrow> equ E (pushAll c (instCtorFields d g ts i)) (arms ! i) (arms' ! i) u"
  shows "equ E c (Match h a arms) (Match h a' arms') u"
proof (rule equI)
  have st: "store_checked (est E)" "env_wf E" using E by (simp_all add: sound_env_def)
  show "typed E c (Match h a arms) u"
    using equD(1) [OF a] equD(1) [OF arms] h d len by (intro typed_Match) (auto simp: list_all2_conv_all_nth)
  show "typed E c (Match h a' arms') u"
    using equD(2) [OF a] equD(2) [OF arms] h d len by (intro typed_Match) (auto simp: list_all2_conv_all_nth)
  show "apx (est E) n E c (Match h a arms) (Match h a' arms') u" for n
    using equD(3) [OF a] equD(3) [OF arms] d len wf st by (intro apx_Match) simp_all
  show "apx (est E) n E c (Match h a' arms') (Match h a arms) u" for n
    using equD(4) [OF a] equD(4) [OF arms] d len wf st by (intro apx_Match) simp_all
qed

subsection \<open>The traversal\<close>

text \<open>What the normalization of a node returns, besides the node itself.\<close>

definition norm_res :: "env \<Rightarrow> ctx \<Rightarrow> string \<Rightarrow> trm \<Rightarrow> ty \<Rightarrow> trm \<times> bool \<Rightarrow> bool" where
  "norm_res E c ch t u r \<longleftrightarrow>
     equ E c t (fst r) u \<and> admitted (fst r) \<and> trm_nodes (fst r) \<le> trm_nodes t \<and>
     (snd r \<longrightarrow> (\<exists>a b. fst r = Prim ch [a, b]) \<and> ac_op ch u)"

definition norm_ress :: "env \<Rightarrow> ctx \<Rightarrow> string \<Rightarrow> trm list \<Rightarrow> ty list \<Rightarrow> (trm \<times> bool) list \<Rightarrow> bool" where
  "norm_ress E c ch ts us rs \<longleftrightarrow>
     length ts = length us \<and> length rs = length us \<and> (\<forall>i < length us. norm_res E c ch (ts ! i) (us ! i) (rs ! i))"

lemma sum_nodes_le:
  "length as = length xs \<Longrightarrow> (\<And>i. i < length as \<Longrightarrow> trm_nodes (as ! i) \<le> trm_nodes (xs ! i)) \<Longrightarrow>
   sum_list (map trm_nodes as) \<le> sum_list (map trm_nodes xs)"
  by (intro sum_list_mono2) auto

lemma norm_ressD:
  assumes "norm_ress E c ch ts us rs"
  shows "equs E c ts (map fst rs) us" "list_all trm_canon (map fst rs)" "length rs = length ts"
    "sum_list (map trm_nodes (map fst rs)) \<le> sum_list (map trm_nodes ts)"
proof -
  show "equs E c ts (map fst rs) us" "list_all trm_canon (map fst rs)" "length rs = length ts"
    using assms by (auto simp: norm_ress_def norm_res_def equs_def admitted_def list_all_length)
  show "sum_list (map trm_nodes (map fst rs)) \<le> sum_list (map trm_nodes ts)"
    using assms by (intro sum_nodes_le) (auto simp: norm_ress_def norm_res_def)
qed

lemma msynth_typed: "typed E c t u \<Longrightarrow> msynth E c t = (t, Some u)"
proof -
  assume "typed E c t u"
  then have "synthT E c t = (t, 0, Inr u)" using typed_complete by (simp add: synths_def)
  from run_synth [OF this] show ?thesis by (simp add: msynth_def ok_ty_def)
qed

lemma prim_rule_ac:
  assumes "prim_rule E op us u" "op \<in> commutativePrims" "us = [w, w']"
  shows "isACPrim op (Some w) = ac_op op u" "w' = w" "ac_op op w \<longleftrightarrow> ac_op op u"
    "\<not> ac_op op u \<Longrightarrow> op = ''=='' \<or> (op = ''+'' \<or> op = ''*'') \<and> u = TFloat \<and> w = TFloat"
proof -
  have "op = ''=='' \<and> u = TBool \<and> w' = w \<or> (op = ''+'' \<or> op = ''*'') \<and> numeric u \<and> w = u \<and> w' = u \<or>
      (op = ''and'' \<or> op = ''or'') \<and> u = TBool \<and> w = TBool \<and> w' = TBool"
  proof (cases "op = ''==''")
    case False
    then have "prim_shape (est E) op [w, w'] u"
      using assms primResultTy_shape by (simp add: prim_rule_def)
    then show ?thesis using assms(2) False by cases (auto simp: commutativePrims_def)
  qed (use assms in \<open>auto simp: prim_rule_def\<close>)
  then show "isACPrim op (Some w) = ac_op op u" "w' = w" "ac_op op w \<longleftrightarrow> ac_op op u"
    "\<not> ac_op op u \<Longrightarrow> op = ''=='' \<or> (op = ''+'' \<or> op = ''*'') \<and> u = TFloat \<and> w = TFloat"
    by (auto simp: isACPrim_def ac_op_def numeric_def)
qed

lemma norm_exit:
  assumes E: "sound_env E" "ctx_wf E c" and p: "prim_rule E op us u" and adm: "admitted (Prim op os)"
    and ns: "norm_ress E c (if op \<in> commutativePrims \<and> length os = 2 then op else '''') os us ns"
  shows "\<exists>r. exit_prim E c ch op os ns = (Prim op os, r) \<and> norm_res E c ch (Prim op os) u r"
proof -
  let ?N = "Prim op (map fst ns)"
  note d = norm_ressD [OF ns]
  have N: "equ E c (Prim op os) ?N u" by (rule equ_Prim [OF E(1) p d(1)])
  have aN: "admitted ?N" "trm_nodes ?N \<le> trm_nodes (Prim op os)"
    using adm d(2-4) by (auto simp: admitted_def)
  have res: "norm_res E c ch (Prim op os) u (s, False)"
    if "equ E c ?N s u" "admitted s" "trm_nodes s \<le> trm_nodes ?N" for s
    using equ_trans [OF _ N that(1)] E that(2,3) aN by (simp add: norm_res_def sound_env_def)
  show ?thesis
  proof (cases "negInvolution op (map fst ns)")
    case (Some s)
    then have s: "op = ''neg''" "map fst ns = [Prim ''neg'' [s]]"
      by (auto simp: negInvolution_def split: if_splits list.splits trm.splits)
    have "equ E c ?N s u" using equ_neg [OF E] equD(2) [OF N] by (simp add: s)
    moreover have "admitted s" "trm_nodes s \<le> trm_nodes ?N" using aN(1) by (simp_all add: s admitted_def)
    ultimately show ?thesis using res Some by (simp add: exit_prim_def)
  next
    case neg: None
    show ?thesis
    proof (cases "op \<in> commutativePrims \<and> length ns = 2")
      case False
      then show ?thesis using neg res [of ?N] equ_refl [OF E] equD(2) [OF N] aN by (auto simp: exit_prim_def)
    next
      case True
      then obtain n0 d0 n1 d1 where n: "ns = [(n0, d0), (n1, d1)]" by (auto simp: length_Suc_conv numeral_2_eq_2)
      then obtain o0 o1 where o: "os = [o0, o1]" using d(3) by (cases os; cases "tl os") auto
      then obtain w w' where us: "us = [w, w']" using ns by (cases us; cases "tl us") (auto simp: norm_ress_def)
      note w = prim_rule_ac [OF p _ us]
      have ops: "op \<in> commutativePrims" using True by simp
      have ty: "typed E c o0 w" using equsD(1) [OF d(1)] by (simp add: o us)
      have r: "norm_res E c op o0 w (n0, d0)" "norm_res E c op o1 w (n1, d1)"
        using ns ops w(2) unfolding norm_ress_def by (auto simp: o us n dest: spec [of _ 0] spec [of _ 1])
      have adms: "admitted n0" "admitted n1" using r by (simp_all add: norm_res_def)
      have N': "?N = Prim op [n0, n1]" by (simp add: n)
      have tN: "typed E c (Prim op [n0, n1]) u" using equD(2) [OF N] by (simp add: n)
      show ?thesis
      proof (cases "ac_op op u")
        case ac: True
        show ?thesis
        proof (cases "ch = op")
          case True
          then show ?thesis
            using neg ac w(1) ops N aN msynth_typed [OF ty] by (simp add: exit_prim_def n o norm_res_def)
        next
          case False
          have "norm_res E c ch (Prim op os) u (acRebuild op (acFlatten op [n0, n1]), False)"
          proof (rule res)
            have "typed E c n0 u" "typed E c n1 u" using tN typed_ac [OF ac] by simp_all
            then show "admitted (acRebuild op (acFlatten op [n0, n1]))"
              "trm_nodes (acRebuild op (acFlatten op [n0, n1])) \<le> trm_nodes ?N"
              using rebuild_ac [OF ac, of E c n0 n1] aN unfolding N' by blast+
            show "equ E c ?N (acRebuild op (acFlatten op [n0, n1])) u"
              using equ_rebuild [OF E ac tN] aN unfolding N' by blast
          qed
          then show ?thesis
            using neg ac w(1) ops False msynth_typed [OF ty] by (simp add: exit_prim_def n o)
        qed
      next
        case nac: False
        have d: "\<not> d0" "\<not> d1" using r w(3) [OF ops] nac by (auto simp: norm_res_def)
        have f: "forceAC (n0, d0) = n0" "forceAC (n1, d1) = n1" using d by (simp_all add: forceAC_def split: trm.split)
        have cases: "op = ''=='' \<or> (op = ''+'' \<or> op = ''*'') \<and> u = TFloat \<and> w = TFloat" by (rule w(4) [OF ops nac])
        show ?thesis
        proof (cases "mulUnitSurvivor op (Some w) [n0, n1]")
          case (Some s)
          then have m: "op = ''*''" "w = TFloat" "s = n0 \<or> s = n1" by (auto simp: mulUnitSurvivor_def split: if_splits)
          have u: "u = TFloat" using cases m by simp
          have "norm_res E c ch (Prim op os) u (s, False)"
            using equ_mulUnit [OF E, of n0 n1 s] tN Some m u adms by (intro res) (auto simp: n)
          then show ?thesis
            using neg nac w(1) ops Some f msynth_typed [OF ty] by (simp add: exit_prim_def n o)
        next
          case None
          let ?as = "if 0 < cmp_trm n0 n1 then [n1, n0] else [n0, n1]"
          have "equ E c ?N (Prim op ?as) u"
            using equ_swap [OF E tN] cases equ_refl [OF E tN] by (auto simp: n)
          then have "norm_res E c ch (Prim op os) u (Prim op ?as, False)"
            using aN by (intro res) (auto simp: n admitted_def)
          then show ?thesis
            using neg nac w(1) ops None f msynth_typed [OF ty] by (simp add: exit_prim_def n o Let_def split: if_splits)
        qed
      qed
    qed
  qed
qed

definition norm_ok :: "env \<Rightarrow> ctx \<Rightarrow> string \<Rightarrow> trm \<Rightarrow> ty \<Rightarrow> bool" where
  "norm_ok E c ch t u \<longleftrightarrow> (\<exists>r. eNorm E c ch t = (t, r) \<and> norm_res E c ch t u r)"

lemma not_ac_empty [simp]: "\<not> ac_op '''' u"
  by (simp add: ac_op_def)

lemma norm_okE:
  assumes "norm_ok E c '''' t u"
  obtains t' where "eNorm E c '''' t = (t, t', False)" "equ E c t t' u" "admitted t'" "trm_nodes t' \<le> trm_nodes t"
  using assms by (auto simp: norm_ok_def norm_res_def)

lemma norm_okI:
  "eNorm E c ch t = (t, t', False) \<Longrightarrow> equ E c t t' u \<Longrightarrow> admitted t' \<Longrightarrow> trm_nodes t' \<le> trm_nodes t \<Longrightarrow>
   norm_ok E c ch t u"
  by (simp add: norm_ok_def norm_res_def)

lemma norm_ok_leaf:
  "sound_env E \<Longrightarrow> ctx_wf E c \<Longrightarrow> admitted t \<Longrightarrow> typed E c t u \<Longrightarrow> eNorm E c ch t = (t, t, False) \<Longrightarrow> norm_ok E c ch t u"
  by (simp add: norm_ok_def norm_res_def equ_refl)

lemma norm_ok_list:
  assumes "list_all2 (norm_ok E c ch) ts us"
  obtains rs where "map (eNorm E c ch) ts = zip ts rs" "norm_ress E c ch ts us rs"
proof -
  have "\<exists>rs. map (eNorm E c ch) ts = zip ts rs \<and> norm_ress E c ch ts us rs"
    using assms
  proof (induction rule: list_all2_induct)
    case Nil
    then show ?case by (simp add: norm_ress_def)
  next
    case (Cons t ts u us)
    then obtain rs r where "map (eNorm E c ch) ts = zip ts rs" "norm_ress E c ch ts us rs"
      "eNorm E c ch t = (t, r)" "norm_res E c ch t u r" by (auto simp: norm_ok_def)
    then have "map (eNorm E c ch) (t # ts) = zip (t # ts) (r # rs) \<and> norm_ress E c ch (t # ts) (u # us) (r # rs)"
      by (auto simp: norm_ress_def nth_Cons split: nat.split)
    then show ?case by blast
  qed
  then show thesis using that by blast
qed

lemma admitted_args: "admitted (Prim op as) \<Longrightarrow> list_all admitted as"
  "admitted (Ctor h i ts as) \<Longrightarrow> list_all admitted as" "admitted (Record ns as) \<Longrightarrow> list_all admitted as"
  "admitted (Match h a as) \<Longrightarrow> list_all admitted as \<and> admitted a"
proof -
  have m: "trm_nodes a \<le> sum_list (map trm_nodes as)" if "a \<in> set as" for a as
    using that by (intro member_le_sum_list) simp_all
  show "admitted (Prim op as) \<Longrightarrow> list_all admitted as" "admitted (Ctor h i ts as) \<Longrightarrow> list_all admitted as"
    "admitted (Record ns as) \<Longrightarrow> list_all admitted as"
    "admitted (Match h a as) \<Longrightarrow> list_all admitted as \<and> admitted a"
    using m [of _ as] by (fastforce simp: admitted_def list_all_iff)+
qed

lemma norm_ok_prim:
  assumes E: "sound_env E" "ctx_wf E c" and p: "prim_rule E op us u" and adm: "admitted (Prim op as)"
    and as: "\<And>ch. list_all2 (norm_ok E c ch) as us"
  shows "norm_ok E c ch (Prim op as) u"
proof -
  let ?cc = "if op \<in> commutativePrims \<and> length as = 2 then op else ''''"
  obtain rs where rs: "map (eNorm E c ?cc) as = zip as rs" "norm_ress E c ?cc as us rs"
    using norm_ok_list [OF as] by blast
  have len: "length rs = length as" by (rule norm_ressD(3) [OF rs(2)])
  have "eNorm E c ch (Prim op as) =
      exit_prim E c ch op (map fst (map (eNorm E c ?cc) as)) (map snd (map (eNorm E c ?cc) as))"
    unfolding eNorm.simps Let_def ..
  also have "\<dots> = exit_prim E c ch op as rs" using len by (simp only: rs(1) map_fst_zip map_snd_zip)
  finally show ?thesis
    using norm_exit [OF E p adm rs(2), of ch] by (simp add: norm_ok_def)
qed

lemma norm_ok_args:
  assumes "list_all2 (norm_ok E c '''') as us"
  obtains rs where "map (eNorm E c '''') as = zip as rs" "map fst (zip as rs) = as" "map (fst \<circ> snd) (zip as rs) = map fst rs"
    "equs E c as (map fst rs) us" "list_all trm_canon (map fst rs)" "length (map fst rs) = length as"
    "sum_list (map trm_nodes (map fst rs)) \<le> sum_list (map trm_nodes as)"
proof -
  obtain rs where rs: "map (eNorm E c '''') as = zip as rs" "norm_ress E c '''' as us rs"
    by (rule norm_ok_list [OF assms])
  note d = norm_ressD [OF rs(2)]
  have "map (fst \<circ> snd) (zip as rs) = map fst rs" using d(3) by (metis map_map map_snd_zip)
  then show thesis using that [OF rs(1)] d by simp
qed

lemma admitted_sub:
  "admitted (Lam p b) \<Longrightarrow> admitted b" "admitted (App f a) \<Longrightarrow> admitted f \<and> admitted a"
  "admitted (Let p a b) \<Longrightarrow> admitted a \<and> admitted b" "admitted (If a b d) \<Longrightarrow> admitted a \<and> admitted b \<and> admitted d"
  "admitted (Field a l) \<Longrightarrow> admitted a"
  by (simp_all add: admitted_def)

lemma etaReduce_admitted: "etaReduce st b = Some s \<Longrightarrow> admitted b \<Longrightarrow> admitted s \<and> trm_nodes s \<le> trm_nodes b"
proof -
  assume r: "etaReduce st b = Some s" "admitted b"
  then obtain a where a: "b = App a (Var 0)" by (cases "(st, b)" rule: etaReduce.cases) auto
  show ?thesis
    using r unfolding a by (cases a) (auto split: if_splits sum.splits def.splits trm.splits simp: admitted_def)
qed

lemma ifSelect_mem: "ifSelect a b d = Some s \<Longrightarrow> s = b \<or> s = d"
  by (cases a) (auto simp: ifSelect_def split: if_splits)

lemma norm_sound:
  assumes E: "sound_env E"
  shows "typed E c t u \<Longrightarrow> ctx_wf E c \<Longrightarrow> admitted t \<Longrightarrow> norm_ok E c ch t u"
proof (induction arbitrary: ch rule: typed.induct)
  case (typed_Lam p c b q)
  have p: "wfT E p" by (rule typed_Lam.hyps)
  have c: "ctx_wf E (pushCtx c p)" using p typed_Lam.prems by (simp add: pushCtx_def)
  obtain b' where b: "eNorm E (pushCtx c p) '''' b = (b, b', False)" "equ E (pushCtx c p) b b' q"
    "admitted b'" "trm_nodes b' \<le> trm_nodes b"
    using typed_Lam.IH [OF c admitted_sub(1)] typed_Lam.prems by (blast elim: norm_okE)
  have l: "equ E c (Lam p b) (Lam p b') (TFun p q)" by (rule equ_Lam [OF E p b(2)])
  show ?case
  proof (cases "etaReduce (est E) b'")
    case None
    then show ?thesis using b l typed_Lam.prems by (intro norm_okI [where t' = "Lam p b'"]) (auto simp: admitted_def)
  next
    case (Some s)
    have "equ E c (Lam p b') s (TFun p q)"
      by (rule equ_etaReduce [OF E typed_Lam.prems(1) p equD(2) [OF b(2)] Some])
    then have "equ E c (Lam p b) s (TFun p q)" using equ_trans [OF _ l] E by (simp add: sound_env_def)
    then show ?thesis using b Some etaReduce_admitted [OF Some b(3)] by (intro norm_okI [where t' = s]) auto
  qed
next
  case (typed_App c f p q a)
  then obtain f' a' where "eNorm E c '''' f = (f, f', False)" "equ E c f f' (TFun p q)" "admitted f'" "trm_nodes f' \<le> trm_nodes f"
    "eNorm E c '''' a = (a, a', False)" "equ E c a a' p" "admitted a'" "trm_nodes a' \<le> trm_nodes a"
    by (metis admitted_sub(2) norm_okE)
  then show ?case
    using typed_App.prems by (intro norm_okI [where t' = "App f' a'"] equ_App) (auto simp: admitted_def)
next
  case (typed_Let p c a b q)
  have c: "ctx_wf E (pushCtx c p)" using typed_Let by (simp add: pushCtx_def)
  obtain a' where a: "eNorm E c '''' a = (a, a', False)" "equ E c a a' p" "admitted a'" "trm_nodes a' \<le> trm_nodes a"
    using typed_Let admitted_sub(3) by (blast elim: norm_okE)
  obtain b' where b: "eNorm E (pushCtx c p) '''' b = (b, b', False)" "equ E (pushCtx c p) b b' q"
    "admitted b'" "trm_nodes b' \<le> trm_nodes b"
    using typed_Let.IH(2) [OF c] typed_Let.prems admitted_sub(3) by (blast elim: norm_okE)
  show ?case
    using a b typed_Let by (intro norm_okI [where t' = "Let p a' b'"] equ_Let) (auto simp: admitted_def)
next
  case (typed_If c a b q d)
  then obtain a' b' d' where a: "eNorm E c '''' a = (a, a', False)" "equ E c a a' TBool" "admitted a'" "trm_nodes a' \<le> trm_nodes a"
    and b: "eNorm E c '''' b = (b, b', False)" "equ E c b b' q" "admitted b'" "trm_nodes b' \<le> trm_nodes b"
    and d: "eNorm E c '''' d = (d, d', False)" "equ E c d d' q" "admitted d'" "trm_nodes d' \<le> trm_nodes d"
    by (metis admitted_sub(4) norm_okE)
  have i: "equ E c (If a b d) (If a' b' d') q" by (rule equ_If [OF a(2) b(2) d(2)])
  show ?case
  proof (cases "ifSelect a' b' d'")
    case None
    then show ?thesis using a b d i typed_If.prems
      by (intro norm_okI [where t' = "If a' b' d'"]) (auto simp: admitted_def)
  next
    case (Some s)
    have "equ E c (If a' b' d') s q"
      by (rule equ_ifSelect [OF E typed_If.prems(1) equD(2) [OF i] b(3) d(3) Some])
    then have "equ E c (If a b d) s q" using equ_trans [OF _ i] E by (simp add: sound_env_def)
    then show ?thesis using a b d Some ifSelect_mem [OF Some] by (intro norm_okI [where t' = s]) auto
  qed
next
  case (typed_Prim op c as us u)
  have "list_all admitted as" using typed_Prim.prems by (auto dest: admitted_args(1))
  then have "list_all2 (norm_ok E c ch) as us" for ch
    using typed_Prim.IH typed_Prim.prems(1) by (auto simp: list_all2_conv_all_nth list_all_length)
  then show ?case
    using typed_Prim.hyps typed_Prim.prems by (intro norm_ok_prim [OF E]) (simp_all add: prim_rule_def)
next
  case (typed_Eq t c a b)
  have "list_all admitted [a, b]" using typed_Eq.prems by (intro admitted_args(1))
  then have "list_all2 (norm_ok E c ch) [a, b] [t, t]" for ch using typed_Eq.IH typed_Eq.prems(1) by simp
  then show ?case
    using typed_Eq.hyps typed_Eq.prems
    by (intro norm_ok_prim [OF E, where us = "[t, t]"]) (simp_all add: prim_rule_def)
next
  case (typed_Ctor h ts cs i c as)
  have "list_all admitted as" using typed_Ctor.prems by (auto dest: admitted_args(2))
  then have "list_all2 (norm_ok E c '''') as (instCtorFields (DData (length ts) cs) h ts i)"
    using typed_Ctor.IH typed_Ctor.prems(1) by (auto simp: list_all2_conv_all_nth list_all_length)
  then obtain rs where rs: "map (eNorm E c '''') as = zip as rs" "map fst (zip as rs) = as"
    "map (fst \<circ> snd) (zip as rs) = map fst rs" "equs E c as (map fst rs) (instCtorFields (DData (length ts) cs) h ts i)"
    "list_all trm_canon (map fst rs)" "length (map fst rs) = length as"
    "sum_list (map trm_nodes (map fst rs)) \<le> sum_list (map trm_nodes as)"
    by (rule norm_ok_args)
  have "eNorm E c ch (Ctor h i ts as) = (Ctor h i ts as, Ctor h i ts (map fst rs), False)"
    unfolding eNorm.simps Let_def rs(1-3) ..
  then show ?case using rs(4-) typed_Ctor.prems typed_Ctor.hyps
    by (intro norm_okI [where t' = "Ctor h i ts (map fst rs)"] equ_Ctor [OF E]) (auto simp: admitted_def)
next
  case (typed_Record ns as c us)
  have "list_all admitted as" using typed_Record.prems by (auto dest: admitted_args(3))
  then have "list_all2 (norm_ok E c '''') as us"
    using typed_Record.IH typed_Record.prems(1) by (auto simp: list_all2_conv_all_nth list_all_length)
  then obtain rs where rs: "map (eNorm E c '''') as = zip as rs" "map fst (zip as rs) = as"
    "map (fst \<circ> snd) (zip as rs) = map fst rs" "equs E c as (map fst rs) us"
    "list_all trm_canon (map fst rs)" "length (map fst rs) = length as"
    "sum_list (map trm_nodes (map fst rs)) \<le> sum_list (map trm_nodes as)"
    by (rule norm_ok_args)
  have "eNorm E c ch (Record ns as) = (Record ns as, Record ns (map fst rs), False)"
    unfolding eNorm.simps Let_def rs(1-3) ..
  moreover have "length ns = length us" using typed_Record.hyps equsD(5) [OF rs(4)] by simp
  ultimately show ?case using rs(4-) typed_Record.prems typed_Record.hyps
    by (intro norm_okI [where t' = "Record ns (map fst rs)"] equ_Record) (auto simp: admitted_def)
next
  case (typed_Field c a ns ts f u)
  obtain a' where a: "eNorm E c '''' a = (a, a', False)" "equ E c a a' (TRecord ns ts)" "admitted a'" "trm_nodes a' \<le> trm_nodes a"
    using typed_Field admitted_sub(5) by (blast elim: norm_okE)
  have "wfT E (TRecord ns ts)"
    using typed_wf [OF typed_Field.hyps(1)] typed_Field.prems E by (simp add: sound_env_def)
  then show ?case
    using a typed_Field by (intro norm_okI [where t' = "Field a' f"] equ_Field [of ns ts]) (auto simp: admitted_def)
next
  case (typed_Match c a g ts h d arms u)
  have wf: "wfT E (TData g ts)" using typed_wf [OF typed_Match.hyps(1)] typed_Match.prems E by (simp add: sound_env_def)
  have st: "store_wf (est E)" using E by (simp add: sound_env_def checked_wf)
  obtain cs where cs: "d = DData (length ts) cs"
    using wf typed_Match.hyps(3) by (auto split: def.splits)
  have h: "h = g" using typed_Match.hyps typed_Match.prems(2) by (auto simp: admitted_def hash_ok_def)
  obtain a' where a: "eNorm E c '''' a = (a, a', False)" "equ E c a a' (TData g ts)" "admitted a'" "trm_nodes a' \<le> trm_nodes a"
    using typed_Match.IH(1) typed_Match.prems admitted_args(4) by (blast elim: norm_okE)
  let ?fs = "instCtorFields d g ts"
  have arm: "norm_ok E (pushAll c (?fs i)) '''' (arms ! i) u" if i: "i < length arms" for i
  proof -
    have "list_all (wfT E) (?fs i)"
      using instCtorFields_wf [of "est E" g ts cs i "etv E"] st typed_Match.hyps i cs wf by (simp add: ctors_of_def)
    moreover have "admitted (arms ! i)"
      using admitted_args(4) [OF typed_Match.prems(2)] i by (simp add: list_all_length)
    ultimately show ?thesis
      using list_all2_nthD2 [OF typed_Match.IH(2)] i typed_Match.prems(1) by simp
  qed
  define arms' where "arms' = map (\<lambda>i. fst (snd (eNorm E (pushAll c (?fs i)) '''' (arms ! i)))) [0..<length arms]"
  have arms: "eNorm E (pushAll c (?fs i)) '''' (arms ! i) = (arms ! i, arms' ! i, False)"
    "equ E (pushAll c (?fs i)) (arms ! i) (arms' ! i) u" "admitted (arms' ! i)" "trm_nodes (arms' ! i) \<le> trm_nodes (arms ! i)"
    if i: "i < length arms" for i
  proof -
    obtain x where x: "eNorm E (pushAll c (?fs i)) '''' (arms ! i) = (arms ! i, x, False)"
      "equ E (pushAll c (?fs i)) (arms ! i) x u" "admitted x" "trm_nodes x \<le> trm_nodes (arms ! i)"
      using arm [OF i] by (rule norm_okE)
    have "arms' ! i = x" using x(1) i by (simp add: arms'_def)
    with x show "eNorm E (pushAll c (?fs i)) '''' (arms ! i) = (arms ! i, arms' ! i, False)"
      "equ E (pushAll c (?fs i)) (arms ! i) (arms' ! i) u" "admitted (arms' ! i)" "trm_nodes (arms' ! i) \<le> trm_nodes (arms ! i)"
      by simp_all
  qed
  have len: "length arms' = length arms" by (simp add: arms'_def)
  have nd: "sum_list (map trm_nodes arms') \<le> sum_list (map trm_nodes arms)"
    using arms(4) len by (intro sum_nodes_le) auto
  have "eNorm E c ch (Match h a arms) = (Match h a arms, Match h a' arms', False)"
  proof -
    let ?gs = "\<lambda>i. if i < length (ctors_of d) then ?fs i else []"
    have get: "GetDef (est E) h = Inr d" using typed_Match.hyps(3) h by (simp add: GetDef_def)
    have m: "map (\<lambda>(x, us). eNorm E (pushAll c us) '''' x) (zip arms (map ?gs [0..<length arms])) =
        zip arms (map (\<lambda>x. (x, False)) arms')"
      using arms(1) len typed_Match.hyps(4) by (intro nth_equalityI) auto
    have s: "map fst (zip arms (map (\<lambda>x. (x, False)) arms')) = arms"
      "map (fst \<circ> snd) (zip arms (map (\<lambda>x. (x, False)) arms')) = arms'"
      using len by (simp_all add: map_zip_map2 [symmetric] list_eq_iff_nth_eq)
    show ?thesis
      unfolding eNorm.simps Let_def a(1) prod.case msynth_typed [OF typed_Match.hyps(1)] option.case ty.case
        get sum.case m s ..
  qed
  moreover have "equ E c (Match h a arms) (Match h a' arms') u"
    using arms(2) len typed_Match.hyps by (intro equ_Match [OF E a(2) wf]) auto
  moreover have "admitted (Match h a' arms') \<and> trm_nodes (Match h a' arms') \<le> trm_nodes (Match h a arms)"
    using a(3,4) arms(3) len nd typed_Match.prems(2) by (auto simp: admitted_def list_all_length)
  ultimately show ?case by (intro norm_okI [where t' = "Match h a' arms'"]) simp_all
qed (rule norm_ok_leaf [OF E]; auto intro: typed.intros)+

subsection \<open>Calls\<close>

lemma norm_ok_equ:
  assumes "norm_ok E c '''' t u"
  shows "equ E c t (eNormalize E c t) u \<and> admitted (eNormalize E c t) \<and> trm_nodes (eNormalize E c t) \<le> trm_nodes t"
  using assms by (auto simp: norm_ok_def norm_res_def eNormalize_def)

text \<open>A function value at a list of arguments.\<close>

fun aps :: "store \<Rightarrow> val \<Rightarrow> val list \<Rightarrow> val \<Rightarrow> bool" where
  "aps st g [] v = (v = g)"
| "aps st g (y # ys) v = (\<exists>k w. ap st k g y w \<and> aps st w ys v)"

lemma refines_apply_all: "d \<le> d' \<Longrightarrow> refines_ev (apply_all (eval d st) g as) (apply_all (eval d' st) g as)"
  by (induction as arbitrary: g) (auto intro!: refines_bind refines_apply refines_from eval_refines)

lemma aps_runs: "aps st g as v \<Longrightarrow> \<exists>d. runs (apply_all (eval d st) g as) v"
proof (induction as arbitrary: g)
  case (Cons y ys)
  then obtain k w where "ap st k g y w" "aps st w ys v" by auto
  then obtain d where "ap st k g y w" and d: "runs (apply_all (eval d st) w ys) v" using Cons.IH by blast
  then obtain e where e: "runs (apply_val (eval e st) g y) w" using ap_runs by blast
  let ?m = "max d e"
  have "runs (apply_val (eval ?m st) g y) w" by (rule runs_apply_mono [OF e]) simp
  moreover have "runs (apply_all (eval ?m st) w ys) v" by (rule runs_refines [OF refines_apply_all d]) simp
  ultimately have "runs (apply_all (eval ?m st) g (y # ys)) v"
    unfolding apply_all.simps by (intro runs_bindI refines_apply refines_apply_all refl_evs) simp_all
  then show ?case by blast
qed simp

lemma runs_aps: "runs (apply_all (eval d st) g as) v \<Longrightarrow> plain g \<Longrightarrow> list_all plain as \<Longrightarrow> aps st g as v"
proof (induction as arbitrary: g)
  case (Cons y ys)
  then obtain w where w: "runs (apply_val (eval d st) g y) w" "runs (apply_all (eval d st) w ys) v"
    by (auto elim: runs_bindE)
  then obtain k where k: "ap st k g y w" using runs_apply_bs [OF runs_bs] Cons.prems by fastforce
  then have "plain w" using ap_plain Cons.prems by fastforce
  then show ?case using k w(2) Cons by auto
qed simp

lemma runs_call:
  assumes "list_all plain as"
  shows "(\<exists>d. runs (ebind (eval d st [] h b) (\<lambda>g. apply_all (eval d st) g as)) v) \<longleftrightarrow>
    (\<exists>k g. bs st k [] h b g \<and> aps st g as v)"
proof
  assume "\<exists>d. runs (ebind (eval d st [] h b) (\<lambda>g. apply_all (eval d st) g as)) v"
  then obtain d g where g: "runs (eval d st [] h b) g" "runs (apply_all (eval d st) g as) v"
    by (auto elim: runs_bindE)
  then obtain k where k: "bs st k [] h b g" using runs_bs by fastforce
  moreover have "plain g" using bs_plain [OF k] by simp
  ultimately show "\<exists>k g. bs st k [] h b g \<and> aps st g as v" using runs_aps [OF g(2)] assms by blast
next
  assume "\<exists>k g. bs st k [] h b g \<and> aps st g as v"
  then obtain d g e where g: "runs (eval d st [] h b) g" "runs (apply_all (eval e st) g as) v"
    using bs_runs aps_runs by blast
  let ?m = "max d e"
  have "runs (eval ?m st [] h b) g" by (rule runs_eval_mono [OF g(1)]) simp
  moreover have "runs (apply_all (eval ?m st) g as) v" by (rule runs_refines [OF refines_apply_all g(2)]) simp
  ultimately have "runs (ebind (eval ?m st [] h b) (\<lambda>g. apply_all (eval ?m st) g as)) v"
    by (intro runs_bindI refl_eval refines_apply_all) simp_all
  then show "\<exists>d. runs (ebind (eval d st [] h b) (\<lambda>g. apply_all (eval d st) g as)) v" by blast
qed

lemma instT_funs: "instT s (funs ps r) = funs (map (instT s) ps) (instT s r)"
  by (induction ps) simp_all

lemma V_aps:
  assumes st: "store_checked st"
  shows "(\<And>n. V st n (funs ps r) g g') \<Longrightarrow> list_all2 (vty st) as ps \<Longrightarrow> list_all plain as \<Longrightarrow> aps st g as v \<Longrightarrow>
    \<exists>v'. aps st g' as v' \<and> (\<forall>n. V st n r v v')"
proof (induction ps arbitrary: g g' as)
  case (Cons p ps)
  then obtain y ys k w where y: "as = y # ys" "vty st y p" "plain y" "ap st k g y w" "aps st w ys v"
    "list_all2 (vty st) ys ps" "list_all plain ys" by (cases as) auto
  have "\<exists>k' w'. ap st k' g' y w' \<and> V st n (funs ps r) w w'" for n
    using V_apply [OF _ V_refl [OF st y(2,3)] y(4), of "n + k" "funs ps r" g'] Cons.prems(1) by fastforce
  then obtain k' w' where w': "ap st k' g' y w'" "\<And>n. V st n (funs ps r) w w'" using ap_det by metis
  then show ?case using Cons.IH [OF w'(2) y(6,7,5)] y(1) by auto
qed simp

text \<open>Bodies related for every number of calls, then, return the same data.\<close>

lemma body_rel_calls:
  assumes st: "store_checked st" and r: "\<And>j. body_rel st j n (funs ps u) h b h' b'" and s: "length s = n" "list_all norec s"
    and as: "list_all2 (vty st) as (map (instT s) ps)" "list_all plain as"
    and v: "bs st k [] h b g" "aps st g as v" "first_order v"
  shows "\<exists>k g. bs st k [] h' b' g \<and> aps st g as v"
proof -
  have "\<exists>k' g'. bs st k' [] h' b' g' \<and> V st i (instT s (funs ps u)) g g'" for i
    using body_relD [OF r s _ v(1), of "i + k"] by simp
  then obtain k' g' where g: "bs st k' [] h' b' g'" "\<And>i. V st i (funs (map (instT s) ps) (instT s u)) g g'"
    using bs_det by (metis instT_funs)
  then obtain v' where "aps st g' as v'" "V st 0 (instT s u) v v'" using V_aps [OF st g(2) as v(2)] by blast
  then show ?thesis using g(1) vrel_first_order v(3) by blast
qed

text \<open>
  Two definitions of a type whose bodies are equivalent: induction on the calls, since
  \<^verbatim>\<open>self\<close> is the one definition in the one body and the other in the other.
\<close>

lemma equ_bodies:
  assumes st: "store_checked st" and h: "map_of (sdefs st) h = Some (DFunc n t b ps)" "map_of (sdefs st) h' = Some (DFunc n t b' ps')"
    and e: "equ \<lparr>est = st, etv = n, eself = Some t\<rparr> [] b b' t"
  shows "body_rel st j n t h b h' b'"
proof (induction j rule: less_induct)
  case (less m)
  let ?E = "\<lparr>est = st, etv = n, eself = Some t\<rparr>"
  show ?case
    unfolding body_rel_def
  proof (intro allI impI)
    fix s k v
    assume s: "length s = n" "list_all norec s" and k: "k \<le> m" and v: "bs st k [] h b v"
    have "h \<noteq> ''''" "h' \<noteq> ''''" using st h by (auto simp: store_checked_def)
    then have "sref st m ?E h h'" using h less.IH by (simp add: sref_def)
    then have "frame st m ?E [] s h h' [] []"
      using s def_body_typed(2) [OF st h(1)] by (simp add: frame_def inst_def)
    from apxD [OF _ this v order_refl k] equD(3) [OF e, of m]
    show "\<exists>k' v'. bs st k' [] h' b' v' \<and> V st (m - k) (instT s t) v v'" by simp
  qed
qed

lemma equ_body:
  assumes st: "store_checked st" and h: "map_of (sdefs st) h = Some (DFunc n t b ps)"
    and e: "equ \<lparr>est = st, etv = n, eself = Some t\<rparr> [] a a' t"
  shows "body_rel st j n t h a h a'"
  unfolding body_rel_def
proof (intro allI impI)
  fix s k v
  assume s: "length s = n" "list_all norec s" and k: "k \<le> j" and v: "bs st k [] h a v"
  have "frame st j \<lparr>est = st, etv = n, eself = Some t\<rparr> [] s h h [] []"
    using frame_nil [OF st bodies_all [OF st], of h s t b ps] h s by simp
  from apxD [OF _ this v order_refl k] equD(3) [OF e, of j]
  show "\<exists>k' v'. bs st k' [] h a' v' \<and> V st (j - k) (instT s t) v v'" by simp
qed

lemma equ_sym: "equ E c t t' u \<Longrightarrow> equ E c t' t u"
  by (auto simp: equ_def)

lemma sound_def_env:
  assumes "store_checked st" "map_of (sdefs st) h = Some (DFunc n t b ps)"
  shows "sound_env \<lparr>est = st, etv = n, eself = Some t\<rparr>"
  using assms def_body_typed(2) [OF assms] by (simp add: sound_env_def)

lemma normal_body:
  assumes st: "store_checked st" and h: "map_of (sdefs st) h = Some (DFunc n t b ps)" and a: "trm_canon b" "trm_nodes b \<le> maxCanonicalNodes"
  defines "E \<equiv> \<lparr>est = st, etv = n, eself = Some t\<rparr>"
  shows "equ E [] b (eNormalize E [] b) t \<and> trm_nodes (eNormalize E [] b) \<le> trm_nodes b"
proof -
  have "norm_ok E [] '''' b t"
    using def_body_typed(1) [OF st h] a sound_def_env [OF st h]
    by (intro norm_sound) (simp_all add: E_def admitted_def)
  from norm_ok_equ [OF this] show ?thesis by blast
qed

lemma call_runs:
  assumes "map_of (sdefs st) h = Some (DFunc n t b ps)" "list_all plain as"
  shows "(\<exists>d f f'. call st (eval d st) h as f = (Inr v, f')) \<longleftrightarrow> (\<exists>k g. bs st k [] h b g \<and> aps st g as v)"
  using runs_call [OF assms(2), of st h b v] assms(1)
  by (simp add: runs_def call_def eval_def_def GetDef_def)

lemma normal_calls:
  assumes st: "store_checked st" and h: "map_of (sdefs st) h = Some (DFunc (length s) (funs ps r) b qs)" and s: "list_all norec s"
    and a: "trm_canon b" "trm_nodes b \<le> maxCanonicalNodes"
    and as: "list_all2 (vty st) as (map (instT s) ps)" "list_all plain as" and v: "first_order v"
  defines "E \<equiv> \<lparr>est = st, etv = length s, eself = Some (funs ps r)\<rparr>"
  shows "typed E [] (eNormalize E [] b) (funs ps r) \<and> trm_nodes (eNormalize E [] b) \<le> trm_nodes b \<and>
    ((\<exists>d f f'. call st (eval d st) h as f = (Inr v, f')) \<longleftrightarrow>
     (\<exists>d f f'. ebind (eval d st [] h (eNormalize E [] b)) (\<lambda>g. apply_all (eval d st) g as) f = (Inr v, f')))"
proof -
  note e = normal_body [OF st h a, folded E_def]
  have rel: "body_rel st j (length s) (funs ps r) h b h (eNormalize E [] b)"
    "body_rel st j (length s) (funs ps r) h (eNormalize E [] b) h b" for j
    using equ_body [OF st h] e equ_sym unfolding E_def by blast+
  have "(\<exists>k g. bs st k [] h b g \<and> aps st g as v) \<longleftrightarrow> (\<exists>k g. bs st k [] h (eNormalize E [] b) g \<and> aps st g as v)"
    using body_rel_calls [OF st rel(1) refl s as _ _ v] body_rel_calls [OF st rel(2) refl s as _ _ v] by blast
  then show ?thesis
    using e equD(2) call_runs [OF h as(2)] runs_call [OF as(2), of st h "eNormalize E [] b" v]
    by (auto simp: runs_def)
qed

lemma equal_normal_calls:
  assumes st: "store_checked st" and h: "map_of (sdefs st) h = Some (DFunc (length s) (funs ps r) b qs)"
    and h': "map_of (sdefs st) h' = Some (DFunc (length s) (funs ps r) b' qs')" and s: "list_all norec s"
    and a: "trm_canon b" "trm_nodes b \<le> maxCanonicalNodes" and a': "trm_canon b'" "trm_nodes b' \<le> maxCanonicalNodes"
    and as: "list_all2 (vty st) as (map (instT s) ps)" "list_all plain as" and v: "first_order v"
  defines "E \<equiv> \<lparr>est = st, etv = length s, eself = Some (funs ps r)\<rparr>"
  assumes n: "eNormalize E [] b = eNormalize E [] b'"
  shows "(\<exists>d f f'. call st (eval d st) h as f = (Inr v, f')) \<longleftrightarrow> (\<exists>d f f'. call st (eval d st) h' as f = (Inr v, f'))"
proof -
  have "equ E [] b b' (funs ps r)"
    using normal_body [OF st h a] normal_body [OF st h' a'] n st
    by (intro equ_trans [of E "[]" b "eNormalize E [] b" "funs ps r" b']) (auto simp: E_def intro: equ_sym)
  then have rel: "body_rel st j (length s) (funs ps r) h b h' b'" "body_rel st j (length s) (funs ps r) h' b' h b" for j
    using equ_bodies [OF st h h'] equ_bodies [OF st h' h] equ_sym unfolding E_def by blast+
  show ?thesis
    unfolding call_runs [OF h as(2)] call_runs [OF h' as(2)]
    using body_rel_calls [OF st rel(1) refl s as _ _ v] body_rel_calls [OF st rel(2) refl s as _ _ v] by blast
qed

end
