(* ===== verification/ChainAlg.thy ===== *)
theory ChainAlg
  imports NormSound
begin

text \<open>
  Sums and products of integers and of rationals, as chains of a binary primitive: up to
  equivalence of terms they do not depend on order or grouping, and products distribute over
  sums. The two laws need both primitives: a locale over two chains, with its two instances.
\<close>

subsection \<open>Values of chains\<close>

context ac_prim
begin

lemma tot_det:
  assumes B: "\<And>l a b. B l (mk a) \<Longrightarrow> B l (mk b) \<Longrightarrow> a = b"
  shows "tot B mk f e ls y \<Longrightarrow> tot B mk f e ls z \<Longrightarrow> y = z"
proof (induction ls arbitrary: y z)
  case (Cons l ls)
  then show ?case using B by simp metis
qed simp

lemma same_chains:
  assumes E: "sound_env E" and as: "as \<noteq> []" "\<forall>t \<in> set as. typed E c t K" and bs': "bs' \<noteq> []" "\<forall>t \<in> set bs'. typed E c t K"
    and v: "\<And>B z. evaluates E c B \<Longrightarrow> tot B mk f e as z \<longleftrightarrow> tot B mk f e bs' z"
  shows "same E c (rechain op as) (rechain op bs')"
  unfolding same_def
proof (intro allI impI)
  fix s h env k v
  assume s: "scope (est E) E c s h env"
  have B: "evaluates E c (bs (est E) k env h)"
    using E s by (intro bs_evaluates) (simp_all add: sound_env_def)
  show "bs (est E) k env h (rechain op as) v = bs (est E) k env h (rechain op bs') v"
    using chain_tot [OF B as] chain_tot [OF B bs'] assms(6) [OF B] by simp
qed

lemma equ_chains:
  assumes E: "sound_env E" "ctx_wf E c" and as: "as \<noteq> []" "\<forall>t \<in> set as. typed E c t K" and bs': "bs' \<noteq> []" "\<forall>t \<in> set bs'. typed E c t K"
    and v: "\<And>B z. evaluates E c B \<Longrightarrow> tot B mk f e as z \<longleftrightarrow> tot B mk f e bs' z"
  shows "equ E c (rechain op as) (rechain op bs') K"
  by (intro equ_same [OF E] same_chains [OF E(1)] chain_typed as bs') (rule v)

lemma equ_perm:
  "sound_env E \<Longrightarrow> ctx_wf E c \<Longrightarrow> as \<noteq> [] \<Longrightarrow> \<forall>t \<in> set as. typed E c t K \<Longrightarrow> mset as = mset bs' \<Longrightarrow>
   equ E c (rechain op as) (rechain op bs') K"
  using mset_eq_setD [of as bs'] by (intro equ_chains) (auto intro!: tot_perm)

lemma tot_chain:
  assumes "evaluates E c B" "ls \<noteq> []" "\<forall>t \<in> set ls. typed E c t K"
  shows "B (rechain op ls) (mk z) \<longleftrightarrow> tot B mk f e ls z"
  using chain_tot [OF assms] by (simp add: mk_eq)

lemma equ_flat:
  assumes "sound_env E" "ctx_wf E c" "us \<noteq> []" and t: "\<forall>t \<in> set us. typed E c t K" "\<forall>t \<in> set ts. typed E c t K"
  shows "equ E c (rechain op (rechain op us # ts)) (rechain op (us @ ts)) K"
proof (rule equ_chains [OF assms(1,2)])
  show "tot B mk f e (rechain op us # ts) z \<longleftrightarrow> tot B mk f e (us @ ts) z" if "evaluates E c B" for B z
    using tot_chain [OF that assms(3) t(1)] by (simp add: tot_append)
  show "\<forall>t \<in> set (rechain op us # ts). typed E c t K" using t assms(3) chain_typed by simp
qed (use assms in auto)

lemma equ_leaves:
  assumes "sound_env E" "ctx_wf E c" and t: "typed E c t K"
  shows "equ E c (rechain op (ac_leaves op t)) t K"
proof -
  have "equ E c (rechain op (ac_leaves op t)) (rechain op [t]) K"
    using t leaves_nonempty [of op t] leaves_typed [OF refl t]
    by (intro equ_chains [OF assms(1,2)]) (simp_all add: tot_leaves unit')
  then show ?thesis by simp
qed

lemma equ_acRebuild:
  assumes "sound_env E" "ctx_wf E c" and i: "op \<notin> idempotentPrims" and ls: "ls \<noteq> []" "\<forall>t \<in> set ls. typed E c t K"
  shows "equ E c (rechain op ls) (acRebuild op ls) K"
proof -
  let ?ds = "acDropUnits op ls"
  have ds: "?ds \<noteq> []" "set ?ds \<subseteq> set ls" using drop_units [OF ls(1)] by auto
  have "tot B mk f e ls z \<longleftrightarrow> tot B mk f e (sort_key key ?ds) z" if B: "evaluates E c B" for B z
  proof -
    have "tot B mk f e ls z \<longleftrightarrow> tot B mk f e ?ds z" using tot_drop [OF B ls(2,1)] by simp
    also have "\<dots> \<longleftrightarrow> tot B mk f e (sort_key key ?ds) z" by (rule tot_perm) simp
    finally show ?thesis .
  qed
  then have "equ E c (rechain op ls) (rechain op (sort_key key ?ds)) K"
    using ls ds by (intro equ_chains [OF assms(1,2)]) auto
  then show ?thesis using i by (simp add: acRebuild_def Let_def)
qed

end

subsection \<open>Products over sums\<close>

locale ring_ops = plus: ac_prim "''+''" K mk p z0 + times: ac_prim "''*''" K mk m z1
  for K :: ty and mk :: "'a \<Rightarrow> val" and p :: "'a \<Rightarrow> 'a \<Rightarrow> 'a" and z0 :: 'a and m :: "'a \<Rightarrow> 'a \<Rightarrow> 'a" and z1 :: 'a +
  assumes distrib: "m (p x y) w = p (m x w) (m y w)"
begin

lemma tot_distrib:
  assumes B: "plus.evaluates E c B" "times.evaluates E c B" and t: "\<forall>t \<in> set us. typed E c t K" "\<forall>t \<in> set ts. typed E c t K"
  shows "us \<noteq> [] \<Longrightarrow> tot B mk m z1 (rechain ''+'' us # ts) z \<longleftrightarrow>
    tot B mk p z0 (map (\<lambda>u. rechain ''*'' (u # ts)) us) z"
proof -
  have det: "B l (mk a) \<Longrightarrow> B l (mk b) \<Longrightarrow> a = b" for l a b
    using B plus.mk_eq unfolding plus.evaluates_def by metis
  have one: "B (rechain ''*'' (u # ts)) (mk x) \<longleftrightarrow> (\<exists>a b. B u (mk a) \<and> tot B mk m z1 ts b \<and> x = m a b)"
    if "typed E c u K" for u x
    using times.tot_chain [OF B(2), of "u # ts"] that t by simp
  have "(\<exists>a b. tot B mk p z0 us a \<and> tot B mk m z1 ts b \<and> z = m a b) \<longleftrightarrow>
      tot B mk p z0 (map (\<lambda>u. rechain ''*'' (u # ts)) us) z" if "us \<noteq> []" for z
    using that t(1)
  proof (induction us arbitrary: z rule: list_nonempty_induct)
    case (single u)
    then show ?case using one [of u] by (simp add: plus.unit')
  next
    case (cons u us)
    let ?ps = "map (\<lambda>u. rechain ''*'' (u # ts)) us"
    have IH: "(\<exists>a b. tot B mk p z0 us a \<and> tot B mk m z1 ts b \<and> z = m a b) \<longleftrightarrow> tot B mk p z0 ?ps z" for z
      using cons by simp
    have u: "B (rechain ''*'' (u # ts)) (mk x) \<longleftrightarrow> (\<exists>a b. B u (mk a) \<and> tot B mk m z1 ts b \<and> x = m a b)" for x
      using one cons by simp
    have "(\<exists>a b. tot B mk p z0 (u # us) a \<and> tot B mk m z1 ts b \<and> z = m a b) \<longleftrightarrow>
      (\<exists>x y b. B u (mk x) \<and> tot B mk p z0 us y \<and> tot B mk m z1 ts b \<and> z = p (m x b) (m y b))"
      by simp (metis distrib)
    also have "\<dots> \<longleftrightarrow> (\<exists>x y. B (rechain ''*'' (u # ts)) (mk x) \<and> tot B mk p z0 ?ps y \<and> z = p x y)"
    proof (intro iffI; elim exE conjE)
      fix x y b
      assume "B u (mk x)" "tot B mk p z0 us y" "tot B mk m z1 ts b" "z = p (m x b) (m y b)"
      moreover from this have "tot B mk p z0 ?ps (m y b)" using IH by blast
      ultimately show "\<exists>x y. B (rechain ''*'' (u # ts)) (mk x) \<and> tot B mk p z0 ?ps y \<and> z = p x y"
        using u by blast
    next
      fix x' y'
      assume "B (rechain ''*'' (u # ts)) (mk x')" "tot B mk p z0 ?ps y'" and z: "z = p x' y'"
      then obtain x b y b' where r: "B u (mk x)" "tot B mk m z1 ts b" "x' = m x b"
        "tot B mk p z0 us y" "tot B mk m z1 ts b'" "y' = m y b'" using u IH by meson
      have "b' = b" by (rule times.tot_det [OF det r(5,2)])
      with r z show "\<exists>x y b. B u (mk x) \<and> tot B mk p z0 us y \<and> tot B mk m z1 ts b \<and> z = p (m x b) (m y b)"
        by blast
    qed
    finally show ?case by simp
  qed
  moreover assume "us \<noteq> []"
  ultimately show ?thesis using plus.tot_chain [OF B(1) _ t(1)] by simp
qed

lemma equ_distrib:
  assumes E: "sound_env E" "ctx_wf E c" and us: "us \<noteq> []" and t: "\<forall>t \<in> set us. typed E c t K" "\<forall>t \<in> set ts. typed E c t K"
  shows "equ E c (rechain ''*'' (rechain ''+'' us # ts)) (rechain ''+'' (map (\<lambda>u. rechain ''*'' (u # ts)) us)) K"
proof (rule equ_same [OF E])
  have s: "typed E c (rechain ''+'' us) K" using plus.chain_typed us t by simp
  have ps: "\<forall>x \<in> set (map (\<lambda>u. rechain ''*'' (u # ts)) us). typed E c x K"
    using times.chain_typed [of "_ # ts"] t by auto
  show "typed E c (rechain ''*'' (rechain ''+'' us # ts)) K" using s t by (intro times.chain_typed) simp_all
  show "typed E c (rechain ''+'' (map (\<lambda>u. rechain ''*'' (u # ts)) us)) K" using ps us by (intro plus.chain_typed) simp_all
  show "same E c (rechain ''*'' (rechain ''+'' us # ts)) (rechain ''+'' (map (\<lambda>u. rechain ''*'' (u # ts)) us))"
    unfolding same_def
  proof (intro allI impI)
    fix s' h env k v
    assume sc: "scope (est E) E c s' h env"
    have st: "store_checked (est E)" using E by (simp add: sound_env_def)
    note B = plus.bs_evaluates [OF st sc, of k] times.bs_evaluates [OF st sc, of k]
    show "bs (est E) k env h (rechain ''*'' (rechain ''+'' us # ts)) v =
        bs (est E) k env h (rechain ''+'' (map (\<lambda>u. rechain ''*'' (u # ts)) us)) v"
      using times.chain_tot [OF B(2), of "rechain ''+'' us # ts" v] plus.chain_tot [OF B(1) _ ps, of v]
        tot_distrib [OF B t us] us s t by simp
  qed
qed

end

interpretation int_ring: ring_ops TInt VInt "(+)" 0 "(*)" 1
  by unfold_locales (simp add: distrib_right)

interpretation rat_ring: ring_ops TRat VRat "(+)" 0 "(*)" 1
  by unfold_locales (simp add: distrib_right)

end
