(* ===== verification/Egraph.thy ===== *)
theory Egraph
  imports Normalize Meta
begin

text \<open>
  \<^verbatim>\<open>oath/egraph.go\<close>: the bounded e-graph that \<^verbatim>\<open>eHash\<close> runs on a normalized body, for
  distributivity over \<^verbatim>\<open>Int\<close> and \<^verbatim>\<open>Rat\<close>, and \<^verbatim>\<open>eHash\<close> of \<^verbatim>\<open>oath/canon.go\<close>.

  Loops that return early are recursions whose last result says whether to go on. The map
  \<^verbatim>\<open>cons\<close> is a function; \<^verbatim>\<open>tags\<close>, keyed by node pointers, is the term with a tag at each node.
  \<^verbatim>\<open>find\<close> does not shorten paths, which no result depends on; \<^verbatim>\<open>cloneTerm\<close> is the identity on
  values; the counter \<^verbatim>\<open>fired\<close>, read by tests only, is left out.
\<close>

subsection \<open>Child slots\<close>

fun egSlots :: "trm \<Rightarrow> trm list" where
  "egSlots (Lam p b) = [b]"
| "egSlots (Field a f) = [a]"
| "egSlots (App f a) = [f, a]"
| "egSlots (Let p a b) = [a, b]"
| "egSlots (If a b d) = [a, b, d]"
| "egSlots (Prim op as) = as"
| "egSlots (Ctor h i ts as) = as"
| "egSlots (Record ns as) = as"
| "egSlots (Match h a arms) = a # arms"
| "egSlots t = []"

text \<open>The term with the given children in its slots.\<close>

fun egFill :: "trm \<Rightarrow> trm list \<Rightarrow> trm" where
  "egFill (Lam p b) ks = Lam p (ks ! 0)"
| "egFill (Field a f) ks = Field (ks ! 0) f"
| "egFill (App f a) ks = App (ks ! 0) (ks ! 1)"
| "egFill (Let p a b) ks = Let p (ks ! 0) (ks ! 1)"
| "egFill (If a b d) ks = If (ks ! 0) (ks ! 1) (ks ! 2)"
| "egFill (Prim op as) ks = Prim op (map ((!) ks) [0..<length as])"
| "egFill (Ctor h i ts as) ks = Ctor h i ts (map ((!) ks) [0..<length as])"
| "egFill (Record ns as) ks = Record ns (map ((!) ks) [0..<length as])"
| "egFill (Match h a arms) ks = Match h (ks ! 0) (map (\<lambda>i. ks ! Suc i) [0..<length arms])"
| "egFill t ks = t"

definition egHole :: trm where
  "egHole = BoolL False"

definition egShape :: "trm \<Rightarrow> trm" where
  "egShape t = egFill t (replicate (length (egSlots t)) egHole)"

subsection \<open>The graph\<close>

record egnode =
  nsym :: bytes
  ntmpl :: "trm option"
  nac :: bool
  nop :: string
  nargs :: "nat list"

record egbudget =
  bnodes :: nat
  biters :: nat

definition egDefaultBudget :: egbudget where
  "egDefaultBudget = \<lparr>bnodes = 8192, biters = 12\<rparr>"

definition egMaxTermNodes :: nat where
  "egMaxTermNodes = 2048"

record egraph =
  gparent :: "nat list"
  gnodes :: "egnode list"
  gcls :: "nat list"
  gcons :: "bytes \<Rightarrow> nat option"
  gbudget :: egbudget
  gexhausted :: bool

definition newEgraph :: "egbudget \<Rightarrow> egraph" where
  "newEgraph b = \<lparr>gparent = [], gnodes = [], gcls = [], gcons = (\<lambda>_. None), gbudget = b, gexhausted = False\<rparr>"

text \<open>Parents are smaller, so the walk ends; on other tables it stops where they are not.\<close>

function uf_find :: "nat list \<Rightarrow> nat \<Rightarrow> nat" where
  "uf_find p c = (if c < length p \<and> p ! c < c then uf_find p (p ! c) else c)"
  by pat_completeness auto
termination by (relation "measure snd") auto

declare uf_find.simps [simp del]

definition egFind :: "egraph \<Rightarrow> nat \<Rightarrow> nat" where
  "egFind g c = uf_find (gparent g) c"

definition egUnion :: "egraph \<Rightarrow> nat \<Rightarrow> nat \<Rightarrow> egraph \<times> bool" where
  "egUnion g a b =
     (let ra = egFind g a; rb = egFind g b in
      if ra = rb then (g, False)
      else (g\<lparr>gparent := (gparent g)[max ra rb := min ra rb]\<rparr>, True))"

definition egCanon :: "egraph \<Rightarrow> egnode \<Rightarrow> egnode" where
  "egCanon g n = (let as = map (egFind g) (nargs n) in n\<lparr>nargs := if nac n then sort as else as\<rparr>)"

definition egKey :: "egnode \<Rightarrow> bytes" where
  "egKey n = nsym n @ concat (map (\<lambda>a. str_bytes (CHR ''|'' # dec_str a)) (nargs n))"

definition egAdd :: "egraph \<Rightarrow> egnode \<Rightarrow> egraph \<times> nat option" where
  "egAdd g n0 =
     (let n = egCanon g n0 in
      if nac n \<and> length (nargs n) = 1 then (g, Some (nargs n ! 0))
      else
        (case gcons g (egKey n) of
           Some c \<Rightarrow> (g, Some (egFind g c))
         | None \<Rightarrow>
             if bnodes (gbudget g) \<le> length (gnodes g) then (g\<lparr>gexhausted := True\<rparr>, None)
             else
               (let c = length (gparent g) in
                (g\<lparr>gparent := gparent g @ [c], gnodes := gnodes g @ [n], gcls := gcls g @ [c],
                   gcons := (gcons g)(egKey n \<mapsto> c)\<rparr>, Some c))))"

text \<open>One pass of \<^verbatim>\<open>rebuild\<close>, and passes until nothing changes, at most one for each class.\<close>

fun rebuild_pass :: "egraph \<Rightarrow> (bytes \<Rightarrow> nat option) \<Rightarrow> bool \<Rightarrow> nat list \<Rightarrow> egraph \<times> (bytes \<Rightarrow> nat option) \<times> bool" where
  "rebuild_pass g seen ch [] = (g, seen, ch)"
| "rebuild_pass g seen ch (i # is) =
     (let n = egCanon g (gnodes g ! i); c = egFind g (gcls g ! i);
          g1 = g\<lparr>gnodes := (gnodes g)[i := n], gcls := (gcls g)[i := c]\<rparr> in
      case seen (egKey n) of
        Some q \<Rightarrow>
          (let (g2, u) = egUnion g1 q c in
           rebuild_pass g2 (seen(egKey n \<mapsto> egFind g2 q)) (ch \<or> u) is)
      | None \<Rightarrow> rebuild_pass g1 (seen(egKey n \<mapsto> c)) ch is)"

fun rebuild_loop :: "nat \<Rightarrow> egraph \<Rightarrow> egraph" where
  "rebuild_loop 0 g = g"
| "rebuild_loop (Suc k) g =
     (let (g1, seen, ch) = rebuild_pass g (\<lambda>_. None) False [0..<length (gnodes g)] in
      if ch then rebuild_loop k g1 else g1\<lparr>gcons := seen\<rparr>)"

definition egRebuild :: "egraph \<Rightarrow> egraph" where
  "egRebuild g = rebuild_loop (Suc (length (gparent g))) g"

definition egMembers :: "egraph \<Rightarrow> (nat \<times> nat list) list" where
  "egMembers g =
     (let cs = map (egFind g) (gcls g) in
      map (\<lambda>c. (c, filter (\<lambda>i. cs ! i = c) [0..<length (gnodes g)])) (sort (remdups cs)))"

definition roundIndex :: "egraph \<Rightarrow> nat \<Rightarrow> nat list" where
  "roundIndex g c = (let cs = map (egFind g) (gcls g) in filter (\<lambda>i. cs ! i = c) [0..<length (gnodes g)])"

definition egACSym :: "string \<Rightarrow> string \<Rightarrow> bytes" where
  "egACSym op tag = str_bytes (''a|'' @ op @ ''|'' @ tag)"

definition ac_node :: "bytes \<Rightarrow> string \<Rightarrow> nat list \<Rightarrow> egnode" where
  "ac_node s op as = \<lparr>nsym = s, ntmpl = None, nac = True, nop = op, nargs = as\<rparr>"

subsection \<open>The rules\<close>

fun flat_mids :: "egraph \<Rightarrow> egnode \<Rightarrow> nat \<Rightarrow> nat \<Rightarrow> bool \<Rightarrow> nat list \<Rightarrow> egraph \<times> bool \<times> bool" where
  "flat_mids g n i cls ch [] = (g, ch, True)"
| "flat_mids g n i cls ch (mid # ms) =
     (let m = gnodes g ! mid in
      if nsym m \<noteq> nsym n then flat_mids g n i cls ch ms
      else
        (case egAdd g (ac_node (nsym n) (nop n) (take i (nargs n) @ drop (Suc i) (nargs n) @ nargs m)) of
           (g1, None) \<Rightarrow> (g1, ch, False)
         | (g1, Some c) \<Rightarrow> (let (g2, u) = egUnion g1 c cls in flat_mids g2 n i cls (ch \<or> u) ms)))"

fun flat_args :: "(nat \<Rightarrow> nat list) \<Rightarrow> egraph \<Rightarrow> egnode \<Rightarrow> nat \<Rightarrow> bool \<Rightarrow> nat list \<Rightarrow> egraph \<times> bool" where
  "flat_args idx g n cls ch [] = (g, ch)"
| "flat_args idx g n cls ch (i # is) =
     (case flat_mids g n i cls ch (idx (egFind g (nargs n ! i))) of
        (g1, ch1, go) \<Rightarrow> if go then flat_args idx g1 n cls ch1 is else (g1, ch1))"

definition ruleFlatten :: "(nat \<Rightarrow> nat list) \<Rightarrow> egraph \<Rightarrow> nat \<Rightarrow> nat \<Rightarrow> egraph \<times> bool" where
  "ruleFlatten idx g nid cls =
     (let n = gnodes g ! nid in flat_args idx g n cls False [0..<length (nargs n)])"

text \<open>The products of the remaining factors with each addend.\<close>

fun dist_prods :: "egraph \<Rightarrow> egnode \<Rightarrow> nat list \<Rightarrow> nat list \<Rightarrow> egraph \<times> nat list option" where
  "dist_prods g n rs [] = (g, Some [])"
| "dist_prods g n rs (q # qs) =
     (case egAdd g (ac_node (nsym n) ''*'' (rs @ [q])) of
        (g1, None) \<Rightarrow> (g1, None)
      | (g1, Some c) \<Rightarrow>
          (case dist_prods g1 n rs qs of
             (g2, None) \<Rightarrow> (g2, None)
           | (g2, Some cs) \<Rightarrow> (g2, Some (c # cs))))"

fun dist_sums :: "egraph \<Rightarrow> egnode \<Rightarrow> string \<Rightarrow> nat \<Rightarrow> nat \<Rightarrow> bool \<Rightarrow> nat list \<Rightarrow> egraph \<times> bool \<times> bool" where
  "dist_sums g n tag i cls ch [] = (g, ch, True)"
| "dist_sums g n tag i cls ch (sid # ss) =
     (let s = gnodes g ! sid in
      if nsym s \<noteq> egACSym ''+'' tag then dist_sums g n tag i cls ch ss
      else
        (case dist_prods g n (take i (nargs n) @ drop (Suc i) (nargs n)) (nargs s) of
           (g1, None) \<Rightarrow> (g1, ch, False)
         | (g1, Some cs) \<Rightarrow>
             (case egAdd g1 (ac_node (egACSym ''+'' tag) ''+'' cs) of
                (g2, None) \<Rightarrow> (g2, ch, False)
              | (g2, Some c) \<Rightarrow> (let (g3, u) = egUnion g2 c cls in dist_sums g3 n tag i cls (ch \<or> u) ss))))"

fun dist_args :: "(nat \<Rightarrow> nat list) \<Rightarrow> egraph \<Rightarrow> egnode \<Rightarrow> string \<Rightarrow> nat \<Rightarrow> bool \<Rightarrow> nat list \<Rightarrow> egraph \<times> bool" where
  "dist_args idx g n tag cls ch [] = (g, ch)"
| "dist_args idx g n tag cls ch (i # is) =
     (case dist_sums g n tag i cls ch (idx (egFind g (nargs n ! i))) of
        (g1, ch1, go) \<Rightarrow> if go then dist_args idx g1 n tag cls ch1 is else (g1, ch1))"

definition ruleDistribute :: "(nat \<Rightarrow> nat list) \<Rightarrow> egraph \<Rightarrow> nat \<Rightarrow> nat \<Rightarrow> string \<Rightarrow> egraph \<times> bool" where
  "ruleDistribute idx g nid cls tag =
     (let n = gnodes g ! nid in dist_args idx g n tag cls False [0..<length (nargs n)])"

text \<open>
  Candidate factors in the order of first encounter, each with the addends that offer it and
  the product chosen for it. The first product of an addend that offers a factor counts.
\<close>

type_synonym cand = "nat \<times> (nat \<times> egnode) list"

fun cand_add :: "nat \<Rightarrow> nat \<Rightarrow> egnode \<Rightarrow> cand list \<Rightarrow> cand list" where
  "cand_add f i p [] = [(f, [(i, p)])]"
| "cand_add f i p ((f', as) # cs) = (if f' = f then (f', as @ [(i, p)]) # cs else (f', as) # cand_add f i p cs)"

fun cand_factors :: "nat \<Rightarrow> egnode \<Rightarrow> nat list \<Rightarrow> nat list \<Rightarrow> cand list \<Rightarrow> nat list \<times> cand list" where
  "cand_factors i p seen [] cs = (seen, cs)"
| "cand_factors i p seen (f # fs) cs =
     (if f \<in> set seen then cand_factors i p seen fs cs
      else cand_factors i p (f # seen) fs (cand_add f i p cs))"

fun cand_prods :: "egraph \<Rightarrow> bytes \<Rightarrow> nat \<Rightarrow> nat list \<Rightarrow> nat list \<Rightarrow> cand list \<Rightarrow> cand list" where
  "cand_prods g ps i seen [] cs = cs"
| "cand_prods g ps i seen (pid # pids) cs =
     (let p = gnodes g ! pid in
      if nsym p \<noteq> ps then cand_prods g ps i seen pids cs
      else (let (seen', cs') = cand_factors i p seen (nargs p) cs in cand_prods g ps i seen' pids cs'))"

definition candidates :: "(nat \<Rightarrow> nat list) \<Rightarrow> egraph \<Rightarrow> bytes \<Rightarrow> nat list \<Rightarrow> cand list" where
  "candidates idx g ps as =
     foldl (\<lambda>cs i. cand_prods g ps i [] (idx (egFind g (as ! i))) cs) [] [0..<length as]"

text \<open>
  The quotients of the supporting addends by a factor: \<^verbatim>\<open>Inl True\<close> when one of them is the
  factor alone, \<^verbatim>\<open>Inl False\<close> when the budget is spent.
\<close>

fun quotients :: "egraph \<Rightarrow> bytes \<Rightarrow> nat \<Rightarrow> (nat \<times> egnode) list \<Rightarrow> egraph \<times> (bool + nat list)" where
  "quotients g ps f [] = (g, Inr [])"
| "quotients g ps f ((i, p) # as) =
     (let rs = remove1 f (nargs p) in
      if rs = [] then (g, Inl True)
      else
        (case egAdd g (ac_node ps ''*'' rs) of
           (g1, None) \<Rightarrow> (g1, Inl False)
         | (g1, Some q) \<Rightarrow>
             (case quotients g1 ps f as of
                (g2, Inl b) \<Rightarrow> (g2, Inl b)
              | (g2, Inr qs) \<Rightarrow> (g2, Inr (q # qs)))))"

fun factor_cands :: "egraph \<Rightarrow> egnode \<Rightarrow> string \<Rightarrow> nat \<Rightarrow> bool \<Rightarrow> cand list \<Rightarrow> egraph \<times> bool" where
  "factor_cands g n tag cls ch [] = (g, ch)"
| "factor_cands g n tag cls ch ((f, as) # cs) =
     (if length as < 2 then factor_cands g n tag cls ch cs
      else
        (case quotients g (egACSym ''*'' tag) f as of
           (g1, Inl True) \<Rightarrow> factor_cands g1 n tag cls ch cs
         | (g1, Inl False) \<Rightarrow> (g1, ch)
         | (g1, Inr qs) \<Rightarrow>
             (case egAdd g1 (ac_node (egACSym ''+'' tag) ''+'' qs) of
                (g2, None) \<Rightarrow> (g2, ch)
              | (g2, Some s) \<Rightarrow>
                  (case egAdd g2 (ac_node (egACSym ''*'' tag) ''*'' [f, s]) of
                     (g3, None) \<Rightarrow> (g3, ch)
                   | (g3, Some p) \<Rightarrow>
                       (case egAdd g3 (ac_node (nsym n) ''+''
                            (p # map ((!) (nargs n)) (filter (\<lambda>i. i \<notin> fst ` set as) [0..<length (nargs n)]))) of
                          (g4, None) \<Rightarrow> (g4, ch)
                        | (g4, Some r) \<Rightarrow>
                            (let (g5, u) = egUnion g4 r cls in factor_cands g5 n tag cls (ch \<or> u) cs))))))"

definition ruleFactor :: "(nat \<Rightarrow> nat list) \<Rightarrow> egraph \<Rightarrow> nat \<Rightarrow> nat \<Rightarrow> string \<Rightarrow> egraph \<times> bool" where
  "ruleFactor idx g nid cls tag =
     (let n = gnodes g ! nid in
      factor_cands g n tag cls False (candidates idx g (egACSym ''*'' tag) (nargs n)))"

subsection \<open>Saturation\<close>

text \<open>The tag whose sums and products a symbol belongs to.\<close>

definition acTag :: "string list \<Rightarrow> bytes \<Rightarrow> string option" where
  "acTag tags s = find (\<lambda>t. s = egACSym ''+'' t \<or> s = egACSym ''*'' t) tags"

fun visit :: "string list \<Rightarrow> (nat \<Rightarrow> nat list) \<Rightarrow> egraph \<Rightarrow> bool \<Rightarrow> (nat \<times> nat) list \<Rightarrow> egraph \<times> bool \<times> bool" where
  "visit tags idx g ch [] = (g, ch, True)"
| "visit tags idx g ch ((cls, nid) # vs) =
     (let n = gnodes g ! nid in
      if \<not> nac n then visit tags idx g ch vs
      else
        (case acTag tags (nsym n) of
           None \<Rightarrow> visit tags idx g ch vs
         | Some tag \<Rightarrow>
             (let (g1, c1) = ruleFlatten idx g nid cls;
                  (g2, c2) =
                    (if nop n = ''*'' then ruleDistribute idx g1 nid cls tag
                     else if nop n = ''+'' then ruleFactor idx g1 nid cls tag
                     else (g1, False));
                  ch' = (ch \<or> c1 \<or> c2) in
              if gexhausted g2 then (egRebuild g2, ch', False) else visit tags idx g2 ch' vs)))"

fun saturate_rounds :: "nat \<Rightarrow> string list \<Rightarrow> egraph \<Rightarrow> egraph" where
  "saturate_rounds 0 tags g = g"
| "saturate_rounds (Suc k) tags g =
     (case visit tags (roundIndex g) g False (concat (map (\<lambda>(c, ns). map (Pair c) ns) (egMembers g))) of
        (g1, ch, go) \<Rightarrow>
          if \<not> go then g1
          else (let g2 = egRebuild g1 in if ch then saturate_rounds k tags g2 else g2))"

definition saturate :: "string list \<Rightarrow> egraph \<Rightarrow> egraph" where
  "saturate tags g = saturate_rounds (biters (gbudget g)) tags g"

subsection \<open>Extraction\<close>

definition egBuild :: "egnode \<Rightarrow> trm list \<Rightarrow> trm" where
  "egBuild n ks = (if nac n then acRebuild (nop n) ks else egFill (the (ntmpl n)) ks)"

record egbest =
  bcost :: nat
  bterm :: trm
  bbytes :: bytes

definition better :: "egraph \<Rightarrow> (nat \<Rightarrow> egbest option) \<Rightarrow> nat \<Rightarrow> nat \<Rightarrow> egbest option" where
  "better g best cls nid =
     (let n = gnodes g ! nid; bs' = map (\<lambda>a. best (egFind g a)) (nargs n) in
      if None \<in> set bs' then None
      else
        (let ks = map the bs'; cost = (if nac n then length (nargs n) - 1 else 1) + sum_list (map bcost ks) in
         if (case best cls of Some b \<Rightarrow> bcost b < cost | None \<Rightarrow> False) then None
         else
           (let t = egBuild n (map bterm ks); by = key t in
            if (case best cls of Some b \<Rightarrow> cost < bcost b \<or> by < bbytes b | None \<Rightarrow> True)
            then Some \<lparr>bcost = cost, bterm = t, bbytes = by\<rparr> else None)))"

fun extract_pass :: "egraph \<Rightarrow> (nat \<Rightarrow> egbest option) \<Rightarrow> bool \<Rightarrow> (nat \<times> nat) list \<Rightarrow> (nat \<Rightarrow> egbest option) \<times> bool" where
  "extract_pass g best ch [] = (best, ch)"
| "extract_pass g best ch ((cls, nid) # vs) =
     (case better g best cls nid of
        None \<Rightarrow> extract_pass g best ch vs
      | Some b \<Rightarrow> extract_pass g (best(cls \<mapsto> b)) True vs)"

fun extract_passes :: "nat \<Rightarrow> egraph \<Rightarrow> nat \<Rightarrow> (nat \<Rightarrow> egbest option) \<Rightarrow> trm option" where
  "extract_passes 0 g r best = None"
| "extract_passes (Suc k) g r best =
     (let (best', ch) = extract_pass g best False (concat (map (\<lambda>(c, ns). map (Pair c) ns) (egMembers g))) in
      if \<not> ch then map_option bterm (best' (egFind g r)) else extract_passes k g r best')"

definition egExtract :: "egraph \<Rightarrow> nat \<Rightarrow> trm option" where
  "egExtract g r = extract_passes (length (egMembers g) + 2) g r (\<lambda>_. None)"

subsection \<open>The survey\<close>

text \<open>Sizing, on a stack, which stops above the cap.\<close>

lemma nodes_egSlots: "sum_list (map trm_nodes (egSlots t)) < trm_nodes t"
  by (cases t) auto

lemma nodes_egSlot: "x \<in> set (egSlots t) \<Longrightarrow> trm_nodes x < trm_nodes t"
  using nodes_egSlots [of t] member_le_sum_list [of "trm_nodes x" "map trm_nodes (egSlots t)"] by fastforce

function egSize :: "nat \<Rightarrow> trm list \<Rightarrow> nat" where
  "egSize k [] = k"
| "egSize k (t # ts) = (if egMaxTermNodes < Suc k then Suc k else egSize (Suc k) (rev (egSlots t) @ ts))"
  by pat_completeness auto
termination
  by (relation "measure (\<lambda>(k, ts). sum_list (map trm_nodes ts))") (auto simp: nodes_egSlots simp flip: rev_map)

text \<open>Matching: one flattening for each maximal chain.\<close>

definition chain_hit :: "string \<Rightarrow> trm list \<Rightarrow> bool" where
  "chain_hit op ls =
     (op = ''*'' \<and> list_ex (\<lambda>l. case l of Prim o' as \<Rightarrow> length as = 2 \<and> o' = ''+'' | _ \<Rightarrow> False) ls \<or>
      op = ''+'' \<and> 2 \<le> length (filter (\<lambda>l. case l of Prim o' as \<Rightarrow> length as = 2 \<and> o' = ''*'' | _ \<Rightarrow> False) ls))"

fun chain_of :: "trm \<Rightarrow> string" where
  "chain_of (Prim op [a, b]) = (if op = ''+'' \<or> op = ''*'' then op else '''')"
| "chain_of t = ''''"

function egMatch :: "(trm \<times> string) list \<Rightarrow> bool" where
  "egMatch [] = False"
| "egMatch ((t, ch) # ts) =
     (let op = chain_of t in
      (op \<noteq> '''' \<and> ch \<noteq> op \<and> chain_hit op (acFlatten op [t])) \<or>
      egMatch (rev (map (\<lambda>x. (x, op)) (egSlots t)) @ ts))"
  by pat_completeness auto
termination
  by (relation "measure (\<lambda>ts. sum_list (map (trm_nodes \<circ> fst) ts))")
    (auto simp: comp_def nodes_egSlots simp flip: rev_map)

definition egSurvey :: "trm \<Rightarrow> nat \<times> bool" where
  "egSurvey t =
     (let n = egSize 0 [t] in if egMaxTermNodes < n then (n, False) else (n, egMatch [(t, '''')]))"

subsection \<open>Annotation and insertion\<close>

datatype tagged = Tagged trm "string option" "tagged list"

definition tag_of :: "string \<Rightarrow> ty option \<Rightarrow> string option" where
  "tag_of op t =
     (if isACPrim op t then (if t = Some TInt then Some ''int'' else if t = Some TRat then Some ''rat'' else None)
      else None)"

text \<open>The tag of a node, and the copy in which its first operand has been synthesized.\<close>

fun egTag :: "env \<Rightarrow> ctx \<Rightarrow> trm \<Rightarrow> string option \<times> trm" where
  "egTag E c (Prim op [a, b]) =
     (if op = ''+'' \<or> op = ''*'' then (let (a', u) = msynth E c a in (tag_of op u, Prim op [a', b]))
      else (None, Prim op [a, b]))"
| "egTag E c t = (None, t)"

text \<open>The contexts of the arms, the last one first, each with a synthesis of the scrutinee.\<close>

fun egArmCtxs :: "env \<Rightarrow> ctx \<Rightarrow> hash \<Rightarrow> nat \<Rightarrow> trm \<Rightarrow> ctx list \<times> trm" where
  "egArmCtxs E c h 0 a = ([], a)"
| "egArmCtxs E c h (Suc i) a =
     (let (a1, t) = msynth E c a;
          ci = (case (t, GetDef (est E) h) of
                 (Some (TData g ts), Inr d) \<Rightarrow> if i < length (ctors_of d) then pushAll c (instCtorFields d g ts i) else c
               | _ \<Rightarrow> c);
          (cs, a2) = egArmCtxs E c h i a1
      in (cs @ [ci], a2))"

text \<open>The contexts of the children, and the copy after them.\<close>

fun egChildCtxs :: "env \<Rightarrow> ctx \<Rightarrow> trm \<Rightarrow> ctx list \<times> trm" where
  "egChildCtxs E c (Lam p b) = ([pushCtx c p], Lam p b)"
| "egChildCtxs E c (Let p a b) = ([c, pushCtx c p], Let p a b)"
| "egChildCtxs E c (Match h a arms) =
     (let (cs, a') = egArmCtxs E c h (length arms) a in (c # cs, Match h a' arms))"
| "egChildCtxs E c t = (replicate (length (egSlots t)) c, t)"

function egAnnotate :: "env \<Rightarrow> ctx \<Rightarrow> trm \<Rightarrow> trm \<Rightarrow> tagged" where
  "egAnnotate E c t cl =
     (let (tag, cl1) = egTag E c cl; (cs, cl2) = egChildCtxs E c cl1 in
      Tagged t tag (map (\<lambda>(x, d, y). egAnnotate E d x y) (zip (egSlots t) (zip cs (egSlots cl2)))))"
  by pat_completeness auto
termination
  by (relation "measure (\<lambda>(E, c, t, cl). trm_nodes t)") (auto dest!: set_zip_leftD nodes_egSlot)

declare egAnnotate.simps [simp del]

fun tags_of :: "tagged \<Rightarrow> string list" where
  "tags_of (Tagged t tag ks) = (case tag of None \<Rightarrow> [] | Some k \<Rightarrow> [k]) @ concat (map tags_of ks)"

fun tagged_leaves :: "string \<Rightarrow> tagged \<Rightarrow> tagged list" where
  "tagged_leaves op (Tagged t tag ks) =
     (case t of
        Prim o' [a, b] \<Rightarrow> if o' = op then concat (map (tagged_leaves op) ks) else [Tagged t tag ks]
      | _ \<Rightarrow> [Tagged t tag ks])"

definition op_of :: "trm \<Rightarrow> string" where
  "op_of t = (case t of Prim op as \<Rightarrow> op | _ \<Rightarrow> '''')"

fun tsize :: "tagged \<Rightarrow> nat" where
  "tsize (Tagged t tag ks) = Suc (sum_list (map tsize ks))"

lemma tsize_pos [simp]: "0 < tsize t"
  by (cases t) simp

lemma tsize_leaves: "sum_list (map tsize (tagged_leaves op t)) \<le> tsize t"
proof (induction t)
  case (Tagged t tag ks)
  have "sum_list (map tsize (concat (map (tagged_leaves op) ks))) \<le> sum_list (map tsize ks)"
    using Tagged.IH by (induction ks) (auto intro: add_mono)
  then show ?case by (auto split: trm.split list.split)
qed

lemma tsize_chain: "sum_list (map tsize (concat (map (tagged_leaves op) ks))) \<le> sum_list (map tsize ks)"
  by (induction ks) (auto intro: add_mono simp: tsize_leaves)

text \<open>
  A tagged node enters with the leaves of its chain, which all lie below its children; the
  graph after the insertion comes with the class, or with none when the budget is spent.
\<close>

function (sequential) egInsert :: "egraph \<Rightarrow> tagged \<Rightarrow> egraph \<times> nat option"
  and egInserts :: "egraph \<Rightarrow> tagged list \<Rightarrow> egraph \<times> nat list option" where
  "egInsert g (Tagged t tag ks) =
     (case tag of
        Some k \<Rightarrow>
          (case egInserts g (concat (map (tagged_leaves (op_of t)) ks)) of
             (g1, None) \<Rightarrow> (g1, None)
           | (g1, Some cs) \<Rightarrow> egAdd g1 (ac_node (egACSym (op_of t) k) (op_of t) cs))
      | None \<Rightarrow>
          (case egInserts g ks of
             (g1, None) \<Rightarrow> (g1, None)
           | (g1, Some cs) \<Rightarrow>
               egAdd g1 \<lparr>nsym = str_bytes ''t|'' @ key (egShape t), ntmpl = Some (egShape t), nac = False,
                 nop = '''', nargs = cs\<rparr>))"
| "egInserts g [] = (g, Some [])"
| "egInserts g (t # ts) =
     (case egInsert g t of
        (g1, None) \<Rightarrow> (g1, None)
      | (g1, Some c) \<Rightarrow>
          (case egInserts g1 ts of
             (g2, None) \<Rightarrow> (g2, None)
           | (g2, Some cs) \<Rightarrow> (g2, Some (c # cs))))"
  by pat_completeness auto
termination
  by (relation "measure (\<lambda>x. case x of Inl (g, t) \<Rightarrow> 2 * tsize t | Inr (g, ts) \<Rightarrow> Suc (2 * sum_list (map tsize ts)))")
    (auto simp: less_Suc_eq_le tsize_chain Suc_le_eq intro: le_trans)

subsection \<open>Entry point\<close>

definition eCanonicalArithBudget :: "env \<Rightarrow> trm \<Rightarrow> egbudget \<Rightarrow> bool \<Rightarrow> trm" where
  "eCanonicalArithBudget E t b force =
     (let (n, arith) = egSurvey t in
      if egMaxTermNodes < n \<or> \<not> arith \<and> \<not> force then t
      else
        (let a = egAnnotate E [] t t; tags = tags_of a in
         if tags = [] then t
         else
           (case egInsert (newEgraph b) a of
              (g, None) \<Rightarrow> t
            | (g, Some r) \<Rightarrow>
                (case egExtract (saturate tags (egRebuild g)) r of None \<Rightarrow> t | Some s \<Rightarrow> s))))"

definition eCanonicalArith :: "env \<Rightarrow> trm \<Rightarrow> trm" where
  "eCanonicalArith E t = eCanonicalArithBudget E t egDefaultBudget False"

text \<open>The bytes that \<^verbatim>\<open>eHash\<close> digests; a function has a body, a data definition has no type either.\<close>

definition eBytes :: "store \<Rightarrow> nat \<Rightarrow> ty \<Rightarrow> trm \<Rightarrow> bytes option" where
  "eBytes st n t b =
     (let E = \<lparr>est = st, etv = n, eself = Some t\<rparr> in
      map_option eb (Option.bind (e_ty t enc0) (e_term (eCanonicalArith E (eNormalize E [] b)))))"

end
