(* ===== verification/EgMeaning.thy ===== *)
theory EgMeaning
  imports ChainAlg Egraph
begin

text \<open>
  What a class of the graph stands for: at every context and type, a class of equivalent
  terms. A node stands for the terms that its symbol makes from what its arguments stand for;
  the rules of the graph are equations between such meanings.
\<close>

subsection \<open>Chains of sums and products\<close>

definition arith :: "string \<Rightarrow> ty \<Rightarrow> bool" where
  "arith op K \<longleftrightarrow> (op = ''+'' \<or> op = ''*'') \<and> (K = TInt \<or> K = TRat)"

lemma arith_cases [consumes 1]:
  assumes "arith op K"
  obtains "op = ''+''" "K = TInt" | "op = ''*''" "K = TInt" | "op = ''+''" "K = TRat" | "op = ''*''" "K = TRat"
  using assms by (auto simp: arith_def)

lemma arith_typed: "arith op K \<Longrightarrow> typed E c (Prim op [a, b]) K \<longleftrightarrow> typed E c a K \<and> typed E c b K"
  by (intro typed_arith) (auto simp: arith_def numeric_def)

lemma arith_chain_typed: "arith op K \<Longrightarrow> ls \<noteq> [] \<Longrightarrow> \<forall>l \<in> set ls. typed E c l K \<Longrightarrow> typed E c (rechain op ls) K"
  by (induction op ls rule: rechain.induct) (simp_all add: arith_typed)

lemma arith_perm:
  "arith op K \<Longrightarrow> sound_env E \<Longrightarrow> ctx_wf E c \<Longrightarrow> as \<noteq> [] \<Longrightarrow> \<forall>t \<in> set as. typed E c t K \<Longrightarrow> mset as = mset bs' \<Longrightarrow>
   equ E c (rechain op as) (rechain op bs') K"
  by (erule arith_cases)
    (simp_all add: int_plus.equ_perm int_times.equ_perm rat_plus.equ_perm rat_times.equ_perm)

lemma arith_flat:
  "arith op K \<Longrightarrow> sound_env E \<Longrightarrow> ctx_wf E c \<Longrightarrow> us \<noteq> [] \<Longrightarrow> \<forall>t \<in> set us. typed E c t K \<Longrightarrow> \<forall>t \<in> set ts. typed E c t K \<Longrightarrow>
   equ E c (rechain op (rechain op us # ts)) (rechain op (us @ ts)) K"
  by (erule arith_cases)
    (simp_all add: int_plus.equ_flat int_times.equ_flat rat_plus.equ_flat rat_times.equ_flat)

lemma arith_leaves:
  "arith op K \<Longrightarrow> sound_env E \<Longrightarrow> ctx_wf E c \<Longrightarrow> typed E c t K \<Longrightarrow> equ E c (rechain op (ac_leaves op t)) t K"
  by (erule arith_cases)
    (simp_all add: int_plus.equ_leaves int_times.equ_leaves rat_plus.equ_leaves rat_times.equ_leaves)

lemma arith_rebuild:
  "arith op K \<Longrightarrow> sound_env E \<Longrightarrow> ctx_wf E c \<Longrightarrow> ls \<noteq> [] \<Longrightarrow> \<forall>t \<in> set ls. typed E c t K \<Longrightarrow>
   equ E c (rechain op ls) (acRebuild op ls) K"
  by (erule arith_cases)
    (simp_all add: int_plus.equ_acRebuild int_times.equ_acRebuild rat_plus.equ_acRebuild rat_times.equ_acRebuild
      idempotentPrims_def)

lemma arith_distrib:
  "K = TInt \<or> K = TRat \<Longrightarrow> sound_env E \<Longrightarrow> ctx_wf E c \<Longrightarrow> us \<noteq> [] \<Longrightarrow>
   \<forall>t \<in> set us. typed E c t K \<Longrightarrow> \<forall>t \<in> set ts. typed E c t K \<Longrightarrow>
   equ E c (rechain ''*'' (rechain ''+'' us # ts)) (rechain ''+'' (map (\<lambda>u. rechain ''*'' (u # ts)) us)) K"
  by (elim disjE) (simp_all add: int_ring.equ_distrib rat_ring.equ_distrib)

lemma arith_rule: "arith op K \<Longrightarrow> prim_rule E op [K, K] K"
  by (erule arith_cases) (simp_all add: prim_rule_def primResultTy_def numericTy_def all_are_def)

lemma arith_cong2:
  assumes "arith op K" "sound_env E" "equ E c a a' K" "equ E c b b' K"
  shows "equ E c (Prim op [a, b]) (Prim op [a', b']) K"
  using assms arith_rule by (intro equ_Prim) (auto simp: equs_def nth_Cons split: nat.split)

lemma arith_cong:
  assumes op: "arith op K" and E: "sound_env E"
  shows "list_all2 (\<lambda>a b. equ E c a b K) as bs' \<Longrightarrow> as \<noteq> [] \<Longrightarrow> equ E c (rechain op as) (rechain op bs') K"
proof (induction rule: list_all2_induct)
  case (Cons a as b bs')
  then show ?case
    by (cases as; cases bs') (simp_all add: arith_cong2 [OF op E])
qed simp

subsection \<open>Meanings\<close>

type_synonym meaning = "ctx \<Rightarrow> ty \<Rightarrow> trm \<Rightarrow> bool"

definition mwf :: "env \<Rightarrow> meaning \<Rightarrow> bool" where
  "mwf E M \<longleftrightarrow>
     (\<forall>c u t. M c u t \<longrightarrow> ctx_wf E c \<and> typed E c t u) \<and>
     (\<forall>c u t u' t'. M c u t \<longrightarrow> M c u' t' \<longrightarrow> u' = u \<and> equ E c t t' u) \<and>
     (\<forall>c u t t'. M c u t \<longrightarrow> equ E c t t' u \<longrightarrow> M c u t')"

lemma mwfD:
  "mwf E M \<Longrightarrow> M c u t \<Longrightarrow> ctx_wf E c \<and> typed E c t u"
  "mwf E M \<Longrightarrow> M c u t \<Longrightarrow> M c u' t' \<Longrightarrow> u' = u \<and> equ E c t t' u"
  "mwf E M \<Longrightarrow> M c u t \<Longrightarrow> equ E c t t' u \<Longrightarrow> M c u t'"
  unfolding mwf_def by blast+

definition Ma :: "env \<Rightarrow> string \<Rightarrow> ty \<Rightarrow> meaning list \<Rightarrow> meaning" where
  "Ma E op K Ms c u t \<longleftrightarrow>
     u = K \<and> ctx_wf E c \<and> (\<exists>ts. list_all2 (\<lambda>M. M c K) Ms ts \<and> equ E c (rechain op ts) t K)"

lemma equ_trans': "sound_env E \<Longrightarrow> equ E c a b u \<Longrightarrow> equ E c b d u \<Longrightarrow> equ E c a d u"
  by (rule equ_trans) (simp_all add: sound_env_def)

text \<open>Chosen members are typed, and equivalent to any other choice.\<close>

lemma members:
  assumes "list_all (mwf E) Ms" "list_all2 (\<lambda>M. M c K) Ms ts"
  shows "\<forall>t \<in> set ts. typed E c t K"
  using assms(2,1) by (induction rule: list_all2_induct) (auto dest: mwfD)

lemma members_equ:
  assumes "list_all (mwf E) Ms" "list_all2 (\<lambda>M. M c K) Ms ts" "list_all2 (\<lambda>M. M c K) Ms ts'"
  shows "list_all2 (\<lambda>a b. equ E c a b K) ts ts'"
  using assms(2,1,3)
proof (induction arbitrary: ts' rule: list_all2_induct)
  case (Cons M Ms t ts)
  then show ?case by (auto simp: list_all2_Cons1 dest: mwfD(2))
qed simp

lemma mwf_Ma:
  assumes op: "arith op K" and E: "sound_env E" and Ms: "list_all (mwf E) Ms" "Ms \<noteq> []"
  shows "mwf E (Ma E op K Ms)"
  unfolding mwf_def
proof (intro conjI allI impI)
  fix c u t
  assume m: "Ma E op K Ms c u t"
  then show "ctx_wf E c" "typed E c t u" by (auto simp: Ma_def dest: equD)
  show "Ma E op K Ms c u t'" if "equ E c t t' u" for t'
    using m that equ_trans' [OF E] by (auto simp: Ma_def)
  fix u' t'
  assume m': "Ma E op K Ms c u' t'"
  then show "u' = u" using m by (simp add: Ma_def)
  obtain ts where ts: "u = K" "list_all2 (\<lambda>M. M c K) Ms ts" "equ E c (rechain op ts) t K" using m by (auto simp: Ma_def)
  obtain ts' where ts': "list_all2 (\<lambda>M. M c K) Ms ts'" "equ E c (rechain op ts') t' K" using m' by (auto simp: Ma_def)
  have "equ E c (rechain op ts) (rechain op ts') K"
    using members_equ [OF Ms(1) ts(2) ts'(1)] ts(2) Ms(2) by (intro arith_cong [OF op E]) auto
  then show "equ E c t t' u" using equ_trans' [OF E] ts ts'(2) equ_sym by metis
qed

text \<open>Order does not matter, nor grouping.\<close>

lemma Ma_perm_le:
  assumes op: "arith op K" and E: "sound_env E" and Ms: "list_all (mwf E) Ms" "Ms \<noteq> []" "mset Ms = mset Ms'"
  shows "Ma E op K Ms c u t \<Longrightarrow> Ma E op K Ms' c u t"
proof -
  assume "Ma E op K Ms c u t"
  then obtain ts where ts: "u = K" "ctx_wf E c" "list_all2 (\<lambda>M. M c K) Ms ts" "equ E c (rechain op ts) t K" by (auto simp: Ma_def)
  obtain ts' where ts': "list_all2 (\<lambda>M. M c K) Ms' ts'" "mset ts' = mset ts"
    using list_all2_reorder_left_invariance [OF ts(3), of Ms'] Ms(3) by auto
  have "equ E c (rechain op ts') (rechain op ts) K"
    using ts ts' Ms members [OF Ms(1) ts(3)] mset_eq_setD [OF ts'(2)] by (intro arith_perm [OF op E]) auto
  then show ?thesis using ts ts'(1) equ_trans' [OF E] by (auto simp: Ma_def)
qed

lemma Ma_perm:
  assumes op: "arith op K" and E: "sound_env E" and Ms: "list_all (mwf E) Ms" "Ms \<noteq> []" "mset Ms = mset Ms'"
  shows "Ma E op K Ms = Ma E op K Ms'"
proof -
  have "list_all (mwf E) Ms'" "Ms' \<noteq> []" using Ms mset_eq_setD [OF Ms(3)] by (auto simp: list_all_iff)
  then show ?thesis using Ma_perm_le [OF op E Ms] Ma_perm_le [OF op E _ _ Ms(3) [symmetric]] by (intro ext) blast
qed

lemma Ma_flat:
  assumes op: "arith op K" and E: "sound_env E" and Ms: "list_all (mwf E) xs" "xs \<noteq> []" "list_all (mwf E) zs"
  shows "Ma E op K (Ma E op K xs # zs) = Ma E op K (xs @ zs)"
proof (intro ext iffI)
  fix c u t
  assume "Ma E op K (Ma E op K xs # zs) c u t"
  then obtain t1 us ts where ts: "u = K" "ctx_wf E c" "list_all2 (\<lambda>M. M c K) zs ts" "equ E c (rechain op (t1 # ts)) t K"
    "list_all2 (\<lambda>M. M c K) xs us" "equ E c (rechain op us) t1 K"
    by (auto simp: Ma_def list_all2_Cons1)
  note tys = members [OF Ms(1) ts(5)] members [OF Ms(3) ts(3)]
  have "list_all2 (\<lambda>a b. equ E c a b K) (rechain op us # ts) (t1 # ts)"
    using ts(2,6) tys(2) by (auto simp: list.rel_refl_strong equ_refl [OF E])
  then have "equ E c (rechain op (rechain op us # ts)) (rechain op (t1 # ts)) K" by (rule arith_cong [OF op E]) simp
  moreover have "equ E c (rechain op (us @ ts)) (rechain op (rechain op us # ts)) K"
    using ts Ms(2) tys by (intro equ_sym [OF arith_flat [OF op E]]) auto
  ultimately have "equ E c (rechain op (us @ ts)) t K" using ts(4) equ_trans' [OF E] by blast
  then show "Ma E op K (xs @ zs) c u t" using ts by (auto simp: Ma_def intro: list_all2_appendI)
next
  fix c u t
  assume "Ma E op K (xs @ zs) c u t"
  then obtain us ts where ts: "u = K" "ctx_wf E c" "list_all2 (\<lambda>M. M c K) xs us" "list_all2 (\<lambda>M. M c K) zs ts"
    "equ E c (rechain op (us @ ts)) t K"
    by (auto simp: Ma_def list_all2_append1)
  note tys = members [OF Ms(1) ts(3)] members [OF Ms(3) ts(4)]
  have us: "us \<noteq> []" using ts(3) Ms(2) by auto
  have "equ E c (rechain op (rechain op us # ts)) (rechain op (us @ ts)) K"
    using ts us tys by (intro arith_flat [OF op E]) auto
  then have "equ E c (rechain op (rechain op us # ts)) t K" using ts(5) equ_trans' [OF E] by blast
  moreover have "Ma E op K xs c K (rechain op us)"
    using ts us tys by (auto simp: Ma_def intro!: equ_refl [OF E] arith_chain_typed [OF op])
  ultimately show "Ma E op K (Ma E op K xs # zs) c u t"
    using ts(1,2,4) by (auto simp: Ma_def [of E op K "_ # _"] list_all2_Cons1)
qed

text \<open>A class at one type only.\<close>

definition only :: "ty \<Rightarrow> meaning \<Rightarrow> meaning" where
  "only K M c u t \<longleftrightarrow> u = K \<and> M c u t"

lemma Ma_single: "mwf E M \<Longrightarrow> sound_env E \<Longrightarrow> Ma E op K [M] = only K M"
proof (intro ext iffI)
  fix c u t
  assume M: "mwf E M" and E: "sound_env E"
  show "only K M c u t" if "Ma E op K [M] c u t"
    using that mwfD(3) [OF M] by (auto simp: Ma_def only_def list_all2_Cons1)
  assume "only K M c u t"
  then have t: "u = K" "M c K t" by (auto simp: only_def)
  then show "Ma E op K [M] c u t"
    using mwfD(1) [OF M t(2)] equ_refl [OF E] by (auto simp: Ma_def list_all2_Cons1 intro!: exI [of _ "[t]"])
qed

lemma Ma_only: "Ma E op K (map (only K) Ms) = Ma E op K Ms"
  by (intro ext) (simp add: Ma_def only_def list_all2_map1)

lemma only_Ma [simp]: "only K (Ma E op K Ms) = Ma E op K Ms"
  by (intro ext) (auto simp: Ma_def only_def)

lemma Ma_only_cong: "map (only K) Ms = map (only K) Ms' \<Longrightarrow> Ma E op K Ms = Ma E op K Ms'"
  using Ma_only by metis

lemma Ma_distrib:
  assumes K: "K = TInt \<or> K = TRat" and E: "sound_env E" and Ms: "list_all (mwf E) qs" "qs \<noteq> []" "list_all (mwf E) rs"
  shows "Ma E ''*'' K (Ma E ''+'' K qs # rs) = Ma E ''+'' K (map (\<lambda>q. Ma E ''*'' K (q # rs)) qs)"
proof (intro ext iffI)
  have ops: "arith ''+'' K" "arith ''*'' K" using K by (auto simp: arith_def)
  fix c u t
  {
    assume "Ma E ''*'' K (Ma E ''+'' K qs # rs) c u t"
    then obtain t1 us ts where ts: "u = K" "ctx_wf E c" "list_all2 (\<lambda>M. M c K) rs ts" "equ E c (rechain ''*'' (t1 # ts)) t K"
      "list_all2 (\<lambda>M. M c K) qs us" "equ E c (rechain ''+'' us) t1 K"
      by (auto simp: Ma_def list_all2_Cons1)
    note tys = members [OF Ms(1) ts(5)] members [OF Ms(3) ts(3)]
    have us: "us \<noteq> []" using ts(5) Ms(2) by auto
    have "list_all2 (\<lambda>a b. equ E c a b K) (rechain ''+'' us # ts) (t1 # ts)"
      using ts(2,6) tys(2) by (auto simp: list.rel_refl_strong equ_refl [OF E])
    then have "equ E c (rechain ''*'' (rechain ''+'' us # ts)) (rechain ''*'' (t1 # ts)) K"
      by (rule arith_cong [OF ops(2) E]) simp
    moreover have "equ E c (rechain ''+'' (map (\<lambda>u. rechain ''*'' (u # ts)) us)) (rechain ''*'' (rechain ''+'' us # ts)) K"
      by (rule equ_sym [OF arith_distrib [OF K E ts(2) us tys]])
    ultimately have "equ E c (rechain ''+'' (map (\<lambda>u. rechain ''*'' (u # ts)) us)) t K"
      using ts(4) equ_trans' [OF E] by blast
    moreover have "list_all2 (\<lambda>M. M c K) (map (\<lambda>q. Ma E ''*'' K (q # rs)) qs) (map (\<lambda>u. rechain ''*'' (u # ts)) us)"
      unfolding list_all2_map1 list_all2_map2
    proof (rule list.rel_mono_strong [OF ts(5)])
      fix q x
      assume q: "q \<in> set qs" "x \<in> set us" "q c K x"
      then have "typed E c (rechain ''*'' (x # ts)) K"
        using tys by (intro arith_chain_typed [OF ops(2)]) simp_all
      then show "Ma E ''*'' K (q # rs) c K (rechain ''*'' (x # ts))"
        using q ts(2,3) equ_refl [OF E] by (auto simp: Ma_def list_all2_Cons1)
    qed
    ultimately show "Ma E ''+'' K (map (\<lambda>q. Ma E ''*'' K (q # rs)) qs) c u t"
      using ts(1,2) by (auto simp: Ma_def [of E "''+''"])
  }
  assume "Ma E ''+'' K (map (\<lambda>q. Ma E ''*'' K (q # rs)) qs) c u t"
  then obtain ws where ws: "u = K" "ctx_wf E c" "list_all2 (\<lambda>q. Ma E ''*'' K (q # rs) c K) qs ws"
    "equ E c (rechain ''+'' ws) t K"
    by (auto simp: Ma_def [of E "''+''"] list_all2_map1)
  obtain q w where "Ma E ''*'' K (q # rs) c K w" using ws(3) Ms(2) by (cases qs) (auto simp: list_all2_Cons1)
  then obtain ts where ts: "list_all2 (\<lambda>M. M c K) rs ts" by (auto simp: Ma_def list_all2_Cons1)
  have "\<exists>us. list_all2 (\<lambda>M. M c K) qs us \<and> list_all2 (\<lambda>x w. equ E c (rechain ''*'' (x # ts)) w K) us ws"
    using ws(3) Ms(1)
  proof (induction rule: list_all2_induct)
    case (Cons q qs w ws)
    then obtain us where us: "list_all2 (\<lambda>M. M c K) qs us" "list_all2 (\<lambda>x w. equ E c (rechain ''*'' (x # ts)) w K) us ws" by auto
    obtain x ts' where x: "q c K x" "list_all2 (\<lambda>M. M c K) rs ts'" "equ E c (rechain ''*'' (x # ts')) w K"
      using Cons.hyps(1) by (auto simp: Ma_def list_all2_Cons1)
    have "list_all2 (\<lambda>a b. equ E c a b K) (x # ts) (x # ts')"
      using members_equ [OF Ms(3) ts x(2)] x(1) Cons.prems mwfD equ_refl [OF E ws(2)] by auto
    then have "equ E c (rechain ''*'' (x # ts)) (rechain ''*'' (x # ts')) K" by (rule arith_cong [OF ops(2) E]) simp
    then have "list_all2 (\<lambda>M. M c K) (q # qs) (x # us)" "list_all2 (\<lambda>x w. equ E c (rechain ''*'' (x # ts)) w K) (x # us) (w # ws)"
      using x us equ_trans' [OF E] by auto
    then show ?case by blast
  qed simp
  then obtain us where us: "list_all2 (\<lambda>M. M c K) qs us" "list_all2 (\<lambda>x w. equ E c (rechain ''*'' (x # ts)) w K) us ws" by blast
  note tys = members [OF Ms(1) us(1)] members [OF Ms(3) ts]
  have ne: "us \<noteq> []" using us(1) Ms(2) by auto
  have "equ E c (rechain ''+'' (map (\<lambda>u. rechain ''*'' (u # ts)) us)) (rechain ''+'' ws) K"
    using us(2) ne by (intro arith_cong [OF ops(1) E]) (auto simp: list_all2_map1)
  moreover have "equ E c (rechain ''*'' (rechain ''+'' us # ts)) (rechain ''+'' (map (\<lambda>u. rechain ''*'' (u # ts)) us)) K"
    by (rule arith_distrib [OF K E ws(2) ne tys])
  ultimately have "equ E c (rechain ''*'' (rechain ''+'' us # ts)) t K" using ws(4) equ_trans' [OF E] by blast
  moreover have "Ma E ''+'' K qs c K (rechain ''+'' us)"
    using us(1) ws(2) ne tys by (auto simp: Ma_def intro!: equ_refl [OF E] arith_chain_typed [OF ops(1)])
  ultimately show "Ma E ''*'' K (Ma E ''+'' K qs # rs) c u t"
    using ws(1,2) ts by (auto simp: Ma_def [of E "''*''"] list_all2_Cons1)
qed

end
