(* ===== verification/EgNodes.thy ===== *)
theory EgNodes
  imports EgMeaning
begin

text \<open>
  The nodes that are not chains: contexts and types of the children of a term, and the
  meaning of a node from those of its arguments.
\<close>

subsection \<open>Contexts and types of children\<close>

fun is_leaf :: "trm \<Rightarrow> bool" where
  "is_leaf (Var i) = True"
| "is_leaf (IntL v) = True"
| "is_leaf (RatL q) = True"
| "is_leaf (FloatL f) = True"
| "is_leaf (BoolL b) = True"
| "is_leaf (Ref h ts) = True"
| "is_leaf (Self ts) = True"
| "is_leaf t = False"

inductive has_kids :: "env \<Rightarrow> ctx \<Rightarrow> trm \<Rightarrow> ty \<Rightarrow> (ctx \<times> ty) list \<Rightarrow> bool" for E c where
  kids_leaf: "is_leaf t \<Longrightarrow> typed E c t u \<Longrightarrow> has_kids E c t u []"
| kids_Lam: "wfT E p \<Longrightarrow> has_kids E c (Lam p b) (TFun p q) [(pushCtx c p, q)]"
| kids_App: "has_kids E c (App f a) q [(c, TFun p q), (c, p)]"
| kids_Let: "wfT E p \<Longrightarrow> has_kids E c (Let p a b) q [(c, p), (pushCtx c p, q)]"
| kids_If: "has_kids E c (If a b d) q [(c, TBool), (c, q), (c, q)]"
| kids_Prim: "prim_rule E op us u \<Longrightarrow> length as = length us \<Longrightarrow> has_kids E c (Prim op as) u (map (Pair c) us)"
| kids_Ctor: "map_of (sdefs (est E)) h = Some (DData (length ts) cs) \<Longrightarrow> i < length cs \<Longrightarrow> list_all (wfT E) ts \<Longrightarrow>
    us = instCtorFields (DData (length ts) cs) h ts i \<Longrightarrow> length as = length us \<Longrightarrow>
    has_kids E c (Ctor h i ts as) (TData h ts) (map (Pair c) us)"
| kids_Match: "wfT E (TData g ts) \<Longrightarrow> h = '''' \<or> h = g \<Longrightarrow> map_of (sdefs (est E)) g = Some d \<Longrightarrow>
    length arms = length (ctors_of d) \<Longrightarrow> arms \<noteq> [] \<Longrightarrow>
    has_kids E c (Match h a arms) u ((c, TData g ts) # map (\<lambda>i. (pushAll c (instCtorFields d g ts i), u)) [0..<length arms])"
| kids_Record: "length ns = length us \<Longrightarrow> length as = length us \<Longrightarrow> sorted_wrt (<) ns \<Longrightarrow>
    has_kids E c (Record ns as) (TRecord ns us) (map (Pair c) us)"
| kids_Field: "length ns = length ts \<Longrightarrow> field_ty ns ts f = Some u \<Longrightarrow> has_kids E c (Field a f) u [(c, TRecord ns ts)]"

inductive_cases kids_LamE: "has_kids E c (Lam p b) u cus"
inductive_cases kids_AppE: "has_kids E c (App f a) u cus"
inductive_cases kids_LetE: "has_kids E c (Let p a b) u cus"
inductive_cases kids_IfE: "has_kids E c (If a b d) u cus"
inductive_cases kids_PrimE: "has_kids E c (Prim op as) u cus"
inductive_cases kids_CtorE: "has_kids E c (Ctor h i ts as) u cus"
inductive_cases kids_MatchE: "has_kids E c (Match h a arms) u cus"
inductive_cases kids_RecordE: "has_kids E c (Record ns as) u cus"
inductive_cases kids_FieldE: "has_kids E c (Field a f) u cus"

inductive_cases kids_leafE: "has_kids E c t u cus"

lemma kids_length: "has_kids E c t u cus \<Longrightarrow> length cus = length (egSlots t)"
  by (induction rule: has_kids.induct) (auto elim: is_leaf.elims)

text \<open>They depend on the shape alone.\<close>

lemma egSlots_fill: "length ks = length (egSlots t) \<Longrightarrow> egSlots (egFill t ks) = ks"
  by (cases t) (auto simp: length_Suc_conv intro: nth_equalityI)

lemma egFill_slots: "egFill t (egSlots t) = t"
  by (cases t) (auto simp: map_nth)

lemma egFill_fill: "length ks = length (egSlots t) \<Longrightarrow> egFill (egFill t ks) ks' = egFill t ks'"
  by (cases t) auto

lemma kids_fill: "length ks = length (egSlots t) \<Longrightarrow> has_kids E c t u cus \<Longrightarrow> has_kids E c (egFill t ks) u cus"
proof -
  assume len: "length ks = length (egSlots t)" and "has_kids E c t u cus"
  from this(2) len show ?thesis
  proof cases
    case kids_leaf
    then show ?thesis by (cases t) (auto intro: has_kids.kids_leaf)
  next
    case (kids_Match g ts h d arms a)
    then have "ctors_of d \<noteq> []" by auto
    with kids_Match len show ?thesis
      using has_kids.kids_Match [of E g ts h d "map (\<lambda>i. ks ! Suc i) [0..<length arms]" c "ks ! 0" u] len by simp
  qed (auto intro: has_kids.intros)
qed

subsection \<open>Congruence and typing through the children\<close>

definition kids_typed :: "env \<Rightarrow> (ctx \<times> ty) list \<Rightarrow> trm list \<Rightarrow> bool" where
  "kids_typed E cus ks \<longleftrightarrow> list_all2 (\<lambda>(c, u) k. ctx_wf E c \<and> typed E c k u) cus ks"

lemma typed_kids:
  assumes E: "sound_env E" and t: "typed E c t u" "ctx_wf E c"
  shows "\<exists>cus. has_kids E c t u cus \<and> kids_typed E cus (egSlots t)"
  using t(1)
proof cases
  case (typed_Prim op as ts)
  then show ?thesis using t(2)
    by (intro exI [of _ "map (Pair c) ts"] conjI)
      (auto intro!: kids_Prim simp: prim_rule_def kids_typed_def list_all2_map1 list_all2_conv_all_nth)
next
  case (typed_Eq v a b)
  then show ?thesis using t(2)
    by (intro exI [of _ "[(c, v), (c, v)]"] conjI)
      (auto intro!: kids_Prim [where us = "[v, v]", simplified] simp: prim_rule_def kids_typed_def)
next
  case (typed_Ctor h ts cs i as)
  then show ?thesis using t(2)
    by (intro exI [of _ "map (Pair c) (instCtorFields (DData (length ts) cs) h ts i)"] conjI)
      (auto intro!: kids_Ctor simp: kids_typed_def list_all2_map1 list_all2_conv_all_nth)
next
  case (typed_Match a g ts h d arms)
  have wf: "wfT E (TData g ts)" using typed_wf [OF typed_Match(2) _ t(2)] E by (simp add: sound_env_def)
  obtain cs where cs: "d = DData (length ts) cs" using wf typed_Match by (auto split: def.splits)
  have st: "store_wf (est E)" using E by (simp add: sound_env_def checked_wf)
  have f: "list_all (wfT E) (instCtorFields d g ts i)" if "i < length arms" for i
    using instCtorFields_wf [of "est E" g ts cs i "etv E"] st typed_Match that cs wf by (simp add: ctors_of_def)
  let ?cs = "map (\<lambda>i. (pushAll c (instCtorFields d g ts i), u)) [0..<length arms]"
  have "has_kids E c t u ((c, TData g ts) # ?cs)"
    unfolding typed_Match(1) by (rule kids_Match [OF wf typed_Match(3-6)])
  moreover have "list_all2 (\<lambda>(c, u) k. ctx_wf E c \<and> typed E c k u) ?cs arms"
    using typed_Match(7) f t(2) by (simp add: list_all2_map1 list_all2_conv_all_nth)
  ultimately show ?thesis
    using typed_Match(1,2) t(2) by (intro exI [of _ "(c, TData g ts) # ?cs"]) (simp add: kids_typed_def)
next
  case (typed_Record ns as ts)
  then show ?thesis using t(2)
    by (intro exI [of _ "map (Pair c) ts"] conjI)
      (auto intro!: kids_Record simp: kids_typed_def list_all2_map1 list_all2_conv_all_nth)
next
  case (typed_Field a ns ts f)
  have "wfT E (TRecord ns ts)" using typed_wf [OF typed_Field(2) _ t(2)] E by (simp add: sound_env_def)
  then show ?thesis using typed_Field t(2)
    by (intro exI [of _ "[(c, TRecord ns ts)]"] conjI) (auto intro!: kids_Field simp: kids_typed_def)
next
  case (typed_App f p a)
  then show ?thesis using t(2)
    by (intro exI [of _ "[(c, TFun p u), (c, p)]"] conjI) (auto intro!: kids_App simp: kids_typed_def)
next
  case (typed_Lam p b q)
  then show ?thesis using t(2) kids_Lam [of E p c b q]
    by (intro exI [of _ "[(pushCtx c p, q)]"] conjI) (auto simp: kids_typed_def pushCtx_def)
next
  case (typed_Let p a b)
  then show ?thesis using t(2) kids_Let [of E p c a b u]
    by (intro exI [of _ "[(c, p), (pushCtx c p, u)]"] conjI) (auto simp: kids_typed_def pushCtx_def)
next
  case (typed_If a b d)
  then show ?thesis using t(2)
    by (intro exI [of _ "[(c, TBool), (c, u), (c, u)]"] conjI) (auto intro!: kids_If simp: kids_typed_def)
qed (use t in \<open>auto intro!: exI [of _ "[]"] kids_leaf simp: kids_typed_def\<close>)

definition kids_equ :: "env \<Rightarrow> (ctx \<times> ty) list \<Rightarrow> trm list \<Rightarrow> trm list \<Rightarrow> bool" where
  "kids_equ E cus ks ks' \<longleftrightarrow> length ks = length cus \<and> length ks' = length cus \<and>
     (\<forall>i < length cus. equ E (fst (cus ! i)) (ks ! i) (ks' ! i) (snd (cus ! i)))"

lemma kids_equ_map: "kids_equ E (map (Pair c) us) ks ks' \<longleftrightarrow> equs E c ks ks' us"
  by (simp add: kids_equ_def equs_def)

lemma kids_equ_Cons:
  "kids_equ E ((c, u) # cus) ks ks' \<longleftrightarrow>
     (\<exists>x xs y ys. ks = x # xs \<and> ks' = y # ys \<and> equ E c x y u \<and> kids_equ E cus xs ys)"
  by (cases ks; cases ks') (auto simp: kids_equ_def nth_Cons split: nat.splits)

lemma kids_equ_Nil [simp]: "kids_equ E [] ks ks' \<longleftrightarrow> ks = [] \<and> ks' = []"
  by (auto simp: kids_equ_def)

lemma nth_all: "length ks = n \<Longrightarrow> map ((!) ks) [0..<n] = ks"
  using map_nth by blast

lemma kids_cong:
  assumes E: "sound_env E" and c: "ctx_wf E c" and k: "has_kids E c t u cus" and e: "kids_equ E cus ks ks'"
  shows "equ E c (egFill t ks) (egFill t ks') u"
  using k
proof cases
  case kids_leaf
  then have "egFill t ks = t" "egFill t ks' = t" by (cases t; simp)+
  then show ?thesis using kids_leaf equ_refl [OF E c] by simp
next
  case (kids_Prim op us as)
  then have "egFill t ks = Prim op ks" "egFill t ks' = Prim op ks'" using e by (auto simp: kids_equ_def nth_all)
  then show ?thesis using kids_Prim e equ_Prim [OF E] by (simp add: kids_equ_map)
next
  case (kids_Ctor h ts cs i us as)
  then have "egFill t ks = Ctor h i ts ks" "egFill t ks' = Ctor h i ts ks'" using e by (auto simp: kids_equ_def nth_all)
  then show ?thesis using kids_Ctor e equ_Ctor [OF E] by (simp add: kids_equ_map)
next
  case (kids_Record ns us as)
  then have "egFill t ks = Record ns ks" "egFill t ks' = Record ns ks'" using e by (auto simp: kids_equ_def nth_all)
  then show ?thesis using kids_Record e equ_Record by (simp add: kids_equ_map)
next
  case (kids_Match g ts h d arms a)
  obtain x xs where ks: "ks = x # xs" using e kids_Match by (auto simp: kids_equ_Cons)
  obtain y ys where ks': "ks' = y # ys" using e kids_Match by (auto simp: kids_equ_Cons)
  have x: "equ E c x y (TData g ts)" and len: "length xs = length arms" "length ys = length arms"
    and arms: "\<And>i. i < length arms \<Longrightarrow> equ E (pushAll c (instCtorFields d g ts i)) (xs ! i) (ys ! i) u"
    using e kids_Match(2) unfolding ks ks' kids_equ_Cons by (auto simp: kids_equ_def)
  have "equ E c (Match h x xs) (Match h y ys) u"
    using kids_Match len arms by (intro equ_Match [OF E x]) auto
  then show ?thesis using len unfolding ks ks' kids_Match(1) by (simp add: nth_all)
qed (use e E in \<open>auto simp: kids_equ_Cons intro!: equ_Lam equ_App equ_Let equ_If equ_Field\<close>)

text \<open>Children of one type each leave one type for the node, and one for each child.\<close>

lemma typed_unique: "typed E c t u \<Longrightarrow> typed E c t u' \<Longrightarrow> u' = u"
  using typed_complete [of E c t u] typed_complete [of E c t u'] by (simp add: synths_def)

lemma map_Pair_inj: "map (Pair c) us = map (Pair c) us' \<longleftrightarrow> us = us'"
  by (simp add: inj_on_def inj_map_eq_map [of "Pair c"] inj_def)

definition det_kids :: "(ctx \<times> ty) list \<Rightarrow> (ctx \<times> ty) list \<Rightarrow> bool" where
  "det_kids cus cus' \<longleftrightarrow> (\<forall>i < length cus. i < length cus' \<longrightarrow> fst (cus ! i) = fst (cus' ! i) \<longrightarrow> snd (cus ! i) = snd (cus' ! i))"

lemma det_kids_Cons: "det_kids ((c, u) # cus) ((c', u') # cus') \<longleftrightarrow> (c = c' \<longrightarrow> u = u') \<and> det_kids cus cus'"
  by (auto simp: det_kids_def nth_Cons split: nat.splits)

lemma det_kids_map: "length us = length us' \<Longrightarrow> det_kids (map (Pair c) us) (map (Pair c) us') \<longleftrightarrow> us = us'"
  by (auto simp: det_kids_def list_eq_iff_nth_eq)

lemma prim_rule_det: "prim_rule E op us u \<Longrightarrow> prim_rule E op us u' \<Longrightarrow> u' = u"
  by (auto simp: prim_rule_def split: if_splits)

lemma kids_unique:
  assumes k: "has_kids E c t u cus" and k': "has_kids E c t u' cus'" and d: "det_kids cus cus'"
  shows "u' = u \<and> cus' = cus"
  using k
proof cases
  case kids_leaf
  then show ?thesis using k' typed_unique by (auto elim!: kids_leafE)
next
  case (kids_Lam p b q)
  then show ?thesis using k' d by (auto elim!: kids_LamE simp: det_kids_Cons)
next
  case (kids_App f a p)
  then show ?thesis using k' d by (auto elim!: kids_AppE simp: det_kids_Cons)
next
  case (kids_Let p a b)
  then show ?thesis using k' d by (auto elim!: kids_LetE simp: det_kids_Cons)
next
  case (kids_If a b d)
  then show ?thesis using k' assms(3) by (auto elim!: kids_IfE simp: det_kids_Cons)
next
  case (kids_Prim op us as)
  obtain us' where us': "cus' = map (Pair c) us'" "prim_rule E op us' u'" "length as = length us'"
    using k' unfolding kids_Prim(1) by (auto elim: kids_PrimE)
  have "us' = us" using d us'(1,3) kids_Prim(2,4) by (simp add: det_kids_map)
  then show ?thesis using us' kids_Prim prim_rule_det by blast
next
  case (kids_Ctor h ts cs i us as)
  obtain cs' where cs': "map_of (sdefs (est E)) h = Some (DData (length ts) cs')" "u' = TData h ts"
      "cus' = map (Pair c) (instCtorFields (DData (length ts) cs') h ts i)"
    using k' unfolding kids_Ctor(1) by (rule kids_CtorE) simp_all
  then show ?thesis using kids_Ctor by simp
next
  case (kids_Match g ts h d arms a)
  obtain g' ts' d' where g': "map_of (sdefs (est E)) g' = Some d'" "length arms = length (ctors_of d')"
      "cus' = (c, TData g' ts') # map (\<lambda>i. (pushAll c (instCtorFields d' g' ts' i), u')) [0..<length arms]"
    using k' unfolding kids_Match(1) by (rule kids_MatchE) simp_all
  have gt: "g' = g" "ts' = ts" using assms(3) unfolding kids_Match(2) g'(3) det_kids_Cons by simp_all
  then have "d' = d" using g'(1) kids_Match by simp
  then have "u' = u" using assms(3) kids_Match(7) unfolding kids_Match(2) g'(3) det_kids_Cons gt
    by (auto simp: det_kids_def)
  then show ?thesis using g' gt \<open>d' = d\<close> kids_Match(2) by simp
next
  case (kids_Record ns us as)
  obtain us' where "u' = TRecord ns us'" "cus' = map (Pair c) us'" "length as = length us'"
    using k' unfolding kids_Record(1) by (rule kids_RecordE) simp_all
  then show ?thesis using d kids_Record(2-5) by (simp add: det_kids_map)
next
  case (kids_Field ns ts f a)
  then show ?thesis using k' d by (auto elim!: kids_FieldE simp: det_kids_Cons)
qed

subsection \<open>Meanings of nodes\<close>

definition Mt :: "env \<Rightarrow> trm \<Rightarrow> meaning list \<Rightarrow> meaning" where
  "Mt E s Ms c u t \<longleftrightarrow>
     ctx_wf E c \<and> length Ms = length (egSlots s) \<and>
     (\<exists>cus ks. has_kids E c s u cus \<and> list_all2 (\<lambda>M ((c, u), k). M c u k) Ms (zip cus ks) \<and> length ks = length cus \<and>
        equ E c (egFill s ks) t u)"

lemma chosen:
  assumes "list_all2 (\<lambda>M ((c, u), k). M c u k) Ms (zip cus ks)" "length ks = length cus"
  shows "length Ms = length cus" "i < length cus \<Longrightarrow> (Ms ! i) (fst (cus ! i)) (snd (cus ! i)) (ks ! i)"
  using assms list_all2_nthD2 [OF assms(1), of i] by (auto dest: list_all2_lengthD split: prod.splits)

lemma mwf_Mt:
  assumes E: "sound_env E" and Ms: "list_all (mwf E) Ms"
  shows "mwf E (Mt E s Ms)"
  unfolding mwf_def
proof (intro conjI allI impI)
  fix c u t
  assume m: "Mt E s Ms c u t"
  then show "ctx_wf E c" "typed E c t u" by (auto simp: Mt_def dest: equD)
  show "Mt E s Ms c u t'" if "equ E c t t' u" for t'
    using m that equ_trans' [OF E] unfolding Mt_def by blast
  fix u' t'
  assume m': "Mt E s Ms c u' t'"
  obtain cus ks where k: "has_kids E c s u cus" "list_all2 (\<lambda>M ((c, u), k). M c u k) Ms (zip cus ks)" "length ks = length cus"
    "equ E c (egFill s ks) t u" using m by (auto simp: Mt_def)
  obtain cus' ks' where k': "has_kids E c s u' cus'" "list_all2 (\<lambda>M ((c, u), k). M c u k) Ms (zip cus' ks')" "length ks' = length cus'"
    "equ E c (egFill s ks') t' u'" using m' by (auto simp: Mt_def)
  note ch = chosen [OF k(2,3)] chosen [OF k'(2,3)]
  have w: "mwf E (Ms ! i)" if "i < length cus" for i using Ms ch(1) that by (simp add: list_all_length)
  have "det_kids cus cus'"
    using ch(2,4) mwfD(2) [OF w] unfolding det_kids_def by metis
  then have eq: "u' = u" "cus' = cus" using kids_unique [OF k(1) k'(1)] by blast+
  then show "u' = u" by simp
  have "kids_equ E cus ks ks'"
    using ch(2,4) mwfD(2) [OF w] k(3) k'(3) unfolding kids_equ_def eq by blast
  then have "equ E c (egFill s ks) (egFill s ks') u" using m by (intro kids_cong [OF E _ k(1)]) (simp add: Mt_def)
  then show "equ E c t t' u" using k(4) k'(4) equ_trans' [OF E] equ_sym unfolding eq by metis
qed

end
