(* ===== verification/EgGraph.thy ===== *)
theory EgGraph
  imports EgNodes
begin

text \<open>
  The invariant of the graph: an assignment of meanings to classes under which every node
  means what its class does. Adding nodes extends it; unions, rebuilding and the rules keep it.
\<close>

subsection \<open>Keys\<close>

definition dig :: "nat \<Rightarrow> char" where
  "dig k = char_of (48 + k)"

lemma of_char_dig: "k < 10 \<Longrightarrow> of_char (dig k) = 48 + k"
  unfolding dig_def of_char_of by simp

lemma dig_inj: "j < 10 \<Longrightarrow> k < 10 \<Longrightarrow> dig j = dig k \<longleftrightarrow> j = k"
  using of_char_dig by (metis add_left_cancel)

lemma dig_bar: "k < 10 \<Longrightarrow> dig k \<noteq> CHR ''|''"
proof
  assume "k < 10" "dig k = CHR ''|''"
  then have "(of_char (CHR ''|'') :: nat) = 48 + k" using of_char_dig by metis
  moreover have "(of_char (CHR ''|'') :: nat) = 124" by simp
  ultimately show False using \<open>k < 10\<close> by linarith
qed

lemma dec_str_rec: "dec_str n = (if n < 10 then [dig n] else dec_str (n div 10) @ [dig (n mod 10)])"
  unfolding dig_def by (rule dec_str.simps)

lemma dec_str_bar: "CHR ''|'' \<notin> set (dec_str n)"
proof (induction n rule: dec_str.induct)
  case (1 n)
  then show ?case using dig_bar [of n] dig_bar [of "n mod 10"]
    by (subst dec_str_rec) (auto simp: eq_commute [of "CHR ''|''"])
qed

lemma dec_str_nonempty [simp]: "dec_str n \<noteq> []"
  by (subst dec_str_rec) simp

lemma dec_str_inj: "dec_str m = dec_str n \<Longrightarrow> m = n"
proof (induction m arbitrary: n rule: dec_str.induct)
  case (1 m)
  show ?case
  proof (cases "m < 10")
    case True
    then have "dec_str n = [dig m]" using "1.prems" dec_str_rec [of m] by simp
    then have "n < 10 \<and> dig n = dig m"
      using dec_str_rec [of n] dec_str_nonempty [of "n div 10"] by (auto split: if_splits)
    then show ?thesis using True dig_inj by metis
  next
    case False
    then have m: "dec_str n = dec_str (m div 10) @ [dig (m mod 10)]" using "1.prems" dec_str_rec [of m] by simp
    then have "\<not> n < 10"
      using dec_str_rec [of n] dec_str_nonempty [of "m div 10", symmetric] by (auto split: if_splits)
    then have "dec_str (m div 10) @ [dig (m mod 10)] = dec_str (n div 10) @ [dig (n mod 10)]"
      using m dec_str_rec [of n] by simp
    then have d: "dec_str (m div 10) = dec_str (n div 10)" "dig (m mod 10) = dig (n mod 10)" by simp_all
    have "m div 10 = n div 10" by (rule "1.IH" [OF False d(1)])
    moreover have "m mod 10 = n mod 10" using d(2) dig_inj [of "m mod 10" "n mod 10"] by simp
    ultimately show ?thesis by (metis div_mult_mod_eq)
  qed
qed

definition bars :: "nat list \<Rightarrow> string" where
  "bars as = concat (map (\<lambda>a. CHR ''|'' # dec_str a) as)"

lemma bars_simps [simp]: "bars [] = []" "bars (a # as) = CHR ''|'' # dec_str a @ bars as"
  by (simp_all add: bars_def)

lemma bar_split:
  assumes "CHR ''|'' \<notin> set xs" "CHR ''|'' \<notin> set ys" "xs @ bars as = ys @ bars cs"
  shows "xs = ys \<and> bars as = bars cs"
proof -
  have t: "takeWhile (\<lambda>c. c \<noteq> CHR ''|'') (zs @ bars bs') = zs" if "CHR ''|'' \<notin> set zs" for zs bs'
    using that by (cases bs') (auto simp: takeWhile_append)
  have "xs = ys" using t [OF assms(1)] t [OF assms(2)] assms(3) by metis
  then show ?thesis using assms(3) by simp
qed

lemma bars_inj: "bars as = bars cs \<Longrightarrow> as = cs"
proof (induction as arbitrary: cs)
  case Nil
  then show ?case by (cases cs) simp_all
next
  case (Cons a as)
  then obtain c cs' where c: "cs = c # cs'" "dec_str a @ bars as = dec_str c @ bars cs'" by (cases cs) auto
  from bar_split [OF dec_str_bar dec_str_bar c(2)] show ?case using Cons.IH c(1) dec_str_inj by blast
qed

lemma str_bytes_inj [simp]: "str_bytes s = str_bytes s' \<longleftrightarrow> s = s'"
  by (metis bytes_str_str_bytes)

lemma str_bytes_append: "str_bytes (s @ s') = str_bytes s @ str_bytes s'"
  by (simp add: str_bytes_def)

lemma str_bytes_bars: "concat (map (\<lambda>a. str_bytes (CHR ''|'' # dec_str a)) as) = str_bytes (bars as)"
  by (induction as) (simp_all add: str_bytes_append [symmetric] str_bytes_def)

lemma egKey_eq: "egKey n = nsym n @ str_bytes (bars (nargs n))"
  by (simp add: egKey_def str_bytes_bars)

text \<open>Well-formed nodes, and what their keys determine.\<close>

definition tag_ty :: "string \<Rightarrow> ty" where
  "tag_ty tag = (if tag = ''int'' then TInt else TRat)"

definition ac_ok :: "egnode \<Rightarrow> bool" where
  "ac_ok n \<longleftrightarrow> (\<exists>tag. nsym n = egACSym (nop n) tag \<and> (nop n = ''+'' \<or> nop n = ''*'') \<and> (tag = ''int'' \<or> tag = ''rat'')) \<and>
     2 \<le> length (nargs n)"

definition node_ok :: "egnode \<Rightarrow> bool" where
  "node_ok n \<longleftrightarrow>
     (if nac n then ac_ok n
      else \<exists>s. ntmpl n = Some s \<and> admitted s \<and> nsym n = str_bytes ''t|'' @ key s \<and> length (nargs n) = length (egSlots s))"

definition node_ty :: "egnode \<Rightarrow> ty" where
  "node_ty n = (if nsym n = egACSym (nop n) ''int'' then TInt else TRat)"

definition sem :: "env \<Rightarrow> egnode \<Rightarrow> meaning list \<Rightarrow> meaning" where
  "sem E n Ms = (if nac n then Ma E (nop n) (node_ty n) Ms else Mt E (the (ntmpl n)) Ms)"

lemma ac_sym_inj:
  assumes "egACSym op tag @ str_bytes xs = egACSym op' tag' @ str_bytes ys"
    "op = ''+'' \<or> op = ''*''" "op' = ''+'' \<or> op' = ''*''" "tag = ''int'' \<or> tag = ''rat''" "tag' = ''int'' \<or> tag' = ''rat''"
  shows "op' = op \<and> tag' = tag \<and> ys = xs"
  using assms by (elim disjE) (simp_all add: egACSym_def flip: str_bytes_append)

lemma key_parts:
  assumes n: "node_ok n" and n': "node_ok n'" and k: "nsym n @ str_bytes xs = nsym n' @ str_bytes ys"
  shows "nsym n' = nsym n \<and> ys = xs \<and> nac n' = nac n \<and> (nac n \<longrightarrow> nop n' = nop n) \<and> (\<not> nac n \<longrightarrow> ntmpl n' = ntmpl n)"
proof (cases "nac n")
  case True
  then obtain tag where a: "nsym n = egACSym (nop n) tag" "nop n = ''+'' \<or> nop n = ''*''" "tag = ''int'' \<or> tag = ''rat''"
    using n by (auto simp: node_ok_def ac_ok_def)
  have "nac n'"
  proof (rule ccontr)
    assume "\<not> nac n'"
    then have "hd (nsym n' @ str_bytes ys) = hd (str_bytes ''t'')" using n' by (auto simp: node_ok_def str_bytes_def)
    moreover have "hd (nsym n @ str_bytes xs) = hd (str_bytes ''a'')" by (simp add: a(1) egACSym_def str_bytes_def)
    ultimately have "str_bytes ''t'' = str_bytes ''a''" using k by (simp add: str_bytes_def)
    then show False by simp
  qed
  then obtain tag' where a': "nsym n' = egACSym (nop n') tag'" "nop n' = ''+'' \<or> nop n' = ''*''" "tag' = ''int'' \<or> tag' = ''rat''"
    using n' by (auto simp: node_ok_def ac_ok_def)
  show ?thesis using ac_sym_inj [OF k [unfolded a(1) a'(1)] a(2) a'(2) a(3) a'(3)] a a' True \<open>nac n'\<close> by simp
next
  case False
  then obtain s where s: "ntmpl n = Some s" "admitted s" "nsym n = str_bytes ''t|'' @ key s" using n by (auto simp: node_ok_def)
  have "\<not> nac n'"
  proof
    assume "nac n'"
    then have "hd (nsym n' @ str_bytes ys) = hd (str_bytes ''a'')" using n' by (auto simp: node_ok_def ac_ok_def egACSym_def str_bytes_def)
    moreover have "hd (nsym n @ str_bytes xs) = hd (str_bytes ''t'')" by (simp add: s(3) str_bytes_def)
    ultimately have "str_bytes ''t'' = str_bytes ''a''" using k by (simp add: str_bytes_def)
    then show False by simp
  qed
  then obtain s' where s': "ntmpl n' = Some s'" "admitted s'" "nsym n' = str_bytes ''t|'' @ key s'" using n' by (auto simp: node_ok_def)
  have "trm_bytes s @ str_bytes xs = trm_bytes s' @ str_bytes ys"
    using k s s' by (simp add: admitted_def key_eq)
  then have "s = s' \<and> str_bytes xs = str_bytes ys"
    using s(2) s'(2) trmc.self_delimiting [of s s' "str_bytes xs" "str_bytes ys"] by (simp add: admitted_def)
  then show ?thesis using s s' False \<open>\<not> nac n'\<close> by simp
qed

lemma key_sem:
  assumes "node_ok n" "node_ok n'" "egKey n = egKey n'"
  shows "nargs n' = nargs n \<and> sem E n' = sem E n"
proof -
  note k = key_parts [OF assms(1,2) assms(3) [unfolded egKey_eq]]
  then have "nargs n' = nargs n" using bars_inj by blast
  then show ?thesis using k by (auto simp: sem_def fun_eq_iff node_ty_def)
qed

subsection \<open>The invariant\<close>

definition node_in :: "env \<Rightarrow> (nat \<Rightarrow> meaning) \<Rightarrow> nat \<Rightarrow> egnode \<Rightarrow> nat \<Rightarrow> bool" where
  "node_in E D N n a \<longleftrightarrow>
     node_ok n \<and> a < N \<and> (\<forall>x \<in> set (nargs n). x < N) \<and> D a = sem E n (map D (nargs n))"

definition ginv :: "env \<Rightarrow> (nat \<Rightarrow> meaning) \<Rightarrow> egraph \<Rightarrow> bool" where
  "ginv E D g \<longleftrightarrow>
     (\<forall>a. mwf E (D a)) \<and> length (gcls g) = length (gnodes g) \<and>
     (\<forall>a < length (gparent g). gparent g ! a \<le> a \<and> D (gparent g ! a) = D a) \<and>
     (\<forall>i < length (gnodes g). node_in E D (length (gparent g)) (gnodes g ! i) (gcls g ! i)) \<and>
     (\<forall>k a. gcons g k = Some a \<longrightarrow> (\<exists>n. egKey n = k \<and> node_in E D (length (gparent g)) n a))"

lemma ginvD:
  assumes "ginv E D g"
  shows "mwf E (D a)" "length (gcls g) = length (gnodes g)"
    "a < length (gparent g) \<Longrightarrow> gparent g ! a \<le> a \<and> D (gparent g ! a) = D a"
    "i < length (gnodes g) \<Longrightarrow> node_in E D (length (gparent g)) (gnodes g ! i) (gcls g ! i)"
    "gcons g k = Some a \<Longrightarrow> \<exists>n. egKey n = k \<and> node_in E D (length (gparent g)) n a"
  using assms by (auto simp: ginv_def)

definition gext :: "env \<Rightarrow> (nat \<Rightarrow> meaning) \<Rightarrow> egraph \<Rightarrow> (nat \<Rightarrow> meaning) \<Rightarrow> egraph \<Rightarrow> bool" where
  "gext E D g D' g' \<longleftrightarrow>
     ginv E D' g' \<and> length (gparent g) \<le> length (gparent g') \<and> (\<forall>a < length (gparent g). D' a = D a) \<and>
     (\<exists>ns. gnodes g' = gnodes g @ ns) \<and> (\<exists>cs. gcls g' = gcls g @ cs)"

lemma gext_refl: "ginv E D g \<Longrightarrow> gext E D g D g"
  by (simp add: gext_def)

lemma gext_trans: "gext E D g D1 g1 \<Longrightarrow> gext E D1 g1 D2 g2 \<Longrightarrow> gext E D g D2 g2"
  unfolding gext_def by auto

lemma gextD:
  assumes "gext E D g D' g'"
  shows "ginv E D' g'" "length (gparent g) \<le> length (gparent g')" "a < length (gparent g) \<Longrightarrow> D' a = D a"
    "i < length (gnodes g) \<Longrightarrow> i < length (gnodes g') \<and> gnodes g' ! i = gnodes g ! i"
    "i < length (gcls g) \<Longrightarrow> gcls g' ! i = gcls g ! i"
  using assms by (auto simp: gext_def nth_append)

lemma gext_map: "gext E D g D' g' \<Longrightarrow> \<forall>x \<in> set as. x < length (gparent g) \<Longrightarrow> map D' as = map D as"
  by (simp add: gextD(3))

lemma find_ok:
  assumes "ginv E D g"
  shows "a < length (gparent g) \<Longrightarrow> egFind g a < length (gparent g) \<and> egFind g a \<le> a \<and> D (egFind g a) = D a"
  unfolding egFind_def
proof (induction "gparent g" a rule: uf_find.induct)
  case (1 a)
  show ?case
  proof (cases "gparent g ! a < a")
    case True
    then have "uf_find (gparent g) a = uf_find (gparent g) (gparent g ! a)" using 1 by (subst uf_find.simps) simp
    then show ?thesis using 1 True ginvD(3) [OF assms "1.prems"] by simp
  next
    case False
    then have "uf_find (gparent g) a = a" by (subst uf_find.simps) simp
    then show ?thesis using 1 by simp
  qed
qed

lemma ac_arith: "ac_ok n \<Longrightarrow> arith (nop n) (node_ty n)"
  by (auto simp: ac_ok_def arith_def node_ty_def)

lemma sem_wf:
  assumes "sound_env E" "node_ok n" "list_all (mwf E) Ms" "length Ms = length (nargs n)"
  shows "mwf E (sem E n Ms)"
proof (cases "nac n")
  case True
  then have "ac_ok n" using assms(2) by (simp add: node_ok_def)
  moreover from this have "Ms \<noteq> []" using assms(4) by (auto simp: ac_ok_def)
  ultimately show ?thesis using mwf_Ma [OF ac_arith assms(1,3)] True by (simp add: sem_def)
next
  case False
  then show ?thesis using mwf_Mt [OF assms(1,3)] by (simp add: sem_def)
qed

lemma nargs_canon: "set (nargs (egCanon g n)) = egFind g ` set (nargs n)" "length (nargs (egCanon g n)) = length (nargs n)"
    "nac (egCanon g n) = nac n" "nop (egCanon g n) = nop n" "nsym (egCanon g n) = nsym n" "ntmpl (egCanon g n) = ntmpl n"
  by (simp_all add: egCanon_def Let_def)

lemma canon_node:
  assumes E: "sound_env E" and g: "ginv E D g" and n: "\<forall>x \<in> set (nargs n). x < length (gparent g)"
    and ok: "nac n \<Longrightarrow> arith (nop n) (node_ty n) \<and> nargs n \<noteq> []"
  shows "sem E (egCanon g n) (map D (nargs (egCanon g n))) = sem E n (map D (nargs n))"
    "\<forall>x \<in> set (nargs (egCanon g n)). x < length (gparent g)"
proof -
  have f: "map D (map (egFind g) (nargs n)) = map D (nargs n)" using find_ok [OF g] n by simp
  show "\<forall>x \<in> set (nargs (egCanon g n)). x < length (gparent g)"
    using find_ok [OF g] n by (auto simp: nargs_canon)
  show "sem E (egCanon g n) (map D (nargs (egCanon g n))) = sem E n (map D (nargs n))"
  proof (cases "nac n")
    case True
    let ?as = "map (egFind g) (nargs n)"
    have "Ma E (nop n) (node_ty n) (map D (sort ?as)) = Ma E (nop n) (node_ty n) (map D ?as)"
      using ok [OF True] ginvD(1) [OF g] by (intro Ma_perm [OF _ E]) (auto simp: list_all_iff multiset.map_comp)
    then show ?thesis unfolding f using True by (simp add: sem_def egCanon_def Let_def node_ty_def)
  next
    case False
    then show ?thesis using f by (simp add: sem_def egCanon_def Let_def del: map_map)
  qed
qed

lemma canon_ok: "node_ok n \<Longrightarrow> node_ok (egCanon g n)"
  by (auto simp: node_ok_def ac_ok_def nargs_canon split: if_splits)

lemma node_arith: "node_ok n \<Longrightarrow> nac n \<Longrightarrow> arith (nop n) (node_ty n) \<and> nargs n \<noteq> []"
  using ac_arith [of n] by (auto simp: node_ok_def ac_ok_def)

lemma canon_in:
  assumes E: "sound_env E" and g: "ginv E D g" and n: "node_in E D (length (gparent g)) n a"
  shows "node_in E D (length (gparent g)) (egCanon g n) (egFind g a)"
  using canon_node [OF E g, of n] n canon_ok [of n g] node_arith [of n] find_ok [OF g, of a]
  by (auto simp: node_in_def)

subsection \<open>Union and insertion\<close>

lemma egUnion_ext:
  assumes g: "ginv E D g" and a: "a < length (gparent g)" "b < length (gparent g)" "D a = D b"
  shows "gext E D g D (fst (egUnion g a b))"
proof (cases "egFind g a = egFind g b")
  case True
  then show ?thesis using gext_refl [OF g] by (simp add: egUnion_def)
next
  case False
  let ?x = "max (egFind g a) (egFind g b)" and ?y = "min (egFind g a) (egFind g b)"
  note f = find_ok [OF g a(1)] find_ok [OF g a(2)]
  have "D ?x = D ?y" "?y \<le> ?x" using f a(3) by (auto simp: max_def min_def)
  then have "(gparent g)[?x := ?y] ! z \<le> z \<and> D ((gparent g)[?x := ?y] ! z) = D z" if "z < length (gparent g)" for z
    using ginvD(3) [OF g that] that by (cases "z = ?x") simp_all
  then have "ginv E D (g\<lparr>gparent := (gparent g)[?x := ?y]\<rparr>)" using g by (simp add: ginv_def)
  then show ?thesis using False by (simp add: egUnion_def Let_def gext_def)
qed

lemma node_in_ext:
  "node_in E D N n a \<Longrightarrow> (\<forall>x < N. D' x = D x) \<Longrightarrow> N \<le> N' \<Longrightarrow> node_in E D' N' n a"
proof -
  assume n: "node_in E D N n a" and D: "\<forall>x < N. D' x = D x" and "N \<le> N'"
  moreover have m: "map D' (nargs n) = map D (nargs n)" using n D by (auto simp: node_in_def)
  ultimately show ?thesis unfolding node_in_def m by auto
qed

definition pre_ok :: "egnode \<Rightarrow> bool" where
  "pre_ok n \<longleftrightarrow> node_ok n \<or> nac n \<and> length (nargs n) = 1"

lemma egAdd_ext:
  assumes E: "sound_env E" and g: "ginv E D g" and n: "pre_ok n" "\<forall>x \<in> set (nargs n). x < length (gparent g)"
  shows "\<exists>D'. gext E D g D' (fst (egAdd g n)) \<and> (\<forall>a. snd (egAdd g n) = Some a \<longrightarrow>
    a < length (gparent (fst (egAdd g n))) \<and>
    D' a = (if nac n \<and> length (nargs n) = 1 then D (hd (nargs n)) else sem E n (map D (nargs n))))"
proof (cases "nac n \<and> length (nargs n) = 1")
  case True
  then obtain x where x: "nargs n = [x]" by (auto simp: length_Suc_conv)
  then have "egAdd g n = (g, Some (egFind g x))" using True by (simp add: egAdd_def egCanon_def Let_def)
  then show ?thesis using True x n find_ok [OF g, of x] gext_refl [OF g] by auto
next
  case False
  let ?n = "egCanon g n" and ?N = "length (gparent g)"
  have ok: "node_ok n" "node_ok ?n" using n False canon_ok by (auto simp: pre_ok_def)
  note c = canon_node [OF E g n(2) node_arith [OF ok(1)]]
  show ?thesis
  proof (cases "gcons g (egKey ?n)")
    case (Some a)
    then obtain m where m: "egKey m = egKey ?n" "node_in E D ?N m a" using ginvD(5) [OF g] by blast
    have "D a = sem E n (map D (nargs n))"
      using key_sem [OF ok(2), of m] m c(1) by (auto simp: node_in_def)
    moreover have "a < ?N" using m(2) by (simp add: node_in_def)
    moreover have "egAdd g n = (g, Some (egFind g a))"
      using False Some by (auto simp: egAdd_def Let_def nargs_canon)
    ultimately show ?thesis using False find_ok [OF g, of a] gext_refl [OF g] by auto
  next
    case None
    show ?thesis
    proof (cases "bnodes (gbudget g) \<le> length (gnodes g)")
      case True
      then have "egAdd g n = (g\<lparr>gexhausted := True\<rparr>, None)"
        using False None by (auto simp: egAdd_def Let_def nargs_canon)
      moreover have "gext E D g D (g\<lparr>gexhausted := True\<rparr>)" using g by (simp add: gext_def ginv_def)
      ultimately show ?thesis by auto
    next
      case new: False
      let ?D = "D(?N := sem E ?n (map D (nargs ?n)))"
      let ?g = "g\<lparr>gparent := gparent g @ [?N], gnodes := gnodes g @ [?n], gcls := gcls g @ [?N],
        gcons := (gcons g)(egKey ?n \<mapsto> ?N)\<rparr>"
      have add: "egAdd g n = (?g, Some ?N)" using False None new by (auto simp: egAdd_def Let_def nargs_canon)
      have D: "\<forall>x < ?N. ?D x = D x" by simp
      have "mwf E (sem E ?n (map D (nargs ?n)))"
        using ginvD(1) [OF g] by (intro sem_wf [OF E ok(2)]) (simp_all add: list_all_iff)
      then have w: "mwf E (?D a)" for a using ginvD(1) [OF g] by simp
      have "map ?D (nargs ?n) = map D (nargs ?n)" using c(2) by auto
      then have self: "node_in E ?D (Suc ?N) ?n ?N" using ok(2) c(2) by (auto simp: node_in_def)
      have old: "node_in E ?D (Suc ?N) m a" if "node_in E D ?N m a" for m a
        by (rule node_in_ext [OF that D]) simp
      have "ginv E ?D ?g"
        unfolding ginv_def
      proof (intro conjI allI impI)
        show "mwf E (?D a)" for a by (rule w)
        show "length (gcls ?g) = length (gnodes ?g)" using ginvD(2) [OF g] by simp
        fix a assume "a < length (gparent ?g)"
        then have a: "a < ?N \<or> a = ?N" by auto
        then show "gparent ?g ! a \<le> a" using ginvD(3) [OF g] by (auto simp: nth_append)
        show "?D (gparent ?g ! a) = ?D a" using a ginvD(3) [OF g, of a] by (auto simp: nth_append)
      next
        fix i assume i: "i < length (gnodes ?g)"
        show "node_in E ?D (length (gparent ?g)) (gnodes ?g ! i) (gcls ?g ! i)"
        proof (cases "i < length (gnodes g)")
          case True
          then show ?thesis using old [OF ginvD(4) [OF g True]] ginvD(2) [OF g] by (simp add: nth_append)
        next
          case False
          then show ?thesis using i self ginvD(2) [OF g] by (simp add: nth_append)
        qed
      next
        fix k a assume k: "gcons ?g k = Some a"
        show "\<exists>n. egKey n = k \<and> node_in E ?D (length (gparent ?g)) n a"
        proof (cases "k = egKey ?n")
          case True
          then show ?thesis using k self by auto
        next
          case False
          then obtain m where "egKey m = k" "node_in E D ?N m a" using k ginvD(5) [OF g] by auto
          then show ?thesis using old by auto
        qed
      qed
      then have "gext E D g ?D ?g" by (simp add: gext_def)
      then show ?thesis using add False c(1) by auto
    qed
  qed
qed

end
