(* ===== verification/EgRules.thy ===== *)
theory EgRules
  imports EgGraph
begin

text \<open>
  The rules of saturation and the closure under congruence keep the invariant: each union is
  of classes with equal meanings.
\<close>

subsection \<open>Chain nodes\<close>

definition tag_ok :: "string \<Rightarrow> bool" where
  "tag_ok tag \<longleftrightarrow> tag = ''int'' \<or> tag = ''rat''"

definition op_ok :: "string \<Rightarrow> bool" where
  "op_ok op \<longleftrightarrow> op = ''+'' \<or> op = ''*''"

lemma op_ok_simps [simp]: "op_ok ''+''" "op_ok ''*''"
  by (simp_all add: op_ok_def)

lemma tag_arith: "tag_ok tag \<Longrightarrow> op_ok op \<Longrightarrow> arith op (tag_ty tag)"
  by (auto simp: tag_ok_def op_ok_def arith_def tag_ty_def)

lemma tag_ty_ground: "tag_ty tag = TInt \<or> tag_ty tag = TRat"
  by (simp add: tag_ty_def)

lemma ac_sym_eq:
  "op_ok op \<Longrightarrow> op_ok op' \<Longrightarrow> tag_ok tag \<Longrightarrow> tag_ok tag' \<Longrightarrow> egACSym op tag = egACSym op' tag' \<longleftrightarrow> op' = op \<and> tag' = tag"
  using ac_sym_inj [of op tag "[]" op' tag' "[]"] by (auto simp: op_ok_def tag_ok_def)

lemma node_tag:
  "tag_ok tag \<Longrightarrow> op_ok (nop n) \<Longrightarrow> nsym n = egACSym (nop n) tag \<Longrightarrow> node_ty n = tag_ty tag"
  using ac_sym_eq [of "nop n" "nop n" tag "''int''"] by (auto simp: node_ty_def tag_ty_def tag_ok_def)

text \<open>The chain node of an operator and a tag in the graph, and the meaning of its class.\<close>

definition chain_in :: "env \<Rightarrow> (nat \<Rightarrow> meaning) \<Rightarrow> nat \<Rightarrow> string \<Rightarrow> string \<Rightarrow> egnode \<Rightarrow> nat \<Rightarrow> bool" where
  "chain_in E D N op tag n a \<longleftrightarrow>
     node_ok n \<and> nac n \<and> nop n = op \<and> nsym n = egACSym op tag \<and> a < N \<and> (\<forall>x \<in> set (nargs n). x < N) \<and>
     D a = Ma E op (tag_ty tag) (map D (nargs n))"

lemma chain_inI:
  assumes n: "node_in E D N n a" and s: "nsym n = egACSym op tag" "op_ok op" "tag_ok tag"
  shows "chain_in E D N op tag n a"
proof -
  let ?m = "ac_node (egACSym op tag) op [0, 0]"
  have "node_ok ?m" using s by (auto simp: node_ok_def ac_ok_def ac_node_def op_ok_def tag_ok_def)
  from key_parts [OF this, of n "[]" "[]"] n s(1) have m: "nac n" "nop n = op"
    by (simp_all add: node_in_def ac_node_def)
  then have "node_ty n = tag_ty tag" using node_tag [OF s(3), of n] s by simp
  then show ?thesis using n m s(1) by (simp add: chain_in_def node_in_def sem_def)
qed

lemma chain_in_node: "chain_in E D N op tag n a \<Longrightarrow> op_ok op \<Longrightarrow> tag_ok tag \<Longrightarrow> node_in E D N n a"
  using node_tag [of tag n] by (auto simp: chain_in_def node_in_def sem_def)

lemma chain_in_ext:
  assumes "chain_in E D (length (gparent g)) op tag n a" "gext E D g D' g'"
  shows "chain_in E D' (length (gparent g')) op tag n a"
proof -
  have m: "map D' (nargs n) = map D (nargs n)" using assms(1) by (intro gext_map [OF assms(2)]) (simp add: chain_in_def)
  show ?thesis using assms gextD(2,3) [OF assms(2)] unfolding chain_in_def m by fastforce
qed

lemma chain_args: "chain_in E D N op tag n a \<Longrightarrow> 2 \<le> length (nargs n)"
  by (auto simp: chain_in_def node_ok_def ac_ok_def)

lemma add_ac:
  assumes E: "sound_env E" and g: "ginv E D g" and s: "op_ok op" "tag_ok tag"
    and as: "as \<noteq> []" "\<forall>x \<in> set as. x < length (gparent g)"
    and r: "egAdd g (ac_node (egACSym op tag) op as) = (g', o')"
  obtains D' where "gext E D g D' g'"
    "\<And>a. o' = Some a \<Longrightarrow> a < length (gparent g') \<and> only (tag_ty tag) (D' a) = Ma E op (tag_ty tag) (map D as)"
    "\<And>a. o' = Some a \<Longrightarrow> 2 \<le> length as \<Longrightarrow> D' a = Ma E op (tag_ty tag) (map D as)"
    "\<And>a. o' = Some a \<Longrightarrow> length as = 1 \<Longrightarrow> D' a = D (hd as)"
proof -
  let ?n = "ac_node (egACSym op tag) op as"
  have n: "nac ?n" "nop ?n = op" "nsym ?n = egACSym op tag" "nargs ?n = as" by (simp_all add: ac_node_def)
  have l: "length as = 1 \<or> 2 \<le> length as" using as(1) by (cases as; cases "tl as") auto
  have "node_ok ?n" if "2 \<le> length as"
    using that s by (auto simp: node_ok_def ac_ok_def n op_ok_def tag_ok_def)
  then have ok: "pre_ok ?n" using l by (auto simp: pre_ok_def n)
  have ty: "node_ty ?n = tag_ty tag" using node_tag [of tag ?n] s by (simp add: n)
  have one: "only (tag_ty tag) (D x) = Ma E op (tag_ty tag) (map D [x])" for x
    using Ma_single [OF ginvD(1) [OF g] E] by simp
  from egAdd_ext [OF E g ok] as(2) r obtain D' where D': "gext E D g D' g'"
    "\<And>a. o' = Some a \<Longrightarrow> a < length (gparent g') \<and>
       D' a = (if length as = 1 then D (hd as) else Ma E op (tag_ty tag) (map D as))"
    by (auto simp: n sem_def ty)
  show thesis
  proof (rule that [OF D'(1)])
    fix a assume "o' = Some a"
    note a = D'(2) [OF this]
    show "a < length (gparent g') \<and> only (tag_ty tag) (D' a) = Ma E op (tag_ty tag) (map D as)"
    proof (cases "length as = 1")
      case True
      then obtain x where "as = [x]" by (auto simp: length_Suc_conv)
      then show ?thesis using a one by simp
    next
      case False
      then show ?thesis using a by simp
    qed
    show "D' a = Ma E op (tag_ty tag) (map D as)" if "2 \<le> length as" using a that by simp
    show "D' a = D (hd as)" if "length as = 1" using a that by simp
  qed
qed

subsection \<open>Meanings of chains\<close>

lemma chain_perm:
  assumes E: "sound_env E" and g: "ginv E D g" and s: "op_ok op" "tag_ok tag" and as: "as \<noteq> []" "mset as = mset cs"
  shows "Ma E op (tag_ty tag) (map D as) = Ma E op (tag_ty tag) (map D cs)"
  using as ginvD(1) [OF g] by (intro Ma_perm [OF tag_arith [OF s(2,1)] E]) (auto simp: list_all_iff)

text \<open>An argument whose class is a chain of the same operator.\<close>

lemma chain_flat:
  assumes E: "sound_env E" and g: "ginv E D g" and s: "op_ok op" "tag_ok tag" and cs: "cs \<noteq> []"
    and a: "only (tag_ty tag) (D a) = Ma E op (tag_ty tag) (map D cs)"
  shows "Ma E op (tag_ty tag) (map D (a # as)) = Ma E op (tag_ty tag) (map D (cs @ as))"
proof -
  let ?K = "tag_ty tag"
  have "Ma E op ?K (map D (a # as)) = Ma E op ?K (Ma E op ?K (map D cs) # map D as)"
    by (rule Ma_only_cong) (simp add: a)
  also have "\<dots> = Ma E op ?K (map D cs @ map D as)"
    using cs ginvD(1) [OF g] by (intro Ma_flat [OF tag_arith [OF s(2,1)] E]) (auto simp: list_all_iff)
  finally show ?thesis by simp
qed

lemma mset_nth_out: "i < length as \<Longrightarrow> mset as = mset (as ! i # take i as @ drop (Suc i) as)"
  by (subst id_take_nth_drop [of i as]) simp_all

lemma only_chain: "chain_in E D N op tag n a \<Longrightarrow> only (tag_ty tag) (D a) = Ma E op (tag_ty tag) (map D (nargs n))"
  by (simp add: chain_in_def)

subsection \<open>Flattening\<close>

definition hits :: "(nat \<Rightarrow> meaning) \<Rightarrow> egraph \<Rightarrow> meaning \<Rightarrow> nat list \<Rightarrow> bool" where
  "hits D g M ms \<longleftrightarrow> (\<forall>m \<in> set ms. m < length (gnodes g) \<and> D (gcls g ! m) = M)"

lemma hits_ext:
  assumes "ginv E D g" "gext E D g D' g'" "hits D g M ms"
  shows "hits D' g' M ms"
  unfolding hits_def
proof
  fix m assume "m \<in> set ms"
  then have m: "m < length (gnodes g)" "D (gcls g ! m) = M" using assms(3) by (auto simp: hits_def)
  have "gcls g ! m < length (gparent g)" using ginvD(4) [OF assms(1) m(1)] by (simp add: node_in_def)
  then show "m < length (gnodes g') \<and> D' (gcls g' ! m) = M"
    using m gextD(3-5) [OF assms(2)] ginvD(2) [OF assms(1)] by simp
qed

lemma union_ext:
  assumes e: "gext E D g D1 g1" and a: "a < length (gparent g)" and c: "c < length (gparent g1)" "D1 c = D a"
  shows "gext E D g D1 (fst (egUnion g1 c a))"
  using gext_trans [OF e egUnion_ext [OF gextD(1) [OF e] c(1), of a]] gextD(2,3) [OF e] a c(2) by simp

lemma flat_mids_ext:
  assumes E: "sound_env E" and s: "op_ok op" "tag_ok tag"
  shows "ginv E D g \<Longrightarrow> chain_in E D (length (gparent g)) op tag n a \<Longrightarrow> i < length (nargs n) \<Longrightarrow>
    hits D g (D (nargs n ! i)) ms \<Longrightarrow> \<exists>D'. gext E D g D' (fst (flat_mids g n i a ch ms))"
proof (induction ms arbitrary: D g ch)
  case Nil
  then show ?case using gext_refl by fastforce
next
  case (Cons mid ms)
  let ?m = "gnodes g ! mid" and ?K = "tag_ty tag" and ?N = "length (gparent g)"
  note g = Cons.prems(1) and n = Cons.prems(2) and i = Cons.prems(3)
  have n': "nsym n = egACSym op tag" "nop n = op" using n by (simp_all add: chain_in_def)
  show ?case
  proof (cases "nsym ?m = nsym n")
    case False
    then show ?thesis using Cons.IH [OF g n i] Cons.prems(4) by (simp add: hits_def)
  next
    case True
    have mid: "mid < length (gnodes g)" "D (gcls g ! mid) = D (nargs n ! i)" using Cons.prems(4) by (auto simp: hits_def)
    have m: "chain_in E D ?N op tag ?m (gcls g ! mid)"
      by (rule chain_inI [OF ginvD(4) [OF g mid(1)]]) (simp_all add: True n' s)
    let ?as = "take i (nargs n) @ drop (Suc i) (nargs n) @ nargs ?m"
    let ?r = "egAdd g (ac_node (egACSym op tag) op ?as)"
    have args: "\<forall>x \<in> set (nargs n). x < ?N" "\<forall>x \<in> set (nargs ?m). x < ?N" using n m by (simp_all add: chain_in_def)
    have as: "2 \<le> length ?as" "\<forall>x \<in> set ?as. x < ?N"
      using chain_args [OF m] args by (auto dest: in_set_takeD in_set_dropD)
    have "?as \<noteq> []" using as(1) by (metis list.size(3) not_numeral_le_zero)
    obtain g1 q where r: "?r = (g1, q)" by fastforce
    obtain D1 where D1: "gext E D g D1 g1" "\<And>c. q = Some c \<Longrightarrow> c < length (gparent g1) \<and> D1 c = Ma E op ?K (map D ?as)"
      by (rule add_ac [OF E g s \<open>?as \<noteq> []\<close> as(2) r]) (use as(1) in blast)
    have eq: "Ma E op ?K (map D ?as) = D a"
    proof -
      have "D a = Ma E op ?K (map D (nargs n))" using n by (simp add: chain_in_def)
      also have "\<dots> = Ma E op ?K (map D (nargs n ! i # take i (nargs n) @ drop (Suc i) (nargs n)))"
        using i by (intro chain_perm [OF E g s] mset_nth_out) auto
      also have "\<dots> = Ma E op ?K (map D (nargs ?m @ take i (nargs n) @ drop (Suc i) (nargs n)))"
        using only_chain [OF m] mid(2) chain_args [OF m] by (intro chain_flat [OF E g s]) auto
      also have "\<dots> = Ma E op ?K (map D ?as)"
        using chain_args [OF m] by (intro chain_perm [OF E g s]) auto
      finally show ?thesis ..
    qed
    show ?thesis
    proof (cases q)
      case None
      then show ?thesis using D1(1) True r n' by (auto simp: Let_def)
    next
      case (Some c)
      have c: "c < length (gparent g1)" "D1 c = D a" using D1(2) eq Some by simp_all
      have e: "gext E D g D1 (fst (egUnion g1 c a))" using D1(1) c n by (intro union_ext) (simp_all add: chain_in_def)
      have "D1 (nargs n ! i) = D (nargs n ! i)" using gextD(3) [OF e] args(1) i by simp
      then have "hits D1 (fst (egUnion g1 c a)) (D1 (nargs n ! i)) ms"
        using hits_ext [OF g e, of "D (nargs n ! i)" ms] Cons.prems(4) by (simp add: hits_def)
      from Cons.IH [OF gextD(1) [OF e] chain_in_ext [OF n e] i this]
      obtain D2 where "gext E D1 (fst (egUnion g1 c a)) D2
          (fst (flat_mids (fst (egUnion g1 c a)) n i a (ch \<or> snd (egUnion g1 c a)) ms))" by blast
      then have "gext E D g D2 (fst (flat_mids (fst (egUnion g1 c a)) n i a (ch \<or> snd (egUnion g1 c a)) ms))"
        by (rule gext_trans [OF e])
      moreover have "flat_mids g n i a ch (mid # ms) =
          flat_mids (fst (egUnion g1 c a)) n i a (ch \<or> snd (egUnion g1 c a)) ms"
        using True r Some n' by (simp add: Let_def split: prod.split)
      ultimately show ?thesis by auto
    qed
  qed
qed

definition index_ok :: "(nat \<Rightarrow> meaning) \<Rightarrow> egraph \<Rightarrow> (nat \<Rightarrow> nat list) \<Rightarrow> bool" where
  "index_ok D g idx \<longleftrightarrow> (\<forall>a m. m \<in> set (idx a) \<longrightarrow> a < length (gparent g) \<and> m < length (gnodes g) \<and> D (gcls g ! m) = D a)"

lemma index_ok_ext:
  assumes "ginv E D g" "gext E D g D' g'" "index_ok D g idx"
  shows "index_ok D' g' idx"
  unfolding index_ok_def
proof (intro allI impI)
  fix a m assume "m \<in> set (idx a)"
  then have m: "a < length (gparent g)" "hits D g (D a) [m]" using assms(3) by (auto simp: index_ok_def hits_def)
  have "hits D' g' (D a) [m]" by (rule hits_ext [OF assms(1,2) m(2)])
  then show "a < length (gparent g') \<and> m < length (gnodes g') \<and> D' (gcls g' ! m) = D' a"
    using m(1) gextD(2,3) [OF assms(2)] by (simp add: hits_def)
qed

lemma index_hits:
  "ginv E D g \<Longrightarrow> index_ok D g idx \<Longrightarrow> x < length (gparent g) \<Longrightarrow> hits D g (D x) (idx (egFind g x))"
  using find_ok [of E D g x] by (auto simp: index_ok_def hits_def)

lemma flat_args_ext:
  assumes E: "sound_env E" and s: "op_ok op" "tag_ok tag"
  shows "ginv E D g \<Longrightarrow> index_ok D g idx \<Longrightarrow> chain_in E D (length (gparent g)) op tag n a \<Longrightarrow>
    \<forall>i \<in> set is. i < length (nargs n) \<Longrightarrow> \<exists>D'. gext E D g D' (fst (flat_args idx g n a ch is))"
proof (induction "is" arbitrary: D g ch)
  case Nil
  then show ?case using gext_refl by fastforce
next
  case (Cons i js)
  note g = Cons.prems(1) and x = Cons.prems(2) and n = Cons.prems(3)
  have i: "i < length (nargs n)" "nargs n ! i < length (gparent g)" using Cons.prems(4) n by (auto simp: chain_in_def)
  obtain g1 ch1 go where r: "flat_mids g n i a ch (idx (egFind g (nargs n ! i))) = (g1, ch1, go)" by (metis prod_cases3)
  from flat_mids_ext [OF E s g n i(1) index_hits [OF g x i(2)], of ch]
  obtain D1 where D1: "gext E D g D1 g1" unfolding r by auto
  show ?case
  proof (cases go)
    case False
    then show ?thesis using D1 r by auto
  next
    case True
    from Cons.IH [OF gextD(1) [OF D1] index_ok_ext [OF g D1 x] chain_in_ext [OF n D1]]
    obtain D2 where "gext E D1 g1 D2 (fst (flat_args idx g1 n a ch1 js))" using Cons.prems(4) by auto
    then show ?thesis using True r gext_trans [OF D1] by auto
  qed
qed

lemma ruleFlatten_ext:
  assumes "sound_env E" "op_ok op" "tag_ok tag" "ginv E D g" "index_ok D g idx"
    "chain_in E D (length (gparent g)) op tag (gnodes g ! nid) a"
  shows "\<exists>D'. gext E D g D' (fst (ruleFlatten idx g nid a))"
  unfolding ruleFlatten_def Let_def by (rule flat_args_ext [OF assms]) simp

subsection \<open>Distribution\<close>

lemma dist_prods_ext:
  assumes E: "sound_env E" and s: "tag_ok tag" "nsym n = egACSym ''*'' tag"
  shows "ginv E D g \<Longrightarrow> \<forall>x \<in> set rs. x < length (gparent g) \<Longrightarrow> \<forall>x \<in> set qs. x < length (gparent g) \<Longrightarrow>
    \<exists>D'. gext E D g D' (fst (dist_prods g n rs qs)) \<and> (\<forall>cs. snd (dist_prods g n rs qs) = Some cs \<longrightarrow>
      (\<forall>c \<in> set cs. c < length (gparent (fst (dist_prods g n rs qs)))) \<and>
      map (\<lambda>c. only (tag_ty tag) (D' c)) cs = map (\<lambda>q. Ma E ''*'' (tag_ty tag) (map D (rs @ [q]))) qs)"
proof (induction qs arbitrary: D g)
  case Nil
  then show ?case using gext_refl by fastforce
next
  case (Cons q qs)
  let ?r = "egAdd g (ac_node (nsym n) ''*'' (rs @ [q]))" and ?K = "tag_ty tag"
  note g = Cons.prems(1)
  have as: "rs @ [q] \<noteq> []" "\<forall>x \<in> set (rs @ [q]). x < length (gparent g)" using Cons.prems by auto
  obtain g1 o1 where r: "?r = (g1, o1)" by fastforce
  obtain D1 where D1: "gext E D g D1 g1" "\<And>c. o1 = Some c \<Longrightarrow>
      c < length (gparent g1) \<and> only ?K (D1 c) = Ma E ''*'' ?K (map D (rs @ [q]))"
    by (rule add_ac [OF E g op_ok_simps(2) s(1) as r [unfolded s(2)]]) blast
  show ?case
  proof (cases o1)
    case None
    then show ?thesis using D1(1) r by auto
  next
    case (Some c)
    obtain g2 o2 where r2: "dist_prods g1 n rs qs = (g2, o2)" by fastforce
    have len: "\<forall>x \<in> set rs. x < length (gparent g1)" "\<forall>x \<in> set qs. x < length (gparent g1)"
      using Cons.prems(2,3) gextD(2) [OF D1(1)] by auto
    from Cons.IH [OF gextD(1) [OF D1(1)]] len r r2 obtain D2 where
      D2: "gext E D1 g1 D2 g2" "\<And>cs. o2 = Some cs \<Longrightarrow> (\<forall>c \<in> set cs. c < length (gparent g2)) \<and>
        map (\<lambda>c. only ?K (D2 c)) cs = map (\<lambda>q. Ma E ''*'' ?K (map D1 (rs @ [q]))) qs"
      by auto
    have e: "gext E D g D2 g2" by (rule gext_trans [OF D1(1) D2(1)])
    have D1_eq: "map D1 (rs @ [x]) = map D (rs @ [x])" if "x \<in> set qs" for x
      using gext_map [OF D1(1), of "rs @ [x]"] Cons.prems that by auto
    show ?thesis
    proof (cases o2)
      case None
      then show ?thesis using e r r2 Some by auto
    next
      case (Some cs)
      have "c < length (gparent g1)" "only ?K (D1 c) = Ma E ''*'' ?K (map D (rs @ [q]))"
        using D1(2) \<open>o1 = Some c\<close> by simp_all
      moreover from this have "D2 c = D1 c" "c < length (gparent g2)" using gextD(2,3) [OF D2(1)] by auto
      moreover have "map (\<lambda>q. Ma E ''*'' ?K (map D1 (rs @ [q]))) qs = map (\<lambda>q. Ma E ''*'' ?K (map D (rs @ [q]))) qs"
        by (intro map_cong refl) (simp only: D1_eq)
      ultimately show ?thesis
        using D2(2) [OF Some] e r r2 Some \<open>o1 = Some c\<close> by (intro exI [of _ D2]) simp
    qed
  qed
qed

lemma dist_eq:
  assumes E: "sound_env E" and g: "ginv E D g" and s: "tag_ok tag" and n: "chain_in E D N ''*'' tag n a"
    and i: "i < length (nargs n)" "D (nargs n ! i) = Ma E ''+'' (tag_ty tag) (map D qs)" and qs: "qs \<noteq> []"
  shows "D a = Ma E ''+'' (tag_ty tag)
    (map (\<lambda>q. Ma E ''*'' (tag_ty tag) (map D ((take i (nargs n) @ drop (Suc i) (nargs n)) @ [q]))) qs)"
proof -
  let ?K = "tag_ty tag" and ?rs = "take i (nargs n) @ drop (Suc i) (nargs n)"
  have w: "list_all (mwf E) (map D xs)" for xs using ginvD(1) [OF g] by (simp add: list_all_iff)
  have "D a = Ma E ''*'' ?K (map D (nargs n))" using n by (simp add: chain_in_def)
  also have "\<dots> = Ma E ''*'' ?K (map D (nargs n ! i # ?rs))"
    using i by (intro chain_perm [OF E g _ s] mset_nth_out) auto
  also have "\<dots> = Ma E ''*'' ?K (Ma E ''+'' ?K (map D qs) # map D ?rs)" by (simp only: list.map i(2))
  also have "\<dots> = Ma E ''+'' ?K (map (\<lambda>M. Ma E ''*'' ?K (M # map D ?rs)) (map D qs))"
    using qs w by (intro Ma_distrib [OF tag_ty_ground E]) simp_all
  also have "map (\<lambda>M. Ma E ''*'' ?K (M # map D ?rs)) (map D qs) = map (\<lambda>q. Ma E ''*'' ?K (map D (q # ?rs))) qs"
    by simp
  also have "\<dots> = map (\<lambda>q. Ma E ''*'' ?K (map D (?rs @ [q]))) qs"
    by (intro map_cong refl chain_perm [OF E g _ s]) simp_all
  finally show ?thesis .
qed

lemma dist_sums_ext:
  assumes E: "sound_env E" and s: "tag_ok tag"
  shows "ginv E D g \<Longrightarrow> chain_in E D (length (gparent g)) ''*'' tag n a \<Longrightarrow> i < length (nargs n) \<Longrightarrow>
    hits D g (D (nargs n ! i)) ss \<Longrightarrow> \<exists>D'. gext E D g D' (fst (dist_sums g n tag i a ch ss))"
proof (induction ss arbitrary: D g ch)
  case Nil
  then show ?case using gext_refl by fastforce
next
  case (Cons sid ss)
  let ?s = "gnodes g ! sid" and ?K = "tag_ty tag" and ?N = "length (gparent g)"
  let ?rs = "take i (nargs n) @ drop (Suc i) (nargs n)"
  note g = Cons.prems(1) and n = Cons.prems(2) and i = Cons.prems(3)
  show ?case
  proof (cases "nsym ?s = egACSym ''+'' tag")
    case False
    then show ?thesis using Cons.IH [OF g n i] Cons.prems(4) by (simp add: hits_def)
  next
    case True
    have sid: "sid < length (gnodes g)" "D (gcls g ! sid) = D (nargs n ! i)" using Cons.prems(4) by (auto simp: hits_def)
    have m: "chain_in E D ?N ''+'' tag ?s (gcls g ! sid)"
      by (rule chain_inI [OF ginvD(4) [OF g sid(1)]]) (simp_all add: True s)
    have n': "nsym n = egACSym ''*'' tag" using n by (simp add: chain_in_def)
    have args: "\<forall>x \<in> set ?rs. x < ?N" "\<forall>x \<in> set (nargs ?s). x < ?N"
      using n m by (auto simp: chain_in_def dest: in_set_takeD in_set_dropD)
    have l: "2 \<le> length (nargs ?s)" by (rule chain_args [OF m])
    have "D (nargs n ! i) = Ma E ''+'' ?K (map D (nargs ?s))" using m sid(2) by (simp add: chain_in_def)
    then have eq: "D a = Ma E ''+'' ?K (map (\<lambda>q. Ma E ''*'' ?K (map D (?rs @ [q]))) (nargs ?s))"
      using l by (intro dist_eq [OF E g s n i]) auto
    obtain g1 o1 where r: "dist_prods g n ?rs (nargs ?s) = (g1, o1)" by fastforce
    from dist_prods_ext [OF E s n' g args] r obtain D1 where D1: "gext E D g D1 g1"
      "\<And>cs. o1 = Some cs \<Longrightarrow> (\<forall>c \<in> set cs. c < length (gparent g1)) \<and>
        map (\<lambda>c. only ?K (D1 c)) cs = map (\<lambda>q. Ma E ''*'' ?K (map D (?rs @ [q]))) (nargs ?s)"
      by auto
    show ?thesis
    proof (cases o1)
      case None
      then show ?thesis using D1(1) True r by auto
    next
      case (Some cs)
      note cs = D1(2) [OF Some]
      have "length cs = length (nargs ?s)" using cs map_eq_imp_length_eq by metis
      then have lc: "2 \<le> length cs" "cs \<noteq> []" using l by auto
      let ?r = "egAdd g1 (ac_node (egACSym ''+'' tag) ''+'' cs)"
      obtain g2 o2 where r2: "?r = (g2, o2)" by fastforce
      have "\<forall>c \<in> set cs. c < length (gparent g1)" using cs by blast
      then obtain D2 where D2: "gext E D1 g1 D2 g2"
        "\<And>c. o2 = Some c \<Longrightarrow> c < length (gparent g2) \<and> D2 c = Ma E ''+'' ?K (map D1 cs)"
        by (rule add_ac [OF E gextD(1) [OF D1(1)] op_ok_simps(1) s lc(2) _ r2]) (use lc(1) in blast)
      have e: "gext E D g D2 g2" by (rule gext_trans [OF D1(1) D2(1)])
      show ?thesis
      proof (cases o2)
        case None
        then show ?thesis using e True r r2 Some by auto
      next
        case so: (Some c)
        have "Ma E ''+'' ?K (map D1 cs) = Ma E ''+'' ?K (map (\<lambda>q. Ma E ''*'' ?K (map D (?rs @ [q]))) (nargs ?s))"
          using cs by (intro Ma_only_cong) (simp add: comp_def)
        then have c: "c < length (gparent g2)" "D2 c = D a" using D2(2) [OF so] eq by simp_all
        let ?u = "egUnion g2 c a"
        have e': "gext E D g D2 (fst ?u)" using e c n by (intro union_ext) (simp_all add: chain_in_def)
        have "D2 (nargs n ! i) = D (nargs n ! i)" using gextD(3) [OF e'] n i by (simp add: chain_in_def)
        then have "hits D2 (fst ?u) (D2 (nargs n ! i)) ss"
          using hits_ext [OF g e', of "D (nargs n ! i)" ss] Cons.prems(4) by (simp add: hits_def)
        from Cons.IH [OF gextD(1) [OF e'] chain_in_ext [OF n e'] i this]
        obtain D3 where "gext E D2 (fst ?u) D3 (fst (dist_sums (fst ?u) n tag i a (ch \<or> snd ?u) ss))" by blast
        then have "gext E D g D3 (fst (dist_sums (fst ?u) n tag i a (ch \<or> snd ?u) ss))" by (rule gext_trans [OF e'])
        moreover have "dist_sums g n tag i a ch (sid # ss) = dist_sums (fst ?u) n tag i a (ch \<or> snd ?u) ss"
          using True r r2 Some so by (simp add: Let_def split: prod.split)
        ultimately show ?thesis by auto
      qed
    qed
  qed
qed

lemma dist_args_ext:
  assumes E: "sound_env E" and s: "tag_ok tag"
  shows "ginv E D g \<Longrightarrow> index_ok D g idx \<Longrightarrow> chain_in E D (length (gparent g)) ''*'' tag n a \<Longrightarrow>
    \<forall>i \<in> set is. i < length (nargs n) \<Longrightarrow> \<exists>D'. gext E D g D' (fst (dist_args idx g n tag a ch is))"
proof (induction "is" arbitrary: D g ch)
  case Nil
  then show ?case using gext_refl by fastforce
next
  case (Cons i js)
  note g = Cons.prems(1) and x = Cons.prems(2) and n = Cons.prems(3)
  have i: "i < length (nargs n)" "nargs n ! i < length (gparent g)" using Cons.prems(4) n by (auto simp: chain_in_def)
  obtain g1 ch1 go where r: "dist_sums g n tag i a ch (idx (egFind g (nargs n ! i))) = (g1, ch1, go)" by (metis prod_cases3)
  from dist_sums_ext [OF E s g n i(1) index_hits [OF g x i(2)], of ch]
  obtain D1 where D1: "gext E D g D1 g1" unfolding r by auto
  show ?case
  proof (cases go)
    case False
    then show ?thesis using D1 r by auto
  next
    case True
    from Cons.IH [OF gextD(1) [OF D1] index_ok_ext [OF g D1 x] chain_in_ext [OF n D1]]
    obtain D2 where "gext E D1 g1 D2 (fst (dist_args idx g1 n tag a ch1 js))" using Cons.prems(4) by auto
    then show ?thesis using True r gext_trans [OF D1] by auto
  qed
qed

lemma ruleDistribute_ext:
  assumes "sound_env E" "tag_ok tag" "ginv E D g" "index_ok D g idx"
    "chain_in E D (length (gparent g)) ''*'' tag (gnodes g ! nid) a"
  shows "\<exists>D'. gext E D g D' (fst (ruleDistribute idx g nid a tag))"
  unfolding ruleDistribute_def Let_def by (rule dist_args_ext [OF assms]) simp

subsection \<open>Factoring\<close>

text \<open>What a candidate records: addends, each once, with a product in it that has the factor.\<close>

definition supports :: "env \<Rightarrow> (nat \<Rightarrow> meaning) \<Rightarrow> nat \<Rightarrow> string \<Rightarrow> nat list \<Rightarrow> nat \<Rightarrow> nat \<times> egnode \<Rightarrow> bool" where
  "supports E D N tag as f x \<longleftrightarrow>
     fst x < length as \<and> f \<in> set (nargs (snd x)) \<and>
     (\<exists>b. chain_in E D N ''*'' tag (snd x) b \<and> D b = D (as ! fst x))"

definition cands_ok :: "(nat \<Rightarrow> nat \<times> egnode \<Rightarrow> bool) \<Rightarrow> (nat \<Rightarrow> nat \<Rightarrow> bool) \<Rightarrow> cand list \<Rightarrow> bool" where
  "cands_ok S P cs \<longleftrightarrow> (\<forall>(f, xs) \<in> set cs. distinct (map fst xs) \<and> (\<forall>x \<in> set xs. S f x \<and> P f (fst x)))"

lemma cands_ok_mono: "cands_ok S P cs \<Longrightarrow> (\<And>f j. P f j \<Longrightarrow> Q f j) \<Longrightarrow> cands_ok S Q cs"
  by (fastforce simp: cands_ok_def)

lemma cands_ok_Cons:
  "cands_ok S P ((f, xs) # cs) \<longleftrightarrow> distinct (map fst xs) \<and> (\<forall>x \<in> set xs. S f x \<and> P f (fst x)) \<and> cands_ok S P cs"
  by (simp add: cands_ok_def)

lemma cands_ok_Nil [simp]: "cands_ok S P []"
  by (simp add: cands_ok_def)

lemma cands_ok_add:
  assumes "S f (i, p)" "\<not> P f i" "Q f i" "\<And>f j. P f j \<Longrightarrow> Q f j"
  shows "cands_ok S P cs \<Longrightarrow> cands_ok S Q (cand_add f i p cs)"
proof (induction cs)
  case Nil
  then show ?case using assms by (simp add: cands_ok_Cons)
next
  case (Cons c cs)
  obtain f' xs where c: "c = (f', xs)" by fastforce
  have cs: "distinct (map fst xs)" "\<forall>x \<in> set xs. S f' x \<and> P f' (fst x)" "cands_ok S P cs" "cands_ok S Q cs"
    using Cons.prems cands_ok_mono assms(4) unfolding c cands_ok_Cons by blast+
  show ?case
  proof (cases "f' = f")
    case True
    then have "i \<notin> fst ` set xs" using cs(2) assms(2) by auto
    then show ?thesis using cs assms True by (auto simp: c cands_ok_Cons)
  next
    case False
    then show ?thesis using cs Cons.IH assms(4) by (auto simp: c cands_ok_Cons)
  qed
qed

definition up_to :: "nat \<Rightarrow> nat list \<Rightarrow> nat \<Rightarrow> nat \<Rightarrow> bool" where
  "up_to i seen f j \<longleftrightarrow> j < i \<or> j = i \<and> f \<in> set seen"

lemma cand_factors_ok:
  "cands_ok S (up_to i seen) cs \<Longrightarrow> \<forall>f \<in> set fs. S f (i, p) \<Longrightarrow> cand_factors i p seen fs cs = (seen', cs') \<Longrightarrow>
   cands_ok S (up_to i seen') cs'"
proof (induction i p seen fs cs rule: cand_factors.induct)
  case (2 i p seen f fs cs)
  have "cands_ok S (up_to i (f # seen)) (cand_add f i p cs)" if "f \<notin> set seen"
    using 2(4) that by (intro cands_ok_add [OF _ _ _ _ 2(3)]) (auto simp: up_to_def)
  then show ?case using 2 by (simp split: if_splits)
qed simp

lemma cand_prods_ok:
  assumes n: "\<And>m f. m \<in> set ms \<Longrightarrow> nsym (gnodes g ! m) = ps \<Longrightarrow> f \<in> set (nargs (gnodes g ! m)) \<Longrightarrow> S f (i, gnodes g ! m)"
  shows "cands_ok S (up_to i seen) cs \<Longrightarrow> \<exists>seen'. cands_ok S (up_to i seen') (cand_prods g ps i seen ms cs)"
  using n
proof (induction ms arbitrary: seen cs)
  case (Cons m ms)
  show ?case
  proof (cases "nsym (gnodes g ! m) = ps")
    case True
    obtain seen' cs' where r: "cand_factors i (gnodes g ! m) seen (nargs (gnodes g ! m)) cs = (seen', cs')" by fastforce
    have "cands_ok S (up_to i seen') cs'"
      using cand_factors_ok [OF Cons.prems(1) _ r] Cons.prems(2) [OF _ True] by simp
    from Cons.IH [OF this] Cons.prems(2) show ?thesis using r True by simp
  next
    case False
    then show ?thesis using Cons by simp
  qed
qed auto

lemma candidates_ok:
  assumes g: "ginv E D g" and x: "index_ok D g idx" and s: "tag_ok tag" and as: "\<forall>a \<in> set as. a < length (gparent g)"
  shows "cands_ok (supports E D (length (gparent g)) tag as) (\<lambda>f j. True) (candidates idx g (egACSym ''*'' tag) as)"
proof -
  let ?S = "supports E D (length (gparent g)) tag as" and ?ps = "egACSym ''*'' tag"
  have "cands_ok ?S (up_to k []) (foldl (\<lambda>cs i. cand_prods g ?ps i [] (idx (egFind g (as ! i))) cs) [] [0..<k])"
    if "k \<le> length as" for k
    using that
  proof (induction k)
    case (Suc k)
    let ?ms = "idx (egFind g (as ! k))"
    have h: "hits D g (D (as ! k)) ?ms" using Suc.prems as by (intro index_hits [OF g x]) simp
    have n: "?S f (k, gnodes g ! m)"
      if "m \<in> set ?ms" "nsym (gnodes g ! m) = ?ps" "f \<in> set (nargs (gnodes g ! m))" for m f
    proof -
      have m: "m < length (gnodes g)" "D (gcls g ! m) = D (as ! k)" using h that(1) by (auto simp: hits_def)
      have "chain_in E D (length (gparent g)) ''*'' tag (gnodes g ! m) (gcls g ! m)"
        by (rule chain_inI [OF ginvD(4) [OF g m(1)] that(2) op_ok_simps(2) s])
      then show ?thesis using m that(3) Suc.prems by (auto simp: supports_def)
    qed
    let ?cs = "foldl (\<lambda>cs i. cand_prods g ?ps i [] (idx (egFind g (as ! i))) cs) [] [0..<k]"
    have "cands_ok ?S (up_to k []) ?cs" using Suc by simp
    from cand_prods_ok [OF n this] obtain seen where
      "cands_ok ?S (up_to k seen) (cand_prods g ?ps k [] ?ms ?cs)" by blast
    then have "cands_ok ?S (up_to (Suc k) []) (cand_prods g ?ps k [] ?ms ?cs)"
      by (rule cands_ok_mono) (auto simp: up_to_def)
    then show ?case by simp
  qed simp
  from this [of "length as"] show ?thesis unfolding candidates_def by (rule cands_ok_mono) simp_all
qed

lemma supports_ext:
  assumes "gext E D g D' g'" "\<forall>a \<in> set as. a < length (gparent g)" "supports E D (length (gparent g)) tag as f x"
  shows "supports E D' (length (gparent g')) tag as f x"
proof -
  obtain b where b: "chain_in E D (length (gparent g)) ''*'' tag (snd x) b" "D b = D (as ! fst x)"
    "fst x < length as" "f \<in> set (nargs (snd x))" using assms(3) by (auto simp: supports_def)
  then have "D' b = D' (as ! fst x)" using gextD(3) [OF assms(1)] assms(2) by (simp add: chain_in_def)
  then show ?thesis using b chain_in_ext [OF b(1) assms(1)] by (auto simp: supports_def)
qed

lemma quotients_ext:
  assumes E: "sound_env E" and s: "tag_ok tag"
  shows "ginv E D g \<Longrightarrow> \<forall>a \<in> set as. a < length (gparent g) \<Longrightarrow>
    \<forall>x \<in> set xs. supports E D (length (gparent g)) tag as f x \<Longrightarrow>
    \<exists>D'. gext E D g D' (fst (quotients g (egACSym ''*'' tag) f xs)) \<and>
      (\<forall>qs. snd (quotients g (egACSym ''*'' tag) f xs) = Inr qs \<longrightarrow>
        (\<forall>q \<in> set qs. q < length (gparent (fst (quotients g (egACSym ''*'' tag) f xs)))) \<and>
        (\<forall>x \<in> set xs. remove1 f (nargs (snd x)) \<noteq> []) \<and>
        map (\<lambda>c. only (tag_ty tag) (D' c)) qs = map (\<lambda>x. Ma E ''*'' (tag_ty tag) (map D (remove1 f (nargs (snd x))))) xs)"
proof (induction xs arbitrary: D g)
  case Nil
  then show ?case using gext_refl by fastforce
next
  case (Cons x xs)
  obtain i p where x: "x = (i, p)" by fastforce
  let ?rs = "remove1 f (nargs p)" and ?K = "tag_ty tag" and ?N = "length (gparent g)"
  note g = Cons.prems(1)
  show ?case
  proof (cases "?rs = []")
    case True
    then show ?thesis using gext_refl [OF g] by (auto simp: x)
  next
    case False
    have p: "\<forall>y \<in> set (nargs p). y < ?N" using Cons.prems(3) by (auto simp: x supports_def chain_in_def)
    then have rs: "\<forall>y \<in> set ?rs. y < ?N" using set_remove1_subset by fastforce
    let ?r = "egAdd g (ac_node (egACSym ''*'' tag) ''*'' ?rs)"
    obtain g1 o1 where r: "?r = (g1, o1)" by fastforce
    obtain D1 where D1: "gext E D g D1 g1"
      "\<And>c. o1 = Some c \<Longrightarrow> c < length (gparent g1) \<and> only ?K (D1 c) = Ma E ''*'' ?K (map D ?rs)"
      by (rule add_ac [OF E g op_ok_simps(2) s False rs r]) blast
    show ?thesis
    proof (cases o1)
      case None
      then show ?thesis using D1(1) r False by (auto simp: x)
    next
      case (Some c)
      obtain g2 o2 where r2: "quotients g1 (egACSym ''*'' tag) f xs = (g2, o2)" by fastforce
      have "\<forall>y \<in> set xs. supports E D1 (length (gparent g1)) tag as f y"
        using supports_ext [OF D1(1) Cons.prems(2)] Cons.prems(3) by simp
      moreover have "\<forall>a \<in> set as. a < length (gparent g1)" using Cons.prems(2) gextD(2) [OF D1(1)] by auto
      ultimately obtain D2 where D2: "gext E D1 g1 D2 g2"
        "\<And>qs. o2 = Inr qs \<Longrightarrow> (\<forall>q \<in> set qs. q < length (gparent g2)) \<and> (\<forall>x \<in> set xs. remove1 f (nargs (snd x)) \<noteq> []) \<and>
          map (\<lambda>c. only ?K (D2 c)) qs = map (\<lambda>x. Ma E ''*'' ?K (map D1 (remove1 f (nargs (snd x))))) xs"
        using Cons.IH [OF gextD(1) [OF D1(1)]] r2 by auto
      have e: "gext E D g D2 g2" by (rule gext_trans [OF D1(1) D2(1)])
      show ?thesis
      proof (cases o2)
        case (Inl b)
        then show ?thesis using e r r2 Some False by (auto simp: x)
      next
        case (Inr qs)
        have "map D1 (remove1 f (nargs (snd y))) = map D (remove1 f (nargs (snd y)))" if "y \<in> set xs" for y
          using Cons.prems(3) that set_remove1_subset [of f "nargs (snd y)"]
          by (intro gext_map [OF D1(1)]) (auto simp: supports_def chain_in_def)
        then have "map (\<lambda>x. Ma E ''*'' ?K (map D1 (remove1 f (nargs (snd x))))) xs =
            map (\<lambda>x. Ma E ''*'' ?K (map D (remove1 f (nargs (snd x))))) xs" by (intro map_cong refl) (simp only:)
        moreover have "D2 c = D1 c" "c < length (gparent g2)"
          using D1(2) [OF Some] gextD(2,3) [OF D2(1)] by auto
        ultimately show ?thesis
          using D1(2) [OF Some] D2(2) [OF Inr] e r r2 Some Inr False by (intro exI [of _ D2]) (simp add: x)
      qed
    qed
  qed
qed

lemma mset_rest:
  assumes "distinct is" "set is \<subseteq> {..<length as}"
  shows "mset (map ((!) as) is @ map ((!) as) (filter (\<lambda>i. i \<notin> set is) [0..<length as])) = mset as"
proof -
  have "mset is + mset (filter (\<lambda>i. i \<notin> set is) [0..<length as]) = mset [0..<length as]"
  proof -
    have "mset is = mset (filter (\<lambda>i. i \<in> set is) [0..<length as])"
      using assms by (intro iffD1 [OF set_eq_iff_mset_eq_distinct]) auto
    then show ?thesis by (metis mset_filter multiset_partition)
  qed
  then have "image_mset ((!) as) (mset is + mset (filter (\<lambda>i. i \<notin> set is) [0..<length as])) = image_mset ((!) as) (mset [0..<length as])"
    by (rule arg_cong)
  moreover have "image_mset ((!) as) (mset [0..<length as]) = mset as" using map_nth [of as] by (metis mset_map)
  ultimately show ?thesis by simp
qed

text \<open>The product of a factor and the sum of the quotients is the sum of the addends.\<close>

lemma factor_eq:
  assumes E: "sound_env E" and g: "ginv E D g" and s: "tag_ok tag"
    and xs: "\<forall>x \<in> set xs. supports E D N tag as f x" "\<forall>x \<in> set xs. remove1 f (nargs (snd x)) \<noteq> []" "xs \<noteq> []"
    and q: "map (\<lambda>c. only (tag_ty tag) (D c)) qs = map (\<lambda>x. Ma E ''*'' (tag_ty tag) (map D (remove1 f (nargs (snd x))))) xs"
    and a: "only (tag_ty tag) (D a) = Ma E ''+'' (tag_ty tag) (map D qs)"
  shows "Ma E ''*'' (tag_ty tag) (map D [f, a]) = Ma E ''+'' (tag_ty tag) (map (\<lambda>x. D (as ! fst x)) xs)"
proof -
  let ?K = "tag_ty tag"
  have w: "list_all (mwf E) (map D ys)" for ys using ginvD(1) [OF g] by (simp add: list_all_iff)
  have len: "length qs = length xs" using q map_eq_imp_length_eq by metis
  have "Ma E ''*'' ?K (map D [f, a]) = Ma E ''*'' ?K (map D [a, f])" by (intro chain_perm [OF E g _ s]) simp_all
  also have "\<dots> = Ma E ''*'' ?K (Ma E ''+'' ?K (map D qs) # map D [f])" by (rule Ma_only_cong) (simp add: a)
  also have "\<dots> = Ma E ''+'' ?K (map (\<lambda>M. Ma E ''*'' ?K (M # map D [f])) (map D qs))"
    using len xs(3) w ginvD(1) [OF g] by (intro Ma_distrib [OF tag_ty_ground E]) auto
  also have "map (\<lambda>M. Ma E ''*'' ?K (M # map D [f])) (map D qs) = map (\<lambda>x. D (as ! fst x)) xs"
  proof (rule nth_equalityI)
    show "length (map (\<lambda>M. Ma E ''*'' ?K (M # map D [f])) (map D qs)) = length (map (\<lambda>x. D (as ! fst x)) xs)"
      using len by simp
    fix i assume "i < length (map (\<lambda>M. Ma E ''*'' ?K (M # map D [f])) (map D qs))"
    then have i: "i < length xs" using len by simp
    let ?p = "snd (xs ! i)"
    obtain b where b: "chain_in E D N ''*'' tag ?p b" "D b = D (as ! fst (xs ! i))" "f \<in> set (nargs ?p)"
      using bspec [OF xs(1) nth_mem [OF i]] unfolding supports_def by blast
    have rem: "remove1 f (nargs ?p) \<noteq> []" using xs(2) i by simp
    have "only ?K (D (qs ! i)) = Ma E ''*'' ?K (map D (remove1 f (nargs ?p)))"
      using arg_cong [OF q, of "\<lambda>l. l ! i"] i len by simp
    then have "Ma E ''*'' ?K (map D [qs ! i, f]) = Ma E ''*'' ?K (map D (remove1 f (nargs ?p) @ [f]))"
      using rem by (intro chain_flat [OF E g _ s]) simp_all
    also have "\<dots> = Ma E ''*'' ?K (map D (nargs ?p))"
      using b(3) by (intro chain_perm [OF E g _ s]) auto
    also have "\<dots> = D (as ! fst (xs ! i))" using b by (simp add: chain_in_def)
    finally show "map (\<lambda>M. Ma E ''*'' ?K (M # map D [f])) (map D qs) ! i = map (\<lambda>x. D (as ! fst x)) xs ! i"
      using i len by simp
  qed
  finally show ?thesis .
qed

lemma factor_cands_ext:
  assumes E: "sound_env E" and s: "tag_ok tag"
  shows "ginv E D g \<Longrightarrow> chain_in E D (length (gparent g)) ''+'' tag n a \<Longrightarrow>
    cands_ok (supports E D (length (gparent g)) tag (nargs n)) (\<lambda>f j. True) cs \<Longrightarrow>
    \<exists>D'. gext E D g D' (fst (factor_cands g n tag a ch cs))"
proof (induction cs arbitrary: D g ch)
  case Nil
  then show ?case using gext_refl by fastforce
next
  case (Cons c cs)
  obtain f xs where c: "c = (f, xs)" by fastforce
  let ?N = "length (gparent g)" and ?K = "tag_ty tag"
  note g = Cons.prems(1) and n = Cons.prems(2)
  have ok: "distinct (map fst xs)" "\<forall>x \<in> set xs. supports E D ?N tag (nargs n) f x"
    "cands_ok (supports E D ?N tag (nargs n)) (\<lambda>f j. True) cs"
    using Cons.prems(3) by (simp_all add: c cands_ok_Cons)
  have args: "\<forall>x \<in> set (nargs n). x < ?N" using n by (simp add: chain_in_def)
  have next_ok: "\<exists>D2. gext E D g D2 (fst (factor_cands g1 n tag a ch1 cs))" if e: "gext E D g D1 g1" for D1 g1 ch1
  proof -
    have "cands_ok (supports E D1 (length (gparent g1)) tag (nargs n)) (\<lambda>f j. True) cs"
      using ok(3) supports_ext [OF e args] by (fastforce simp: cands_ok_def)
    from Cons.IH [OF gextD(1) [OF e] chain_in_ext [OF n e] this] show ?thesis using gext_trans [OF e] by blast
  qed
  show ?case
  proof (cases "length xs < 2")
    case True
    then show ?thesis using next_ok [OF gext_refl [OF g]] by (simp add: c)
  next
    case False
    obtain g1 o1 where r1: "quotients g (egACSym ''*'' tag) f xs = (g1, o1)" by fastforce
    from quotients_ext [OF E s g args ok(2)] r1 obtain D1 where D1: "gext E D g D1 g1"
      "\<And>qs. o1 = Inr qs \<Longrightarrow> (\<forall>q \<in> set qs. q < length (gparent g1)) \<and> (\<forall>x \<in> set xs. remove1 f (nargs (snd x)) \<noteq> []) \<and>
        map (\<lambda>c. only ?K (D1 c)) qs = map (\<lambda>x. Ma E ''*'' ?K (map D (remove1 f (nargs (snd x))))) xs"
      by auto
    show ?thesis
    proof (cases o1)
      case (Inl b)
      then show ?thesis using next_ok [OF D1(1)] D1(1) r1 False by (cases b) (auto simp: c)
    next
      case (Inr qs)
      note qs = D1(2) [OF Inr]
      have len: "length qs = length xs" using qs map_eq_imp_length_eq by metis
      then have qne: "qs \<noteq> []" "xs \<noteq> []" using False by auto
      obtain g2 o2 where r2: "egAdd g1 (ac_node (egACSym ''+'' tag) ''+'' qs) = (g2, o2)" by fastforce
      have "\<forall>q \<in> set qs. q < length (gparent g1)" using qs by blast
      then obtain D2 where D2: "gext E D1 g1 D2 g2"
        "\<And>x. o2 = Some x \<Longrightarrow> x < length (gparent g2) \<and> only ?K (D2 x) = Ma E ''+'' ?K (map D1 qs)"
        by (rule add_ac [OF E gextD(1) [OF D1(1)] op_ok_simps(1) s qne(1) _ r2]) blast
      have e2: "gext E D g D2 g2" by (rule gext_trans [OF D1(1) D2(1)])
      show ?thesis
      proof (cases o2)
        case None
        then show ?thesis using e2 r1 r2 Inr False by (auto simp: c)
      next
        case (Some x)
        note o2 = Some and x = D2(2) [OF Some]
        have f: "f < ?N"
          using ok(2) qne(2) by (cases xs) (auto simp: supports_def chain_in_def)
        have fx: "\<forall>y \<in> set [f, x]. y < length (gparent g2)" using f x gextD(2) [OF e2] by simp
        obtain g3 o3 where r3: "egAdd g2 (ac_node (egACSym ''*'' tag) ''*'' [f, x]) = (g3, o3)" by fastforce
        obtain D3 where D3: "gext E D2 g2 D3 g3"
          "\<And>y. o3 = Some y \<Longrightarrow> y < length (gparent g3) \<and> D3 y = Ma E ''*'' ?K (map D2 [f, x])"
          by (rule add_ac [OF E gextD(1) [OF e2] op_ok_simps(2) s _ fx r3]) simp_all
        have e3: "gext E D g D3 g3" by (rule gext_trans [OF e2 D3(1)])
        have eq: "Ma E ''*'' ?K (map D2 [f, x]) = Ma E ''+'' ?K (map (\<lambda>x. D2 (nargs n ! fst x)) xs)"
        proof (rule factor_eq [OF E gextD(1) [OF e2] s])
          show "\<forall>x \<in> set xs. supports E D2 (length (gparent g2)) tag (nargs n) f x"
            using ok(2) supports_ext [OF e2 args] by blast
          show "\<forall>x \<in> set xs. remove1 f (nargs (snd x)) \<noteq> []" using qs by blast
          have "map D2 (remove1 f (nargs (snd y))) = map D (remove1 f (nargs (snd y)))" if "y \<in> set xs" for y
            using ok(2) that set_remove1_subset [of f "nargs (snd y)"]
            by (intro gext_map [OF e2]) (auto simp: supports_def chain_in_def)
          then have "map (\<lambda>x. Ma E ''*'' ?K (map D2 (remove1 f (nargs (snd x))))) xs =
              map (\<lambda>x. Ma E ''*'' ?K (map D (remove1 f (nargs (snd x))))) xs" by (intro map_cong refl) (simp only:)
          moreover have "map (\<lambda>c. only ?K (D2 c)) qs = map (\<lambda>c. only ?K (D1 c)) qs"
            by (intro map_cong refl) (use qs gextD(3) [OF D2(1)] in auto)
          ultimately show "map (\<lambda>c. only ?K (D2 c)) qs = map (\<lambda>x. Ma E ''*'' ?K (map D2 (remove1 f (nargs (snd x))))) xs"
            using qs by simp
          show "only ?K (D2 x) = Ma E ''+'' ?K (map D2 qs)"
          proof -
            have m: "map D2 qs = map D1 qs" using qs by (intro gext_map [OF D2(1)]) blast
            show ?thesis using x unfolding m by blast
          qed
        qed (rule qne(2))
        show ?thesis
        proof (cases o3)
          case None
          then show ?thesis using e3 r1 r2 r3 Inr o2 False by (auto simp: c)
        next
          case (Some p)
          note o3 = Some and p = D3(2) [OF Some]
          let ?rest = "map ((!) (nargs n)) (filter (\<lambda>i. i \<notin> fst ` set xs) [0..<length (nargs n)])"
          have rest: "\<forall>y \<in> set (p # ?rest). y < length (gparent g3)" 
          proof -
            have "nargs n ! i < length (gparent g3)" if "i < length (nargs n)" for i
              using args that gextD(2) [OF e3] by (meson nth_mem order_less_le_trans)
            then show ?thesis using p by simp
          qed
          have n': "nsym n = egACSym ''+'' tag" using n by (simp add: chain_in_def)
          obtain g4 o4 where r4: "egAdd g3 (ac_node (egACSym ''+'' tag) ''+'' (p # ?rest)) = (g4, o4)" by fastforce
          have pr: "p # ?rest \<noteq> []" by simp
          obtain D4 where D4: "gext E D3 g3 D4 g4"
            "\<And>y. o4 = Some y \<Longrightarrow> y < length (gparent g4) \<and> only ?K (D4 y) = Ma E ''+'' ?K (map D3 (p # ?rest))"
            "\<And>y. o4 = Some y \<Longrightarrow> 2 \<le> length (p # ?rest) \<Longrightarrow> D4 y = Ma E ''+'' ?K (map D3 (p # ?rest))"
            "\<And>y. o4 = Some y \<Longrightarrow> length (p # ?rest) = 1 \<Longrightarrow> D4 y = D3 (hd (p # ?rest))"
            by (rule add_ac [OF E gextD(1) [OF e3] op_ok_simps(1) s pr rest r4]) (rule that)
          have e4: "gext E D g D4 g4" by (rule gext_trans [OF e3 D4(1)])
          have "only ?K (D3 p) = Ma E ''+'' ?K (map D3 (map (\<lambda>x. nargs n ! fst x) xs))"
          proof -
            have i: "nargs n ! fst x < length (gparent g2)" if "x \<in> set xs" for x
            proof -
              have "fst x < length (nargs n)" using ok(2) that by (auto simp: supports_def)
              then show ?thesis using args gextD(2) [OF e2] by (meson nth_mem order_less_le_trans)
            qed
            have m: "map D3 (map (\<lambda>x. nargs n ! fst x) xs) = map D2 (map (\<lambda>x. nargs n ! fst x) xs)"
              using i by (intro gext_map [OF D3(1)]) auto
            show ?thesis unfolding m using p eq by (simp add: comp_def)
          qed
          then have "Ma E ''+'' ?K (map D3 (p # ?rest)) = Ma E ''+'' ?K (map D3 (map (\<lambda>x. nargs n ! fst x) xs @ ?rest))"
            using qne(2) by (intro chain_flat [OF E gextD(1) [OF e3] _ s]) simp_all
          also have "\<dots> = Ma E ''+'' ?K (map D3 (nargs n))"
          proof (rule chain_perm [OF E gextD(1) [OF e3] _ s])
            show "map (\<lambda>x. nargs n ! fst x) xs @ ?rest \<noteq> []" using qne(2) by simp
            have "set (map fst xs) \<subseteq> {..<length (nargs n)}" using ok(2) by (auto simp: supports_def)
            from mset_rest [OF ok(1) this]
            show "mset (map (\<lambda>x. nargs n ! fst x) xs @ ?rest) = mset (nargs n)" by (simp add: comp_def)
          qed simp
          also have "\<dots> = Ma E ''+'' ?K (map D (nargs n))" by (simp only: gext_map [OF e3 args])
          also have "\<dots> = D a" using n by (simp add: chain_in_def)
          finally have out: "Ma E ''+'' ?K (map D3 (p # ?rest)) = D a" .
          show ?thesis
          proof (cases o4)
            case None
            then show ?thesis using e4 r1 r2 r3 r4 Inr o2 o3 False n' by (auto simp: c)
          next
            case (Some y)
            note y = D4(2) [OF Some]
            have "D4 y = D a"
            proof (cases "2 \<le> length (p # ?rest)")
              case True
              from D4(3) [OF Some this] out show ?thesis by (simp only:)
            next
              case False
              then have "?rest = []" by (cases ?rest) simp_all
              then have "D4 y = D3 p" using D4(4) [OF Some] by simp
              then have "only ?K (D4 y) = D4 y" using p by simp
              then show ?thesis using y out by (simp only:)
            qed
            then have e5: "gext E D g D4 (fst (egUnion g4 y a))" using e4 y n by (intro union_ext) (simp_all add: chain_in_def)
            have "factor_cands g n tag a ch (c # cs) = factor_cands (fst (egUnion g4 y a)) n tag a (ch \<or> snd (egUnion g4 y a)) cs"
              using r1 r2 r3 r4 Inr o2 o3 Some False n' by (simp add: c Let_def split: prod.split)
            then show ?thesis using next_ok [OF e5] by simp
          qed
        qed
      qed
    qed
  qed
qed

lemma ruleFactor_ext:
  assumes E: "sound_env E" and s: "tag_ok tag" and g: "ginv E D g" and x: "index_ok D g idx"
    and n: "chain_in E D (length (gparent g)) ''+'' tag (gnodes g ! nid) a"
  shows "\<exists>D'. gext E D g D' (fst (ruleFactor idx g nid a tag))"
proof -
  have "\<forall>y \<in> set (nargs (gnodes g ! nid)). y < length (gparent g)" using n by (simp add: chain_in_def)
  from factor_cands_ext [OF E s g n candidates_ok [OF g x s this]] show ?thesis
    unfolding ruleFactor_def Let_def .
qed

subsection \<open>Congruence\<close>

definition seen_ok :: "env \<Rightarrow> (nat \<Rightarrow> meaning) \<Rightarrow> nat \<Rightarrow> (bytes \<Rightarrow> nat option) \<Rightarrow> bool" where
  "seen_ok E D N seen \<longleftrightarrow> (\<forall>k a. seen k = Some a \<longrightarrow> (\<exists>n. egKey n = k \<and> node_in E D N n a))"

lemma seen_ok_upd: "seen_ok E D N seen \<Longrightarrow> node_in E D N n a \<Longrightarrow> seen_ok E D N (seen(egKey n \<mapsto> a))"
  by (auto simp: seen_ok_def)

lemma node_in_find: "ginv E D g \<Longrightarrow> node_in E D (length (gparent g)) n a \<Longrightarrow> node_in E D (length (gparent g)) n (egFind g a)"
  using find_ok [of E D g a] by (simp add: node_in_def)

lemma length_union [simp]: "length (gparent (fst (egUnion g a b))) = length (gparent g)"
  "gnodes (fst (egUnion g a b)) = gnodes g" "gcls (fst (egUnion g a b)) = gcls g"
  by (simp_all add: egUnion_def Let_def)

lemma ginv_canon:
  assumes E: "sound_env E" and g: "ginv E D g" and i: "i < length (gnodes g)"
  shows "ginv E D (g\<lparr>gnodes := (gnodes g)[i := egCanon g (gnodes g ! i)], gcls := (gcls g)[i := egFind g (gcls g ! i)]\<rparr>)"
proof -
  have "node_in E D (length (gparent g)) ((gnodes g)[i := egCanon g (gnodes g ! i)] ! j) ((gcls g)[i := egFind g (gcls g ! i)] ! j)"
    if "j < length (gnodes g)" for j
    using canon_in [OF E g ginvD(4) [OF g i]] ginvD(4) [OF g that] ginvD(2) [OF g] that i by (cases "j = i") simp_all
  then show ?thesis using g by (simp add: ginv_def)
qed

lemma rebuild_pass_inv:
  assumes E: "sound_env E"
  shows "ginv E D g \<Longrightarrow> seen_ok E D (length (gparent g)) seen \<Longrightarrow> \<forall>i \<in> set is. i < length (gnodes g) \<Longrightarrow>
    rebuild_pass g seen ch is = (g', seen', ch') \<Longrightarrow>
    ginv E D g' \<and> length (gparent g') = length (gparent g) \<and> seen_ok E D (length (gparent g)) seen'"
proof (induction "is" arbitrary: g seen ch)
  case (Cons i js)
  let ?n = "egCanon g (gnodes g ! i)" and ?c = "egFind g (gcls g ! i)" and ?N = "length (gparent g)"
  let ?g = "g\<lparr>gnodes := (gnodes g)[i := ?n], gcls := (gcls g)[i := ?c]\<rparr>"
  note g = Cons.prems(1)
  have i: "i < length (gnodes g)" using Cons.prems(3) by simp
  have n: "node_in E D ?N ?n ?c" by (rule canon_in [OF E g ginvD(4) [OF g i]])
  have g1: "ginv E D ?g" by (rule ginv_canon [OF E g i])
  show ?case
  proof (cases "seen (egKey ?n)")
    case None
    have "rebuild_pass ?g (seen(egKey ?n \<mapsto> ?c)) ch js = (g', seen', ch')"
      using Cons.prems(4) None by (simp add: Let_def)
    from Cons.IH [OF g1 _ _ this] seen_ok_upd [OF Cons.prems(2) n] Cons.prems(3) show ?thesis
      by (simp del: fun_upd_apply)
  next
    case (Some q)
    then obtain m where m: "egKey m = egKey ?n" "node_in E D ?N m q" using Cons.prems(2) unfolding seen_ok_def by blast
    have "D q = D ?c" using key_sem [of ?n m] m n by (auto simp: node_in_def)
    then have u: "gext E D ?g D (fst (egUnion ?g q ?c))"
      using m(2) n by (intro egUnion_ext [OF g1]) (simp_all add: node_in_def)
    let ?u = "egUnion ?g q ?c"
    have "node_in E D ?N m (egFind (fst ?u) q)"
      using node_in_find [OF gextD(1) [OF u], of m q] m(2) by simp
    then have "seen_ok E D ?N (seen(egKey ?n \<mapsto> egFind (fst ?u) q))"
      using seen_ok_upd [OF Cons.prems(2)] m(1) by metis
    moreover have "length (gparent (fst ?u)) = ?N" by simp
    ultimately have "seen_ok E D (length (gparent (fst ?u))) (seen(egKey ?n \<mapsto> egFind (fst ?u) q))" by (simp only:)
    moreover have "rebuild_pass (fst ?u) (seen(egKey ?n \<mapsto> egFind (fst ?u) q)) (ch \<or> snd ?u) js = (g', seen', ch')"
      using Cons.prems(4) Some by (simp add: Let_def split: prod.splits)
    ultimately show ?thesis using Cons.IH [OF gextD(1) [OF u]] Cons.prems(3) by fastforce
  qed
qed simp

lemma rebuild_loop_inv:
  assumes E: "sound_env E"
  shows "ginv E D g \<Longrightarrow> ginv E D (rebuild_loop k g) \<and> length (gparent (rebuild_loop k g)) = length (gparent g)"
proof (induction k arbitrary: g)
  case (Suc k)
  obtain g1 seen ch where r: "rebuild_pass g (\<lambda>_. None) False [0..<length (gnodes g)] = (g1, seen, ch)" by (metis prod_cases3)
  have "ginv E D g1 \<and> length (gparent g1) = length (gparent g) \<and> seen_ok E D (length (gparent g)) seen"
    by (rule rebuild_pass_inv [OF E Suc.prems _ _ r]) (simp_all add: seen_ok_def)
  then show ?case using Suc.IH [of g1] r by (auto simp: ginv_def seen_ok_def)
qed simp

definition gkeep :: "env \<Rightarrow> (nat \<Rightarrow> meaning) \<Rightarrow> egraph \<Rightarrow> (nat \<Rightarrow> meaning) \<Rightarrow> egraph \<Rightarrow> bool" where
  "gkeep E D g D' g' \<longleftrightarrow>
     ginv E D' g' \<and> length (gparent g) \<le> length (gparent g') \<and> (\<forall>a < length (gparent g). D' a = D a)"

lemma gext_keep: "gext E D g D' g' \<Longrightarrow> gkeep E D g D' g'"
  by (simp add: gext_def gkeep_def)

lemma gkeep_trans: "gkeep E D g D1 g1 \<Longrightarrow> gkeep E D1 g1 D2 g2 \<Longrightarrow> gkeep E D g D2 g2"
  unfolding gkeep_def by auto

lemma egRebuild_keep: "sound_env E \<Longrightarrow> ginv E D g \<Longrightarrow> gkeep E D g D (egRebuild g)"
  using rebuild_loop_inv [of E D g "Suc (length (gparent g))"] by (simp add: gkeep_def egRebuild_def del: rebuild_loop.simps)

subsection \<open>Saturation\<close>

definition visits_ok :: "(nat \<Rightarrow> meaning) \<Rightarrow> egraph \<Rightarrow> (nat \<times> nat) list \<Rightarrow> bool" where
  "visits_ok D g vs \<longleftrightarrow> (\<forall>(a, m) \<in> set vs. a < length (gparent g) \<and> hits D g (D a) [m])"

lemma visits_ok_ext: "ginv E D g \<Longrightarrow> gext E D g D' g' \<Longrightarrow> visits_ok D g vs \<Longrightarrow> visits_ok D' g' vs"
  unfolding visits_ok_def using hits_ext gextD(2,3) by (fastforce dest: order_less_le_trans)

lemma members_ok:
  assumes g: "ginv E D g"
  shows "visits_ok D g (concat (map (\<lambda>(c, ns). map (Pair c) ns) (egMembers g)))" "index_ok D g (roundIndex g)"
proof -
  have f: "egFind g (gcls g ! i) < length (gparent g) \<and> D (gcls g ! i) = D (egFind g (gcls g ! i))"
    if "i < length (gnodes g)" for i
    using find_ok [OF g, of "gcls g ! i"] ginvD(4) [OF g that] by (simp add: node_in_def)
  then show "visits_ok D g (concat (map (\<lambda>(c, ns). map (Pair c) ns) (egMembers g)))" "index_ok D g (roundIndex g)"
    using ginvD(2) [OF g] by (auto simp: visits_ok_def egMembers_def Let_def hits_def index_ok_def roundIndex_def) metis
qed

lemma acTag_chain:
  assumes "acTag tags (nsym n) = Some tag" "list_all tag_ok tags" "node_in E D N n a" "nac n"
  shows "tag_ok tag \<and> op_ok (nop n) \<and> chain_in E D N (nop n) tag n a"
proof -
  have t: "tag \<in> set tags" "nsym n = egACSym ''+'' tag \<or> nsym n = egACSym ''*'' tag"
    using assms(1) unfolding acTag_def find_Some_iff by auto
  then have ok: "tag_ok tag" using assms(2) by (auto simp: list_all_iff)
  obtain tag' where t': "nsym n = egACSym (nop n) tag'" "op_ok (nop n)" "tag_ok tag'"
    using assms(3,4) by (auto simp: node_in_def node_ok_def ac_ok_def op_ok_def tag_ok_def)
  then have "nsym n = egACSym (nop n) tag"
    using t(2) ac_sym_eq [of "nop n" "''+''" tag' tag] ac_sym_eq [of "nop n" "''*''" tag' tag] ok by auto
  then show ?thesis using ok t'(2) chain_inI [OF assms(3)] by blast
qed

lemma visit_keep:
  assumes E: "sound_env E" and tags: "list_all tag_ok tags"
  shows "ginv E D g \<Longrightarrow> index_ok D g idx \<Longrightarrow> visits_ok D g vs \<Longrightarrow> \<exists>D'. gkeep E D g D' (fst (visit tags idx g ch vs))"
proof (induction vs arbitrary: D g ch)
  case Nil
  then show ?case using gext_keep [OF gext_refl] by fastforce
next
  case (Cons v vs)
  obtain a nid where v: "v = (a, nid)" by fastforce
  let ?n = "gnodes g ! nid"
  note g = Cons.prems(1) and x = Cons.prems(2)
  have vs: "visits_ok D g vs" using Cons.prems(3) by (simp add: visits_ok_def)
  have nid: "a < length (gparent g)" "nid < length (gnodes g)" "D (gcls g ! nid) = D a"
    using Cons.prems(3) by (auto simp: v visits_ok_def hits_def)
  have n: "node_in E D (length (gparent g)) ?n a" using ginvD(4) [OF g nid(2)] nid(1,3) by (simp add: node_in_def)
  show ?case
  proof (cases "nac ?n \<and> acTag tags (nsym ?n) \<noteq> None")
    case False
    then show ?thesis using Cons.IH [OF g x vs, of ch] by (auto simp: v Let_def)
  next
    case True
    then obtain tag where tag: "acTag tags (nsym ?n) = Some tag" by auto
    have ch: "tag_ok tag" "op_ok (nop ?n)" "chain_in E D (length (gparent g)) (nop ?n) tag ?n a"
      using acTag_chain [OF tag tags n] True by simp_all
    obtain g1 c1 where r1: "ruleFlatten idx g nid a = (g1, c1)" by fastforce
    from ruleFlatten_ext [OF E ch(2,1) g x ch(3)] r1 obtain D1 where D1: "gext E D g D1 g1" by auto
    have n1: "gnodes g1 ! nid = ?n" using gextD(4) [OF D1 nid(2)] by simp
    let ?r2 = "if nop ?n = ''*'' then ruleDistribute idx g1 nid a tag
      else if nop ?n = ''+'' then ruleFactor idx g1 nid a tag else (g1, False)"
    obtain g2 c2 where r2: "?r2 = (g2, c2)" by fastforce
    note g1 = gextD(1) [OF D1] and x1 = index_ok_ext [OF g D1 x] and ch1 = chain_in_ext [OF ch(3) D1]
    have "\<exists>D2. gext E D1 g1 D2 g2"
    proof -
      consider "nop ?n = ''*''" | "nop ?n = ''+''" using ch(2) by (auto simp: op_ok_def)
      then show ?thesis
      proof cases
        case 1
        then show ?thesis using ruleDistribute_ext [OF E ch(1) g1 x1, of nid a] ch1 n1 r2 by auto
      next
        case 2
        then show ?thesis using ruleFactor_ext [OF E ch(1) g1 x1, of nid a] ch1 n1 r2 by auto
      qed
    qed
    then obtain D2 where D2: "gext E D g D2 g2" using gext_trans [OF D1] by blast
    have v2: "visit tags idx g ch (v # vs) =
        (if gexhausted g2 then (egRebuild g2, (ch \<or> c1 \<or> c2), False) else visit tags idx g2 (ch \<or> c1 \<or> c2) vs)"
      using True tag r1 r2 by (simp add: v Let_def)
    show ?thesis
    proof (cases "gexhausted g2")
      case True
      have "gkeep E D g D2 (egRebuild g2)"
        using gkeep_trans [OF gext_keep [OF D2] egRebuild_keep [OF E gextD(1) [OF D2]]] .
      then show ?thesis using v2 True by auto
    next
      case False
      from Cons.IH [OF gextD(1) [OF D2] index_ok_ext [OF g D2 x] visits_ok_ext [OF g D2 vs]]
      obtain D3 where "gkeep E D2 g2 D3 (fst (visit tags idx g2 (ch \<or> c1 \<or> c2) vs))" by blast
      then have "gkeep E D g D3 (fst (visit tags idx g2 (ch \<or> c1 \<or> c2) vs))"
        by (rule gkeep_trans [OF gext_keep [OF D2]])
      then show ?thesis using v2 False by auto
    qed
  qed
qed

lemma saturate_rounds_keep:
  assumes E: "sound_env E" and tags: "list_all tag_ok tags"
  shows "ginv E D g \<Longrightarrow> \<exists>D'. gkeep E D g D' (saturate_rounds k tags g)"
proof (induction k arbitrary: D g)
  case 0
  then show ?case using gext_keep [OF gext_refl] by fastforce
next
  case (Suc k)
  let ?vs = "concat (map (\<lambda>(c, ns). map (Pair c) ns) (egMembers g))"
  obtain g1 ch go where r: "visit tags (roundIndex g) g False ?vs = (g1, ch, go)" by (metis prod_cases3)
  from visit_keep [OF E tags Suc.prems members_ok(2,1) [OF Suc.prems], of False] Suc.prems r
  obtain D1 where D1: "gkeep E D g D1 g1" by auto
  then have g1: "ginv E D1 g1" by (simp add: gkeep_def)
  have D2: "gkeep E D g D1 (egRebuild g1)" by (rule gkeep_trans [OF D1 egRebuild_keep [OF E g1]])
  then have "ginv E D1 (egRebuild g1)" by (simp add: gkeep_def)
  from Suc.IH [OF this] obtain D3 where "gkeep E D1 (egRebuild g1) D3 (saturate_rounds k tags (egRebuild g1))" ..
  then have "gkeep E D g D3 (saturate_rounds k tags (egRebuild g1))" by (rule gkeep_trans [OF D2])
  then show ?case using D1 D2 r by (auto simp: Let_def)
qed

lemma saturate_keep:
  "sound_env E \<Longrightarrow> list_all tag_ok tags \<Longrightarrow> ginv E D g \<Longrightarrow> \<exists>D'. gkeep E D g D' (saturate tags g)"
  unfolding saturate_def by (rule saturate_rounds_keep)

end
