(* ===== verification/EgSound.thy ===== *)
theory EgSound
  imports EgRules
begin

text \<open>
  Extraction returns a member of the class it is asked for, insertion makes the inserted term
  a member of its class; so the result of saturation is equivalent to the term.
\<close>

subsection \<open>Extraction\<close>

text \<open>A term that is in the class wherever the class has a member.\<close>

definition stands_for :: "meaning \<Rightarrow> trm \<Rightarrow> bool" where
  "stands_for M t \<longleftrightarrow> (\<forall>c u t0. M c u t0 \<longrightarrow> M c u t)"

lemma build_rep:
  assumes E: "sound_env E" and n: "node_ok n" and w: "list_all (mwf E) Ms" and ks: "list_all2 stands_for Ms ks"
    and len: "length Ms = length (nargs n)"
  shows "stands_for (sem E n Ms) (egBuild n ks)"
  unfolding stands_for_def
proof (intro allI impI)
  fix c u t0
  assume m: "sem E n Ms c u t0"
  show "sem E n Ms c u (egBuild n ks)"
  proof (cases "nac n")
    case True
    note op = node_arith [OF n True]
    obtain ts where ts: "u = node_ty n" "ctx_wf E c" "list_all2 (\<lambda>M. M c (node_ty n)) Ms ts"
      using m True by (auto simp: sem_def Ma_def)
    have "(Ms ! i) c (node_ty n) (ks ! i)" if "i < length Ms" for i
      using list_all2_nthD [OF ks that] list_all2_nthD [OF ts(3) that] unfolding stands_for_def by blast
    then have k: "list_all2 (\<lambda>M. M c (node_ty n)) Ms ks"
      using list_all2_lengthD [OF ks] by (simp add: list_all2_conv_all_nth)
    have "ks \<noteq> []" using list_all2_lengthD [OF ks] len op by auto
    then have "equ E c (rechain (nop n) ks) (acRebuild (nop n) ks) (node_ty n)"
      using op ts(2) members [OF w k] by (intro arith_rebuild [OF _ E]) simp_all
    then show ?thesis using ts(1,2) k True by (auto simp: sem_def Ma_def egBuild_def)
  next
    case False
    let ?s = "the (ntmpl n)"
    obtain cus ks0 where k: "ctx_wf E c" "length Ms = length (egSlots ?s)" "has_kids E c ?s u cus"
      "list_all2 (\<lambda>M ((c, u), k). M c u k) Ms (zip cus ks0)" "length ks0 = length cus"
      using m False by (auto simp: sem_def Mt_def)
    note ch = chosen [OF k(4,5)]
    have len: "length ks = length cus" using list_all2_lengthD [OF ks] ch(1) by simp
    have r: "(Ms ! i) (fst (cus ! i)) (snd (cus ! i)) (ks ! i)" if "i < length cus" for i
      using list_all2_nthD [OF ks, of i] ch(1) ch(2) [OF that] that unfolding stands_for_def by auto
    have "list_all2 (\<lambda>M ((c, u), k). M c u k) Ms (zip cus ks)"
      using r ch(1) len by (auto simp: list_all2_conv_all_nth split: prod.split) (metis fst_conv snd_conv)
    moreover have "kids_equ E cus ks0 ks"
      using r ch(2) w ch(1) len k(5) mwfD(2) unfolding kids_equ_def list_all_length by metis
    then have "equ E c (egFill ?s ks0) (egFill ?s ks) u" by (rule kids_cong [OF E k(1,3)])
    then have "equ E c (egFill ?s ks) (egFill ?s ks) u" using equ_refl [OF E k(1)] equD(2) by blast
    ultimately show ?thesis using False k len by (auto simp: sem_def Mt_def egBuild_def)
  qed
qed

definition best_ok :: "(nat \<Rightarrow> meaning) \<Rightarrow> (nat \<Rightarrow> egbest option) \<Rightarrow> bool" where
  "best_ok D best \<longleftrightarrow> (\<forall>a b. best a = Some b \<longrightarrow> stands_for (D a) (bterm b))"

lemma better_ok:
  assumes E: "sound_env E" and g: "ginv E D g" and b: "best_ok D best"
    and n: "node_in E D (length (gparent g)) (gnodes g ! nid) cls" and r: "better g best cls nid = Some x"
  shows "stands_for (D cls) (bterm x)"
proof -
  let ?n = "gnodes g ! nid"
  let ?bs = "map (\<lambda>a. best (egFind g a)) (nargs ?n)"
  have none: "None \<notin> set ?bs" using r by (auto simp: better_def Let_def)
  have x: "bterm x = egBuild ?n (map bterm (map the ?bs))"
    using r none by (auto simp: better_def Let_def split: if_splits)
  have "stands_for (D a) (bterm (the (best (egFind g a))))" if a: "a \<in> set (nargs ?n)" for a
  proof -
    obtain y where y: "best (egFind g a) = Some y" using none a by (metis (mono_tags, lifting) image_eqI list.set_map not_None_eq)
    have "D (egFind g a) = D a" using find_ok [OF g] n a by (simp add: node_in_def)
    then show ?thesis using b y by (fastforce simp: best_ok_def)
  qed
  then have "list_all2 stands_for (map D (nargs ?n)) (map bterm (map the ?bs))"
    by (simp add: list_all2_conv_all_nth)
  then have "stands_for (sem E ?n (map D (nargs ?n))) (egBuild ?n (map bterm (map the ?bs)))"
    using n ginvD(1) [OF g] by (intro build_rep [OF E]) (simp_all add: node_in_def list_all_iff)
  then show ?thesis using n x by (simp add: node_in_def)
qed

lemma extract_pass_ok:
  assumes E: "sound_env E" and g: "ginv E D g"
  shows "visits_ok D g vs \<Longrightarrow> best_ok D best \<Longrightarrow> best_ok D (fst (extract_pass g best ch vs))"
proof (induction vs arbitrary: best ch)
  case (Cons v vs)
  obtain a nid where v: "v = (a, nid)" by fastforce
  have vs: "visits_ok D g vs" using Cons.prems(1) by (simp add: visits_ok_def)
  have nid: "a < length (gparent g)" "nid < length (gnodes g)" "D (gcls g ! nid) = D a"
    using Cons.prems(1) by (auto simp: v visits_ok_def hits_def)
  have n: "node_in E D (length (gparent g)) (gnodes g ! nid) a"
    using ginvD(4) [OF g nid(2)] nid(1,3) by (simp add: node_in_def)
  show ?case
  proof (cases "better g best a nid")
    case None
    then show ?thesis using Cons.IH [OF vs Cons.prems(2)] by (simp add: v)
  next
    case (Some x)
    then have "best_ok D (best(a \<mapsto> x))"
      using better_ok [OF E g Cons.prems(2) n] Cons.prems(2) by (simp add: best_ok_def)
    then show ?thesis using Cons.IH [OF vs] Some by (simp add: v)
  qed
qed simp

lemma extract_passes_ok:
  assumes E: "sound_env E" and g: "ginv E D g" and r: "r < length (gparent g)"
  shows "best_ok D best \<Longrightarrow> extract_passes k g r best = Some t \<Longrightarrow> stands_for (D r) t"
proof (induction k arbitrary: best)
  case (Suc k)
  obtain best' ch where p: "extract_pass g best False (concat (map (\<lambda>(c, ns). map (Pair c) ns) (egMembers g))) = (best', ch)"
    by fastforce
  have b: "best_ok D best'" using extract_pass_ok [OF E g members_ok(1) [OF g] Suc.prems(1), of False] p by simp
  show ?case
  proof (cases ch)
    case True
    then show ?thesis using Suc p b by simp
  next
    case False
    then obtain x where "best' (egFind g r) = Some x" "t = bterm x" using Suc.prems(2) p by auto
    moreover from this have "stands_for (D (egFind g r)) (bterm x)" using b by (simp add: best_ok_def)
    ultimately show ?thesis using find_ok [OF g r] by simp
  qed
qed simp

lemma egExtract_ok:
  "sound_env E \<Longrightarrow> ginv E D g \<Longrightarrow> r < length (gparent g) \<Longrightarrow> egExtract g r = Some t \<Longrightarrow> stands_for (D r) t"
  using extract_passes_ok [of E D g r "\<lambda>_. None" "length (egMembers g) + 2" t] by (simp only: egExtract_def best_ok_def) simp

subsection \<open>Annotation\<close>

abbreviation ann :: "env \<Rightarrow> ctx \<Rightarrow> trm \<Rightarrow> tagged" where
  "ann E c t \<equiv> egAnnotate E c t t"

lemma egTag_typed: "typed E c t u \<Longrightarrow> egTag E c t = (fst (egTag E c t), t)"
proof (cases "(E, c, t)" rule: egTag.cases)
  case (1 E' c' op a b)
  assume "typed E c t u"
  then have "\<exists>w. typed E c a w" using 1 by (auto elim!: typed_PrimE simp: list_all2_Cons1)
  then obtain w where "msynth E c a = (a, Some w)" using msynth_typed by blast
  then show ?thesis using 1 by auto
qed (auto)

lemma egTag_Some:
  assumes "typed E c t u" "fst (egTag E c t) = Some k"
  shows "\<exists>op a b. t = Prim op [a, b] \<and> op_ok op \<and> tag_ok k \<and> u = tag_ty k \<and> typed E c a u \<and> typed E c b u"
  using assms(2)
proof (cases "(E, c, t)" rule: egTag.cases)
  case (1 E' c' op a b)
  then have t: "t = Prim op [a, b]" "op = ''+'' \<or> op = ''*''" using assms(2) by (auto split: if_splits)
  then obtain w w' where w: "typed E c a w" "typed E c b w'" "primResultTy (est E) op [w, w'] = Inr u"
    using assms(1) by (auto elim!: typed_PrimE simp: list_all2_Cons1)
  have "tag_of op (Some w) = Some k" using assms(2) t msynth_typed [OF w(1)] by auto
  then have k: "w = TInt \<and> k = ''int'' \<or> w = TRat \<and> k = ''rat''" by (auto simp: tag_of_def split: if_splits)
  have "w' = w \<and> u = w" using primResultTy_shape [OF w(3)] t(2) by cases auto
  then show ?thesis using t w k by (auto simp: op_ok_def tag_ok_def tag_ty_def)
qed (use assms(2) in auto)

lemma egArmCtxs_typed:
  assumes "typed E c a (TData g ts)" "map_of (sdefs (est E)) h = Some d" "n \<le> length (ctors_of d)"
  shows "egArmCtxs E c h n a = (map (\<lambda>i. pushAll c (instCtorFields d g ts i)) [0..<n], a)"
  using assms(3)
proof (induction n)
  case (Suc n)
  then show ?case using msynth_typed [OF assms(1)] assms(2) by (simp add: GetDef_def)
qed simp

lemma egChildCtxs_typed:
  assumes k: "has_kids E c t u cus" "kids_typed E cus (egSlots t)" and a: "admitted t"
  shows "egChildCtxs E c t = (map fst cus, t)"
  using k(1)
proof cases
  case (kids_Match g ts h d arms s)
  have h: "h = g" using kids_Match(4) a by (auto simp: kids_Match(1) admitted_def hash_ok_def)
  have "typed E c s (TData g ts)" using k(2) by (simp add: kids_Match(1,2) kids_typed_def)
  from egArmCtxs_typed [OF this, of h d "length arms"] kids_Match h show ?thesis by simp
qed (auto simp: comp_def map_replicate_const elim: is_leaf.elims)

text \<open>A tagged tree of a typed term, with the contexts and types of its children.\<close>

lemma ann_typed:
  assumes E: "sound_env E" and t: "typed E c t u" "ctx_wf E c" "admitted t"
  obtains cus where "has_kids E c t u cus" "kids_typed E cus (egSlots t)"
    "ann E c t = Tagged t (fst (egTag E c t)) (map (\<lambda>((d, _), x). ann E d x) (zip cus (egSlots t)))"
proof -
  obtain cus where k: "has_kids E c t u cus" "kids_typed E cus (egSlots t)" using typed_kids [OF E t(1,2)] by blast
  have l: "length cus = length (egSlots t)" by (rule kids_length [OF k(1)])
  have "map (\<lambda>(x, d, y). egAnnotate E d x y) (zip (egSlots t) (zip (map fst cus) (egSlots t))) =
      map (\<lambda>((d, _), x). ann E d x) (zip cus (egSlots t))"
    by (rule nth_equalityI) (use l in \<open>simp_all add: case_prod_unfold\<close>)
  moreover obtain tag where tag: "egTag E c t = (tag, t)" using egTag_typed [OF t(1)] by metis
  moreover note egChildCtxs_typed [OF k t(3)]
  ultimately have "ann E c t = Tagged t (fst (egTag E c t)) (map (\<lambda>((d, _), x). ann E d x) (zip cus (egSlots t)))"
    by (subst egAnnotate.simps) (simp only: Let_def prod.case fst_conv)
  then show thesis using that k by blast
qed

lemma tag_of_ok: "fst (egTag E c t) = Some k \<Longrightarrow> tag_ok k"
  by (cases "(E, c, t)" rule: egTag.cases)
    (auto simp: tag_of_def tag_ok_def split: if_splits prod.splits)

lemma tags_ok: "list_all tag_ok (tags_of (egAnnotate E c t t'))"
proof (induction E c t t' rule: egAnnotate.induct)
  case (1 E c t cl)
  obtain tag cl1 where tag: "egTag E c cl = (tag, cl1)" by fastforce
  obtain cs cl2 where cs: "egChildCtxs E c cl1 = (cs, cl2)" by fastforce
  have "list_all tag_ok (tags_of (egAnnotate E d x y))" if "(x, d, y) \<in> set (zip (egSlots t) (zip cs (egSlots cl2)))" for x d y
    using "1.IH" [OF tag [symmetric] refl cs [symmetric] refl that refl refl] .
  moreover have "tag_ok k" if "tag = Some k" for k using tag_of_ok [of E c cl k] tag that by simp
  ultimately show ?case
    by (subst egAnnotate.simps) (auto simp: tag cs Let_def list_all_iff split: option.splits)
qed

subsection \<open>Insertion\<close>

lemma admitted_slots:
  assumes "admitted t" "x \<in> set (egSlots t)"
  shows "admitted x"
  using assms nodes_egSlot [OF assms(2)] by (cases t) (auto simp: admitted_def list_all_iff)

lemma ann_prim:
  assumes E: "sound_env E" and t: "typed E c (Prim op [a, b]) u" "ctx_wf E c" "admitted (Prim op [a, b])"
  shows "ann E c (Prim op [a, b]) = Tagged (Prim op [a, b]) (fst (egTag E c (Prim op [a, b]))) [ann E c a, ann E c b]"
proof -
  from ann_typed [OF E t] obtain cus where k: "has_kids E c (Prim op [a, b]) u cus"
    "ann E c (Prim op [a, b]) = Tagged (Prim op [a, b]) (fst (egTag E c (Prim op [a, b]))) (map (\<lambda>((d, _), x). ann E d x) (zip cus [a, b]))"
    by auto
  from k(1) obtain us where "cus = map (Pair c) us" "length us = 2" by (auto elim: kids_PrimE)
  then show ?thesis using k(2) by (auto simp: length_Suc_conv numeral_2_eq_2)
qed

lemma ann_head: "\<exists>tag ks. egAnnotate E c t x = Tagged t tag ks"
  by (subst egAnnotate.simps) (simp add: Let_def split: prod.split)

lemma leaf_ann: "(\<And>o' a b. t \<noteq> Prim o' [a, b]) \<Longrightarrow> tagged_leaves op (ann E c t) = [ann E c t]"
  using ann_head [of E c t t] by (auto split: trm.split list.split)

lemma ann_leaves:
  assumes E: "sound_env E" and c: "ctx_wf E c" and K: "arith op K"
  shows "o' = op \<Longrightarrow> typed E c t K \<Longrightarrow> admitted t \<Longrightarrow>
    tagged_leaves o' (ann E c t) = map (ann E c) (ac_leaves o' t) \<and> (\<forall>l \<in> set (ac_leaves o' t). typed E c l K \<and> admitted l)"
proof (induction o' t rule: ac_leaves.induct)
  case (1 o1 o2 a b)
  have p: "ann E c (Prim o2 [a, b]) = Tagged (Prim o2 [a, b]) (fst (egTag E c (Prim o2 [a, b]))) [ann E c a, ann E c b]"
    by (rule ann_prim [OF E 1(4) c 1(5)])
  show ?case
  proof (cases "o2 = o1")
    case True
    then have "typed E c a K" "typed E c b K" using 1(3,4) arith_typed [OF K] by simp_all
    moreover have "admitted a" "admitted b" using admitted_slots [OF 1(5)] by simp_all
    ultimately show ?thesis using 1(1,2) [OF True 1(3)] by (auto simp: p [unfolded True] True)
  next
    case False
    then show ?thesis using 1(4,5) by (simp add: p)
  qed
qed (simp_all add: leaf_ann)

text \<open>The shape of an admitted term, as the template of its node.\<close>

lemma map_nth_all: "length ks = n \<Longrightarrow> map (\<lambda>i. f (ks ! i)) [0..<n] = map f ks"
  by (rule nth_equalityI) auto

lemma nodes_fill:
  "length ks = length (egSlots t) \<Longrightarrow>
   trm_nodes (egFill t ks) + sum_list (map trm_nodes (egSlots t)) = trm_nodes t + sum_list (map trm_nodes ks)"
  by (cases t) (auto simp: length_Suc_conv comp_def map_nth_all)

lemma length_le_nodes: "length xs \<le> sum_list (map trm_nodes xs)"
proof (induction xs)
  case (Cons a xs)
  then show ?case using trm_nodes_pos [of a] by (simp only: length_Cons list.map sum_list.Cons)
qed simp

lemma shape_admitted: "admitted t \<Longrightarrow> admitted (egShape t)"
proof -
  assume a: "admitted t"
  have "trm_canon (egShape t)"
    using a by (cases t) (auto simp: admitted_def egShape_def egHole_def list_all_iff nth_Cons')
  moreover have "trm_nodes (egShape t) \<le> trm_nodes t"
  proof -
    let ?ks = "replicate (length (egSlots t)) egHole"
    have "sum_list (map trm_nodes ?ks) = length (egSlots t)" by (simp add: egHole_def sum_list_replicate)
    then show ?thesis
      using nodes_fill [of ?ks t, OF length_replicate] length_le_nodes [of "egSlots t"] unfolding egShape_def by linarith
  qed
  ultimately show ?thesis using a by (simp add: admitted_def)
qed

lemma shape_slots: "length (egSlots (egShape t)) = length (egSlots t)"
  by (simp add: egShape_def egSlots_fill)

lemma shape_fill: "egFill (egShape t) (egSlots t) = t"
  by (simp add: egShape_def egFill_fill egFill_slots)

lemma shape_kids: "has_kids E c t u cus \<Longrightarrow> has_kids E c (egShape t) u cus"
  unfolding egShape_def by (rule kids_fill) simp

text \<open>What is inserted: typed terms with their annotation.\<close>

definition entry :: "env \<Rightarrow> ctx \<times> ty \<times> trm \<Rightarrow> tagged \<Rightarrow> bool" where
  "entry E x T \<longleftrightarrow> (case x of (c, u, t) \<Rightarrow> ctx_wf E c \<and> typed E c t u \<and> admitted t \<and> T = ann E c t)"

definition placed :: "(nat \<Rightarrow> meaning) \<Rightarrow> egraph \<Rightarrow> ctx \<times> ty \<times> trm \<Rightarrow> nat \<Rightarrow> bool" where
  "placed D g x a \<longleftrightarrow> (case x of (c, u, t) \<Rightarrow> a < length (gparent g) \<and> D a c u t)"

lemma placed_ext: "gext E D g D' g' \<Longrightarrow> placed D g x a \<Longrightarrow> placed D' g' x a"
  using gextD(2,3) [of E D g D' g'] by (auto simp: placed_def)

lemma placed_lt: "list_all2 (placed D g) xs as \<Longrightarrow> \<forall>a \<in> set as. a < length (gparent g)"
  by (induction rule: list_all2_induct) (auto simp: placed_def)

lemma insert_chain:
  assumes E: "sound_env E" and g: "ginv E D g" and op: "op_ok op" "tag_ok k" and c: "ctx_wf E c"
    and t: "typed E c (Prim op [a, b]) (tag_ty k)"
    and p: "list_all2 (placed D g) (map (\<lambda>l. (c, tag_ty k, l)) (ac_leaves op (Prim op [a, b]))) cs"
    and r: "egAdd g (ac_node (egACSym op k) op cs) = (g', Some r)"
  shows "\<exists>D'. gext E D g D' g' \<and> placed D' g' (c, tag_ty k, Prim op [a, b]) r"
proof -
  let ?ls = "ac_leaves op (Prim op [a, b])" and ?K = "tag_ty k"
  have "2 \<le> length ?ls"
    using leaves_nonempty [of op a] leaves_nonempty [of op b] by (cases "ac_leaves op a"; cases "ac_leaves op b") auto
  then have cs: "2 \<le> length cs" "cs \<noteq> []" using list_all2_lengthD [OF p] by auto
  from add_ac [OF E g op cs(2) placed_lt [OF p] r] cs(1) obtain D' where
    D': "gext E D g D' g'" "r < length (gparent g')" "D' r = Ma E op ?K (map D cs)" by metis
  have "equ E c (rechain op ?ls) (Prim op [a, b]) ?K"
    by (rule arith_leaves [OF tag_arith [OF op(2,1)] E c t])
  moreover have "list_all2 (\<lambda>M. M c ?K) (map D cs) ?ls"
    using p unfolding list_all2_map1 by (simp add: list_all2_conv_all_nth placed_def del: ac_leaves.simps)
  ultimately have "D' r c ?K (Prim op [a, b])" using c unfolding D'(3) Ma_def by blast
  then show ?thesis using D' by (auto simp: placed_def)
qed

lemma insert_node:
  assumes E: "sound_env E" and g: "ginv E D g" and t: "ctx_wf E c" "typed E c t u" "admitted t"
    and k: "has_kids E c t u cus" and p: "list_all2 (placed D g) (map (\<lambda>((d, v), x). (d, v, x)) (zip cus (egSlots t))) cs"
    and r: "egAdd g \<lparr>nsym = str_bytes ''t|'' @ key (egShape t), ntmpl = Some (egShape t), nac = False, nop = '''', nargs = cs\<rparr> = (g', Some r)"
  shows "\<exists>D'. gext E D g D' g' \<and> placed D' g' (c, u, t) r"
proof -
  let ?n = "\<lparr>nsym = str_bytes ''t|'' @ key (egShape t), ntmpl = Some (egShape t), nac = False, nop = '''', nargs = cs\<rparr>"
  have len: "length cs = length (egSlots t)" "length cus = length (egSlots t)"
    using list_all2_lengthD [OF p] kids_length [OF k] by simp_all
  have "pre_ok ?n" using shape_admitted [OF t(3)] len by (simp add: pre_ok_def node_ok_def shape_slots)
  from egAdd_ext [OF E g this] placed_lt [OF p] r obtain D' where
    D': "gext E D g D' g'" "r < length (gparent g')" "D' r = Mt E (egShape t) (map D cs)"
    by (auto simp: sem_def)
  have "list_all2 (\<lambda>M ((c, u), k). M c u k) (map D cs) (zip cus (egSlots t))"
    using p len by (auto simp: list_all2_conv_all_nth placed_def split: prod.splits)
  moreover have "equ E c (egFill (egShape t) (egSlots t)) t u" using equ_refl [OF E t(1,2)] by (simp add: shape_fill)
  ultimately have "Mt E (egShape t) (map D cs) c u t"
    using t(1) len shape_kids [OF k] unfolding Mt_def
    by (intro conjI exI [of _ cus] exI [of _ "egSlots t"]) (simp_all add: shape_slots)
  then show ?thesis using D' by (auto simp: placed_def)
qed

lemma egInsert_ext:
  assumes E: "sound_env E"
  shows "ginv E D g \<Longrightarrow> entry E x T \<Longrightarrow> egInsert g T = (g', Some r) \<Longrightarrow>
      \<exists>D'. gext E D g D' g' \<and> placed D' g' x r"
    and "ginv E D g \<Longrightarrow> list_all2 (entry E) xs Ts \<Longrightarrow> egInserts g Ts = (g', Some rs) \<Longrightarrow>
      \<exists>D'. gext E D g D' g' \<and> list_all2 (placed D' g') xs rs"
proof (induction g T and g Ts arbitrary: D x g' r and D xs g' rs rule: egInsert_egInserts.induct)
  case (1 g t0 tag ks)
  obtain c u t where x: "x = (c, u, t)" by (cases x) auto
  have t: "ctx_wf E c" "typed E c t u" "admitted t" "Tagged t0 tag ks = ann E c t"
    using "1.prems"(2) by (simp_all add: x entry_def)
  obtain cus where k: "has_kids E c t u cus"
    "kids_typed E cus (egSlots t)"
    "ann E c t = Tagged t (fst (egTag E c t)) (map (\<lambda>((d, _), x). ann E d x) (zip cus (egSlots t)))"
    by (rule ann_typed [OF E t(2,1,3)])
  have t0: "t0 = t" "tag = fst (egTag E c t)" "ks = map (\<lambda>((d, _), x). ann E d x) (zip cus (egSlots t))"
    using t(4) k(3) by simp_all
  show ?case
  proof (cases tag)
    case (Some j)
    obtain op a b where p: "t = Prim op [a, b]" "op_ok op" "tag_ok j" "u = tag_ty j" "typed E c a u" "typed E c b u"
      using egTag_Some [OF t(2)] Some t0(2) by metis
    have K: "arith op u" using tag_arith [OF p(3,2)] p(4) by simp
    have ks: "ks = [ann E c a, ann E c b]" using ann_prim [OF E, of c op a b u] t p(1) t0 by simp
    have ad: "admitted a" "admitted b" using admitted_slots [OF t(3)] p(1) by simp_all
    let ?ls = "ac_leaves op a @ ac_leaves op b"
    have l: "concat (map (tagged_leaves (op_of t0)) ks) = map (ann E c) ?ls" "\<forall>l \<in> set ?ls. typed E c l u \<and> admitted l"
      using ann_leaves [OF E t(1) K refl p(5) ad(1)] ann_leaves [OF E t(1) K refl p(6) ad(2)]
      by (auto simp: ks t0(1) p(1) op_of_def)
    obtain g1 cs where r: "egInserts g (concat (map (tagged_leaves (op_of t0)) ks)) = (g1, Some cs)"
      "egAdd g1 (ac_node (egACSym (op_of t0) j) (op_of t0) cs) = (g', Some r)"
      using "1.prems"(3) Some by (auto split: prod.splits option.splits)
    have "list_all2 (entry E) (map (\<lambda>l. (c, u, l)) ?ls) (concat (map (tagged_leaves (op_of t0)) ks))"
      unfolding l(1) using l(2) t(1) by (auto simp: list_all2_conv_all_nth entry_def nth_append)
    from "1.IH"(2) [OF Some "1.prems"(1) this r(1)] obtain D1 where
      D1: "gext E D g D1 g1" "list_all2 (placed D1 g1) (map (\<lambda>l. (c, u, l)) ?ls) cs" by blast
    have "\<exists>D'. gext E D1 g1 D' g' \<and> placed D' g' (c, u, t) r"
      unfolding p(1,4)
      using insert_chain [OF E gextD(1) [OF D1(1)] p(2,3) t(1), of a b cs g' r] t(2) D1(2) r(2) p(1,4) t0(1)
      by (simp add: op_of_def)
    then show ?thesis using gext_trans [OF D1(1)] x by blast
  next
    case None
    obtain g1 cs where r: "egInserts g ks = (g1, Some cs)"
      "egAdd g1 \<lparr>nsym = str_bytes ''t|'' @ key (egShape t), ntmpl = Some (egShape t), nac = False, nop = '''', nargs = cs\<rparr> = (g', Some r)"
      using "1.prems"(3) None t0(1) by (auto split: prod.splits option.splits)
    have "list_all2 (entry E) (map (\<lambda>((d, v), x). (d, v, x)) (zip cus (egSlots t))) ks"
      using k(2) admitted_slots [OF t(3)] unfolding t0(3) kids_typed_def
      by (auto simp: list_all2_conv_all_nth entry_def split: prod.split)
    from "1.IH"(1) [OF None "1.prems"(1) this r(1)] obtain D1 where
      D1: "gext E D g D1 g1" "list_all2 (placed D1 g1) (map (\<lambda>((d, v), x). (d, v, x)) (zip cus (egSlots t))) cs" by blast
    from insert_node [OF E gextD(1) [OF D1(1)] t(1-3) k(1) D1(2) r(2)] show ?thesis
      using gext_trans [OF D1(1)] x by blast
  qed
next
  case (2 g)
  then show ?case using gext_refl by fastforce
next
  case (3 g T Ts)
  obtain x xs' where xs: "xs = x # xs'" "entry E x T" "list_all2 (entry E) xs' Ts"
    using "3.prems"(2) by (auto simp: list_all2_Cons2)
  obtain g1 a cs where r: "egInsert g T = (g1, Some a)" "egInserts g1 Ts = (g', Some cs)" "rs = a # cs"
    using "3.prems"(3) by (auto split: prod.splits option.splits)
  from "3.IH"(1) [OF "3.prems"(1) xs(2) r(1)] obtain D1 where D1: "gext E D g D1 g1" "placed D1 g1 x a" by blast
  from "3.IH"(2) [OF r(1) [symmetric] refl gextD(1) [OF D1(1)] xs(3) r(2)] obtain D2 where
    D2: "gext E D1 g1 D2 g'" "list_all2 (placed D2 g') xs' cs" by blast
  then show ?case using gext_trans [OF D1(1)] placed_ext [OF D2(1) D1(2)] xs(1) r(3) by auto
qed

subsection \<open>The result\<close>

lemma newEgraph_inv: "ginv E (\<lambda>_ _ _ _. False) (newEgraph b)"
  by (simp add: ginv_def newEgraph_def mwf_def)

lemma saturated:
  assumes E: "sound_env E" and t: "typed E [] t u" "admitted t" and r: "egInsert (newEgraph b) (ann E [] t) = (g, Some r)"
  defines "G \<equiv> saturate (tags_of (ann E [] t)) (egRebuild g)"
  obtains D where "ginv E D G" "r < length (gparent G)" "D r [] u t"
proof -
  have "entry E ([], u, t) (ann E [] t)" using t by (simp add: entry_def)
  from egInsert_ext(1) [OF E newEgraph_inv this r] obtain D where
    D: "ginv E D g" "r < length (gparent g)" "D r [] u t" by (auto simp: gext_def placed_def)
  have k: "gkeep E D g D (egRebuild g)" by (rule egRebuild_keep [OF E D(1)])
  then have "ginv E D (egRebuild g)" by (simp add: gkeep_def)
  from saturate_keep [OF E tags_ok this, of E "[]" t t]
  obtain D' where k': "gkeep E D (egRebuild g) D' G" unfolding G_def by blast
  have "ginv E D' G" "r < length (gparent G)" "D' r = D r"
    using gkeep_trans [OF k k'] D(2) by (auto simp: gkeep_def)
  then show thesis using that [of D'] D(3) by simp
qed

lemma eCanonicalArithBudget_cases:
  assumes "\<And>g r s. egInsert (newEgraph b) (ann E [] t) = (g, Some r) \<Longrightarrow>
      egExtract (saturate (tags_of (ann E [] t)) (egRebuild g)) r = Some s \<Longrightarrow> P s"
    and "P t"
  shows "P (eCanonicalArithBudget E t b force)"
  using assms by (auto simp: eCanonicalArithBudget_def Let_def split: prod.splits option.splits)

lemma eCanonicalArithBudget_equ:
  assumes E: "sound_env E" and t: "typed E [] t u" "admitted t"
  shows "equ E [] t (eCanonicalArithBudget E t b force) u"
proof (rule eCanonicalArithBudget_cases)
  fix g r s
  assume i: "egInsert (newEgraph b) (ann E [] t) = (g, Some r)"
    and x: "egExtract (saturate (tags_of (ann E [] t)) (egRebuild g)) r = Some s"
  obtain D where D: "ginv E D (saturate (tags_of (ann E [] t)) (egRebuild g))"
    "r < length (gparent (saturate (tags_of (ann E [] t)) (egRebuild g)))" "D r [] u t"
    by (rule saturated [OF E t i])
  have "stands_for (D r) s" by (rule egExtract_ok [OF E D(1,2) x])
  then have "D r [] u s" using D(3) by (auto simp: stands_for_def)
  then show "equ E [] t s u" using mwfD(2) [OF ginvD(1) [OF D(1)]] D(3) by metis
qed (use equ_refl [OF E _ t(1)] in simp)

end
