(* ===== verification/PrefixFree.thy ===== *)
theory PrefixFree
  imports DecodeTerm
begin

text \<open>
  The encodings of types and terms are prefix-free, whatever their size: the codecs show it
  within the node budget of the decoder, which the results of saturation are not known to obey.
\<close>

lemma u32_sd: "n \<le> 2 ^ 24 \<Longrightarrow> m \<le> 2 ^ 24 \<Longrightarrow> be_bytes 4 n @ r = be_bytes 4 m @ s \<Longrightarrow> m = n \<and> s = r"
  using u32.self_delimiting [of n m r s] by simp

lemma str_sd: "length n \<le> 2 ^ 24 \<Longrightarrow> length m \<le> 2 ^ 24 \<Longrightarrow> str_enc n @ r = str_enc m @ s \<Longrightarrow> m = n \<and> s = r"
  using str.self_delimiting [of n m r s] by simp

lemma hash_sd: "hash_ok h \<Longrightarrow> hash_ok g \<Longrightarrow> hash_raw h @ r = hash_raw g @ s \<Longrightarrow> g = h \<and> s = r"
  using hash.self_delimiting [of h g r s] by simp

lemma str_iff: "length n \<le> 2 ^ 24 \<Longrightarrow> length m \<le> 2 ^ 24 \<Longrightarrow> (str_enc n @ r = str_enc m @ s) = (m = n \<and> s = r)"
  using str_sd by blast

lemma hash_iff: "hash_ok h \<Longrightarrow> hash_ok g \<Longrightarrow> (hash_raw h @ r = hash_raw g @ s) = (g = h \<and> s = r)"
  using hash_sd by blast

definition apart :: "('a \<Rightarrow> bytes) \<Rightarrow> ('a \<Rightarrow> bool) \<Rightarrow> 'a \<Rightarrow> bool" where
  "apart put ok x \<longleftrightarrow> (\<forall>y r s. ok y \<longrightarrow> put x @ r = put y @ s \<longrightarrow> y = x \<and> s = r)"

lemma apartD: "apart put ok x \<Longrightarrow> ok y \<Longrightarrow> put x @ r = put y @ s \<Longrightarrow> y = x \<and> s = r"
  by (auto simp: apart_def)

lemma apart_iff: "apart put ok x \<Longrightarrow> ok y \<Longrightarrow> (put x @ r = put y @ s) = (y = x \<and> s = r)"
  "apart put ok x \<Longrightarrow> ok y \<Longrightarrow> (put y @ s = put x @ r) = (y = x \<and> s = r)"
  by (auto simp: apart_def eq_commute [of "put y @ s"])

lemma apart_list:
  "\<forall>x \<in> set xs. apart put ok x \<Longrightarrow> length ys = length xs \<Longrightarrow> list_all ok ys \<Longrightarrow>
   concat (map put xs) @ r = concat (map put ys) @ s \<Longrightarrow> ys = xs \<and> s = r"
proof (induction xs arbitrary: ys)
  case (Cons x xs)
  then obtain y ys' where y: "ys = y # ys'" by (cases ys) auto
  then have e: "put x @ concat (map put xs) @ r = put y @ concat (map put ys') @ s" using Cons.prems(4) by simp
  have "y = x \<and> concat (map put ys') @ s = concat (map put xs) @ r"
    using apartD [of put ok x y, OF _ _ e] Cons.prems(1,3) y by simp
  then show ?case using Cons y by simp
qed simp

lemma apart_fields:
  "\<forall>x \<in> set xs. apart put ok x \<Longrightarrow> length ys = length xs \<Longrightarrow> list_all ok ys \<Longrightarrow> length ms = length xs \<Longrightarrow> length ns = length xs \<Longrightarrow>
   list_all (\<lambda>n. length n \<le> 2 ^ 24) ms \<Longrightarrow> list_all (\<lambda>n. length n \<le> 2 ^ 24) ns \<Longrightarrow>
   concat (map (\<lambda>(n, b). str_enc n @ b) (zip ns (map put xs))) @ r =
   concat (map (\<lambda>(n, b). str_enc n @ b) (zip ms (map put ys))) @ s \<Longrightarrow> ms = ns \<and> ys = xs \<and> s = r"
proof (induction xs arbitrary: ys ms ns)
  case (Cons x xs)
  obtain y ys' where y: "ys = y # ys'" using Cons.prems(2) by (cases ys) auto
  obtain m ms' where m: "ms = m # ms'" using Cons.prems(4) by (cases ms) auto
  obtain n ns' where n: "ns = n # ns'" using Cons.prems(5) by (cases ns) auto
  let ?f = "\<lambda>ns xs. concat (map (\<lambda>(n, b). str_enc n @ b) (zip ns (map put xs)))"
  have e: "str_enc n @ put x @ ?f ns' xs @ r = str_enc m @ put y @ ?f ms' ys' @ s"
    using Cons.prems(8) by (simp add: y m n)
  have "m = n \<and> put y @ ?f ms' ys' @ s = put x @ ?f ns' xs @ r"
    using Cons.prems(6,7) by (intro str_sd [OF _ _ e]) (simp_all add: m n)
  then have "n = m" and e': "put x @ ?f ns' xs @ r = put y @ ?f ms' ys' @ s" by (simp_all only:)
  have "y = x \<and> ?f ms' ys' @ s = ?f ns' xs @ r" using apartD [of put ok x y, OF _ _ e'] Cons.prems(1,3) y by simp
  then show ?case using Cons \<open>n = m\<close> by (simp add: y m n)
qed simp

lemma apartI: "(\<And>y r s. ok y \<Longrightarrow> put x @ r = put y @ s \<Longrightarrow> y = x \<and> s = r) \<Longrightarrow> apart put ok x"
  unfolding apart_def by blast

lemma apart_counted:
  assumes xs: "\<forall>x \<in> set xs. apart put ok x" "length xs \<le> 2 ^ 24" and ys: "list_all ok ys" "length ys \<le> 2 ^ 24"
    and e: "be_bytes 4 (length xs) @ concat (map put xs) @ r = be_bytes 4 (length ys) @ concat (map put ys) @ s"
  shows "ys = xs \<and> s = r"
proof -
  have l: "length ys = length xs \<and> concat (map put ys) @ s = concat (map put xs) @ r" by (rule u32_sd [OF xs(2) ys(2) e])
  show ?thesis by (rule apart_list [OF xs(1) conjunct1 [OF l] ys(1) conjunct2 [OF l, symmetric]])
qed

lemma apart_record:
  assumes xs: "\<forall>x \<in> set xs. apart put ok x" "length ns \<le> 2 ^ 24" "length ns = length xs" "list_all (\<lambda>n. length n \<le> 2 ^ 24) ns"
    and ys: "list_all ok ys" "length ms \<le> 2 ^ 24" "length ms = length ys" "list_all (\<lambda>n. length n \<le> 2 ^ 24) ms"
    and e: "be_bytes 4 (length ns) @ concat (map (\<lambda>(n, b). str_enc n @ b) (zip ns (map put xs))) @ r =
      be_bytes 4 (length ms) @ concat (map (\<lambda>(n, b). str_enc n @ b) (zip ms (map put ys))) @ s"
  shows "ms = ns \<and> ys = xs \<and> s = r"
proof -
  have l: "length ms = length ns \<and> concat (map (\<lambda>(n, b). str_enc n @ b) (zip ms (map put ys))) @ s =
      concat (map (\<lambda>(n, b). str_enc n @ b) (zip ns (map put xs))) @ r" by (rule u32_sd [OF xs(2) ys(2) e])
  show ?thesis
    using l xs(3) ys(3) by (intro apart_fields [OF xs(1) _ ys(1) _ xs(3) ys(4) xs(4) conjunct2 [OF l, symmetric]]) simp_all
qed

subsection \<open>Types\<close>

lemma apart_ty: "ty_canon t \<Longrightarrow> apart ty_bytes ty_canon t"
proof (induction t)
  case (TVar v)
  show ?case
    apply (rule apartI)
    subgoal for y r s using TVar u32_sd [of v _ r s] by (cases y) (auto simp: ty_tag_defs)
    done
next
  case (TFun a b)
  then have ab: "apart ty_bytes ty_canon a" "apart ty_bytes ty_canon b" by simp_all
  show ?case
    apply (rule apartI)
    subgoal for y r s
      by (cases y) (auto simp: ty_tag_defs dest: apartD [OF ab(1), rotated] apartD [OF ab(2), rotated])
    done
next
  case (TData h as)
  then have as: "\<forall>a \<in> set as. apart ty_bytes ty_canon a" "hash_ok h" "length as \<le> 2 ^ 24" by (auto simp: list_all_iff)
  show ?case
  proof (rule apartI)
    fix y r s
    assume y: "ty_canon y" "ty_bytes (TData h as) @ r = ty_bytes y @ s"
    then show "y = TData h as \<and> s = r"
    proof (cases y)
      case (TData g xs)
      have g: "hash_ok g" "list_all ty_canon xs" "length xs \<le> 2 ^ 24" using y(1) TData by simp_all
      have "hash_raw h @ be_bytes 4 (length as) @ concat (map ty_bytes as) @ r =
          hash_raw g @ be_bytes 4 (length xs) @ concat (map ty_bytes xs) @ s" using y(2) TData by simp
      from hash_sd [OF as(2) g(1) this]
      have e: "g = h" "be_bytes 4 (length as) @ concat (map ty_bytes as) @ r = be_bytes 4 (length xs) @ concat (map ty_bytes xs) @ s"
        by (simp_all only:)
      from apart_counted [OF as(1,3) g(2,3) e(2)] e(1) TData show ?thesis by simp
    qed (simp_all add: ty_tag_defs)
  qed
next
  case (TRec as)
  then have as: "\<forall>a \<in> set as. apart ty_bytes ty_canon a" "length as \<le> 2 ^ 24" by (auto simp: list_all_iff)
  show ?case
  proof (rule apartI)
    fix y r s
    assume y: "ty_canon y" "ty_bytes (TRec as) @ r = ty_bytes y @ s"
    then show "y = TRec as \<and> s = r"
    proof (cases y)
      case (TRec xs)
      have xs: "list_all ty_canon xs" "length xs \<le> 2 ^ 24" using y(1) TRec by simp_all
      have "be_bytes 4 (length as) @ concat (map ty_bytes as) @ r =
          be_bytes 4 (length xs) @ concat (map ty_bytes xs) @ s" using y(2) TRec by simp
      from apart_counted [OF as xs this] TRec show ?thesis by simp
    qed (simp_all add: ty_tag_defs)
  qed
next
  case (TRecord ns as)
  then have as: "\<forall>a \<in> set as. apart ty_bytes ty_canon a" "length ns \<le> 2 ^ 24" "length ns = length as"
    "list_all (\<lambda>n. length n \<le> 2 ^ 24) ns" by (auto simp: list_all_iff)
  show ?case
  proof (rule apartI)
    fix y r s
    assume y: "ty_canon y" "ty_bytes (TRecord ns as) @ r = ty_bytes y @ s"
    then show "y = TRecord ns as \<and> s = r"
    proof (cases y)
      case (TRecord ms xs)
      have xs: "list_all ty_canon xs" "length ms \<le> 2 ^ 24" "length ms = length xs" "list_all (\<lambda>n. length n \<le> 2 ^ 24) ms"
        using y(1) TRecord by simp_all
      have "be_bytes 4 (length ns) @ concat (map (\<lambda>(n, b). str_enc n @ b) (zip ns (map ty_bytes as))) @ r =
          be_bytes 4 (length ms) @ concat (map (\<lambda>(n, b). str_enc n @ b) (zip ms (map ty_bytes xs))) @ s" using y(2) TRecord by simp
      from apart_record [OF as xs this] TRecord show ?thesis by simp
    qed (simp_all add: ty_tag_defs)
  qed
next
  case TInt
  show ?case
    apply (rule apartI)
    subgoal for y r s by (cases y) (simp_all add: ty_tag_defs)
    done
next
  case TBool
  show ?case
    apply (rule apartI)
    subgoal for y r s by (cases y) (simp_all add: ty_tag_defs)
    done
next
  case TRat
  show ?case
    apply (rule apartI)
    subgoal for y r s by (cases y) (simp_all add: ty_tag_defs)
    done
next
  case TFloat
  show ?case
    apply (rule apartI)
    subgoal for y r s by (cases y) (simp_all add: ty_tag_defs)
    done
qed

lemma ty_bytes_sd: "ty_canon t \<Longrightarrow> ty_canon u \<Longrightarrow> ty_bytes t @ r = ty_bytes u @ s \<Longrightarrow> u = t \<and> s = r"
  by (rule apartD [OF apart_ty])

lemma tys_bytes_sd: "tys_canon ts \<Longrightarrow> tys_canon us \<Longrightarrow> tys_bytes ts @ r = tys_bytes us @ s \<Longrightarrow> us = ts \<and> s = r"
  using apart_counted [of ts ty_bytes ty_canon us r s] apart_ty
  by (simp add: tys_canon_def tys_bytes_def list_all_iff)

subsection \<open>Terms\<close>

lemma ty_bytes_iff: "ty_canon t \<Longrightarrow> ty_canon u \<Longrightarrow> (ty_bytes t @ r = ty_bytes u @ s) = (u = t \<and> s = r)"
  by (rule apart_iff [OF apart_ty])

lemma tys_bytes_iff: "tys_canon ts \<Longrightarrow> tys_canon us \<Longrightarrow> (tys_bytes ts @ r = tys_bytes us @ s) = (us = ts \<and> s = r)"
  "tys_canon ts \<Longrightarrow> tys_canon us \<Longrightarrow> (tys_bytes us @ s = tys_bytes ts @ r) = (us = ts \<and> s = r)"
  using tys_bytes_sd by blast+

lemma bigint_sd: "int_canon v \<Longrightarrow> int_canon w \<Longrightarrow> bigint_bytes v @ r = bigint_bytes w @ s \<Longrightarrow> w = v \<and> s = r"
  using bigint.self_delimiting [of v w r s] by (simp add: int_canon_def)

lemma float_sd:
  "canonFloat f = f \<Longrightarrow> canonFloat g = g \<Longrightarrow> be_bytes 8 (unat (canonFloat f)) @ r = be_bytes 8 (unat (canonFloat g)) @ s \<Longrightarrow>
   g = f \<and> s = r"
  using float.self_delimiting [of f g r s] by (simp add: float_put_def)

lemma apart_trm: "trm_canon t \<Longrightarrow> apart trm_bytes trm_canon t"
proof (induction t)
  case (Var i)
  show ?case
    apply (rule apartI)
    subgoal for y r s using Var u32_sd [of i _ r s] by (cases y) (auto simp: tm_tag_defs)
    done
next
  case (IntL v)
  show ?case
    apply (rule apartI)
    subgoal for y r s using IntL bigint_sd [of v _ r s] by (cases y) (auto simp: tm_tag_defs)
    done
next
  case (RatL q)
  show ?case
  proof (rule apartI)
    fix y r s
    assume y: "trm_canon y" "trm_bytes (RatL q) @ r = trm_bytes y @ s"
    then show "y = RatL q \<and> s = r"
    proof (cases y)
      case (RatL p)
      let ?n = "\<lambda>q. fst (quotient_of q)" and ?d = "\<lambda>q. snd (quotient_of q)"
      have c: "int_canon (?n q)" "int_canon (?d q)" "int_canon (?n p)" "int_canon (?d p)"
        using y(1) RatL \<open>trm_canon (RatL q)\<close> by simp_all
      have e: "bigint_bytes (?n q) @ bigint_bytes (?d q) @ r = bigint_bytes (?n p) @ bigint_bytes (?d p) @ s"
        using y(2) RatL by simp
      have n: "?n p = ?n q \<and> bigint_bytes (?d p) @ s = bigint_bytes (?d q) @ r" by (rule bigint_sd [OF c(1,3) e])
      have "?d p = ?d q \<and> s = r" by (rule bigint_sd [OF c(2,4) conjunct2 [OF n, symmetric]])
      with n have "quotient_of p = quotient_of q" "s = r" by (auto intro: prod_eqI)
      then show ?thesis using RatL quotient_of_inject by simp
    qed (simp_all add: tm_tag_defs)
  qed
next
  case (FloatL f)
  show ?case
    apply (rule apartI)
    subgoal for y r s using FloatL float_sd [of f _ r s] by (cases y) (auto simp: tm_tag_defs)
    done
next
  case (BoolL b)
  show ?case
    apply (rule apartI)
    subgoal for y r s by (cases y) (auto simp: tm_tag_defs split: if_splits)
    done
next
  case (Lam p b)
  then have b: "ty_canon p" "apart trm_bytes trm_canon b" by simp_all
  show ?case
    apply (rule apartI)
    subgoal for y r s
      by (cases y) (simp_all add: tm_tag_defs ty_bytes_iff [OF b(1)] apart_iff [OF b(2)])
    done
next
  case (App f a)
  then have fa: "apart trm_bytes trm_canon f" "apart trm_bytes trm_canon a" by simp_all
  show ?case
    apply (rule apartI)
    subgoal for y r s
      by (cases y) (simp_all add: tm_tag_defs apart_iff [OF fa(1)] apart_iff [OF fa(2)])
    done
next
  case (Let p a b)
  then have ab: "ty_canon p" "apart trm_bytes trm_canon a" "apart trm_bytes trm_canon b" by simp_all
  show ?case
    apply (rule apartI)
    subgoal for y r s
      by (cases y) (simp_all add: tm_tag_defs ty_bytes_iff [OF ab(1)] apart_iff [OF ab(2)] apart_iff [OF ab(3)])
    done
next
  case (If a b d)
  then have ab: "apart trm_bytes trm_canon a" "apart trm_bytes trm_canon b" "apart trm_bytes trm_canon d" by simp_all
  show ?case
    apply (rule apartI)
    subgoal for y r s
      by (cases y) (simp_all add: tm_tag_defs apart_iff [OF ab(1)] apart_iff [OF ab(2)] apart_iff [OF ab(3)])
    done
next
  case (Self ts)
  then have ts: "tys_canon ts" by simp
  show ?case
    apply (rule apartI)
    subgoal for y r s by (cases y) (simp_all add: tm_tag_defs tys_bytes_iff [OF ts])
    done
next
  case (Ref h ts)
  then have ts: "hash_ok h" "tys_canon ts" by simp_all
  show ?case
    apply (rule apartI)
    subgoal for y r s by (cases y) (simp_all add: tm_tag_defs hash_iff [OF ts(1)] tys_bytes_iff [OF ts(2)])
    done
next
  case (Field a f)
  then have a: "apart trm_bytes trm_canon a" "length f \<le> 2 ^ 24" by simp_all
  show ?case
    apply (rule apartI)
    subgoal for y r s
      using a(2) by (cases y) (simp_all add: tm_tag_defs apart_iff [OF a(1)] str_iff)
    done
next
  case (Prim op as)
  then have as: "\<forall>a \<in> set as. apart trm_bytes trm_canon a" "length op \<le> 2 ^ 24" "length as \<le> 2 ^ 24" by (auto simp: list_all_iff)
  show ?case
  proof (rule apartI)
    fix y r s
    assume y: "trm_canon y" "trm_bytes (Prim op as) @ r = trm_bytes y @ s"
    then show "y = Prim op as \<and> s = r"
    proof (cases y)
      case (Prim o' xs)
      have c: "length o' \<le> 2 ^ 24" "list_all trm_canon xs" "length xs \<le> 2 ^ 24" using y(1) Prim by simp_all
      have "str_enc op @ be_bytes 4 (length as) @ concat (map trm_bytes as) @ r =
          str_enc o' @ be_bytes 4 (length xs) @ concat (map trm_bytes xs) @ s" using y(2) Prim by simp
      from str_sd [OF as(2) c(1) this]
      have e: "o' = op" "be_bytes 4 (length as) @ concat (map trm_bytes as) @ r = be_bytes 4 (length xs) @ concat (map trm_bytes xs) @ s"
        by (simp_all only:)
      from apart_counted [OF as(1,3) c(2,3) e(2)] e(1) Prim show ?thesis by simp
    qed (simp_all add: tm_tag_defs)
  qed
next
  case (Ctor h i ts as)
  then have as: "\<forall>a \<in> set as. apart trm_bytes trm_canon a" "length as \<le> 2 ^ 24" "hash_ok h" "i \<le> 2 ^ 24" "tys_canon ts"
    by (auto simp: list_all_iff)
  show ?case
  proof (rule apartI)
    fix y r s
    assume y: "trm_canon y" "trm_bytes (Ctor h i ts as) @ r = trm_bytes y @ s"
    then show "y = Ctor h i ts as \<and> s = r"
    proof (cases y)
      case (Ctor g j us xs)
      have c: "hash_ok g" "j \<le> 2 ^ 24" "tys_canon us" "list_all trm_canon xs" "length xs \<le> 2 ^ 24" using y(1) Ctor by simp_all
      let ?l = "\<lambda>as r. be_bytes 4 (length as) @ concat (map trm_bytes as) @ r"
      have e: "hash_raw h @ be_bytes 4 i @ tys_bytes ts @ ?l as r = hash_raw g @ be_bytes 4 j @ tys_bytes us @ ?l xs s"
        using y(2) Ctor by simp
      have g: "g = h \<and> be_bytes 4 j @ tys_bytes us @ ?l xs s = be_bytes 4 i @ tys_bytes ts @ ?l as r"
        by (rule hash_sd [OF as(3) c(1) e])
      have j: "j = i \<and> tys_bytes us @ ?l xs s = tys_bytes ts @ ?l as r"
        by (rule u32_sd [OF as(4) c(2) conjunct2 [OF g, symmetric]])
      have us: "us = ts \<and> ?l xs s = ?l as r" by (rule tys_bytes_sd [OF as(5) c(3) conjunct2 [OF j, symmetric]])
      from apart_counted [OF as(1,2) c(4,5) conjunct2 [OF us, symmetric]] g j us Ctor show ?thesis by simp
    qed (simp_all add: tm_tag_defs)
  qed
next
  case (Match h a as)
  then have as: "\<forall>a \<in> set as. apart trm_bytes trm_canon a" "length as \<le> 2 ^ 24" "hash_ok h" "apart trm_bytes trm_canon a"
    by (auto simp: list_all_iff)
  show ?case
  proof (rule apartI)
    fix y r s
    assume y: "trm_canon y" "trm_bytes (Match h a as) @ r = trm_bytes y @ s"
    then show "y = Match h a as \<and> s = r"
    proof (cases y)
      case (Match g x xs)
      have c: "hash_ok g" "trm_canon x" "list_all trm_canon xs" "length xs \<le> 2 ^ 24" using y(1) Match by simp_all
      let ?l = "\<lambda>as r. be_bytes 4 (length as) @ concat (map trm_bytes as) @ r"
      have e: "hash_raw h @ trm_bytes a @ ?l as r = hash_raw g @ trm_bytes x @ ?l xs s" using y(2) Match by simp
      have g: "g = h \<and> trm_bytes x @ ?l xs s = trm_bytes a @ ?l as r" by (rule hash_sd [OF as(3) c(1) e])
      have x: "x = a \<and> ?l xs s = ?l as r" by (rule apartD [OF as(4) c(2) conjunct2 [OF g, symmetric]])
      from apart_counted [OF as(1,2) c(3,4) conjunct2 [OF x, symmetric]] g x Match show ?thesis by simp
    qed (simp_all add: tm_tag_defs)
  qed
next
  case (Record ns as)
  then have as: "\<forall>a \<in> set as. apart trm_bytes trm_canon a" "length ns \<le> 2 ^ 24" "length ns = length as"
    "list_all (\<lambda>n. length n \<le> 2 ^ 24) ns" by (auto simp: list_all_iff)
  show ?case
  proof (rule apartI)
    fix y r s
    assume y: "trm_canon y" "trm_bytes (Record ns as) @ r = trm_bytes y @ s"
    then show "y = Record ns as \<and> s = r"
    proof (cases y)
      case (Record ms xs)
      have xs: "list_all trm_canon xs" "length ms \<le> 2 ^ 24" "length ms = length xs" "list_all (\<lambda>n. length n \<le> 2 ^ 24) ms"
        using y(1) Record by simp_all
      have "be_bytes 4 (length ns) @ concat (map (\<lambda>(n, b). str_enc n @ b) (zip ns (map trm_bytes as))) @ r =
          be_bytes 4 (length ms) @ concat (map (\<lambda>(n, b). str_enc n @ b) (zip ms (map trm_bytes xs))) @ s" using y(2) Record by simp
      from apart_record [OF as xs this] Record show ?thesis by simp
    qed (simp_all add: tm_tag_defs)
  qed
qed

lemma trm_bytes_inj': "trm_canon t \<Longrightarrow> trm_canon u \<Longrightarrow> trm_bytes t = trm_bytes u \<longleftrightarrow> u = t"
  using apartD [OF apart_trm, of t u "[]" "[]"] by auto

end
