(* ===== verification/EgHash.thy ===== *)
theory EgHash
  imports EgSound PrefixFree
begin

text \<open>
  The result of saturation is a term the encoding admits, so equal bytes of \<^verbatim>\<open>eHash\<close> mean equal
  types and equal canonical bodies; and definitions with equal ones return the same data.
\<close>

subsection \<open>Extraction and canonical terms\<close>

lemma fill_canon:
  assumes "trm_canon s" "length ks = length (egSlots s)" "\<forall>k \<in> set ks. trm_canon k"
  shows "trm_canon (egFill s ks)"
proof -
  have "trm_canon (ks ! i)" if "i < length (egSlots s)" for i using assms(2,3) that by simp
  then show ?thesis using assms(1) by (cases s) (auto simp: list_all_iff nth_Cons')
qed

lemma rebuild_canon:
  assumes "op = ''+'' \<or> op = ''*''" "ks \<noteq> []" "\<forall>k \<in> set ks. trm_canon k"
  shows "trm_canon (acRebuild op ks)"
proof -
  have d: "acDropUnits op ks \<noteq> []" "set (acDropUnits op ks) \<subseteq> set ks"
    using assms(2) by (auto simp: acDropUnits_def Let_def)
  then have "sort_key key (acDropUnits op ks) \<noteq> []" by (metis set_empty set_sort)
  moreover have "op \<notin> idempotentPrims" "length op \<le> 2 ^ 24" using assms(1) by (auto simp: idempotentPrims_def)
  ultimately show ?thesis using d(2) assms(3) by (auto simp: acRebuild_def Let_def intro!: chain_canon)
qed

lemma build_canon:
  assumes n: "node_ok n" and ks: "length ks = length (nargs n)" "\<forall>k \<in> set ks. trm_canon k"
  shows "trm_canon (egBuild n ks)"
proof (cases "nac n")
  case True
  then have "nop n = ''+'' \<or> nop n = ''*''" "ks \<noteq> []" using n ks(1) by (auto simp: node_ok_def ac_ok_def)
  then show ?thesis using True ks(2) by (simp add: egBuild_def rebuild_canon)
next
  case False
  then obtain s where "ntmpl n = Some s" "trm_canon s" "length ks = length (egSlots s)"
    using n ks(1) by (auto simp: node_ok_def admitted_def)
  then show ?thesis using False ks(2) fill_canon by (simp add: egBuild_def)
qed

definition best_canon :: "(nat \<Rightarrow> egbest option) \<Rightarrow> bool" where
  "best_canon best \<longleftrightarrow> (\<forall>a b. best a = Some b \<longrightarrow> trm_canon (bterm b))"

lemma better_canon:
  assumes b: "best_canon best" and n: "node_ok (gnodes g ! nid)" and r: "better g best cls nid = Some x"
  shows "trm_canon (bterm x)"
proof -
  let ?n = "gnodes g ! nid"
  let ?bs = "map (\<lambda>a. best (egFind g a)) (nargs ?n)"
  have none: "None \<notin> set ?bs" using r by (auto simp: better_def Let_def)
  have x: "bterm x = egBuild ?n (map bterm (map the ?bs))"
    using r none by (auto simp: better_def Let_def split: if_splits)
  have "trm_canon (bterm (the y))" if "y \<in> set ?bs" for y
  proof -
    from \<open>y \<in> set ?bs\<close> obtain a where a: "y = best a" by auto
    obtain z where "y = Some z" using \<open>y \<in> set ?bs\<close> none by (metis not_None_eq)
    then show ?thesis using a b by (auto simp: best_canon_def)
  qed
  then show ?thesis unfolding x by (intro build_canon [OF n]) auto
qed

lemma extract_pass_canon:
  assumes g: "\<forall>n \<in> set (gnodes g). node_ok n"
  shows "\<forall>(a, nid) \<in> set vs. nid < length (gnodes g) \<Longrightarrow> best_canon best \<Longrightarrow> best_canon (fst (extract_pass g best ch vs))"
proof (induction vs arbitrary: best ch)
  case (Cons v vs)
  obtain a nid where v: "v = (a, nid)" "nid < length (gnodes g)" using Cons.prems(1) by auto
  show ?case
  proof (cases "better g best a nid")
    case None
    then show ?thesis using Cons v by simp
  next
    case (Some x)
    then have "best_canon (best(a \<mapsto> x))"
      using better_canon [OF Cons.prems(2) _ Some] g v(2) Cons.prems(2) by (simp add: best_canon_def)
    then show ?thesis using Cons.IH Cons.prems(1) Some v by simp
  qed
qed simp

lemma egExtract_canon:
  assumes g: "\<forall>n \<in> set (gnodes g). node_ok n" and r: "egExtract g r = Some t"
  shows "trm_canon t"
proof -
  let ?vs = "concat (map (\<lambda>(c, ns). map (Pair c) ns) (egMembers g))"
  have vs: "\<forall>(a, nid) \<in> set ?vs. nid < length (gnodes g)" by (auto simp: egMembers_def Let_def)
  have "best_canon best \<Longrightarrow> extract_passes k g r best = Some t \<Longrightarrow> trm_canon t" for k best
  proof (induction k arbitrary: best)
    case (Suc k)
    obtain best' ch where p: "extract_pass g best False ?vs = (best', ch)" by fastforce
    then have b: "best_canon best'" using extract_pass_canon [OF g vs Suc.prems(1), of False] by simp
    show ?case using Suc.IH [OF b] Suc.prems(2) p b by (auto simp: best_canon_def split: if_splits)
  qed simp
  from this [of "\<lambda>_. None" "length (egMembers g) + 2"] r show ?thesis by (simp add: egExtract_def best_canon_def)
qed


lemma eCanonicalArithBudget_canon:
  assumes E: "sound_env E" and t: "typed E [] t u" "admitted t"
  shows "trm_canon (eCanonicalArithBudget E t b force)"
proof (rule eCanonicalArithBudget_cases)
  fix g r s
  assume i: "egInsert (newEgraph b) (ann E [] t) = (g, Some r)"
    and x: "egExtract (saturate (tags_of (ann E [] t)) (egRebuild g)) r = Some s"
  obtain D where "ginv E D (saturate (tags_of (ann E [] t)) (egRebuild g))"
    by (rule saturated [OF E t i])
  then have "\<forall>n \<in> set (gnodes (saturate (tags_of (ann E [] t)) (egRebuild g))). node_ok n"
    using ginvD(4) by (fastforce simp: in_set_conv_nth node_in_def)
  from egExtract_canon [OF this x] show "trm_canon s" .
qed (use t in \<open>simp add: admitted_def\<close>)

subsection \<open>Equal bytes\<close>

text \<open>The term whose bytes follow those of the type.\<close>

definition ebody :: "env \<Rightarrow> trm \<Rightarrow> trm" where
  "ebody E b = eCanonicalArith E (eNormalize E [] b)"

lemma ebody_sound:
  assumes st: "store_checked st" and h: "map_of (sdefs st) h = Some (DFunc n t b ps)" and a: "admitted b"
  defines "E \<equiv> \<lparr>est = st, etv = n, eself = Some t\<rparr>"
  shows "equ E [] b (ebody E b) t" "trm_canon (ebody E b)"
proof -
  have E: "sound_env E" using sound_def_env [OF st h] by (simp add: E_def)
  have "norm_ok E [] '''' b t"
    using def_body_typed(1) [OF st h] a E by (intro norm_sound) (simp_all add: E_def)
  from norm_ok_equ [OF this] have n: "equ E [] b (eNormalize E [] b) t" "admitted (eNormalize E [] b)" by simp_all
  note e = equD(2) [OF n(1)]
  show "equ E [] b (ebody E b) t"
    using equ_trans [OF _ n(1) eCanonicalArithBudget_equ [OF E e n(2)]] st
    by (simp add: ebody_def eCanonicalArith_def E_def)
  show "trm_canon (ebody E b)"
    using eCanonicalArithBudget_canon [OF E e n(2)] by (simp add: ebody_def eCanonicalArith_def)
qed

lemma eBytes_eq:
  assumes "store_checked st" "map_of (sdefs st) h = Some (DFunc n t b ps)" "admitted b" "ty_canon t"
  shows "eBytes st n t b = Some (ty_bytes t @ trm_bytes (ebody \<lparr>est = st, etv = n, eself = Some t\<rparr> b))"
  using ebody_sound(2) [OF assms(1-3)] assms(4)
  by (simp add: eBytes_def Let_def e_ty_eq e_term_eq ty_canon_encodable trm_canon_encodable ebody_def [symmetric]
      e_raw_def room_def enc0_def)

text \<open>
  The bytes leave out how many type variables a definition has. With two counts and one
  canonical body there is no \<^verbatim>\<open>self\<close> in the body, whose arguments would be as many, and both
  instances of the type give it the same meaning.
\<close>

fun self_arities :: "trm \<Rightarrow> nat set" where
  "self_arities (Self ts) = {length ts}"
| "self_arities (Lam t b) = self_arities b"
| "self_arities (App f a) = self_arities f \<union> self_arities a"
| "self_arities (Let t a b) = self_arities a \<union> self_arities b"
| "self_arities (If a b d) = self_arities a \<union> self_arities b \<union> self_arities d"
| "self_arities (Prim op as) = (\<Union>a \<in> set as. self_arities a)"
| "self_arities (Ctor h i ts as) = (\<Union>a \<in> set as. self_arities a)"
| "self_arities (Match h a arms) = self_arities a \<union> (\<Union>b \<in> set arms. self_arities b)"
| "self_arities (Record ns as) = (\<Union>a \<in> set as. self_arities a)"
| "self_arities (Field a f) = self_arities a"
| "self_arities _ = {}"

lemma typed_self_arities: "typed E c t u \<Longrightarrow> self_arities t \<subseteq> {etv E}"
  by (induction rule: typed.induct) (fastforce simp: list_all2_conv_all_nth in_set_conv_nth)+

lemma typed_selfless: "typed E c t u \<Longrightarrow> self_arities t = {} \<Longrightarrow> typed (E\<lparr>eself := None\<rparr>) c t u"
proof (induction rule: typed.induct)
  case (typed_Match c a g ts h d arms t)
  then show ?case
    by (intro typed.typed_Match [where d = d and g = g and ts = ts]) (auto simp: list_all2_conv_all_nth)
qed (auto intro!: typed.intros simp: list_all2_conv_all_nth)

lemma instT_agree:
  "ty_wf st n False t \<Longrightarrow> ty_wf st n' False t \<Longrightarrow> length s = n \<Longrightarrow> length s' = n' \<Longrightarrow>
   \<forall>i < min n n'. s ! i = s' ! i \<Longrightarrow> instT s t = instT s' t"
  by (induction t) (auto simp: list_all_iff)

lemma funs_params: "funs ps r = funs qs q \<Longrightarrow> length ps = length qs \<Longrightarrow> ps = qs"
  by (induction ps qs rule: list_induct2') auto

lemma selfless_rel:
  assumes st: "store_checked st" and t: "typed E [] a t" "est E = st" and s: "self_arities a = {}"
  shows "body_rel st j (etv E) t h a h' a"
  unfolding body_rel_def
proof (intro allI impI)
  fix s k v
  assume i: "length s = etv E" "list_all norec s" and k: "k \<le> j" and v: "bs st k [] h a v"
  let ?E = "E\<lparr>eself := None\<rparr>"
  have w: "env_wf ?E" using st t(2) by (simp add: env_wf_def checked_wf [OF st])
  have "apx st j ?E [] a a t" using w t(2) by (intro apx_refl [OF st]) (simp_all add: typed_selfless [OF t(1) s])
  moreover have "frame st j ?E [] s h h' [] []" using i w t(2) by (simp add: frame_def inst_def sref_def)
  ultimately show "\<exists>k' v'. bs st k' [] h' a v' \<and> V st (j - k) (instT s t) v v'"
    using apxD [OF _ _ v order_refl k] by simp
qed

text \<open>What a definition returns, its canonical body returns in its place.\<close>

definition runs_as :: "store \<Rightarrow> hash \<Rightarrow> trm \<Rightarrow> val list \<Rightarrow> val \<Rightarrow> bool" where
  "runs_as st h b as v \<longleftrightarrow> (\<exists>k g. bs st k [] h b g \<and> aps st g as v)"

lemma ebody_runs:
  assumes st: "store_checked st" and h: "map_of (sdefs st) h = Some (DFunc (length s) (funs ps r) b qs)" and s: "list_all norec s"
    and a: "admitted b" and as: "list_all2 (vty st) as (map (instT s) ps)" "list_all plain as" and v: "first_order v"
  shows "runs_as st h b as v \<longleftrightarrow> runs_as st h (ebody \<lparr>est = st, etv = length s, eself = Some (funs ps r)\<rparr> b) as v"
proof -
  note e = ebody_sound(1) [OF st h a]
  show ?thesis
    unfolding runs_as_def
    using body_rel_calls [OF st equ_body [OF st h e] refl s as _ _ v]
      body_rel_calls [OF st equ_body [OF st h equ_sym [OF e]] refl s as _ _ v] by blast
qed

lemma equal_bytes_bodies:
  assumes st: "store_checked st" and h: "map_of (sdefs st) h = Some (DFunc n t b ps)" "admitted b" "ty_canon t"
    and h': "map_of (sdefs st) h' = Some (DFunc n' t' b' ps')" "admitted b'" "ty_canon t'"
    and e: "eBytes st n t b = eBytes st n' t' b'"
  shows "t' = t \<and> ebody \<lparr>est = st, etv = n', eself = Some t\<rparr> b' = ebody \<lparr>est = st, etv = n, eself = Some t\<rparr> b"
proof -
  let ?E = "\<lambda>n t. \<lparr>est = st, etv = n, eself = Some t\<rparr>"
  have "ty_bytes t @ trm_bytes (ebody (?E n t) b) = ty_bytes t' @ trm_bytes (ebody (?E n' t') b')"
    using e unfolding eBytes_eq [OF st h] eBytes_eq [OF st h'] by simp
  note bytes = ty_bytes_sd [OF h(3) h'(3) this]
  note t = conjunct1 [OF bytes] conjunct2 [OF bytes]
  show ?thesis
    using trm_bytes_inj' [OF ebody_sound(2) [OF st h'(1,2)] ebody_sound(2) [OF st h(1,2)]] t(2) unfolding t(1) by metis
qed

lemma equal_bytes_calls:
  assumes st: "store_checked st" and h: "map_of (sdefs st) h = Some (DFunc (length s) (funs ps r) b qs)"
    and h': "map_of (sdefs st) h' = Some (DFunc n t b' qs')" and s: "list_all norec s"
    and a: "ty_canon (funs ps r)" "trm_canon b" "trm_nodes b \<le> maxCanonicalNodes"
    and a': "ty_canon t" "trm_canon b'" "trm_nodes b' \<le> maxCanonicalNodes"
    and as: "list_all2 (vty st) as (map (instT s) ps)" "list_all plain as" and v: "first_order v"
    and e: "eBytes st (length s) (funs ps r) b = eBytes st n t b'"
  shows "t = funs ps r \<and>
    ((\<exists>d f f'. call st (eval d st) h as f = (Inr v, f')) \<longleftrightarrow> (\<exists>d f f'. call st (eval d st) h' as f = (Inr v, f')))"
proof -
  let ?E = "\<lambda>n. \<lparr>est = st, etv = n, eself = Some (funs ps r)\<rparr>" and ?s = "take n (s @ replicate n TInt)"
  have ad: "admitted b" "admitted b'" using a a' by (simp_all add: admitted_def)
  have l: "length ?s = n" by (simp add: min_def)
  note bodies = equal_bytes_bodies [OF st h ad(1) a(1) h' ad(2) a'(1) e]
  have h'': "map_of (sdefs st) h' = Some (DFunc (length ?s) (funs ps r) b' qs')"
    and x: "ebody (?E (length ?s)) b' = ebody (?E (length s)) b" using h' bodies unfolding l by simp_all
  have s': "list_all norec ?s" using s by (auto simp: list_all_iff dest: in_set_takeD)
  have w: "ty_wf st (length s) False (funs ps r)" "ty_wf st n False (funs ps r)"
    using def_body_typed(2) [OF st h] def_body_typed(2) [OF st h'', unfolded l] by (simp_all add: env_wf_def)
  have "instT s (funs ps r) = instT ?s (funs ps r)"
    by (rule instT_agree [OF w]) (simp_all add: nth_append)
  then have "map (instT ?s) ps = map (instT s) ps" using funs_params unfolding instT_funs by (metis length_map)
  then have as': "list_all2 (vty st) as (map (instT ?s) ps)" using as(1) by (simp only:)
  have "runs_as st h b as v \<longleftrightarrow> runs_as st h' b' as v"
  proof (cases "n = length s")
    case True
    then have h1: "map_of (sdefs st) h' = Some (DFunc (length s) (funs ps r) b' qs')" using h'' by simp
    have x': "ebody (?E (length s)) b' = ebody (?E (length s)) b" using x True by simp
    have "equ (?E (length s)) [] b b' (funs ps r)"
      using ebody_sound(1) [OF st h ad(1)] equ_sym [OF ebody_sound(1) [OF st h1 ad(2)]] st
      by (intro equ_trans [of "?E (length s)" "[]" b "ebody (?E (length s)) b" "funs ps r" b']) (simp_all add: x')
    note rel = equ_bodies [OF st h h1 this] equ_bodies [OF st h1 h equ_sym [OF this]]
    show ?thesis
      unfolding runs_as_def
      using body_rel_calls [OF st rel(1) refl s as _ _ v] body_rel_calls [OF st rel(2) refl s as _ _ v] by blast
  next
    case False
    let ?x = "ebody (?E (length s)) b"
    have t: "typed (?E (length s)) [] ?x (funs ps r)" "typed (?E (length ?s)) [] ?x (funs ps r)"
      using equD(2) [OF ebody_sound(1) [OF st h ad(1)]] equD(2) [OF ebody_sound(1) [OF st h'' ad(2)]] x by simp_all
    then have "self_arities ?x = {}" using typed_self_arities [OF t(1)] typed_self_arities [OF t(2)] False by auto
    then have rel: "body_rel st j (length s) (funs ps r) h1 ?x h2 ?x" for j h1 h2
      using selfless_rel [OF st t(1)] by simp
    have "runs_as st h ?x as v \<longleftrightarrow> runs_as st h' ?x as v"
      unfolding runs_as_def using body_rel_calls [OF st rel refl s as _ _ v] by blast
    then show ?thesis
      using ebody_runs [OF st h s ad(1) as v] ebody_runs [OF st h'' s' ad(2) as' as(2) v] x by simp
  qed
  then show ?thesis
    using bodies call_runs [OF h as(2)] call_runs [OF h'' as(2)] by (simp add: runs_as_def)
qed

end
