(* ===== verification/Spec2Isabelle.thy ===== *)
theory Spec2Isabelle
  imports DecodeTerm EvalProps Totality NegativeData Positivity TestingProps Confinement ObjectsProps EgHash
begin

text \<open>
  Oath is a content-addressed functional language: a definition is a kernel term, its name is
  the SHA-256 digest of its canonical encoding, and it enters the store only after a bounded
  decoder and a type checker have accepted it. This library models that trusted core, the Go
  sources under \<^verbatim>\<open>src/oath\<close>.

  \<^bold>\<open>Theories and the code they model.\<close>
  \<^item> \<^verbatim>\<open>Prelude\<close>: results as sums (\<open>rbind\<close>), byte strings, lists and words.
  \<^item> \<^verbatim>\<open>Syntax\<close> (\<^verbatim>\<open>ast.go\<close>): \<^verbatim>\<open>Ty\<close>, \<^verbatim>\<open>Term\<close>, \<^verbatim>\<open>Prop\<close>, \<^verbatim>\<open>Def\<close> as datatypes with the constructors
    of the Go tags, and \<^verbatim>\<open>collectDeps\<close>.
  \<^item> \<^verbatim>\<open>Encode\<close>, \<^verbatim>\<open>EncodeTerm\<close> (\<^verbatim>\<open>canon.go\<close>): the encoder \<^verbatim>\<open>enc\<close> with its output window, the
    work-stack walks over types and terms, \<^verbatim>\<open>encodeDef\<close>, \<^verbatim>\<open>compareTermsCanonical\<close>,
    \<^verbatim>\<open>generalizeTypes\<close>.
  \<^item> \<^verbatim>\<open>Profile\<close> (\<^verbatim>\<open>profile.go\<close>): \<^verbatim>\<open>countCanonicalNodes\<close> and \<^verbatim>\<open>admitDef\<close>.
  \<^item> \<^verbatim>\<open>Codec\<close>, \<^verbatim>\<open>Decode\<close>, \<^verbatim>\<open>DecodeTerm\<close> (\<^verbatim>\<open>canon.go\<close>): the strict decoder \<^verbatim>\<open>dec\<close> with its node
    budget, up to \<^verbatim>\<open>decodeDef\<close>. \<^verbatim>\<open>Codec\<close> holds the locale of a codec, in which
    completeness, strictness and prefix-freeness are shared by types and terms.
  \<^item> \<^verbatim>\<open>TypeOps\<close> (\<^verbatim>\<open>check.go\<close>): substitution, matching, well-formedness, positivity with the
    arrow-free search, and the typing of primitives.
  \<^item> \<^verbatim>\<open>Checker\<close>, \<^verbatim>\<open>CheckerProps\<close> (\<^verbatim>\<open>check.go\<close>): the bidirectional judgements \<^verbatim>\<open>synth\<close> and \<^verbatim>\<open>check\<close>,
    with the type arguments they write back into the term and the inference counter.
  \<^item> \<^verbatim>\<open>Machine\<close>, \<^verbatim>\<open>MachineProps\<close> (\<^verbatim>\<open>check_machine.go\<close>): the explicit machine that production runs.
  \<^item> \<^verbatim>\<open>CheckDef\<close> (\<^verbatim>\<open>check.go\<close>): \<^verbatim>\<open>checkDef\<close>.
  \<^item> \<^verbatim>\<open>Typing\<close>: the specification side of the checker, a declarative typing relation.
  \<^item> \<^verbatim>\<open>Float64\<close>, \<^verbatim>\<open>Sha256\<close>: what the evaluator uses of the standard library, binary64 on bit
    patterns and the digest.
  \<^item> \<^verbatim>\<open>Eval\<close>, \<^verbatim>\<open>EvalProps\<close>, \<^verbatim>\<open>Soundness\<close> (\<^verbatim>\<open>eval.go\<close>, \<^verbatim>\<open>eval_depth_native.go\<close>,
    \<^verbatim>\<open>eval_depth_wasm.go\<close>): values, the evaluator, its budgets, and type soundness.
  \<^item> \<^verbatim>\<open>Termination\<close>, \<^verbatim>\<open>Descent\<close> (\<^verbatim>\<open>termination.go\<close>): the walk that records the call sites of a
    definition, the search for a lexicographic order, \<^verbatim>\<open>terminationOf\<close> with the stored verdicts
    and the solver's ranking as parameters; what the walk and the search compute.
  \<^item> \<^verbatim>\<open>Reducible\<close>, \<^verbatim>\<open>Totality\<close>, \<^verbatim>\<open>NegativeData\<close>: the specification side of the termination
    verdicts. Values that return at every type, by a logical relation over covariant data
    types; the verdicts imply it; and a definition where the positivity check is too weak.
  \<^item> \<^verbatim>\<open>Positivity\<close>: the rule of \<^verbatim>\<open>docs/SPEC.md\<close> on recursive data types, stated apart from the
    code's polarities, and where the two agree.
  \<^item> \<^verbatim>\<open>Meta\<close> (\<^verbatim>\<open>ast.go\<close>): guarantees and the metadata of a definition.
  \<^item> \<^verbatim>\<open>Generator\<close>, \<^verbatim>\<open>GenProps\<close> (\<^verbatim>\<open>gen.go\<close>): the splitmix64 stream and \<^verbatim>\<open>genValue\<close>; generated values
    are typed and generation ends.
  \<^item> \<^verbatim>\<open>Testing\<close>, \<^verbatim>\<open>TestingProps\<close> (\<^verbatim>\<open>verify.go\<close>): the cases of a property, its run, the guarantee
    that \<^verbatim>\<open>verifyDef\<close> records.
  \<^item> \<^verbatim>\<open>Confinement\<close> (\<^verbatim>\<open>confinement.go\<close>): the escape analysis of higher-order parameters.
  \<^item> \<^verbatim>\<open>StoreExt\<close>: typing and checking are stable when a store grows, and a checked definition
    refers to definitions of the store only.
  \<^item> \<^verbatim>\<open>CheckAgree\<close>: the checker depends on a store only through the definitions that a
    definition's hashes lead to.
  \<^item> \<^verbatim>\<open>Objects\<close> (\<^verbatim>\<open>store.go\<close>): objects, metadata, names and caches with the operations on them.
    \<open>loaded\<close> is what the objects present load to, each checked against the live store, and
    \<open>view\<close> what a store shows to the checker.
  \<^item> \<^verbatim>\<open>Loading\<close>, \<^verbatim>\<open>ObjectsProps\<close>: what loads was checked and forms an ordered store, by induction
    on the references between objects; the operations, and the histories of a store.
  \<^item> \<^verbatim>\<open>Normalize\<close> (\<^verbatim>\<open>canon.go\<close>): \<^verbatim>\<open>eNormalize\<close>, the normal form of \<^verbatim>\<open>find --equiv\<close>.
  \<^item> \<^verbatim>\<open>Egraph\<close> (\<^verbatim>\<open>egraph.go\<close>, \<^verbatim>\<open>canon.go\<close>): equality saturation for sums and products, and the
    bytes that \<^verbatim>\<open>eHash\<close> digests.
  \<^item> \<^verbatim>\<open>BigStep\<close>, \<^verbatim>\<open>LogRel\<close>: the evaluator without budgets, and when two terms mean the same: a
    relation on values indexed by a number of calls, closed under all constructors of terms.
  \<^item> \<^verbatim>\<open>FloatProps\<close>, \<^verbatim>\<open>NormChain\<close>, \<^verbatim>\<open>NormSound\<close>: the rules of normalisation are sound: the laws of
    binary64, chains of associative and commutative primitives as a locale with its six
    instances, and the traversal.
  \<^item> \<^verbatim>\<open>ChainAlg\<close>, \<^verbatim>\<open>EgMeaning\<close>, \<^verbatim>\<open>EgNodes\<close>, \<^verbatim>\<open>EgGraph\<close>, \<^verbatim>\<open>EgRules\<close>, \<^verbatim>\<open>EgSound\<close>: equality saturation is
    sound. A class stands for a set of terms that mean the same in each context and type
    (\<open>meaning\<close>); insertion, union, congruence closure and the three rules keep the invariant
    \<open>ginv\<close> that every node of a class stands for terms of it, and extraction reads one off.
  \<^item> \<^verbatim>\<open>PrefixFree\<close>, \<^verbatim>\<open>EgHash\<close>: the encoding of a term determines it, also with bytes behind it, so
    equal bytes of \<^verbatim>\<open>eHash\<close> come from equal extracted terms.
  \<^bold>\<open>What the properties show.\<close> The codec group: encoding and strict decoding are inverse to
  each other, the iterative encoders write what the recursive specification says, the node
  budgets of decoder and profile agree, decoding ends. The checker group: the machine refines
  the recursive checker step for step of its results, the checker is total, sound and
  complete for the typing relation, and only fills in omitted type arguments. The evaluator
  group: what was checked does not go wrong, verdicts do not depend on budgets, equality and
  float conversion are exact.
  The termination group: verdicts computed in an ordered store with covariant data types are
  worth what they say, the search is exact, and a hole in the positivity check lets a
  diverging definition through. The testing group: inputs have the types of the binders,
  generation ends, a run reports the outcome \<^verbatim>\<open>SPEC\<close> 4.1 asks for, more fuel only settles what
  was indeterminate, and only a refutation takes a proof away. The confinement group: what the
  analysis guarantees of closures, and two ways round it. The store group: as
  long as no object leads to its own hash (\<open>no_cycles\<close>), \<^verbatim>\<open>List\<close>, when bound, is bound to the list
  type (\<open>list_bound\<close>) and the cache holds what loads (\<open>coherent\<close>, true of the empty one), the
  check on load gives the evaluator and the termination checker the stores they assume; and
  nothing that was published is lost. The normalisation group: a normal form has the type and
  the meaning of its term, and definitions with the same bytes under \<^verbatim>\<open>eHash\<close> return the same data.
  Both hold at arguments without functions of the input generator and with canonical floats
  (\<open>plain\<close>); at generated functions eta reduction can be observed (\<open>eta_observable\<close>).
  \<^bold>\<open>Bounds and fuel.\<close> The decoder, which recurses on its input, gets \<open>Suc (length b)\<close> fuel; every
  nested item consumes a byte, and the fuel error is proved unreachable. The recursive checker
  gets twice the height of the term, proved sufficient and monotone. The machine is
  iterated by \<open>while_option\<close>, and is proved to stop on every input. The
  evaluator's depth and fuel are those of the code.
  The generator's recursion through data types, unbounded in the code, gets the size plus two
  to the number of definitions as fuel: below the size it goes down with the size, and from
  then on the set of data types a type mentions gets lighter. Orders of a store (\<open>ordered\<close>:
  definitions only refer to earlier ones) and covariance (\<open>store_covariant\<close>) are hypotheses; the
  first is what content addressing gives, the second is what the positivity check aims at.
  \<^bold>\<open>Differences of representation.\<close> Nil children of terms are not represented. Contexts and
  environments list variable 0 first. Error texts are constructors of error types. A match with
  no arms, whose type is nil in Go, is an error of its own. A store is a finite association list of
  definitions with the hash of the list type. \<^verbatim>\<open>checkDef\<close> returns the definition with its
  filled bodies, which Go writes in place, when it succeeds. A machine frame is one
  constructor for each of its phases; the frame counter, a diagnostic, is left out. Floats
  are 64-bit patterns, all NaN results the canonical one, as the code makes them. A Go panic is
  the error \<open>EPanic\<close>; a reference to a data definition, which has no body, panics at once
  instead of after the two budget checks. The e-graph's table of nodes is a function, its
  \<^verbatim>\<open>find\<close> does not shorten paths, its annotation is a tree beside the term instead of a map from
  pointers, \<^verbatim>\<open>cloneTerm\<close> is the identity, and the count of rounds that tests read is left out.

  \<^bold>\<open>Not modelled.\<close> The prover and its worker (text sent to an external solver), the compilers to
  Go and LLVM (text for another semantics), the network, HTTP, MCP and command-line front ends,
  signing and database back ends are outside of what a shallow embedding can state about
  this code. Back-end writes of the object store do not
  fail in the model, and metadata are not serialised; an object that fails its check leaves
  nothing in the cache, where the code keeps the dependencies it had loaded by then. \<^verbatim>\<open>Resolve\<close> is modelled as it runs outside of
  \<^verbatim>\<open>oath resolve\<close>, where neither a fetcher nor a resolution log is armed. The
  comparisons of a normal form that could only fail or not end on terms outside of the
  profile answer with an empty key or with equality; its Go stack is the recursion it unrolls.
  The journal, mutation testing, the surface reader and printer, and registry policy are pure
  code that later work can reach.
\<close>

section \<open>Sample definitions\<close>

text \<open>
  A list type, the identity on integers with one property, and a store that holds the list
  type, at which the properties below are instantiated.
\<close>

definition listHash :: hash where
  "listHash = replicate 64 CHR ''a''"

definition listDef :: "def" where
  "listDef = DData 1 [[], [TVar 0, TRec [TVar 0]]]"

definition idDef :: "def" where
  "idDef = DFunc 0 (TFun TInt TInt) (Lam TInt (Var 0)) [\<lparr>binders = [TInt], pbody = BoolL True\<rparr>]"

definition listStore :: store where
  "listStore = \<lparr>sdefs = [(listHash, listDef)], slist = Some listHash\<rparr>"

definition listEnv :: env where
  "listEnv = \<lparr>est = listStore, etv = 0, eself = Some TInt\<rparr>"

text \<open>
  A store with the identity alone, and one with a data type that holds a function and a
  definition that compares two values of it.
\<close>

definition idStore :: store where
  "idStore = \<lparr>sdefs = [(listHash, idDef)], slist = None\<rparr>"

definition boxHash :: hash where
  "boxHash = replicate 64 CHR ''b''"

definition boxDef :: "def" where
  "boxDef = DData 0 [[TFun TInt TInt]]"

definition boxes :: trm where
  "boxes = Prim ''=='' [Ctor boxHash 0 [] [Lam TInt (Var 0)], Ctor boxHash 0 [] [Lam TInt (Var 0)]]"

definition eqDef :: "def" where
  "eqDef = DFunc 0 TBool boxes []"

definition boxStore :: store where
  "boxStore = \<lparr>sdefs = [(boxHash, boxDef), (listHash, eqDef)], slist = None\<rparr>"

text \<open>Lists of integers and the recursive function that counts their elements.\<close>

definition intsDef :: "def" where
  "intsDef = DData 0 [[], [TInt, TRec []]]"

definition lenHash :: hash where
  "lenHash = replicate 64 CHR ''c''"

definition lenDef :: "def" where
  "lenDef = DFunc 0 (TFun (TData listHash []) TInt)
     (Lam (TData listHash [])
       (Match listHash (Var 0) [IntL 0, Prim ''+'' [IntL 1, App (Self []) (Var 0)]])) []"

definition lenStore :: store where
  "lenStore = \<lparr>sdefs = [(lenHash, lenDef), (listHash, intsDef)], slist = None\<rparr>"

text \<open>\<^verbatim>\<open>(Cons 1 (Nil))\<close> with its type arguments left out.\<close>

definition oneList :: trm where
  "oneList = Ctor listHash 1 [] [IntL 1, Ctor listHash 0 [] []]"

section \<open>Identity: the canonical encoding and its strict decoder\<close>

text \<open>
  C1: encoding a definition the format admits, whose size is within the profile,
  and decoding the bytes gives back that definition and nothing else.
\<close>

theorem decode_encode:
  assumes "def_canon d" "def_nodes d \<le> maxCanonicalNodes" "def_tyvars d \<le> maxCanonicalNodes"
  shows "\<exists>b. encodeDef d = Some b \<and> decodeDef b = Inr d"
proof -
  have "encodeDef d = Some (def_bytes d)"
    by (rule encodeDef_eq [OF def_canon_encodable [OF assms(1)]])
  moreover have "decodeDef (def_bytes d) = Inr d"
    using assms by (simp add: decodeDef_iff)
  ultimately show ?thesis by blast
qed

theorem decode_encode_witness: "\<exists>b. encodeDef idDef = Some b \<and> decodeDef b = Inr idDef"
  by (rule decode_encode)
    (simp_all add: idDef_def property_canon_def tys_canon_def prop_nodes_def maxCanonicalNodes_def)

text \<open>
  C2: the decoder is strict. Whatever bytes it accepts are exactly the encoding of
  the definition it returns, so no definition has two accepted encodings, and that
  definition is within the bounds of the profile.
\<close>

theorem decode_strict:
  assumes "decodeDef b = Inr d"
  shows "encodeDef d = Some b \<and> def_nodes d \<le> maxCanonicalNodes \<and>
    def_tyvars d \<le> maxCanonicalNodes"
  using assms encodeDef_eq [OF def_canon_encodable] by (simp add: decodeDef_iff)

theorem decode_strict_witness: "encodeDef idDef = Some (def_bytes idDef)"
proof -
  have "decodeDef (def_bytes idDef) = Inr idDef"
    by (simp add: decodeDef_iff idDef_def property_canon_def tys_canon_def prop_nodes_def
        maxCanonicalNodes_def)
  from decode_strict [OF this] show ?thesis by blast
qed

section \<open>The checker\<close>

text \<open>
  C3: the explicit machine that production code runs refines the recursive
  checker. In both modes and on every term it stops, with the diagnostic, the acceptance or
  the synthesized type of the recursive judgement, the same term with the same type arguments
  filled in, an empty stack, and the same number of entries into constructor inference.
\<close>

theorem machine_refines:
  "run E (Check w) c t =
     (case check (2 * height t) E c t w of (t', m, r) \<Rightarrow> Some (Ret t' (ok_unit r), [], m)) \<and>
   run E Synth c t =
     (case synth (2 * height t) E c t of (t', m, r) \<Rightarrow> Some (Ret t' (ok_ty r), [], m))"
  using run_check [of E c t w] run_synth [of E c t] by (simp add: checkT_def synthT_def split: prod.split)

text \<open>
  C4: the recursive checker returns on every term: fuel of twice the height is never
  exhausted, and more fuel changes neither the result nor the term it leaves.
\<close>

theorem checker_total:
  assumes "2 * height t \<le> k"
  shows "check k E c t w = check (2 * height t) E c t w \<and> synth k E c t = synth (2 * height t) E c t \<and>
    snd (snd (check k E c t w)) \<noteq> Inl CFuel \<and> snd (snd (synth k E c t)) \<noteq> Inl CFuel"
proof -
  have "check k E c t w = checkT E c t w" "synth k E c t = synthT E c t"
    by (rule check_fuel [OF assms], rule synth_fuel [OF assms])
  moreover have "snd (snd (checkT E c t w)) \<noteq> Inl CFuel" "snd (snd (synthT E c t)) \<noteq> Inl CFuel"
    using checkT_fuel [of E c t w] synthT_fuel [of E c t] by (metis prod.collapse)+
  ultimately show ?thesis by (simp add: checkT_def synthT_def)
qed

theorem checker_total_witness: "synth 4 listEnv [] oneList = synth (2 * height oneList) listEnv [] oneList"
  using checker_total [of oneList 4 listEnv "[]" TInt] by (simp add: oneList_def)

text \<open>
  C5: a judgement, whether it succeeds or fails, changes a term only where type
  arguments had been left out: explicit ones, and everything else, stay as written.
\<close>

theorem checker_only_fills:
  "fills t (fst (check k E c t w)) \<and> fills t (fst (synth k E c t))"
  using judgement_fills [of k E] by (simp add: fills_sy_def fills_ch_def)

text \<open>
  C6: what \<^verbatim>\<open>checkDef\<close> accepts of functions, and what it makes of them. The type
  is well-formed, the body checks against that type in the empty context, every property has
  concrete, well-formed binders and a body that checks as \<^verbatim>\<open>Bool\<close> under them; the result is the
  definition with the bodies as the judgements leave them.
\<close>

theorem checkDef_exact:
  "checkDef st (DFunc n t b ps) = Inr d \<longleftrightarrow>
     (let E = \<lparr>est = st, etv = n, eself = Some t\<rparr> in
      ty_wf st n False t \<and>
      (\<exists>b' m ps'. check (2 * height b) E [] b t = (b', m, Inr ()) \<and>
         list_all2 (prop_checked E) ps ps' \<and> d = DFunc n t b' ps'))"
  using checkDef_func [of st n t b ps d] by (simp add: checkT_def del: checkDef.simps)

section \<open>The checker against its typing relation\<close>

text \<open>
  C7: inference is sound. The term that a successful check leaves, with the type
  arguments it filled in, has the expected type in the declarative typing relation, which
  knows nothing of inference.
\<close>

theorem check_sound:
  assumes "env_wf E" "ctx_wf E c" "wfT E w" "check k E c t w = (t', n, Inr ())"
  shows "typed E c t' w"
  using judgement_sound [OF assms(1), of k] sound_chD [of E "check k E" c w t t' n] assms(2-4) by blast

theorem check_sound_witness:
  "typed listEnv [] (Ctor listHash 1 [TInt] [IntL 1, Ctor listHash 0 [TInt] []]) (TData listHash [TInt])"
proof (rule check_sound)
  show "env_wf listEnv"
    by (auto simp: env_wf_def store_wf_def listEnv_def listStore_def listDef_def)
  show "ctx_wf listEnv []" "wfT listEnv (TData listHash [TInt])"
    by (simp_all add: listEnv_def listStore_def listDef_def)
  show "check 4 listEnv [] oneList (TData listHash [TInt]) =
      (Ctor listHash 1 [TInt] [IntL 1, Ctor listHash 0 [TInt] []], 3, Inr ())"
    by code_simp
qed

text \<open>
  C8: the checker is complete on terms with explicit type arguments: whatever the
  typing relation allows is accepted, in both modes, unchanged, and without inference. With
  the property before, the relation and the checker agree on such terms.
\<close>

theorem check_complete:
  assumes "typed E c t u"
  shows "synth (2 * height t) E c t = (t, 0, Inr u) \<and> check (2 * height t) E c t u = (t, 0, Inr ())"
  using typed_complete [OF assms] by (simp add: synths_def checks_def synthT_def checkT_def)

theorem check_complete_witness:
  "synth (2 * height (Lam TInt (Var 0))) listEnv [] (Lam TInt (Var 0)) =
     (Lam TInt (Var 0), 0, Inr (TFun TInt TInt))"
proof -
  have "typed listEnv (pushCtx [] TInt) (Var 0) (pushCtx [] TInt ! 0)"
    by (rule typed_Var) (simp add: pushCtx_def)
  then have "typed listEnv [] (Lam TInt (Var 0)) (TFun TInt TInt)"
    by (intro typed_Lam) (simp_all add: pushCtx_def)
  from check_complete [OF this] show ?thesis by blast
qed

text \<open>
  C9: what \<^verbatim>\<open>checkDef\<close> makes of a definition, type arguments filled in, is
  accepted again as it is by the same store, where \<^verbatim>\<open>List\<close>, when bound, is bound to the list type.
  So a definition that was checked before it was hashed passes the check that \<^verbatim>\<open>GetDef\<close> repeats
  when it loads it, as long as \<^verbatim>\<open>List\<close> is not bound anew.
\<close>

theorem checkDef_stable:
  assumes "store_wf st" "checkDef st d = Inr d'"
  shows "checkDef st d' = Inr d'"
  using checkDef_typed [OF assms] by blast

theorem checkDef_stable_witness:
  "checkDef listStore (DFunc 0 (TData listHash [TInt]) (Ctor listHash 1 [TInt] [IntL 1, Ctor listHash 0 [TInt] []]) []) =
     Inr (DFunc 0 (TData listHash [TInt]) (Ctor listHash 1 [TInt] [IntL 1, Ctor listHash 0 [TInt] []]) [])"
proof (rule checkDef_stable)
  show "store_wf listStore"
    by (auto simp: store_wf_def listStore_def listDef_def)
  show "checkDef listStore (DFunc 0 (TData listHash [TInt]) oneList []) =
      Inr (DFunc 0 (TData listHash [TInt]) (Ctor listHash 1 [TInt] [IntL 1, Ctor listHash 0 [TInt] []]) [])"
    by code_simp
qed

section \<open>Evaluation\<close>

text \<open>
  C10: type soundness. In a store of checked definitions, evaluating
  a definition at any instance of its type variables, with any budgets, yields a value of
  its type or a benign error: never an unbound variable, a missing field or arm, the
  application of something that is no function, or what would be a nil dereference.
\<close>

theorem checked_does_not_go_wrong:
  assumes "store_checked st" "map_of (sdefs st) h = Some (DFunc n t b ps)" "length s = n"
    "list_all norec s"
  shows "case fst (eval d st [] h b f) of Inl e \<Rightarrow> benign e | Inr v \<Rightarrow> vty st v (substTy t s)"
  using eval_def_sound [OF assms(1) eval_sound [OF assms(1)], of h s t b ps d] assms(2-4)
  by (simp add: ok_with_def eval_def_def GetDef_def)

theorem checked_does_not_go_wrong_witness:
  "case fst (eval 5 idStore [] listHash (Lam TInt (Var 0)) 100) of
     Inl e \<Rightarrow> benign e | Inr v \<Rightarrow> vty idStore v (substTy (TFun TInt TInt) [])"
proof (rule checked_does_not_go_wrong)
  have "checkDef idStore idDef = Inr idDef" by code_simp
  then show "store_checked idStore"
    by (simp add: store_checked_def idStore_def listHash_def del: checkDef.simps)
  show "map_of (sdefs idStore) listHash =
      Some (DFunc 0 (TFun TInt TInt) (Lam TInt (Var 0)) [\<lparr>binders = [TInt], pbody = BoolL True\<rparr>])"
    by (simp add: idStore_def idDef_def)
qed simp_all

text \<open>
  C11: a verdict other than a spent budget does not depend on the
  budgets: with more depth and more fuel the result is the same and the surplus fuel is
  left over. So the native and the \<^verbatim>\<open>js\<close> depth limits never disagree on a value.
\<close>

theorem verdicts_budget_independent:
  assumes "eval d st env slf t f = (r, f')" "r \<noteq> Inl ETooDeep" "r \<noteq> Inl EFuel" "d \<le> d'" "0 \<le> k"
  shows "eval d' st env slf t (f + k) = (r, f' + k)"
  using refines_evD [of "eval d st env slf t" "eval d' st env slf t" f r f' k]
    eval_refines [OF assms(4), of st] assms(1,2,3,5)
  by (simp add: refines_evs_def budget_error_def)

theorem verdicts_budget_independent_witness:
  "eval maxEvalDepth idStore [] listHash (Prim ''+'' [IntL 1, IntL 2]) (10 + 7) = (Inr (VInt 3), 7 + 7)"
proof (rule verdicts_budget_independent)
  show "eval 2 idStore [] listHash (Prim ''+'' [IntL 1, IntL 2]) 10 = (Inr (VInt 3), 7)"
    by code_simp
qed (simp_all add: maxEvalDepth_def evalStackBudget_def evalFrameBytes_def)

text \<open>
  C12: a run never gains fuel, never goes below \<open>-1\<close>, and ends below zero
  exactly when its verdict is that the fuel ran out.
\<close>

theorem fuel_accounting:
  assumes "0 \<le> f" "eval d st env slf t f = (r, f')"
  shows "f' \<le> f \<and> - 1 \<le> f' \<and> (f' < 0 \<longleftrightarrow> r = Inl EFuel)"
  using eval_spends [of d st env slf t] assms by (simp add: spends_def)

theorem fuel_accounting_witness: "(-1 :: int) \<le> 0 \<and> - 1 \<le> (-1 :: int) \<and> ((-1 :: int) < 0 \<longleftrightarrow> (Inl EFuel :: eerr + val) = Inl EFuel)"
  by (rule fuel_accounting [of 0 2 idStore "[]" listHash "IntL 1"]) (simp_all add: numeral_2_eq_2 ebind_def tick_def)

text \<open>
  C13: on values of one type that are data all the way down, \<^verbatim>\<open>==\<close> is equality:
  it never fails and never confuses two values.
\<close>

theorem equality_exact:
  assumes "first_order a" "first_order b" "vty st a t" "vty st b t"
  shows "structEq a b = Inr (a = b)"
  by (rule structEq_eq [OF assms])

theorem equality_exact_witness:
  "structEq (VRecord [''x''] [VInt 1]) (VRecord [''x''] [VInt 2]) =
     Inr (VRecord [''x''] [VInt 1] = VRecord [''x''] [VInt 2])"
  by (rule equality_exact [of _ _ idStore "TRecord [''x''] [TInt]"])
    (auto intro: vty_Record vty_Int)

text \<open>
  C14: the checker does not rule out the comparison of functions. A data
  type that holds a function passes \<^verbatim>\<open>tyHasFun\<close>, so a definition that compares two such
  values is accepted and fails when it is evaluated.
\<close>

theorem equality_on_functions:
  "checkDef boxStore boxDef = Inr boxDef \<and> checkDef boxStore eqDef = Inr eqDef \<and>
   eval 10 boxStore [] listHash boxes 1000 = (Inl EEqFun, 995)"
proof (intro conjI)
  show "checkDef boxStore boxDef = Inr boxDef" by code_simp
  show "checkDef boxStore eqDef = Inr eqDef" by code_simp
  show "eval 10 boxStore [] listHash boxes 1000 = (Inl EEqFun, 995)" by code_simp
qed

text \<open>
  C15: \<^verbatim>\<open>to-rat\<close> is exact. A finite float other than \<open>-0\<close> converted to a
  rational and back by \<^verbatim>\<open>to-float\<close>, which rounds, is the float again.
\<close>

theorem float_rat_roundtrip:
  assumes "f_finite w" "f_abs w \<noteq> 0 \<or> \<not> f_neg w" "canonFloat w = w"
  shows "prim ''to-rat'' [VFloat w] = Inr (VRat (f_rat w)) \<and>
    prim ''to-float'' [VRat (f_rat w)] = Inr (VFloat w)"
  using assms f_of_rat_f_rat [OF assms(1,2)]
  by (simp add: prim_def numPrim_def ratPrim_def floatPrim_def toRat_def toFloat_def arg_def
      float_of_def vFloat_def)

theorem float_rat_roundtrip_witness:
  "prim ''to-rat'' [VFloat 1] = Inr (VRat (f_rat 1)) \<and> prim ''to-float'' [VRat (f_rat 1)] = Inr (VFloat 1)"
  by (rule float_rat_roundtrip)
    (simp_all add: f_finite_def f_abs_def inf_abs_def canonFloat_def is_nan_def)

section \<open>Termination\<close>

text \<open>
  C16: the verdicts \<^verbatim>\<open>structural\<close> and \<^verbatim>\<open>nonrecursive\<close> of the termination
  checker are worth what they say, provided that data types are covariant in themselves. In
  a checked store, listed with dependencies last, whose recorded total verdicts are those the
  checker computes, a call of such a function, at any instance of its type and with typed
  arguments of function-free types, reaches a verdict that is not a spent budget, and every
  larger budget gives that same verdict. Higher-order arguments inside the definition, partial
  applications of the function to itself, and calls of other total functions are covered.
\<close>

theorem total_functions_return:
  assumes "store_checked st" "ordered (sdefs st)" "store_covariant st"
    and "verdicts_computed meta st" "meta h = Some v" "isTotal v"
    and "map_of (sdefs st) h = Some (DFunc (length s) (funs ps r) b qs)" "list_all norec s"
    and "list_all2 (vty st) as (map (instT s) ps)" "list_all (data_ty st) (map (instT s) ps)"
  shows "\<exists>d0 f0 q. \<not> budget_error q \<and> (\<forall>d \<ge> d0. \<forall>f \<ge> f0. fst (call st (eval d st) h as f) = q)"
proof -
  have "store_total_data st" using assms(1-3) by (simp add: store_total_data_def)
  then show ?thesis
    using returns_verdict [OF chain_call call_returns [OF _ assms(4-10)]] by blast
qed

theorem total_functions_return_witness:
  "\<exists>d0 f0 q. \<not> budget_error q \<and>
     (\<forall>d \<ge> d0. \<forall>f \<ge> f0. fst (call lenStore (eval d lenStore) lenHash [VData listHash 1 [VInt 5, VData listHash 0 []]] f) = q)"
proof (rule total_functions_return)
  show "store_checked lenStore"
  proof -
    have "checkDef lenStore lenDef = Inr lenDef" "checkDef lenStore intsDef = Inr intsDef" by code_simp+
    then show ?thesis
      by (simp add: store_checked_def lenStore_def listHash_def lenHash_def del: checkDef.simps)
  qed
  show "ordered (sdefs lenStore)"
    by (simp add: lenStore_def lenDef_def intsDef_def hash_dep_def listHash_def lenHash_def)
  show "store_covariant lenStore"
    by (simp add: store_covariant_def lenStore_def lenDef_def intsDef_def listHash_def lenHash_def)
  have "terminationOf [lenHash \<mapsto> ''structural''] (\<lambda>_ _. False) lenStore lenDef lenHash = Some ''structural''"
    by code_simp
  then show "verdicts_computed [lenHash \<mapsto> ''structural''] lenStore"
    by (simp add: verdicts_computed_def lenStore_def)
  show "[lenHash \<mapsto> ''structural''] lenHash = Some ''structural''" "isTotal ''structural''"
    by (simp, simp add: isTotal_def)
  show "map_of (sdefs lenStore) lenHash = Some (DFunc (length []) (funs [TData listHash []] TInt)
      (Lam (TData listHash []) (Match listHash (Var 0) [IntL 0, Prim ''+'' [IntL 1, App (Self []) (Var 0)]])) [])"
    by (simp add: lenStore_def lenDef_def)
  have ints: "map_of (sdefs lenStore) listHash = Some (DData (length []) [[], [TInt, TRec []]])"
    by (simp add: lenStore_def intsDef_def listHash_def lenHash_def)
  have "vty lenStore (VData listHash 0 []) (TData listHash [])"
    by (rule vty_Data [OF ints]) (simp_all add: instCtorFields_def ctors_of_def)
  then have "vty lenStore (VData listHash 1 [VInt 5, VData listHash 0 []]) (TData listHash [])"
    by (intro vty_Data [OF ints]) (simp_all add: instCtorFields_def ctors_of_def vty_Int)
  then show "list_all2 (vty lenStore) [VData listHash 1 [VInt 5, VData listHash 0 []]] (map (instT []) [TData listHash []])"
    by simp
  have "data_arrow_free lenStore listHash" by code_simp
  then show "list_all (data_ty lenStore) (map (instT []) [TData listHash []])" by simp
qed simp

text \<open>
  C17: the search with backtracking for a lexicographic order of the parameters
  finds one exactly when there is one, and its answer only depends on the set of call sites.
\<close>

theorem lex_search_exact:
  "lexDescends ss ps \<longleftrightarrow> (\<exists>ord. set ord \<subseteq> set ps \<and> (\<forall>s \<in> set ss. descends ord s))"
  by (rule lexDescends_iff)

theorem lex_search_exact_witness: "lexDescends [[None, Some [(1, Lt)]]] [0, 1]"
  unfolding lex_search_exact by (intro exI [of _ "[1]"]) (simp add: relAt_def)

text \<open>
  C18: the positivity check of the code does not give the covariance that the
  verdict needs. \<^verbatim>\<open>strictlyPositiveTy\<close> visits the argument of a container that is not
  arrow-free as negative, and flips that to positive below an arrow, so a type that occurs to
  the left of an arrow there is accepted. With such a type, a definition without references
  and without self-calls passes \<^verbatim>\<open>checkDef\<close>, is called \<^verbatim>\<open>nonrecursive\<close>, which counts as total,
  and spends every budget it is given.
\<close>

theorem positivity_hole:
  "checkDef negStore wrapDef = Inr wrapDef \<and> checkDef negStore negDef = Inr negDef \<and>
   checkDef negStore loopDef = Inr loopDef \<and>
   terminationOf (\<lambda>_. None) (\<lambda>_ _. False) negStore loopDef loopHash = Some ''nonrecursive'' \<and>
   isTotal ''nonrecursive'' \<and>
   (\<forall>d f. budget_error (fst (eval d negStore [] loopHash loopBody f)))"
proof (intro conjI)
  show "checkDef negStore wrapDef = Inr wrapDef" by code_simp
  show "checkDef negStore negDef = Inr negDef" by code_simp
  show "checkDef negStore loopDef = Inr loopDef" by code_simp
  show "terminationOf (\<lambda>_. None) (\<lambda>_ _. False) negStore loopDef loopHash = Some ''nonrecursive''" by code_simp
  show "isTotal ''nonrecursive''" by (simp add: isTotal_def)
  show "\<forall>d f. budget_error (fst (eval d negStore [] loopHash loopBody f))"
    using loop_diverges by (simp add: spent_def)
qed

section \<open>Property testing\<close>

text \<open>
  A store with a one-constructor wrapper, and the property that a wrapper in a wrapper is
  equal to itself.
\<close>

definition wrapperStore :: store where
  "wrapperStore = \<lparr>sdefs = [(boxHash, DData 1 [[TVar 0]])], slist = None\<rparr>"

definition nestedProp :: property where
  "nestedProp = \<lparr>binders = [TData boxHash [TData boxHash [TInt]]], pbody = Prim ''=='' [Var 0, Var 0]\<rparr>"

definition idMeta :: meta where
  "idMeta = \<lparr>mname = ''id'', tyvar_names = [], ctor_names = [], prop_names = [], aliases = (\<lambda>_. None),
     guarantee = (guarantee0 Proven)\<lparr>gproven := 1\<rparr>, mutants_killed = 0, mutants_total = 0, waived = [],
     campaign = '''', mtermination = ''nonrecursive'', spec_author = '''', body_author = '''', mauthor = '''',
     param_names = [''x''], mconfinement = [''''], proven_props = [0], hints = (\<lambda>_. None)\<rparr>"

lemma idStore_checked: "store_checked idStore"
proof -
  have "checkDef idStore idDef = Inr idDef" by code_simp
  then show ?thesis
    by (simp add: store_checked_def idStore_def listHash_def del: checkDef.simps)
qed

lemma idStore_ordered: "ordered (sdefs idStore)"
  by (simp add: idStore_def idDef_def)

lemma idStore_def_of:
  "map_of (sdefs idStore) listHash =
     Some (DFunc 0 (TFun TInt TInt) (Lam TInt (Var 0)) [\<lparr>binders = [TInt], pbody = BoolL True\<rparr>])"
  by (simp add: idStore_def idDef_def)

text \<open>
  C19: whatever the generator returns for a well-formed closed type is a
  value of that type, at every size and from every state of the stream; all it can fail
  with, in a store ordered by dependency, is that a data type has no base case.
\<close>

theorem generated_values_typed:
  assumes "ordered (sdefs st)" "store_wf st" "ty_wf st 0 False t"
  shows "case fst (genValue st t sz r) of Inl e \<Rightarrow> (\<exists>h. e = GNoBase h) | Inr v \<Rightarrow> vty st v t"
  using gyieldsD [OF genValue_typed [OF assms(2,3)], of sz r] genValue_error [OF assms, of sz r]
  by (simp split: sum.split)

theorem generated_values_typed_witness:
  "case fst (genValue listStore (TData listHash [TInt]) 2 7) of
     Inl e \<Rightarrow> (\<exists>h. e = GNoBase h) | Inr v \<Rightarrow> vty listStore v (TData listHash [TInt])"
  by (rule generated_values_typed)
    (auto simp: listStore_def listDef_def store_wf_def)

text \<open>
  C20: generation ends. The Go recursion has no bound of its own once the size
  is spent, where it only avoids constructors that mention their own type; in a store
  ordered by dependency it never goes deeper than the size plus two to the number of
  definitions, whatever the type and the stream, so the fuel of \<open>genValue\<close> is never spent
  and more fuel changes nothing.
\<close>

theorem generation_ends:
  assumes "ordered (sdefs st)" "sz + 2 ^ length (sdefs st) \<le> k"
  shows "gen k st sz t = genValue st t sz \<and> fst (genValue st t sz r) \<noteq> Inl GFuel"
proof
  have "gen_need st sz t \<le> sz + 2 ^ length (sdefs st)" by (rule gen_need_bound [OF assms(1)])
  then show "gen k st sz t = genValue st t sz"
    unfolding genValue_def using assms(2) by (rule gen_fuel_enough [OF assms(1)])
  show "fst (genValue st t sz r) \<noteq> Inl GFuel"
    using gyields_errorD [OF genValue_ends [OF assms(1)]] by blast
qed

theorem generation_ends_witness: "gen 9 listStore 3 (TData listHash [TInt]) = genValue listStore (TData listHash [TInt]) 3"
  using generation_ends [of listStore 3 9 "TData listHash [TInt]"]
  by (simp add: listStore_def listDef_def)

text \<open>
  C21: the run of a property computes the three-way outcome of \<^verbatim>\<open>SPEC\<close> 4.1 from the
  outcomes of its cases: a refutation dominates and its counterexample is the first, the
  counts are those of the cases before it, and a report never carries both a counterexample
  and a reason for having no verdict.
\<close>

theorem run_prop_exact:
  "runProp st h p name base ix cases fuel =
     prop_verdict name (map (prop_case st h p base ix fuel) [0..<cases])"
  by (rule runProp_verdict)

text \<open>
  C22: a larger budget only settles what was indeterminate: a property
  that passed has the same report, one that was refuted stays refuted.
\<close>

theorem verdicts_survive_fuel:
  assumes "fuel \<le> fuel'"
  shows "(routcome (runProp st h p name base ix cases fuel) = PropPassed \<longrightarrow>
      runProp st h p name base ix cases fuel' = runProp st h p name base ix cases fuel) \<and>
    (routcome (runProp st h p name base ix cases fuel) = PropFalsified \<longrightarrow>
      routcome (runProp st h p name base ix cases fuel') = PropFalsified)"
  using runProp_more_fuel [OF assms] by blast

theorem verdicts_survive_fuel_witness:
  "routcome (runProp idStore listHash \<lparr>binders = [], pbody = BoolL False\<rparr> ''p'' 0 0 1 propFuel) = PropFalsified"
proof -
  obtain d where d: "maxEvalDepth = Suc d"
    by (simp add: maxEvalDepth_def evalStackBudget_def evalFrameBytes_def)
  have "routcome (runProp idStore listHash \<lparr>binders = [], pbody = BoolL False\<rparr> ''p'' 0 0 1 3) = PropFalsified"
    by (simp add: runProp_verdict prop_verdict_simps prop_case_def genPropCase_def gret_def run_eval_def d
        ebind_def tick_def efrom_def)
  then show ?thesis
    using verdicts_survive_fuel [of 3 propFuel] by (simp add: propFuel_def)
qed

text \<open>
  C23: for a property of a checked definition, a case without a verdict is due
  to a data type without a base case or to an error that a checked program can meet; the
  body never evaluates to anything but a boolean, and the inputs of a counterexample have
  the types of the binders.
\<close>

theorem property_reasons:
  assumes "store_checked st" "ordered (sdefs st)"
    and "map_of (sdefs st) h = Some (DFunc n t b ps)" "p \<in> set ps"
  shows "case prop_case st h p base ix fuel c of
      Verdict env ok \<Rightarrow> list_all2 (vty st) env (binders p)
    | NoVerdict why \<Rightarrow> (\<exists>g. why = RGen (GNoBase g)) \<or> (\<exists>e. why = REval e \<and> benign e)"
  by (rule prop_case_reason [OF assms])

theorem property_reasons_witness:
  "case prop_case idStore listHash \<lparr>binders = [TInt], pbody = BoolL True\<rparr> 0 0 propFuel 5 of
      Verdict env ok \<Rightarrow> list_all2 (vty idStore) env [TInt]
    | NoVerdict why \<Rightarrow> (\<exists>g. why = RGen (GNoBase g)) \<or> (\<exists>e. why = REval e \<and> benign e)"
  using property_reasons [OF idStore_checked idStore_ordered idStore_def_of,
      of "\<lparr>binders = [TInt], pbody = BoolL True\<rparr>" 0 0 propFuel 5]
  by (simp only: property.select_convs list.set insert_iff simp_thms)

text \<open>
  C24: what \<^verbatim>\<open>verifyDef\<close> records. The level is \<open>falsified\<close> exactly when some
  property has a refuting case, and then no proof is kept; otherwise a definition that was
  proven, with a proof of every property, stays proven whatever the budget did; otherwise it
  is \<open>tested\<close> exactly when all 200 cases of all its properties evaluated to true. The proofs
  of a definition that is not refuted are kept, and no other definition's metadata change.
\<close>

theorem verify_guarantee:
  assumes "GetDef st h = Inr (DFunc n t b ps)" "metas h = Some m" "caseSeedBase h = Some base"
  shows "\<exists>reports m'. verifyDef st metas h = Inr (reports, metas(h \<mapsto> m')) \<and>
    (let bad = (\<exists>ix < length ps. \<exists>c < propCases. refutes (prop_case st h (ps ! ix) base ix propFuel c));
         good = (ps \<noteq> [] \<and> (\<forall>ix < length ps. \<forall>c < propCases. passes (prop_case st h (ps ! ix) base ix propFuel c)));
         proven = (ps \<noteq> [] \<and> glevel (guarantee m) = Proven \<and> length (proven_props m) = length ps)
     in glevel (guarantee m') = (if bad then Falsified else if proven then Proven else if good then Tested else Asserted) \<and>
        proven_props m' = (if bad then [] else proven_props m))"
proof -
  let ?rs = "map (\<lambda>ix. runProp st h (ps ! ix) (storedPropName m ix) base ix propCases propFuel) [0..<length ps]"
  let ?bad = "\<exists>ix < length ps. \<exists>c < propCases. refutes (prop_case st h (ps ! ix) base ix propFuel c)"
  have bad: "(\<exists>r \<in> set ?rs. routcome r = PropFalsified) \<longleftrightarrow> ?bad"
    by (auto simp: runProp_verdict prop_verdict_simps list_ex_iff Bex_def)
  have good: "(\<forall>r \<in> set ?rs. routcome r = PropPassed) \<longleftrightarrow>
      (\<forall>ix < length ps. \<forall>c < propCases. passes (prop_case st h (ps ! ix) base ix propFuel c))"
    by (auto simp: runProp_verdict prop_verdict_simps list_all_iff)
  have ne: "?bad \<Longrightarrow> ps \<noteq> []" by auto
  have v: "verifyDef st metas h = Inr (?rs, metas(h \<mapsto> verified_meta ps ?rs m))"
    using assms by (simp add: verifyDef_def verifyReports_def del: GetDef_Inr)
  have "glevel (guarantee (verified_meta ps ?rs m)) =
      (if ?bad then Falsified
       else if ps \<noteq> [] \<and> glevel (guarantee m) = Proven \<and> length (proven_props m) = length ps then Proven
       else if ps \<noteq> [] \<and> (\<forall>ix < length ps. \<forall>c < propCases. passes (prop_case st h (ps ! ix) base ix propFuel c))
       then Tested else Asserted)"
    unfolding verified_level bad good using ne by argo
  moreover have "proven_props (verified_meta ps ?rs m) = (if ?bad then [] else proven_props m)"
    unfolding verified_proofs verified_level bad using ne by (cases ?bad) (simp_all only: simp_thms if_True if_False, simp split: if_split)
  ultimately show ?thesis
    unfolding Let_def using v by blast
qed

theorem verify_guarantee_witness:
  "\<exists>reports m'. verifyDef idStore (Map.empty(listHash \<mapsto> idMeta)) listHash =
     Inr (reports, Map.empty(listHash \<mapsto> idMeta, listHash \<mapsto> m'))"
proof -
  have "length (the (hex_decode (take 16 listHash))) = 8 \<and> hex_decode (take 16 listHash) \<noteq> None"
    by code_simp
  then obtain base where base: "caseSeedBase listHash = Some base"
    by (auto simp: caseSeedBase_def)
  have "GetDef idStore listHash =
      Inr (DFunc 0 (TFun TInt TInt) (Lam TInt (Var 0)) [\<lparr>binders = [TInt], pbody = BoolL True\<rparr>])"
    by (simp add: idStore_def_of)
  moreover have "(Map.empty(listHash \<mapsto> idMeta)) listHash = Some idMeta" by simp
  ultimately show ?thesis
    by (meson verify_guarantee [OF _ _ base])
qed

text \<open>
  C25: a type nested in itself cannot be tested. When the size is spent,
  \<^verbatim>\<open>ctorRecursive\<close> looks for the type in the fields after the type's arguments have been put in.
  If every constructor has a field that is a parameter, and the argument for it mentions the
  data type, each counts as recursive and there is no candidate, so case 0 of every property
  whose first binder is such a type has no verdict and the property never passes. Such a type
  may well have values: a wrapper in a wrapper has.
\<close>

theorem nested_type_untestable:
  assumes "GetDef st h = Inr (DData n cs)" "binders p = TData h ts # us" "0 < cases"
    and "\<forall>fs \<in> set cs. \<exists>i < length ts. TVar i \<in> set fs \<and> tyMentionsHash (ts ! i) h"
  shows "prop_case st g p base ix fuel 0 = NoVerdict (RGen (GNoBase h)) \<and>
    routcome (runProp st g p name base ix cases fuel) \<noteq> PropPassed"
proof -
  have c: "prop_case st g p base ix fuel 0 = NoVerdict (RGen (GNoBase h))"
    using nested_error [OF assms(1,4)] assms(2) by (simp add: prop_case_def genPropCase_def gbind_def)
  then have "routcome (runProp st g p name base ix cases fuel) \<noteq> PropPassed"
    using assms(3) by (force simp: runProp_verdict prop_verdict_simps list_all_iff)
  with c show ?thesis by blast
qed

theorem nested_type_untestable_witness:
  "vty wrapperStore (VData boxHash 0 [VData boxHash 0 [VInt 0]]) (TData boxHash [TData boxHash [TInt]]) \<and>
   routcome (runProp wrapperStore listHash nestedProp ''p'' 0 0 propCases propFuel) \<noteq> PropPassed"
proof
  show "vty wrapperStore (VData boxHash 0 [VData boxHash 0 [VInt 0]]) (TData boxHash [TData boxHash [TInt]])"
    by (auto intro!: vty_Data [where cs = "[[TVar 0]]"] vty_Int simp: instCtorFields_def ctors_of_def wrapperStore_def)
  show "routcome (runProp wrapperStore listHash nestedProp ''p'' 0 0 propCases propFuel) \<noteq> PropPassed"
    using nested_type_untestable [of wrapperStore boxHash 1 "[[TVar 0]]" nestedProp "[TData boxHash [TInt]]" "[]" propCases listHash 0 0 propFuel "''p''"]
    by (simp add: wrapperStore_def nestedProp_def propCases_def)
qed

section \<open>Confinement\<close>

text \<open>
  A polymorphic application, and two definitions that use it to hand out the capability they
  are given: by leaving an argument out, and through the last argument of a closure.
\<close>

definition applyDef :: "def" where
  "applyDef = DFunc 2 (TFun (TFun (TVar 0) (TVar 1)) (TFun (TVar 0) (TVar 1)))
     (Lam (TFun (TVar 0) (TVar 1)) (Lam (TVar 0) (App (Var 1) (Var 0)))) []"

definition leakDef :: "def" where
  "leakDef = DFunc 0 (TFun (TFun TInt TInt) (TFun TInt TInt))
     (Lam (TFun TInt TInt) (App (Ref boxHash [TInt, TInt]) (Var 0))) []"

definition leakDef2 :: "def" where
  "leakDef2 = DFunc 0 (TFun (TFun TInt TInt) (TFun TInt TInt))
     (Lam (TFun TInt TInt)
       (App (App (Ref boxHash [TInt, TFun TInt TInt]) (Lam TInt (Lam TInt (App (Var 2) (Var 0))))) (IntL 0))) []"

definition leakStore :: store where
  "leakStore = \<lparr>sdefs = [(listHash, leakDef), (lenHash, leakDef2), (boxHash, applyDef)], slist = None\<rparr>"

definition applyMetas :: "hash \<Rightarrow> meta option" where
  "applyMetas = (\<lambda>_. None)(boxHash \<mapsto> idMeta\<lparr>mconfinement := confinementOf leakStore (\<lambda>_. None) applyDef\<rparr>)"

text \<open>
  C26: a closure that is not handed to a confined position is admitted exactly
  when the capability does not occur in it: nothing that is kept has captured it.
\<close>

theorem confined_closures:
  assumes "matches_ok st b"
  shows "confined st metas w (Lam p b) idx inLam \<longleftrightarrow> \<not> mentions st b (Suc idx)"
  using confined_in_lambda [of True st b metas w "Suc idx"] assms by simp

theorem confined_closures_witness:
  "confined leakStore applyMetas \<lparr>selfPos = 0, paramTy = TFun TInt TInt\<rparr> (Lam TInt (App (Var 1) (Var 0))) 0 False \<longleftrightarrow>
   \<not> mentions leakStore (App (Var 1) (Var 0)) (Suc 0)"
  by (rule confined_closures) simp

text \<open>
  C27: the analysis judges definitions \<^verbatim>\<open>confined\<close> that return the capability.
  A parameter may be passed to a confined position of a call that lacks arguments, whose
  result is a closure over it; and of a closure at a confined position every lambda is taken
  off, so that the inner one, which the callee returns, may use the capability. For both, the
  result of a call is a closure whose environment holds the capability itself.
\<close>

theorem confinement_leak:
  "checkDef leakStore applyDef = Inr applyDef \<and> confinementOf leakStore (\<lambda>_. None) applyDef = [''confined'', ''''] \<and>
   checkDef leakStore leakDef = Inr leakDef \<and> confinementOf leakStore applyMetas leakDef = [''confined''] \<and>
   fst (eval 10 leakStore [cap] listHash (App (Ref listHash []) (Var 0)) 100) =
     Inr (VClos [cap] (TVar 0) (App (Var 1) (Var 0)) boxHash) \<and>
   checkDef leakStore leakDef2 = Inr leakDef2 \<and> confinementOf leakStore applyMetas leakDef2 = [''confined''] \<and>
   fst (eval 10 leakStore [cap] lenHash (App (Ref lenHash []) (Var 0)) 100) =
     Inr (VClos [VInt 0, cap] TInt (App (Var 2) (Var 0)) lenHash)"
proof (intro conjI)
  show "checkDef leakStore applyDef = Inr applyDef" by code_simp
  show "checkDef leakStore leakDef = Inr leakDef" by code_simp
  show "checkDef leakStore leakDef2 = Inr leakDef2" by code_simp
  show "confinementOf leakStore (\<lambda>_. None) applyDef = [''confined'', '''']" by code_simp
  show "confinementOf leakStore applyMetas leakDef = [''confined'']" by code_simp
  show "confinementOf leakStore applyMetas leakDef2 = [''confined'']" by code_simp
  show "fst (eval 10 leakStore [cap] listHash (App (Ref listHash []) (Var 0)) 100) =
     Inr (VClos [cap] (TVar 0) (App (Var 1) (Var 0)) boxHash)" by code_simp
  show "fst (eval 10 leakStore [cap] lenHash (App (Ref lenHash []) (Var 0)) 100) =
     Inr (VClos [VInt 0, cap] TInt (App (Var 2) (Var 0)) lenHash)" by code_simp
qed

section \<open>The store\<close>

text \<open>A store of bytes that holds the identity, without a name for it.\<close>

definition freshStore :: ostore where
  "freshStore = \<lparr>objects = [], ometas = [], names = [], dcache = [], mcache = []\<rparr>"

definition idObjects :: ostore where
  "idObjects = freshStore\<lparr>objects := [(hex_digest (def_bytes idDef), def_bytes idDef)]\<rparr>"

lemma idDef_admitted: "def_canon idDef" "def_nodes idDef \<le> maxCanonicalNodes" "def_tyvars idDef \<le> maxCanonicalNodes"
  by (simp_all add: idDef_def property_canon_def tys_canon_def prop_nodes_def maxCanonicalNodes_def)

lemma idDef_stored: "\<exists>h s'. StoreObject freshStore idDef idMeta = Inr (h, s') \<and> objects s' \<noteq> []"
  using encodeDef_eq [OF def_canon_encodable [OF idDef_admitted(1)]]
  by (simp add: StoreObject_def freshStore_def getMeta_def put_object_def Let_def)

lemma idDef_put: "\<exists>h prev s'. Put freshStore idDef idMeta = Inr (h, prev, s') \<and> objects s' \<noteq> []"
  using idDef_stored by (auto simp: Put_def Repoint_def)

lemma idDef_accepted: "checkDef \<lparr>sdefs = [], slist = None\<rparr> idDef = Inr idDef"
  by code_simp

text \<open>The identity is accepted in every store without a bad name for lists.\<close>

lemma idDef_everywhere: "slist st = None \<Longrightarrow> checkDef st idDef = Inr idDef"
  by (rule checkDef_extends [OF _ _ idDef_accepted]) (simp_all add: store_wf_def extends_def)

lemma idDef_decodes: "decodeDef (def_bytes idDef) = Inr idDef"
  using idDef_admitted by (simp add: decodeDef_iff)

lemma idDef_alone: "no_cycles [(h, def_bytes idDef)]"
proof -
  have "collectDeps idDef = {}" by (simp add: idDef_def)
  then have "refers [(h, def_bytes idDef)] = {}" using idDef_decodes by (simp add: refers_def)
  then show ?thesis by (simp add: no_cycles_def acyclic_def)
qed

lemma idObjects_addressed: "addressed idObjects"
  using idDef_alone by (simp add: addressed_def list_bound_def idObjects_def freshStore_def Resolve_def)

text \<open>
  C28: what \<^verbatim>\<open>GetDef\<close> returns was checked, whatever bytes the back end holds.
  The hypotheses are that no object leads to its own hash, which would take a digest among the
  bytes it is of, that the name \<^verbatim>\<open>List\<close>, when bound, is bound to the list type, and that what is
  cached is what loads, as in a process that starts with an empty cache. Then \<^verbatim>\<open>GetDef\<close> answers
  with the definitions of the view and no others. They are a store of checked definitions,
  which can be listed with each definition behind those that refer to it: what the evaluator,
  the termination checker and the generator rely on. The object has the hash it was asked for
  and encodes a definition of which the answer is \<^verbatim>\<open>checkDef\<close>'s result in that whole store; and
  the cache, grown by what was loaded, still holds what loads.
\<close>

theorem load_checked:
  assumes "addressed s" "coherent s"
  shows "store_checked (view s) \<and> (\<exists>ds. ordered ds \<and> map_of ds = map_of (sdefs (view s))) \<and>
    coherent (snd (getDef s h)) \<and> (\<forall>d. fst (getDef s h) = Inr d \<longleftrightarrow> map_of (sdefs (view s)) h = Some d) \<and>
    (\<forall>d. fst (getDef s h) = Inr d \<longrightarrow>
       (\<exists>d0. hashDef d0 = Some h \<and> encodeDef d0 = map_of (objects s) h \<and> checkDef (view s) d0 = Inr d))"
proof (intro conjI allI impI)
  show "store_checked (view s)" by (rule view_checked [OF assms])
  show "\<exists>ds. ordered ds \<and> map_of ds = map_of (sdefs (view s))"
    using fresh_ordered assms(1) by (simp add: view_fresh [OF assms] addressed_def)
  show "coherent (snd (getDef s h))" "fst (getDef s h) = Inr d \<longleftrightarrow> map_of (sdefs (view s)) h = Some d" for d
    using getDef_view [OF assms] by simp_all
qed (rule getDef_identity [OF assms])

theorem load_checked_witness: "store_checked (view idObjects) \<and> fst (getDef idObjects (hex_digest (def_bytes idDef))) = Inr idDef"
proof -
  have "coherent idObjects" by (simp add: idObjects_def freshStore_def)
  from load_checked [OF idObjects_addressed this, of "hex_digest (def_bytes idDef)"]
  have "store_checked (view idObjects)"
    "\<forall>d. fst (getDef idObjects (hex_digest (def_bytes idDef))) = Inr d \<longleftrightarrow>
      map_of (sdefs (view idObjects)) (hex_digest (def_bytes idDef)) = Some d" by blast+
  moreover have "map_of (sdefs (view idObjects)) (hex_digest (def_bytes idDef)) = Some idDef"
    by (simp add: view_def live_def idObjects_def freshStore_def Resolve_def map_of_loaded load_object_def
        idDef_decodes idDef_everywhere)
  ultimately show ?thesis by blast
qed

text \<open>
  C29: a definition that the format admits and the checker accepts as it
  stands, once stored, loads again under the hash it was stored under, from the cache and, in a
  process that starts with an empty cache, from its bytes; whether or not there was an object
  under the hash. The hypotheses on cycles and on \<^verbatim>\<open>List\<close> are those of the property before, for
  the store that is read; before the write only cycles are excluded.
\<close>

theorem put_then_load:
  assumes "def_canon d" "def_nodes d \<le> maxCanonicalNodes" "def_tyvars d \<le> maxCanonicalNodes"
    and "checkDef (view (s\<lparr>dcache := []\<rparr>)) d = Inr d"
    and "StoreObject s d m = Inr (h, s')" "no_cycles (objects s)" "addressed s'"
  shows "hashDef d = Some h \<and> fst (getDef s' h) = Inr d \<and> fst (getDef (s'\<lparr>dcache := []\<rparr>) h) = Inr d"
  using stored_object_loads [OF assms] StoreObject_Inr [OF assms(5)] by (auto simp: hashDef_def)

theorem put_then_load_witness:
  "\<exists>h s'. StoreObject freshStore idDef idMeta = Inr (h, s') \<and> fst (getDef (s'\<lparr>dcache := []\<rparr>) h) = Inr idDef"
proof -
  obtain h s' where s: "StoreObject freshStore idDef idMeta = Inr (h, s')"
    using idDef_stored by blast
  have "objects s' = [(hex_digest (def_bytes idDef), def_bytes idDef)]" "names s' = []"
    using StoreObject_Inr [OF s] encodeDef_eq [OF def_canon_encodable [OF idDef_admitted(1)]]
    by (auto simp: freshStore_def put_object_def)
  then have a: "no_cycles (objects freshStore)" "addressed s'"
    using idDef_alone by (simp_all add: addressed_def list_bound_def Resolve_def freshStore_def no_cycles_def refers_def acyclic_def)
  have "checkDef (view (freshStore\<lparr>dcache := []\<rparr>)) idDef = Inr idDef"
    by (intro idDef_everywhere) (simp add: view_def live_def freshStore_def Resolve_def)
  from put_then_load [OF idDef_admitted this s a] s show ?thesis by blast
qed

text \<open>
  C30: publishing under a name moves that name and no other, returns what it was
  bound to, and loses nothing that was known of the hash: each name of the object keeps the
  vocabulary it was published with, and the verdicts stay.
\<close>

theorem put_keeps_names:
  assumes "Put s d m = Inr (h, prev, s')"
  shows "prev = Resolve s (mname m) \<and>
    (\<forall>n. Resolve s' n = (if n = mname m then Some h else Resolve s n)) \<and>
    (case fst (getMeta s h) of
       Inl e \<Rightarrow> map_of (ometas s') h = Some m
     | Inr p \<Rightarrow> \<exists>m'. map_of (ometas s') h = Some m' \<and>
         (\<forall>k. naming m' k = (if k = mname m then Some (naming_of m) else naming p k)) \<and>
         guarantee m' = guarantee p \<and> proven_props m' = proven_props p \<and>
         mtermination m' = mtermination p \<and> mconfinement m' = mconfinement p \<and> waived m' = waived p)"
  using Put_Inr [OF assms] by (cases "fst (getMeta s h)") (simp_all add: naming_merge merge_verdicts)

theorem put_keeps_names_witness:
  "\<exists>h prev s'. Put freshStore idDef idMeta = Inr (h, prev, s') \<and> Resolve s' ''id'' = Some h"
proof -
  obtain h prev s' where s: "Put freshStore idDef idMeta = Inr (h, prev, s')"
    using idDef_put by blast
  from put_keeps_names [OF s] s show ?thesis by (auto simp: idMeta_def)
qed

text \<open>
  C31: in every history of one process on the store, whatever operations it runs
  and in whatever order, an object stays under the digest of its bytes, has metadata, the
  metadata cache agrees with what is stored, and no object is lost or replaced by bytes of
  another digest.
\<close>

theorem store_histories:
  assumes "store_history s s'" "store_inv s"
  shows "store_inv s' \<and> keeps_objects s s'"
  by (rule history_inv [OF assms])

theorem store_histories_witness:
  "\<exists>s'. store_history freshStore s' \<and> objects s' \<noteq> [] \<and> store_inv s'"
proof -
  obtain h prev s' where s: "Put freshStore idDef idMeta = Inr (h, prev, s')" "objects s' \<noteq> []"
    using idDef_put by blast
  have "store_history freshStore s'" using step_put [OF s(1)] by blast
  then show ?thesis
    using store_histories [of freshStore s'] s(2) by (auto simp: store_inv_def freshStore_def)
qed

section \<open>Normalisation\<close>

definition plusZero :: trm where
  "plusZero = Lam TInt (Prim ''+'' [IntL 0, Var 0])"

definition eqStore :: store where
  "eqStore = \<lparr>sdefs = [(listHash, DFunc 0 (TFun TInt TInt) plusZero []),
     (boxHash, DFunc 0 (TFun TInt TInt) (Lam TInt (Var 0)) [])], slist = None\<rparr>"

lemma eqStore_checked: "store_checked eqStore"
proof -
  have "checkDef eqStore (DFunc 0 (TFun TInt TInt) plusZero []) = Inr (DFunc 0 (TFun TInt TInt) plusZero [])"
    "checkDef eqStore (DFunc 0 (TFun TInt TInt) (Lam TInt (Var 0)) []) = Inr (DFunc 0 (TFun TInt TInt) (Lam TInt (Var 0)) [])"
    by code_simp+
  then show ?thesis
    by (simp add: store_checked_def eqStore_def listHash_def boxHash_def del: checkDef.simps)
qed

lemma plusZero_normal: "eNormalize E [] plusZero = Lam TInt (Var 0)" "eNormalize E [] (Lam TInt (Var 0)) = Lam TInt (Var 0)"
proof -
  have "typed E (pushCtx [] TInt) (IntL 0) TInt" by (rule typed_Int)
  from msynth_typed [OF this] have m: "msynth E [TInt] (IntL 0) = (IntL 0, Some TInt)" by (simp add: pushCtx_def)
  show "eNormalize E [] plusZero = Lam TInt (Var 0)"
    by (simp add: eNormalize_def plusZero_def exit_prim_def negInvolution_def commutativePrims_def pushCtx_def m
        isACPrim_def acFlatten_def acRebuild_def acDropUnits_def acUnitLeaf_def idempotentPrims_def)
  show "eNormalize E [] (Lam TInt (Var 0)) = Lam TInt (Var 0)" by (simp add: eNormalize_def)
qed

text \<open>
  Eta reduction turns a closure into the function it wraps, and \<^verbatim>\<open>==\<close> tells the two apart when
  the function is one that the input generator made: its kind differs from a closure's, so two
  boxes, one with the closure, are unequal, and with the function itself the comparison is of
  two functions and fails. Both definitions are accepted, with the same normal form.
\<close>

definition etaBody :: "trm \<Rightarrow> trm" where
  "etaBody f = Lam (TFun TInt TInt) (Lam (TFun TInt TInt)
     (Prim ''=='' [Ctor boxHash 0 [] [f], Ctor boxHash 0 [] [Var 0]]))"

definition etaEnv :: env where
  "etaEnv = \<lparr>est = boxStore, etv = 0, eself = Some (TFun (TFun TInt TInt) (TFun (TFun TInt TInt) TBool))\<rparr>"

lemma eta_observable:
  "(\<forall>f \<in> {Lam TInt (App (Var 2) (Var 0)), Var 1}.
      checkDef boxStore (DFunc 0 (TFun (TFun TInt TInt) (TFun (TFun TInt TInt) TBool)) (etaBody f) []) =
        Inr (DFunc 0 (TFun (TFun TInt TInt) (TFun (TFun TInt TInt) TBool)) (etaBody f) [])) \<and>
   eNormalize etaEnv [] (etaBody (Lam TInt (App (Var 2) (Var 0)))) =
     eNormalize etaEnv [] (etaBody (Var 1)) \<and>
   fst (ebind (eval 10 boxStore [] listHash (etaBody (Lam TInt (App (Var 2) (Var 0)))))
     (\<lambda>g. apply_all (eval 10 boxStore) g [VId, VId]) 100) = Inr (VBool False) \<and>
   fst (ebind (eval 10 boxStore [] listHash (etaBody (Var 1))) (\<lambda>g. apply_all (eval 10 boxStore) g [VId, VId]) 100) =
     Inl EEqFun"
  unfolding ball_simps insert_iff empty_iff simp_thms
  by (intro conjI) code_simp+

text \<open>
  C32: normalisation keeps meaning, away from the functions that the input
  generator makes. For a definition of a checked store within the
  bounds of the profile, the normalized body has the same type and no more nodes, and at typed
  arguments that hold no such function, also not in what a closure captures, and whose floats
  are canonical, a call returns a data value, with some budgets, exactly when the normalized
  body in its place returns the same value. Recursion, closures as arguments, divergence and
  failing calls are covered: the normalized body returns nothing that the body does not.
\<close>

theorem normalise_sound:
  assumes "store_checked st" "map_of (sdefs st) h = Some (DFunc (length s) (funs ps r) b qs)" "list_all norec s"
    and "trm_canon b" "trm_nodes b \<le> maxCanonicalNodes"
    and "list_all2 (vty st) as (map (instT s) ps)" "list_all plain as" "first_order v"
  defines "E \<equiv> \<lparr>est = st, etv = length s, eself = Some (funs ps r)\<rparr>"
  shows "typed E [] (eNormalize E [] b) (funs ps r) \<and> trm_nodes (eNormalize E [] b) \<le> trm_nodes b \<and>
    ((\<exists>d f f'. call st (eval d st) h as f = (Inr v, f')) \<longleftrightarrow>
     (\<exists>d f f'. ebind (eval d st [] h (eNormalize E [] b)) (\<lambda>g. apply_all (eval d st) g as) f = (Inr v, f')))"
  using normal_calls [OF assms(1-8)] by (simp add: E_def)

theorem normalise_sound_witness:
  "typed \<lparr>est = eqStore, etv = 0, eself = Some (TFun TInt TInt)\<rparr> [] (Lam TInt (Var 0)) (TFun TInt TInt) \<and>
   (\<exists>d f f'. call eqStore (eval d eqStore) listHash [VInt 5] f = (Inr (VInt 5), f'))"
proof -
  let ?E = "\<lparr>est = eqStore, etv = 0, eself = Some (TFun TInt TInt)\<rparr>"
  have "typed ?E [] (eNormalize ?E [] plusZero) (TFun TInt TInt) \<and> trm_nodes (eNormalize ?E [] plusZero) \<le> trm_nodes plusZero \<and>
    ((\<exists>d f f'. call eqStore (eval d eqStore) listHash [VInt 5] f = (Inr (VInt 5), f')) \<longleftrightarrow>
     (\<exists>d f f'. ebind (eval d eqStore [] listHash (eNormalize ?E [] plusZero)) (\<lambda>g. apply_all (eval d eqStore) g [VInt 5]) f = (Inr (VInt 5), f')))"
    using normalise_sound [of eqStore listHash "[]" "[TInt]" TInt plusZero "[]" "[VInt 5]" "VInt 5"] eqStore_checked
    by (simp add: eqStore_def plusZero_def int_canon_def maxCanonicalNodes_def vty_Int)
  moreover have "ebind (eval 2 eqStore [] listHash (Lam TInt (Var 0))) (\<lambda>g. apply_all (eval 2 eqStore) g [VInt 5]) 10 = (Inr (VInt 5), 7)"
    by code_simp
  ultimately show ?thesis unfolding plusZero_normal by blast
qed

text \<open>
  C33: what \<^verbatim>\<open>find --equiv\<close> identifies is equal. If the bytes that \<^verbatim>\<open>eHash\<close> digests are
  the same for two functions of one store, after normalisation, saturation and extraction, then
  they have the same type, and at typed arguments as in the property before they return the
  same data, although their hashes differ and each means itself by \<^verbatim>\<open>self\<close>. The bytes do not
  hold the number of type variables, which may differ: a second definition may have some that
  its type does not mention. Types and bodies are within the bounds of format and profile.
\<close>

theorem ehash_sound:
  assumes "store_checked st" "map_of (sdefs st) h = Some (DFunc (length s) (funs ps r) b qs)"
    and "map_of (sdefs st) h' = Some (DFunc n t b' qs')" "list_all norec s"
    and "ty_canon (funs ps r)" "trm_canon b" "trm_nodes b \<le> maxCanonicalNodes"
    and "ty_canon t" "trm_canon b'" "trm_nodes b' \<le> maxCanonicalNodes"
    and "list_all2 (vty st) as (map (instT s) ps)" "list_all plain as" "first_order v"
    and "eBytes st (length s) (funs ps r) b = eBytes st n t b'"
  shows "t = funs ps r \<and>
    ((\<exists>d f f'. call st (eval d st) h as f = (Inr v, f')) \<longleftrightarrow> (\<exists>d f f'. call st (eval d st) h' as f = (Inr v, f')))"
  by (rule equal_bytes_calls [OF assms])

theorem ehash_sound_witness:
  "(\<exists>d f f'. call eqStore (eval d eqStore) listHash [VInt 5] f = (Inr (VInt 5), f')) \<longleftrightarrow>
   (\<exists>d f f'. call eqStore (eval d eqStore) boxHash [VInt 5] f = (Inr (VInt 5), f'))"
proof (rule conjunct2 [OF ehash_sound])
  show "map_of (sdefs eqStore) listHash = Some (DFunc (length []) (funs [TInt] TInt) plusZero [])"
    "map_of (sdefs eqStore) boxHash = Some (DFunc 0 (TFun TInt TInt) (Lam TInt (Var 0)) [])"
    by (simp_all add: eqStore_def listHash_def boxHash_def)
  show "trm_canon plusZero" "trm_nodes plusZero \<le> maxCanonicalNodes"
    by (simp_all add: plusZero_def int_canon_def maxCanonicalNodes_def)
qed (simp_all add: eqStore_checked eBytes_def plusZero_normal maxCanonicalNodes_def vty_Int)

section \<open>More on the encoding\<close>

text \<open>
  C34: the iterative encoder, with its explicit stack and its window on the output,
  writes the bytes of the recursive specification.
\<close>

theorem encode_spec:
  assumes "def_encodable d"
  shows "encodeDef d = Some (def_bytes d)"
  by (rule encodeDef_eq [OF assms])

theorem encode_spec_witness: "encodeDef listDef = Some (def_bytes listDef)"
  by (rule encode_spec) (simp add: listDef_def)

text \<open>
  C35: the decoder's running charge has exact parity with the profile's counter: the
  encoding of an admitted value decodes if and only if the counter stays within its limit.
\<close>

theorem decode_budget:
  assumes "def_canon d"
  shows "decodeDefRaw (def_bytes d) = Inr d \<longleftrightarrow> countCanonicalNodes d maxCanonicalNodes \<noteq> None"
  using assms by (simp add: decodeDefRaw_iff countCanonicalNodes_eq)

theorem decode_budget_witness:
  "decodeDefRaw (def_bytes listDef) = Inr listDef \<longleftrightarrow>
   countCanonicalNodes listDef maxCanonicalNodes \<noteq> None"
  by (rule decode_budget) (simp add: listDef_def tys_canon_def)

text \<open>
  C36: the decoder's recursion is bounded by the length of its input: with the
  fuel it is given it never runs out, on any bytes.
\<close>

theorem decode_terminates: "decodeDef b \<noteq> Inl OutOfFuel"
  by (rule decodeDef_fuel)

text \<open>
  C37: \<^verbatim>\<open>compareTermsCanonical\<close> returns, and orders terms as \<^verbatim>\<open>bytes.Compare\<close> orders
  their full encodings, although it only ever encodes prefixes of doubling length.
\<close>

theorem compare_canonical:
  assumes "trm_encodable a" "trm_encodable b"
  shows "compareTermsCanonical a b = Some (bytes_compare (trm_bytes a) (trm_bytes b))"
  using cmp_loop_eq [OF assms, of 64] by (simp add: compareTermsCanonical_def)

theorem compare_canonical_witness:
  "compareTermsCanonical (IntL 1) (Var 0) = Some (bytes_compare (trm_bytes (IntL 1)) (trm_bytes (Var 0)))"
  by (rule compare_canonical) simp_all

text \<open>
  C38: the generalised signature behind \<^verbatim>\<open>propHashGeneral\<close> is invariant under
  a one-to-one exchange of the primitive types a law is stated at.
\<close>

theorem general_hash_renaming:
  assumes "inj_on f prim_leaves" "f ` prim_leaves \<subseteq> prim_leaves"
  shows "generalizeTypes (map (rename_leaves f) ts) = generalizeTypes ts"
  by (rule generalizeTypes_rename [OF assms])

theorem general_hash_renaming_witness:
  "generalizeTypes (map (rename_leaves (\<lambda>t. if t = TInt then TRat else if t = TRat then TInt else t))
     [TInt, TFun TInt TRat]) = generalizeTypes [TInt, TFun TInt TRat]"
  by (rule general_hash_renaming) (auto simp: inj_on_def prim_leaves_def)

section \<open>Types\<close>

text \<open>
  C39: \<^verbatim>\<open>checkDef\<close> on data types against the rule of \<^verbatim>\<open>docs/SPEC.md\<close>, which is
  stated apart from the code (\<open>forbidden\<close>). Every data type with a constructor, well-formed
  fields and no \<^verbatim>\<open>rec\<close> in a negative position is accepted. Nothing else is, as long as no
  argument of a container from which an arrow can be reached holds an arrow itself; where one
  does, the code flips a polarity that it should not, which is the hole shown above. That the
  arguments of \<^verbatim>\<open>rec\<close> are the parameters is not part of well-formedness here, as in the code:
  they are only counted.
\<close>

theorem data_positivity:
  "(cs \<noteq> [] \<and> (\<forall>fs \<in> set cs. \<forall>t \<in> set fs. ty_wf st n True t \<and> \<not> forbidden st t False) \<longrightarrow>
      checkDef st (DData n cs) = Inr (DData n cs)) \<and>
   ((\<forall>fs \<in> set cs. list_all (arrows_apart st) fs) \<longrightarrow> checkDef st (DData n cs) = Inr d \<longrightarrow>
      d = DData n cs \<and> cs \<noteq> [] \<and> (\<forall>fs \<in> set cs. \<forall>t \<in> set fs. ty_wf st n True t \<and> \<not> forbidden st t False))"
  using allowed_accepted [of cs st n] accepted_allowed [of cs st n d] by blast

text \<open>The list type, and a type with itself to the left of an arrow, as it is and below a list.\<close>

theorem data_positivity_witness:
  "checkDef listStore listDef = Inr listDef \<and>
   checkDef listStore (DData 0 [[TFun (TRec []) TInt]]) \<noteq> Inr (DData 0 [[TFun (TRec []) TInt]]) \<and>
   checkDef listStore (DData 0 [[TData listHash [TFun (TRec []) TInt]]]) \<noteq> Inr (DData 0 [[TData listHash [TFun (TRec []) TInt]]])"
proof -
  have "\<not> arrowy listStore listHash"
    unfolding data_arrow_free_eq [symmetric] by code_simp
  then show ?thesis
    unfolding listDef_def
    using data_positivity [of "[[], [TVar 0, TRec [TVar 0]]]" listStore 1 listDef]
      data_positivity [of "[[TFun (TRec []) TInt]]" listStore 0 "DData 0 [[TFun (TRec []) TInt]]"]
      data_positivity [of "[[TData listHash [TFun (TRec []) TInt]]]" listStore 0 "DData 0 [[TData listHash [TFun (TRec []) TInt]]]"]
    by (simp del: checkDef.simps)
qed

text \<open>
  C40: \<^verbatim>\<open>dataArrowFree\<close>, a depth-first search over the store that shares its set of
  visited hashes and its flag, decides whether a function type (or a hash that is no data
  type) can be reached from a data type, cyclic stores included.
\<close>

theorem arrow_free_exact: "data_arrow_free st h \<longleftrightarrow> \<not> arrowy st h"
  by (rule data_arrow_free_eq)

end
